(* ===== verification/Prelude.thy ===== *)
theory Prelude
  imports
    Main
    "HOL-Library.Word"
    "HOL-Library.AList"
    "HOL-Library.Char_ord"
    "HOL-Library.List_Lexorder"
    "HOL-Library.Multiset"
begin

text \<open>
  What every component shares: the names of the machine integers and of the standard
  containers, loops that may throw, and the generic facts about lists, association lists
  and sums that the component proofs rest on.

  \<^item> \<open>std::unordered_map\<close> and \<open>std::map\<close> are association lists with distinct keys
    (\<open>'k \<rightharpoonup> 'v\<close> where nothing iterates over them).  The list order is the iteration
    order; a new key goes to the end.  A hash table gives no such order, so a theorem about a
    loop over a map must not depend on it, and the ones here do not.
  \<^item> A C++ exception is the left value of a sum.  The message is built as the source builds it.
    \<open>UndefinedBehaviour\<close> and \<open>SignedOverflow\<close> are no exceptions: they mark a point at which the C++
    program has no defined behaviour (a cast of a pointer to the wrong class, a null pointer; an
    overflow of \<open>int64_t\<close>).
\<close>

section \<open>Names and collections of theorems\<close>

named_theorems umap_simps \<open>lookup and key facts of the association-list maps\<close>
named_theorems loop_simps \<open>facts about loops that may throw\<close>

type_synonym u64 = "64 word"
type_synonym u32 = "32 word"
type_synonym u8 = "8 word"

type_synonym ('k, 'v) umap = "('k \<times> 'v) list"

datatype exn =
    RuntimeError string
  | PlannerTypeError string
  | PlannerPlanError string
  | PlannerBindError string
  | LogicError string
  | OutOfRange
  | UndefinedBehaviour
  | SignedOverflow

text \<open>The name in single quotes, as the messages print it.\<close>

definition quoted :: "string \<Rightarrow> string" where
  "quoted s = CHR 0x27 # s @ [CHR 0x27]"

text \<open>The logical column types of the query engine (\<open>include/query/IQueryable.h\<close>).\<close>

datatype ColumnType = CT_STRING | CT_TIMESTAMP | CT_DURATION_SECONDS | CT_INT | CT_NATIVE_VALUE | CT_BOOL

text \<open>A signed 64-bit result: outside the range the C++ operation overflows.\<close>

definition int64 :: "int \<Rightarrow> exn + int" where
  "int64 i = (if - (2 ^ 63) \<le> i \<and> i < 2 ^ 63 then Inr i else Inl SignedOverflow)"

section \<open>Maps with an iteration order\<close>

definition umap_emplace :: "'k \<Rightarrow> 'v \<Rightarrow> ('k, 'v) umap \<Rightarrow> ('k, 'v) umap" where
  "umap_emplace k v m = (if map_of m k = None then m @ [(k, v)] else m)"

definition umap_assign :: "'k \<Rightarrow> 'v \<Rightarrow> ('k, 'v) umap \<Rightarrow> ('k, 'v) umap" where
  "umap_assign k v m = AList.update k v m"

abbreviation umap_ok :: "('k, 'v) umap \<Rightarrow> bool" where
  "umap_ok m \<equiv> distinct (map fst m)"

lemma map_of_emplace [umap_simps]:
  "map_of (umap_emplace k v m) =
     (case map_of m k of None \<Rightarrow> (map_of m)(k \<mapsto> v) | Some _ \<Rightarrow> map_of m)"
  by (auto simp: umap_emplace_def map_add_def fun_eq_iff split: option.splits)

lemma map_of_assign [umap_simps]: "map_of (umap_assign k v m) = (map_of m)(k \<mapsto> v)"
  by (simp add: umap_assign_def update_conv')

lemma umap_ok_emplace [umap_simps]: "umap_ok m \<Longrightarrow> umap_ok (umap_emplace k v m)"
  by (auto simp: umap_emplace_def map_of_eq_None_iff)

lemma umap_ok_assign [umap_simps]: "umap_ok m \<Longrightarrow> umap_ok (umap_assign k v m)"
  by (simp add: umap_assign_def distinct_update)

lemma keys_assign [umap_simps]: "fst ` set (umap_assign k v m) = insert k (fst ` set m)"
  by (metis dom_map_of_conv_image_fst dom_fun_upd map_of_assign option.distinct(1))

lemma keys_emplace [umap_simps]: "fst ` set (umap_emplace k v m) = insert k (fst ` set m)"
  by (auto simp: umap_emplace_def map_of_eq_None_iff)

lemma umap_in_set_iff: "umap_ok m \<Longrightarrow> (k, v) \<in> set m \<longleftrightarrow> map_of m k = Some v"
  by (auto simp: map_of_is_SomeI dest: map_of_SomeD)

section \<open>Loops that may throw\<close>

fun foldE :: "('s \<Rightarrow> 'x \<Rightarrow> 'e + 's) \<Rightarrow> 's \<Rightarrow> 'x list \<Rightarrow> 'e + 's" where
  "foldE f s [] = Inr s"
| "foldE f s (x # xs) = (case f s x of Inl e \<Rightarrow> Inl e | Inr s' \<Rightarrow> foldE f s' xs)"

fun mapE :: "('x \<Rightarrow> 'e + 'y) \<Rightarrow> 'x list \<Rightarrow> 'e + 'y list" where
  "mapE f [] = Inr []"
| "mapE f (x # xs) =
     (case f x of Inl e \<Rightarrow> Inl e
      | Inr y \<Rightarrow> (case mapE f xs of Inl e \<Rightarrow> Inl e | Inr ys \<Rightarrow> Inr (y # ys)))"

lemma mapE_cong [fundef_cong]:
  "xs = ys \<Longrightarrow> (\<And>x. x \<in> set ys \<Longrightarrow> f x = g x) \<Longrightarrow> mapE f xs = mapE g ys"
  by (induction xs arbitrary: ys) (auto split: sum.splits)

lemma foldE_append [loop_simps]:
  "foldE f s (xs @ ys) = (case foldE f s xs of Inl e \<Rightarrow> Inl e | Inr s' \<Rightarrow> foldE f s' ys)"
  by (induction xs arbitrary: s) (auto split: sum.splits)

lemma foldE_invariant:
  assumes "foldE f s xs = Inr s'" and "I s"
    and "\<And>s x t. x \<in> set xs \<Longrightarrow> I s \<Longrightarrow> f s x = Inr t \<Longrightarrow> I t"
  shows "I s'"
  using assms
proof (induction xs arbitrary: s)
  case Nil
  then show ?case by simp
next
  case (Cons x xs)
  from Cons.prems(1) obtain t where t: "f s x = Inr t" and rest: "foldE f t xs = Inr s'"
    by (auto split: sum.splits)
  have "I t" by (rule Cons.prems(3) [OF _ Cons.prems(2) t]) simp
  then show ?case
    by (rule Cons.IH [OF rest]) (rule Cons.prems(3), simp_all)
qed

lemma mapE_Inr_iff [loop_simps]:
  "mapE f xs = Inr ys \<longleftrightarrow> list_all2 (\<lambda>x y. f x = Inr y) xs ys"
proof (induction xs arbitrary: ys)
  case Nil
  then show ?case by auto
next
  case (Cons x xs)
  show ?case
  proof (cases ys)
    case Nil
    then show ?thesis by (auto split: sum.splits)
  next
    case (Cons y ys')
    show ?thesis
      using Cons.IH [of ys'] by (cases "f x"; cases "mapE f xs") (auto simp: Cons)
  qed
qed

lemma mapE_Inl_iff [loop_simps]:
  "(\<exists>e. mapE f xs = Inl e) \<longleftrightarrow> (\<exists>x\<in>set xs. \<exists>e. f x = Inl e)"
  by (induction xs) (auto split: sum.splits)

lemma mapE_all:
  "mapE f xs = Inr ys \<Longrightarrow> (\<And>x y. x \<in> set xs \<Longrightarrow> f x = Inr y \<Longrightarrow> P y) \<Longrightarrow> \<forall>y\<in>set ys. P y"
proof (induction xs arbitrary: ys)
  case (Cons x xs)
  obtain y zs where y: "f x = Inr y" "mapE f xs = Inr zs" "ys = y # zs"
    using Cons.prems(1) by (auto split: sum.splits)
  have "\<forall>y\<in>set zs. P y" by (rule Cons.IH [OF y(2)]) (rule Cons.prems(2), simp_all)
  moreover have "P y" by (rule Cons.prems(2) [OF _ y(1)]) simp
  ultimately show ?case using y(3) by simp
qed simp

lemma mapE_first_error: "mapE f xs = Inl e \<Longrightarrow> \<exists>x\<in>set xs. f x = Inl e"
  by (induction xs) (auto split: sum.splits)

lemma mapE_total [loop_simps]: "(\<And>x. x \<in> set xs \<Longrightarrow> f x = Inr (g x)) \<Longrightarrow> mapE f xs = Inr (map g xs)"
  by (induction xs) auto

section \<open>Lists\<close>

lemma filter_sort_perm:
  fixes xs ys :: "'a::linorder list"
  assumes "mset xs = mset ys"
  shows "sort (filter P xs) = sort (filter P ys)"
proof -
  from assms have "mset (filter P xs) = mset (filter P ys)"
    by (metis mset_filter)
  then show ?thesis
    by (metis mset_sort properties_for_sort sorted_sort)
qed

lemma map_nth_filter: "map ((!) xs) (filter (\<lambda>j. P (xs ! j)) [0..<length xs]) = filter P xs"
proof -
  have "filter P xs = filter P (map ((!) xs) [0..<length xs])" by (simp add: map_nth)
  then show ?thesis by (simp add: filter_map o_def)
qed

lemma distinct_set_mset: "distinct xs \<Longrightarrow> distinct ys \<Longrightarrow> set xs = set ys \<Longrightarrow> mset xs = mset ys"
  by (simp add: set_eq_iff_mset_eq_distinct)

lemma drop_cons_nth: "i < length xs \<Longrightarrow> drop i xs = xs ! i # drop (Suc i) xs"
  by (simp add: Cons_nth_drop_Suc)

lemma sum_list_map_update:
  fixes f :: "'a \<Rightarrow> int"
  assumes "i < length xs"
  shows "sum_list (map f (xs[i := x])) = sum_list (map f xs) - f (xs ! i) + f x"
  using assms
proof (induction xs arbitrary: i)
  case (Cons y ys)
  then show ?case by (cases i) auto
qed simp

section \<open>Decimal numbers\<close>

text \<open>\<open>std::to_string\<close> of an unsigned number.\<close>

definition digit :: "nat \<Rightarrow> char" where
  "digit d = char_of (48 + d)"

fun to_string :: "nat \<Rightarrow> string" where
  "to_string n = (if n < 10 then [digit n] else to_string (n div 10) @ [digit (n mod 10)])"

declare to_string.simps [simp del]

lemma of_char_digit: "d < 10 \<Longrightarrow> (of_char (digit d) :: nat) = 48 + d"
  by (simp add: digit_def)

lemma to_string_value:
  "foldl (\<lambda>v c. 10 * v + (of_char c - 48)) 0 (to_string n) = n"
  by (induction n rule: to_string.induct) (subst to_string.simps, auto simp: of_char_digit)

lemma to_string_inj: "to_string m = to_string n \<longleftrightarrow> m = n"
  by (metis to_string_value)

lemma to_string_digits: "c \<in> set (to_string n) \<Longrightarrow> (of_char c :: nat) \<in> {48..57}"
proof (induction n rule: to_string.induct)
  case (1 n)
  then show ?case by (subst (asm) to_string.simps) (auto simp: of_char_digit split: if_splits)
qed

lemma to_string_terminated:
  assumes "of_char t \<notin> {48..57::nat}"
  shows "to_string m @ t # xs = to_string n @ t # ys \<longleftrightarrow> m = n \<and> xs = ys"
proof
  assume eq: "to_string m @ t # xs = to_string n @ t # ys"
  have tw: "takeWhile (\<lambda>c. c \<noteq> t) (to_string k @ t # zs) = to_string k" for k zs
    using to_string_digits [of _ k] assms by (subst takeWhile_append2) auto
  from eq have "to_string m = to_string n" by (metis tw)
  then show "m = n \<and> xs = ys" using eq by (simp add: to_string_inj)
qed simp

section \<open>Words\<close>

lemma unat_of_nat_u64: "n < 2 ^ 64 \<Longrightarrow> unat (of_nat n :: u64) = n"
  by (simp add: unat_of_nat take_bit_eq_mod)

end
