(* ===== verification/Bus.thy ===== *)
theory Bus
  imports Prelude
begin

text \<open>
  The event bus data model (\<open>include/util/bus/DataBatch.h\<close>, \<open>include/util/bus/IDataBus.h\<close>):
  timestamps, the twelve column alternatives, a data batch, the four payload alternatives and
  the event batch with its type queries.  Floating-point samples travel through the driver
  untouched, so they are their IEEE bit patterns (\<open>64 word\<close>, \<open>32 word\<close>).
\<close>

section \<open>Samples\<close>

record TimestampEntry =
  epoch_seconds :: u64
  nanoseconds :: u64

record BusTimestamp =
  bt_epoch_seconds :: u64
  bt_nanoseconds :: u64

datatype ColumnValues =
    VDouble "u64 list"
  | VFloat "u32 list"
  | VInt64 "u64 list"
  | VInt32 "u32 list"
  | VBool "bool list"
  | VString "string list"
  | VBytes "u8 list list"
  | VDoubleArray "u64 list list"
  | VFloatArray "u32 list list"
  | VInt64Array "u64 list list"
  | VInt32Array "u32 list list"
  | VBoolArray "bool list list"

record DataColumn =
  col_name :: string
  col_values :: ColumnValues
  col_metadata :: "string \<rightharpoonup> string"

record EnumDataColumn =
  enum_name :: string
  enum_values :: "u32 list"
  enum_id :: string

record DataBatch =
  timestamps :: "TimestampEntry list"
  columns :: "DataColumn list"
  enum_columns :: "EnumDataColumn list"
  array_dims :: "string \<rightharpoonup> u32 list"

definition empty_DataBatch :: DataBatch where
  "empty_DataBatch = \<lparr>timestamps = [], columns = [], enum_columns = [], array_dims = Map.empty\<rparr>"

section \<open>Operations on the column alternatives\<close>

text \<open>The bodies of the \<open>std::visit\<close> calls over \<open>ColumnValues\<close>: size, erase of a prefix and clear.\<close>

fun values_size :: "ColumnValues \<Rightarrow> nat" where
  "values_size (VDouble v) = length v"
| "values_size (VFloat v) = length v"
| "values_size (VInt64 v) = length v"
| "values_size (VInt32 v) = length v"
| "values_size (VBool v) = length v"
| "values_size (VString v) = length v"
| "values_size (VBytes v) = length v"
| "values_size (VDoubleArray v) = length v"
| "values_size (VFloatArray v) = length v"
| "values_size (VInt64Array v) = length v"
| "values_size (VInt32Array v) = length v"
| "values_size (VBoolArray v) = length v"

fun values_drop :: "nat \<Rightarrow> ColumnValues \<Rightarrow> ColumnValues" where
  "values_drop n (VDouble v) = VDouble (drop n v)"
| "values_drop n (VFloat v) = VFloat (drop n v)"
| "values_drop n (VInt64 v) = VInt64 (drop n v)"
| "values_drop n (VInt32 v) = VInt32 (drop n v)"
| "values_drop n (VBool v) = VBool (drop n v)"
| "values_drop n (VString v) = VString (drop n v)"
| "values_drop n (VBytes v) = VBytes (drop n v)"
| "values_drop n (VDoubleArray v) = VDoubleArray (drop n v)"
| "values_drop n (VFloatArray v) = VFloatArray (drop n v)"
| "values_drop n (VInt64Array v) = VInt64Array (drop n v)"
| "values_drop n (VInt32Array v) = VInt32Array (drop n v)"
| "values_drop n (VBoolArray v) = VBoolArray (drop n v)"

definition values_clear :: "ColumnValues \<Rightarrow> ColumnValues" where
  "values_clear v = values_drop (values_size v) v"

text \<open>
  \<open>std::get_if\<close> of the incoming alternative on the stored column: append when the alternatives
  agree, otherwise the incoming column replaces the stored one.
\<close>

fun values_insert :: "ColumnValues \<Rightarrow> ColumnValues \<Rightarrow> ColumnValues" where
  "values_insert existing (VDouble incoming) =
     (case existing of VDouble v \<Rightarrow> VDouble (v @ incoming) | _ \<Rightarrow> VDouble incoming)"
| "values_insert existing (VFloat incoming) =
     (case existing of VFloat v \<Rightarrow> VFloat (v @ incoming) | _ \<Rightarrow> VFloat incoming)"
| "values_insert existing (VInt64 incoming) =
     (case existing of VInt64 v \<Rightarrow> VInt64 (v @ incoming) | _ \<Rightarrow> VInt64 incoming)"
| "values_insert existing (VInt32 incoming) =
     (case existing of VInt32 v \<Rightarrow> VInt32 (v @ incoming) | _ \<Rightarrow> VInt32 incoming)"
| "values_insert existing (VBool incoming) =
     (case existing of VBool v \<Rightarrow> VBool (v @ incoming) | _ \<Rightarrow> VBool incoming)"
| "values_insert existing (VString incoming) =
     (case existing of VString v \<Rightarrow> VString (v @ incoming) | _ \<Rightarrow> VString incoming)"
| "values_insert existing (VBytes incoming) =
     (case existing of VBytes v \<Rightarrow> VBytes (v @ incoming) | _ \<Rightarrow> VBytes incoming)"
| "values_insert existing (VDoubleArray incoming) =
     (case existing of VDoubleArray v \<Rightarrow> VDoubleArray (v @ incoming) | _ \<Rightarrow> VDoubleArray incoming)"
| "values_insert existing (VFloatArray incoming) =
     (case existing of VFloatArray v \<Rightarrow> VFloatArray (v @ incoming) | _ \<Rightarrow> VFloatArray incoming)"
| "values_insert existing (VInt64Array incoming) =
     (case existing of VInt64Array v \<Rightarrow> VInt64Array (v @ incoming) | _ \<Rightarrow> VInt64Array incoming)"
| "values_insert existing (VInt32Array incoming) =
     (case existing of VInt32Array v \<Rightarrow> VInt32Array (v @ incoming) | _ \<Rightarrow> VInt32Array incoming)"
| "values_insert existing (VBoolArray incoming) =
     (case existing of VBoolArray v \<Rightarrow> VBoolArray (v @ incoming) | _ \<Rightarrow> VBoolArray incoming)"

text \<open>The index of the active alternative, as the table in the header gives it.\<close>

fun values_index :: "ColumnValues \<Rightarrow> nat" where
  "values_index (VDouble _) = 0"
| "values_index (VFloat _) = 1"
| "values_index (VInt64 _) = 2"
| "values_index (VInt32 _) = 3"
| "values_index (VBool _) = 4"
| "values_index (VString _) = 5"
| "values_index (VBytes _) = 6"
| "values_index (VDoubleArray _) = 7"
| "values_index (VFloatArray _) = 8"
| "values_index (VInt64Array _) = 9"
| "values_index (VInt32Array _) = 10"
| "values_index (VBoolArray _) = 11"

definition same_alternative :: "ColumnValues \<Rightarrow> ColumnValues \<Rightarrow> bool" where
  "same_alternative a b \<longleftrightarrow> values_index a = values_index b"

lemma values_size_drop [simp]: "values_size (values_drop n v) = values_size v - n"
  by (cases v) auto

lemma values_size_clear [simp]: "values_size (values_clear v) = 0"
  by (simp add: values_clear_def)

lemma same_alternative_drop [simp]: "same_alternative (values_drop n v) v"
  by (cases v) (auto simp: same_alternative_def)

lemma values_size_insert:
  "values_size (values_insert old new) =
     (if same_alternative old new then values_size old + values_size new else values_size new)"
  by (cases old; cases new) (auto simp: same_alternative_def)

lemma values_drop_0 [simp]: "values_drop 0 v = v"
  by (cases v) auto

section \<open>Memory estimate\<close>

fun values_bytes :: "ColumnValues \<Rightarrow> nat" where
  "values_bytes (VDouble v) = length v * 8"
| "values_bytes (VFloat v) = length v * 4"
| "values_bytes (VInt64 v) = length v * 8"
| "values_bytes (VInt32 v) = length v * 4"
| "values_bytes (VBool v) = length v"
| "values_bytes (VString v) = sum_list (map length v)"
| "values_bytes (VBytes v) = sum_list (map length v)"
| "values_bytes (VDoubleArray v) = sum_list (map (\<lambda>x. length x * 8) v)"
| "values_bytes (VFloatArray v) = sum_list (map (\<lambda>x. length x * 4) v)"
| "values_bytes (VInt64Array v) = sum_list (map (\<lambda>x. length x * 8) v)"
| "values_bytes (VInt32Array v) = sum_list (map (\<lambda>x. length x * 4) v)"
| "values_bytes (VBoolArray v) = sum_list (map length v)"

definition estimateDataBatchBytes :: "DataBatch \<Rightarrow> nat" where
  "estimateDataBatchBytes batch =
     length (timestamps batch) * 16 +
     sum_list (map (\<lambda>col. length (col_name col) + values_bytes (col_values col)) (columns batch)) +
     sum_list (map (\<lambda>ec. length (enum_name ec) + length (enum_values ec) * 4 + length (enum_id ec))
       (enum_columns batch))"

section \<open>Payloads and event batches\<close>

record TimeSeriesPayload =
  root_source_name :: string
  frames :: "DataBatch list"
  end_of_batch_group :: bool
  is_tabular :: bool

record SourceMetadataEntry =
  sme_aliases :: "string list option"
  sme_tags :: "string list option"
  sme_attributes :: "string \<rightharpoonup> string"
  sme_description :: "string option"
  sme_modified_by :: "string option"

record SourceMetadataPayload =
  smp_root_source_name :: string
  smp_sources :: "string \<rightharpoonup> SourceMetadataEntry"

record ConfigurationPayload =
  cfg_root_source_name :: string
  cfg_configuration_name :: string
  cfg_category :: string
  cfg_description :: "string option"
  cfg_parent_configuration_name :: "string option"
  cfg_tags :: "string list option"
  cfg_attributes :: "string \<rightharpoonup> string"
  cfg_modified_by :: "string option"

record ConfigurationActivationPayload =
  act_client_activation_id :: "string option"
  act_configuration_name :: string
  act_start_time :: BusTimestamp
  act_end_time :: "BusTimestamp option"
  act_description :: "string option"
  act_tags :: "string list option"
  act_attributes :: "string \<rightharpoonup> string"
  act_modified_by :: "string option"

datatype BatchPayload =
    PTimeSeries TimeSeriesPayload
  | PSourceMetadata SourceMetadataPayload
  | PConfiguration ConfigurationPayload
  | PActivation ConfigurationActivationPayload

record EventBatch =
  reader_name :: string
  metadata :: "string \<rightharpoonup> string"
  payload :: BatchPayload

fun isTimeSeries :: "BatchPayload \<Rightarrow> bool" where
  "isTimeSeries (PTimeSeries _) = True"
| "isTimeSeries _ = False"

fun asTimeSeries :: "BatchPayload \<Rightarrow> TimeSeriesPayload option" where
  "asTimeSeries (PTimeSeries p) = Some p"
| "asTimeSeries _ = None"

fun payload_root_source :: "BatchPayload \<Rightarrow> string" where
  "payload_root_source (PTimeSeries p) = root_source_name p"
| "payload_root_source (PSourceMetadata p) = smp_root_source_name p"
| "payload_root_source (PConfiguration p) = cfg_root_source_name p"
| "payload_root_source (PActivation p) = act_configuration_name p"

definition getRootSourceName :: "EventBatch \<Rightarrow> string" where
  "getRootSourceName b = payload_root_source (payload b)"

lemma isTimeSeries_iff: "isTimeSeries p \<longleftrightarrow> (\<exists>ts. p = PTimeSeries ts)"
  by (cases p) auto

end
