(* ===== verification/Input_Buffer.thy ===== *)
theory Input_Buffer
  imports Bus
begin

text \<open>
  The input buffer of a channel processor (\<open>src/processor/InputBuffer.cpp\<close>): one batch per
  source, the sources that are fresh since the last reset, and the snapshot a trigger policy
  allows.  Sets that the code only inserts into, counts and looks up are HOL sets.
\<close>

section \<open>State\<close>

datatype AlignmentPolicy = AP_LatestValue | AP_AllUpdated | AP_Interpolate
datatype TriggerPolicy = TP_AnyUpdate | TP_AllUpdated | TP_Interval

record AlignedSnapshot =
  channels :: "(string, DataBatch) umap"
  reference_time :: BusTimestamp

record InputBuffer =
  slots :: "(string, DataBatch) umap"
  fresh :: "string set"
  required_source_lookup :: "string set"
  required_sources :: "string list"
  seen_sources :: "string set"
  alignment :: AlignmentPolicy
  max_depth :: nat

definition new_InputBuffer :: "string list \<Rightarrow> AlignmentPolicy \<Rightarrow> nat \<Rightarrow> InputBuffer" where
  "new_InputBuffer source_names policy depth =
     \<lparr>slots = [], fresh = {}, required_source_lookup = set source_names,
      required_sources = source_names, seen_sources = {}, alignment = policy, max_depth = depth\<rparr>"

section \<open>Reference time\<close>

definition timestampToNanoseconds :: "TimestampEntry \<Rightarrow> u64" where
  "timestampToNanoseconds t = epoch_seconds t * 1000000000 + nanoseconds t"

fun maxReferenceTime_loop ::
  "BusTimestamp \<Rightarrow> u64 \<Rightarrow> (string, DataBatch) umap \<Rightarrow> BusTimestamp" where
  "maxReferenceTime_loop ref best [] = ref"
| "maxReferenceTime_loop ref best ((source, batch) # rest) =
     (if timestamps batch = [] then maxReferenceTime_loop ref best rest
      else let latest = last (timestamps batch); v = timestampToNanoseconds latest in
        if v \<ge> best
        then maxReferenceTime_loop
               \<lparr>bt_epoch_seconds = epoch_seconds latest, bt_nanoseconds = nanoseconds latest\<rparr> v rest
        else maxReferenceTime_loop ref best rest)"

definition maxReferenceTime :: "(string, DataBatch) umap \<Rightarrow> BusTimestamp" where
  "maxReferenceTime m = maxReferenceTime_loop \<lparr>bt_epoch_seconds = 0, bt_nanoseconds = 0\<rparr> 0 m"

section \<open>Retention\<close>

definition map_values :: "(ColumnValues \<Rightarrow> ColumnValues) \<Rightarrow> DataColumn list \<Rightarrow> DataColumn list" where
  "map_values f cols = map (\<lambda>c. c\<lparr>col_values := f (col_values c)\<rparr>) cols"

definition trimOldestSamples :: "nat \<Rightarrow> DataBatch \<Rightarrow> DataBatch" where
  "trimOldestSamples depth batch =
     (if depth = 0 \<or> length (timestamps batch) \<le> depth then batch
      else let drop_count = length (timestamps batch) - depth in
        if \<exists>c\<in>set (columns batch). values_size (col_values c) \<le> drop_count
        then batch\<lparr>timestamps := [], columns := map_values values_clear (columns batch)\<rparr>
        else batch\<lparr>timestamps := drop drop_count (timestamps batch),
                   columns := map_values (values_drop drop_count) (columns batch)\<rparr>)"

text \<open>One pass of the loop over the frames, for the two accumulating policies.\<close>

definition append_frame :: "DataBatch \<Rightarrow> DataBatch \<Rightarrow> DataBatch" where
  "append_frame slot frame =
     (let cols =
        (if columns slot = [] then columns frame
         else if length (columns slot) = length (columns frame)
         then map2 (\<lambda>c f. c\<lparr>col_values := values_insert (col_values c) (col_values f)\<rparr>)
                (columns slot) (columns frame)
         else columns slot)
      in slot\<lparr>columns := cols, timestamps := timestamps slot @ timestamps frame\<rparr>)"

definition slot_of :: "InputBuffer \<Rightarrow> string \<Rightarrow> DataBatch" where
  "slot_of b src = (case map_of (slots b) src of None \<Rightarrow> empty_DataBatch | Some s \<Rightarrow> s)"

definition ingest_frame :: "string \<Rightarrow> InputBuffer \<Rightarrow> DataBatch \<Rightarrow> InputBuffer" where
  "ingest_frame src b frame =
     b\<lparr>slots := umap_assign src
         (trimOldestSamples (max_depth b) (append_frame (slot_of b src) frame)) (slots b)\<rparr>"

section \<open>Operations\<close>

definition ingest :: "string \<Rightarrow> TimeSeriesPayload \<Rightarrow> InputBuffer \<Rightarrow> InputBuffer" where
  "ingest src p b =
     (if required_source_lookup b \<noteq> {} \<and> src \<notin> required_source_lookup b then b
      else let b1 = (if required_source_lookup b = {}
                     then b\<lparr>seen_sources := insert src (seen_sources b)\<rparr> else b) in
        if frames p = [] then b1
        else let b2 =
          (if alignment b1 = AP_LatestValue
           then b1\<lparr>slots := umap_assign src
                  (trimOldestSamples (max_depth b1) (last (frames p))) (slots b1)\<rparr>
           else foldl (ingest_frame src) b1 (frames p))
          in b2\<lparr>fresh := insert src (fresh b2)\<rparr>)"

definition trySnapshot :: "TriggerPolicy \<Rightarrow> InputBuffer \<Rightarrow> AlignedSnapshot option" where
  "trySnapshot trigger b =
     (if trigger = TP_AllUpdated \<and>
         (if required_sources b \<noteq> [] then card (fresh b) \<noteq> length (required_sources b)
          else card (fresh b) \<noteq> card (seen_sources b))
      then None
      else Some \<lparr>channels = slots b, reference_time = maxReferenceTime (slots b)\<rparr>)"

definition resetFreshFlags :: "InputBuffer \<Rightarrow> InputBuffer" where
  "resetFreshFlags b = b\<lparr>fresh := {}\<rparr>"

definition clear_buffer :: "InputBuffer \<Rightarrow> InputBuffer" where
  "clear_buffer b = b\<lparr>slots := [], fresh := {}, seen_sources := {}\<rparr>"

definition bufferDepth :: "InputBuffer \<Rightarrow> nat" where
  "bufferDepth b = foldl (\<lambda>d (_, batch). max d (length (timestamps batch))) 0 (slots b)"

definition bufferDepthForSource :: "string \<Rightarrow> InputBuffer \<Rightarrow> nat" where
  "bufferDepthForSource src b =
     (case map_of (slots b) src of None \<Rightarrow> 0 | Some batch \<Rightarrow> length (timestamps batch))"

section \<open>Invariant\<close>

text \<open>
  What every reachable buffer satisfies: keys are distinct, a fresh source has a slot, the fresh
  set is finite and stays within the configured sources or, in open mode, within the seen ones,
  and no slot exceeds the depth limit.
\<close>

definition buffer_inv :: "InputBuffer \<Rightarrow> bool" where
  "buffer_inv b \<longleftrightarrow>
     umap_ok (slots b) \<and> fresh b \<subseteq> fst ` set (slots b) \<and>
     required_source_lookup b = set (required_sources b) \<and>
     finite (fresh b) \<and> finite (seen_sources b) \<and>
     (if required_sources b = [] then fresh b \<subseteq> seen_sources b
      else fresh b \<subseteq> set (required_sources b)) \<and>
     (max_depth b \<noteq> 0 \<longrightarrow> (\<forall>(s, batch)\<in>set (slots b). length (timestamps batch) \<le> max_depth b))"

lemma trim_length: "d \<noteq> 0 \<Longrightarrow> length (timestamps (trimOldestSamples d s)) \<le> d"
  by (auto simp: trimOldestSamples_def Let_def)

lemma set_assign_subset: "set (umap_assign k v m) \<subseteq> insert (k, v) (set m)"
proof -
  have "x \<in> insert (k, v) (set m)" if "x \<in> set (umap_assign k v m)" for x
    using that unfolding umap_assign_def by (induction m) (auto split: if_splits)
  then show ?thesis by blast
qed

lemma new_InputBuffer_inv: "buffer_inv (new_InputBuffer ss p d)"
  by (auto simp: buffer_inv_def new_InputBuffer_def)

lemma assign_slot_inv:
  assumes "buffer_inv b" "max_depth b \<noteq> 0 \<longrightarrow> length (timestamps s) \<le> max_depth b"
  shows "buffer_inv (b\<lparr>slots := umap_assign src s (slots b)\<rparr>)"
  using assms set_assign_subset [of src s "slots b"]
  by (auto simp: buffer_inv_def umap_simps split: prod.splits)

lemma ingest_frame_inv: "buffer_inv b \<Longrightarrow> buffer_inv (ingest_frame src b f)"
  unfolding ingest_frame_def by (rule assign_slot_inv) (auto intro: trim_length)

lemma ingest_frames_inv: "buffer_inv b \<Longrightarrow> buffer_inv (foldl (ingest_frame src) b fs)"
  by (induction fs arbitrary: b) (auto intro: ingest_frame_inv)

lemma ingest_frame_fields [simp]:
  "fresh (ingest_frame src b f) = fresh b"
  "required_source_lookup (ingest_frame src b f) = required_source_lookup b"
  "required_sources (ingest_frame src b f) = required_sources b"
  "seen_sources (ingest_frame src b f) = seen_sources b"
  "alignment (ingest_frame src b f) = alignment b"
  "max_depth (ingest_frame src b f) = max_depth b"
  by (simp_all add: ingest_frame_def)

lemma ingest_frames_fields [simp]:
  "fresh (foldl (ingest_frame src) b fs) = fresh b"
  "required_source_lookup (foldl (ingest_frame src) b fs) = required_source_lookup b"
  "required_sources (foldl (ingest_frame src) b fs) = required_sources b"
  "seen_sources (foldl (ingest_frame src) b fs) = seen_sources b"
  "alignment (foldl (ingest_frame src) b fs) = alignment b"
  "max_depth (foldl (ingest_frame src) b fs) = max_depth b"
  by (induction fs arbitrary: b) simp_all

lemma ingest_frames_key:
  "fst ` set (slots (foldl (ingest_frame src) b fs)) =
     (if fs = [] then fst ` set (slots b) else insert src (fst ` set (slots b)))"
  by (induction fs arbitrary: b) (auto simp: ingest_frame_def umap_simps)

lemma seen_inv: "buffer_inv b \<Longrightarrow> buffer_inv (b\<lparr>seen_sources := insert src (seen_sources b)\<rparr>)"
  by (auto simp: buffer_inv_def)

lemma fresh_inv:
  assumes "buffer_inv b" "src \<in> fst ` set (slots b)"
    "if required_sources b = [] then src \<in> seen_sources b else src \<in> set (required_sources b)"
  shows "buffer_inv (b\<lparr>fresh := insert src (fresh b)\<rparr>)"
  using assms by (auto simp: buffer_inv_def split: if_splits)

lemma ingest_inv: "buffer_inv b \<Longrightarrow> buffer_inv (ingest src p b)"
proof -
  assume inv: "buffer_inv b"
  define b1 where "b1 = (if required_source_lookup b = {}
                     then b\<lparr>seen_sources := insert src (seen_sources b)\<rparr> else b)"
  have b1: "buffer_inv b1" using inv by (simp add: b1_def seen_inv)
  define b2 where "b2 =
    (if alignment b1 = AP_LatestValue
     then b1\<lparr>slots := umap_assign src (trimOldestSamples (max_depth b1) (last (frames p))) (slots b1)\<rparr>
     else foldl (ingest_frame src) b1 (frames p))"
  have b2: "buffer_inv b2"
    using b1 by (auto simp: b2_def intro!: assign_slot_inv ingest_frames_inv trim_length)
  have "buffer_inv (b2\<lparr>fresh := insert src (fresh b2)\<rparr>)"
    if "frames p \<noteq> []" "\<not> (required_source_lookup b \<noteq> {} \<and> src \<notin> required_source_lookup b)"
  proof (rule fresh_inv [OF b2])
    show "src \<in> fst ` set (slots b2)"
      using that by (auto simp: b2_def umap_simps ingest_frames_key)
    have "set (required_sources b) = required_source_lookup b"
      using inv by (simp add: buffer_inv_def)
    then show "if required_sources b2 = [] then src \<in> seen_sources b2 else src \<in> set (required_sources b2)"
      using that by (auto simp: b2_def b1_def)
  qed
  with inv b1 show ?thesis
    by (simp add: ingest_def b1_def [symmetric] b2_def [symmetric])
qed

lemma reset_inv: "buffer_inv b \<Longrightarrow> buffer_inv (resetFreshFlags b)"
  by (auto simp: buffer_inv_def resetFreshFlags_def)

lemma clear_inv: "buffer_inv b \<Longrightarrow> buffer_inv (clear_buffer b)"
  by (auto simp: buffer_inv_def clear_buffer_def)

section \<open>Histories\<close>

text \<open>A buffer the owner has driven through any sequence of its operations.\<close>

inductive buffer_reachable :: "InputBuffer \<Rightarrow> bool" where
  new: "buffer_reachable (new_InputBuffer ss p d)"
| ingest: "buffer_reachable b \<Longrightarrow> buffer_reachable (ingest src p b)"
| reset: "buffer_reachable b \<Longrightarrow> buffer_reachable (resetFreshFlags b)"
| clear: "buffer_reachable b \<Longrightarrow> buffer_reachable (clear_buffer b)"

lemmas buffer_step_inv = new_InputBuffer_inv ingest_inv reset_inv clear_inv

lemma reachable_inv: "buffer_reachable b \<Longrightarrow> buffer_inv b"
  by (induction rule: buffer_reachable.induct) (auto intro: buffer_step_inv)

definition ingest_all :: "(string \<times> TimeSeriesPayload) list \<Rightarrow> InputBuffer \<Rightarrow> InputBuffer" where
  "ingest_all xs b = foldl (\<lambda>b (src, p). ingest src p b) b xs"

lemma ingest_required [simp]:
  "required_sources (ingest src p b) = required_sources b"
  "required_source_lookup (ingest src p b) = required_source_lookup b"
  "max_depth (ingest src p b) = max_depth b"
  "alignment (ingest src p b) = alignment b"
  by (simp_all add: ingest_def Let_def)

lemma ingest_fresh:
  "fresh (ingest src p b) =
     (if frames p \<noteq> [] \<and> (required_source_lookup b = {} \<or> src \<in> required_source_lookup b)
      then insert src (fresh b) else fresh b)"
  by (simp add: ingest_def Let_def)

lemma ingest_all_simps [simp]:
  "ingest_all [] b = b"
  "ingest_all ((src, p) # xs) b = ingest_all xs (ingest src p b)"
  by (simp_all add: ingest_all_def)

lemma ingest_all_inv: "buffer_inv b \<Longrightarrow> buffer_inv (ingest_all xs b)"
proof (induction xs arbitrary: b)
  case (Cons x xs)
  then show ?case by (cases x) (simp add: ingest_inv)
qed simp

lemma ingest_all_required [simp]:
  "required_sources (ingest_all xs b) = required_sources b"
  "required_source_lookup (ingest_all xs b) = required_source_lookup b"
  by (induction xs arbitrary: b) auto

lemma ingest_all_fresh:
  "fresh (ingest_all xs b) =
     fresh b \<union> {src. (required_source_lookup b = {} \<or> src \<in> required_source_lookup b) \<and>
                     (\<exists>p. (src, p) \<in> set xs \<and> frames p \<noteq> [])}"
proof (induction xs arbitrary: b)
  case (Cons x xs)
  obtain s p where x: "x = (s, p)" by force
  show ?case
    unfolding x ingest_all_simps Cons.IH ingest_fresh ingest_required
    by (cases "frames p \<noteq> [] \<and> (required_source_lookup b = {} \<or> s \<in> required_source_lookup b)")
      (auto 4 4)
qed simp

lemma fresh_card_le:
  assumes "buffer_inv b" "required_sources b \<noteq> []"
  shows "card (fresh b) \<le> card (set (required_sources b))"
  using assms by (auto simp: buffer_inv_def intro!: card_mono)

lemma fresh_card_eq_iff:
  assumes "buffer_inv b" "required_sources b \<noteq> []"
  shows "card (fresh b) = card (set (required_sources b)) \<longleftrightarrow> set (required_sources b) \<subseteq> fresh b"
proof -
  have sub: "fresh b \<subseteq> set (required_sources b)" using assms by (auto simp: buffer_inv_def)
  then show ?thesis
    by (metis List.finite_set card_subset_eq subset_antisym subset_refl)
qed

section \<open>The retained window\<close>

text \<open>The batch with only its newest \<open>d\<close> samples; \<open>0\<close> keeps all.\<close>

definition keep_newest :: "nat \<Rightarrow> DataBatch \<Rightarrow> DataBatch" where
  "keep_newest d s =
     (if d = 0 then s
      else s\<lparr>timestamps := drop (length (timestamps s) - d) (timestamps s),
             columns := map_values (values_drop (length (timestamps s) - d)) (columns s)\<rparr>)"

definition well_shaped :: "DataBatch \<Rightarrow> bool" where
  "well_shaped s \<longleftrightarrow> (\<forall>c\<in>set (columns s). values_size (col_values c) = length (timestamps s))"

definition same_layout :: "DataBatch \<Rightarrow> DataBatch \<Rightarrow> bool" where
  "same_layout s f \<longleftrightarrow> columns f \<noteq> [] \<and>
     list_all2 (\<lambda>c d. same_alternative (col_values c) (col_values d)) (columns s) (columns f)"

lemma values_drop_drop [simp]: "values_drop m (values_drop n v) = values_drop (m + n) v"
  by (cases v) auto

lemma values_drop_insert:
  "same_alternative v w \<Longrightarrow> n \<le> values_size v \<Longrightarrow>
     values_insert (values_drop n v) w = values_drop n (values_insert v w)"
  by (cases w; cases v) (auto simp: same_alternative_def)

lemma values_index_drop [simp]: "values_index (values_drop n v) = values_index v"
  by (cases v) auto

lemma values_index_insert [simp]: "values_index (values_insert v w) = values_index w"
  by (cases w; cases v) auto

lemma same_alternative_cong [simp]:
  "same_alternative (values_drop n v) w \<longleftrightarrow> same_alternative v w"
  "same_alternative (values_insert u v) w \<longleftrightarrow> same_alternative v w"
  by (simp_all add: same_alternative_def)

lemma trim_well_shaped: "well_shaped s \<Longrightarrow> trimOldestSamples d s = keep_newest d s"
  by (auto simp: trimOldestSamples_def keep_newest_def well_shaped_def map_values_def Let_def)

lemma keep_newest_well_shaped: "well_shaped s \<Longrightarrow> well_shaped (keep_newest d s)"
  by (auto simp: keep_newest_def well_shaped_def map_values_def)

lemma keep_newest_layout: "same_layout s f \<Longrightarrow> same_layout (keep_newest d s) f"
  by (auto simp: keep_newest_def same_layout_def map_values_def list_all2_conv_all_nth)

lemma append_columns:
  assumes "same_layout s f"
  shows "columns (append_frame s f) =
    map2 (\<lambda>c d. c\<lparr>col_values := values_insert (col_values c) (col_values d)\<rparr>) (columns s) (columns f)"
  using assms by (auto simp: append_frame_def same_layout_def dest: list_all2_lengthD)

lemma append_well_shaped:
  assumes "well_shaped s" "well_shaped f" "same_layout s f"
  shows "well_shaped (append_frame s f)"
  using assms
  by (auto simp: well_shaped_def append_columns in_set_conv_nth same_layout_def
      list_all2_conv_all_nth values_size_insert) (auto simp: append_frame_def)

lemma append_layout:
  assumes "same_layout s f" "same_layout f g"
  shows "same_layout (append_frame s f) g"
  using assms
  by (auto simp: append_columns [OF assms(1)] same_layout_def list_all2_conv_all_nth)

lemma keep_newest_append:
  assumes "well_shaped s" "well_shaped f" "same_layout s f"
  shows "keep_newest d (append_frame (keep_newest d s) f) = keep_newest d (append_frame s f)"
proof (cases "d = 0")
  case True
  then show ?thesis by (simp add: keep_newest_def)
next
  case False
  define k where "k = length (timestamps s) - d"
  have k: "k \<le> length (timestamps s)" by (simp add: k_def)
  have cols: "columns (append_frame (keep_newest d s) f) =
      map_values (values_drop k) (columns (append_frame s f))"
    using assms False k
    by (auto simp: append_columns keep_newest_layout, intro nth_equalityI)
      (auto simp: keep_newest_def map_values_def k_def [symmetric] well_shaped_def same_layout_def
        list_all2_conv_all_nth values_drop_insert)
  have ts: "timestamps (append_frame (keep_newest d s) f) = drop k (timestamps s) @ timestamps f"
    using False by (simp add: append_frame_def keep_newest_def k_def)
  have more: "enum_columns (append_frame (keep_newest d s) f) = enum_columns (append_frame s f)"
    "array_dims (append_frame (keep_newest d s) f) = array_dims (append_frame s f)"
    by (simp_all add: append_frame_def keep_newest_def)
  have len: "length (timestamps s) - k + length (timestamps f) - d + k =
      length (timestamps s) + length (timestamps f) - d"
    by (auto simp: k_def)
  have ts': "timestamps (append_frame s f) = timestamps s @ timestamps f"
    by (simp add: append_frame_def)
  show ?thesis
    using False more cols ts ts' len
    by (intro DataBatch.equality)
      (auto simp: keep_newest_def map_values_def k drop_append algebra_simps drop_drop k_def)
qed

text \<open>The slot of one source as a function of the frames that reached it.\<close>

definition accumulate :: "nat \<Rightarrow> DataBatch \<Rightarrow> DataBatch list \<Rightarrow> DataBatch" where
  "accumulate d s fs = foldl (\<lambda>s f. trimOldestSamples d (append_frame s f)) s fs"

definition source_frames :: "string \<Rightarrow> (string \<times> TimeSeriesPayload) list \<Rightarrow> DataBatch list" where
  "source_frames src xs = concat (map (\<lambda>(s, p). frames p) (filter (\<lambda>(s, p). s = src) xs))"

lemma slot_of_ingest_frames:
  "slot_of (foldl (ingest_frame s) b fs) src =
     (if s = src then accumulate (max_depth b) (slot_of b src) fs else slot_of b src)"
  by (induction fs arbitrary: b)
    (auto simp: accumulate_def ingest_frame_def slot_of_def umap_simps split: option.splits)

lemma slot_of_fields [simp]:
  "slot_of (b\<lparr>seen_sources := x\<rparr>) src = slot_of b src"
  "slot_of (b\<lparr>fresh := y\<rparr>) src = slot_of b src"
  by (simp_all add: slot_of_def)

lemma slot_of_ingest:
  assumes "alignment b \<noteq> AP_LatestValue"
    and "required_source_lookup b = {} \<or> src \<in> required_source_lookup b"
  shows "slot_of (ingest s p b) src =
    (if s = src then accumulate (max_depth b) (slot_of b src) (frames p) else slot_of b src)"
  using assms by (auto simp: ingest_def Let_def slot_of_ingest_frames accumulate_def)

lemma accumulate_append: "accumulate d s (fs @ gs) = accumulate d (accumulate d s fs) gs"
  by (simp add: accumulate_def)

lemma slot_of_ingest_all:
  assumes "alignment b \<noteq> AP_LatestValue"
    and "required_source_lookup b = {} \<or> src \<in> required_source_lookup b"
  shows "slot_of (ingest_all xs b) src = accumulate (max_depth b) (slot_of b src) (source_frames src xs)"
  using assms
proof (induction xs arbitrary: b)
  case Nil
  then show ?case by (simp add: source_frames_def accumulate_def)
next
  case (Cons x xs)
  obtain s p where x: "x = (s, p)" by force
  have "slot_of (ingest_all xs (ingest s p b)) src =
      accumulate (max_depth b) (slot_of (ingest s p b) src) (source_frames src xs)"
    using Cons.IH [of "ingest s p b"] Cons.prems by simp
  then show ?case
    using Cons.prems by (simp add: x slot_of_ingest source_frames_def accumulate_append)
qed

lemma accumulate_keep_newest:
  assumes "well_shaped s" "\<forall>f\<in>set fs. well_shaped f" "\<forall>f\<in>set fs. same_layout s f"
  shows "accumulate d (keep_newest d s) fs = keep_newest d (foldl append_frame s fs)"
  using assms
proof (induction fs arbitrary: s)
  case Nil
  then show ?case by (simp add: accumulate_def)
next
  case (Cons f fs)
  have f: "well_shaped f" "same_layout s f" using Cons.prems by auto
  have lay: "same_layout f g" if "g \<in> set fs" for g
    using f(2) Cons.prems(3) that
    by (auto simp: same_layout_def list_all2_conv_all_nth same_alternative_def)
  have "accumulate d (keep_newest d s) (f # fs) =
      accumulate d (trimOldestSamples d (append_frame (keep_newest d s) f)) fs"
    by (simp add: accumulate_def)
  also have "trimOldestSamples d (append_frame (keep_newest d s) f) = keep_newest d (append_frame s f)"
    using Cons.prems(1) f
    by (simp add: trim_well_shaped append_well_shaped keep_newest_well_shaped keep_newest_layout
        keep_newest_append)
  also have "accumulate d \<dots> fs = keep_newest d (foldl append_frame (append_frame s f) fs)"
    using Cons.prems f lay
    by (intro Cons.IH) (auto intro: append_well_shaped append_layout)
  finally show ?case by simp
qed

lemma append_empty:
  "append_frame empty_DataBatch f = f\<lparr>enum_columns := [], array_dims := Map.empty\<rparr>"
  by (simp add: append_frame_def empty_DataBatch_def)

lemma accumulate_from_empty:
  assumes "fs \<noteq> []" "\<forall>f\<in>set fs. well_shaped f" "\<forall>f\<in>set fs. same_layout (hd fs) f"
  shows "accumulate d empty_DataBatch fs = keep_newest d (foldl append_frame empty_DataBatch fs)"
proof -
  obtain f gs where fs: "fs = f # gs" using assms(1) by (cases fs) auto
  let ?s = "append_frame empty_DataBatch f"
  have s: "well_shaped ?s" "\<forall>g\<in>set gs. same_layout ?s g"
    using assms fs by (auto simp: append_empty well_shaped_def same_layout_def)
  have "accumulate d empty_DataBatch fs = accumulate d (keep_newest d ?s) gs"
    using s(1) by (simp add: fs accumulate_def trim_well_shaped)
  also have "\<dots> = keep_newest d (foldl append_frame ?s gs)"
    using s assms fs by (intro accumulate_keep_newest) auto
  finally show ?thesis by (simp add: fs)
qed

lemma foldl_append_timestamps:
  "timestamps (foldl append_frame s fs) = timestamps s @ concat (map timestamps fs)"
  by (induction fs arbitrary: s) (auto simp: append_frame_def)

lemma foldl_append_columns:
  assumes "\<forall>f\<in>set fs. same_layout s f"
  shows "length (columns (foldl append_frame s fs)) = length (columns s) \<and>
    (\<forall>i<length (columns s). columns (foldl append_frame s fs) ! i =
       (columns s ! i)\<lparr>col_values := foldl values_insert (col_values (columns s ! i))
                        (map (\<lambda>f. col_values (columns f ! i)) fs)\<rparr>)"
  using assms
proof (induction fs arbitrary: s)
  case (Cons f fs)
  have f: "same_layout s f" using Cons.prems by simp
  have len: "length (columns (append_frame s f)) = length (columns s)"
    using f by (auto simp: append_columns same_layout_def dest: list_all2_lengthD)
  have "\<forall>g\<in>set fs. same_layout (append_frame s f) g"
    using Cons.prems
    by (auto simp: append_columns same_layout_def list_all2_conv_all_nth same_alternative_def)
  then show ?case
    using Cons.IH [of "append_frame s f"] len f
    by (auto simp: append_columns same_layout_def dest: list_all2_lengthD)
qed simp

text \<open>The reference time in nanoseconds, with the wrap-around of the code's 64-bit arithmetic.\<close>

definition busNanoseconds :: "BusTimestamp \<Rightarrow> u64" where
  "busNanoseconds t = bt_epoch_seconds t * 1000000000 + bt_nanoseconds t"

definition latest_times :: "(string, DataBatch) umap \<Rightarrow> u64 set" where
  "latest_times m = {timestampToNanoseconds (last (timestamps batch)) |s batch.
     (s, batch) \<in> set m \<and> timestamps batch \<noteq> []}"

lemma latest_times_simps [simp]:
  "latest_times [] = {}"
  "latest_times ((s, batch) # m) = (if timestamps batch = [] then latest_times m
     else insert (timestampToNanoseconds (last (timestamps batch))) (latest_times m))"
  by (auto simp: latest_times_def)

lemma finite_latest_times [simp]: "finite (latest_times m)"
  by (induction m) auto

lemma Max_insert_le:
  fixes a b :: "'a::linorder"
  assumes "a \<le> b" "finite S"
  shows "Max (insert a (insert b S)) = Max (insert b S)"
proof -
  have "b \<le> Max (insert b S)" using assms by simp
  then have "a \<le> Max (insert b S)" using assms(1) by (rule order_trans [rotated])
  then show ?thesis using assms(2) by (subst Max_insert) auto
qed

lemma reference_loop:
  "busNanoseconds ref = best \<Longrightarrow>
     busNanoseconds (maxReferenceTime_loop ref best m) = Max (insert best (latest_times m))"
proof (induction ref best m rule: maxReferenceTime_loop.induct)
  case (2 ref best source batch rest)
  let ?v = "timestampToNanoseconds (last (timestamps batch))"
  have this_time: "busNanoseconds \<lparr>bt_epoch_seconds = epoch_seconds (last (timestamps batch)),
      bt_nanoseconds = nanoseconds (last (timestamps batch))\<rparr> = ?v"
    by (simp add: busNanoseconds_def timestampToNanoseconds_def)
  show ?case
  proof (cases "timestamps batch = []")
    case True
    with 2 show ?thesis by simp
  next
    case False
    show ?thesis
    proof (cases "?v \<ge> best")
      case True
      have "Max (insert best (insert ?v (latest_times rest))) = Max (insert ?v (latest_times rest))"
        using True by (rule Max_insert_le) simp
      then show ?thesis
        using 2(2) [OF False refl refl True this_time] by (simp add: False True Let_def)
    next
      case F: False
      have "Max (insert best (insert ?v (latest_times rest))) = Max (insert best (latest_times rest))"
        using F by (subst insert_commute) (rule Max_insert_le, simp_all)
      then show ?thesis
        using 2(3) [OF False refl refl F] 2(4) by (simp add: False F Let_def)
    qed
  qed
qed simp

lemma maxReferenceTime_Max: "busNanoseconds (maxReferenceTime m) = Max (insert 0 (latest_times m))"
  unfolding maxReferenceTime_def by (rule reference_loop) (simp add: busNanoseconds_def)

section \<open>Properties\<close>

text \<open>
  C24. The trigger that waits for all sources fires exactly when every configured source has
  delivered a payload with at least one frame since the last reset, whatever the order and the
  interleaving of the deliveries and however many unknown sources deliver in between.  There must be
  a configured source, and the configured names must be distinct: with a name given twice the trigger
  never fires (\<open>allUpdated_never_fires_on_duplicates\<close>).
\<close>

theorem allUpdated_fires_iff_all_delivered:
  assumes "buffer_reachable b" and "required_sources b \<noteq> []" and "distinct (required_sources b)"
  shows "trySnapshot TP_AllUpdated (ingest_all xs (resetFreshFlags b)) \<noteq> None \<longleftrightarrow>
    (\<forall>src\<in>set (required_sources b). \<exists>p. (src, p) \<in> set xs \<and> frames p \<noteq> [])"
proof -
  let ?b = "ingest_all xs (resetFreshFlags b)"
  have look: "required_source_lookup b = set (required_sources b)"
    using reachable_inv [OF assms(1)] by (simp add: buffer_inv_def)
  have same: "required_sources ?b = required_sources b" by (simp add: resetFreshFlags_def)
  have inv: "buffer_inv ?b"
    using reachable_inv [OF assms(1)] by (intro ingest_all_inv reset_inv)
  have "trySnapshot TP_AllUpdated ?b \<noteq> None \<longleftrightarrow> card (fresh ?b) = card (set (required_sources ?b))"
    using assms(2,3) unfolding trySnapshot_def same by (simp add: distinct_card)
  also have "\<dots> \<longleftrightarrow> set (required_sources b) \<subseteq> fresh ?b"
    using fresh_card_eq_iff [OF inv] assms(2) unfolding same by simp
  also have "\<dots> \<longleftrightarrow> (\<forall>src\<in>set (required_sources b). \<exists>p. (src, p) \<in> set xs \<and> frames p \<noteq> [])"
    using assms(2) by (auto simp: ingest_all_fresh resetFreshFlags_def look)
  finally show ?thesis .
qed

definition ex_frame :: "u64 \<Rightarrow> DataBatch" where
  "ex_frame s = \<lparr>timestamps = [\<lparr>epoch_seconds = s, nanoseconds = 5\<rparr>],
     columns = [\<lparr>col_name = ''c'', col_values = VInt64 [s], col_metadata = Map.empty\<rparr>],
     enum_columns = [], array_dims = Map.empty\<rparr>"

definition ex_payload :: "string \<Rightarrow> u64 list \<Rightarrow> TimeSeriesPayload" where
  "ex_payload s ts = \<lparr>root_source_name = s, frames = map ex_frame ts,
     end_of_batch_group = False, is_tabular = False\<rparr>"

theorem allUpdated_fires_iff_all_delivered_witness:
  "trySnapshot TP_AllUpdated (ingest_all [(''a'', ex_payload ''a'' [1]), (''b'', ex_payload ''b'' [2])]
     (resetFreshFlags (new_InputBuffer [''a'', ''b''] AP_AllUpdated 3))) \<noteq> None"
proof -
  let ?b = "new_InputBuffer [''a'', ''b''] AP_AllUpdated 3"
  have r: "buffer_reachable ?b" by (rule buffer_reachable.new)
  have q: "required_sources ?b = [''a'', ''b'']" by (simp add: new_InputBuffer_def)
  show ?thesis
    by (subst allUpdated_fires_iff_all_delivered [OF r]) (auto simp: q ex_payload_def)
qed

text \<open>
  With a source name configured twice, the trigger that waits for all sources never fires,
  in any reachable state: the fresh set has at most one element per name, and its size is
  compared with the length of the configured list.
\<close>

theorem allUpdated_never_fires_on_duplicates:
  assumes "buffer_reachable b" and "\<not> distinct (required_sources b)"
  shows "trySnapshot TP_AllUpdated b = None"
proof -
  have ne: "required_sources b \<noteq> []" using assms(2) by auto
  have "card (fresh b) \<le> card (set (required_sources b))"
    using reachable_inv [OF assms(1)] ne by (rule fresh_card_le)
  also have "\<dots> < length (required_sources b)"
    using assms(2) card_distinct card_length nat_less_le by blast
  finally show ?thesis using ne by (simp add: trySnapshot_def)
qed

theorem allUpdated_never_fires_on_duplicates_witness:
  "trySnapshot TP_AllUpdated (ingest ''a'' (ex_payload ''a'' [1])
     (new_InputBuffer [''a'', ''a''] AP_LatestValue 0)) = None"
proof (rule allUpdated_never_fires_on_duplicates)
  show "buffer_reachable (ingest ''a'' (ex_payload ''a'' [1]) (new_InputBuffer [''a'', ''a''] AP_LatestValue 0))"
    by (intro buffer_reachable.intros)
qed (simp add: new_InputBuffer_def)

text \<open>
  C2. Under an accumulating policy the slot of a source holds exactly its newest samples: the
  last \<open>max_depth\<close> timestamps of everything delivered for that source (all of them when the limit
  is zero), and in each column the values of the same samples, in order.  Deliveries of other
  sources may be interleaved at will.  The frames of the source must be well shaped and agree on
  the number and the types of the columns.
\<close>

theorem slot_holds_newest_samples:
  assumes "policy \<noteq> AP_LatestValue" and "names = [] \<or> src \<in> set names"
    and "source_frames src xs = f # fs"
    and "\<forall>g\<in>set (f # fs). well_shaped g \<and> same_layout f g"
  shows "\<exists>s. map_of (slots (ingest_all xs (new_InputBuffer names policy d))) src = Some s \<and>
    (let all = concat (map timestamps (f # fs)); k = (if d = 0 then 0 else length all - d) in
      timestamps s = drop k all \<and>
      length (columns s) = length (columns f) \<and>
      (\<forall>i<length (columns f). col_values (columns s ! i) =
         values_drop k (foldl values_insert (col_values (columns f ! i))
           (map (\<lambda>g. col_values (columns g ! i)) fs))))"
proof -
  let ?b = "ingest_all xs (new_InputBuffer names policy d)"
  let ?s0 = "append_frame empty_DataBatch f"
  let ?t = "foldl append_frame ?s0 fs"
  have "slot_of ?b src = accumulate d empty_DataBatch (f # fs)"
    using slot_of_ingest_all [of "new_InputBuffer names policy d" src xs] assms(1,2,3)
    by (auto simp: new_InputBuffer_def slot_of_def)
  also have "\<dots> = keep_newest d ?t"
    using accumulate_from_empty [of "f # fs" d] assms(4) by simp
  finally have slot: "slot_of ?b src = keep_newest d ?t" .
  have lay: "\<forall>g\<in>set fs. same_layout ?s0 g"
    using assms(4) by (auto simp: append_empty same_layout_def)
  have ts: "timestamps ?t = concat (map timestamps (f # fs))"
    by (simp add: foldl_append_timestamps append_empty)
  have len: "length (columns ?t) = length (columns f)"
    using foldl_append_columns [OF lay] by (simp add: append_empty)
  have ne: "columns f \<noteq> []" using assms(4) by (auto simp: same_layout_def)
  have "columns (slot_of ?b src) \<noteq> []"
    using ne len unfolding slot by (auto simp: keep_newest_def map_values_def)
  then obtain s where s: "map_of (slots ?b) src = Some s"
    by (auto simp: slot_of_def empty_DataBatch_def split: option.splits)
  with slot have "s = keep_newest d ?t" by (simp add: slot_of_def)
  then show ?thesis
    using s ts len foldl_append_columns [OF lay]
    by (auto simp: keep_newest_def map_values_def append_empty Let_def)
qed

theorem slot_holds_newest_samples_witness:
  "\<exists>s. map_of (slots (ingest_all
       [(''a'', ex_payload ''a'' [1, 2]), (''b'', ex_payload ''b'' [9]), (''a'', ex_payload ''a'' [3])]
       (new_InputBuffer [''a'', ''b''] AP_AllUpdated 2))) ''a'' = Some s \<and>
     timestamps s = [\<lparr>epoch_seconds = 2, nanoseconds = 5\<rparr>, \<lparr>epoch_seconds = 3, nanoseconds = 5\<rparr>] \<and>
     col_values (columns s ! 0) = VInt64 [2, 3]"
  using slot_holds_newest_samples [of AP_AllUpdated "[''a'', ''b'']" "''a''"
      "[(''a'', ex_payload ''a'' [1, 2]), (''b'', ex_payload ''b'' [9]), (''a'', ex_payload ''a'' [3])]"
      "ex_frame 1" "[ex_frame 2, ex_frame 3]" 2]
  by (auto simp: source_frames_def ex_payload_def ex_frame_def well_shaped_def same_layout_def
      same_alternative_def Let_def)

text \<open>
  The reference time of a snapshot is the maximum, in 64-bit nanoseconds, of the last
  timestamps of the buffered sources (zero when there is none), whatever the order in which the
  hash table enumerates them.
\<close>

theorem snapshot_reference_time_is_max:
  assumes "trySnapshot trigger b = Some snapshot"
  shows "channels snapshot = slots b \<and>
    busNanoseconds (reference_time snapshot) =
      Max (insert 0 {timestampToNanoseconds (last (timestamps batch)) |src batch.
        (src, batch) \<in> set (slots b) \<and> timestamps batch \<noteq> []})"
  using assms maxReferenceTime_Max [of "slots b"]
  by (auto simp: trySnapshot_def latest_times_def split: if_splits)

theorem snapshot_reference_time_is_max_witness:
  "\<exists>snapshot. trySnapshot TP_AnyUpdate (ingest ''a'' (ex_payload ''a'' [7])
      (new_InputBuffer [''a''] AP_LatestValue 0)) = Some snapshot \<and>
     busNanoseconds (reference_time snapshot) = 7000000005"
proof -
  let ?b = "ingest ''a'' (ex_payload ''a'' [7]) (new_InputBuffer [''a''] AP_LatestValue 0)"
  obtain snapshot where s: "trySnapshot TP_AnyUpdate ?b = Some snapshot"
    by (simp add: trySnapshot_def)
  have sl: "slots ?b = [(''a'', ex_frame 7)]"
    by (simp add: ingest_def new_InputBuffer_def ex_payload_def Let_def umap_assign_def
        trimOldestSamples_def)
  have "busNanoseconds (reference_time snapshot) = 7000000005"
    using snapshot_reference_time_is_max [OF s] sl
    by (simp add: ex_frame_def timestampToNanoseconds_def)
  with s show ?thesis by blast
qed

end
