(* ===== verification/Channel_Processor.thy ===== *)
theory Channel_Processor
  imports Input_Buffer
begin

text \<open>
  A channel processor (\<open>src/processor/ChannelProcessor.cpp\<close>) and its configuration
  (\<open>src/processor/MLDPChannelProcessorConfig.cpp\<close>).  The controller gives each processor a pool of
  one thread, so its tasks run one at a time in the order of the pushes.  The algorithm is a
  parameter \<open>compute\<close> on a private state; the result \<open>None\<close> is a thrown exception.
\<close>

section \<open>Configuration\<close>

text \<open>What the configuration node holds under the keys the constructor reads.\<close>

record ProcessorNode =
  pn_name :: "string option"
  pn_sources :: "string list option"
  pn_alignment :: "string option"
  pn_trigger :: "string option"
  pn_max_buffer_depth :: "int option"
  pn_trigger_interval_sec :: "u64 option"

record ProcessorConfig =
  pc_name :: string
  pc_sources :: "string list"
  pc_alignment :: AlignmentPolicy
  pc_trigger :: TriggerPolicy
  pc_trigger_interval_sec :: u64
  pc_max_buffer_depth :: nat

definition get_default :: "'a option \<Rightarrow> 'a \<Rightarrow> 'a" where
  "get_default x d = (case x of None \<Rightarrow> d | Some v \<Rightarrow> v)"

definition parseAlignment :: "ProcessorNode \<Rightarrow> exn + AlignmentPolicy" where
  "parseAlignment cfg =
     (let v = get_default (pn_alignment cfg) ''latest-value'' in
      if v = ''latest-value'' then Inr AP_LatestValue
      else if v = ''all-updated'' then Inr AP_AllUpdated
      else if v = ''interpolate'' then Inr AP_Interpolate
      else Inl (RuntimeError (''processor: unknown '' @ quoted ''alignment'' @ '' value '' @ quoted v)))"

definition parseTrigger :: "ProcessorNode \<Rightarrow> exn + TriggerPolicy" where
  "parseTrigger cfg =
     (let v = get_default (pn_trigger cfg) ''any-update'' in
      if v = ''any-update'' then Inr TP_AnyUpdate
      else if v = ''all-updated'' then Inr TP_AllUpdated
      else if v = ''interval'' then Inr TP_Interval
      else Inl (RuntimeError (''processor: unknown '' @ quoted ''trigger'' @ '' value '' @ quoted v)))"

definition parseSources :: "ProcessorNode \<Rightarrow> string list" where
  "parseSources cfg =
     (case pn_sources cfg of None \<Rightarrow> [] | Some nodes \<Rightarrow> filter (\<lambda>s. s \<noteq> []) nodes)"

text \<open>The comparison \<open>x <= 0.0\<close> on the bit pattern of a double: a NaN compares false.\<close>

definition double_le_zero :: "u64 \<Rightarrow> bool" where
  "double_le_zero x \<longleftrightarrow>
     x = 0 \<or> (x \<ge> 0x8000000000000000 \<and> x - 0x8000000000000000 \<le> 0x7FF0000000000000)"

definition parseProcessorConfig :: "ProcessorNode \<Rightarrow> exn + ProcessorConfig" where
  "parseProcessorConfig cfg =
     (case parseAlignment cfg of Inl e \<Rightarrow> Inl e | Inr al \<Rightarrow>
     (case parseTrigger cfg of Inl e \<Rightarrow> Inl e | Inr tr \<Rightarrow>
       let depth = get_default (pn_max_buffer_depth cfg) 0;
           result = \<lparr>pc_name = get_default (pn_name cfg) [], pc_sources = parseSources cfg,
             pc_alignment = al, pc_trigger = tr, pc_trigger_interval_sec = 0,
             pc_max_buffer_depth = nat depth\<rparr> in
       if depth < 0 then
         Inl (RuntimeError (''processor: '' @ quoted ''max-buffer-depth'' @ '' must be >= 0''))
       else if tr \<noteq> TP_Interval then Inr result
       else (case pn_trigger_interval_sec cfg of
           None \<Rightarrow> Inl (RuntimeError (''processor: '' @ quoted ''trigger-interval-sec'' @
               '' is required when '' @ quoted ''trigger'' @ '' is '' @ quoted ''interval''))
         | Some sec \<Rightarrow>
             if double_le_zero sec
             then Inl (RuntimeError (''processor: '' @ quoted ''trigger-interval-sec'' @
               '' must be > 0 when '' @ quoted ''trigger'' @ '' is '' @ quoted ''interval''))
             else Inr (result\<lparr>pc_trigger_interval_sec := sec\<rparr>))))"

section \<open>State\<close>

record AlgorithmOutput =
  output_source :: string
  ao_payload :: BatchPayload

type_synonym 's algorithm = "'s \<Rightarrow> AlignedSnapshot \<Rightarrow> 's \<times> AlgorithmOutput list option"

record 's ChannelProcessor =
  cp_config :: ProcessorConfig
  cp_algorithm :: 's
  cp_buffer :: InputBuffer
  cp_running :: bool

definition config_buffer :: "ProcessorConfig \<Rightarrow> InputBuffer" where
  "config_buffer c = new_InputBuffer (pc_sources c) (pc_alignment c) (pc_max_buffer_depth c)"

definition new_ChannelProcessor :: "ProcessorConfig \<Rightarrow> 's \<Rightarrow> 's ChannelProcessor" where
  "new_ChannelProcessor c s =
     \<lparr>cp_config = c, cp_algorithm = s, cp_buffer = config_buffer c, cp_running = False\<rparr>"

definition setEffectiveSources :: "string list \<Rightarrow> 's ChannelProcessor \<Rightarrow> 's ChannelProcessor" where
  "setEffectiveSources sources cp =
     (let c = (cp_config cp)\<lparr>pc_sources := sources\<rparr> in
      cp\<lparr>cp_config := c, cp_buffer := config_buffer c\<rparr>)"

section \<open>One task\<close>

definition output_batch :: "ProcessorConfig \<Rightarrow> AlgorithmOutput \<Rightarrow> EventBatch" where
  "output_batch c out =
     \<lparr>reader_name = pc_name c, metadata = Map.empty, payload = ao_payload out\<rparr>"

text \<open>The batches pushed to the bus, with the processor afterwards.\<close>

definition fireCompute ::
  "'s algorithm \<Rightarrow> AlignedSnapshot \<Rightarrow> 's ChannelProcessor \<Rightarrow> 's ChannelProcessor \<times> EventBatch list" where
  "fireCompute compute snapshot cp =
     (case compute (cp_algorithm cp) snapshot of
        (s, None) \<Rightarrow> (cp\<lparr>cp_algorithm := s\<rparr>, [])
      | (s, Some outputs) \<Rightarrow> (cp\<lparr>cp_algorithm := s\<rparr>, map (output_batch (cp_config cp)) outputs))"

definition processTask ::
  "'s algorithm \<Rightarrow> TimeSeriesPayload \<Rightarrow> 's ChannelProcessor \<Rightarrow> 's ChannelProcessor \<times> EventBatch list" where
  "processTask compute ts cp =
     (let cp1 = cp\<lparr>cp_buffer := ingest (root_source_name ts) ts (cp_buffer cp)\<rparr> in
      if pc_trigger (cp_config cp1) = TP_Interval then (cp1, [])
      else (case trySnapshot (pc_trigger (cp_config cp1)) (cp_buffer cp1) of
              None \<Rightarrow> (cp1, [])
            | Some snapshot \<Rightarrow>
                fireCompute compute snapshot
                  (cp1\<lparr>cp_buffer := resetFreshFlags (cp_buffer cp1)\<rparr>)))"

text \<open>The body of the task that \<open>push\<close> detaches.\<close>

definition run_task ::
  "'s algorithm \<Rightarrow> EventBatch \<Rightarrow> 's ChannelProcessor \<Rightarrow> 's ChannelProcessor \<times> EventBatch list" where
  "run_task compute b cp =
     (if cp_running cp
      then (case payload b of PTimeSeries ts \<Rightarrow> processTask compute ts cp | _ \<Rightarrow> (cp, []))
      else (cp, []))"

definition acceptsPayload :: "BatchPayload \<Rightarrow> bool" where
  "acceptsPayload p = isTimeSeries p"

fun run_tasks ::
  "'s algorithm \<Rightarrow> EventBatch list \<Rightarrow> 's ChannelProcessor \<Rightarrow> 's ChannelProcessor \<times> EventBatch list" where
  "run_tasks compute [] cp = (cp, [])"
| "run_tasks compute (b # bs) cp =
     (let (cp1, out1) = run_task compute b cp; (cp2, out2) = run_tasks compute bs cp1
      in (cp2, out1 @ out2))"

section \<open>Facts about tasks\<close>

lemma fireCompute_fields:
  "cp_config (fst (fireCompute compute sn cp)) = cp_config cp"
  "cp_running (fst (fireCompute compute sn cp)) = cp_running cp"
  "cp_buffer (fst (fireCompute compute sn cp)) = cp_buffer cp"
  by (auto simp: fireCompute_def split: prod.splits option.splits)

lemma fireCompute_names: "\<forall>b\<in>set (snd (fireCompute compute sn cp)). reader_name b = pc_name (cp_config cp)"
  by (auto simp: fireCompute_def output_batch_def split: prod.splits option.splits)

lemma run_task_fields [simp]:
  "cp_config (fst (run_task compute b cp)) = cp_config cp"
  "cp_running (fst (run_task compute b cp)) = cp_running cp"
  by (auto simp: run_task_def processTask_def fireCompute_fields Let_def
      split: BatchPayload.splits option.splits)

lemma fireCompute_name:
  "x \<in> set (snd (fireCompute compute sn cp)) \<Longrightarrow> reader_name x = pc_name (cp_config cp)"
  using fireCompute_names by blast

lemma run_task_name:
  "x \<in> set (snd (run_task compute b cp)) \<Longrightarrow> reader_name x = pc_name (cp_config cp)"
  by (auto simp: run_task_def processTask_def Let_def dest: fireCompute_name
      split: BatchPayload.splits option.splits if_splits)

lemma run_tasks_fields [simp]:
  "cp_config (fst (run_tasks compute bs cp)) = cp_config cp"
  "cp_running (fst (run_tasks compute bs cp)) = cp_running cp"
proof (induction bs arbitrary: cp)
  case (Cons b bs)
  { case 1 show ?case using Cons.IH(1) [of "fst (run_task compute b cp)"]
      by (simp add: Let_def split: prod.splits) (metis fst_conv run_task_fields(1)) }
  { case 2 show ?case using Cons.IH(2) [of "fst (run_task compute b cp)"]
      by (simp add: Let_def split: prod.splits) (metis fst_conv run_task_fields(2)) }
qed simp_all

lemma run_task_reachable:
  "buffer_reachable (cp_buffer cp) \<Longrightarrow> buffer_reachable (cp_buffer (fst (run_task compute b cp)))"
  by (auto simp: run_task_def processTask_def fireCompute_fields Let_def
      split: BatchPayload.splits option.splits intro: buffer_reachable.intros)

lemma run_tasks_append:
  "run_tasks compute (xs @ ys) cp =
     (let (cp1, out1) = run_tasks compute xs cp; (cp2, out2) = run_tasks compute ys cp1
      in (cp2, out1 @ out2))"
  by (induction xs arbitrary: cp) (auto simp: Let_def split: prod.splits)

lemma run_tasks_name:
  "x \<in> set (snd (run_tasks compute bs cp)) \<Longrightarrow> reader_name x = pc_name (cp_config cp)"
proof (induction bs arbitrary: cp)
  case (Cons b bs)
  obtain cp1 o1 cp2 o2 where r: "run_task compute b cp = (cp1, o1)" "run_tasks compute bs cp1 = (cp2, o2)"
    by force
  have "cp_config cp1 = cp_config cp" using run_task_fields(1) [of compute b cp] r by simp
  then show ?case
    using Cons.prems Cons.IH [of cp1] run_task_name [of x compute b cp] r by auto
qed simp

text \<open>The time-series payloads of a list of tasks, as the deliveries the buffer sees.\<close>

definition deliveries :: "EventBatch list \<Rightarrow> (string \<times> TimeSeriesPayload) list" where
  "deliveries bs = List.map_filter
     (\<lambda>b. case payload b of PTimeSeries ts \<Rightarrow> Some (root_source_name ts, ts) | _ \<Rightarrow> None) bs"

lemma deliveries_simps [simp]:
  "deliveries [] = []"
  "deliveries (b # bs) =
     (case payload b of PTimeSeries ts \<Rightarrow> (root_source_name ts, ts) # deliveries bs | _ \<Rightarrow> deliveries bs)"
  by (simp_all add: deliveries_def map_filter_simps split: BatchPayload.splits)

section \<open>Start, stop and the task counter\<close>

text \<open>
  The interleaving of pushes, the pool's thread and \<open>stop\<close>.  \<open>push\<close> first increments the counter
  and then hands the task to the pool.  The thread runs a task, decrements the counter, and when
  it reached zero notifies the condition variable, without holding the mutex of the waiting
  \<open>stop\<close>.  The wait evaluates its predicate, then blocks; the two are separate steps, since the
  mutex does not exclude the thread.
\<close>

datatype WorkerPc = WK_Idle | WK_Ran | WK_Notify
datatype StopPc = ST_Out | ST_Check | ST_Blocking | ST_Sleep

record 's ProcState =
  ps_cp :: "'s ChannelProcessor"
  ps_pushing :: "EventBatch list"
  ps_queue :: "EventBatch list"
  ps_pending :: int
  ps_worker :: WorkerPc
  ps_stop :: StopPc
  ps_ran :: "EventBatch list"
  ps_out :: "EventBatch list"

definition init_ProcState :: "'s ChannelProcessor \<Rightarrow> 's ProcState" where
  "init_ProcState cp = \<lparr>ps_cp = cp, ps_pushing = [], ps_queue = [], ps_pending = 0,
     ps_worker = WK_Idle, ps_stop = ST_Out, ps_ran = [], ps_out = []\<rparr>"

text \<open>\<open>push\<close>: the counter, then the hand-over of the task.\<close>

inductive proc_push_step ::
  "'s algorithm \<Rightarrow> 's ProcState \<Rightarrow> 's ProcState \<Rightarrow> bool"
  for compute s where
  push_count: "proc_push_step compute s (s\<lparr>ps_pending := ps_pending s + 1, ps_pushing := ps_pushing s @ [b]\<rparr>)"
| push_detach: "ps_pushing s = xs @ b # ys \<Longrightarrow>
    proc_push_step compute s (s\<lparr>ps_pushing := xs @ ys, ps_queue := ps_queue s @ [b]\<rparr>)"

text \<open>The task body on the pool thread.\<close>

inductive proc_work_step ::
  "'s algorithm \<Rightarrow> 's ProcState \<Rightarrow> 's ProcState \<Rightarrow> bool"
  for compute s where
  run: "ps_worker s = WK_Idle \<Longrightarrow> ps_queue s = b # q \<Longrightarrow> run_task compute b (ps_cp s) = (cp, out) \<Longrightarrow>
    proc_work_step compute s (s\<lparr>ps_cp := cp, ps_queue := q, ps_worker := WK_Ran,
      ps_ran := ps_ran s @ [b], ps_out := ps_out s @ out\<rparr>)"
| finish: "ps_worker s = WK_Ran \<Longrightarrow>
    proc_work_step compute s (s\<lparr>ps_pending := ps_pending s - 1,
      ps_worker := (if ps_pending s - 1 = 0 then WK_Notify else WK_Idle)\<rparr>)"
| notify: "ps_worker s = WK_Notify \<Longrightarrow>
    proc_work_step compute s (s\<lparr>ps_worker := WK_Idle,
      ps_stop := (if ps_stop s = ST_Sleep then ST_Check else ps_stop s)\<rparr>)"

text \<open>\<open>start\<close> and \<open>stop\<close>.\<close>

inductive proc_stop_step ::
  "'s algorithm \<Rightarrow> 's ProcState \<Rightarrow> 's ProcState \<Rightarrow> bool"
  for compute s where
  start: "ps_stop s = ST_Out \<Longrightarrow> \<not> cp_running (ps_cp s) \<Longrightarrow>
    proc_stop_step compute s (s\<lparr>ps_cp := (ps_cp s)\<lparr>cp_running := True\<rparr>\<rparr>)"
| stop: "ps_stop s = ST_Out \<Longrightarrow> cp_running (ps_cp s) \<Longrightarrow>
    proc_stop_step compute s (s\<lparr>ps_cp := (ps_cp s)\<lparr>cp_running := False\<rparr>, ps_stop := ST_Check\<rparr>)"
| stop_drained: "ps_stop s = ST_Check \<Longrightarrow> ps_pending s = 0 \<Longrightarrow>
    proc_stop_step compute s (s\<lparr>ps_stop := ST_Out,
      ps_cp := (ps_cp s)\<lparr>cp_buffer := clear_buffer (cp_buffer (ps_cp s))\<rparr>\<rparr>)"
| stop_wait: "ps_stop s = ST_Check \<Longrightarrow> ps_pending s \<noteq> 0 \<Longrightarrow>
    proc_stop_step compute s (s\<lparr>ps_stop := ST_Blocking\<rparr>)"
| stop_block: "ps_stop s = ST_Blocking \<Longrightarrow> proc_stop_step compute s (s\<lparr>ps_stop := ST_Sleep\<rparr>)"

text \<open>Any thread may take the next step.\<close>

inductive proc_step ::
  "'s algorithm \<Rightarrow> 's ProcState \<Rightarrow> 's ProcState \<Rightarrow> bool"
  for compute s where
  push_step: "proc_push_step compute s s' \<Longrightarrow> proc_step compute s s'"
| work_step: "proc_work_step compute s s' \<Longrightarrow> proc_step compute s s'"
| stop_step: "proc_stop_step compute s s' \<Longrightarrow> proc_step compute s s'"

lemmas proc_step_push_count = proc_push_step.push_count [THEN proc_step.push_step]
lemmas proc_step_push_detach = proc_push_step.push_detach [THEN proc_step.push_step]
lemmas proc_step_run = proc_work_step.run [THEN proc_step.work_step]
lemmas proc_step_finish = proc_work_step.finish [THEN proc_step.work_step]
lemmas proc_step_notify = proc_work_step.notify [THEN proc_step.work_step]
lemmas proc_step_start = proc_stop_step.start [THEN proc_step.stop_step]
lemmas proc_step_stop = proc_stop_step.stop [THEN proc_step.stop_step]
lemmas proc_step_stop_drained = proc_stop_step.stop_drained [THEN proc_step.stop_step]
lemmas proc_step_stop_wait = proc_stop_step.stop_wait [THEN proc_step.stop_step]
lemmas proc_step_stop_block = proc_stop_step.stop_block [THEN proc_step.stop_step]

lemma proc_step_cases [consumes 1, case_names 
    push_count push_detach run finish notify start stop 
    stop_drained stop_wait stop_block]:
  assumes "proc_step compute s s'"
    and push_count: "\<And>b. s' = (s\<lparr>ps_pending := ps_pending s + 1, ps_pushing := ps_pushing s @ [b]\<rparr>) \<Longrightarrow>
      P"
    and push_detach: "\<And>xs b ys. s' = (s\<lparr>ps_pushing := xs @ ys, ps_queue := ps_queue s @ [b]\<rparr>) \<Longrightarrow>
      ps_pushing s = xs @ b # ys \<Longrightarrow> P"
    and run: "\<And>b q cp out. s' = (s\<lparr>ps_cp := cp, ps_queue := q, ps_worker := WK_Ran, ps_ran := ps_ran s @ [b], ps_out := ps_out s @ out\<rparr>) \<Longrightarrow>
      ps_worker s = WK_Idle \<Longrightarrow> ps_queue s = b # q \<Longrightarrow> run_task compute b (ps_cp s) = (cp, out) \<Longrightarrow>
      P"
    and finish: "s' = (s\<lparr>ps_pending := ps_pending s - 1, ps_worker := (if ps_pending s - 1 = 0 then WK_Notify else WK_Idle)\<rparr>) \<Longrightarrow>
      ps_worker s = WK_Ran \<Longrightarrow> P"
    and notify: "s' = (s\<lparr>ps_worker := WK_Idle, ps_stop := (if ps_stop s = ST_Sleep then ST_Check else ps_stop s)\<rparr>) \<Longrightarrow>
      ps_worker s = WK_Notify \<Longrightarrow> P"
    and start: "s' = (s\<lparr>ps_cp := (ps_cp s)\<lparr>cp_running := True\<rparr>\<rparr>) \<Longrightarrow>
      ps_stop s = ST_Out \<Longrightarrow> \<not> cp_running (ps_cp s) \<Longrightarrow> P"
    and stop: "s' = (s\<lparr>ps_cp := (ps_cp s)\<lparr>cp_running := False\<rparr>, ps_stop := ST_Check\<rparr>) \<Longrightarrow>
      ps_stop s = ST_Out \<Longrightarrow> cp_running (ps_cp s) \<Longrightarrow> P"
    and stop_drained: "s' = (s\<lparr>ps_stop := ST_Out, ps_cp := (ps_cp s)\<lparr>cp_buffer := clear_buffer (cp_buffer (ps_cp s))\<rparr>\<rparr>) \<Longrightarrow>
      ps_stop s = ST_Check \<Longrightarrow> ps_pending s = 0 \<Longrightarrow> P"
    and stop_wait: "s' = (s\<lparr>ps_stop := ST_Blocking\<rparr>) \<Longrightarrow> ps_stop s = ST_Check \<Longrightarrow>
      ps_pending s \<noteq> 0 \<Longrightarrow> P"
    and stop_block: "s' = (s\<lparr>ps_stop := ST_Sleep\<rparr>) \<Longrightarrow> ps_stop s = ST_Blocking \<Longrightarrow> P"
  shows P
  using assms(1)
proof (cases rule: proc_step.cases)
  case push_step
  then show ?thesis
    by (cases rule: proc_push_step.cases)
      ((rule push_count; assumption), (rule push_detach; assumption))
next
  case work_step
  then show ?thesis
    by (cases rule: proc_work_step.cases)
      ((rule run; assumption), (rule finish; assumption), (rule notify; assumption))
next
  case stop_step
  then show ?thesis
    by (cases rule: proc_stop_step.cases)
      ((rule start; assumption), (rule stop; assumption), (rule stop_drained; assumption), (rule stop_wait; assumption), (rule stop_block; assumption))
qed

inductive_cases proc_push_stepE: "proc_push_step compute s s'"
inductive_cases proc_work_stepE: "proc_work_step compute s s'"
inductive_cases proc_stop_stepE: "proc_stop_step compute s s'"

definition proc_reachable :: "'s algorithm \<Rightarrow> ProcessorConfig \<Rightarrow> 's \<Rightarrow> 's ProcState \<Rightarrow> bool" where
  "proc_reachable compute c a s \<longleftrightarrow>
     (proc_step compute)\<^sup>*\<^sup>* (init_ProcState (new_ChannelProcessor c a)) s"

definition proc_inv :: "ProcessorConfig \<Rightarrow> 's ProcState \<Rightarrow> bool" where
  "proc_inv c s \<longleftrightarrow>
     ps_pending s = int (length (ps_pushing s)) + int (length (ps_queue s)) +
       (if ps_worker s = WK_Ran then 1 else 0) \<and>
     cp_config (ps_cp s) = c \<and>
     buffer_reachable (cp_buffer (ps_cp s)) \<and>
     (ps_stop s \<noteq> ST_Out \<longrightarrow> \<not> cp_running (ps_cp s)) \<and>
     (\<forall>x\<in>set (ps_out s). reader_name x = pc_name c)"

lemma init_proc_inv: "proc_inv c (init_ProcState (new_ChannelProcessor c a))"
  by (auto simp: proc_inv_def init_ProcState_def new_ChannelProcessor_def config_buffer_def
      intro: buffer_reachable.intros)

lemma step_proc_inv:
  assumes "proc_step compute s s'" "proc_inv c s"
  shows "proc_inv c s'"
  using assms
proof (cases rule: proc_step_cases)
  case (run b q cp out)
  have cp: "cp = fst (run_task compute b (ps_cp s))" "out = snd (run_task compute b (ps_cp s))"
    using run by auto
  show ?thesis
    using run(2,3) assms(2) run_task_name [of _ compute b "ps_cp s"]
    unfolding run(1) by (auto simp: proc_inv_def cp intro: run_task_reachable)
qed (auto simp: proc_inv_def intro: buffer_reachable.intros)

lemma reachable_proc_inv: "proc_reachable compute c a s \<Longrightarrow> proc_inv c s"
  unfolding proc_reachable_def
  by (induction rule: rtranclp_induct) (auto intro: init_proc_inv step_proc_inv)

section \<open>Properties\<close>

lemma run_task_delivery:
  assumes "cp_running cp" "payload b = PTimeSeries ts" "pc_trigger (cp_config cp) \<noteq> TP_Interval"
    and "trySnapshot (pc_trigger (cp_config cp)) (ingest (root_source_name ts) ts (cp_buffer cp)) = None"
  shows "run_task compute b cp = (cp\<lparr>cp_buffer := ingest (root_source_name ts) ts (cp_buffer cp)\<rparr>, [])"
  using assms by (simp add: run_task_def processTask_def Let_def)

lemma allUpdated_not_ready:
  assumes "buffer_inv b" "src \<in> set (required_sources b)" "src \<notin> fresh b"
    and "distinct (required_sources b)"
  shows "trySnapshot TP_AllUpdated b = None"
proof -
  have ne: "required_sources b \<noteq> []" using assms(2) by auto
  then have "card (fresh b) \<noteq> card (set (required_sources b))"
    using fresh_card_eq_iff [OF assms(1) ne] assms(2,3) by auto
  then show ?thesis using ne assms(4) by (simp add: trySnapshot_def distinct_card)
qed

lemma run_tasks_before_round:
  assumes "cp_running cp" "pc_trigger (cp_config cp) = TP_AllUpdated" "buffer_inv (cp_buffer cp)"
    and "distinct (required_sources (cp_buffer cp))"
    and "src \<in> set (required_sources (cp_buffer cp))" "src \<notin> fresh (cp_buffer cp)"
    and "\<forall>(s, p)\<in>set (deliveries bs). s = src \<longrightarrow> frames p = []"
  shows "run_tasks compute bs cp =
    (cp\<lparr>cp_buffer := ingest_all (deliveries bs) (cp_buffer cp)\<rparr>, [])"
  using assms
proof (induction bs arbitrary: cp)
  case (Cons b bs)
  show ?case
  proof (cases "payload b")
    case (PTimeSeries ts)
    let ?b = "ingest (root_source_name ts) ts (cp_buffer cp)"
    have inv: "buffer_inv ?b" using Cons.prems(3) by (rule ingest_inv)
    have out: "src \<notin> fresh ?b"
      using Cons.prems(6,7) PTimeSeries by (auto simp: ingest_fresh)
    have "trySnapshot TP_AllUpdated ?b = None"
      using Cons.prems(4,5) by (intro allUpdated_not_ready [OF inv _ out]) simp_all
    then have step: "run_task compute b cp = (cp\<lparr>cp_buffer := ?b\<rparr>, [])"
      using Cons.prems(1,2) PTimeSeries by (intro run_task_delivery) simp_all
    have "run_tasks compute bs (cp\<lparr>cp_buffer := ?b\<rparr>) =
        (cp\<lparr>cp_buffer := ingest_all (deliveries bs) ?b\<rparr>, [])"
      using Cons.IH [of "cp\<lparr>cp_buffer := ?b\<rparr>"] Cons.prems inv out PTimeSeries by simp
    with step show ?thesis by (simp add: PTimeSeries)
  qed (use Cons in \<open>simp_all add: run_task_def\<close>)
qed simp

text \<open>
  Rounds.  A running processor that waits for all its sources computes nothing while some
  source is missing, and on the task that completes the set it calls the algorithm once, on the
  batches of everything buffered, and pushes one batch per output under its own name, in the
  order of the outputs.  The interleaving of the sources does not matter.
\<close>

theorem allUpdated_round_computes_once:
  assumes "cp_running cp" and "pc_trigger (cp_config cp) = TP_AllUpdated"
    and "buffer_reachable (cp_buffer cp)" and "distinct (required_sources (cp_buffer cp))"
    and "src \<in> set (required_sources (cp_buffer cp))" and "fresh (cp_buffer cp) = {}"
    and "\<forall>(s, p)\<in>set (deliveries bs). s = src \<longrightarrow> frames p = []"
    and "payload b = PTimeSeries ts" and "root_source_name ts = src" and "frames ts \<noteq> []"
    and "\<forall>r\<in>set (required_sources (cp_buffer cp)) - {src}.
           \<exists>p. (r, p) \<in> set (deliveries bs) \<and> frames p \<noteq> []"
  shows "snd (run_tasks compute bs cp) = [] \<and>
    (let buffered = ingest_all (deliveries bs @ [(src, ts)]) (cp_buffer cp);
         snapshot = \<lparr>channels = slots buffered, reference_time = maxReferenceTime (slots buffered)\<rparr> in
     snd (run_tasks compute (bs @ [b]) cp) =
       (case snd (compute (cp_algorithm cp) snapshot) of
          None \<Rightarrow> []
        | Some outs \<Rightarrow> map (output_batch (cp_config cp)) outs) \<and>
     fresh (cp_buffer (fst (run_tasks compute (bs @ [b]) cp))) = {})"
proof -
  have inv: "buffer_inv (cp_buffer cp)" using assms(3) by (rule reachable_inv)
  have before: "run_tasks compute bs cp = (cp\<lparr>cp_buffer := ingest_all (deliveries bs) (cp_buffer cp)\<rparr>, [])"
    using assms by (intro run_tasks_before_round [where src = src] inv) auto
  let ?b0 = "ingest_all (deliveries bs) (cp_buffer cp)"
  let ?b1 = "ingest src ts ?b0"
  have all: "ingest_all (deliveries bs @ [(src, ts)]) (cp_buffer cp) = ?b1"
    by (simp add: ingest_all_def)
  have ne: "required_sources ?b1 \<noteq> []" using assms(5) by auto
  have look: "required_source_lookup (cp_buffer cp) = set (required_sources (cp_buffer cp))"
    using inv by (simp add: buffer_inv_def)
  have "set (required_sources ?b1) \<subseteq> fresh ?b1"
    using assms(5,6,10,11) by (auto simp: ingest_fresh ingest_all_fresh look)
  then have "card (fresh ?b1) = card (set (required_sources ?b1))"
    using fresh_card_eq_iff [OF _ ne] inv ingest_inv ingest_all_inv by blast
  then have fire: "trySnapshot TP_AllUpdated ?b1 =
      Some \<lparr>channels = slots ?b1, reference_time = maxReferenceTime (slots ?b1)\<rparr>"
    using ne assms(4) by (simp add: trySnapshot_def distinct_card)
  show ?thesis
    unfolding all run_tasks_append before
    using assms(1,2,8,9) fire
    by (auto simp: Let_def run_task_def processTask_def fireCompute_def resetFreshFlags_def
        split: prod.splits option.splits)
qed

definition ex_config :: "string list \<Rightarrow> TriggerPolicy \<Rightarrow> ProcessorConfig" where
  "ex_config ss t = \<lparr>pc_name = ''p'', pc_sources = ss, pc_alignment = AP_LatestValue,
     pc_trigger = t, pc_trigger_interval_sec = 0, pc_max_buffer_depth = 0\<rparr>"

definition ex_batch :: "string \<Rightarrow> u64 \<Rightarrow> EventBatch" where
  "ex_batch s t = \<lparr>reader_name = ''r'', metadata = Map.empty, payload = PTimeSeries (ex_payload s [t])\<rparr>"

definition ex_compute :: "nat algorithm" where
  "ex_compute n sn =
     (n + 1, Some [\<lparr>output_source = ''o'', ao_payload = PTimeSeries (ex_payload ''o'' [0])\<rparr>])"

definition ex_cp :: "TriggerPolicy \<Rightarrow> nat ChannelProcessor" where
  "ex_cp t = (new_ChannelProcessor (ex_config [''a'', ''b''] t) 0)\<lparr>cp_running := True\<rparr>"

theorem allUpdated_round_computes_once_witness:
  "snd (run_tasks ex_compute [ex_batch ''b'' 1, ex_batch ''b'' 2] (ex_cp TP_AllUpdated)) = [] \<and>
   length (snd (run_tasks ex_compute
     ([ex_batch ''b'' 1, ex_batch ''b'' 2] @ [ex_batch ''a'' 3]) (ex_cp TP_AllUpdated))) = 1"
proof -
  let ?cp = "ex_cp TP_AllUpdated" and ?bs = "[ex_batch ''b'' 1, ex_batch ''b'' 2]"
  have buf: "cp_buffer ?cp = new_InputBuffer [''a'', ''b''] AP_LatestValue 0"
    by (simp add: ex_cp_def new_ChannelProcessor_def config_buffer_def ex_config_def)
  have del: "deliveries ?bs = [(''b'', ex_payload ''b'' [1]), (''b'', ex_payload ''b'' [2])]"
    by (simp add: ex_batch_def ex_payload_def)
  have "snd (run_tasks ex_compute ?bs ?cp) = [] \<and>
    (let buffered = ingest_all (deliveries ?bs @ [(''a'', ex_payload ''a'' [3])]) (cp_buffer ?cp);
         snapshot = \<lparr>channels = slots buffered, reference_time = maxReferenceTime (slots buffered)\<rparr> in
     snd (run_tasks ex_compute (?bs @ [ex_batch ''a'' 3]) ?cp) =
       (case snd (ex_compute (cp_algorithm ?cp) snapshot) of
          None \<Rightarrow> []
        | Some outs \<Rightarrow> map (output_batch (cp_config ?cp)) outs) \<and>
     fresh (cp_buffer (fst (run_tasks ex_compute (?bs @ [ex_batch ''a'' 3]) ?cp))) = {})"
  proof (rule allUpdated_round_computes_once)
    show "buffer_reachable (cp_buffer ?cp)" unfolding buf by (rule buffer_reachable.new)
    show "cp_running ?cp" "pc_trigger (cp_config ?cp) = TP_AllUpdated"
      by (simp_all add: ex_cp_def ex_config_def new_ChannelProcessor_def)
    show "distinct (required_sources (cp_buffer ?cp))" "''a'' \<in> set (required_sources (cp_buffer ?cp))"
      "fresh (cp_buffer ?cp) = {}"
      by (simp_all add: buf new_InputBuffer_def)
    show "\<forall>(s, p)\<in>set (deliveries ?bs). s = ''a'' \<longrightarrow> frames p = []"
      unfolding del by simp
    show "payload (ex_batch ''a'' 3) = PTimeSeries (ex_payload ''a'' [3])" by (simp add: ex_batch_def)
    show "root_source_name (ex_payload ''a'' [3]) = ''a''" "frames (ex_payload ''a'' [3]) \<noteq> []"
      by (simp_all add: ex_payload_def)
    show "\<forall>r\<in>set (required_sources (cp_buffer ?cp)) - {''a''}.
        \<exists>p. (r, p) \<in> set (deliveries ?bs) \<and> frames p \<noteq> []"
    proof
      fix r assume "r \<in> set (required_sources (cp_buffer ?cp)) - {''a''}"
      then have r: "r = ''b''" by (simp add: buf new_InputBuffer_def)
      show "\<exists>p. (r, p) \<in> set (deliveries ?bs) \<and> frames p \<noteq> []"
        unfolding r del by (rule exI [of _ "ex_payload ''b'' [1]"]) (simp add: ex_payload_def)
    qed
  qed
  then show ?thesis
    by (simp add: Let_def ex_compute_def del: run_tasks.simps)
qed

text \<open>
  A processor whose trigger is the timer interval emits nothing, whatever it receives: the
  task returns after buffering, and nothing else in the processor calls the algorithm.
\<close>

theorem interval_trigger_never_emits:
  assumes "pc_trigger (cp_config cp) = TP_Interval"
  shows "snd (run_tasks compute bs cp) = [] \<and>
    cp_algorithm (fst (run_tasks compute bs cp)) = cp_algorithm cp"
  using assms
proof (induction bs arbitrary: cp)
  case (Cons b bs)
  have "snd (run_task compute b cp) = []" "cp_algorithm (fst (run_task compute b cp)) = cp_algorithm cp"
    using Cons.prems by (auto simp: run_task_def processTask_def Let_def split: BatchPayload.splits)
  then show ?case
    using Cons.IH [of "fst (run_task compute b cp)"] Cons.prems by (auto simp: Let_def split: prod.splits)
qed simp

theorem interval_trigger_never_emits_witness:
  "snd (run_tasks ex_compute [ex_batch ''a'' 1, ex_batch ''b'' 2] (ex_cp TP_Interval)) = []"
  using interval_trigger_never_emits [of "ex_cp TP_Interval" ex_compute "[ex_batch ''a'' 1, ex_batch ''b'' 2]"]
  by (simp add: ex_cp_def ex_config_def new_ChannelProcessor_def)

text \<open>The counter of pending tasks is exact in every reachable state of the interleaved system:
  it counts the pushes that have not reached the pool, the queued tasks and the running one.
  Hence \<open>stop\<close> can pass its wait only when every task pushed so far has run; and every batch the
  processor ever pushes to the bus carries the processor's own name.
\<close>

theorem pending_counter_exact:
  assumes "proc_reachable compute c a s"
  shows "ps_pending s = int (length (ps_pushing s) + length (ps_queue s)) +
      (if ps_worker s = WK_Ran then 1 else 0) \<and>
    (ps_pending s = 0 \<longrightarrow> ps_pushing s = [] \<and> ps_queue s = [] \<and> ps_worker s \<noteq> WK_Ran) \<and>
    (\<forall>x\<in>set (ps_out s). reader_name x = pc_name c)"
  using reachable_proc_inv [OF assms] by (auto simp: proc_inv_def simp flip: of_nat_add)

lemma proc_reachable_init: "proc_reachable compute c a (init_ProcState (new_ChannelProcessor c a))"
  by (simp add: proc_reachable_def)

lemma proc_reachable_step:
  "proc_reachable compute c a s \<Longrightarrow> proc_step compute s s' \<Longrightarrow> s' = t \<Longrightarrow> proc_reachable compute c a t"
  unfolding proc_reachable_def by (auto intro: rtranclp.rtrancl_into_rtrancl)

theorem pending_counter_exact_witness:
  "\<exists>s. proc_reachable ex_compute (ex_config [''a''] TP_AnyUpdate) 0 s \<and>
     ps_pending s = 1 \<and> ps_pushing s = [ex_batch ''a'' 1] \<and>
     ps_pending s = int (length (ps_pushing s) + length (ps_queue s)) + (if ps_worker s = WK_Ran then 1 else 0)"
proof -
  let ?c = "ex_config [''a''] TP_AnyUpdate"
  let ?i = "init_ProcState (new_ChannelProcessor ?c (0 :: nat))"
  let ?s = "?i\<lparr>ps_pending := ps_pending ?i + 1, ps_pushing := ps_pushing ?i @ [ex_batch ''a'' 1]\<rparr>"
  have r: "proc_reachable ex_compute ?c 0 ?s"
    by (rule proc_reachable_step [OF proc_reachable_init proc_step_push_count refl])
  show ?thesis
    using r pending_counter_exact [OF r] by (intro exI [of _ ?s]) (simp add: init_ProcState_def)
qed

text \<open>
  C39. A lost wake-up.  Since the thread notifies without the mutex, the notification can fall
  between the evaluation of the predicate in \<open>stop\<close> and its blocking.  A reachable state has
  \<open>stop\<close> asleep with no pending task and an idle thread; from it no step of the thread or of
  \<open>stop\<close> is possible, so without another push \<open>stop\<close> never returns.
\<close>

theorem stop_can_miss_its_wakeup:
  "\<exists>s. proc_reachable ex_compute (ex_config [''a''] TP_AnyUpdate) 0 s \<and>
     ps_stop s = ST_Sleep \<and> ps_pending s = 0 \<and>
     {s'. proc_step ex_compute s s'} \<subseteq> {s'. \<exists>b. s' = s\<lparr>ps_pending := 1, ps_pushing := [b]\<rparr>}"
proof -
  let ?c = "ex_config [''a''] TP_AnyUpdate"
  let ?b = "\<lparr>reader_name = ''r'', metadata = Map.empty,
      payload = PSourceMetadata \<lparr>smp_root_source_name = ''m'', smp_sources = Map.empty\<rparr>\<rparr>"
  let ?cp = "new_ChannelProcessor ?c (0 :: nat)"
  let ?i = "init_ProcState ?cp"
  let ?R = "proc_reachable ex_compute ?c 0"
  let ?on = "?i\<lparr>ps_cp := ?cp\<lparr>cp_running := True\<rparr>\<rparr>"
  note d = init_ProcState_def new_ChannelProcessor_def
  have 1: "?R ?on"
    by (rule proc_reachable_step [OF proc_reachable_init proc_step_start]) (simp_all add: d)
  have 2: "?R (?on\<lparr>ps_pending := 1, ps_pushing := [?b]\<rparr>)"
    by (rule proc_reachable_step [OF 1 proc_step_push_count [where b = ?b]]) (simp add: d)
  have 3: "?R (?on\<lparr>ps_pending := 1, ps_queue := [?b]\<rparr>)"
    by (rule proc_reachable_step [OF 2 proc_step_push_detach [where xs = "[]" and b = ?b and ys = "[]"]])
      (simp_all add: d)
  have 4: "?R (?i\<lparr>ps_pending := 1, ps_queue := [?b], ps_stop := ST_Check\<rparr>)"
    by (rule proc_reachable_step [OF 3 proc_step_stop]) (simp_all add: d)
  have 5: "?R (?i\<lparr>ps_pending := 1, ps_queue := [?b], ps_stop := ST_Blocking\<rparr>)"
    by (rule proc_reachable_step [OF 4 proc_step_stop_wait]) (simp_all add: d)
  have 6: "?R (?i\<lparr>ps_pending := 1, ps_worker := WK_Ran, ps_ran := [?b], ps_stop := ST_Blocking\<rparr>)"
    by (rule proc_reachable_step [OF 5 proc_step_run [where b = ?b and q = "[]" and cp = ?cp and out = "[]"]])
      (simp_all add: d run_task_def)
  have 7: "?R (?i\<lparr>ps_worker := WK_Notify, ps_ran := [?b], ps_stop := ST_Blocking\<rparr>)"
    by (rule proc_reachable_step [OF 6 proc_step_finish]) (simp_all add: d)
  have 8: "?R (?i\<lparr>ps_ran := [?b], ps_stop := ST_Blocking\<rparr>)"
    by (rule proc_reachable_step [OF 7 proc_step_notify]) (simp_all add: d)
  have 9: "?R (?i\<lparr>ps_ran := [?b], ps_stop := ST_Sleep\<rparr>)"
    by (rule proc_reachable_step [OF 8 proc_step_stop_block]) (simp_all add: d)
  have "\<exists>b. s' = (?i\<lparr>ps_ran := [?b], ps_stop := ST_Sleep\<rparr>)\<lparr>ps_pending := 1, ps_pushing := [b]\<rparr>"
    if "proc_step ex_compute (?i\<lparr>ps_ran := [?b], ps_stop := ST_Sleep\<rparr>) s'" for s'
    using that by (cases rule: proc_step_cases) (auto simp: d)
  with 9 show ?thesis
    by (intro exI [of _ "?i\<lparr>ps_ran := [?b], ps_stop := ST_Sleep\<rparr>"]) (auto simp: d)
qed

text \<open>
  The configuration parser accepts exactly the documented values, with the documented
  defaults: an unknown alignment or trigger, a negative depth, and an interval trigger without a
  positive interval are rejected, and nothing else is.
\<close>

theorem processor_config_accepts_iff:
  "(\<exists>c. parseProcessorConfig cfg = Inr c) \<longleftrightarrow>
     get_default (pn_alignment cfg) ''latest-value'' \<in> {''latest-value'', ''all-updated'', ''interpolate''} \<and>
     get_default (pn_trigger cfg) ''any-update'' \<in> {''any-update'', ''all-updated'', ''interval''} \<and>
     get_default (pn_max_buffer_depth cfg) 0 \<ge> 0 \<and>
     (pn_trigger cfg = Some ''interval'' \<longrightarrow>
        (\<exists>sec. pn_trigger_interval_sec cfg = Some sec \<and> \<not> double_le_zero sec))"
  by (auto simp: parseProcessorConfig_def parseAlignment_def parseTrigger_def get_default_def Let_def
      split: option.splits)

theorem processor_config_accepts_iff_witness:
  "\<not> (\<exists>c. parseProcessorConfig \<lparr>pn_name = None, pn_sources = None, pn_alignment = None,
        pn_trigger = Some ''interval'', pn_max_buffer_depth = Some 3, pn_trigger_interval_sec = Some 0\<rparr> = Inr c) \<and>
     (\<exists>c. parseProcessorConfig \<lparr>pn_name = None, pn_sources = None, pn_alignment = Some ''interpolate'',
        pn_trigger = None, pn_max_buffer_depth = Some 3, pn_trigger_interval_sec = None\<rparr> = Inr c)"
  unfolding processor_config_accepts_iff by (simp add: get_default_def double_le_zero_def)

end
