(* ===== verification/Processor_Graph.thy ===== *)
theory Processor_Graph
  imports Prelude
begin

text \<open>
  The two validations of the processor set in \<open>src/controller/MLDPPVXSController.cpp\<close>: no output
  source collides with a reader name, and the graph of processors is acyclic.  The recursive search
  has a fuel argument; the number of processors is enough, which \<open>dfs_enough\<close> proves.
\<close>

section \<open>Collisions\<close>

record ProcessorInfo =
  pi_name :: string
  pi_outputs :: "string list"
  pi_inputs :: "string list"

fun check_outputs :: "string set \<Rightarrow> string list \<Rightarrow> exn + unit" where
  "check_outputs readers [] = Inr ()"
| "check_outputs readers (out # outs) =
     (if out \<in> readers then
        Inl (RuntimeError (''Controller: processor output source '' @ quoted out @
          '' collides with reader name''))
      else check_outputs readers outs)"

fun validateProcessorOutputSourceCollisions :: "string set \<Rightarrow> ProcessorInfo list \<Rightarrow> exn + unit" where
  "validateProcessorOutputSourceCollisions readers [] = Inr ()"
| "validateProcessorOutputSourceCollisions readers (p # ps) =
     (case check_outputs readers (pi_outputs p) of
        Inl e \<Rightarrow> Inl e
      | Inr _ \<Rightarrow> validateProcessorOutputSourceCollisions readers ps)"

section \<open>The graph\<close>

definition outputs_by_processor :: "ProcessorInfo list \<Rightarrow> (string, string set) umap" where
  "outputs_by_processor ps = foldl (\<lambda>m p. umap_emplace (pi_name p) (set (pi_outputs p)) m) [] ps"

definition outputs_of :: "ProcessorInfo list \<Rightarrow> string \<Rightarrow> string set" where
  "outputs_of ps name = (case map_of (outputs_by_processor ps) name of None \<Rightarrow> {} | Some s \<Rightarrow> s)"

type_synonym graph = "string \<Rightarrow> string list"

definition add_consumer :: "ProcessorInfo list \<Rightarrow> ProcessorInfo \<Rightarrow> graph \<Rightarrow> ProcessorInfo \<Rightarrow> graph" where
  "add_consumer ps producer g consumer =
     (if pi_name producer = pi_name consumer then g
      else if \<exists>input\<in>set (pi_inputs consumer). input \<in> outputs_of ps (pi_name producer)
      then g(pi_name producer := g (pi_name producer) @ [pi_name consumer])
      else g)"

definition processor_graph :: "ProcessorInfo list \<Rightarrow> graph" where
  "processor_graph ps = foldl (\<lambda>g producer. foldl (add_consumer ps producer) g ps) (\<lambda>_. []) ps"

section \<open>The search\<close>

datatype VisitState = NotVisited | Visiting | Visited

fun intercalate_arrow :: "string list \<Rightarrow> string" where
  "intercalate_arrow [] = []"
| "intercalate_arrow [x] = x"
| "intercalate_arrow (x # xs) = x @ '' -> '' @ intercalate_arrow xs"

definition describeCycle :: "string list \<Rightarrow> string \<Rightarrow> string" where
  "describeCycle stack name =
     (if name \<notin> set stack then name
      else intercalate_arrow (dropWhile (\<lambda>x. x \<noteq> name) stack) @ '' -> '' @ name)"

text \<open>
  The result is \<open>None\<close> when the fuel is used up, an exception, or the visit states; the stack is
  restored on a normal return, so it is an argument only.
\<close>

fun dfs :: "graph \<Rightarrow> nat \<Rightarrow> string \<Rightarrow> (string \<Rightarrow> VisitState) \<Rightarrow> string list \<Rightarrow>
      (exn + (string \<Rightarrow> VisitState)) option"
  and dfs_list :: "graph \<Rightarrow> nat \<Rightarrow> string list \<Rightarrow> (string \<Rightarrow> VisitState) \<Rightarrow> string list \<Rightarrow>
      (exn + (string \<Rightarrow> VisitState)) option" where
  "dfs g 0 node st stack = None"
| "dfs g (Suc fuel) node st stack =
     (case dfs_list g fuel (g node) (st(node := Visiting)) (stack @ [node]) of
        None \<Rightarrow> None
      | Some (Inl e) \<Rightarrow> Some (Inl e)
      | Some (Inr st') \<Rightarrow> Some (Inr (st'(node := Visited))))"
| "dfs_list g fuel [] st stack = Some (Inr st)"
| "dfs_list g fuel (nxt # rest) st stack =
     (if st nxt = Visiting then
        Some (Inl (RuntimeError (''Controller: processor cycle detected: '' @ describeCycle stack nxt)))
      else if st nxt = Visited then dfs_list g fuel rest st stack
      else (case dfs g fuel nxt st stack of
          None \<Rightarrow> None
        | Some (Inl e) \<Rightarrow> Some (Inl e)
        | Some (Inr st') \<Rightarrow> dfs_list g fuel rest st' stack))"

fun dfs_roots :: "graph \<Rightarrow> nat \<Rightarrow> string list \<Rightarrow> (string \<Rightarrow> VisitState) \<Rightarrow>
      (exn + (string \<Rightarrow> VisitState)) option" where
  "dfs_roots g fuel [] st = Some (Inr st)"
| "dfs_roots g fuel (node # nodes) st =
     (if st node = NotVisited then
        (case dfs g fuel node st [] of
           None \<Rightarrow> None
         | Some (Inl e) \<Rightarrow> Some (Inl e)
         | Some (Inr st') \<Rightarrow> dfs_roots g fuel nodes st')
      else dfs_roots g fuel nodes st)"

definition validateProcessorGraphAcyclic :: "ProcessorInfo list \<Rightarrow> (exn + unit) option" where
  "validateProcessorGraphAcyclic ps =
     (case dfs_roots (processor_graph ps) (length ps) (map pi_name ps) (\<lambda>_. NotVisited) of
        None \<Rightarrow> None
      | Some (Inl e) \<Rightarrow> Some (Inl e)
      | Some (Inr _) \<Rightarrow> Some (Inr ()))"

section \<open>Facts about the graph\<close>

definition edges :: "graph \<Rightarrow> (string \<times> string) set" where
  "edges g = {(a, b). b \<in> set (g a)}"

lemma outputs_of_eq:
  "outputs_of ps name = (case find (\<lambda>p. pi_name p = name) ps of None \<Rightarrow> {} | Some p \<Rightarrow> set (pi_outputs p))"
proof -
  have "map_of (foldl (\<lambda>m p. umap_emplace (pi_name p) (set (pi_outputs p)) m) m ps) name =
     (case map_of m name of Some s \<Rightarrow> Some s
      | None \<Rightarrow> map_option (\<lambda>p. set (pi_outputs p)) (find (\<lambda>p. pi_name p = name) ps))" for m
    by (induction ps arbitrary: m) (auto simp: umap_simps split: option.splits)
  from this [of "[]"] show ?thesis
    by (simp add: outputs_of_def outputs_by_processor_def split: option.splits)
qed

lemma add_consumers_mem:
  "b \<in> set (foldl (add_consumer ps producer) g cs a) \<longleftrightarrow>
     b \<in> set (g a) \<or> (a = pi_name producer \<and> (\<exists>c\<in>set cs. pi_name c = b \<and> pi_name c \<noteq> a \<and>
       (\<exists>i\<in>set (pi_inputs c). i \<in> outputs_of ps a)))"
  by (induction cs arbitrary: g) (auto simp: add_consumer_def)

lemma fold_producers_mem:
  "b \<in> set (foldl (\<lambda>g producer. foldl (add_consumer ps producer) g ps) g qs a) \<longleftrightarrow>
     b \<in> set (g a) \<or> (a \<in> pi_name ` set qs \<and> (\<exists>c\<in>set ps. pi_name c = b \<and> pi_name c \<noteq> a \<and>
       (\<exists>i\<in>set (pi_inputs c). i \<in> outputs_of ps a)))"
  by (induction qs arbitrary: g) (auto simp: add_consumers_mem)

text \<open>Producer \<open>a\<close> feeds consumer \<open>b\<close>: two names, an input of \<open>b\<close> is an output source of \<open>a\<close>.\<close>

definition feeds :: "ProcessorInfo list \<Rightarrow> string \<Rightarrow> string \<Rightarrow> bool" where
  "feeds ps a b \<longleftrightarrow> a \<noteq> b \<and> a \<in> pi_name ` set ps \<and>
     (\<exists>c\<in>set ps. pi_name c = b \<and> (\<exists>i\<in>set (pi_inputs c). i \<in> outputs_of ps a))"

lemma edges_processor_graph: "edges (processor_graph ps) = {(a, b). feeds ps a b}"
  by (auto simp: edges_def processor_graph_def fold_producers_mem feeds_def)

section \<open>Correctness of the search\<close>

definition closed :: "graph \<Rightarrow> (string \<Rightarrow> VisitState) \<Rightarrow> bool" where
  "closed g st \<longleftrightarrow> (\<forall>x. st x = Visited \<longrightarrow>
     (\<forall>y\<in>set (g x). st y = Visited) \<and> (x, x) \<notin> (edges g)\<^sup>+)"

fun is_path :: "graph \<Rightarrow> string list \<Rightarrow> bool" where
  "is_path g (x # y # zs) \<longleftrightarrow> y \<in> set (g x) \<and> is_path g (y # zs)"
| "is_path g _ \<longleftrightarrow> True"

definition stack_ok :: "graph \<Rightarrow> (string \<Rightarrow> VisitState) \<Rightarrow> string list \<Rightarrow> bool" where
  "stack_ok g st stack \<longleftrightarrow> is_path g stack \<and> {x. st x = Visiting} = set stack"

lemma closed_reach: "closed g st \<Longrightarrow> (x, y) \<in> (edges g)\<^sup>+ \<Longrightarrow> st x = Visited \<Longrightarrow> st y = Visited"
  by (erule trancl_induct) (auto simp: closed_def edges_def)

lemma is_path_append: "is_path g (xs @ [x]) \<Longrightarrow> y \<in> set (g x) \<Longrightarrow> is_path g (xs @ [x, y])"
  by (induction g xs rule: is_path.induct) auto

lemma is_path_reach: "is_path g (xs @ a # ys @ [b]) \<Longrightarrow> (a, b) \<in> (edges g)\<^sup>+"
proof (induction ys arbitrary: xs a)
  case Nil
  then show ?case
    by (induction g xs rule: is_path.induct) (auto simp: edges_def)
next
  case (Cons y ys)
  have "(y, b) \<in> (edges g)\<^sup>+" using Cons.IH [of "xs @ [a]" y] Cons.prems by simp
  moreover have "(a, y) \<in> edges g"
    using Cons.prems by (induction g xs rule: is_path.induct) (auto simp: edges_def)
  ultimately show ?case by (rule trancl_into_trancl2 [rotated])
qed

lemma back_edge_cycle:
  assumes "stack_ok g st (stack @ [node])" "nxt \<in> set (g node)" "st nxt = Visiting"
  shows "(nxt, nxt) \<in> (edges g)\<^sup>+"
proof -
  have "nxt \<in> set (stack @ [node])" using assms by (auto simp: stack_ok_def)
  then consider "nxt = node" | xs ys where "stack = xs @ nxt # ys" by (auto dest: split_list)
  then show ?thesis
  proof cases
    case 1
    then show ?thesis using assms(2) by (auto simp: edges_def)
  next
    case (2 xs ys)
    then have "(nxt, node) \<in> (edges g)\<^sup>+"
      using assms(1) is_path_reach [of g xs nxt ys node] by (simp add: stack_ok_def)
    then show ?thesis using assms(2) by (auto simp: edges_def intro: trancl_into_trancl)
  qed
qed

text \<open>What a successful search of a node, or of a list of successors, guarantees.\<close>

definition search_post :: "graph \<Rightarrow> (string \<Rightarrow> VisitState) \<Rightarrow> (string \<Rightarrow> VisitState) \<Rightarrow> bool" where
  "search_post g st st' \<longleftrightarrow> closed g st' \<and> (\<forall>x. st x = Visited \<longrightarrow> st' x = Visited) \<and>
     (\<forall>x. st' x = Visiting \<longleftrightarrow> st x = Visiting)"

lemma finish_node:
  assumes "search_post g (st(node := Visiting)) st'" "\<forall>y\<in>set (g node). st' y = Visited" "st node = NotVisited"
  shows "search_post g st (st'(node := Visited)) \<and> (st'(node := Visited)) node = Visited"
proof -
  have cl: "closed g st'" and nv: "st' node = Visiting"
    using assms(1) by (auto simp: search_post_def)
  have no: "(node, node) \<notin> (edges g)\<^sup>+"
  proof
    assume "(node, node) \<in> (edges g)\<^sup>+"
    then obtain y where y: "(node, y) \<in> edges g" "(y, node) \<in> (edges g)\<^sup>*"
      by (meson tranclD)
    from y(2) have y2: "y = node \<or> (y, node) \<in> (edges g)\<^sup>+" by (auto dest: rtranclD)
    have "st' y = Visited" using y(1) assms(2) by (auto simp: edges_def)
    with y2 nv closed_reach [OF cl] show False by auto
  qed
  then have "closed g (st'(node := Visited))"
    using cl assms(2) by (auto simp: closed_def)
  then show ?thesis using assms(1,3) by (auto simp: search_post_def)
qed

lemma dfs_sound:
  "closed g st \<Longrightarrow> stack_ok g st stack \<Longrightarrow> st node = NotVisited \<Longrightarrow>
     stack = [] \<or> node \<in> set (g (last stack)) \<Longrightarrow> dfs g fuel node st stack = Some r \<Longrightarrow>
     (case r of Inl e \<Rightarrow> (\<exists>x. (x, x) \<in> (edges g)\<^sup>+)
      | Inr st' \<Rightarrow> search_post g st st' \<and> st' node = Visited)"
  "closed g st \<Longrightarrow> stack_ok g st stack \<Longrightarrow> stack \<noteq> [] \<Longrightarrow> set nodes \<subseteq> set (g (last stack)) \<Longrightarrow>
     dfs_list g fuel nodes st stack = Some r \<Longrightarrow>
     (case r of Inl e \<Rightarrow> (\<exists>x. (x, x) \<in> (edges g)\<^sup>+)
      | Inr st' \<Rightarrow> search_post g st st' \<and> (\<forall>x\<in>set nodes. st' x = Visited))"
proof (induction g fuel node st stack and g fuel nodes st stack arbitrary: r and r rule: dfs_dfs_list.induct)
  case (1 g node st stack)
  then show ?case by simp
next
  case (2 g fuel node st stack)
  let ?st = "st(node := Visiting)"
  have cl: "closed g ?st" using 2(2,4) by (auto simp: closed_def)
  have so: "stack_ok g ?st (stack @ [node])"
  proof (cases stack rule: rev_cases)
    case Nil
    then show ?thesis using 2(3,4) by (auto simp: stack_ok_def)
  next
    case (snoc xs x)
    then show ?thesis using 2(3,4,5) is_path_append [of g xs x node] by (auto simp: stack_ok_def)
  qed
  obtain r' where r': "dfs_list g fuel (g node) ?st (stack @ [node]) = Some r'"
    using 2(6) by (auto split: option.splits)
  from 2(1) [OF cl so _ _ r'] show ?case
    using 2(4,6) r' finish_node [of g st node] by (auto split: sum.splits)
next
  case (3 g fuel st stack)
  then show ?case by (auto simp: search_post_def)
next
  case (4 g fuel nxt rest st stack)
  have sub: "set rest \<subseteq> set (g (last stack))" "nxt \<in> set (g (last stack))" using 4(7) by auto
  show ?case
  proof (cases "st nxt")
    case Visiting
    have "stack = butlast stack @ [last stack]" using 4(6) by simp
    with back_edge_cycle [of g st "butlast stack" "last stack" nxt] 4(5) sub(2) Visiting
    have "\<exists>x. (x, x) \<in> (edges g)\<^sup>+" by auto
    then show ?thesis using 4(8) Visiting by auto
  next
    case Visited
    then have "dfs_list g fuel rest st stack = Some r" using 4(8) by simp
    from 4(1) [OF _ _ 4(4,5,6) sub(1) this] show ?thesis
      using Visited by (auto split: sum.splits simp: search_post_def)
  next
    case NotVisited
    then obtain r1 where r1: "dfs g fuel nxt st stack = Some r1"
      using 4(8) by (auto split: option.splits)
    from 4(2) [OF _ _ 4(4,5) NotVisited _ r1] sub(2) NotVisited
    have post1: "case r1 of Inl e \<Rightarrow> (\<exists>x. (x, x) \<in> (edges g)\<^sup>+)
      | Inr st' \<Rightarrow> search_post g st st' \<and> st' nxt = Visited" by simp
    show ?thesis
    proof (cases r1)
      case (Inl e)
      then show ?thesis using post1 r1 4(8) NotVisited by auto
    next
      case (Inr st1)
      have p1: "search_post g st st1" "st1 nxt = Visited" using post1 Inr by auto
      have r2: "dfs_list g fuel rest st1 stack = Some r" using 4(8) NotVisited r1 Inr by simp
      have "closed g st1" "stack_ok g st1 stack"
        using p1(1) 4(5) by (auto simp: search_post_def stack_ok_def)
      from 4(3) [OF _ _ r1 Inr this 4(6) sub(1) r2] NotVisited
      show ?thesis using p1 by (auto split: sum.splits simp: search_post_def)
    qed
  qed
qed

section \<open>The fuel is enough\<close>

definition fresh_nodes :: "string set \<Rightarrow> (string \<Rightarrow> VisitState) \<Rightarrow> string set" where
  "fresh_nodes N st = {x \<in> N. st x = NotVisited}"

lemma dfs_keeps_seen:
  "dfs g fuel node st stack = Some (Inr st') \<Longrightarrow> st' x = NotVisited \<Longrightarrow> st x = NotVisited"
  "dfs_list g fuel nodes st stack = Some (Inr st') \<Longrightarrow> st' x = NotVisited \<Longrightarrow> st x = NotVisited"
proof (induction g fuel node st stack and g fuel nodes st stack arbitrary: st' and st' rule: dfs_dfs_list.induct)
  case (2 g fuel node st stack)
  then show ?case by (fastforce split: option.splits sum.splits if_splits)
next
  case (4 g fuel nxt rest st stack)
  show ?case
  proof (cases "st nxt")
    case NotVisited
    with 4(4) obtain st1 where st1: "dfs g fuel nxt st stack = Some (Inr st1)"
      "dfs_list g fuel rest st1 stack = Some (Inr st')"
      by (auto split: option.splits sum.splits)
    have "st1 x = NotVisited" using 4(3) [OF _ _ st1(1) refl st1(2) 4(5)] NotVisited by simp
    then show ?thesis using 4(2) [OF _ _ st1(1)] NotVisited by simp
  next
    case Visiting
    then show ?thesis using 4(4) by simp
  next
    case Visited
    then show ?thesis using 4(1) [of st'] 4(4,5) by simp
  qed
qed auto

lemma dfs_enough:
  "finite N \<Longrightarrow> (\<And>x. set (g x) \<subseteq> N) \<Longrightarrow> node \<in> N \<Longrightarrow> st node = NotVisited \<Longrightarrow>
     card (fresh_nodes N st) \<le> fuel \<Longrightarrow> dfs g fuel node st stack \<noteq> None"
  "finite N \<Longrightarrow> (\<And>x. set (g x) \<subseteq> N) \<Longrightarrow> set nodes \<subseteq> N \<Longrightarrow>
     card (fresh_nodes N st) \<le> fuel \<Longrightarrow> dfs_list g fuel nodes st stack \<noteq> None"
proof (induction g fuel node st stack and g fuel nodes st stack rule: dfs_dfs_list.induct)
  case (1 g node st stack)
  then have "node \<in> fresh_nodes N st" "finite (fresh_nodes N st)" by (auto simp: fresh_nodes_def)
  then show ?case using 1 by auto
next
  case (2 g fuel node st stack)
  have "fresh_nodes N (st(node := Visiting)) \<subset> fresh_nodes N st"
    using 2(4,5) by (auto simp: fresh_nodes_def)
  moreover have "finite (fresh_nodes N st)" using 2(2) by (simp add: fresh_nodes_def)
  ultimately have "card (fresh_nodes N (st(node := Visiting))) < card (fresh_nodes N st)"
    by (simp add: psubset_card_mono)
  then have "card (fresh_nodes N (st(node := Visiting))) \<le> fuel" using 2(6) by linarith
  then show ?case
    using 2(1) [OF 2(2,3,3)] by (auto simp del: fun_upd_apply split: option.splits sum.splits)
next
  case (4 g fuel nxt rest st stack)
  show ?case
  proof (cases "st nxt")
    case NotVisited
    have d: "dfs g fuel nxt st stack \<noteq> None" using 4(2) [OF _ _ 4(4,5) _ NotVisited 4(7)] NotVisited 4(6) by simp
    show ?thesis
    proof (cases "\<exists>st1. dfs g fuel nxt st stack = Some (Inr st1)")
      case True
      then obtain st1 where st1: "dfs g fuel nxt st stack = Some (Inr st1)" ..
      have "fresh_nodes N st1 \<subseteq> fresh_nodes N st"
        using dfs_keeps_seen(1) [OF st1] by (auto simp: fresh_nodes_def)
      then have "card (fresh_nodes N st1) \<le> fuel"
        using card_mono [of "fresh_nodes N st" "fresh_nodes N st1"] 4(4,7) by (simp add: fresh_nodes_def)
      then show ?thesis using 4(3) [OF _ _ st1 refl 4(4,5)] NotVisited st1 4(6) by simp
    next
      case False
      then show ?thesis using d NotVisited by (auto split: option.splits sum.splits)
    qed
  next
    case Visited
    then show ?thesis using 4(1) [OF _ _ 4(4,5) _ 4(7)] 4(6) by simp
  qed simp
qed simp

lemma dfs_roots_correct:
  assumes "finite N" "\<And>x. set (g x) \<subseteq> N" "card N \<le> fuel"
  shows "set nodes \<subseteq> N \<Longrightarrow> closed g st \<Longrightarrow> (\<forall>x. st x \<noteq> Visiting) \<Longrightarrow>
    (\<exists>r. dfs_roots g fuel nodes st = Some r \<and>
      (case r of Inl e \<Rightarrow> (\<exists>x. (x, x) \<in> (edges g)\<^sup>+)
       | Inr st' \<Rightarrow> closed g st' \<and> (\<forall>x. st x = Visited \<longrightarrow> st' x = Visited) \<and> (\<forall>x\<in>set nodes. st' x = Visited)))"
proof (induction nodes arbitrary: st)
  case (Cons node nodes)
  show ?case
  proof (cases "st node = NotVisited")
    case False
    then have "st node = Visited" using Cons.prems(3) by (cases "st node") auto
    then show ?thesis using Cons.IH [of st] Cons.prems by (auto split: sum.splits)
  next
    case True
    have "card (fresh_nodes N st) \<le> card N"
      using assms(1) by (intro card_mono) (auto simp: fresh_nodes_def)
    then have "dfs g fuel node st [] \<noteq> None"
      using assms Cons.prems(1) True by (intro dfs_enough(1)) auto
    then obtain r where r: "dfs g fuel node st [] = Some r" by blast
    have so: "stack_ok g st []" using Cons.prems(3) by (simp add: stack_ok_def)
    from dfs_sound(1) [OF Cons.prems(2) so True _ r]
    have post: "case r of Inl e \<Rightarrow> (\<exists>x. (x, x) \<in> (edges g)\<^sup>+)
      | Inr st' \<Rightarrow> search_post g st st' \<and> st' node = Visited" by simp
    show ?thesis
    proof (cases r)
      case (Inl e)
      then show ?thesis using r True post by auto
    next
      case (Inr st1)
      have p: "closed g st1" "\<forall>x. st1 x \<noteq> Visiting" "st1 node = Visited"
        "\<forall>x. st x = Visited \<longrightarrow> st1 x = Visited"
        using post Inr Cons.prems(3) by (auto simp: search_post_def)
      then show ?thesis
        using Cons.IH [of st1] Cons.prems(1) r Inr True by (auto split: sum.splits)
    qed
  qed
qed simp

section \<open>Properties\<close>

text \<open>
  C4. The validation of the processor graph always terminates with a verdict, and it throws
  exactly when the relation ``an output source of one processor is an input of another'' has a
  cycle.  A processor that reads its own output is not counted as a cycle.
\<close>

theorem graph_rejected_iff_cycle:
  "(\<exists>r. validateProcessorGraphAcyclic ps = Some r) \<and>
   ((\<exists>e. validateProcessorGraphAcyclic ps = Some (Inl e)) \<longleftrightarrow>
      (\<exists>x. (x, x) \<in> {(a, b). feeds ps a b}\<^sup>+))"
proof -
  let ?g = "processor_graph ps" and ?N = "pi_name ` set ps"
  have sub: "set (?g x) \<subseteq> ?N" for x
    by (auto simp: processor_graph_def fold_producers_mem)
  have card: "card ?N \<le> length ps" by (metis card_length image_set length_map)
  have init: "closed ?g (\<lambda>_. NotVisited)" by (simp add: closed_def)
  have "\<exists>r. dfs_roots ?g (length ps) (map pi_name ps) (\<lambda>_. NotVisited) = Some r \<and>
      (case r of Inl e \<Rightarrow> (\<exists>x. (x, x) \<in> (edges ?g)\<^sup>+)
       | Inr st' \<Rightarrow> closed ?g st' \<and> (\<forall>x. NotVisited = Visited \<longrightarrow> st' x = Visited) \<and>
           (\<forall>x\<in>set (map pi_name ps). st' x = Visited))"
    by (rule dfs_roots_correct [OF _ sub card]) (simp_all add: init)
  then obtain r where r: "dfs_roots ?g (length ps) (map pi_name ps) (\<lambda>_. NotVisited) = Some r"
    "case r of Inl e \<Rightarrow> (\<exists>x. (x, x) \<in> (edges ?g)\<^sup>+)
     | Inr st' \<Rightarrow> closed ?g st' \<and> (\<forall>x. NotVisited = Visited \<longrightarrow> st' x = Visited) \<and>
         (\<forall>x\<in>set (map pi_name ps). st' x = Visited)" by blast
  have none: "(x, x) \<notin> (edges ?g)\<^sup>+" if "r = Inr st'" for st' x
  proof
    assume x: "(x, x) \<in> (edges ?g)\<^sup>+"
    then have "x \<in> ?N" by (metis tranclD edges_processor_graph feeds_def mem_Collect_eq case_prodD)
    with x r(2) that show False by (auto simp: closed_def)
  qed
  show ?thesis
    using r none by (cases r) (auto simp: validateProcessorGraphAcyclic_def edges_processor_graph)
qed

text \<open>
  The collision check throws exactly when some output source of some processor is the name of
  a reader, and then the message names one such source.
\<close>

theorem collision_check_exact:
  "(\<exists>e. validateProcessorOutputSourceCollisions readers ps = Inl e) \<longleftrightarrow>
     (\<exists>p\<in>set ps. \<exists>out\<in>set (pi_outputs p). out \<in> readers)"
proof -
  have c: "(\<exists>e. check_outputs readers outs = Inl e) \<longleftrightarrow> (\<exists>out\<in>set outs. out \<in> readers)" for outs
    by (induction outs) auto
  show ?thesis
  proof (induction ps)
    case (Cons p ps)
    then show ?case using c [of "pi_outputs p"] by (auto split: sum.splits)
  qed simp
qed

end
