(* ===== verification/Controller.thy ===== *)
theory Controller
  imports Route_Table Channel_Processor Processor_Graph
begin

text \<open>
  The controller (\<open>src/controller/MLDPPVXSController.cpp\<close>): the decisions of \<open>start\<close>, \<open>push\<close> and
  \<open>dispatchToWriters\<close> as functions, and the interleaving of the pushers, the consumer thread,
  \<open>stop\<close> and \<open>forceStop\<close> around the bounded queue as a step relation.  A step is one section under
  \<open>queue_mutex_\<close>, one atomic operation or one notification; testing a wait's predicate and going to
  sleep is one step, since \<open>stop\<close> and \<open>forceStop\<close> pass through the mutex before they notify.
\<close>

section \<open>Static configuration\<close>

record WriterInfo =
  wi_name :: string
  wi_accepts :: "BatchPayload \<Rightarrow> bool"

record ControllerConfig =
  cc_queue_capacity :: nat
  cc_reader_pushers :: nat
  cc_writers :: "WriterInfo list"
  cc_processors :: "string list"
  cc_routes :: RouteTable

text \<open>The first two checks of \<open>start\<close>.\<close>

definition start_checks :: "'w list \<Rightarrow> 'r list \<Rightarrow> exn + unit" where
  "start_checks writer_entries reader_entries =
     (if writer_entries = [] then
        Inl (RuntimeError (''Controller: no writers are configured; add at least one writer instance under ''
          @ quoted ''writer:''))
      else if reader_entries = [] then
        Inl (RuntimeError (''Controller: no readers are configured; add at least one reader instance under ''
          @ quoted ''reader:''))
      else Inr ())"

text \<open>
  The sources \<open>start\<close> gives a processor that lists none: the patterns without \<open>*\<close> and \<open>?\<close> of the
  first route entry that names it.  \<open>None\<close> leaves the processor as it is.
\<close>

definition literal_pattern :: "string \<Rightarrow> bool" where
  "literal_pattern pat \<longleftrightarrow> CHR ''*'' \<notin> set pat \<and> CHR ''?'' \<notin> set pat"

definition effective_sources :: "RouteFilterEntry list \<Rightarrow> string \<Rightarrow> string list \<Rightarrow> string list option" where
  "effective_sources routes name inputs =
     (if inputs \<noteq> [] then None
      else (case find (\<lambda>r. rf_writer_name r = name) routes of
          None \<Rightarrow> None
        | Some r \<Rightarrow>
            let effective = filter literal_pattern (rf_include_patterns r) in
            if effective = [] then None else Some effective))"

text \<open>\<open>removeCompletedReader\<close>: the readers afterwards, and whether the last one has gone.\<close>

fun erase_first :: "string \<Rightarrow> string list \<Rightarrow> string list option" where
  "erase_first name [] = None"
| "erase_first name (r # rs) =
     (if r = name then Some rs
      else (case erase_first name rs of None \<Rightarrow> None | Some rs' \<Rightarrow> Some (r # rs')))"

definition removeCompletedReader :: "string \<Rightarrow> string list \<Rightarrow> string list \<times> bool" where
  "removeCompletedReader name readers =
     (case erase_first name readers of None \<Rightarrow> (readers, False) | Some rs \<Rightarrow> (rs, rs = []))"

section \<open>Decisions of push and of the dispatch\<close>

text \<open>The checks of \<open>push\<close> before anything is handed on.\<close>

definition valid_batch :: "EventBatch \<Rightarrow> bool" where
  "valid_batch b \<longleftrightarrow> getRootSourceName b \<noteq> [] \<and>
     (case asTimeSeries (payload b) of
        None \<Rightarrow> True
      | Some ts \<Rightarrow> \<not> (frames ts = [] \<and> \<not> end_of_batch_group ts))"

definition from_processor :: "ControllerConfig \<Rightarrow> EventBatch \<Rightarrow> bool" where
  "from_processor cc b \<longleftrightarrow> (\<exists>p\<in>set (cc_processors cc). p = reader_name b)"

definition routed_to :: "(string \<Rightarrow> string \<Rightarrow> bool) \<Rightarrow> ControllerConfig \<Rightarrow> EventBatch \<Rightarrow> string \<Rightarrow> bool" where
  "routed_to fnm cc b name \<longleftrightarrow>
     accepts (cc_routes cc) name (reader_name b) \<and>
     acceptsSource fnm (cc_routes cc) name (getRootSourceName b)"

definition processor_targets ::
  "(string \<Rightarrow> string \<Rightarrow> bool) \<Rightarrow> ControllerConfig \<Rightarrow> EventBatch \<Rightarrow> nat list" where
  "processor_targets fnm cc b =
     (if from_processor cc b then []
      else filter (\<lambda>i. routed_to fnm cc b (cc_processors cc ! i) \<and> acceptsPayload (payload b))
             [0..<length (cc_processors cc)])"

definition dispatch_targets ::
  "(string \<Rightarrow> string \<Rightarrow> bool) \<Rightarrow> ControllerConfig \<Rightarrow> EventBatch \<Rightarrow> nat list" where
  "dispatch_targets fnm cc b =
     filter (\<lambda>i. routed_to fnm cc b (wi_name (cc_writers cc ! i)) \<and>
                 wi_accepts (cc_writers cc ! i) (payload b))
       [0..<length (cc_writers cc)]"

section \<open>State and steps\<close>

text \<open>
  A pusher is a thread of a reader (the first \<open>cc_reader_pushers\<close> of them) or the worker of a
  processor.  \<open>CP_Sleep\<close> is the wait on \<open>queue_not_full_\<close>, \<open>CP_Wait\<close> the test of its predicate under the
  mutex, \<open>CP_Notify\<close> the notification of the consumer after the mutex is released, \<open>CP_Gone\<close> a thread
  that has been joined.  The consumer's \<open>CC_Sleep\<close> and \<open>CC_Notify\<close> are the same for \<open>queue_not_empty_\<close>
  and for the \<open>notify_all\<close> after the swap.  Nobody wakes up spuriously, so no progress below rests
  on that.  \<open>CStop\<close> and \<open>CForce\<close> are the places in \<open>stop\<close> and \<open>forceStop\<close>.
\<close>

datatype CPusher = CP_Idle | CP_Wait EventBatch | CP_Sleep EventBatch | CP_Notify | CP_Gone
datatype CConsumer = CC_Wait | CC_Sleep | CC_Notify | CC_Drain | CC_Exit
datatype CStop = CS_Out | CS_Readers | CS_Notify | CS_Join | CS_Processors | CS_Writers | CS_Done
datatype CForce = CF_Out | CF_Running | CF_Clear | CF_Notify

text \<open>
  \<open>ct_accepted\<close>, \<open>ct_dispatched\<close>, \<open>ct_fed\<close> and \<open>ct_results\<close> are history: the batches put in the queue
  (their \<open>push\<close> returns true), those handed to the writers, the copies given to processors, the
  return values.
\<close>

record Controller =
  ct_running :: bool
  ct_force :: bool
  ct_readers :: "string list"
  ct_queue :: "EventBatch list"
  ct_local :: "EventBatch list"
  ct_consumer :: CConsumer
  ct_pushers :: "CPusher list"
  ct_stop :: CStop
  ct_fstop :: CForce
  ct_processors_stopped :: nat
  ct_writers_stopped :: nat
  ct_accepted :: "EventBatch list"
  ct_dispatched :: "EventBatch list"
  ct_fed :: "(nat \<times> EventBatch) list"
  ct_results :: "(nat \<times> bool) list"

definition started :: "string list \<Rightarrow> nat \<Rightarrow> Controller" where
  "started readers pushers =
     \<lparr>ct_running = True, ct_force = False, ct_readers = readers, ct_queue = [], ct_local = [],
      ct_consumer = CC_Wait, ct_pushers = replicate pushers CP_Idle, ct_stop = CS_Out,
      ct_fstop = CF_Out, ct_processors_stopped = 0, ct_writers_stopped = 0,
      ct_accepted = [], ct_dispatched = [], ct_fed = [], ct_results = []\<rparr>"

text \<open>\<open>queue_not_full_.notify_all()\<close> and a notification of \<open>queue_not_empty_\<close>.\<close>

fun wake_pusher :: "CPusher \<Rightarrow> CPusher" where
  "wake_pusher (CP_Sleep b) = CP_Wait b"
| "wake_pusher c = c"

definition wake_consumer :: "CConsumer \<Rightarrow> CConsumer" where
  "wake_consumer c = (if c = CC_Sleep then CC_Wait else c)"

text \<open>\<open>push\<close>.\<close>

inductive ct_push_step ::
  "(string \<Rightarrow> string \<Rightarrow> bool) \<Rightarrow> ControllerConfig \<Rightarrow> Controller \<Rightarrow> Controller \<Rightarrow> bool"
  for fnm cc s where
  push_reject: "p < length (ct_pushers s) \<Longrightarrow> ct_pushers s ! p = CP_Idle \<Longrightarrow>
    \<not> ct_running s \<or> \<not> valid_batch b \<Longrightarrow>
    ct_push_step fnm cc s (s\<lparr>ct_results := ct_results s @ [(p, False)]\<rparr>)"
| push_offer: "p < length (ct_pushers s) \<Longrightarrow> ct_pushers s ! p = CP_Idle \<Longrightarrow>
    ct_running s \<Longrightarrow> valid_batch b \<Longrightarrow>
    ct_push_step fnm cc s (s\<lparr>ct_pushers := (ct_pushers s)[p := CP_Wait b],
      ct_fed := ct_fed s @ map (\<lambda>i. (i, b)) (processor_targets fnm cc b)\<rparr>)"
| push_sleep: "p < length (ct_pushers s) \<Longrightarrow> ct_pushers s ! p = CP_Wait b \<Longrightarrow>
    ct_running s \<Longrightarrow> cc_queue_capacity cc \<le> length (ct_queue s) \<Longrightarrow>
    ct_push_step fnm cc s (s\<lparr>ct_pushers := (ct_pushers s)[p := CP_Sleep b]\<rparr>)"
| push_enqueue: "p < length (ct_pushers s) \<Longrightarrow> ct_pushers s ! p = CP_Wait b \<Longrightarrow>
    ct_running s \<Longrightarrow> length (ct_queue s) < cc_queue_capacity cc \<Longrightarrow>
    ct_push_step fnm cc s (s\<lparr>ct_pushers := (ct_pushers s)[p := CP_Notify],
      ct_queue := ct_queue s @ [b], ct_accepted := ct_accepted s @ [b]\<rparr>)"
| push_notify: "p < length (ct_pushers s) \<Longrightarrow> ct_pushers s ! p = CP_Notify \<Longrightarrow>
    ct_push_step fnm cc s (s\<lparr>ct_pushers := (ct_pushers s)[p := CP_Idle],
      ct_consumer := wake_consumer (ct_consumer s), ct_results := ct_results s @ [(p, True)]\<rparr>)"
| push_refused: "p < length (ct_pushers s) \<Longrightarrow> ct_pushers s ! p = CP_Wait b \<Longrightarrow> \<not> ct_running s \<Longrightarrow>
    ct_push_step fnm cc s (s\<lparr>ct_pushers := (ct_pushers s)[p := CP_Idle],
      ct_results := ct_results s @ [(p, False)]\<rparr>)"

text \<open>\<open>consumerLoop\<close>.\<close>

inductive ct_consume_step ::
  "(string \<Rightarrow> string \<Rightarrow> bool) \<Rightarrow> ControllerConfig \<Rightarrow> Controller \<Rightarrow> Controller \<Rightarrow> bool"
  for fnm cc s where
  consume_sleep: "ct_consumer s = CC_Wait \<Longrightarrow> ct_queue s = [] \<Longrightarrow> ct_running s \<Longrightarrow>
    ct_consume_step fnm cc s (s\<lparr>ct_consumer := CC_Sleep\<rparr>)"
| consume_take: "ct_consumer s = CC_Wait \<Longrightarrow> ct_queue s \<noteq> [] \<Longrightarrow>
    ct_consume_step fnm cc s (s\<lparr>ct_local := ct_queue s, ct_queue := [], ct_consumer := CC_Notify\<rparr>)"
| consume_exit: "ct_consumer s = CC_Wait \<Longrightarrow> ct_queue s = [] \<Longrightarrow> \<not> ct_running s \<Longrightarrow>
    ct_consume_step fnm cc s (s\<lparr>ct_consumer := CC_Exit\<rparr>)"
| consume_notify: "ct_consumer s = CC_Notify \<Longrightarrow>
    ct_consume_step fnm cc s (s\<lparr>ct_pushers := map wake_pusher (ct_pushers s), ct_consumer := CC_Drain\<rparr>)"
| dispatch: "ct_consumer s = CC_Drain \<Longrightarrow> ct_local s = b # rest \<Longrightarrow> \<not> ct_force s \<Longrightarrow>
    ct_consume_step fnm cc s (s\<lparr>ct_local := rest, ct_dispatched := ct_dispatched s @ [b]\<rparr>)"
| abort_drain: "ct_consumer s = CC_Drain \<Longrightarrow> ct_local s \<noteq> [] \<Longrightarrow> ct_force s \<Longrightarrow>
    ct_consume_step fnm cc s (s\<lparr>ct_local := [], ct_consumer := CC_Wait\<rparr>)"
| drained: "ct_consumer s = CC_Drain \<Longrightarrow> ct_local s = [] \<Longrightarrow>
    ct_consume_step fnm cc s (s\<lparr>ct_consumer := CC_Wait\<rparr>)"

text \<open>
  \<open>stop\<close>: \<open>running_\<close> is cleared; \<open>readers_.clear()\<close> blocks, with \<open>readers_mutex_\<close> held, until every
  thread of a reader has left its \<open>push\<close> and ended; then both condition variables are notified, the
  consumer is joined, every processor's worker is joined and every writer is stopped, in their order.
\<close>

inductive ct_stop_step ::
  "(string \<Rightarrow> string \<Rightarrow> bool) \<Rightarrow> ControllerConfig \<Rightarrow> Controller \<Rightarrow> Controller \<Rightarrow> bool"
  for fnm cc s where
  stop: "ct_stop s = CS_Out \<Longrightarrow>
    ct_stop_step fnm cc s (s\<lparr>ct_running := False, ct_stop := CS_Readers\<rparr>)"
| stop_reader_thread: "ct_stop s = CS_Readers \<Longrightarrow> p < length (ct_pushers s) \<Longrightarrow>
    p < cc_reader_pushers cc \<Longrightarrow> ct_pushers s ! p = CP_Idle \<Longrightarrow>
    ct_stop_step fnm cc s (s\<lparr>ct_pushers := (ct_pushers s)[p := CP_Gone]\<rparr>)"
| stop_readers: "ct_stop s = CS_Readers \<Longrightarrow>
    \<forall>p<length (ct_pushers s). p < cc_reader_pushers cc \<longrightarrow> ct_pushers s ! p = CP_Gone \<Longrightarrow>
    ct_stop_step fnm cc s (s\<lparr>ct_readers := [], ct_stop := CS_Notify\<rparr>)"
| stop_notify: "ct_stop s = CS_Notify \<Longrightarrow>
    ct_stop_step fnm cc s (s\<lparr>ct_pushers := map wake_pusher (ct_pushers s),
      ct_consumer := wake_consumer (ct_consumer s), ct_stop := CS_Join\<rparr>)"
| stop_join: "ct_stop s = CS_Join \<Longrightarrow> ct_consumer s = CC_Exit \<Longrightarrow>
    ct_stop_step fnm cc s (s\<lparr>ct_stop := CS_Processors\<rparr>)"
| stop_processor_thread: "ct_stop s = CS_Processors \<Longrightarrow>
    p = cc_reader_pushers cc + ct_processors_stopped s \<Longrightarrow> p < length (ct_pushers s) \<Longrightarrow>
    ct_processors_stopped s < length (cc_processors cc) \<Longrightarrow> ct_pushers s ! p = CP_Idle \<Longrightarrow>
    ct_stop_step fnm cc s (s\<lparr>ct_pushers := (ct_pushers s)[p := CP_Gone]\<rparr>)"
| stop_processor: "ct_stop s = CS_Processors \<Longrightarrow>
    p = cc_reader_pushers cc + ct_processors_stopped s \<Longrightarrow>
    ct_processors_stopped s < length (cc_processors cc) \<Longrightarrow>
    p < length (ct_pushers s) \<longrightarrow> ct_pushers s ! p = CP_Gone \<Longrightarrow>
    ct_stop_step fnm cc s (s\<lparr>ct_processors_stopped := Suc (ct_processors_stopped s)\<rparr>)"
| stop_processors: "ct_stop s = CS_Processors \<Longrightarrow> ct_processors_stopped s = length (cc_processors cc) \<Longrightarrow>
    ct_stop_step fnm cc s (s\<lparr>ct_stop := CS_Writers\<rparr>)"
| stop_writer: "ct_stop s = CS_Writers \<Longrightarrow> ct_writers_stopped s < length (cc_writers cc) \<Longrightarrow>
    ct_stop_step fnm cc s (s\<lparr>ct_writers_stopped := Suc (ct_writers_stopped s)\<rparr>)"
| stop_done: "ct_stop s = CS_Writers \<Longrightarrow> ct_writers_stopped s = length (cc_writers cc) \<Longrightarrow>
    ct_stop_step fnm cc s (s\<lparr>ct_stop := CS_Done\<rparr>)"

text \<open>
  \<open>forceStop\<close>, which may be called again after it has returned.  The \<open>forceStop\<close> it calls on every writer is in
  \<open>Queued_Writer\<close>.
\<close>

inductive ct_force_step ::
  "(string \<Rightarrow> string \<Rightarrow> bool) \<Rightarrow> ControllerConfig \<Rightarrow> Controller \<Rightarrow> Controller \<Rightarrow> bool"
  for fnm cc s where
  force_flag: "ct_fstop s = CF_Out \<Longrightarrow>
    ct_force_step fnm cc s (s\<lparr>ct_force := True, ct_fstop := CF_Running\<rparr>)"
| force_running: "ct_fstop s = CF_Running \<Longrightarrow>
    ct_force_step fnm cc s (s\<lparr>ct_running := False, ct_fstop := CF_Clear\<rparr>)"
| force_clear: "ct_fstop s = CF_Clear \<Longrightarrow>
    ct_force_step fnm cc s (s\<lparr>ct_queue := [], ct_fstop := CF_Notify\<rparr>)"
| force_notify: "ct_fstop s = CF_Notify \<Longrightarrow>
    ct_force_step fnm cc s (s\<lparr>ct_pushers := map wake_pusher (ct_pushers s),
      ct_consumer := wake_consumer (ct_consumer s), ct_fstop := CF_Out\<rparr>)"

text \<open>
  Any thread may take the next step.  The thread of \<open>onReaderCompleted\<close> may come late, after
  \<open>running_\<close> was cleared, but not while \<open>stop\<close> holds \<open>readers_mutex_\<close>.
\<close>

inductive ct_step ::
  "(string \<Rightarrow> string \<Rightarrow> bool) \<Rightarrow> ControllerConfig \<Rightarrow> Controller \<Rightarrow> Controller \<Rightarrow> bool"
  for fnm cc s where
  push_step: "ct_push_step fnm cc s s' \<Longrightarrow> ct_step fnm cc s s'"
| consume_step: "ct_consume_step fnm cc s s' \<Longrightarrow> ct_step fnm cc s s'"
| stop_step: "ct_stop_step fnm cc s s' \<Longrightarrow> ct_step fnm cc s s'"
| force_step: "ct_force_step fnm cc s s' \<Longrightarrow> ct_step fnm cc s s'"
| reader_completed: "ct_stop s \<noteq> CS_Readers \<Longrightarrow>
    removeCompletedReader name (ct_readers s) = (rs, last_one) \<Longrightarrow>
    ct_step fnm cc s (s\<lparr>ct_readers := rs\<rparr>)"

inductive_cases ct_push_stepE: "ct_push_step fnm cc s s'"
inductive_cases ct_consume_stepE: "ct_consume_step fnm cc s s'"
inductive_cases ct_stop_stepE: "ct_stop_step fnm cc s s'"
inductive_cases ct_force_stepE: "ct_force_step fnm cc s s'"

lemmas ct_push_intros = ct_push_step.intros [THEN ct_step.push_step]
lemmas ct_consume_intros = ct_consume_step.intros [THEN ct_step.consume_step]
lemmas ct_stop_intros = ct_stop_step.intros [THEN ct_step.stop_step]
lemmas ct_force_intros = ct_force_step.intros [THEN ct_step.force_step]

definition ct_reachable ::
  "(string \<Rightarrow> string \<Rightarrow> bool) \<Rightarrow> ControllerConfig \<Rightarrow> string list \<Rightarrow> nat \<Rightarrow> Controller \<Rightarrow> bool" where
  "ct_reachable fnm cc readers P s \<longleftrightarrow> (ct_step fnm cc)\<^sup>*\<^sup>* (started readers P) s"

text \<open>What the writers have received, per writer.\<close>

definition delivered :: "(string \<Rightarrow> string \<Rightarrow> bool) \<Rightarrow> ControllerConfig \<Rightarrow> Controller \<Rightarrow> nat \<Rightarrow> EventBatch list" where
  "delivered fnm cc s w = filter (\<lambda>b. w \<in> set (dispatch_targets fnm cc b)) (ct_dispatched s)"

section \<open>Invariants\<close>

text \<open>What the queue holds.\<close>

definition ct_inv :: "ControllerConfig \<Rightarrow> Controller \<Rightarrow> bool" where
  "ct_inv cc s \<longleftrightarrow>
     length (ct_queue s) \<le> cc_queue_capacity cc \<and>
     (\<exists>rest. ct_accepted s = ct_dispatched s @ rest) \<and>
     (\<not> ct_force s \<longrightarrow> ct_accepted s = ct_dispatched s @ ct_local s @ ct_queue s) \<and>
     (ct_fstop s \<noteq> CF_Out \<longrightarrow> ct_force s) \<and>
     (ct_consumer s \<notin> {CC_Notify, CC_Drain} \<longrightarrow> ct_local s = []) \<and>
     (ct_consumer s = CC_Exit \<longrightarrow> \<not> ct_running s \<and> ct_queue s = []) \<and>
     (ct_stop s \<noteq> CS_Out \<longrightarrow> \<not> ct_running s) \<and>
     (ct_stop s \<in> {CS_Processors, CS_Writers, CS_Done} \<longrightarrow> ct_consumer s = CC_Exit) \<and>
     (\<forall>b. CP_Wait b \<in> set (ct_pushers s) \<or> CP_Sleep b \<in> set (ct_pushers s) \<longrightarrow> valid_batch b) \<and>
     (\<forall>b\<in>set (ct_accepted s). valid_batch b)"

text \<open>
  Who is going to wake a sleeping thread: a sleeping pusher finds the queue full, or the consumer
  or \<open>forceStop\<close> about to notify; a sleeping consumer finds the queue empty, or a pusher about to
  notify; once \<open>stop\<close> has notified, nobody sleeps any more.
\<close>

definition ct_wake :: "ControllerConfig \<Rightarrow> Controller \<Rightarrow> bool" where
  "ct_wake cc s \<longleftrightarrow>
     (\<forall>b. CP_Sleep b \<in> set (ct_pushers s) \<longrightarrow>
        cc_queue_capacity cc \<le> length (ct_queue s) \<or> ct_consumer s = CC_Notify \<or> ct_fstop s = CF_Notify) \<and>
     (ct_consumer s = CC_Sleep \<longrightarrow> ct_queue s = [] \<or> CP_Notify \<in> set (ct_pushers s)) \<and>
     (ct_stop s \<notin> {CS_Out, CS_Readers, CS_Notify} \<longrightarrow>
        ct_consumer s \<noteq> CC_Sleep \<and> (\<forall>b. CP_Sleep b \<notin> set (ct_pushers s)))"

text \<open>How far \<open>stop\<close> has come.\<close>

definition ct_stages :: "ControllerConfig \<Rightarrow> Controller \<Rightarrow> bool" where
  "ct_stages cc s \<longleftrightarrow>
     (ct_stop s \<notin> {CS_Out, CS_Readers} \<longrightarrow>
        (\<forall>p<length (ct_pushers s). p < cc_reader_pushers cc \<longrightarrow> ct_pushers s ! p = CP_Gone)) \<and>
     (\<forall>k<ct_processors_stopped s. cc_reader_pushers cc + k < length (ct_pushers s) \<longrightarrow>
        ct_pushers s ! (cc_reader_pushers cc + k) = CP_Gone) \<and>
     ct_processors_stopped s \<le> length (cc_processors cc) \<and>
     ct_writers_stopped s \<le> length (cc_writers cc) \<and>
     (ct_stop s \<in> {CS_Writers, CS_Done} \<longrightarrow> ct_processors_stopped s = length (cc_processors cc)) \<and>
     (ct_stop s = CS_Done \<longrightarrow> ct_writers_stopped s = length (cc_writers cc))"

lemma update_mem: "x \<in> set (xs[i := y]) \<Longrightarrow> x = y \<or> x \<in> set xs"
  using set_update_subset_insert [of xs i y] by blast

lemma keep_mem: "x \<in> set xs \<Longrightarrow> xs ! i \<noteq> x \<Longrightarrow> x \<in> set (xs[i := y])"
  by (metis in_set_conv_nth length_list_update nth_list_update_neq)

lemma wake_pusher_mem [simp]:
  "CP_Sleep b \<notin> wake_pusher ` A"
  "(CP_Notify \<in> wake_pusher ` A) = (CP_Notify \<in> A)"
  "(CP_Wait b \<in> wake_pusher ` A) = (CP_Wait b \<in> A \<or> CP_Sleep b \<in> A)"
proof -
  have n: "wake_pusher c \<noteq> CP_Sleep b" "wake_pusher c = CP_Notify \<longleftrightarrow> c = CP_Notify"
    "wake_pusher c = CP_Wait b \<longleftrightarrow> c = CP_Wait b \<or> c = CP_Sleep b" for c
    by (cases c; simp)+
  show "CP_Sleep b \<notin> wake_pusher ` A" using n(1) by (metis imageE)
  show "(CP_Notify \<in> wake_pusher ` A) = (CP_Notify \<in> A)" using n(2) by (metis imageE image_eqI)
  show "(CP_Wait b \<in> wake_pusher ` A) = (CP_Wait b \<in> A \<or> CP_Sleep b \<in> A)"
    using n(3) by (metis imageE image_eqI)
qed

lemma wake_pusher_gone [simp]: "wake_pusher c = CP_Gone \<longleftrightarrow> c = CP_Gone"
  by (cases c) simp_all

lemma wake_consumer_simps [simp]:
  "wake_consumer c \<noteq> CC_Sleep" "wake_consumer c = CC_Exit \<longleftrightarrow> c = CC_Exit"
  "wake_consumer c = CC_Notify \<longleftrightarrow> c = CC_Notify" "wake_consumer c = CC_Drain \<longleftrightarrow> c = CC_Drain"
  by (auto simp: wake_consumer_def)

lemma removeCompletedReader_none: "removeCompletedReader name [] = ([], False)"
  by (simp add: removeCompletedReader_def)

lemma started_inv: "ct_inv cc (started readers P) \<and> ct_wake cc (started readers P) \<and> ct_stages cc (started readers P)"
  by (auto simp: ct_inv_def ct_wake_def ct_stages_def started_def)

lemma push_step_inv:
  assumes "ct_push_step fnm cc s s'" "ct_inv cc s"
  shows "ct_inv cc s'"
  using assms(1)
proof (cases rule: ct_push_step.cases)
  case (push_enqueue p b)
  then have "valid_batch b" using assms(2) nth_mem [of p "ct_pushers s"] by (auto simp: ct_inv_def)
  then show ?thesis using push_enqueue assms(2) by (auto simp: ct_inv_def dest!: update_mem)
next
  case (push_sleep p b)
  then have "valid_batch b" using assms(2) nth_mem [of p "ct_pushers s"] by (auto simp: ct_inv_def)
  then show ?thesis using push_sleep assms(2) by (auto simp: ct_inv_def dest!: update_mem)
next
  case (push_reject p b)
  then show ?thesis using assms(2) by (simp add: ct_inv_def)
next
  case (push_offer p b)
  then show ?thesis using assms(2) by (auto simp: ct_inv_def dest!: update_mem)
next
  case (push_notify p)
  have "\<forall>b. CP_Wait b \<in> set (ct_pushers s) \<or> CP_Sleep b \<in> set (ct_pushers s) \<longrightarrow> valid_batch b"
    using assms(2) by (simp add: ct_inv_def)
  then have "\<forall>b. CP_Wait b \<in> set (ct_pushers s') \<or> CP_Sleep b \<in> set (ct_pushers s') \<longrightarrow> valid_batch b"
    unfolding push_notify(1) by (auto dest!: update_mem)
  then show ?thesis using push_notify assms(2) by (simp add: ct_inv_def)
next
  case (push_refused p b)
  then show ?thesis using assms(2) by (auto simp: ct_inv_def dest!: update_mem)
qed

lemma consume_step_inv:
  assumes "ct_consume_step fnm cc s s'" "ct_inv cc s"
  shows "ct_inv cc s'"
  using assms(1)
  by (cases rule: ct_consume_step.cases) (use assms(2) in \<open>auto simp: ct_inv_def\<close>)

lemma stop_step_inv:
  assumes "ct_stop_step fnm cc s s'" "ct_inv cc s"
  shows "ct_inv cc s'"
  using assms(1)
  by (cases rule: ct_stop_step.cases) (use assms(2) in \<open>auto simp: ct_inv_def dest!: update_mem\<close>)

lemma force_step_inv:
  assumes "ct_force_step fnm cc s s'" "ct_inv cc s"
  shows "ct_inv cc s'"
  using assms(1)
  by (cases rule: ct_force_step.cases) (use assms(2) in \<open>auto simp: ct_inv_def\<close>)

lemma step_ct_inv: "ct_step fnm cc s s' \<Longrightarrow> ct_inv cc s \<Longrightarrow> ct_inv cc s'"
  by (erule ct_step.cases)
    (simp_all add: push_step_inv consume_step_inv stop_step_inv force_step_inv, simp add: ct_inv_def)

lemma push_step_wake:
  assumes "ct_push_step fnm cc s s'" "ct_inv cc s" "ct_wake cc s"
  shows "ct_wake cc s'"
  using assms(1)
proof (cases rule: ct_push_step.cases)
  case (push_enqueue p b)
  then show ?thesis using assms(2,3) by (auto simp: ct_inv_def ct_wake_def set_update_memI dest!: update_mem)
next
  case (push_offer p b)
  then have "CP_Notify \<in> set (ct_pushers s) \<Longrightarrow> CP_Notify \<in> set ((ct_pushers s)[p := CP_Wait b])"
    by (simp add: keep_mem)
  then show ?thesis using push_offer assms(2,3) by (auto simp: ct_inv_def ct_wake_def dest!: update_mem)
next
  case (push_sleep p b)
  then have "CP_Notify \<in> set (ct_pushers s) \<Longrightarrow> CP_Notify \<in> set ((ct_pushers s)[p := CP_Sleep b])"
    by (simp add: keep_mem)
  then show ?thesis using push_sleep assms(2,3) by (auto simp: ct_inv_def ct_wake_def dest!: update_mem)
next
  case (push_refused p b)
  then have "CP_Notify \<in> set (ct_pushers s) \<Longrightarrow> CP_Notify \<in> set ((ct_pushers s)[p := CP_Idle])"
    by (simp add: keep_mem)
  then show ?thesis using push_refused assms(3) by (auto simp: ct_wake_def dest!: update_mem)
qed (use assms(3) in \<open>auto simp: ct_wake_def dest!: update_mem\<close>)

lemma consume_step_wake:
  assumes "ct_consume_step fnm cc s s'" "ct_inv cc s" "ct_wake cc s"
  shows "ct_wake cc s'"
  using assms(1)
  by (cases rule: ct_consume_step.cases) (use assms(2,3) in \<open>auto simp: ct_inv_def ct_wake_def\<close>)

lemma stop_step_wake:
  assumes "ct_stop_step fnm cc s s'" "ct_wake cc s"
  shows "ct_wake cc s'"
  using assms(1)
proof (cases rule: ct_stop_step.cases)
  case (stop_reader_thread p)
  then have "CP_Notify \<in> set (ct_pushers s) \<Longrightarrow> CP_Notify \<in> set ((ct_pushers s)[p := CP_Gone])"
    by (simp add: keep_mem)
  then show ?thesis using stop_reader_thread assms(2) by (auto simp: ct_wake_def dest!: update_mem)
next
  case (stop_processor_thread p)
  then have "CP_Notify \<in> set (ct_pushers s) \<Longrightarrow> CP_Notify \<in> set ((ct_pushers s)[p := CP_Gone])"
    by (simp add: keep_mem)
  then show ?thesis using stop_processor_thread assms(2) by (auto simp: ct_wake_def dest!: update_mem)
qed (use assms(2) in \<open>auto simp: ct_wake_def\<close>)

lemma force_step_wake:
  assumes "ct_force_step fnm cc s s'" "ct_inv cc s" "ct_wake cc s"
  shows "ct_wake cc s'"
  using assms(1)
  by (cases rule: ct_force_step.cases) (use assms(2,3) in \<open>auto simp: ct_inv_def ct_wake_def\<close>)

lemma step_ct_wake: "ct_step fnm cc s s' \<Longrightarrow> ct_inv cc s \<Longrightarrow> ct_wake cc s \<Longrightarrow> ct_wake cc s'"
  by (erule ct_step.cases)
    (simp_all add: push_step_wake consume_step_wake stop_step_wake force_step_wake, simp add: ct_wake_def)

text \<open>A thread that has gone stays gone.\<close>

definition gone :: "Controller \<Rightarrow> nat \<Rightarrow> bool" where
  "gone s p \<longleftrightarrow> (p < length (ct_pushers s) \<longrightarrow> ct_pushers s ! p = CP_Gone)"

lemma step_gone: "ct_step fnm cc s s' \<Longrightarrow> gone s p \<Longrightarrow> gone s' p"
  unfolding gone_def
  by (erule ct_step.cases; (erule ct_push_stepE ct_consume_stepE ct_stop_stepE ct_force_stepE)?)
    (auto simp: nth_list_update)

lemma ct_stages_gone:
  "ct_stages cc s \<longleftrightarrow>
     (ct_stop s \<notin> {CS_Out, CS_Readers} \<longrightarrow> (\<forall>p<cc_reader_pushers cc. gone s p)) \<and>
     (\<forall>k<ct_processors_stopped s. gone s (cc_reader_pushers cc + k)) \<and>
     ct_processors_stopped s \<le> length (cc_processors cc) \<and>
     ct_writers_stopped s \<le> length (cc_writers cc) \<and>
     (ct_stop s \<in> {CS_Writers, CS_Done} \<longrightarrow> ct_processors_stopped s = length (cc_processors cc)) \<and>
     (ct_stop s = CS_Done \<longrightarrow> ct_writers_stopped s = length (cc_writers cc))"
  unfolding ct_stages_def gone_def by blast

lemma step_ct_stages:
  assumes "ct_step fnm cc s s'" "ct_stages cc s"
  shows "ct_stages cc s'"
proof -
  have g: "gone s p \<Longrightarrow> gone s' p" for p using step_gone [OF assms(1)] .
  show ?thesis
    using assms(1)
  proof (cases rule: ct_step.cases)
    case stop_step
    then show ?thesis
    proof (cases rule: ct_stop_step.cases)
      case stop_readers
      then have "gone s p" if "p < cc_reader_pushers cc" for p using that by (simp add: gone_def)
      then show ?thesis using stop_readers assms(2) g by (simp add: ct_stages_gone)
    next
      case (stop_processor p)
      then have "gone s p" by (simp add: gone_def)
      then show ?thesis using stop_processor assms(2) g by (auto simp: ct_stages_gone less_Suc_eq)
    qed (use assms(2) g in \<open>auto simp: ct_stages_gone\<close>)
  next
    case push_step
    then show ?thesis using assms(2) g by (cases rule: ct_push_step.cases) (auto simp: ct_stages_gone)
  next
    case consume_step
    then show ?thesis using assms(2) g by (cases rule: ct_consume_step.cases) (auto simp: ct_stages_gone)
  next
    case force_step
    then show ?thesis using assms(2) g by (cases rule: ct_force_step.cases) (auto simp: ct_stages_gone)
  qed (use assms(2) g in \<open>auto simp: ct_stages_gone\<close>)
qed

lemma ct_reachable_invs: "ct_reachable fnm cc readers P s \<Longrightarrow> ct_inv cc s \<and> ct_wake cc s \<and> ct_stages cc s"
  unfolding ct_reachable_def
  by (induction rule: rtranclp_induct) (auto simp: started_inv intro: step_ct_inv step_ct_wake step_ct_stages)

lemma reachable_ct_inv: "ct_reachable fnm cc readers P s \<Longrightarrow> ct_inv cc s"
  using ct_reachable_invs by blast

section \<open>Progress of stop\<close>

text \<open>What is left to do, once \<open>running_\<close> is false.\<close>

fun pusher_work :: "CPusher \<Rightarrow> nat" where
  "pusher_work CP_Gone = 0"
| "pusher_work CP_Idle = 1"
| "pusher_work (CP_Wait b) = 2"
| "pusher_work CP_Notify = 2"
| "pusher_work (CP_Sleep b) = 3"

fun consumer_work :: "CConsumer \<Rightarrow> nat" where
  "consumer_work CC_Exit = 0"
| "consumer_work CC_Wait = 1"
| "consumer_work CC_Sleep = 2"
| "consumer_work CC_Drain = 3"
| "consumer_work CC_Notify = 4"

fun stop_work :: "CStop \<Rightarrow> nat" where
  "stop_work CS_Out = 6"
| "stop_work CS_Readers = 5"
| "stop_work CS_Notify = 4"
| "stop_work CS_Join = 3"
| "stop_work CS_Processors = 2"
| "stop_work CS_Writers = 1"
| "stop_work CS_Done = 0"

definition work_left :: "ControllerConfig \<Rightarrow> Controller \<Rightarrow> nat" where
  "work_left cc s = stop_work (ct_stop s) + sum_list (map pusher_work (ct_pushers s)) +
     (6 * length (ct_queue s) + length (ct_local s) + consumer_work (ct_consumer s)) +
     (length (cc_processors cc) - ct_processors_stopped s) + (length (cc_writers cc) - ct_writers_stopped s) +
     (if ct_fstop s = CF_Notify then 1 else 0)"

lemma pusher_work_update:
  "p < length ps \<Longrightarrow> sum_list (map pusher_work (ps[p := c])) + pusher_work (ps ! p) =
     sum_list (map pusher_work ps) + pusher_work c"
  by (induction ps arbitrary: p) (auto simp: nth_Cons split: nat.splits)

lemma pusher_work_wake: "sum_list (map pusher_work (map wake_pusher ps)) \<le> sum_list (map pusher_work ps)"
  proof -
  have "pusher_work (wake_pusher c) \<le> pusher_work c" for c by (cases c) simp_all
  then show ?thesis by (simp add: comp_def sum_list_mono)
qed

lemma consumer_work_wake: "consumer_work (wake_consumer c) \<le> consumer_work c"
  by (simp add: wake_consumer_def)

text \<open>\<open>moves\<close>: some step leaves less to do, and it forces nothing.\<close>

definition moves :: "(string \<Rightarrow> string \<Rightarrow> bool) \<Rightarrow> ControllerConfig \<Rightarrow> Controller \<Rightarrow> bool" where
  "moves fnm cc s \<longleftrightarrow> (\<exists>s'. ct_step fnm cc s s' \<and> work_left cc s' < work_left cc s \<and>
     ct_stop s' \<noteq> CS_Out \<and> ct_force s' = ct_force s)"

lemma consumer_moves:
  assumes "ct_inv cc s" "ct_stop s \<noteq> CS_Out" "ct_consumer s \<notin> {CC_Exit, CC_Sleep}"
  shows "moves fnm cc s"
proof -
  have nr: "\<not> ct_running s" using assms(1,2) by (simp add: ct_inv_def)
  consider (wait) "ct_consumer s = CC_Wait" | (notify) "ct_consumer s = CC_Notify"
    | (drain) "ct_consumer s = CC_Drain" using assms(3) by (cases "ct_consumer s") auto
  then show ?thesis
  proof cases
    case wait
    have l: "ct_local s = []" using wait assms(1) by (simp add: ct_inv_def)
    show ?thesis
    proof (cases "ct_queue s = []")
      case True
      show ?thesis unfolding moves_def
        by (intro exI conjI, rule ct_consume_intros(3) [OF wait True nr])
          (simp_all add: work_left_def wait assms(2))
    next
      case False
      then have "0 < length (ct_queue s)" by simp
      then have "length (ct_queue s) + 4 < 6 * length (ct_queue s) + 1" by linarith
      then show ?thesis unfolding moves_def
        by (intro exI [of _ "s\<lparr>ct_local := ct_queue s, ct_queue := [], ct_consumer := CC_Notify\<rparr>"] conjI
            ct_consume_intros(2) [OF wait False])
          (simp_all add: work_left_def wait l assms(2))
    qed
  next
    case notify
    show ?thesis unfolding moves_def
      by (intro exI conjI, rule ct_consume_intros(4) [OF notify])
        (use pusher_work_wake [of "ct_pushers s"] in \<open>simp_all add: work_left_def notify assms(2)\<close>)
  next
    case drain
    show ?thesis
    proof (cases "ct_local s")
      case Nil
      show ?thesis unfolding moves_def
        by (intro exI conjI, rule ct_consume_intros(7) [OF drain Nil])
          (simp_all add: work_left_def drain assms(2))
    next
      case (Cons b rest)
      then have ne: "ct_local s \<noteq> []" by simp
      show ?thesis
      proof (cases "ct_force s")
        case True
        show ?thesis unfolding moves_def
          by (intro exI conjI, rule ct_consume_intros(6) [OF drain ne True])
            (simp_all add: work_left_def drain assms(2))
      next
        case False
        show ?thesis unfolding moves_def
          by (intro exI conjI, rule ct_consume_intros(5) [OF drain Cons False])
            (simp_all add: work_left_def drain Cons assms(2))
      qed
    qed
  qed
qed

lemma pusher_notify_moves:
  assumes "ct_stop s \<noteq> CS_Out" "p < length (ct_pushers s)" "ct_pushers s ! p = CP_Notify"
  shows "moves fnm cc s"
  unfolding moves_def
  by (intro exI conjI, rule ct_push_intros(5) [OF assms(2,3)])
    (use pusher_work_update [OF assms(2), of CP_Idle] consumer_work_wake [of "ct_consumer s"] in
      \<open>simp_all add: work_left_def assms(1,3)\<close>)

text \<open>A sleeping pusher is woken up: here the queue must be able to hold something.\<close>

lemma sleeper_moves:
  assumes inv: "ct_inv cc s" "ct_wake cc s" and out: "ct_stop s \<noteq> CS_Out"
    and b: "CP_Sleep b \<in> set (ct_pushers s)" and cap: "0 < cc_queue_capacity cc"
  shows "moves fnm cc s"
proof (cases "ct_fstop s = CF_Notify")
  case True
  show ?thesis unfolding moves_def
    by (intro exI conjI, rule ct_force_intros(4) [OF True])
      (use pusher_work_wake [of "ct_pushers s"] consumer_work_wake [of "ct_consumer s"] in
        \<open>simp_all add: work_left_def True out\<close>)
next
  case False
  show ?thesis
  proof (cases "ct_consumer s = CC_Notify")
    case True
    then show ?thesis using consumer_moves [OF inv(1) out] by simp
  next
    case not: False
    then have q: "ct_queue s \<noteq> []" using inv(2) b False cap by (auto simp: ct_wake_def)
    show ?thesis
    proof (cases "ct_consumer s = CC_Sleep")
      case True
      then have "CP_Notify \<in> set (ct_pushers s)" using inv(2) q by (simp add: ct_wake_def)
      then show ?thesis using pusher_notify_moves [OF out] by (auto simp: in_set_conv_nth)
    next
      case awake: False
      then show ?thesis using consumer_moves [OF inv(1) out] q inv(1) by (simp add: ct_inv_def)
    qed
  qed
qed

lemma pusher_moves:
  assumes inv: "ct_inv cc s" "ct_wake cc s" and out: "ct_stop s \<noteq> CS_Out" and cap: "0 < cc_queue_capacity cc"
    and p: "p < length (ct_pushers s)" "ct_pushers s ! p \<notin> {CP_Gone, CP_Idle}"
  shows "moves fnm cc s"
proof (cases "ct_pushers s ! p")
  case (CP_Wait b)
  have nr: "\<not> ct_running s" using inv(1) out by (simp add: ct_inv_def)
  show ?thesis unfolding moves_def
    by (intro exI conjI, rule ct_push_intros(6) [OF p(1) CP_Wait nr])
      (use pusher_work_update [OF p(1), of CP_Idle] in \<open>simp_all add: work_left_def CP_Wait out\<close>)
next
  case (CP_Sleep b)
  then have "CP_Sleep b \<in> set (ct_pushers s)" using p(1) by (metis nth_mem)
  then show ?thesis using sleeper_moves [OF inv out _ cap] by blast
next
  case CP_Notify
  then show ?thesis using pusher_notify_moves [OF out p(1)] by blast
qed (use p(2) in auto)

lemma readers_move:
  assumes inv: "ct_inv cc s" "ct_wake cc s" and cap: "0 < cc_queue_capacity cc" and st: "ct_stop s = CS_Readers"
  shows "moves fnm cc s"
proof (cases "\<forall>p<length (ct_pushers s). p < cc_reader_pushers cc \<longrightarrow> ct_pushers s ! p = CP_Gone")
  case True
  show ?thesis unfolding moves_def
    by (intro exI conjI, rule ct_stop_intros(3) [OF st True]) (simp_all add: work_left_def st)
next
  case False
  then obtain p where p: "p < length (ct_pushers s)" "p < cc_reader_pushers cc" "ct_pushers s ! p \<noteq> CP_Gone"
    by blast
  show ?thesis
  proof (cases "ct_pushers s ! p = CP_Idle")
    case True
    show ?thesis unfolding moves_def
      by (intro exI conjI, rule ct_stop_intros(2) [OF st p(1,2) True])
        (use pusher_work_update [OF p(1), of CP_Gone] in \<open>simp_all add: work_left_def st True\<close>)
  next
    case False
    then show ?thesis using pusher_moves [OF inv _ cap p(1)] p(3) st by simp
  qed
qed

lemma processors_move:
  assumes inv: "ct_inv cc s" "ct_wake cc s" "ct_stages cc s" and cap: "0 < cc_queue_capacity cc"
    and st: "ct_stop s = CS_Processors"
  shows "moves fnm cc s"
proof (cases "ct_processors_stopped s = length (cc_processors cc)")
  case True
  show ?thesis unfolding moves_def
    by (intro exI conjI, rule ct_stop_intros(8) [OF st True]) (simp_all add: work_left_def st)
next
  case False
  then have k: "ct_processors_stopped s < length (cc_processors cc)" using inv(3) by (simp add: ct_stages_def)
  let ?p = "cc_reader_pushers cc + ct_processors_stopped s"
  show ?thesis
  proof (cases "?p < length (ct_pushers s) \<longrightarrow> ct_pushers s ! ?p = CP_Gone")
    case True
    show ?thesis unfolding moves_def
      by (intro exI conjI, rule ct_stop_intros(7) [OF st refl k True]) (use k in \<open>simp_all add: work_left_def st\<close>)
  next
    case False
    then have p: "?p < length (ct_pushers s)" "ct_pushers s ! ?p \<noteq> CP_Gone" by auto
    show ?thesis
    proof (cases "ct_pushers s ! ?p = CP_Idle")
      case True
      show ?thesis unfolding moves_def
        by (intro exI conjI, rule ct_stop_intros(6) [OF st refl p(1) k True])
          (use pusher_work_update [OF p(1), of CP_Gone] in \<open>simp_all add: work_left_def st True\<close>)
    next
      case False
      then show ?thesis using pusher_moves [OF inv(1,2) _ cap p(1)] p(2) st by simp
    qed
  qed
qed

lemma stop_moves:
  assumes inv: "ct_inv cc s" "ct_wake cc s" "ct_stages cc s" and cap: "0 < cc_queue_capacity cc"
    and st: "ct_stop s \<notin> {CS_Out, CS_Done}"
  shows "moves fnm cc s"
proof (cases "ct_stop s")
  case CS_Readers
  then show ?thesis by (rule readers_move [OF inv(1,2) cap])
next
  case CS_Notify
  show ?thesis unfolding moves_def
    by (intro exI conjI, rule ct_stop_intros(4) [OF CS_Notify])
      (use pusher_work_wake [of "ct_pushers s"] consumer_work_wake [of "ct_consumer s"] in
        \<open>simp_all add: work_left_def CS_Notify\<close>)
next
  case CS_Join
  show ?thesis
  proof (cases "ct_consumer s = CC_Exit")
    case True
    show ?thesis unfolding moves_def
      by (intro exI conjI, rule ct_stop_intros(5) [OF CS_Join True]) (simp_all add: work_left_def CS_Join)
  next
    case False
    then show ?thesis using consumer_moves [OF inv(1)] inv(2) CS_Join by (simp add: ct_wake_def)
  qed
next
  case CS_Processors
  then show ?thesis by (rule processors_move [OF inv cap])
next
  case CS_Writers
  show ?thesis
  proof (cases "ct_writers_stopped s = length (cc_writers cc)")
    case True
    show ?thesis unfolding moves_def
      by (intro exI conjI, rule ct_stop_intros(10) [OF CS_Writers True]) (simp_all add: work_left_def CS_Writers)
  next
    case False
    then have k: "ct_writers_stopped s < length (cc_writers cc)" using inv(3) by (simp add: ct_stages_def)
    show ?thesis unfolding moves_def
      by (intro exI conjI, rule ct_stop_intros(9) [OF CS_Writers k]) (use k in \<open>simp_all add: work_left_def CS_Writers\<close>)
  qed
qed (use st in auto)

lemma stop_finishes:
  assumes "0 < cc_queue_capacity cc"
  shows "ct_inv cc s \<Longrightarrow> ct_wake cc s \<Longrightarrow> ct_stages cc s \<Longrightarrow> ct_stop s \<noteq> CS_Out \<Longrightarrow>
    \<exists>s'. (ct_step fnm cc)\<^sup>*\<^sup>* s s' \<and> ct_stop s' = CS_Done \<and> ct_force s' = ct_force s"
proof (induction "work_left cc s" arbitrary: s rule: less_induct)
  case less
  show ?case
  proof (cases "ct_stop s = CS_Done")
    case False
    then have "moves fnm cc s" using stop_moves [OF less.prems(1-3) assms] less.prems(4) by simp
    then obtain t where t: "ct_step fnm cc s t" "work_left cc t < work_left cc s" "ct_stop t \<noteq> CS_Out"
      "ct_force t = ct_force s"
      by (auto simp: moves_def)
    have "\<exists>s'. (ct_step fnm cc)\<^sup>*\<^sup>* t s' \<and> ct_stop s' = CS_Done \<and> ct_force s' = ct_force t"
      using less.hyps [OF t(2)] t(1,3) less.prems step_ct_inv step_ct_wake step_ct_stages by blast
    then show ?thesis using t(1,4) by (metis converse_rtranclp_into_rtranclp)
  qed blast
qed

lemma accepted_grows: "ct_step fnm cc s s' \<Longrightarrow> set (ct_accepted s) \<subseteq> set (ct_accepted s')"
  by (erule ct_step.cases; (erule ct_push_stepE ct_consume_stepE ct_stop_stepE ct_force_stepE)?) auto

lemma accepted_stay: "(ct_step fnm cc)\<^sup>*\<^sup>* s s' \<Longrightarrow> set (ct_accepted s) \<subseteq> set (ct_accepted s')"
  by (induction rule: rtranclp_induct) (use accepted_grows in blast)+

section \<open>Properties\<close>

text \<open>
  C30. Safety of the queue, in every reachable state of the interleaved controller: the queue never
  exceeds its capacity; only valid batches are accepted; the batches handed to the writers are a
  prefix, in order, of the batches whose \<open>push\<close> returned true; and without a forced stop nothing
  accepted is missing: it has been dispatched, or is in the consumer's hands, or is queued.
\<close>

theorem controller_queue_safe:
  assumes "ct_reachable fnm cc readers P s"
  shows "length (ct_queue s) \<le> cc_queue_capacity cc \<and> (\<forall>b\<in>set (ct_accepted s). valid_batch b) \<and>
    (\<exists>rest. ct_accepted s = ct_dispatched s @ rest) \<and>
    (\<not> ct_force s \<longrightarrow> ct_accepted s = ct_dispatched s @ ct_local s @ ct_queue s)"
  using reachable_ct_inv [OF assms] by (auto simp: ct_inv_def)

definition ex_cc :: "RouteTable \<Rightarrow> ControllerConfig" where
  "ex_cc rt = \<lparr>cc_queue_capacity = 1, cc_reader_pushers = 1, cc_writers = [\<lparr>wi_name = ''w'', wi_accepts = isTimeSeries\<rparr>],
     cc_processors = [''p''], cc_routes = rt\<rparr>"

lemma ct_reachable_start: "ct_reachable fnm cc readers P (started readers P)"
  by (simp add: ct_reachable_def)

lemma ct_reachable_step:
  "ct_reachable fnm cc readers P s \<Longrightarrow> ct_step fnm cc s s' \<Longrightarrow> s' = t \<Longrightarrow> ct_reachable fnm cc readers P t"
  unfolding ct_reachable_def by (auto intro: rtranclp.rtrancl_into_rtrancl)

lemma ex_batch_valid: "valid_batch (ex_batch ''a'' 1)"
  by (simp add: valid_batch_def getRootSourceName_def ex_batch_def ex_payload_def)

lemma ex_queued:
  "\<exists>s. ct_reachable (=) (ex_cc empty_RouteTable) [''r''] 1 s \<and> ct_queue s = [ex_batch ''a'' 1] \<and>
     ct_running s \<and> \<not> ct_force s \<and> ct_consumer s = CC_Wait \<and> ct_stop s = CS_Out \<and>
     ct_pushers s = [CP_Idle] \<and> ct_processors_stopped s = 0 \<and> ct_writers_stopped s = 0 \<and>
     ct_accepted s = [ex_batch ''a'' 1] \<and> ct_dispatched s = []"
proof -
  let ?R = "ct_reachable (=) (ex_cc empty_RouteTable) [''r''] 1"
  let ?s = "started [''r''] 1"
  let ?b = "ex_batch ''a'' 1"
  let ?fed = "map (\<lambda>i. (i, ?b)) (processor_targets (=) (ex_cc empty_RouteTable) ?b)"
  have 1: "?R (?s\<lparr>ct_pushers := [CP_Wait ?b], ct_fed := ?fed\<rparr>)"
    by (rule ct_reachable_step [OF ct_reachable_start ct_push_intros(2) [where p = 0 and b = ?b]])
      (simp_all add: started_def ex_batch_valid)
  have 2: "?R (?s\<lparr>ct_pushers := [CP_Notify], ct_fed := ?fed, ct_queue := [?b], ct_accepted := [?b]\<rparr>)"
    by (rule ct_reachable_step [OF 1 ct_push_intros(4) [where p = 0 and b = ?b]])
      (simp_all add: started_def ex_cc_def)
  have "?R (?s\<lparr>ct_fed := ?fed, ct_queue := [?b], ct_accepted := [?b], ct_results := [(0, True)]\<rparr>)"
    by (rule ct_reachable_step [OF 2 ct_push_intros(5) [where p = 0]])
      (simp_all add: started_def wake_consumer_def)
  then show ?thesis
    by (intro exI [of _ "?s\<lparr>ct_fed := ?fed, ct_queue := [?b], ct_accepted := [?b],
          ct_results := [(0, True)]\<rparr>"]) (simp add: started_def)
qed

theorem controller_queue_safe_witness:
  "\<exists>s. ct_reachable (=) (ex_cc empty_RouteTable) [''r''] 1 s \<and> ct_queue s = [ex_batch ''a'' 1] \<and>
     ct_accepted s = ct_dispatched s @ ct_local s @ ct_queue s"
proof -
  obtain s where s: "ct_reachable (=) (ex_cc empty_RouteTable) [''r''] 1 s"
    "ct_queue s = [ex_batch ''a'' 1]" "\<not> ct_force s"
    using ex_queued by blast
  then show ?thesis using controller_queue_safe [OF s(1)] by blast
qed

text \<open>
  C3. A graceful stop finishes and loses nothing, with a queue that can hold a batch.  From every
  reachable state after \<open>stop\<close> was called, wherever the readers' threads, the processors' workers,
  the consumer and a concurrent \<open>forceStop\<close> are, some sequence of steps without a spurious wake-up and
  without a new forced stop brings \<open>stop\<close> to its end: the readers' threads get out of a blocked \<open>push\<close> although \<open>stop\<close> notifies
  them only after it has waited for them.  (The \<open>stop\<close> of a processor and of a writer count as
  returning once their threads have ended; their own loops, and the wake-up a processor can miss, are
  in \<open>Channel_Processor\<close> and \<open>Queued_Writer\<close>.)  And when \<open>stop\<close> is at its end, every thread of a reader or
  processor has gone, every processor and every writer has been stopped, nothing is queued, and if no
  stop was forced every batch that \<open>push\<close> ever accepted has been handed to the writers, in order,
  each writer having received exactly the accepted batches that the routing selects for it.
\<close>

theorem graceful_stop_dispatches_all:
  assumes "ct_reachable fnm cc readers P s" and "0 < cc_queue_capacity cc"
  shows "(ct_stop s \<noteq> CS_Out \<longrightarrow>
      (\<exists>s'. (ct_step fnm cc)\<^sup>*\<^sup>* s s' \<and> ct_stop s' = CS_Done \<and> ct_force s' = ct_force s)) \<and>
    (ct_stop s = CS_Done \<longrightarrow>
      (\<forall>p<length (ct_pushers s). p < cc_reader_pushers cc + length (cc_processors cc) \<longrightarrow>
         ct_pushers s ! p = CP_Gone) \<and>
      ct_processors_stopped s = length (cc_processors cc) \<and> ct_writers_stopped s = length (cc_writers cc) \<and>
      ct_consumer s = CC_Exit \<and> ct_queue s = [] \<and>
      (\<not> ct_force s \<longrightarrow> ct_dispatched s = ct_accepted s \<and>
        (\<forall>w. delivered fnm cc s w = filter (\<lambda>b. w \<in> set (dispatch_targets fnm cc b)) (ct_accepted s))))"
proof -
  have inv: "ct_inv cc s" "ct_wake cc s" "ct_stages cc s" using ct_reachable_invs [OF assms(1)] by auto
  have gone: "ct_pushers s ! p = CP_Gone" if "ct_stop s = CS_Done" "p < length (ct_pushers s)"
    "p < cc_reader_pushers cc + length (cc_processors cc)" for p
  proof (cases "p < cc_reader_pushers cc")
    case False
    then have "p = cc_reader_pushers cc + (p - cc_reader_pushers cc)"
      "p - cc_reader_pushers cc < ct_processors_stopped s"
      using that inv(3) by (auto simp: ct_stages_def)
    then show ?thesis using inv(3) that(2) unfolding ct_stages_def by metis
  qed (use that inv(3) in \<open>simp add: ct_stages_def\<close>)
  show ?thesis
    using inv gone stop_finishes [OF assms(2) inv] by (auto simp: ct_inv_def ct_stages_def delivered_def)
qed

theorem graceful_stop_dispatches_all_witness:
  "\<exists>s s'. ct_reachable (=) (ex_cc empty_RouteTable) [''r''] 1 s \<and> ct_stop s = CS_Readers \<and>
     ct_queue s = [ex_batch ''a'' 1] \<and> ct_dispatched s = [] \<and>
     (ct_step (=) (ex_cc empty_RouteTable))\<^sup>*\<^sup>* s s' \<and> ct_stop s' = CS_Done \<and> \<not> ct_force s' \<and>
     ex_batch ''a'' 1 \<in> set (ct_dispatched s') \<and> ct_dispatched s' = ct_accepted s' \<and> ct_writers_stopped s' = 1"
proof -
  let ?cc = "ex_cc empty_RouteTable"
  let ?R = "ct_reachable (=) ?cc [''r''] 1" and ?b = "ex_batch ''a'' 1"
  have cap: "0 < cc_queue_capacity ?cc" by (simp add: ex_cc_def)
  obtain s where s: "?R s" "ct_queue s = [?b]" "ct_stop s = CS_Out" "ct_dispatched s = []"
    "ct_accepted s = [?b]" "\<not> ct_force s"
    using ex_queued by blast
  let ?s1 = "s\<lparr>ct_running := False, ct_stop := CS_Readers\<rparr>"
  have 1: "?R ?s1" by (rule ct_reachable_step [OF s(1) ct_stop_intros(1) [OF s(3)] refl])
  have "ct_stop ?s1 \<noteq> CS_Out" by simp
  then obtain s' where s': "(ct_step (=) ?cc)\<^sup>*\<^sup>* ?s1 s'" "ct_stop s' = CS_Done" "ct_force s' = ct_force ?s1"
    using graceful_stop_dispatches_all [OF 1 cap] by blast
  have 2: "?R s'" using 1 s'(1) unfolding ct_reachable_def by (rule rtranclp_trans)
  have f: "\<not> ct_force s'" using s'(3) s(6) by simp
  have "ct_dispatched s' = ct_accepted s' \<and> ct_writers_stopped s' = length (cc_writers ?cc)"
    using graceful_stop_dispatches_all [OF 2 cap] s'(2) f by blast
  moreover have "?b \<in> set (ct_accepted s')" using accepted_stay [OF s'(1)] s(5) by simp
  ultimately have final: "?b \<in> set (ct_accepted s') \<and> ct_dispatched s' = ct_accepted s' \<and> ct_writers_stopped s' = 1"
    by (simp add: ex_cc_def)
  show ?thesis
    by (rule exI [of _ ?s1], rule exI [of _ s']) (use 1 s' f s(2,4) final in simp)
qed

text \<open>
  The condition on the capacity is needed, and the configuration accepts 0 for it: then the thread of
  a reader that has called \<open>push\<close> sleeps on a queue that never has room, the consumer sleeps on a
  queue that is always empty, and \<open>stop\<close>, which destroys the readers before it notifies anybody, never
  returns unless a stop is forced.
\<close>

definition cc_no_capacity :: "RouteTable \<Rightarrow> ControllerConfig" where
  "cc_no_capacity rt = (ex_cc rt)\<lparr>cc_queue_capacity := 0\<rparr>"

definition stuck_in_readers :: "EventBatch \<Rightarrow> Controller \<Rightarrow> bool" where
  "stuck_in_readers b s \<longleftrightarrow> ct_pushers s = [CP_Sleep b] \<and> ct_consumer s = CC_Sleep \<and> ct_queue s = [] \<and>
     ct_stop s = CS_Readers \<and> \<not> ct_running s \<and> ct_fstop s = CF_Out \<and> \<not> ct_force s"

lemma stuck_step:
  assumes "ct_step fnm (cc_no_capacity rt) s s'" "stuck_in_readers b s"
  shows "ct_force s' \<or> stuck_in_readers b s'"
  using assms(1)
proof (cases rule: ct_step.cases)
  case push_step
  then show ?thesis using assms(2) by (cases rule: ct_push_stepE) (auto simp: stuck_in_readers_def)
next
  case consume_step
  then show ?thesis using assms(2) by (cases rule: ct_consume_stepE) (auto simp: stuck_in_readers_def)
next
  case stop_step
  then show ?thesis using assms(2)
    by (cases rule: ct_stop_stepE) (auto simp: stuck_in_readers_def cc_no_capacity_def ex_cc_def)
next
  case force_step
  then show ?thesis using assms(2) by (cases rule: ct_force_stepE) (auto simp: stuck_in_readers_def)
qed (use assms(2) in \<open>auto simp: stuck_in_readers_def\<close>)

lemma force_stays: "ct_step fnm cc s s' \<Longrightarrow> ct_force s \<Longrightarrow> ct_force s'"
  by (erule ct_step.cases; (erule ct_push_stepE ct_consume_stepE ct_stop_stepE ct_force_stepE)?) auto

lemma stuck_stays:
  "(ct_step fnm (cc_no_capacity rt))\<^sup>*\<^sup>* s s' \<Longrightarrow> stuck_in_readers b s \<Longrightarrow> ct_force s' \<or> stuck_in_readers b s'"
  by (induction rule: rtranclp_induct) (auto dest: stuck_step force_stays)

theorem stop_hangs_without_capacity:
  "\<exists>s. ct_reachable fnm (cc_no_capacity rt) [''r''] 1 s \<and> ct_stop s = CS_Readers \<and>
     (\<forall>s'. (ct_step fnm (cc_no_capacity rt))\<^sup>*\<^sup>* s s' \<longrightarrow> ct_force s' \<or> ct_stop s' = CS_Readers)"
proof -
  let ?cc = "cc_no_capacity rt"
  let ?R = "ct_reachable fnm ?cc [''r''] 1"
  let ?b = "ex_batch ''a'' 1"
  let ?s = "started [''r''] 1\<lparr>ct_fed := map (\<lambda>i. (i, ?b)) (processor_targets fnm ?cc ?b)\<rparr>"
  have 1: "?R (?s\<lparr>ct_pushers := [CP_Wait ?b]\<rparr>)"
    by (rule ct_reachable_step [OF ct_reachable_start ct_push_intros(2) [where p = 0 and b = ?b]])
      (simp_all add: started_def ex_batch_valid)
  have 2: "?R (?s\<lparr>ct_pushers := [CP_Sleep ?b]\<rparr>)"
    by (rule ct_reachable_step [OF 1 ct_push_intros(3) [where p = 0 and b = ?b]])
      (simp_all add: started_def cc_no_capacity_def)
  have 3: "?R (?s\<lparr>ct_pushers := [CP_Sleep ?b], ct_consumer := CC_Sleep\<rparr>)"
    by (rule ct_reachable_step [OF 2 ct_consume_intros(1)]) (simp_all add: started_def)
  let ?t = "?s\<lparr>ct_pushers := [CP_Sleep ?b], ct_consumer := CC_Sleep, ct_running := False,
      ct_stop := CS_Readers\<rparr>"
  have 4: "?R ?t"
    by (rule ct_reachable_step [OF 3 ct_stop_intros(1)]) (simp_all add: started_def)
  have "stuck_in_readers ?b ?t" by (simp add: stuck_in_readers_def started_def)
  then show ?thesis using 4 stuck_stays [where s = ?t]
    by (intro exI [of _ ?t]) (auto simp: stuck_in_readers_def)
qed

text \<open>
  The fan-out is what the routes say.  With a table built from the configured routes, a batch
  is handed to writer \<open>i\<close> exactly when the writer accepts the payload kind and either there are no
  routes, or the first route that names the writer lists the reader or \<open>all\<close>, has a matching
  include pattern (or none at all), and no matching exclude pattern.
\<close>

theorem dispatch_follows_routes:
  assumes "build routes known_readers known_writers = Inr (cc_routes cc)" and "i < length (cc_writers cc)"
  shows "i \<in> set (dispatch_targets fnm cc b) \<longleftrightarrow>
    wi_accepts (cc_writers cc ! i) (payload b) \<and>
    (routes = [] \<or>
     (\<exists>e. find (\<lambda>e. rf_writer_name e = wi_name (cc_writers cc ! i)) routes = Some e \<and>
        (''all'' \<in> set (rf_from_readers e) \<or> reader_name b \<in> set (rf_from_readers e)) \<and>
        (rf_include_patterns e = [] \<or> (\<exists>pat\<in>set (rf_include_patterns e). fnm pat (getRootSourceName b))) \<and>
        \<not> (\<exists>pat\<in>set (rf_exclude_patterns e). fnm pat (getRootSourceName b))))"
  using build_table [OF assms(1)] assms(2)
  by (auto simp: dispatch_targets_def routed_to_def accepts_def acceptsSource_def entry_route_def
      split: option.splits)

theorem dispatch_follows_routes_witness:
  "0 \<in> set (dispatch_targets (\<lambda>p s. True) (ex_cc empty_RouteTable) (ex_batch ''a'' 1))"
  by (subst dispatch_follows_routes [of "[]" "[''r'']" "[''w'']"])
    (simp_all add: build_def ex_cc_def ex_batch_def)

text \<open>
  No feedback, and no chaining: whatever a processor of the controller pushes to the bus is
  offered to no processor at all, neither itself nor another one that lists its output source.
\<close>

theorem processor_output_feeds_no_processor:
  assumes "x \<in> set (snd (run_tasks compute bs cp))" and "pc_name (cp_config cp) \<in> set (cc_processors cc)"
  shows "processor_targets fnm cc x = []"
  using run_tasks_name [OF assms(1)] assms(2) by (auto simp: processor_targets_def from_processor_def)

theorem processor_output_feeds_no_processor_witness:
  "\<exists>x. snd (run_tasks ex_compute [ex_batch ''a'' 1] (ex_cp TP_AnyUpdate)) = [x] \<and>
     processor_targets (\<lambda>p s. True) (ex_cc empty_RouteTable) x = []"
proof -
  let ?x = "output_batch (ex_config [''a'', ''b''] TP_AnyUpdate)
      \<lparr>output_source = ''o'', ao_payload = PTimeSeries (ex_payload ''o'' [0])\<rparr>"
  have x: "snd (run_tasks ex_compute [ex_batch ''a'' 1] (ex_cp TP_AnyUpdate)) = [?x]"
    by (simp add: ex_cp_def ex_batch_def new_ChannelProcessor_def ex_config_def run_task_def
        processTask_def Let_def trySnapshot_def fireCompute_def ex_compute_def)
  have "processor_targets (\<lambda>p s. True) (ex_cc empty_RouteTable) ?x = []"
  proof (rule processor_output_feeds_no_processor)
    show "?x \<in> set (snd (run_tasks ex_compute [ex_batch ''a'' 1] (ex_cp TP_AnyUpdate)))"
      unfolding x by simp
  qed (simp add: ex_cp_def ex_config_def new_ChannelProcessor_def ex_cc_def)
  with x show ?thesis by blast
qed

text \<open>
  The controller's completion rule: removing a completed reader takes out one reader of that
  name, reports the end exactly when it was the last one, and ignores unknown names; so of any
  sequence of completions at most one triggers the shutdown.
\<close>

theorem completed_reader_removed:
  "removeCompletedReader name readers =
     (if name \<in> set readers then (remove1 name readers, remove1 name readers = []) else (readers, False))"
proof -
  have "erase_first name readers = (if name \<in> set readers then Some (remove1 name readers) else None)"
    by (induction readers) auto
  then show ?thesis by (simp add: removeCompletedReader_def)
qed

end
