(* ===== verification/Enrichers.thy ===== *)
theory Enrichers
  imports Bus
begin

text \<open>
  The payload enrichers (\<open>src/enricher/impl/\<close>), their registry (\<open>src/enricher/EnricherRegistry.cpp\<close>)
  and the chain a writer runs (\<open>BaseQueuedWriter::push\<close>).  \<open>fnmatch\<close>, the random generator and the
  SQLite statements of the shard-slot enricher are parameters.
\<close>

section \<open>Access to the frames\<close>

text \<open>The loop \<open>for (auto& frame : payload.frames)\<close> on a time-series batch; other batches are left alone.\<close>

definition map_frames :: "(DataBatch \<Rightarrow> DataBatch) \<Rightarrow> EventBatch \<Rightarrow> EventBatch" where
  "map_frames f b =
     (case payload b of
        PTimeSeries p \<Rightarrow> b\<lparr>payload := PTimeSeries (p\<lparr>frames := map f (frames p)\<rparr>)\<rparr>
      | _ \<Rightarrow> b)"

definition assign_all :: "(string \<times> string) list \<Rightarrow> (string \<rightharpoonup> string) \<Rightarrow> string \<rightharpoonup> string" where
  "assign_all attrs m = foldl (\<lambda>m (key, v). m(key \<mapsto> v)) m attrs"

section \<open>The stateless enrichers\<close>

definition StaticMetadata_enrich :: "(string, string) umap \<Rightarrow> EventBatch \<Rightarrow> EventBatch" where
  "StaticMetadata_enrich static b = b\<lparr>metadata := assign_all static (metadata b)\<rparr>"

definition ColumnAttributes_column ::
  "(string \<Rightarrow> string \<Rightarrow> bool) \<Rightarrow> string \<Rightarrow> (string, string) umap \<Rightarrow> DataColumn \<Rightarrow> DataColumn" where
  "ColumnAttributes_column fnm pattern attrs c =
     (if \<not> fnm pattern (col_name c) then c
      else c\<lparr>col_metadata := assign_all attrs (col_metadata c)\<rparr>)"

definition ColumnAttributes_enrich ::
  "(string \<Rightarrow> string \<Rightarrow> bool) \<Rightarrow> string \<Rightarrow> (string, string) umap \<Rightarrow> EventBatch \<Rightarrow> EventBatch" where
  "ColumnAttributes_enrich fnm pattern attrs b =
     map_frames (\<lambda>f. f\<lparr>columns := map (ColumnAttributes_column fnm pattern attrs) (columns f)\<rparr>) b"

definition clamp_entry :: "TimestampEntry \<Rightarrow> TimestampEntry" where
  "clamp_entry t = t\<lparr>nanoseconds := min (nanoseconds t) 999999999\<rparr>"

definition TimestampClamp_enrich :: "EventBatch \<Rightarrow> EventBatch" where
  "TimestampClamp_enrich b = map_frames (\<lambda>f. f\<lparr>timestamps := map clamp_entry (timestamps f)\<rparr>) b"

section \<open>The shard-slot enricher\<close>

text \<open>
  The cache, the round-robin counter, the generator and the database.  \<open>rng r lo hi\<close> draws from a
  uniform distribution; \<open>db_insert\<close> is the \<open>INSERT OR IGNORE\<close> and \<open>db_select\<close> the \<open>SELECT\<close> that
  reads the row back (\<open>None\<close> when the statement yields no row).
\<close>

record ('r, 'd) ShardState =
  sh_num_shards :: u64
  sh_next_shard :: u64
  sh_slots :: "string \<rightharpoonup> 16 word"
  sh_rng :: 'r
  sh_db :: 'd

definition shard_lower :: "u64 \<Rightarrow> u64 \<Rightarrow> u32" where
  "shard_lower n shard = ucast ((65536 * shard) div n)"

definition shard_upper :: "u64 \<Rightarrow> u64 \<Rightarrow> u32" where
  "shard_upper n shard = ucast ((65536 * (shard + 1)) div n - 1)"

definition configure_num_shards :: "int \<Rightarrow> exn + u64" where
  "configure_num_shards n =
     (if n < 1 \<or> n > 65536
      then Inl (RuntimeError (''shard-slot '' @ quoted ''num-shards'' @ '' must be in range 1..65536''))
      else Inr (of_int n))"

definition digit :: "nat \<Rightarrow> char" where
  "digit d = char_of (48 + d mod 10)"

text \<open>\<open>snprintf("%05u")\<close> of a 16-bit value.\<close>

definition format_slot :: "16 word \<Rightarrow> string" where
  "format_slot s = (let n = unat s in
     [digit (n div 10000), digit (n div 1000), digit (n div 100), digit (n div 10), digit n])"

definition shard_assign ::
  "('r \<Rightarrow> u32 \<Rightarrow> u32 \<Rightarrow> 'r \<times> u32) \<Rightarrow> ('d \<Rightarrow> string \<Rightarrow> int \<Rightarrow> 'd) \<Rightarrow> ('d \<Rightarrow> string \<Rightarrow> int option) \<Rightarrow>
   string \<Rightarrow> ('r, 'd) ShardState \<Rightarrow> ('r, 'd) ShardState \<times> 16 word" where
  "shard_assign rng db_insert db_select name st =
     (case sh_slots st name of
        Some slot \<Rightarrow> (st, slot)
      | None \<Rightarrow>
          let shard = sh_next_shard st mod sh_num_shards st;
              (r, drawn) = rng (sh_rng st) (shard_lower (sh_num_shards st) shard)
                             (shard_upper (sh_num_shards st) shard);
              slot = ucast drawn :: 16 word;
              db = db_insert (sh_db st) name (int (unat slot));
              slot' = (case db_select db name of None \<Rightarrow> slot | Some v \<Rightarrow> of_int v)
          in (st\<lparr>sh_next_shard := sh_next_shard st + 1, sh_rng := r, sh_db := db,
                sh_slots := (sh_slots st)(name \<mapsto> slot')\<rparr>, slot'))"

definition shard_column ::
  "('r \<Rightarrow> u32 \<Rightarrow> u32 \<Rightarrow> 'r \<times> u32) \<Rightarrow> ('d \<Rightarrow> string \<Rightarrow> int \<Rightarrow> 'd) \<Rightarrow> ('d \<Rightarrow> string \<Rightarrow> int option) \<Rightarrow>
   DataColumn \<Rightarrow> ('r, 'd) ShardState \<Rightarrow> ('r, 'd) ShardState \<times> DataColumn" where
  "shard_column rng db_insert db_select c st =
     (if col_metadata c ''shardSlot'' \<noteq> None then (st, c)
      else let (st1, slot) = shard_assign rng db_insert db_select (col_name c) st in
        (st1, c\<lparr>col_metadata := (col_metadata c)(''shardSlot'' \<mapsto> format_slot slot)\<rparr>))"

text \<open>A loop that updates its elements and a state.\<close>

fun map_state :: "('x \<Rightarrow> 's \<Rightarrow> 's \<times> 'y) \<Rightarrow> 'x list \<Rightarrow> 's \<Rightarrow> 's \<times> 'y list" where
  "map_state f [] st = (st, [])"
| "map_state f (x # xs) st =
     (let (st1, y) = f x st; (st2, ys) = map_state f xs st1 in (st2, y # ys))"

definition shard_frame ::
  "('r \<Rightarrow> u32 \<Rightarrow> u32 \<Rightarrow> 'r \<times> u32) \<Rightarrow> ('d \<Rightarrow> string \<Rightarrow> int \<Rightarrow> 'd) \<Rightarrow> ('d \<Rightarrow> string \<Rightarrow> int option) \<Rightarrow>
   DataBatch \<Rightarrow> ('r, 'd) ShardState \<Rightarrow> ('r, 'd) ShardState \<times> DataBatch" where
  "shard_frame rng db_insert db_select f st =
     (let (st1, cols) = map_state (shard_column rng db_insert db_select) (columns f) st
      in (st1, f\<lparr>columns := cols\<rparr>))"

definition ShardSlot_enrich ::
  "('r \<Rightarrow> u32 \<Rightarrow> u32 \<Rightarrow> 'r \<times> u32) \<Rightarrow> ('d \<Rightarrow> string \<Rightarrow> int \<Rightarrow> 'd) \<Rightarrow> ('d \<Rightarrow> string \<Rightarrow> int option) \<Rightarrow>
   EventBatch \<Rightarrow> ('r, 'd) ShardState \<Rightarrow> ('r, 'd) ShardState \<times> EventBatch" where
  "ShardSlot_enrich rng db_insert db_select b st =
     (case payload b of
        PTimeSeries p \<Rightarrow>
          let (st1, fs) = map_state (shard_frame rng db_insert db_select) (frames p) st
          in (st1, b\<lparr>payload := PTimeSeries (p\<lparr>frames := fs\<rparr>)\<rparr>)
      | _ \<Rightarrow> (st, b))"

section \<open>The chain of a writer\<close>

text \<open>
  An enricher as the writer sees it: \<open>run\<close> on the shared state of all enrichers, with the flag
  that tells whether to go on.  The loop of \<open>push\<close> stops at the first enricher that declines.
\<close>

type_synonym 's enricher = "EventBatch \<Rightarrow> 's \<Rightarrow> ('s \<times> EventBatch) \<times> bool"

fun run_chain :: "'s enricher list \<Rightarrow> EventBatch \<Rightarrow> 's \<Rightarrow> ('s \<times> EventBatch) \<times> bool" where
  "run_chain [] b st = ((st, b), True)"
| "run_chain (e # es) b st =
     (case e b st of ((st1, b1), ok) \<Rightarrow> if \<not> ok then ((st1, b1), False) else run_chain es b1 st1)"

text \<open>
  The configured enrichers.  Each shard-slot enricher has a state of its own, found by its name.
\<close>

datatype enricher_kind =
    StaticMetadata "(string, string) umap"
  | ColumnAttributes string "(string, string) umap"
  | TimestampClamp
  | ShardSlot string

type_synonym ('r, 'd) shard_env =
  "(string \<Rightarrow> string \<Rightarrow> bool) \<times> ('r \<Rightarrow> u32 \<Rightarrow> u32 \<Rightarrow> 'r \<times> u32) \<times>
   ('d \<Rightarrow> string \<Rightarrow> int \<Rightarrow> 'd) \<times> ('d \<Rightarrow> string \<Rightarrow> int option)"

fun enrich :: "('r, 'd) shard_env \<Rightarrow> enricher_kind \<Rightarrow> (string \<Rightarrow> ('r, 'd) ShardState) enricher" where
  "enrich env (StaticMetadata m) b st = ((st, StaticMetadata_enrich m b), True)"
| "enrich (fnm, rng, ins, sel) (ColumnAttributes p attrs) b st =
     ((st, ColumnAttributes_enrich fnm p attrs b), True)"
| "enrich env TimestampClamp b st = ((st, TimestampClamp_enrich b), True)"
| "enrich (fnm, rng, ins, sel) (ShardSlot name) b st =
     (let (sh, b1) = ShardSlot_enrich rng ins sel b (st name) in ((st(name := sh), b1), True))"

section \<open>The registry\<close>

text \<open>\<open>EnricherRegistry::resolve\<close> on the writer's list of names; \<open>None\<close> is a missing key.\<close>

fun resolve_names ::
  "(string, 'e) umap \<Rightarrow> string list \<Rightarrow> string set \<Rightarrow> 'e list \<Rightarrow> exn + 'e list" where
  "resolve_names registry [] seen result = Inr result"
| "resolve_names registry (name # names) seen result =
     (if name = [] then
        Inl (RuntimeError (''writer '' @ quoted ''enrichers'' @ '' cannot contain an empty name''))
      else if name \<in> seen then
        Inl (RuntimeError (''writer '' @ quoted ''enrichers'' @ '' contains duplicate name '' @ quoted name))
      else (case map_of registry name of
          None \<Rightarrow> Inl (RuntimeError (''writer references unknown enricher '' @ quoted name))
        | Some e \<Rightarrow> resolve_names registry names (insert name seen) (result @ [e])))"

definition resolve :: "(string, 'e) umap \<Rightarrow> string list option \<Rightarrow> exn + 'e list" where
  "resolve registry names =
     (case names of None \<Rightarrow> Inr [] | Some ns \<Rightarrow> resolve_names registry ns {} [])"

section \<open>What an enricher leaves alone\<close>

text \<open>
  The data of a batch: everything but the metadata of the batch and of its columns and the
  nanoseconds of its timestamps.
\<close>

definition frame_data :: "DataBatch \<Rightarrow>
    u64 list \<times> (string \<times> ColumnValues) list \<times> EnumDataColumn list \<times> (string \<rightharpoonup> u32 list)" where
  "frame_data f = (map epoch_seconds (timestamps f),
     map (\<lambda>c. (col_name c, col_values c)) (columns f), enum_columns f, array_dims f)"

definition same_data :: "EventBatch \<Rightarrow> EventBatch \<Rightarrow> bool" where
  "same_data b c \<longleftrightarrow> reader_name b = reader_name c \<and>
     (case payload b of
        PTimeSeries p \<Rightarrow> (case payload c of
            PTimeSeries q \<Rightarrow> p\<lparr>frames := []\<rparr> = q\<lparr>frames := []\<rparr> \<and>
              map frame_data (frames p) = map frame_data (frames q)
          | _ \<Rightarrow> False)
      | _ \<Rightarrow> payload b = payload c)"

lemma same_data_refl [simp]: "same_data b b"
  by (auto simp: same_data_def split: BatchPayload.splits)

lemma same_data_trans: "same_data b c \<Longrightarrow> same_data c d \<Longrightarrow> same_data b d"
  by (auto simp: same_data_def split: BatchPayload.splits)

lemma same_data_root: "same_data b c \<Longrightarrow> getRootSourceName b = getRootSourceName c"
  by (auto simp: same_data_def getRootSourceName_def split: BatchPayload.splits)
    (metis TimeSeriesPayload.surjective TimeSeriesPayload.update_convs(2) TimeSeriesPayload.select_convs(1))

locale payload_enricher =
  fixes run :: "'s enricher"
  assumes keeps_data: "run b st = ((st', b'), ok) \<Longrightarrow> same_data b b'"
begin

lemma keeps_reader: "run b st = ((st', b'), ok) \<Longrightarrow> reader_name b' = reader_name b"
  using keeps_data by (auto simp: same_data_def)

lemma keeps_root: "run b st = ((st', b'), ok) \<Longrightarrow> getRootSourceName b' = getRootSourceName b"
  using keeps_data same_data_root by metis

lemma keeps_kind: "run b st = ((st', b'), ok) \<Longrightarrow> isTimeSeries (payload b') = isTimeSeries (payload b)"
  using keeps_data by (fastforce simp: same_data_def split: BatchPayload.splits)

end

locale enricher_chain =
  fixes es :: "'s enricher list"
  assumes members: "e \<in> set es \<Longrightarrow> payload_enricher e"
begin

lemma chain_keeps_data: "run_chain es b st = ((st', b'), ok) \<Longrightarrow> same_data b b'"
  using members
proof (induction es arbitrary: b st)
  case (Cons e es)
  obtain st1 b1 ok1 where e: "e b st = ((st1, b1), ok1)" by (metis prod.exhaust)
  have "same_data b b1"
    using payload_enricher.keeps_data [of e b st st1 b1 ok1] e Cons.prems(2) by simp
  then show ?case
    using Cons.prems e Cons.IH [of b1 st1] by (auto split: if_splits intro: same_data_trans)
qed simp

end

sublocale enricher_chain \<subseteq> payload_enricher "run_chain es"
  by unfold_locales (rule chain_keeps_data)

lemma map_frames_data:
  assumes "\<And>f. frame_data (g f) = frame_data f"
  shows "same_data b (map_frames g b)"
  using assms by (auto simp: map_frames_def same_data_def split: BatchPayload.splits)

lemma map_state_frames:
  assumes "\<And>f st. frame_data (snd (g f st)) = frame_data f"
  shows "map frame_data (snd (map_state g fs st)) = map frame_data fs"
proof (induction fs arbitrary: st)
  case (Cons f fs)
  obtain st1 y where g: "g f st = (st1, y)" by force
  have "frame_data y = frame_data f" using assms [of f st] g by simp
  moreover obtain st2 ys where r: "map_state g fs st1 = (st2, ys)" by force
  ultimately show ?case using Cons.IH [of st1] by (simp add: g)
qed simp

lemma shard_column_data:
  "col_name (snd (shard_column rng ins sel c st)) = col_name c \<and>
   col_values (snd (shard_column rng ins sel c st)) = col_values c"
  by (auto simp: shard_column_def split: prod.splits)

lemma map_state_columns:
  assumes "map_state (shard_column rng ins sel) cs st = (st', cs')"
  shows "map (\<lambda>c. (col_name c, col_values c)) cs' = map (\<lambda>c. (col_name c, col_values c)) cs"
  using assms
proof (induction cs arbitrary: st cs')
  case (Cons c cs)
  then show ?case
    using shard_column_data [of rng ins sel c st] by (auto split: prod.splits)
qed auto

lemma shard_frame_data: "frame_data (snd (shard_frame rng ins sel f st)) = frame_data f"
  by (auto simp: shard_frame_def frame_data_def dest: map_state_columns split: prod.splits)

lemma ShardSlot_data: "same_data b (snd (ShardSlot_enrich rng ins sel b st))"
  using map_state_frames [of "shard_frame rng ins sel", OF shard_frame_data]
  by (auto simp: ShardSlot_enrich_def same_data_def split: BatchPayload.splits prod.splits)
    (metis snd_conv)

lemma enrich_data: "snd (fst (enrich env k b st)) = b' \<Longrightarrow> same_data b b'"
proof (induction env k b st rule: enrich.induct)
  case (1 env m b st)
  then show ?case
    by (auto simp: StaticMetadata_enrich_def same_data_def split: BatchPayload.splits)
next
  case (2 fnm rng ins sel p attrs b st)
  then show ?case
    by (auto simp: ColumnAttributes_enrich_def ColumnAttributes_column_def frame_data_def
        intro!: map_frames_data)
next
  case (3 env b st)
  then show ?case
    by (auto simp: TimestampClamp_enrich_def clamp_entry_def frame_data_def intro!: map_frames_data)
next
  case (4 fnm rng ins sel name b st)
  then show ?case
    using ShardSlot_data [of b rng ins sel "st name"] by (auto simp: Let_def split: prod.splits)
qed

interpretation builtin: payload_enricher "enrich env k" for env k
  by unfold_locales (metis enrich_data fst_conv snd_conv)

lemma builtin_enricher: "payload_enricher (enrich env k)"
  by (rule builtin.payload_enricher_axioms)

interpretation writer_chain: enricher_chain "map (enrich env) ks" for env ks
  by (rule enricher_chain.intro) (auto simp: builtin_enricher)

section \<open>Shard ranges\<close>

lemma mult_u64:
  assumes "s \<le> 65536"
  shows "unat (65536 * (of_nat s :: u64)) = 65536 * s"
proof -
  have "(65536 * of_nat s :: u64) = of_nat (65536 * s)" by simp
  moreover have "65536 * s < 2 ^ 64" using assms by simp
  ultimately show ?thesis by (metis unat_of_nat_u64)
qed

lemma div_u64:
  assumes "0 < n" "n \<le> 65536" "s \<le> n"
  shows "unat ((65536 * (of_nat s :: u64)) div of_nat n) = 65536 * s div n"
  using assms by (simp add: unat_div_distrib mult_u64 unat_of_nat_u64)

lemma range_bound: "0 < n \<Longrightarrow> s \<le> n \<Longrightarrow> 65536 * s div n \<le> (65536 :: nat)"
  by (metis div_le_mono mult.commute mult_le_mono2 nonzero_mult_div_cancel_left not_gr_zero)

lemma ucast_u32: "unat (x :: u64) < 2 ^ 32 \<Longrightarrow> unat (ucast x :: u32) = unat x"
  by (simp add: unsigned_ucast_eq take_bit_nat_eq_self)

lemma shard_lower_nat:
  assumes "0 < n" "n \<le> 65536" "s \<le> n"
  shows "unat (shard_lower (of_nat n) (of_nat s)) = 65536 * s div n"
  unfolding shard_lower_def using range_bound [OF assms(1,3)] div_u64 [OF assms]
  by (subst ucast_u32) (simp_all add: div_u64 [OF assms])

lemma shard_upper_nat:
  assumes "0 < n" "n \<le> 65536" "s < n"
  shows "unat (shard_upper (of_nat n) (of_nat s)) = 65536 * Suc s div n - 1"
proof -
  have s: "Suc s \<le> n" using assms by simp
  have "n \<le> 65536 * Suc s" using assms by simp
  then have pos: "1 \<le> 65536 * Suc s div n"
    using assms(1) by (simp add: Suc_leI div_greater_zero_iff)
  let ?q = "(65536 * (of_nat (Suc s) :: u64)) div of_nat n"
  have q: "unat ?q = 65536 * Suc s div n" by (rule div_u64 [OF assms(1,2) s])
  have "1 \<le> ?q" using pos q by (simp add: word_le_nat_alt)
  then have m: "unat (?q - 1) = 65536 * Suc s div n - 1"
    using q by (simp add: unat_sub)
  have eq: "(65536 * ((of_nat s :: u64) + 1)) div of_nat n - 1 = ?q - 1"
    by (simp add: algebra_simps)
  have "unat (?q - 1) < 2 ^ 32" unfolding m using range_bound [OF assms(1) s] by simp
  then show ?thesis unfolding shard_upper_def eq using m by (simp only: ucast_u32)
qed

lemma step_interval:
  fixes g :: "nat \<Rightarrow> nat"
  assumes "g 0 \<le> x" "x < g n"
  shows "\<exists>s<n. g s \<le> x \<and> x < g (Suc s)"
  using assms
proof (induction n)
  case (Suc n)
  then show ?case by (cases "x < g n") (auto intro: less_SucI)
qed simp

lemma mono_interval_unique:
  fixes g :: "nat \<Rightarrow> nat"
  assumes "mono g" "g s \<le> x" "x < g (Suc s)" "g t \<le> x" "x < g (Suc t)"
  shows "s = t"
proof (rule ccontr)
  assume "s \<noteq> t"
  then have "Suc s \<le> t \<or> Suc t \<le> s" by arith
  then show False
    using assms by (meson le_less_trans leD monoD)
qed

section \<open>The decimal slot\<close>

definition parse_slot :: "string \<Rightarrow> nat" where
  "parse_slot ds = foldl (\<lambda>n c. 10 * n + (of_char c - 48)) 0 ds"

lemma digit_value [simp]: "of_char (digit d) - 48 = d mod (10 :: nat)"
proof -
  have "d mod 10 < 10" by simp
  then have "48 + d mod 10 < 256" by linarith
  then show ?thesis by (simp add: digit_def)
qed

lemma last_digit: "10 * (n div 10 ^ Suc k) + n div 10 ^ k mod 10 = n div (10 :: nat) ^ k"
proof -
  have "n div 10 ^ Suc k = n div 10 ^ k div 10"
    by (metis div_mult2_eq power_Suc mult.commute)
  then show ?thesis by simp
qed

lemma parse_format: "parse_slot (format_slot s) = unat s"
proof -
  let ?n = "unat s"
  have n: "?n < 65536" using unsigned_less [of s] by simp
  have top: "?n div 10000 mod 10 = ?n div 10000" using n by simp
  have d: "10 * (?n div 10000) + ?n div 1000 mod 10 = ?n div 1000"
    "10 * (?n div 1000) + ?n div 100 mod 10 = ?n div 100"
    "10 * (?n div 100) + ?n div 10 mod 10 = ?n div 10"
    "10 * (?n div 10) + ?n mod 10 = ?n"
    using last_digit [of ?n 3] last_digit [of ?n 2] last_digit [of ?n 1] by simp_all
  show ?thesis by (simp add: parse_slot_def format_slot_def Let_def top d)
qed

section \<open>Stability of the slots\<close>

lemma shard_assign_le: "sh_slots st \<subseteq>\<^sub>m sh_slots (fst (shard_assign rng ins sel name st))"
  by (auto simp: shard_assign_def map_le_def Let_def split: option.splits prod.splits)

lemma shard_assign_slot:
  "sh_slots (fst (shard_assign rng ins sel name st)) name = Some (snd (shard_assign rng ins sel name st))"
  by (auto simp: shard_assign_def Let_def split: option.splits prod.splits)

text \<open>What one column looks like after the enricher, given the final cache.\<close>

definition slotted :: "(string \<rightharpoonup> 16 word) \<Rightarrow> DataColumn \<Rightarrow> DataColumn \<Rightarrow> bool" where
  "slotted slots c c' \<longleftrightarrow>
     (if col_metadata c ''shardSlot'' \<noteq> None then c' = c
      else \<exists>slot. slots (col_name c) = Some slot \<and>
        c' = c\<lparr>col_metadata := (col_metadata c)(''shardSlot'' \<mapsto> format_slot slot)\<rparr>)"

lemma slotted_mono: "slotted m c c' \<Longrightarrow> m \<subseteq>\<^sub>m n \<Longrightarrow> slotted n c c'"
  by (auto simp: slotted_def map_le_def dom_def split: if_splits)

lemma shard_column_slotted:
  assumes "shard_column rng ins sel c st = (st', c')"
  shows "sh_slots st \<subseteq>\<^sub>m sh_slots st' \<and> slotted (sh_slots st') c c'"
  using assms shard_assign_le [of st rng ins sel "col_name c"] shard_assign_slot [of rng ins sel "col_name c" st]
  by (auto simp: shard_column_def slotted_def split: if_splits prod.splits)

lemma shard_columns_slotted:
  assumes "map_state (shard_column rng ins sel) cs st = (st', cs')"
  shows "sh_slots st \<subseteq>\<^sub>m sh_slots st' \<and> list_all2 (slotted (sh_slots st')) cs cs'"
  using assms
proof (induction cs arbitrary: st cs')
  case (Cons c cs)
  obtain st1 c1 where 1: "shard_column rng ins sel c st = (st1, c1)" by force
  obtain st2 cs2 where 2: "map_state (shard_column rng ins sel) cs st1 = (st2, cs2)" by force
  have st: "st' = st2" "cs' = c1 # cs2" using Cons.prems 1 2 by simp_all
  show ?case
    using shard_column_slotted [OF 1] Cons.IH [OF 2 [folded st(1)]] st
    by (auto intro: map_le_trans slotted_mono)
qed simp

lemma shard_frames_slotted:
  assumes "map_state (shard_frame rng ins sel) fs st = (st', fs')"
  shows "sh_slots st \<subseteq>\<^sub>m sh_slots st' \<and>
    list_all2 (\<lambda>f f'. list_all2 (slotted (sh_slots st')) (columns f) (columns f')) fs fs'"
  using assms
proof (induction fs arbitrary: st fs')
  case (Cons f fs)
  obtain st1 cs where 1: "map_state (shard_column rng ins sel) (columns f) st = (st1, cs)" by force
  obtain st2 fs2 where 2: "map_state (shard_frame rng ins sel) fs st1 = (st2, fs2)" by force
  have "shard_frame rng ins sel f st = (st1, f\<lparr>columns := cs\<rparr>)" by (simp add: shard_frame_def 1)
  then have st: "st' = st2" "fs' = f\<lparr>columns := cs\<rparr> # fs2"
    using Cons.prems 2 by simp_all
  have "sh_slots st1 \<subseteq>\<^sub>m sh_slots st'" using Cons.IH [OF 2 [folded st(1)]] by blast
  moreover from this have "list_all2 (slotted (sh_slots st')) (columns f) cs"
    using shard_columns_slotted [OF 1] by (auto elim!: list_all2_mono intro: slotted_mono)
  ultimately show ?case
    using shard_columns_slotted [OF 1] Cons.IH [OF 2 [folded st(1)]] st by (auto intro: map_le_trans)
qed simp

section \<open>Properties\<close>

text \<open>
  The shard ranges partition the 65536 slots: with \<open>n\<close> shards, \<open>1 \<le> n \<le> 65536\<close>, every slot
  number lies in the range of exactly one shard, computed in the code's 64-bit arithmetic and
  narrowed to 32 bits.
\<close>

theorem shard_ranges_partition:
  assumes "configure_num_shards n = Inr w"
  shows "\<forall>slot :: 16 word. \<exists>!s. s < unat w \<and>
    unat (shard_lower w (of_nat s)) \<le> unat slot \<and> unat slot \<le> unat (shard_upper w (of_nat s))"
proof
  fix slot :: "16 word"
  define k where "k = nat n"
  have k: "0 < k" "k \<le> 65536" "w = of_nat k"
    using assms by (auto simp: configure_num_shards_def k_def split: if_splits)
  have u: "unat w = k" using k by (simp add: unat_of_nat_u64)
  let ?g = "\<lambda>s. 65536 * s div k"
  have mono: "mono ?g" by (auto simp: mono_def intro: div_le_mono)
  have slot: "unat slot < 65536" using unsigned_less [of slot] by simp
  have top: "?g k = 65536" using k by simp
  have range: "unat (shard_lower w (of_nat s)) \<le> unat slot \<and> unat slot \<le> unat (shard_upper w (of_nat s)) \<longleftrightarrow>
      ?g s \<le> unat slot \<and> unat slot < ?g (Suc s)" if "s < k" for s
  proof -
    have "0 < ?g (Suc s)" using k that by (simp add: div_greater_zero_iff)
    then show ?thesis
      using shard_lower_nat [OF k(1,2), of s] shard_upper_nat [OF k(1,2) that] that k(3) by auto
  qed
  obtain s where s: "s < k" "?g s \<le> unat slot" "unat slot < ?g (Suc s)"
    using step_interval [of ?g "unat slot" k] slot top by auto
  have "t = s" if "t < k" "?g t \<le> unat slot" "unat slot < ?g (Suc t)" for t
    using mono_interval_unique [OF mono that(2,3) s(2,3)] .
  then show "\<exists>!s. s < unat w \<and>
    unat (shard_lower w (of_nat s)) \<le> unat slot \<and> unat slot \<le> unat (shard_upper w (of_nat s))"
    unfolding u by (metis s range)
qed

theorem shard_ranges_partition_witness:
  "\<exists>!s. s < 6 \<and> unat (shard_lower 6 (of_nat s)) \<le> 40000 \<and> 40000 \<le> unat (shard_upper 6 (of_nat s))"
  using spec [OF shard_ranges_partition [of 6 6], of 40000] by (simp add: configure_num_shards_def)

text \<open>
  C28. Slots are sticky.  After the shard-slot enricher ran on a batch, every cached assignment it
  started with is still there, every column that already carried a slot is unchanged, and every
  other column carries, in five decimal digits that read back to it, the slot its name has in the
  cache afterwards: the same name gets the same slot in every later batch.
\<close>

theorem shard_slots_sticky:
  assumes "payload b = PTimeSeries p" and "ShardSlot_enrich rng ins sel b st = (st', b')"
  shows "sh_slots st \<subseteq>\<^sub>m sh_slots st' \<and>
    (\<exists>p'. payload b' = PTimeSeries p' \<and>
       list_all2 (\<lambda>f f'. list_all2 (slotted (sh_slots st')) (columns f) (columns f'))
         (frames p) (frames p')) \<and>
    (\<forall>slot. parse_slot (format_slot slot) = unat slot)"
  using assms shard_frames_slotted [of rng ins sel "frames p" st]
  by (auto simp: ShardSlot_enrich_def parse_format split: prod.splits)

definition ex_shard :: "(nat, string \<rightharpoonup> int) ShardState" where
  "ex_shard = \<lparr>sh_num_shards = 2, sh_next_shard = 0, sh_slots = Map.empty, sh_rng = 0, sh_db = Map.empty\<rparr>"

definition ex_rng :: "nat \<Rightarrow> u32 \<Rightarrow> u32 \<Rightarrow> nat \<times> u32" where
  "ex_rng r lo hi = (r + 1, hi)"

definition ex_insert :: "(string \<rightharpoonup> int) \<Rightarrow> string \<Rightarrow> int \<Rightarrow> (string \<rightharpoonup> int)" where
  "ex_insert d k v = (if d k = None then d(k \<mapsto> v) else d)"

definition ex_two_columns :: EventBatch where
  "ex_two_columns = \<lparr>reader_name = ''r'', metadata = Map.empty,
     payload = PTimeSeries \<lparr>root_source_name = ''s'',
       frames = [\<lparr>timestamps = [], columns =
         [\<lparr>col_name = ''x'', col_values = VInt64 [], col_metadata = Map.empty\<rparr>,
          \<lparr>col_name = ''y'', col_values = VInt64 [], col_metadata = Map.empty\<rparr>],
         enum_columns = [], array_dims = Map.empty\<rparr>],
       end_of_batch_group = False, is_tabular = False\<rparr>\<rparr>"

theorem shard_slots_sticky_witness:
  "\<exists>st' b' p'. ShardSlot_enrich ex_rng ex_insert (\<lambda>d k. d k) ex_two_columns ex_shard = (st', b') \<and>
     payload b' = PTimeSeries p' \<and> length (frames p') = 1"
proof -
  obtain p where p: "payload ex_two_columns = PTimeSeries p" "length (frames p) = 1"
    by (simp add: ex_two_columns_def)
  obtain st' b' where r: "ShardSlot_enrich ex_rng ex_insert (\<lambda>d k. d k) ex_two_columns ex_shard = (st', b')"
    by force
  show ?thesis
    using shard_slots_sticky [OF p(1) r] p(2) r by (metis list_all2_lengthD)
qed

lemma shard_lower_le_upper:
  assumes "0 < n" "n \<le> 65536" "s < n"
  shows "shard_lower (of_nat n) (of_nat s) \<le> shard_upper (of_nat n) (of_nat s)"
proof -
  have "(65536 * s + n) div n \<le> 65536 * Suc s div n"
    using assms(2) by (intro div_le_mono) simp
  then have "65536 * s div n + 1 \<le> 65536 * Suc s div n" using assms(1) by (metis Suc_eq_plus1 div_add_self2 not_gr_zero)
  then show ?thesis
    using assms by (simp add: word_le_nat_alt shard_lower_nat shard_upper_nat)
qed

lemma shard_assign_new:
  assumes rng: "\<forall>r lo hi. lo \<le> hi \<longrightarrow> lo \<le> snd (rng r lo hi) \<and> snd (rng r lo hi) \<le> hi"
    and db: "\<forall>d k v. sel (ins d k v) k = Some v"
    and n: "0 < n" "n \<le> 65536" "sh_num_shards st = of_nat n" and new: "sh_slots st name = None"
    and r: "shard_assign rng ins sel name st = (st', slot)"
    and s: "s = unat (sh_next_shard st) mod n"
  shows "unat (shard_lower (of_nat n) (of_nat s)) \<le> unat slot"
    and "unat slot \<le> unat (shard_upper (of_nat n) (of_nat s))"
    and "sh_slots st' = (sh_slots st)(name \<mapsto> slot)"
    and "sh_next_shard st' = sh_next_shard st + 1" and "sh_num_shards st' = of_nat n"
proof -
  have sn: "s < n" using n(1) s by simp
  have un: "unat (of_nat n :: u64) = n" using n(2) by (simp add: unat_of_nat_u64)
  have shard: "sh_next_shard st mod of_nat n = (of_nat s :: u64)"
  proof -
    have "unat (sh_next_shard st mod of_nat n) = s" by (simp add: unat_mod_distrib un s)
    then show ?thesis by (metis of_nat_unat ucast_id)
  qed
  let ?lo = "shard_lower (of_nat n) (of_nat s)" and ?hi = "shard_upper (of_nat n) (of_nat s)"
  obtain q drawn where draw: "rng (sh_rng st) ?lo ?hi = (q, drawn)" by force
  have b: "?lo \<le> drawn" "drawn \<le> ?hi"
    using rng [rule_format, OF shard_lower_le_upper [OF n(1,2) sn], of "sh_rng st"] draw by simp_all
  have "unat ?hi < 65536"
    using shard_upper_nat [OF n(1,2) sn] range_bound [OF n(1), of "Suc s"] sn by simp
  then have "unat drawn < 2 ^ 16" using b(2) by (simp add: word_le_nat_alt)
  then have cast: "unat (ucast drawn :: 16 word) = unat drawn"
    by (simp add: unsigned_ucast_eq take_bit_nat_eq_self)
  have res: "slot = ucast drawn" "sh_slots st' = (sh_slots st)(name \<mapsto> slot)"
    "sh_next_shard st' = sh_next_shard st + 1" "sh_num_shards st' = of_nat n"
    using r new n(3) shard draw db by (auto simp: shard_assign_def Let_def)
  show "unat ?lo \<le> unat slot" "unat slot \<le> unat ?hi"
    using b cast res(1) by (simp_all add: word_le_nat_alt)
  show "sh_slots st' = (sh_slots st)(name \<mapsto> slot)" "sh_next_shard st' = sh_next_shard st + 1"
    "sh_num_shards st' = of_nat n"
    using res by blast+
qed

lemma shard_assigns_le:
  "sh_slots st \<subseteq>\<^sub>m sh_slots (foldl (\<lambda>st k. fst (shard_assign rng ins sel k st)) st names)"
  by (induction names arbitrary: st) (auto intro: map_le_trans shard_assign_le)

text \<open>
  New names are spread round-robin.  When the generator stays within the bounds it is given
  and the database returns what was just inserted, the \<open>i\<close>-th of a list of new, distinct names
  gets a slot in the range of shard \<open>(next + i) mod n\<close>.
\<close>

theorem new_names_round_robin:
  assumes "\<forall>r lo hi. lo \<le> hi \<longrightarrow> lo \<le> snd (rng r lo hi) \<and> snd (rng r lo hi) \<le> hi"
    and "\<forall>d k v. sel (ins d k v) k = Some v"
    and "configure_num_shards n = Inr w" and "sh_num_shards st = w"
    and "unat (sh_next_shard st) + length names < 2 ^ 64"
    and "distinct names" and "\<forall>k\<in>set names. sh_slots st k = None"
    and "i < length names"
  shows "\<exists>slot. sh_slots (foldl (\<lambda>st k. fst (shard_assign rng ins sel k st)) st names) (names ! i) = Some slot \<and>
    (let shard = of_nat ((unat (sh_next_shard st) + i) mod unat w) in
      unat (shard_lower w shard) \<le> unat slot \<and> unat slot \<le> unat (shard_upper w shard))"
proof -
  define m where "m = nat n"
  have m: "0 < m" "m \<le> 65536" "w = of_nat m"
    using assms(3) by (auto simp: configure_num_shards_def m_def split: if_splits)
  have u: "unat w = m" using m by (simp add: unat_of_nat_u64)
  show ?thesis
    using assms(4-8) unfolding u unfolding m(3)
  proof (induction names arbitrary: st i)
    case (Cons k ks)
    obtain st' slot where r: "shard_assign rng ins sel k st = (st', slot)" by force
    note new = shard_assign_new [OF assms(1,2) m(1,2) Cons.prems(1) _ r refl]
    have k: "sh_slots st k = None" using Cons.prems(4) by simp
    show ?case
    proof (cases i)
      case 0
      have "sh_slots st' k = Some slot" using new(3) [OF k] by simp
      then have "sh_slots (foldl (\<lambda>st k. fst (shard_assign rng ins sel k st)) st' ks) k = Some slot"
        using shard_assigns_le [of st' rng ins sel ks] by (metis map_le_def domI)
      then show ?thesis using new(1,2) [OF k] 0 r by (simp add: Let_def)
    next
      case (Suc j)
      have next': "unat (sh_next_shard st') = unat (sh_next_shard st) + 1"
        using new(4) [OF k] Cons.prems(2) by (simp add: unat_word_ariths)
      have "\<forall>x\<in>set ks. sh_slots st' x = None"
        using new(3) [OF k] Cons.prems(3,4) by auto
      then show ?thesis
        using Cons.IH [of st' j] new(5) [OF k] next' Cons.prems(2,3,5) Suc r by (simp add: Let_def)
    qed
  qed simp
qed

lemma ex_rng_bounds: "\<forall>r lo hi. lo \<le> hi \<longrightarrow> lo \<le> snd (ex_rng r lo hi) \<and> snd (ex_rng r lo hi) \<le> hi"
  by (simp add: ex_rng_def)

theorem new_names_round_robin_witness:
  "\<exists>slot. sh_slots (foldl (\<lambda>st k. fst (shard_assign ex_rng (\<lambda>d k v. d(k \<mapsto> v)) (\<lambda>d k. d k) k st))
      ex_shard [''a'', ''b'', ''c'']) ''b'' = Some slot \<and> 32768 \<le> unat slot \<and> unat slot \<le> 65535"
  using new_names_round_robin [of ex_rng "\<lambda>d k. d k" "\<lambda>d k v. d(k \<mapsto> v)" 2 2 ex_shard
      "[''a'', ''b'', ''c'']" 1, OF ex_rng_bounds]
  by (simp add: configure_num_shards_def ex_shard_def Let_def shard_lower_def shard_upper_def)

text \<open>
  The clamp bounds every nanosecond field of a time-series batch by 999999999, changes no
  timestamp that is already within the bound, keeps all seconds and counts, and is idempotent.
\<close>

theorem timestamp_clamp_bounds:
  "TimestampClamp_enrich (TimestampClamp_enrich b) = TimestampClamp_enrich b \<and>
   (case payload (TimestampClamp_enrich b) of
      PTimeSeries p' \<Rightarrow> (\<exists>p. payload b = PTimeSeries p \<and>
        list_all2 (\<lambda>f f'. list_all2 (\<lambda>t t'. epoch_seconds t' = epoch_seconds t \<and>
              nanoseconds t' \<le> 999999999 \<and>
              nanoseconds t' = (if nanoseconds t \<le> 999999999 then nanoseconds t else 999999999))
            (timestamps f) (timestamps f'))
          (frames p) (frames p'))
    | other \<Rightarrow> payload b = other)"
proof -
  have "clamp_entry (clamp_entry t) = clamp_entry t" for t
    by (simp add: clamp_entry_def)
  then show ?thesis
    by (auto simp: TimestampClamp_enrich_def map_frames_def clamp_entry_def list_all2_conv_all_nth
        split: BatchPayload.splits)
qed

text \<open>
  Whatever enrichers a writer is configured with, its chain changes only metadata and
  nanoseconds: the reader name, the root source, the kind of payload, the columns with their
  values, the enum columns and the seconds of the timestamps come out as they went in, so a
  chain cannot change how a batch is routed.
\<close>

theorem enricher_chain_keeps_data:
  assumes "run_chain (map (enrich env) kinds) b st = ((st', b'), ok)"
  shows "reader_name b' = reader_name b \<and> getRootSourceName b' = getRootSourceName b \<and>
    isTimeSeries (payload b') = isTimeSeries (payload b) \<and> same_data b b' \<and> ok"
proof -
  have "snd (run_chain (map (enrich env) kinds) b st)"
  proof (induction kinds arbitrary: b st)
    case (Cons k ks)
    obtain st1 b1 where "enrich env k b st = ((st1, b1), True)"
    proof (cases k)
      case (ShardSlot name)
      obtain fnm rng ins sel where env: "env = (fnm, rng, ins, sel)" by (cases env)
      obtain sh b1 where "ShardSlot_enrich rng ins sel b (st name) = (sh, b1)" by force
      then show ?thesis using that by (simp add: ShardSlot env)
    qed (cases env; auto intro: that)+
    then show ?case using Cons.IH by simp
  qed simp
  then have "ok" using assms by simp
  with writer_chain.keeps_reader [OF assms] writer_chain.keeps_root [OF assms]
    writer_chain.keeps_kind [OF assms] writer_chain.keeps_data [OF assms]
  show ?thesis by blast
qed

theorem enricher_chain_keeps_data_witness:
  "\<exists>st' b'. run_chain (map (enrich (\<lambda>p s. True, ex_rng, ex_insert, \<lambda>d k. d k))
       [StaticMetadata [(''site'', ''x'')], TimestampClamp, ShardSlot ''e'']) ex_two_columns (\<lambda>_. ex_shard)
       = ((st', b'), True) \<and> reader_name b' = ''r''"
proof -
  let ?c = "run_chain (map (enrich (\<lambda>p s. True, ex_rng, ex_insert, \<lambda>d k. d k))
       [StaticMetadata [(''site'', ''x'')], TimestampClamp, ShardSlot ''e''])"
  obtain st' b' ok where r: "?c ex_two_columns (\<lambda>_. ex_shard) = ((st', b'), ok)" by (metis prod.exhaust)
  show ?thesis
    using enricher_chain_keeps_data [OF r] r by (auto simp: ex_two_columns_def)
qed

lemma resolve_names_Inr:
  "resolve_names registry names seen result = Inr es \<longleftrightarrow>
     [] \<notin> set names \<and> distinct names \<and> set names \<inter> seen = {} \<and>
     (\<exists>es'. es = result @ es' \<and> map (map_of registry) names = map Some es')"
proof (induction names arbitrary: seen result)
  case (Cons n ns)
  show ?case
  proof (cases "n = [] \<or> n \<in> seen \<or> map_of registry n = None")
    case True
    then show ?thesis by (auto split: option.splits)
  next
    case False
    then obtain e where e: "map_of registry n = Some e" by auto
    have "resolve_names registry (n # ns) seen result = Inr es \<longleftrightarrow>
        resolve_names registry ns (insert n seen) (result @ [e]) = Inr es"
      using False e by simp
    also have "\<dots> \<longleftrightarrow> [] \<notin> set (n # ns) \<and> distinct (n # ns) \<and> set (n # ns) \<inter> seen = {} \<and>
        (\<exists>es'. es = result @ es' \<and> map (map_of registry) (n # ns) = map Some es')"
      unfolding Cons.IH using False e by (auto simp: Cons_eq_map_conv)
    finally show ?thesis .
  qed
qed auto

text \<open>
  Resolving a writer's list of enrichers succeeds exactly when no name is empty, none is
  repeated and all are in the registry, and then it gives the enrichers in the configured order.
\<close>

theorem resolve_exact:
  "resolve registry (Some names) = Inr es \<longleftrightarrow>
     [] \<notin> set names \<and> distinct names \<and> map (map_of registry) names = map Some es"
  by (simp add: resolve_def resolve_names_Inr)

end
