(* ===== verification/Queued_Writer.thy ===== *)
theory Queued_Writer
  imports Enrichers
begin

text \<open>
  The bounded multi-worker queue of every queued writer (\<open>src/writer/BaseQueuedWriter.cpp\<close>) as an
  interleaving of its pushers, its workers, \<open>stop\<close> and \<open>forceStop\<close>.  A step is one lock-protected
  section or one atomic operation.  \<open>key\<close> is the hook \<open>itemRoutingKey\<close> and \<open>hash\<close> is
  \<open>std::hash<std::string>\<close>.  Condition variables have sleeping callers and notifications; spurious
  wake-ups are left out.  A worker's wait is a guard, since \<open>push_back\<close> holds the channel's mutex.

  The fields \<open>ch_log\<close>, \<open>ch_done\<close>, \<open>ch_late\<close> and \<open>w_results\<close> are history: what was appended to the
  channel, what its worker processed, whether something was appended after the shutdown flag was
  set, and what the calls of \<open>push\<close> returned.
\<close>

section \<open>State\<close>

datatype 'i QWorker = QW_Loop | QW_Taken 'i | QW_Notify 'i | QW_Proc 'i | QW_Done

text \<open>
  Where a call of \<open>push\<close> stands: the items left, the current one first, and the flag \<open>enqueued\<close>.
\<close>

datatype 'i QPusher =
    QP_Idle
  | QP_Check "'i list" bool
  | QP_Blocking "'i list" bool
  | QP_Sleep "'i list" bool
  | QP_Passed "'i list" bool
  | QP_Route "'i list" bool
  | QP_At nat "'i list" bool
  | QP_Count "'i list" bool

datatype QStop = QS_Out | QS_Notify | QS_Shut nat | QS_Join | QS_Done

record 'i QChannel =
  ch_items :: "'i list"
  ch_shutdown :: bool
  ch_worker :: "'i QWorker"
  ch_log :: "'i list"
  ch_done :: "'i list"
  ch_late :: bool

record 'i QueuedWriter =
  w_capacity :: u64
  w_timed :: bool
  w_running :: bool
  w_force :: bool
  w_count :: u64
  w_next :: u64
  w_channels :: "'i QChannel list"
  w_cleared :: bool
  w_pushers :: "'i QPusher list"
  w_stop :: QStop
  w_results :: "(nat \<times> bool) list"

definition new_channel :: "'i QChannel" where
  "new_channel = \<lparr>ch_items = [], ch_shutdown = False, ch_worker = QW_Loop,
     ch_log = [], ch_done = [], ch_late = False\<rparr>"

text \<open>\<open>start\<close>: \<open>std::max(1, worker_count)\<close> channels; \<open>pushers\<close> is the number of threads that may push.\<close>

definition qw_start :: "int \<Rightarrow> int \<Rightarrow> int \<Rightarrow> nat \<Rightarrow> 'i QueuedWriter" where
  "qw_start capacity worker_count push_timeout_ms pushers =
     \<lparr>w_capacity = of_int capacity, w_timed = (push_timeout_ms > 0), w_running = True, w_force = False,
      w_count = 0, w_next = 0, w_channels = replicate (nat (max 1 worker_count)) new_channel,
      w_cleared = False, w_pushers = replicate pushers QP_Idle, w_stop = QS_Out, w_results = []\<rparr>"

section \<open>Helpers of the steps\<close>

definition set_pusher :: "nat \<Rightarrow> 'i QPusher \<Rightarrow> 'i QueuedWriter \<Rightarrow> 'i QueuedWriter" where
  "set_pusher p pc s = s\<lparr>w_pushers := (w_pushers s)[p := pc]\<rparr>"

definition set_channel :: "nat \<Rightarrow> 'i QChannel \<Rightarrow> 'i QueuedWriter \<Rightarrow> 'i QueuedWriter" where
  "set_channel c ch s = s\<lparr>w_channels := (w_channels s)[c := ch]\<rparr>"

definition push_returns :: "nat \<Rightarrow> bool \<Rightarrow> 'i QueuedWriter \<Rightarrow> 'i QueuedWriter" where
  "push_returns p r s = (set_pusher p QP_Idle s)\<lparr>w_results := w_results s @ [(p, r)]\<rparr>"

fun wake :: "'i QPusher \<Rightarrow> 'i QPusher" where
  "wake (QP_Sleep items enq) = QP_Check items enq"
| "wake pc = pc"

definition notify_all_pushers :: "'i QueuedWriter \<Rightarrow> 'i QueuedWriter" where
  "notify_all_pushers s = s\<lparr>w_pushers := map wake (w_pushers s)\<rparr>"

fun sleeping :: "'i QPusher \<Rightarrow> bool" where
  "sleeping (QP_Sleep items enq) = True"
| "sleeping _ = False"

text \<open>The next channel of an item, with the round-robin counter afterwards.\<close>

definition route :: "('i \<Rightarrow> string) \<Rightarrow> (string \<Rightarrow> u64) \<Rightarrow> 'i \<Rightarrow> 'i QueuedWriter \<Rightarrow> nat \<times> u64" where
  "route key hash item s =
     (let n = of_nat (length (w_channels s)) :: u64 in
      if key item = [] then (unat (w_next s mod n), w_next s + 1)
      else (unat (hash (key item) mod n), w_next s))"

section \<open>Steps\<close>

text \<open>\<open>push\<close>, from its running check to its return, by one of the pushing threads.\<close>

inductive qw_push_step ::
  "('i \<Rightarrow> string) \<Rightarrow> (string \<Rightarrow> u64) \<Rightarrow> 'i QueuedWriter \<Rightarrow> 'i QueuedWriter \<Rightarrow> bool"
  for key hash s where
  push_refused: "p < length (w_pushers s) \<Longrightarrow> w_pushers s ! p = QP_Idle \<Longrightarrow> \<not> w_running s \<Longrightarrow>
    qw_push_step key hash s (push_returns p False s)"
| push_nothing: "p < length (w_pushers s) \<Longrightarrow> w_pushers s ! p = QP_Idle \<Longrightarrow> w_running s \<Longrightarrow>
    qw_push_step key hash s (push_returns p r s)"
| push_begin: "p < length (w_pushers s) \<Longrightarrow> w_pushers s ! p = QP_Idle \<Longrightarrow> w_running s \<Longrightarrow> items \<noteq> [] \<Longrightarrow>
    qw_push_step key hash s (set_pusher p (QP_Check items False) s)"
| push_pass: "p < length (w_pushers s) \<Longrightarrow> w_pushers s ! p = QP_Check items enq \<Longrightarrow>
    w_count s < w_capacity s \<Longrightarrow>
    qw_push_step key hash s (set_pusher p (QP_Passed items enq) s)"
| push_stopped: "p < length (w_pushers s) \<Longrightarrow>
    w_pushers s ! p = QP_Check items enq \<or> w_pushers s ! p = QP_Passed items enq \<Longrightarrow>
    \<not> w_running s \<or> w_force s \<Longrightarrow>
    qw_push_step key hash s (push_returns p enq s)"
| push_wait: "p < length (w_pushers s) \<Longrightarrow> w_pushers s ! p = QP_Check items enq \<Longrightarrow>
    \<not> w_count s < w_capacity s \<Longrightarrow> w_running s \<Longrightarrow> \<not> w_force s \<Longrightarrow>
    qw_push_step key hash s (set_pusher p (QP_Blocking items enq) s)"
| push_block: "p < length (w_pushers s) \<Longrightarrow> w_pushers s ! p = QP_Blocking items enq \<Longrightarrow>
    qw_push_step key hash s (set_pusher p (QP_Sleep items enq) s)"
| push_timeout: "p < length (w_pushers s) \<Longrightarrow> w_pushers s ! p = QP_Sleep items enq \<Longrightarrow> w_timed s \<Longrightarrow>
    \<not> w_count s < w_capacity s \<Longrightarrow> w_running s \<Longrightarrow> \<not> w_force s \<Longrightarrow>
    qw_push_step key hash s (push_returns p False s)"
| push_timeout_pass: "p < length (w_pushers s) \<Longrightarrow> w_pushers s ! p = QP_Sleep items enq \<Longrightarrow> w_timed s \<Longrightarrow>
    qw_push_step key hash s (set_pusher p (QP_Check items enq) s)"
| push_go: "p < length (w_pushers s) \<Longrightarrow> w_pushers s ! p = QP_Passed items enq \<Longrightarrow>
    w_running s \<Longrightarrow> \<not> w_force s \<Longrightarrow>
    qw_push_step key hash s (set_pusher p (QP_Route items enq) s)"
| push_route: "p < length (w_pushers s) \<Longrightarrow> w_pushers s ! p = QP_Route (item # items) enq \<Longrightarrow>
    \<not> w_cleared s \<Longrightarrow> route key hash item s = (c, nxt) \<Longrightarrow>
    qw_push_step key hash s ((set_pusher p (QP_At c (item # items) enq) s)\<lparr>w_next := nxt\<rparr>)"
| push_append: "p < length (w_pushers s) \<Longrightarrow> w_pushers s ! p = QP_At c (item # items) enq \<Longrightarrow>
    \<not> w_cleared s \<Longrightarrow> c < length (w_channels s) \<Longrightarrow> ch = w_channels s ! c \<Longrightarrow>
    qw_push_step key hash s (set_pusher p (QP_Count items enq) (set_channel c
      (ch\<lparr>ch_items := ch_items ch @ [item], ch_log := ch_log ch @ [item],
          ch_late := ch_late ch \<or> ch_shutdown ch\<rparr>) s))"
| push_count: "p < length (w_pushers s) \<Longrightarrow> w_pushers s ! p = QP_Count items enq \<Longrightarrow> items \<noteq> [] \<Longrightarrow>
    qw_push_step key hash s ((set_pusher p (QP_Check items True) s)\<lparr>w_count := w_count s + 1\<rparr>)"
| push_last: "p < length (w_pushers s) \<Longrightarrow> w_pushers s ! p = QP_Count [] enq \<Longrightarrow>
    qw_push_step key hash s ((push_returns p True s)\<lparr>w_count := w_count s + 1\<rparr>)"

text \<open>\<open>workerLoop\<close> of one channel.\<close>

inductive qw_work_step ::
  "('i \<Rightarrow> string) \<Rightarrow> (string \<Rightarrow> u64) \<Rightarrow> 'i QueuedWriter \<Rightarrow> 'i QueuedWriter \<Rightarrow> bool"
  for key hash s where
  work_take: "c < length (w_channels s) \<Longrightarrow> ch = w_channels s ! c \<Longrightarrow> ch_worker ch = QW_Loop \<Longrightarrow>
    \<not> w_force s \<Longrightarrow> ch_items ch = item # items \<Longrightarrow>
    qw_work_step key hash s (set_channel c (ch\<lparr>ch_items := items, ch_worker := QW_Taken item\<rparr>) s)"
| work_exit: "c < length (w_channels s) \<Longrightarrow> ch = w_channels s ! c \<Longrightarrow> ch_worker ch = QW_Loop \<Longrightarrow>
    w_force s \<or> (ch_shutdown ch \<and> ch_items ch = []) \<Longrightarrow>
    qw_work_step key hash s (set_channel c (ch\<lparr>ch_worker := QW_Done\<rparr>) s)"
| work_count: "c < length (w_channels s) \<Longrightarrow> ch = w_channels s ! c \<Longrightarrow> ch_worker ch = QW_Taken item \<Longrightarrow>
    qw_work_step key hash s ((set_channel c (ch\<lparr>ch_worker := QW_Notify item\<rparr>) s)\<lparr>w_count := w_count s - 1\<rparr>)"
| work_notify: "c < length (w_channels s) \<Longrightarrow> ch = w_channels s ! c \<Longrightarrow> ch_worker ch = QW_Notify item \<Longrightarrow>
    p < length (w_pushers s) \<Longrightarrow> sleeping (w_pushers s ! p) \<Longrightarrow>
    qw_work_step key hash s (set_pusher p (wake (w_pushers s ! p))
      (set_channel c (ch\<lparr>ch_worker := QW_Proc item\<rparr>) s))"
| work_notify_none: "c < length (w_channels s) \<Longrightarrow> ch = w_channels s ! c \<Longrightarrow> ch_worker ch = QW_Notify item \<Longrightarrow>
    \<forall>pc\<in>set (w_pushers s). \<not> sleeping pc \<Longrightarrow>
    qw_work_step key hash s (set_channel c (ch\<lparr>ch_worker := QW_Proc item\<rparr>) s)"
| work_process: "c < length (w_channels s) \<Longrightarrow> ch = w_channels s ! c \<Longrightarrow> ch_worker ch = QW_Proc item \<Longrightarrow>
    qw_work_step key hash s (set_channel c (ch\<lparr>ch_worker := QW_Loop, ch_done := ch_done ch @ [item]\<rparr>) s)"

text \<open>\<open>stop\<close> and \<open>forceStop\<close>.\<close>

inductive qw_stop_step ::
  "('i \<Rightarrow> string) \<Rightarrow> (string \<Rightarrow> u64) \<Rightarrow> 'i QueuedWriter \<Rightarrow> 'i QueuedWriter \<Rightarrow> bool"
  for key hash s where
  stop: "w_stop s = QS_Out \<Longrightarrow> w_running s \<Longrightarrow>
    qw_stop_step key hash s (s\<lparr>w_running := False, w_stop := QS_Notify\<rparr>)"
| stop_notify: "w_stop s = QS_Notify \<Longrightarrow>
    qw_stop_step key hash s ((notify_all_pushers s)\<lparr>w_stop := QS_Shut 0\<rparr>)"
| stop_shut: "w_stop s = QS_Shut c \<Longrightarrow> c < length (w_channels s) \<Longrightarrow> ch = w_channels s ! c \<Longrightarrow>
    qw_stop_step key hash s ((set_channel c (ch\<lparr>ch_shutdown := True\<rparr>) s)\<lparr>w_stop := QS_Shut (Suc c)\<rparr>)"
| stop_all_shut: "w_stop s = QS_Shut c \<Longrightarrow> \<not> c < length (w_channels s) \<Longrightarrow>
    qw_stop_step key hash s (s\<lparr>w_stop := QS_Join\<rparr>)"
| stop_join: "w_stop s = QS_Join \<Longrightarrow> \<forall>ch\<in>set (w_channels s). ch_worker ch = QW_Done \<Longrightarrow>
    qw_stop_step key hash s (s\<lparr>w_cleared := True, w_stop := QS_Done\<rparr>)"
| force_stop: "qw_stop_step key hash s (notify_all_pushers (s\<lparr>w_force := True\<rparr>))"

text \<open>Any thread may take the next step.\<close>

inductive qw_step ::
  "('i \<Rightarrow> string) \<Rightarrow> (string \<Rightarrow> u64) \<Rightarrow> 'i QueuedWriter \<Rightarrow> 'i QueuedWriter \<Rightarrow> bool"
  for key hash s where
  push_step: "qw_push_step key hash s s' \<Longrightarrow> qw_step key hash s s'"
| work_step: "qw_work_step key hash s s' \<Longrightarrow> qw_step key hash s s'"
| stop_step: "qw_stop_step key hash s s' \<Longrightarrow> qw_step key hash s s'"

lemmas qw_step_push_refused = qw_push_step.push_refused [THEN qw_step.push_step]
lemmas qw_step_push_nothing = qw_push_step.push_nothing [THEN qw_step.push_step]
lemmas qw_step_push_begin = qw_push_step.push_begin [THEN qw_step.push_step]
lemmas qw_step_push_pass = qw_push_step.push_pass [THEN qw_step.push_step]
lemmas qw_step_push_stopped = qw_push_step.push_stopped [THEN qw_step.push_step]
lemmas qw_step_push_wait = qw_push_step.push_wait [THEN qw_step.push_step]
lemmas qw_step_push_block = qw_push_step.push_block [THEN qw_step.push_step]
lemmas qw_step_push_timeout = qw_push_step.push_timeout [THEN qw_step.push_step]
lemmas qw_step_push_timeout_pass = qw_push_step.push_timeout_pass [THEN qw_step.push_step]
lemmas qw_step_push_go = qw_push_step.push_go [THEN qw_step.push_step]
lemmas qw_step_push_route = qw_push_step.push_route [THEN qw_step.push_step]
lemmas qw_step_push_append = qw_push_step.push_append [THEN qw_step.push_step]
lemmas qw_step_push_count = qw_push_step.push_count [THEN qw_step.push_step]
lemmas qw_step_push_last = qw_push_step.push_last [THEN qw_step.push_step]
lemmas qw_step_work_take = qw_work_step.work_take [THEN qw_step.work_step]
lemmas qw_step_work_exit = qw_work_step.work_exit [THEN qw_step.work_step]
lemmas qw_step_work_count = qw_work_step.work_count [THEN qw_step.work_step]
lemmas qw_step_work_notify = qw_work_step.work_notify [THEN qw_step.work_step]
lemmas qw_step_work_notify_none = qw_work_step.work_notify_none [THEN qw_step.work_step]
lemmas qw_step_work_process = qw_work_step.work_process [THEN qw_step.work_step]
lemmas qw_step_stop = qw_stop_step.stop [THEN qw_step.stop_step]
lemmas qw_step_stop_notify = qw_stop_step.stop_notify [THEN qw_step.stop_step]
lemmas qw_step_stop_shut = qw_stop_step.stop_shut [THEN qw_step.stop_step]
lemmas qw_step_stop_all_shut = qw_stop_step.stop_all_shut [THEN qw_step.stop_step]
lemmas qw_step_stop_join = qw_stop_step.stop_join [THEN qw_step.stop_step]
lemmas qw_step_force_stop = qw_stop_step.force_stop [THEN qw_step.stop_step]

lemma qw_step_cases [consumes 1, case_names 
    push_refused push_nothing push_begin push_pass push_stopped push_wait push_block 
    push_timeout push_timeout_pass push_go push_route push_append push_count push_last 
    work_take work_exit work_count work_notify work_notify_none work_process stop 
    stop_notify stop_shut stop_all_shut stop_join force_stop]:
  assumes "qw_step key hash s s'"
    and push_refused: "\<And>p. s' = (push_returns p False s) \<Longrightarrow> p < length (w_pushers s) \<Longrightarrow>
      w_pushers s ! p = QP_Idle \<Longrightarrow> \<not> w_running s \<Longrightarrow> P"
    and push_nothing: "\<And>p r. s' = (push_returns p r s) \<Longrightarrow> p < length (w_pushers s) \<Longrightarrow>
      w_pushers s ! p = QP_Idle \<Longrightarrow> w_running s \<Longrightarrow> P"
    and push_begin: "\<And>p items. s' = (set_pusher p (QP_Check items False) s) \<Longrightarrow>
      p < length (w_pushers s) \<Longrightarrow> w_pushers s ! p = QP_Idle \<Longrightarrow> w_running s \<Longrightarrow> items \<noteq> [] \<Longrightarrow>
      P"
    and push_pass: "\<And>p items enq. s' = (set_pusher p (QP_Passed items enq) s) \<Longrightarrow>
      p < length (w_pushers s) \<Longrightarrow> w_pushers s ! p = QP_Check items enq \<Longrightarrow> w_count s < w_capacity s \<Longrightarrow>
      P"
    and push_stopped: "\<And>p items enq. s' = (push_returns p enq s) \<Longrightarrow> p < length (w_pushers s) \<Longrightarrow>
      w_pushers s ! p = QP_Check items enq \<or> w_pushers s ! p = QP_Passed items enq \<Longrightarrow>
      \<not> w_running s \<or> w_force s \<Longrightarrow> P"
    and push_wait: "\<And>p items enq. s' = (set_pusher p (QP_Blocking items enq) s) \<Longrightarrow>
      p < length (w_pushers s) \<Longrightarrow> w_pushers s ! p = QP_Check items enq \<Longrightarrow>
      \<not> w_count s < w_capacity s \<Longrightarrow> w_running s \<Longrightarrow> \<not> w_force s \<Longrightarrow> P"
    and push_block: "\<And>p items enq. s' = (set_pusher p (QP_Sleep items enq) s) \<Longrightarrow>
      p < length (w_pushers s) \<Longrightarrow> w_pushers s ! p = QP_Blocking items enq \<Longrightarrow> P"
    and push_timeout: "\<And>p items enq. s' = (push_returns p False s) \<Longrightarrow> p < length (w_pushers s) \<Longrightarrow>
      w_pushers s ! p = QP_Sleep items enq \<Longrightarrow> w_timed s \<Longrightarrow> \<not> w_count s < w_capacity s \<Longrightarrow>
      w_running s \<Longrightarrow> \<not> w_force s \<Longrightarrow> P"
    and push_timeout_pass: "\<And>p items enq. s' = (set_pusher p (QP_Check items enq) s) \<Longrightarrow>
      p < length (w_pushers s) \<Longrightarrow> w_pushers s ! p = QP_Sleep items enq \<Longrightarrow> w_timed s \<Longrightarrow> P"
    and push_go: "\<And>p items enq. s' = (set_pusher p (QP_Route items enq) s) \<Longrightarrow>
      p < length (w_pushers s) \<Longrightarrow> w_pushers s ! p = QP_Passed items enq \<Longrightarrow> w_running s \<Longrightarrow>
      \<not> w_force s \<Longrightarrow> P"
    and push_route: "\<And>p item items enq c nxt. s' = ((set_pusher p (QP_At c (item # items) enq) s)\<lparr>w_next := nxt\<rparr>) \<Longrightarrow>
      p < length (w_pushers s) \<Longrightarrow> w_pushers s ! p = QP_Route (item # items) enq \<Longrightarrow>
      \<not> w_cleared s \<Longrightarrow> route key hash item s = (c, nxt) \<Longrightarrow> P"
    and push_append: "\<And>p c item items enq ch. s' = (set_pusher p (QP_Count items enq) (set_channel c (ch\<lparr>ch_items := ch_items ch @ [item], ch_log := ch_log ch @ [item], ch_late := ch_late ch \<or> ch_shutdown ch\<rparr>) s)) \<Longrightarrow>
      p < length (w_pushers s) \<Longrightarrow> w_pushers s ! p = QP_At c (item # items) enq \<Longrightarrow>
      \<not> w_cleared s \<Longrightarrow> c < length (w_channels s) \<Longrightarrow> ch = w_channels s ! c \<Longrightarrow> P"
    and push_count: "\<And>p items enq. s' = ((set_pusher p (QP_Check items True) s)\<lparr>w_count := w_count s + 1\<rparr>) \<Longrightarrow>
      p < length (w_pushers s) \<Longrightarrow> w_pushers s ! p = QP_Count items enq \<Longrightarrow> items \<noteq> [] \<Longrightarrow> P"
    and push_last: "\<And>p enq. s' = ((push_returns p True s)\<lparr>w_count := w_count s + 1\<rparr>) \<Longrightarrow>
      p < length (w_pushers s) \<Longrightarrow> w_pushers s ! p = QP_Count [] enq \<Longrightarrow> P"
    and work_take: "\<And>c ch item items. s' = (set_channel c (ch\<lparr>ch_items := items, ch_worker := QW_Taken item\<rparr>) s) \<Longrightarrow>
      c < length (w_channels s) \<Longrightarrow> ch = w_channels s ! c \<Longrightarrow> ch_worker ch = QW_Loop \<Longrightarrow>
      \<not> w_force s \<Longrightarrow> ch_items ch = item # items \<Longrightarrow> P"
    and work_exit: "\<And>c ch. s' = (set_channel c (ch\<lparr>ch_worker := QW_Done\<rparr>) s) \<Longrightarrow>
      c < length (w_channels s) \<Longrightarrow> ch = w_channels s ! c \<Longrightarrow> ch_worker ch = QW_Loop \<Longrightarrow>
      w_force s \<or> (ch_shutdown ch \<and> ch_items ch = []) \<Longrightarrow> P"
    and work_count: "\<And>c ch item. s' = ((set_channel c (ch\<lparr>ch_worker := QW_Notify item\<rparr>) s)\<lparr>w_count := w_count s - 1\<rparr>) \<Longrightarrow>
      c < length (w_channels s) \<Longrightarrow> ch = w_channels s ! c \<Longrightarrow> ch_worker ch = QW_Taken item \<Longrightarrow> P"
    and work_notify: "\<And>c ch item p. s' = (set_pusher p (wake (w_pushers s ! p)) (set_channel c (ch\<lparr>ch_worker := QW_Proc item\<rparr>) s)) \<Longrightarrow>
      c < length (w_channels s) \<Longrightarrow> ch = w_channels s ! c \<Longrightarrow> ch_worker ch = QW_Notify item \<Longrightarrow>
      p < length (w_pushers s) \<Longrightarrow> sleeping (w_pushers s ! p) \<Longrightarrow> P"
    and work_notify_none: "\<And>c ch item. s' = (set_channel c (ch\<lparr>ch_worker := QW_Proc item\<rparr>) s) \<Longrightarrow>
      c < length (w_channels s) \<Longrightarrow> ch = w_channels s ! c \<Longrightarrow> ch_worker ch = QW_Notify item \<Longrightarrow>
      \<forall>pc\<in>set (w_pushers s). \<not> sleeping pc \<Longrightarrow> P"
    and work_process: "\<And>c ch item. s' = (set_channel c (ch\<lparr>ch_worker := QW_Loop, ch_done := ch_done ch @ [item]\<rparr>) s) \<Longrightarrow>
      c < length (w_channels s) \<Longrightarrow> ch = w_channels s ! c \<Longrightarrow> ch_worker ch = QW_Proc item \<Longrightarrow> P"
    and stop: "s' = (s\<lparr>w_running := False, w_stop := QS_Notify\<rparr>) \<Longrightarrow> w_stop s = QS_Out \<Longrightarrow>
      w_running s \<Longrightarrow> P"
    and stop_notify: "s' = ((notify_all_pushers s)\<lparr>w_stop := QS_Shut 0\<rparr>) \<Longrightarrow>
      w_stop s = QS_Notify \<Longrightarrow> P"
    and stop_shut: "\<And>c ch. s' = ((set_channel c (ch\<lparr>ch_shutdown := True\<rparr>) s)\<lparr>w_stop := QS_Shut (Suc c)\<rparr>) \<Longrightarrow>
      w_stop s = QS_Shut c \<Longrightarrow> c < length (w_channels s) \<Longrightarrow> ch = w_channels s ! c \<Longrightarrow> P"
    and stop_all_shut: "\<And>c. s' = (s\<lparr>w_stop := QS_Join\<rparr>) \<Longrightarrow> w_stop s = QS_Shut c \<Longrightarrow>
      \<not> c < length (w_channels s) \<Longrightarrow> P"
    and stop_join: "s' = (s\<lparr>w_cleared := True, w_stop := QS_Done\<rparr>) \<Longrightarrow>
      w_stop s = QS_Join \<Longrightarrow> \<forall>ch\<in>set (w_channels s). ch_worker ch = QW_Done \<Longrightarrow> P"
    and force_stop: "s' = (notify_all_pushers (s\<lparr>w_force := True\<rparr>)) \<Longrightarrow> P"
  shows P
  using assms(1)
proof (cases rule: qw_step.cases)
  case push_step
  then show ?thesis
    by (cases rule: qw_push_step.cases)
      ((rule push_refused; assumption), (rule push_nothing; assumption), (rule push_begin; assumption), (rule push_pass; assumption), (rule push_stopped; assumption), (rule push_wait; assumption), (rule push_block; assumption), (rule push_timeout; assumption), (rule push_timeout_pass; assumption), (rule push_go; assumption), (rule push_route; assumption), (rule push_append; assumption), (rule push_count; assumption), (rule push_last; assumption))
next
  case work_step
  then show ?thesis
    by (cases rule: qw_work_step.cases)
      ((rule work_take; assumption), (rule work_exit; assumption), (rule work_count; assumption), (rule work_notify; assumption), (rule work_notify_none; assumption), (rule work_process; assumption))
next
  case stop_step
  then show ?thesis
    by (cases rule: qw_stop_step.cases)
      ((rule stop; assumption), (rule stop_notify; assumption), (rule stop_shut; assumption), (rule stop_all_shut; assumption), (rule stop_join; assumption), (rule force_stop; assumption))
qed

inductive_cases qw_push_stepE: "qw_push_step key hash s s'"
inductive_cases qw_work_stepE: "qw_work_step key hash s s'"
inductive_cases qw_stop_stepE: "qw_stop_step key hash s s'"

section \<open>Invariants\<close>

fun in_flight :: "'i QWorker \<Rightarrow> 'i list" where
  "in_flight (QW_Taken x) = [x]"
| "in_flight (QW_Notify x) = [x]"
| "in_flight (QW_Proc x) = [x]"
| "in_flight _ = []"

fun is_taken :: "'i QWorker \<Rightarrow> bool" where
  "is_taken (QW_Taken x) = True"
| "is_taken _ = False"

text \<open>How many items a channel holds that the counter should show, as an integer.\<close>

definition ch_load :: "'i QChannel \<Rightarrow> int" where
  "ch_load ch = int (length (ch_items ch)) + (if is_taken (ch_worker ch) then 1 else 0)"

fun uncounted :: "'i QPusher \<Rightarrow> int" where
  "uncounted (QP_Count items enq) = 1"
| "uncounted _ = 0"

fun admitted :: "'i QPusher \<Rightarrow> int" where
  "admitted (QP_Passed items enq) = 1"
| "admitted (QP_Route items enq) = 1"
| "admitted (QP_At c items enq) = 1"
| "admitted _ = 0"

fun pc_ok :: "'i QPusher \<Rightarrow> bool" where
  "pc_ok (QP_Check items enq) \<longleftrightarrow> items \<noteq> []"
| "pc_ok (QP_Blocking items enq) \<longleftrightarrow> items \<noteq> []"
| "pc_ok (QP_Sleep items enq) \<longleftrightarrow> items \<noteq> []"
| "pc_ok (QP_Passed items enq) \<longleftrightarrow> items \<noteq> []"
| "pc_ok (QP_Route items enq) \<longleftrightarrow> items \<noteq> []"
| "pc_ok (QP_At c items enq) \<longleftrightarrow> items \<noteq> []"
| "pc_ok _ \<longleftrightarrow> True"

definition load :: "'i QueuedWriter \<Rightarrow> int" where
  "load s = sum_list (map ch_load (w_channels s))"

definition uncounteds :: "'i QueuedWriter \<Rightarrow> int" where
  "uncounteds s = sum_list (map uncounted (w_pushers s))"

definition admitteds :: "'i QueuedWriter \<Rightarrow> int" where
  "admitteds s = sum_list (map admitted (w_pushers s))"

definition chan_ok :: "bool \<Rightarrow> 'i QChannel \<Rightarrow> bool" where
  "chan_ok force ch \<longleftrightarrow>
     ch_log ch = ch_done ch @ in_flight (ch_worker ch) @ ch_items ch \<and>
     (ch_worker ch = QW_Done \<longrightarrow> \<not> force \<longrightarrow> ch_shutdown ch \<and> (ch_items ch = [] \<or> ch_late ch))"

definition qw_inv :: "u64 \<Rightarrow> nat \<Rightarrow> nat \<Rightarrow> 'i QueuedWriter \<Rightarrow> bool" where
  "qw_inv cap n p s \<longleftrightarrow>
     w_capacity s = cap \<and> length (w_channels s) = n \<and> length (w_pushers s) = p \<and>
     w_count s = of_int (load s - uncounteds s) \<and>
     load s + admitteds s \<le> uint cap + int p - 1 \<and>
     (\<forall>pc\<in>set (w_pushers s). pc_ok pc) \<and>
     (\<forall>ch\<in>set (w_channels s). chan_ok (w_force s) ch)"

named_theorems qw_simps \<open>fields of a writer after the helpers of the steps\<close>

lemma set_pusher_fields [qw_simps]:
  "w_pushers (set_pusher p pc s) = (w_pushers s)[p := pc]"
  "w_channels (set_pusher p pc s) = w_channels s" "w_count (set_pusher p pc s) = w_count s"
  "w_capacity (set_pusher p pc s) = w_capacity s" "w_running (set_pusher p pc s) = w_running s"
  "w_force (set_pusher p pc s) = w_force s" "w_stop (set_pusher p pc s) = w_stop s"
  "w_cleared (set_pusher p pc s) = w_cleared s" "w_next (set_pusher p pc s) = w_next s"
  by (simp_all add: set_pusher_def)

lemma set_channel_fields [qw_simps]:
  "w_channels (set_channel c ch s) = (w_channels s)[c := ch]"
  "w_pushers (set_channel c ch s) = w_pushers s" "w_count (set_channel c ch s) = w_count s"
  "w_capacity (set_channel c ch s) = w_capacity s" "w_running (set_channel c ch s) = w_running s"
  "w_force (set_channel c ch s) = w_force s" "w_stop (set_channel c ch s) = w_stop s"
  "w_cleared (set_channel c ch s) = w_cleared s" "w_next (set_channel c ch s) = w_next s"
  by (simp_all add: set_channel_def)

lemma push_returns_fields [qw_simps]:
  "w_pushers (push_returns p r s) = (w_pushers s)[p := QP_Idle]"
  "w_channels (push_returns p r s) = w_channels s" "w_count (push_returns p r s) = w_count s"
  "w_capacity (push_returns p r s) = w_capacity s" "w_running (push_returns p r s) = w_running s"
  "w_force (push_returns p r s) = w_force s" "w_stop (push_returns p r s) = w_stop s"
  "w_cleared (push_returns p r s) = w_cleared s" "w_next (push_returns p r s) = w_next s"
  by (simp_all add: push_returns_def qw_simps)

lemma notify_all_fields [qw_simps]:
  "w_pushers (notify_all_pushers s) = map wake (w_pushers s)"
  "w_channels (notify_all_pushers s) = w_channels s" "w_count (notify_all_pushers s) = w_count s"
  "w_capacity (notify_all_pushers s) = w_capacity s" "w_running (notify_all_pushers s) = w_running s"
  "w_force (notify_all_pushers s) = w_force s" "w_stop (notify_all_pushers s) = w_stop s"
  "w_cleared (notify_all_pushers s) = w_cleared s" "w_next (notify_all_pushers s) = w_next s"
  by (simp_all add: notify_all_pushers_def)

lemma wake_measures [simp]:
  "uncounted (wake pc) = uncounted pc" "admitted (wake pc) = admitted pc" "pc_ok (wake pc) = pc_ok pc"
  by (cases pc; simp)+

lemma sleeping_cases: "sleeping pc \<Longrightarrow> \<exists>items enq. pc = QP_Sleep items enq"
  by (cases pc) auto

lemma measure_bounds: "0 \<le> uncounted pc" "0 \<le> admitted pc" "uncounted pc + admitted pc \<le> 1" "0 \<le> ch_load ch"
  by (cases pc; simp add: ch_load_def)+

lemma load_nonneg: "0 \<le> load s"
  unfolding load_def by (rule sum_list_nonneg) (auto simp: measure_bounds)

lemma sums_nonneg: "0 \<le> uncounteds s" "0 \<le> admitteds s"
  unfolding uncounteds_def admitteds_def by (rule sum_list_nonneg, auto simp: measure_bounds)+

lemma pusher_sum_le:
  "p < length ps \<Longrightarrow> uncounted (ps ! p) + admitted (ps ! p) = 0 \<Longrightarrow>
     sum_list (map uncounted ps) + sum_list (map admitted ps) \<le> int (length ps) - 1"
proof (induction ps arbitrary: p)
  case (Cons pc ps)
  have all: "sum_list (map uncounted ps) + sum_list (map admitted ps) \<le> int (length ps)"
  proof (induction ps)
    case (Cons x xs)
    then show ?case using measure_bounds(3) [of x] by simp
  qed simp
  show ?case
  proof (cases p)
    case 0
    then show ?thesis using Cons.prems all by simp
  next
    case (Suc q)
    then have "sum_list (map uncounted ps) + sum_list (map admitted ps) \<le> int (length ps) - 1"
      using Cons.IH [of q] Cons.prems by simp
    then show ?thesis using measure_bounds(3) [of pc] by simp
  qed
qed simp

lemmas sum_update = sum_list_map_update

text \<open>The counter as the mathematical difference, when a pusher sees it below the capacity.\<close>

lemma count_below_capacity:
  assumes "of_int z < (cap :: u64)" "z < 2 ^ 64"
  shows "z < uint cap"
proof (cases "0 \<le> z")
  case True
  then have "uint (of_int z :: u64) = z" using assms(2) by (simp add: unsigned_of_int take_bit_int_eq_self)
  then show ?thesis using assms(1) by (simp add: word_less_def)
next
  case False
  then show ?thesis using uint_ge_0 [of cap] by linarith
qed

lemma pass_bound:
  assumes inv: "qw_inv cap n P s" and P: "uint cap + int P < 2 ^ 64"
    and p: "p < length (w_pushers s)" "uncounted (w_pushers s ! p) + admitted (w_pushers s ! p) = 0"
    and less: "w_count s < w_capacity s"
  shows "load s + admitteds s + 1 \<le> uint cap + int P - 1"
proof -
  have q: "load s + admitteds s \<le> uint cap + int P - 1" "w_count s = of_int (load s - uncounteds s)"
    "w_capacity s = cap" "length (w_pushers s) = P"
    using inv by (simp_all add: qw_inv_def)
  have "load s - uncounteds s < uint cap"
    using q P less sums_nonneg [of s] by (intro count_below_capacity) auto
  moreover have "uncounteds s + admitteds s \<le> int P - 1"
    using pusher_sum_le [OF p] q(4) by (simp add: uncounteds_def admitteds_def)
  ultimately show ?thesis by linarith
qed

lemma chan_ok_start: "chan_ok False new_channel"
  by (simp add: chan_ok_def new_channel_def)

lemma start_inv:
  "0 < P \<Longrightarrow> qw_inv (of_int capacity) (nat (max 1 workers)) P (qw_start capacity workers t P)"
proof -
  assume P: "0 < P"
  then have "0 < uint (of_int capacity :: u64) + int P"
    using uint_ge_0 [of "of_int capacity :: u64"] by linarith
  then show ?thesis
    using P chan_ok_start by (auto simp: qw_inv_def qw_start_def load_def uncounteds_def admitteds_def
      ch_load_def new_channel_def sum_list_replicate map_replicate_const simp del: replicate_Suc uint_ge_0
      split: if_splits)
qed

lemma chan_ok_force: "chan_ok f ch \<Longrightarrow> f \<longrightarrow> g \<Longrightarrow> chan_ok g ch"
  by (auto simp: chan_ok_def)

lemma set_update_all:
  "\<forall>x\<in>set xs. Q x \<Longrightarrow> Q y \<Longrightarrow> \<forall>x\<in>set (xs[i := y]). Q x"
  using set_update_subset_insert [of xs i y] by blast

lemma nth_all: "\<forall>x\<in>set xs. Q x \<Longrightarrow> i < length xs \<Longrightarrow> Q (xs ! i)"
  by simp

lemma pusher_inv:
  assumes "qw_inv cap n P s" "p < length (w_pushers s)" "pc_ok pc"
    and "s' = (set_pusher p pc s)\<lparr>w_count := k\<rparr>"
    and "uncounted pc + d = uncounted (w_pushers s ! p)" "k = w_count s + of_int d"
    and "admitted pc \<le> admitted (w_pushers s ! p) \<or> load s + admitteds s + 1 \<le> uint cap + int P - 1"
  shows "qw_inv cap n P s'"
proof -
  have a: "admitteds s' = admitteds s - admitted (w_pushers s ! p) + admitted pc"
    using assms(2,4) by (simp add: admitteds_def qw_simps sum_update)
  have u: "uncounteds s' = uncounteds s - d"
    using assms(2,4,5) by (simp add: uncounteds_def qw_simps sum_update)
  have l: "load s' = load s" using assms(4) by (simp add: load_def qw_simps)
  have "admitteds s' + load s \<le> uint cap + int P - 1"
    using assms(1,7) measure_bounds(2) [of "w_pushers s ! p"] measure_bounds(1,3) [of pc] a
    by (auto simp: qw_inv_def)
  moreover have "w_count s' = of_int (load s' - uncounteds s')"
    unfolding u l using assms(1,4,6) by (simp add: qw_inv_def)
  ultimately show ?thesis
    using assms(1,3,4) l by (auto simp: qw_inv_def qw_simps intro: set_update_all [rule_format])
qed

lemma channel_inv:
  assumes "qw_inv cap n P s" "c < length (w_channels s)" "chan_ok (w_force s) ch"
    and "s' = (set_channel c ch s)\<lparr>w_count := k\<rparr>"
    and "ch_load ch = ch_load (w_channels s ! c) - d" "0 \<le> d" "k = w_count s - of_int d"
  shows "qw_inv cap n P s'"
proof -
  have l: "load s' = load s - d" using assms(2,4,5) by (simp add: load_def qw_simps sum_update)
  have a: "admitteds s' = admitteds s" "uncounteds s' = uncounteds s"
    using assms(4) by (simp_all add: admitteds_def uncounteds_def qw_simps)
  have "w_count s' = of_int (load s' - uncounteds s')"
    unfolding l a using assms(1,4,7) by (simp add: qw_inv_def)
  then show ?thesis
    using assms(1,3,4,6) l a by (auto simp: qw_inv_def qw_simps intro: set_update_all [rule_format])
qed

lemma append_inv:
  assumes "qw_inv cap n P s" "p < length (w_pushers s)" "w_pushers s ! p = QP_At c (item # items) enq"
    and "c < length (w_channels s)" "chan_ok (w_force s) ch" "ch_load ch = ch_load (w_channels s ! c) + 1"
  shows "qw_inv cap n P (set_pusher p (QP_Count items enq) (set_channel c ch s))"
proof -
  let ?t = "set_pusher p (QP_Count items enq) (set_channel c ch s)"
  have m: "load ?t = load s + 1" "admitteds ?t = admitteds s - 1" "uncounteds ?t = uncounteds s + 1"
    using assms(2,3,4,6) by (simp_all add: load_def admitteds_def uncounteds_def qw_simps sum_update)
  have "w_count ?t = of_int (load ?t - uncounteds ?t)"
    unfolding m using assms(1) by (simp add: qw_inv_def qw_simps)
  moreover have "\<forall>x\<in>set (w_channels ?t). chan_ok (w_force ?t) x"
    unfolding qw_simps using assms(1,5) by (intro set_update_all) (simp_all add: qw_inv_def)
  moreover have "\<forall>x\<in>set (w_pushers ?t). pc_ok x"
    unfolding qw_simps using assms(1) by (intro set_update_all) (simp_all add: qw_inv_def)
  ultimately show ?thesis
    using assms(1) m(1,2) unfolding qw_inv_def by (simp add: qw_simps)
qed

lemma notify_all_inv:
  assumes "qw_inv cap n P s"
  shows "qw_inv cap n P (notify_all_pushers s)"
proof -
  have "load (notify_all_pushers s) = load s" "uncounteds (notify_all_pushers s) = uncounteds s"
    "admitteds (notify_all_pushers s) = admitteds s"
    by (simp_all add: load_def uncounteds_def admitteds_def qw_simps comp_def)
  then show ?thesis using assms by (auto simp: qw_inv_def qw_simps)
qed

lemma other_inv:
  assumes "qw_inv cap n P s" "w_capacity s' = w_capacity s" "w_channels s' = w_channels s"
    "w_pushers s' = w_pushers s" "w_count s' = w_count s" "w_force s \<longrightarrow> w_force s'"
  shows "qw_inv cap n P s'"
proof -
  have "\<forall>ch\<in>set (w_channels s'). chan_ok (w_force s') ch"
    using assms(1,3,6) chan_ok_force unfolding qw_inv_def by metis
  then show ?thesis using assms by (auto simp: qw_inv_def load_def uncounteds_def admitteds_def)
qed

lemma inv_chan: "qw_inv cap n P s \<Longrightarrow> c < length (w_channels s) \<Longrightarrow> chan_ok (w_force s) (w_channels s ! c)"
  by (simp add: qw_inv_def)

lemma inv_pc: "qw_inv cap n P s \<Longrightarrow> p < length (w_pushers s) \<Longrightarrow> pc_ok (w_pushers s ! p)"
  by (simp add: qw_inv_def)

lemma move_pusher:
  assumes "qw_inv cap n P s" "p < length (w_pushers s)" "pc_ok pc"
    and "uncounted pc = uncounted (w_pushers s ! p)" "admitted pc \<le> admitted (w_pushers s ! p)"
  shows "qw_inv cap n P (set_pusher p pc s)"
  by (rule pusher_inv [OF assms(1-3), where d = 0 and k = "w_count s"])
    (use assms in \<open>auto simp: set_pusher_def\<close>)

lemma returns_inv:
  assumes "qw_inv cap n P s" "p < length (w_pushers s)" "uncounted (w_pushers s ! p) = 0"
  shows "qw_inv cap n P (push_returns p r s)"
  by (rule other_inv [OF move_pusher [OF assms(1,2), of QP_Idle]])
    (use assms(3) measure_bounds(2) in \<open>auto simp: qw_simps\<close>)

lemma counted_inv:
  assumes "qw_inv cap n P s" "p < length (w_pushers s)" "w_pushers s ! p = QP_Count items enq"
    and "pc_ok pc" "uncounted pc = 0" "admitted pc = 0"
  shows "qw_inv cap n P ((set_pusher p pc s)\<lparr>w_count := w_count s + 1\<rparr>)"
  by (rule pusher_inv [OF assms(1,2,4), where d = 1 and k = "w_count s + 1"]) (use assms in auto)

lemma worker_inv:
  assumes "qw_inv cap n P s" "c < length (w_channels s)" "chan_ok (w_force s) ch"
    and "ch_load ch = ch_load (w_channels s ! c)"
  shows "qw_inv cap n P (set_channel c ch s)"
  by (rule channel_inv [OF assms(1-3), where d = 0 and k = "w_count s"])
    (use assms(4) in \<open>auto simp: set_channel_def\<close>)

lemma step_inv:
  assumes "qw_step key hash s s'" "qw_inv cap n P s" and P: "uint cap + int P < 2 ^ 64"
  shows "qw_inv cap n P s'"
  using assms(1)
proof (cases rule: qw_step_cases)
  case (push_refused p)
  then show ?thesis using returns_inv [OF assms(2)] by simp
next
  case (push_nothing p r)
  then show ?thesis using returns_inv [OF assms(2)] by simp
next
  case (push_begin p items)
  then show ?thesis using move_pusher [OF assms(2)] by simp
next
  case (push_pass p items enq)
  have "load s + admitteds s + 1 \<le> uint cap + int P - 1"
    using push_pass by (intro pass_bound [OF assms(2) P, of p]) simp_all
  moreover have "items \<noteq> []" using inv_pc [OF assms(2) push_pass(2)] push_pass(3) by simp
  ultimately show ?thesis
    unfolding push_pass(1)
    by (intro pusher_inv [OF assms(2) push_pass(2), where pc = "QP_Passed items enq" and d = 0 and
          k = "w_count s"]) (simp_all add: push_pass(3), simp_all add: set_pusher_def)
next
  case (push_stopped p items enq)
  then show ?thesis using returns_inv [OF assms(2)] by auto
next
  case (push_wait p items enq)
  then show ?thesis using move_pusher [OF assms(2)] inv_pc [OF assms(2), of p] by simp
next
  case (push_block p items enq)
  then show ?thesis using move_pusher [OF assms(2)] inv_pc [OF assms(2), of p] by simp
next
  case (push_timeout p items enq)
  then show ?thesis using returns_inv [OF assms(2)] by simp
next
  case (push_timeout_pass p items enq)
  then show ?thesis using move_pusher [OF assms(2)] inv_pc [OF assms(2), of p] by simp
next
  case (push_go p items enq)
  then show ?thesis using move_pusher [OF assms(2)] inv_pc [OF assms(2), of p] by simp
next
  case (push_route p item items enq c nxt)
  show ?thesis
    unfolding push_route(1)
    by (rule other_inv [OF move_pusher [OF assms(2) push_route(2), of "QP_At c (item # items) enq"]])
      (simp_all add: push_route(3) qw_simps)
next
  case (push_append p c item items enq ch)
  have "chan_ok (w_force s) ch" using inv_chan [OF assms(2) push_append(5)] push_append(6) by simp
  then show ?thesis
    unfolding push_append(1) using push_append
    by (intro append_inv [OF assms(2)]) (auto simp: chan_ok_def ch_load_def)
next
  case (push_count p items enq)
  then show ?thesis using counted_inv [OF assms(2), of p items enq "QP_Check items True"] by simp
next
  case (push_last p enq)
  have "qw_inv cap n P ((set_pusher p QP_Idle s)\<lparr>w_count := w_count s + 1\<rparr>)"
    using push_last by (intro counted_inv [OF assms(2)]) simp_all
  then show ?thesis unfolding push_last(1) by (rule other_inv) (simp_all add: qw_simps)
next
  case (work_take c ch item items)
  have "chan_ok (w_force s) ch" using inv_chan [OF assms(2) work_take(2)] work_take(3) by simp
  then show ?thesis
    unfolding work_take(1) using work_take
    by (intro worker_inv [OF assms(2)]) (auto simp: chan_ok_def ch_load_def)
next
  case (work_exit c ch)
  have "chan_ok (w_force s) ch" using inv_chan [OF assms(2) work_exit(2)] work_exit(3) by simp
  then show ?thesis
    unfolding work_exit(1) using work_exit
    by (intro worker_inv [OF assms(2)]) (auto simp: chan_ok_def ch_load_def)
next
  case (work_count c ch item)
  have "chan_ok (w_force s) ch" using inv_chan [OF assms(2) work_count(2)] work_count(3) by simp
  then show ?thesis
    using work_count
    by (intro channel_inv [OF assms(2) work_count(2), where d = 1 and k = "w_count s - 1" and
          ch = "ch\<lparr>ch_worker := QW_Notify item\<rparr>"]) (auto simp: chan_ok_def ch_load_def)
next
  case (work_notify c ch item p)
  let ?ch = "ch\<lparr>ch_worker := QW_Proc item\<rparr>"
  have "chan_ok (w_force s) ch" using inv_chan [OF assms(2) work_notify(2)] work_notify(3) by simp
  then have "qw_inv cap n P (set_channel c ?ch s)"
    using work_notify by (intro worker_inv [OF assms(2)]) (auto simp: chan_ok_def ch_load_def)
  from move_pusher [OF this, of p "wake (w_pushers s ! p)"] show ?thesis
    unfolding work_notify(1) using work_notify inv_pc [OF assms(2), of p] by (simp add: qw_simps)
next
  case (work_notify_none c ch item)
  have "chan_ok (w_force s) ch" using inv_chan [OF assms(2) work_notify_none(2)] work_notify_none(3) by simp
  then show ?thesis
    unfolding work_notify_none(1) using work_notify_none
    by (intro worker_inv [OF assms(2)]) (auto simp: chan_ok_def ch_load_def)
next
  case (work_process c ch item)
  have "chan_ok (w_force s) ch" using inv_chan [OF assms(2) work_process(2)] work_process(3) by simp
  then show ?thesis
    unfolding work_process(1) using work_process
    by (intro worker_inv [OF assms(2)]) (auto simp: chan_ok_def ch_load_def)
next
  case stop
  then show ?thesis by (intro other_inv [OF assms(2)]) simp_all
next
  case stop_notify
  show ?thesis unfolding stop_notify(1)
    by (rule other_inv [OF notify_all_inv [OF assms(2)]]) (simp_all add: qw_simps)
next
  case (stop_shut c ch)
  have "chan_ok (w_force s) ch" using inv_chan [OF assms(2) stop_shut(3)] stop_shut(4) by simp
  then have "qw_inv cap n P (set_channel c (ch\<lparr>ch_shutdown := True\<rparr>) s)"
    using stop_shut by (intro worker_inv [OF assms(2)]) (auto simp: chan_ok_def ch_load_def)
  then show ?thesis unfolding stop_shut(1) by (rule other_inv) (simp_all add: qw_simps)
next
  case (stop_all_shut c)
  then show ?thesis by (intro other_inv [OF assms(2)]) simp_all
next
  case stop_join
  then show ?thesis by (intro other_inv [OF assms(2)]) simp_all
next
  case force_stop
  have "qw_inv cap n P (s\<lparr>w_force := True\<rparr>)" by (rule other_inv [OF assms(2)]) simp_all
  then show ?thesis unfolding force_stop by (rule notify_all_inv)
qed

section \<open>Reachable states\<close>

definition qw_reachable ::
  "('i \<Rightarrow> string) \<Rightarrow> (string \<Rightarrow> u64) \<Rightarrow> int \<Rightarrow> int \<Rightarrow> int \<Rightarrow> nat \<Rightarrow> 'i QueuedWriter \<Rightarrow> bool" where
  "qw_reachable key hash capacity workers timeout P s \<longleftrightarrow>
     (qw_step key hash)\<^sup>*\<^sup>* (qw_start capacity workers timeout P) s"

lemma reachable_qw_inv:
  assumes "qw_reachable key hash capacity workers t P s" "0 < P" "0 \<le> capacity" "capacity < 2 ^ 63" "P < 2 ^ 63"
  shows "qw_inv (of_int capacity) (nat (max 1 workers)) P s"
proof -
  have cap: "uint (of_int capacity :: u64) = capacity"
    using assms(3,4) by (simp add: unsigned_of_int take_bit_int_eq_self)
  have b: "uint (of_int capacity :: u64) + int P < 2 ^ 64"
    using assms(4,5) unfolding cap by simp
  show ?thesis
    using assms(1) unfolding qw_reachable_def
    by (induction rule: rtranclp_induct) (auto intro: start_inv [OF assms(2)] step_inv [OF _ _ b])
qed

text \<open>Where an item with a routing key may be.\<close>

definition home :: "('i \<Rightarrow> string) \<Rightarrow> (string \<Rightarrow> u64) \<Rightarrow> nat \<Rightarrow> nat \<Rightarrow> 'i \<Rightarrow> bool" where
  "home key hash n c x \<longleftrightarrow> (key x \<noteq> [] \<longrightarrow> c = unat (hash (key x) mod of_nat n))"

fun at_ok :: "('i \<Rightarrow> string) \<Rightarrow> (string \<Rightarrow> u64) \<Rightarrow> nat \<Rightarrow> 'i QPusher \<Rightarrow> bool" where
  "at_ok key hash n (QP_At c (x # items) enq) \<longleftrightarrow> home key hash n c x"
| "at_ok key hash n _ \<longleftrightarrow> True"

definition routed :: "('i \<Rightarrow> string) \<Rightarrow> (string \<Rightarrow> u64) \<Rightarrow> 'i QueuedWriter \<Rightarrow> bool" where
  "routed key hash s \<longleftrightarrow>
     (\<forall>pc\<in>set (w_pushers s). at_ok key hash (length (w_channels s)) pc) \<and>
     (\<forall>c<length (w_channels s). \<forall>x\<in>set (ch_log (w_channels s ! c)). home key hash (length (w_channels s)) c x) \<and>
     (w_stop s = QS_Done \<longrightarrow> (\<forall>ch\<in>set (w_channels s). ch_worker ch = QW_Done))"

lemma at_ok_wake: "at_ok key hash n pc \<Longrightarrow> at_ok key hash n (wake pc)"
  by (cases pc) auto

lemma routed_pusher:
  assumes "routed key hash s" "at_ok key hash (length (w_channels s)) pc"
    and "w_pushers s' = (w_pushers s)[p := pc]" "w_channels s' = w_channels s" "w_stop s' = w_stop s"
  shows "routed key hash s'"
  using assms(1) set_update_all [of "w_pushers s" "at_ok key hash (length (w_channels s))" pc p] assms(2-)
  by (auto simp: routed_def)

lemma routed_channel:
  assumes "routed key hash s" "c < length (w_channels s)"
    and "\<forall>x\<in>set (ch_log ch). home key hash (length (w_channels s)) c x"
    and "ch_worker (w_channels s ! c) = QW_Done \<longrightarrow> ch_worker ch = QW_Done"
    and "w_channels s' = (w_channels s)[c := ch]" "w_pushers s' = w_pushers s"
    and "w_stop s' = w_stop s \<or> w_stop s' \<noteq> QS_Done"
  shows "routed key hash s'"
proof -
  have "\<forall>x\<in>set ((w_channels s)[c := ch]). ch_worker x = QW_Done" if "w_stop s' = QS_Done"
    using assms(1,2,4,7) that by (intro set_update_all) (auto simp: routed_def)
  then show ?thesis using assms by (auto simp: routed_def nth_list_update)
qed

lemma start_routed: "routed key hash (qw_start capacity workers t P)"
  by (auto simp: routed_def qw_start_def new_channel_def)

lemma step_routed:
  assumes "qw_step key hash s s'" "routed key hash s"
  shows "routed key hash s'"
  using assms(1)
proof (cases rule: qw_step_cases)
  case (push_route p item items enq c nxt)
  have "home key hash (length (w_channels s)) c item"
    using push_route(5) by (auto simp: home_def route_def Let_def)
  then show ?thesis
    unfolding push_route(1)
    by (intro routed_pusher [OF assms(2), of "QP_At c (item # items) enq" _ p]) (auto simp: qw_simps)
next
  case (push_append p c item items enq ch)
  have "at_ok key hash (length (w_channels s)) (w_pushers s ! p)"
    using assms(2) push_append(2) by (simp add: routed_def)
  then have home: "home key hash (length (w_channels s)) c item" using push_append(3) by simp
  let ?ch = "ch\<lparr>ch_items := ch_items ch @ [item], ch_log := ch_log ch @ [item],
      ch_late := ch_late ch \<or> ch_shutdown ch\<rparr>"
  have "routed key hash (set_channel c ?ch s)"
    using assms(2) push_append(5,6) home
    by (intro routed_channel [OF assms(2) push_append(5), of ?ch]) (auto simp: routed_def qw_simps)
  then show ?thesis
    unfolding push_append(1) by (rule routed_pusher [where p = p and pc = "QP_Count items enq"])
      (simp_all add: qw_simps)
next
  case (work_take c ch item items)
  then show ?thesis
    using assms(2) by (intro routed_channel [OF assms(2) work_take(2)]) (auto simp: routed_def qw_simps)
next
  case (work_exit c ch)
  show ?thesis
    unfolding work_exit(1)
    by (rule routed_channel [OF assms(2) work_exit(2), of "ch\<lparr>ch_worker := QW_Done\<rparr>"])
      (use assms(2) work_exit in \<open>auto simp: routed_def qw_simps\<close>)
next
  case (work_count c ch item)
  show ?thesis
    unfolding work_count(1)
    by (rule routed_channel [OF assms(2) work_count(2), of "ch\<lparr>ch_worker := QW_Notify item\<rparr>"])
      (use assms(2) work_count in \<open>auto simp: routed_def qw_simps\<close>)
next
  case (work_notify c ch item p)
  have "routed key hash (set_channel c (ch\<lparr>ch_worker := QW_Proc item\<rparr>) s)"
    by (rule routed_channel [OF assms(2) work_notify(2), of "ch\<lparr>ch_worker := QW_Proc item\<rparr>"])
      (use assms(2) work_notify in \<open>auto simp: routed_def qw_simps\<close>)
  then show ?thesis
    unfolding work_notify(1)
    by (rule routed_pusher [where p = p and pc = "wake (w_pushers s ! p)"])
      (use assms(2) work_notify in \<open>auto simp: routed_def qw_simps intro: at_ok_wake\<close>)
next
  case (work_notify_none c ch item)
  show ?thesis
    unfolding work_notify_none(1)
    by (rule routed_channel [OF assms(2) work_notify_none(2), of "ch\<lparr>ch_worker := QW_Proc item\<rparr>"])
      (use assms(2) work_notify_none in \<open>auto simp: routed_def qw_simps\<close>)
next
  case (work_process c ch item)
  show ?thesis
    unfolding work_process(1)
    by (rule routed_channel [OF assms(2) work_process(2),
          of "ch\<lparr>ch_worker := QW_Loop, ch_done := ch_done ch @ [item]\<rparr>"])
      (use assms(2) work_process in \<open>auto simp: routed_def qw_simps\<close>)
next
  case (stop_shut c ch)
  show ?thesis
    unfolding stop_shut(1)
    by (rule routed_channel [OF assms(2) stop_shut(3), of "ch\<lparr>ch_shutdown := True\<rparr>"])
      (use assms(2) stop_shut in \<open>auto simp: routed_def qw_simps\<close>)
qed (use assms(2) in \<open>auto simp: routed_def qw_simps intro: at_ok_wake
      dest!: subsetD [OF set_update_subset_insert]\<close>)

section \<open>Stopping terminates\<close>

fun stage :: "'i QWorker \<Rightarrow> nat" where
  "stage (QW_Taken x) = 4"
| "stage (QW_Notify x) = 3"
| "stage (QW_Proc x) = 2"
| "stage QW_Loop = 1"
| "stage QW_Done = 0"

definition ch_drain :: "'i QChannel \<Rightarrow> nat" where
  "ch_drain ch = 5 * length (ch_items ch) + stage (ch_worker ch)"

definition drain :: "'i QueuedWriter \<Rightarrow> nat" where
  "drain s = sum_list (map ch_drain (w_channels s))"

lemma drain_update:
  fixes f :: "'a \<Rightarrow> nat"
  shows "i < length xs \<Longrightarrow> f x < f (xs ! i) \<Longrightarrow> sum_list (map f (xs[i := x])) < sum_list (map f xs)"
proof (induction xs arbitrary: i)
  case (Cons y ys)
  then show ?case by (cases i) auto
qed simp

definition shut_ok :: "'i QueuedWriter \<Rightarrow> bool" where
  "shut_ok s \<longleftrightarrow>
     (\<forall>c. w_stop s = QS_Shut c \<longrightarrow> (\<forall>i<c. i < length (w_channels s) \<longrightarrow> ch_shutdown (w_channels s ! i))) \<and>
     (w_stop s = QS_Join \<longrightarrow> (\<forall>i<length (w_channels s). ch_shutdown (w_channels s ! i)))"

lemma step_shut_ok:
  assumes "qw_step key hash s s'" "shut_ok s"
  shows "shut_ok s'"
  using assms
proof (cases rule: qw_step_cases)
  case (stop_shut c ch)
  then show ?thesis using assms(2) by (auto simp: shut_ok_def qw_simps nth_list_update less_Suc_eq)
qed (auto simp: shut_ok_def qw_simps nth_list_update)

text \<open>A step of one worker that gets its channel closer to the end.\<close>

definition drains :: "('i \<Rightarrow> string) \<Rightarrow> (string \<Rightarrow> u64) \<Rightarrow> nat \<Rightarrow> 'i QueuedWriter \<Rightarrow> 'i QueuedWriter \<Rightarrow> bool" where
  "drains key hash c s s' \<longleftrightarrow> qw_step key hash s s' \<and> w_stop s' = w_stop s \<and>
     (\<exists>ch. w_channels s' = (w_channels s)[c := ch] \<and> ch_drain ch < ch_drain (w_channels s ! c))"

lemma drainsI:
  assumes "qw_step key hash s s'" "w_stop s' = w_stop s" "w_channels s' = (w_channels s)[c := ch]"
    "ch_drain ch < ch_drain (w_channels s ! c)"
  shows "\<exists>s'. drains key hash c s s'"
  using assms by (auto simp: drains_def)

lemma work_enabled:
  assumes "c < length (w_channels s)" "ch_worker (w_channels s ! c) \<noteq> QW_Done"
    and "ch_shutdown (w_channels s ! c)"
  shows "\<exists>s'. drains key hash c s s'"
proof (cases "ch_worker (w_channels s ! c)")
  case QW_Loop
  show ?thesis
  proof (cases "w_force s \<or> ch_items (w_channels s ! c) = []")
    case True
    then have "w_force s \<or> (ch_shutdown (w_channels s ! c) \<and> ch_items (w_channels s ! c) = [])"
      using assms(3) by blast
    from qw_step_work_exit [OF assms(1) refl QW_Loop this] show ?thesis
      by (rule drainsI) (simp_all add: qw_simps, simp add: ch_drain_def QW_Loop)
  next
    case False
    then obtain item items where i: "ch_items (w_channels s ! c) = item # items"
      by (cases "ch_items (w_channels s ! c)") auto
    have "\<not> w_force s" using False by blast
    from qw_step_work_take [OF assms(1) refl QW_Loop this i] show ?thesis
      by (rule drainsI) (simp_all add: qw_simps, simp add: ch_drain_def QW_Loop i)
  qed
next
  case (QW_Taken item)
  from qw_step_work_count [OF assms(1) refl QW_Taken] show ?thesis
    by (rule drainsI) (simp_all add: qw_simps, simp add: ch_drain_def QW_Taken)
next
  case (QW_Notify item)
  show ?thesis
  proof (cases "\<exists>p<length (w_pushers s). sleeping (w_pushers s ! p)")
    case True
    then obtain p where p: "p < length (w_pushers s)" "sleeping (w_pushers s ! p)" by blast
    from qw_step_work_notify [OF assms(1) refl QW_Notify p] show ?thesis
      by (rule drainsI) (simp_all add: qw_simps, simp add: ch_drain_def QW_Notify)
  next
    case False
    then have "\<forall>pc\<in>set (w_pushers s). \<not> sleeping pc" by (auto simp: in_set_conv_nth)
    from qw_step_work_notify_none [OF assms(1) refl QW_Notify this] show ?thesis
      by (rule drainsI) (simp_all add: qw_simps, simp add: ch_drain_def QW_Notify)
  qed
next
  case (QW_Proc item)
  from qw_step_work_process [OF assms(1) refl QW_Proc] show ?thesis
    by (rule drainsI) (simp_all add: qw_simps, simp add: ch_drain_def QW_Proc)
qed (use assms in simp)

lemma join_finishes:
  "w_stop s = QS_Join \<Longrightarrow> shut_ok s \<Longrightarrow> \<exists>s'. (qw_step key hash)\<^sup>*\<^sup>* s s' \<and> w_stop s' = QS_Done"
proof (induction "drain s" arbitrary: s rule: less_induct)
  case less
  show ?case
  proof (cases "\<forall>ch\<in>set (w_channels s). ch_worker ch = QW_Done")
    case True
    then have "qw_step key hash s (s\<lparr>w_cleared := True, w_stop := QS_Done\<rparr>)"
      by (rule qw_step_stop_join [OF less.prems(1)])
    then show ?thesis by (intro exI conjI, rule r_into_rtranclp) auto
  next
    case False
    then obtain c where c: "c < length (w_channels s)" "ch_worker (w_channels s ! c) \<noteq> QW_Done"
      by (auto simp: in_set_conv_nth)
    have "ch_shutdown (w_channels s ! c)" using less.prems c(1) by (simp add: shut_ok_def)
    then obtain s' where "drains key hash c s s'" using work_enabled [OF c] by blast
    then obtain ch' where s': "qw_step key hash s s'" "w_channels s' = (w_channels s)[c := ch']"
      "w_stop s' = w_stop s" "ch_drain ch' < ch_drain (w_channels s ! c)"
      by (auto simp: drains_def)
    have "drain s' < drain s" using c(1) s'(2,4) by (simp add: drain_def drain_update)
    moreover have "shut_ok s'" using step_shut_ok [OF s'(1) less.prems(2)] .
    ultimately obtain t where "(qw_step key hash)\<^sup>*\<^sup>* s' t" "w_stop t = QS_Done"
      using less.hyps [of s'] s'(3) less.prems(1) by auto
    then show ?thesis using s'(1) by (meson converse_rtranclp_into_rtranclp)
  qed
qed

lemma shut_finishes:
  "w_stop s = QS_Shut c \<Longrightarrow> shut_ok s \<Longrightarrow> \<exists>s'. (qw_step key hash)\<^sup>*\<^sup>* s s' \<and> w_stop s' = QS_Done"
proof (induction "length (w_channels s) - c" arbitrary: s c rule: less_induct)
  case less
  show ?case
  proof (cases "c < length (w_channels s)")
    case True
    let ?s = "(set_channel c ((w_channels s ! c)\<lparr>ch_shutdown := True\<rparr>) s)\<lparr>w_stop := QS_Shut (Suc c)\<rparr>"
    have step: "qw_step key hash s ?s" by (rule qw_step_stop_shut [OF less.prems(1) True refl])
    have "length (w_channels ?s) - Suc c < length (w_channels s) - c" "w_stop ?s = QS_Shut (Suc c)"
      using True by (auto simp: qw_simps)
    from less.hyps [OF this step_shut_ok [OF step less.prems(2)]]
    obtain t where "(qw_step key hash)\<^sup>*\<^sup>* ?s t" "w_stop t = QS_Done" by blast
    then show ?thesis using step by (meson converse_rtranclp_into_rtranclp)
  next
    case False
    have step: "qw_step key hash s (s\<lparr>w_stop := QS_Join\<rparr>)"
      by (rule qw_step_stop_all_shut [OF less.prems(1) False])
    obtain t where "(qw_step key hash)\<^sup>*\<^sup>* (s\<lparr>w_stop := QS_Join\<rparr>) t" "w_stop t = QS_Done"
      using join_finishes [OF _ step_shut_ok [OF step less.prems(2)]] by auto
    then show ?thesis using step by (meson converse_rtranclp_into_rtranclp)
  qed
qed

lemma start_shut_ok: "shut_ok (qw_start capacity workers t P)"
  by (simp add: shut_ok_def qw_start_def)

lemma reachable_invs:
  assumes "qw_reachable key hash capacity workers t P s"
  shows "routed key hash s" "shut_ok s"
proof -
  have r: "(qw_step key hash)\<^sup>*\<^sup>* (qw_start capacity workers t P) s"
    using assms by (simp add: qw_reachable_def)
  show "routed key hash s"
    using r by (induction rule: rtranclp_induct) (auto intro: start_routed step_routed)
  show "shut_ok s"
    using r by (induction rule: rtranclp_induct) (auto intro: start_shut_ok step_shut_ok)
qed

section \<open>Properties\<close>

text \<open>
  C5. The bound of the queue.  With \<open>P\<close> threads that may push at the same time, the channels never
  hold more than \<open>queue_capacity + P - 1\<close> items in total: the check and the append are not atomic,
  so the capacity alone is not a bound, but each other pusher can exceed it by one item only.  The
  64-bit counter is the number of items in the channels and in the hands of the workers minus the
  appends not yet counted, modulo \<open>2 ^ 64\<close>.
\<close>

theorem queue_bounded:
  assumes "qw_reachable key hash capacity workers timeout P s"
    and "0 < P" and "0 \<le> capacity" and "capacity < 2 ^ 63" and "P < 2 ^ 63"
  shows "int (sum_list (map (\<lambda>ch. length (ch_items ch)) (w_channels s))) \<le> capacity + int P - 1 \<and>
    w_count s = of_int (load s - uncounteds s)"
proof -
  have inv: "qw_inv (of_int capacity) (nat (max 1 workers)) P s"
    using reachable_qw_inv [OF assms] .
  have cap: "uint (of_int capacity :: u64) = capacity"
    using assms(3,4) by (simp add: unsigned_of_int take_bit_int_eq_self)
  have "int (sum_list (map (\<lambda>ch. length (ch_items ch)) chs)) \<le> sum_list (map ch_load chs)"
    for chs :: "'a QChannel list"
    by (induction chs) (auto simp: ch_load_def)
  from this [of "w_channels s"] show ?thesis
    using inv sums_nonneg(2) [of s] unfolding qw_inv_def cap load_def by auto
qed

definition ex_key :: "nat \<Rightarrow> string" where
  "ex_key x = []"

definition ex_hash :: "string \<Rightarrow> u64" where
  "ex_hash x = 0"

definition ex_writer :: "nat QChannel \<Rightarrow> u64 \<Rightarrow> u64 \<Rightarrow> nat QPusher list \<Rightarrow> nat QueuedWriter" where
  "ex_writer ch n nxt ps = \<lparr>w_capacity = 1, w_timed = False, w_running = True, w_force = False,
     w_count = n, w_next = nxt, w_channels = [ch], w_cleared = False, w_pushers = ps,
     w_stop = QS_Out, w_results = []\<rparr>"

lemma ex_start: "qw_start 1 1 0 2 = ex_writer new_channel 0 0 [QP_Idle, QP_Idle]"
  by (simp add: qw_start_def ex_writer_def numeral_2_eq_2)

lemma ex_start1: "qw_start 1 1 0 1 = ex_writer new_channel 0 0 [QP_Idle]"
  by (simp add: qw_start_def ex_writer_def)

lemma qw_start_reachable: "qw_reachable key hash capacity workers t P (qw_start capacity workers t P)"
  by (simp add: qw_reachable_def)

lemma qw_reachable_step:
  "qw_reachable key hash capacity workers t P s \<Longrightarrow> qw_step key hash s s' \<Longrightarrow> s' = u \<Longrightarrow>
     qw_reachable key hash capacity workers t P u"
  unfolding qw_reachable_def by (auto intro: rtranclp.rtrancl_into_rtrancl)

lemmas ex_writer_simps =
  ex_writer_def new_channel_def set_pusher_def set_channel_def push_returns_def notify_all_pushers_def
  route_def ex_key_def ex_hash_def Let_def

lemma ex_appended:
  "qw_reachable ex_key ex_hash 1 1 0 2 (ex_writer
     (new_channel\<lparr>ch_items := [7], ch_log := [7]\<rparr>) 0 1 [QP_Count [] False, QP_Check [8] False])"
proof -
  let ?R = "qw_reachable ex_key ex_hash 1 1 0 2" and ?c = "QP_Check [8] False :: nat QPusher"
  have 0: "?R (ex_writer new_channel 0 0 [QP_Idle, QP_Idle])"
    using qw_start_reachable [of ex_key ex_hash 1 1 0 2] by (simp only: ex_start)
  have 1: "?R (ex_writer new_channel 0 0 [QP_Idle, ?c])"
    by (rule qw_reachable_step [OF 0 qw_step_push_begin [where p = 1 and items = "[8]"]])
      (simp_all add: ex_writer_simps)
  have 2: "?R (ex_writer new_channel 0 0 [QP_Check [7] False, ?c])"
    by (rule qw_reachable_step [OF 1 qw_step_push_begin [where p = 0 and items = "[7]"]])
      (simp_all add: ex_writer_simps)
  have 3: "?R (ex_writer new_channel 0 0 [QP_Passed [7] False, ?c])"
    by (rule qw_reachable_step [OF 2 qw_step_push_pass [where p = 0 and items = "[7]" and enq = False]])
      (simp_all add: ex_writer_simps)
  have 4: "?R (ex_writer new_channel 0 0 [QP_Route [7] False, ?c])"
    by (rule qw_reachable_step [OF 3 qw_step_push_go [where p = 0 and items = "[7]" and enq = False]])
      (simp_all add: ex_writer_simps)
  have 5: "?R (ex_writer new_channel 0 1 [QP_At 0 [7] False, ?c])"
    by (rule qw_reachable_step [OF 4 qw_step_push_route [where p = 0 and item = 7 and items = "[]" and
            enq = False and c = 0 and nxt = 1]]) (simp_all add: ex_writer_simps)
  show ?thesis
    by (rule qw_reachable_step [OF 5 qw_step_push_append [where p = 0 and item = 7 and items = "[]" and
            enq = False and c = 0 and ch = new_channel]]) (simp_all add: ex_writer_simps)
qed

theorem queue_bounded_witness:
  "\<exists>s. qw_reachable ex_key ex_hash 1 1 0 2 s \<and> sum_list (map (\<lambda>ch. length (ch_items ch)) (w_channels s)) = 1 \<and>
     int (sum_list (map (\<lambda>ch. length (ch_items ch)) (w_channels s))) \<le> 2"
  using queue_bounded [OF ex_appended] ex_appended
  by (intro exI [of _ "ex_writer (new_channel\<lparr>ch_items := [7], ch_log := [7]\<rparr>) 0 1
        [QP_Count [] False, QP_Check [8] False]"]) (simp add: ex_writer_def)

text \<open>Order.  What a worker has processed is, at any moment, a prefix of what was appended to its
  channel, in the same order; and all items with one non-empty routing key go to one channel, so
  they are processed in the order in which they were appended.
\<close>

theorem channels_are_fifo:
  assumes "qw_reachable key hash capacity workers timeout P s"
    and "0 < P" and "0 \<le> capacity" and "capacity < 2 ^ 63" and "P < 2 ^ 63"
    and "c < length (w_channels s)"
  shows "(\<exists>rest. ch_log (w_channels s ! c) = ch_done (w_channels s ! c) @ rest) \<and>
    (\<forall>x\<in>set (ch_log (w_channels s ! c)). key x \<noteq> [] \<longrightarrow>
       c = unat (hash (key x) mod of_nat (length (w_channels s))))"
  using reachable_qw_inv [OF assms(1-5)] reachable_invs(1) [OF assms(1)] assms(6)
  by (auto simp: qw_inv_def chan_ok_def routed_def home_def)

theorem channels_are_fifo_witness:
  "\<exists>s. qw_reachable ex_key ex_hash 1 1 0 2 s \<and>
     (\<exists>rest. [7] = ch_log (w_channels s ! 0) \<and> ch_log (w_channels s ! 0) = ch_done (w_channels s ! 0) @ rest)"
  using channels_are_fifo [OF ex_appended, of 0] ex_appended
  by (intro exI [of _ "ex_writer (new_channel\<lparr>ch_items := [7], ch_log := [7]\<rparr>) 0 1
        [QP_Count [] False, QP_Check [8] False]"]) (simp add: ex_writer_def new_channel_def)

text \<open>What was in a channel stays there or has been processed when its worker leaves unforced.\<close>

definition saved :: "'i list \<Rightarrow> nat \<Rightarrow> 'i QueuedWriter \<Rightarrow> bool" where
  "saved xs c s \<longleftrightarrow> (\<exists>rest. ch_log (w_channels s ! c) = xs @ rest) \<and>
     (ch_worker (w_channels s ! c) = QW_Done \<longrightarrow> \<not> w_force s \<longrightarrow> (\<exists>rest. ch_done (w_channels s ! c) = xs @ rest))"

lemma step_saved:
  assumes "qw_step key hash s s'" "saved xs c s" "c < length (w_channels s)"
    and "chan_ok (w_force s) (w_channels s ! c)"
  shows "saved xs c s'"
  using assms(1)
proof (cases rule: qw_step_cases)
  case (push_append p d item items enq ch)
  then show ?thesis using assms(2,3) by (cases "d = c") (auto simp: saved_def qw_simps)
next
  case (work_exit d ch)
  then show ?thesis using assms(2-4)
    by (cases "d = c") (auto simp: saved_def qw_simps chan_ok_def)
qed (use assms(2,3) in \<open>auto simp: saved_def qw_simps nth_list_update\<close>)

lemma path_saved:
  assumes "(qw_step key hash)\<^sup>*\<^sup>* s s'" and "qw_reachable key hash capacity workers timeout P s"
    and "0 < P" "0 \<le> capacity" "capacity < 2 ^ 63" "P < 2 ^ 63"
    and "c < length (w_channels s)" "saved xs c s"
  shows "saved xs c s' \<and> c < length (w_channels s') \<and> qw_reachable key hash capacity workers timeout P s'"
  using assms(1)
proof (induction rule: rtranclp_induct)
  case (step t u)
  have inv: "qw_inv (of_int capacity) (nat (max 1 workers)) P t"
    using step.IH reachable_qw_inv [OF _ assms(3-6)] by blast
  have u: "qw_reachable key hash capacity workers timeout P u"
    using step.IH step.hyps(2) unfolding qw_reachable_def by (meson rtranclp.rtrancl_into_rtrancl)
  have "length (w_channels u) = length (w_channels t)"
    using inv reachable_qw_inv [OF u assms(3-6)] by (simp add: qw_inv_def)
  then show ?case
    using u step_saved [OF step.hyps(2)] step.IH inv_chan [OF inv] by simp
qed (use assms in auto)

text \<open>
  C29. A graceful stop drains what was in a channel in time.  Take any moment at which a channel's
  shutdown flag is not set, and any later moment at which \<open>stop\<close> has finished and no stop was forced:
  all that was appended to the channel up to the first has been processed by the second, first and in
  order.  If moreover nothing was appended to the channel after its flag was set, all that was ever
  appended to it has been processed and it is empty.  (An append after the flag, by a pusher that had
  passed the running check, can be lost: \<open>accepted_item_can_be_lost\<close>.)
\<close>

theorem graceful_stop_drains:
  assumes "qw_reachable key hash capacity workers timeout P s"
    and "0 < P" and "0 \<le> capacity" and "capacity < 2 ^ 63" and "P < 2 ^ 63"
    and "c < length (w_channels s)" and "\<not> ch_shutdown (w_channels s ! c)"
    and "(qw_step key hash)\<^sup>*\<^sup>* s s'" and "w_stop s' = QS_Done" and "\<not> w_force s'"
  shows "(\<exists>rest. ch_done (w_channels s' ! c) = ch_log (w_channels s ! c) @ rest) \<and>
    (\<not> ch_late (w_channels s' ! c) \<longrightarrow>
       ch_done (w_channels s' ! c) = ch_log (w_channels s' ! c) \<and> ch_items (w_channels s' ! c) = [])"
proof -
  have "chan_ok (w_force s) (w_channels s ! c)" using inv_chan [OF reachable_qw_inv [OF assms(1-5)] assms(6)] .
  then have "saved (ch_log (w_channels s ! c)) c s" using assms(7) by (simp add: saved_def chan_ok_def)
  note p = path_saved [OF assms(8,1-6) this]
  have "chan_ok (w_force s') (w_channels s' ! c)" using inv_chan [OF reachable_qw_inv [OF _ assms(2-5)]] p by blast
  moreover have "ch_worker (w_channels s' ! c) = QW_Done"
    using p reachable_invs(1) [of key hash capacity workers timeout P s'] assms(9) by (auto simp: routed_def)
  ultimately show ?thesis using p assms(10) by (auto simp: saved_def chan_ok_def)
qed

lemma qw_path_step: "r\<^sup>*\<^sup>* s t \<Longrightarrow> r t u \<Longrightarrow> u = v \<Longrightarrow> r\<^sup>*\<^sup>* s v"
  by (auto intro: rtranclp.rtrancl_into_rtrancl)

lemma ex_drained:
  "(qw_step ex_key ex_hash)\<^sup>*\<^sup>*
     (ex_writer (new_channel\<lparr>ch_items := [7], ch_log := [7]\<rparr>) 0 1 [QP_Count [] False, QP_Check [8] False])
     ((ex_writer (new_channel\<lparr>ch_log := [7], ch_done := [7], ch_shutdown := True, ch_worker := QW_Done\<rparr>)
        (- 1) 1 [QP_Count [] False, QP_Check [8] False])\<lparr>w_running := False, w_stop := QS_Done, w_cleared := True\<rparr>)"
proof -
  let ?ps = "[QP_Count [] False, QP_Check [8] False] :: nat QPusher list"
  let ?s = "ex_writer (new_channel\<lparr>ch_items := [7], ch_log := [7]\<rparr>) 0 1 ?ps"
  let ?P = "(qw_step ex_key ex_hash)\<^sup>*\<^sup>* ?s"
  let ?ch = "\<lambda>w. new_channel\<lparr>ch_log := [7 :: nat], ch_worker := w\<rparr>"
  let ?d = "new_channel\<lparr>ch_log := [7 :: nat], ch_done := [7]\<rparr>"
  let ?sh = "?d\<lparr>ch_shutdown := True\<rparr>"
  let ?t = "\<lambda>ch q. (ex_writer ch (- 1) 1 ?ps)\<lparr>w_running := False, w_stop := q\<rparr>"
  have 0: "?P ?s" by (rule rtranclp.rtrancl_refl)
  have 1: "?P (ex_writer (?ch (QW_Taken 7)) 0 1 ?ps)"
    by (rule qw_path_step [OF 0 qw_step_work_take [where c = 0 and item = 7 and items = "[]" and
            ch = "new_channel\<lparr>ch_items := [7], ch_log := [7]\<rparr>"]]) (simp_all add: ex_writer_simps)
  have 2: "?P (ex_writer (?ch (QW_Notify 7)) (- 1) 1 ?ps)"
    by (rule qw_path_step [OF 1 qw_step_work_count [where c = 0 and item = 7 and ch = "?ch (QW_Taken 7)"]])
      (simp_all add: ex_writer_simps)
  have 3: "?P (ex_writer (?ch (QW_Proc 7)) (- 1) 1 ?ps)"
    by (rule qw_path_step [OF 2 qw_step_work_notify_none [where c = 0 and item = 7 and ch = "?ch (QW_Notify 7)"]])
      (simp_all add: ex_writer_simps)
  have 4: "?P (ex_writer ?d (- 1) 1 ?ps)"
    by (rule qw_path_step [OF 3 qw_step_work_process [where c = 0 and item = 7 and ch = "?ch (QW_Proc 7)"]])
      (simp_all add: ex_writer_simps)
  have 5: "?P (?t ?d QS_Notify)"
    by (rule qw_path_step [OF 4 qw_step_stop]) (simp_all add: ex_writer_simps)
  have 6: "?P (?t ?d (QS_Shut 0))"
    by (rule qw_path_step [OF 5 qw_step_stop_notify]) (simp_all add: ex_writer_simps)
  have 7: "?P (?t ?sh (QS_Shut 1))"
    by (rule qw_path_step [OF 6 qw_step_stop_shut [where c = 0 and ch = ?d]]) (simp_all add: ex_writer_simps)
  have 8: "?P (?t ?sh QS_Join)"
    by (rule qw_path_step [OF 7 qw_step_stop_all_shut [where c = 1]]) (simp_all add: ex_writer_simps)
  have 9: "?P (?t (?sh\<lparr>ch_worker := QW_Done\<rparr>) QS_Join)"
    by (rule qw_path_step [OF 8 qw_step_work_exit [where c = 0 and ch = ?sh]]) (simp_all add: ex_writer_simps)
  show ?thesis
    by (rule qw_path_step [OF 9 qw_step_stop_join]) (simp_all add: ex_writer_simps)
qed

theorem graceful_stop_drains_witness:
  "\<exists>s s'. qw_reachable ex_key ex_hash 1 1 0 2 s \<and> map ch_items (w_channels s) = [[7]] \<and>
     (qw_step ex_key ex_hash)\<^sup>*\<^sup>* s s' \<and> w_stop s' = QS_Done \<and> \<not> w_force s' \<and>
     (\<exists>rest. ch_done (w_channels s' ! 0) = [7] @ rest) \<and> ch_items (w_channels s' ! 0) = []"
proof -
  let ?s = "ex_writer (new_channel\<lparr>ch_items := [7], ch_log := [7]\<rparr>) 0 1 [QP_Count [] False, QP_Check [8] False]"
  let ?t = "(ex_writer (new_channel\<lparr>ch_log := [7], ch_done := [7], ch_shutdown := True, ch_worker := QW_Done\<rparr>)
        (- 1) 1 [QP_Count [] False, QP_Check [8] False])\<lparr>w_running := False, w_stop := QS_Done, w_cleared := True\<rparr>"
  have c: "0 < length (w_channels ?s)" "\<not> ch_shutdown (w_channels ?s ! 0)" "w_stop ?t = QS_Done" "\<not> w_force ?t"
    by (simp_all add: ex_writer_def new_channel_def)
  have "(\<exists>rest. ch_done (w_channels ?t ! 0) = ch_log (w_channels ?s ! 0) @ rest) \<and>
    (\<not> ch_late (w_channels ?t ! 0) \<longrightarrow>
       ch_done (w_channels ?t ! 0) = ch_log (w_channels ?t ! 0) \<and> ch_items (w_channels ?t ! 0) = [])"
    by (rule graceful_stop_drains [OF ex_appended _ _ _ _ c(1,2) ex_drained c(3,4)]) simp_all
  then show ?thesis
    by (intro exI [of _ ?s] exI [of _ ?t] conjI ex_appended ex_drained c(3,4))
      (auto simp: ex_writer_def new_channel_def)
qed

text \<open>
  Stopping can always complete: from every reachable state in which \<open>stop\<close> is under way there
  is a finite sequence of steps of \<open>stop\<close> and the workers that finishes it, whatever the queues
  hold and wherever the pushers are.
\<close>

theorem stop_can_complete:
  assumes "qw_reachable key hash capacity workers timeout P s" and "w_stop s \<noteq> QS_Out"
  shows "\<exists>s'. (qw_step key hash)\<^sup>*\<^sup>* s s' \<and> w_stop s' = QS_Done"
proof (cases "w_stop s")
  case QS_Notify
  have step: "qw_step key hash s ((notify_all_pushers s)\<lparr>w_stop := QS_Shut 0\<rparr>)"
    by (rule qw_step_stop_notify [OF QS_Notify])
  from shut_finishes [OF _ step_shut_ok [OF step reachable_invs(2) [OF assms(1)]], of 0 key hash]
  obtain t where "(qw_step key hash)\<^sup>*\<^sup>* ((notify_all_pushers s)\<lparr>w_stop := QS_Shut 0\<rparr>) t" "w_stop t = QS_Done"
    by auto
  then show ?thesis using step by (meson converse_rtranclp_into_rtranclp)
next
  case (QS_Shut c)
  then show ?thesis using shut_finishes [OF QS_Shut reachable_invs(2) [OF assms(1)]] by blast
next
  case QS_Join
  then show ?thesis using join_finishes [OF QS_Join reachable_invs(2) [OF assms(1)]] by blast
qed (use assms in auto)

theorem stop_can_complete_witness:
  "\<exists>s s'. qw_reachable ex_key ex_hash 1 1 0 1 s \<and> w_stop s = QS_Notify \<and>
     (qw_step ex_key ex_hash)\<^sup>*\<^sup>* s s' \<and> w_stop s' = QS_Done"
proof -
  let ?s = "(ex_writer new_channel 0 0 [QP_Idle])\<lparr>w_running := False, w_stop := QS_Notify\<rparr>"
  have "qw_reachable ex_key ex_hash 1 1 0 1 (ex_writer new_channel 0 0 [QP_Idle])"
    using qw_start_reachable [of ex_key ex_hash 1 1 0 1] by (simp only: ex_start1)
  then have r: "qw_reachable ex_key ex_hash 1 1 0 1 ?s"
    by (rule qw_reachable_step [OF _ qw_step_stop]) (simp_all add: ex_writer_simps)
  have "w_stop ?s \<noteq> QS_Out" by simp
  from stop_can_complete [OF r this] obtain s' where
    "(qw_step ex_key ex_hash)\<^sup>*\<^sup>* ?s s'" "w_stop s' = QS_Done" by blast
  with r show ?thesis by (intro exI [of _ ?s] exI [of _ s'] conjI) simp_all
qed

text \<open>A pusher can wait with an empty queue.  The worker may take and discount an item before its
  pusher has counted it; the counter then stands at \<open>2 ^ 64 - 1\<close>, a second pusher that looks at it
  goes to sleep, and the late increment notifies nobody.  In the reachable state below nothing is
  queued, the counter is zero, and yet the second pusher sleeps; no step but a forced stop or the
  notification of \<open>stop\<close> wakes it unless another thread pushes.
\<close>

theorem pusher_can_sleep_on_empty_queue:
  "\<exists>s. qw_reachable ex_key ex_hash 1 1 0 2 s \<and> load s = 0 \<and> w_count s < w_capacity s \<and>
     w_pushers s ! 1 = QP_Sleep [8] False \<and>
     {s'. qw_step ex_key ex_hash s s'} \<subseteq> {s'. w_pushers s' ! 1 = QP_Sleep [8] False \<or> w_force s'}"
proof -
  let ?R = "qw_reachable ex_key ex_hash 1 1 0 2" and ?c = "QP_Check [8] False :: nat QPusher"
  let ?ch = "\<lambda>w. new_channel\<lparr>ch_log := [7 :: nat], ch_worker := w\<rparr>"
  let ?p = "QP_Count [] False :: nat QPusher"
  let ?z = "QP_Sleep [8] False :: nat QPusher"
  have 1: "?R (ex_writer (?ch (QW_Taken 7)) 0 1 [?p, ?c])"
    by (rule qw_reachable_step [OF ex_appended qw_step_work_take [where c = 0 and item = 7 and items = "[]" and
            ch = "new_channel\<lparr>ch_items := [7], ch_log := [7]\<rparr>"]]) (simp_all add: ex_writer_simps)
  have 2: "?R (ex_writer (?ch (QW_Notify 7)) (- 1) 1 [?p, ?c])"
    by (rule qw_reachable_step [OF 1 qw_step_work_count [where c = 0 and item = 7 and ch = "?ch (QW_Taken 7)"]])
      (simp_all add: ex_writer_simps)
  have 3: "?R (ex_writer (?ch (QW_Notify 7)) (- 1) 1 [?p, QP_Blocking [8] False])"
    by (rule qw_reachable_step [OF 2 qw_step_push_wait [where p = 1 and items = "[8]" and enq = False]])
      (simp_all add: ex_writer_simps)
  have 4: "?R (ex_writer (?ch (QW_Proc 7)) (- 1) 1 [?p, QP_Blocking [8] False])"
    by (rule qw_reachable_step [OF 3 qw_step_work_notify_none [where c = 0 and item = 7 and
            ch = "?ch (QW_Notify 7)"]]) (simp_all add: ex_writer_simps)
  have 5: "?R (ex_writer (?ch (QW_Proc 7)) (- 1) 1 [?p, ?z])"
    by (rule qw_reachable_step [OF 4 qw_step_push_block [where p = 1 and items = "[8]" and enq = False]])
      (simp_all add: ex_writer_simps)
  have 6: "?R (ex_writer ((?ch QW_Loop)\<lparr>ch_done := [7]\<rparr>) (- 1) 1 [?p, ?z])"
    by (rule qw_reachable_step [OF 5 qw_step_work_process [where c = 0 and item = 7 and
            ch = "?ch (QW_Proc 7)"]]) (simp_all add: ex_writer_simps)
  let ?s = "(ex_writer ((?ch QW_Loop)\<lparr>ch_done := [7]\<rparr>) 0 1 [QP_Idle, ?z])\<lparr>w_results := [(0, True)]\<rparr>"
  have 7: "?R ?s"
    by (rule qw_reachable_step [OF 6 qw_step_push_last [where p = 0 and enq = False]])
      (simp_all add: ex_writer_simps)
  have "w_pushers s' ! 1 = ?z \<or> w_force s'" if "qw_step ex_key ex_hash ?s s'" for s'
    using that by (cases rule: qw_step_cases) (auto simp: ex_writer_simps less_Suc_eq nth_list_update)
  with 7 show ?thesis
    by (intro exI [of _ ?s]) (auto simp: load_def ch_load_def ex_writer_def new_channel_def)
qed

text \<open>
  C40. An item that \<open>push\<close> has reported as enqueued can be lost in a graceful stop: a pusher that
  passed the running check appends after the worker has left.  In the reachable state below \<open>stop\<close>
  has finished, it was not forced, the call of \<open>push\<close> returned true, and its item was not processed.
\<close>

theorem accepted_item_can_be_lost:
  "\<exists>s. qw_reachable ex_key ex_hash 1 1 0 1 s \<and> w_stop s = QS_Done \<and> \<not> w_force s \<and>
     w_results s = [(0, True)] \<and> map ch_log (w_channels s) = [[7]] \<and> map ch_done (w_channels s) = [[]]"
proof -
  let ?R = "qw_reachable ex_key ex_hash 1 1 0 1"
  let ?s = "\<lambda>ch pc n q. (ex_writer ch 0 n [pc])\<lparr>w_running := False, w_stop := q\<rparr>"
  let ?r = "QP_Route [7] False :: nat QPusher"
  let ?shut = "new_channel\<lparr>ch_shutdown := True\<rparr> :: nat QChannel"
  let ?out = "?shut\<lparr>ch_worker := QW_Done\<rparr>"
  let ?lost = "?out\<lparr>ch_items := [7], ch_log := [7], ch_late := True\<rparr>"
  have 0: "?R (ex_writer new_channel 0 0 [QP_Idle])"
    using qw_start_reachable [of ex_key ex_hash 1 1 0 1] by (simp only: ex_start1)
  have 1: "?R (ex_writer new_channel 0 0 [QP_Check [7] False])"
    by (rule qw_reachable_step [OF 0 qw_step_push_begin [where p = 0 and items = "[7]"]])
      (simp_all add: ex_writer_simps)
  have 2: "?R (ex_writer new_channel 0 0 [QP_Passed [7] False])"
    by (rule qw_reachable_step [OF 1 qw_step_push_pass [where p = 0 and items = "[7]" and enq = False]])
      (simp_all add: ex_writer_simps)
  have 3: "?R (ex_writer new_channel 0 0 [?r])"
    by (rule qw_reachable_step [OF 2 qw_step_push_go [where p = 0 and items = "[7]" and enq = False]])
      (simp_all add: ex_writer_simps)
  have 4: "?R (?s new_channel ?r 0 QS_Notify)"
    by (rule qw_reachable_step [OF 3 qw_step_stop]) (simp_all add: ex_writer_simps)
  have 5: "?R (?s new_channel ?r 0 (QS_Shut 0))"
    by (rule qw_reachable_step [OF 4 qw_step_stop_notify]) (simp_all add: ex_writer_simps)
  have 6: "?R (?s ?shut ?r 0 (QS_Shut 1))"
    by (rule qw_reachable_step [OF 5 qw_step_stop_shut [where c = 0 and ch = new_channel]])
      (simp_all add: ex_writer_simps)
  have 7: "?R (?s ?shut ?r 0 QS_Join)"
    by (rule qw_reachable_step [OF 6 qw_step_stop_all_shut [where c = 1]]) (simp_all add: ex_writer_simps)
  have 8: "?R (?s ?out ?r 0 QS_Join)"
    by (rule qw_reachable_step [OF 7 qw_step_work_exit [where c = 0 and ch = ?shut]])
      (simp_all add: ex_writer_simps)
  have 9: "?R (?s ?out (QP_At 0 [7] False) 1 QS_Join)"
    by (rule qw_reachable_step [OF 8 qw_step_push_route [where p = 0 and item = 7 and items = "[]" and
            enq = False and c = 0 and nxt = 1]]) (simp_all add: ex_writer_simps)
  have 10: "?R (?s ?lost (QP_Count [] False) 1 QS_Join)"
    by (rule qw_reachable_step [OF 9 qw_step_push_append [where p = 0 and item = 7 and items = "[]" and
            enq = False and c = 0 and ch = ?out]]) (simp_all add: ex_writer_simps)
  let ?t = "(?s ?lost QP_Idle 1 QS_Join)\<lparr>w_results := [(0, True)], w_count := 1\<rparr>"
  have 11: "?R ?t"
    by (rule qw_reachable_step [OF 10 qw_step_push_last [where p = 0 and enq = False]])
      (simp_all add: ex_writer_simps)
  have 12: "?R (?t\<lparr>w_cleared := True, w_stop := QS_Done\<rparr>)"
    by (rule qw_reachable_step [OF 11 qw_step_stop_join]) (simp_all add: ex_writer_simps)
  then show ?thesis
    by (intro exI [of _ "?t\<lparr>w_cleared := True, w_stop := QS_Done\<rparr>"]) (simp add: ex_writer_def new_channel_def)
qed

end
