(* ===== verification/Time_Windows.thy ===== *)
theory Time_Windows
  imports Prelude "HOL-Library.Product_Lexorder"
begin

text \<open>
  The normalisation of the time windows a subquery returns (\<open>extractNormalizedWindowsImpl\<close> in
  \<open>src/query/executor/ExecutorUtils.cpp\<close>).  An \<open>int64_t\<close> is an \<open>int\<close>; the one addition of the code
  is guarded against overflow, and the guard is kept.
\<close>

section \<open>Input\<close>

text \<open>A cell of a timestamp column, and a record batch with the types of its columns.\<close>

datatype win_cell = Cell_Unreadable | Cell_Null | Cell_Time int

record win_batch =
  wb_time_columns :: "bool list"
  wb_rows :: "(win_cell \<times> win_cell) list"

type_synonym window = "int \<times> int"

definition int64_max :: int where
  "int64_max = 9223372036854775807"

definition timestampScalarValue :: "win_cell \<Rightarrow> string \<Rightarrow> exn + int" where
  "timestampScalarValue c endpoint =
     (case c of
        Cell_Time v \<Rightarrow> Inr v
      | _ \<Rightarrow> Inl (RuntimeError
          (''MLDP time-series window subquery requires a non-null timestamp at '' @ endpoint)))"

definition row_window :: "window list \<Rightarrow> win_cell \<times> win_cell \<Rightarrow> exn + window list" where
  "row_window windows row =
     (let (start_cell, end_cell) = row in
      if start_cell = Cell_Unreadable \<or> end_cell = Cell_Unreadable then
        Inl (RuntimeError ''Failed to read MLDP time-series window subquery result'')
      else (case timestampScalarValue start_cell ''position 1'' of
          Inl e \<Rightarrow> Inl e
        | Inr begin_ns \<Rightarrow>
            (case timestampScalarValue end_cell ''position 2'' of
               Inl e \<Rightarrow> Inl e
             | Inr end_ns \<Rightarrow>
                 if end_ns < begin_ns then
                   Inl (RuntimeError (''MLDP time-series window subquery returned an end timestamp '' @
                     ''before its start timestamp''))
                 else Inr (windows @ [(begin_ns, end_ns)]))))"

definition batch_windows :: "window list \<Rightarrow> win_batch \<Rightarrow> exn + window list" where
  "batch_windows windows b =
     (if wb_rows b = [] then Inr windows
      else if wb_time_columns b \<noteq> [True, True] then
        Inl (RuntimeError ''MLDP time-series window subquery must return exactly two timestamp columns'')
      else foldE row_window windows (wb_rows b))"

section \<open>Normalisation\<close>

definition normalize_step :: "window list \<Rightarrow> window \<Rightarrow> window list" where
  "normalize_step normalized w =
     (if normalized = [] \<or>
         fst w > snd (last normalized) + (if snd (last normalized) \<noteq> int64_max then 1 else 0)
      then normalized @ [w]
      else butlast normalized @ [(fst (last normalized), max (snd (last normalized)) (snd w))])"

definition normalize_windows :: "window list \<Rightarrow> window list" where
  "normalize_windows windows = foldl normalize_step [] (sort windows)"

definition extractNormalizedWindows :: "win_batch list \<Rightarrow> exn + window list" where
  "extractNormalizedWindows batches =
     (case foldE batch_windows [] batches of
        Inl e \<Rightarrow> Inl e
      | Inr windows \<Rightarrow> Inr (normalize_windows windows))"

section \<open>Facts\<close>

text \<open>The instants a list of windows covers, and lists whose windows neither touch nor overlap.\<close>

definition covered :: "window list \<Rightarrow> int set" where
  "covered ws = {t. \<exists>(a, b)\<in>set ws. a \<le> t \<and> t \<le> b}"

fun separated :: "window list \<Rightarrow> bool" where
  "separated [] \<longleftrightarrow> True"
| "separated [w] \<longleftrightarrow> fst w \<le> snd w"
| "separated (w # v # ws) \<longleftrightarrow> fst w \<le> snd w \<and> snd w + 1 < fst v \<and> separated (v # ws)"

text \<open>The loop with the last window taken out of the list.\<close>

fun merge_from :: "window \<Rightarrow> window list \<Rightarrow> window list" where
  "merge_from cur [] = [cur]"
| "merge_from cur (w # ws) =
     (if fst w > snd cur + (if snd cur \<noteq> int64_max then 1 else 0)
      then cur # merge_from w ws
      else merge_from (fst cur, max (snd cur) (snd w)) ws)"

lemma foldl_normalize: "foldl normalize_step (acc @ [cur]) ws = acc @ merge_from cur ws"
  by (induction ws arbitrary: acc cur) (auto simp: normalize_step_def simp flip: append_assoc)

lemma normalize_merge:
  "normalize_windows windows = (case sort windows of [] \<Rightarrow> [] | w # ws \<Rightarrow> merge_from w ws)"
  using foldl_normalize [of "[]"]
  by (cases "sort windows") (auto simp: normalize_windows_def normalize_step_def)

definition in_range :: "window \<Rightarrow> bool" where
  "in_range w \<longleftrightarrow> fst w \<le> snd w \<and> snd w \<le> int64_max"

lemma covered_simps [simp]:
  "covered [] = {}" "covered (w # ws) = {fst w..snd w} \<union> covered ws"
  by (auto simp: covered_def)

lemma merge_from_ok:
  assumes "in_range cur" "\<forall>w\<in>set ws. in_range w \<and> fst cur \<le> fst w" "sorted (map fst ws)"
  shows "covered (merge_from cur ws) = covered (cur # ws) \<and> separated (merge_from cur ws) \<and>
    fst (hd (merge_from cur ws)) = fst cur \<and> merge_from cur ws \<noteq> []"
  using assms
proof (induction ws arbitrary: cur)
  case Nil
  then show ?case by (simp add: in_range_def)
next
  case (Cons w ws)
  have w: "in_range w" "fst cur \<le> fst w" "\<forall>v\<in>set ws. in_range v \<and> fst w \<le> fst v"
    using Cons.prems by auto
  show ?case
  proof (cases "fst w > snd cur + (if snd cur \<noteq> int64_max then 1 else 0)")
    case True
    have gap: "snd cur + 1 < fst w"
      using True w(1) by (auto simp: in_range_def split: if_splits)
    have ih: "covered (merge_from w ws) = covered (w # ws) \<and> separated (merge_from w ws) \<and>
        fst (hd (merge_from w ws)) = fst w \<and> merge_from w ws \<noteq> []"
      using Cons.IH [of w] w Cons.prems(3) by simp
    then obtain v vs where v: "merge_from w ws = v # vs" "fst v = fst w"
      by (cases "merge_from w ws") auto
    have eq: "merge_from cur (w # ws) = cur # merge_from w ws" using True by simp
    have "covered (cur # merge_from w ws) = covered (cur # w # ws)" using ih by simp
    moreover have "separated (cur # merge_from w ws)"
      using ih gap Cons.prems(1) v by (simp add: in_range_def)
    ultimately show ?thesis unfolding eq by simp
  next
    case False
    let ?c = "(fst cur, max (snd cur) (snd w))"
    have c: "in_range ?c" using Cons.prems(1) w(1) by (auto simp: in_range_def)
    have "\<forall>v\<in>set ws. in_range v \<and> fst ?c \<le> fst v" using w Cons.prems(2) by auto
    moreover have "covered (?c # ws) = covered (cur # w # ws)"
      using False w Cons.prems(1) by (auto simp: in_range_def split: if_splits)
    ultimately show ?thesis using Cons.IH [OF c] Cons.prems(3) False by simp
  qed
qed

lemma sorted_fst: "sorted (ws :: window list) \<Longrightarrow> sorted (map fst ws)"
  by (induction ws) (auto simp: less_eq_prod_def)

lemma normalize_ok:
  assumes "\<forall>w\<in>set windows. in_range w"
  shows "covered (normalize_windows windows) = covered windows \<and> separated (normalize_windows windows)"
proof (cases "sort windows")
  case Nil
  then have "windows = []" by (metis set_empty set_sort)
  then show ?thesis by (simp add: normalize_windows_def)
next
  case (Cons w ws)
  have s: "sorted (w # ws)" "set (w # ws) = set windows"
    by (simp_all flip: Cons)
  have "covered windows = covered (w # ws)" using s(2) by (simp add: covered_def)
  moreover have "\<forall>v\<in>set ws. in_range v \<and> fst w \<le> fst v"
    using s assms sorted_fst [OF s(1)] by auto
  moreover have "in_range w" using s(2) assms by auto
  ultimately show ?thesis
    using merge_from_ok [of w ws] sorted_fst [OF s(1)] by (simp add: normalize_merge Cons del: covered_simps)
qed

text \<open>A separated list is determined by what it covers.\<close>

lemma separated_head:
  assumes "separated (w # ws)"
  shows "separated ws \<and> fst w \<le> snd w \<and> (\<forall>t\<in>covered ws. snd w + 1 < t)"
  using assms
proof (induction ws arbitrary: w)
  case (Cons v vs)
  have v: "fst w \<le> snd w" "snd w + 1 < fst v" "separated (v # vs)" using Cons.prems by auto
  have ih: "\<forall>t\<in>covered vs. snd v + 1 < t" "fst v \<le> snd v" using Cons.IH [OF v(3)] by auto
  have "snd w + 1 < t" if "t \<in> covered (v # vs)" for t
  proof -
    from that consider "fst v \<le> t" | "t \<in> covered vs" by auto
    then show ?thesis using v(2) ih by cases force+
  qed
  then show ?case using v by blast
qed simp

lemma covered_head:
  assumes "separated (w # ws)"
  shows "fst w \<in> covered (w # ws)" "\<forall>t\<in>covered (w # ws). fst w \<le> t"
    "\<forall>t. fst w \<le> t \<and> t \<le> snd w \<longrightarrow> t \<in> covered (w # ws)" "snd w + 1 \<notin> covered (w # ws)"
  using separated_head [OF assms] by auto

lemma separated_unique:
  "separated xs \<Longrightarrow> separated ys \<Longrightarrow> covered xs = covered ys \<Longrightarrow> xs = ys"
proof (induction xs arbitrary: ys)
  case Nil
  then show ?case using covered_head(1) by (cases ys) (auto simp del: covered_simps(2))
next
  case (Cons x xs)
  then obtain y ys' where ys: "ys = y # ys'"
    using covered_head(1) [OF Cons.prems(1)] by (cases ys) auto
  note hx = covered_head [OF Cons.prems(1)] and hy = covered_head [OF Cons.prems(2) [unfolded ys]]
  have same: "covered (x # xs) = covered (y # ys')" using Cons.prems(3) ys by simp
  have fst: "fst x = fst y"
    using hx(1,2) hy(1,2) unfolding same by (intro order_antisym) blast+
  have "fst x \<le> snd x" "fst y \<le> snd y"
    using separated_head [OF Cons.prems(1)] separated_head [OF Cons.prems(2) [unfolded ys]] by auto
  then have "\<not> snd x < snd y" "\<not> snd y < snd x"
    using hx(3,4) hy(3,4) fst unfolding same
    by (metis add_increasing2 zless_imp_add1_zle zero_le_one)+
  then have xy: "x = y" using fst by (simp add: prod_eq_iff)
  have "covered xs = covered (x # xs) - {fst x..snd x}"
    using separated_head [OF Cons.prems(1)] by auto
  moreover have "covered ys' = covered (y # ys') - {fst y..snd y}"
    using separated_head [OF Cons.prems(2) [unfolded ys]] by auto
  ultimately have "covered xs = covered ys'" using Cons.prems(3) xy ys by simp
  then show ?case
    using Cons.IH separated_head [OF Cons.prems(1)] separated_head [OF Cons.prems(2) [unfolded ys]] xy ys
    by blast
qed

lemma row_window_Inr:
  "row_window ws row = Inr ws' \<longleftrightarrow>
     (\<exists>a b. row = (Cell_Time a, Cell_Time b) \<and> a \<le> b \<and> ws' = ws @ [(a, b)])"
  by (cases row) (auto simp: row_window_def timestampScalarValue_def not_less Let_def split: win_cell.splits)

lemma rows_Inr:
  "foldE row_window ws rows = Inr ws' \<longleftrightarrow>
     (\<exists>new. rows = map (\<lambda>(a, b). (Cell_Time a, Cell_Time b)) new \<and> (\<forall>(a, b)\<in>set new. a \<le> b) \<and> ws' = ws @ new)"
proof (induction rows arbitrary: ws)
  case Nil
  then show ?case by auto
next
  case (Cons row rows)
  have "foldE row_window ws (row # rows) = Inr ws' \<longleftrightarrow>
      (\<exists>ws1. row_window ws row = Inr ws1 \<and> foldE row_window ws1 rows = Inr ws')"
    by (auto split: sum.splits)
  also have "\<dots> \<longleftrightarrow> (\<exists>a b new. row = (Cell_Time a, Cell_Time b) \<and> a \<le> b \<and>
      rows = map (\<lambda>(a, b). (Cell_Time a, Cell_Time b)) new \<and> (\<forall>(a, b)\<in>set new. a \<le> b) \<and>
      ws' = ws @ (a, b) # new)"
    unfolding row_window_Inr Cons.IH by auto
  also have "\<dots> \<longleftrightarrow> (\<exists>new. row # rows = map (\<lambda>(a, b). (Cell_Time a, Cell_Time b)) new \<and>
      (\<forall>(a, b)\<in>set new. a \<le> b) \<and> ws' = ws @ new)"
    by (auto simp: Cons_eq_map_conv)
  finally show ?case .
qed

definition cells :: "window list \<Rightarrow> (win_cell \<times> win_cell) list" where
  "cells ws = map (\<lambda>(a, b). (Cell_Time a, Cell_Time b)) ws"

lemma cells_append_conv: "xs @ ys = cells ws \<longleftrightarrow> (\<exists>us vs. ws = us @ vs \<and> xs = cells us \<and> ys = cells vs)"
  unfolding cells_def by (auto simp: append_eq_map_conv)

lemma batches_Inr:
  "foldE batch_windows ws bs = Inr ws' \<longleftrightarrow>
     (\<forall>b\<in>set bs. wb_rows b \<noteq> [] \<longrightarrow> wb_time_columns b = [True, True]) \<and>
     (\<exists>new. concat (map wb_rows bs) = cells new \<and> (\<forall>(a, b)\<in>set new. a \<le> b) \<and> ws' = ws @ new)"
proof (induction bs arbitrary: ws)
  case Nil
  then show ?case by (auto simp: cells_def)
next
  case (Cons b bs)
  have step: "batch_windows ws b = Inr ws1 \<longleftrightarrow> (wb_rows b \<noteq> [] \<longrightarrow> wb_time_columns b = [True, True]) \<and>
      (\<exists>new. wb_rows b = cells new \<and> (\<forall>(a, b)\<in>set new. a \<le> b) \<and> ws1 = ws @ new)" for ws1
    by (auto simp: batch_windows_def rows_Inr cells_def)
  have "foldE batch_windows ws (b # bs) = Inr ws' \<longleftrightarrow>
      (\<exists>ws1. batch_windows ws b = Inr ws1 \<and> foldE batch_windows ws1 bs = Inr ws')"
    by (auto split: sum.splits)
  also have "\<dots> \<longleftrightarrow> (\<forall>b\<in>set (b # bs). wb_rows b \<noteq> [] \<longrightarrow> wb_time_columns b = [True, True]) \<and>
     (\<exists>u v. wb_rows b = cells u \<and> concat (map wb_rows bs) = cells v \<and>
        (\<forall>(a, b)\<in>set (u @ v). a \<le> b) \<and> ws' = ws @ u @ v)"
    unfolding step Cons.IH by (auto simp: ball_Un)
  also have "\<dots> \<longleftrightarrow> (\<forall>b\<in>set (b # bs). wb_rows b \<noteq> [] \<longrightarrow> wb_time_columns b = [True, True]) \<and>
     (\<exists>new. concat (map wb_rows (b # bs)) = cells new \<and> (\<forall>(a, b)\<in>set new. a \<le> b) \<and> ws' = ws @ new)"
    unfolding list.map concat.simps cells_append_conv by blast
  finally show ?case .
qed

lemma cells_conv:
  "(\<exists>new. rows = cells new \<and> (\<forall>(a, b)\<in>set new. a \<le> b)) \<longleftrightarrow>
     (\<forall>row\<in>set rows. \<exists>a c. row = (Cell_Time a, Cell_Time c) \<and> a \<le> c)"
proof (induction rows)
  case (Cons r rs)
  have "(\<exists>new. r # rs = cells new \<and> (\<forall>(a, b)\<in>set new. a \<le> b)) \<longleftrightarrow>
      (\<exists>a c. r = (Cell_Time a, Cell_Time c) \<and> a \<le> c) \<and> (\<exists>new. rs = cells new \<and> (\<forall>(a, b)\<in>set new. a \<le> b))"
    (is "?l \<longleftrightarrow> ?r")
  proof
    assume ?l
    then show ?r by (auto simp: cells_def Cons_eq_map_conv)
  next
    assume ?r
    then obtain a c new where n: "r = (Cell_Time a, Cell_Time c)" "a \<le> c" "rs = cells new"
      "\<forall>(a, b)\<in>set new. a \<le> b" by blast
    then show ?l by (intro exI [of _ "(a, c) # new"]) (simp add: cells_def)
  qed
  then show ?case using Cons.IH by simp
qed (simp add: cells_def)

section \<open>Properties\<close>

text \<open>
  C25. Normalisation computes the canonical form.  When the extraction succeeds, the windows it
  returns are in order, neither overlap nor touch, cover exactly the instants of the rows of all
  batches, and are the only list of that shape that does; so the order of the rows, duplicates and
  the split into batches do not matter.
\<close>

theorem extracted_windows_canonical:
  assumes "extractNormalizedWindows batches = Inr ws"
    and "\<forall>b\<in>set batches. \<forall>row\<in>set (wb_rows b). \<forall>v. snd row = Cell_Time v \<longrightarrow> v \<le> int64_max"
  shows "separated ws \<and>
    covered ws = {t. \<exists>b\<in>set batches. \<exists>(x, y)\<in>set (wb_rows b). \<exists>a c.
        x = Cell_Time a \<and> y = Cell_Time c \<and> a \<le> t \<and> t \<le> c} \<and>
    (\<forall>vs. separated vs \<longrightarrow> covered vs = covered ws \<longrightarrow> vs = ws)"
proof -
  obtain raw where raw: "foldE batch_windows [] batches = Inr raw" "ws = normalize_windows raw"
    using assms(1) by (auto simp: extractNormalizedWindows_def split: sum.splits)
  then have c: "concat (map wb_rows batches) = cells raw" "\<forall>(a, b)\<in>set raw. a \<le> b"
    by (auto simp: batches_Inr)
  have mem: "(\<exists>b\<in>set batches. row \<in> set (wb_rows b)) \<longleftrightarrow> row \<in> set (cells raw)" for row
    by (simp flip: c(1))
  have "in_range w" if "w \<in> set raw" for w
  proof -
    have "(Cell_Time (fst w), Cell_Time (snd w)) \<in> set (cells raw)"
      using that by (force simp: cells_def)
    then have "snd w \<le> int64_max" using mem assms(2) by fastforce
    then show ?thesis using c(2) that by (auto simp: in_range_def)
  qed
  then have ok: "covered ws = covered raw" "separated ws"
    using normalize_ok [of raw] raw(2) by auto
  have "covered raw = {t. \<exists>(x, y)\<in>set (cells raw). \<exists>a c. x = Cell_Time a \<and> y = Cell_Time c \<and> a \<le> t \<and> t \<le> c}"
    by (force simp: covered_def cells_def)
  also have "\<dots> = {t. \<exists>b\<in>set batches. \<exists>(x, y)\<in>set (wb_rows b). \<exists>a c.
        x = Cell_Time a \<and> y = Cell_Time c \<and> a \<le> t \<and> t \<le> c}"
    using mem by blast
  finally show ?thesis using ok separated_unique by auto
qed

definition ex_windows :: "win_batch list" where
  "ex_windows = [\<lparr>wb_time_columns = [True, True],
     wb_rows = [(Cell_Time 5, Cell_Time 9), (Cell_Time 1, Cell_Time 4), (Cell_Time 20, Cell_Time 30)]\<rparr>]"

lemma ex_windows_value: "extractNormalizedWindows ex_windows = Inr [(1, 9), (20, 30)]"
  by (simp add: ex_windows_def extractNormalizedWindows_def batch_windows_def row_window_def
      timestampScalarValue_def normalize_windows_def normalize_step_def int64_max_def less_eq_prod_def)

theorem extracted_windows_canonical_witness:
  "separated [(1, 9), (20, 30)] \<and> 3 \<in> covered [(1, 9), (20, 30)] \<and>
     {vs. separated vs \<and> covered vs = covered [(1, 9), (20, 30)]} = {[(1, 9), (20, 30)]}"
  using extracted_windows_canonical [OF ex_windows_value]
  by (auto simp: ex_windows_def int64_max_def covered_def)

text \<open>
  The extraction fails exactly on malformed input: a batch with rows that has not two timestamp
  columns, a row with a null or unreadable end point, or a row that ends before it starts.
\<close>

theorem window_extraction_fails_iff:
  "(\<exists>e. extractNormalizedWindows batches = Inl e) \<longleftrightarrow>
     (\<exists>b\<in>set batches. wb_rows b \<noteq> [] \<and>
        (wb_time_columns b \<noteq> [True, True] \<or>
         (\<exists>row\<in>set (wb_rows b). \<not> (\<exists>a c. row = (Cell_Time a, Cell_Time c) \<and> a \<le> c))))"
proof -
  have "(\<exists>e. extractNormalizedWindows batches = Inl e) \<longleftrightarrow> \<not> (\<exists>ws. foldE batch_windows [] batches = Inr ws)"
    by (auto simp: extractNormalizedWindows_def split: sum.splits)
  also have "\<dots> \<longleftrightarrow> \<not> ((\<forall>b\<in>set batches. wb_rows b \<noteq> [] \<longrightarrow> wb_time_columns b = [True, True]) \<and>
      (\<exists>new. concat (map wb_rows batches) = cells new \<and> (\<forall>(a, b)\<in>set new. a \<le> b)))"
    by (auto simp: batches_Inr)
  also have "\<dots> \<longleftrightarrow> \<not> ((\<forall>b\<in>set batches. wb_rows b \<noteq> [] \<longrightarrow> wb_time_columns b = [True, True]) \<and>
      (\<forall>row\<in>set (concat (map wb_rows batches)). \<exists>a c. row = (Cell_Time a, Cell_Time c) \<and> a \<le> c))"
    unfolding cells_conv ..
  also have "\<dots> \<longleftrightarrow> (\<exists>b\<in>set batches. wb_rows b \<noteq> [] \<and> wb_time_columns b \<noteq> [True, True]) \<or>
      (\<exists>b\<in>set batches. \<exists>row\<in>set (wb_rows b). \<not> (\<exists>a c. row = (Cell_Time a, Cell_Time c) \<and> a \<le> c))"
    unfolding set_concat set_map by blast
  also have "\<dots> \<longleftrightarrow> (\<exists>b\<in>set batches. wb_rows b \<noteq> [] \<and> (wb_time_columns b \<noteq> [True, True] \<or>
      (\<exists>row\<in>set (wb_rows b). \<not> (\<exists>a c. row = (Cell_Time a, Cell_Time c) \<and> a \<le> c))))"
    by (metis (no_types, lifting) empty_iff list.set(1))
  finally show ?thesis .
qed

theorem window_extraction_fails_iff_witness:
  "(\<exists>e. extractNormalizedWindows [\<lparr>wb_time_columns = [True, True],
        wb_rows = [(Cell_Time 5, Cell_Time 4)]\<rparr>] = Inl e) \<and>
     \<not> (\<exists>e. extractNormalizedWindows ex_windows = Inl e)"
  unfolding window_extraction_fails_iff by (simp add: ex_windows_def)

end
