(* ===== verification/Double_Order.thy ===== *)
theory Double_Order
  imports Prelude
begin

text \<open>
  What the query engine uses of \<open>double\<close>: the comparisons, on the IEEE-754 bit pattern, and the
  conversion of a 64-bit integer, which rounds to the nearest value and ties to even.
\<close>

section \<open>Comparison\<close>

definition d_magnitude :: "u64 \<Rightarrow> int" where
  "d_magnitude x = (if uint x < 2 ^ 63 then uint x else uint x - 2 ^ 63)"

definition d_isnan :: "u64 \<Rightarrow> bool" where
  "d_isnan x \<longleftrightarrow> d_magnitude x > 0x7FF0000000000000"

text \<open>The order of the non-NaN values is the order of this key; both zeros have key 0.\<close>

definition d_key :: "u64 \<Rightarrow> int" where
  "d_key x = (if uint x < 2 ^ 63 then d_magnitude x else - d_magnitude x)"

definition d_eq :: "u64 \<Rightarrow> u64 \<Rightarrow> bool" where
  "d_eq a b \<longleftrightarrow> \<not> d_isnan a \<and> \<not> d_isnan b \<and> d_key a = d_key b"

definition d_lt :: "u64 \<Rightarrow> u64 \<Rightarrow> bool" where
  "d_lt a b \<longleftrightarrow> \<not> d_isnan a \<and> \<not> d_isnan b \<and> d_key a < d_key b"

definition d_le :: "u64 \<Rightarrow> u64 \<Rightarrow> bool" where
  "d_le a b \<longleftrightarrow> \<not> d_isnan a \<and> \<not> d_isnan b \<and> d_key a \<le> d_key b"

section \<open>Conversion of integers\<close>

fun bit_count :: "nat \<Rightarrow> nat" where
  "bit_count n = (if n = 0 then 0 else Suc (bit_count (n div 2)))"

declare bit_count.simps [simp del]

text \<open>The 53-bit significand of a positive integer, rounded to nearest, ties to even.\<close>

definition round_significand :: "nat \<Rightarrow> nat \<Rightarrow> nat" where
  "round_significand b m =
     (if b \<le> 53 then m * 2 ^ (53 - b)
      else let s = b - 53; q = m div 2 ^ s; r = m mod 2 ^ s in
        q + (if r > 2 ^ (s - 1) \<or> (r = 2 ^ (s - 1) \<and> odd q) then 1 else 0))"

definition nat_double_bits :: "nat \<Rightarrow> nat" where
  "nat_double_bits m =
     (let b = bit_count m in
      if b = 0 then 0 else (b + 1021) * 2 ^ 52 + round_significand b m)"

definition int_to_double :: "int \<Rightarrow> u64" where
  "int_to_double x =
     (if x < 0 then of_nat (2 ^ 63 + nat_double_bits (nat (- x))) else of_nat (nat_double_bits (nat x)))"

section \<open>Facts\<close>

lemma bit_count_0 [simp]: "bit_count 0 = 0"
  by (simp add: bit_count.simps)

lemma bit_count_numeral:
  "bit_count (numeral k) = Suc (bit_count (numeral k div 2))" "bit_count (Suc 0) = 1"
  by (simp_all add: bit_count.simps)

lemma bit_count_bounds: "0 < m \<Longrightarrow> 0 < bit_count m \<and> 2 ^ (bit_count m - 1) \<le> m \<and> m < 2 ^ bit_count m"
proof (induction m rule: bit_count.induct)
  case (1 n)
  have s: "bit_count n = Suc (bit_count (n div 2))" using 1(2) by (subst bit_count.simps) simp
  show ?case
  proof (cases "n div 2 = 0")
    case True
    then have "n = 1" using 1(2) by (simp add: div_eq_0_iff)
    then show ?thesis using s True by simp
  next
    case False
    then have ih: "0 < bit_count (n div 2)" "2 ^ (bit_count (n div 2) - 1) \<le> n div 2" "n div 2 < 2 ^ bit_count (n div 2)"
      using 1 by auto
    have p: "2 ^ bit_count (n div 2) = 2 * (2 :: nat) ^ (bit_count (n div 2) - 1)"
      using ih(1) by (metis Suc_diff_1 power_Suc)
    have h: "2 * (n div 2) \<le> n" "n \<le> 2 * (n div 2) + 1" by simp_all
    have "2 ^ bit_count (n div 2) \<le> n" unfolding p using h(1) ih(2) by linarith
    moreover have "n < 2 * 2 ^ bit_count (n div 2)" using h(2) ih(3) by linarith
    ultimately show ?thesis using s by simp
  qed
qed

lemma bit_count_mono: "m \<le> n \<Longrightarrow> bit_count m \<le> bit_count n"
proof (induction m arbitrary: n rule: bit_count.induct)
  case (1 m)
  show ?case
  proof (cases "m = 0")
    case False
    then have "bit_count m = Suc (bit_count (m div 2))" "bit_count n = Suc (bit_count (n div 2))"
      using 1(2) bit_count.simps [of m] bit_count.simps [of n] by auto
    then show ?thesis using 1(1) [OF False, of "n div 2"] 1(2) by (simp add: div_le_mono)
  qed simp
qed

lemma round_mono:
  assumes "m \<le> n"
  shows "round_significand b m \<le> round_significand b n"
proof (cases "b \<le> 53")
  case True
  then show ?thesis using assms by (simp add: round_significand_def)
next
  case False
  let ?p = "2 ^ (b - 53) :: nat"
  have "m div ?p \<le> n div ?p" using assms by (rule div_le_mono)
  then consider "m div ?p < n div ?p" | "m div ?p = n div ?p" by linarith
  then show ?thesis
  proof cases
    case 1
    then show ?thesis using False by (auto simp: round_significand_def Let_def)
  next
    case 2
    have "m = m div ?p * ?p + m mod ?p" "n = n div ?p * ?p + n mod ?p"
      by (rule div_mult_mod_eq [symmetric])+
    then have "m mod ?p \<le> n mod ?p" using assms 2 by (metis nat_add_left_cancel_le)
    then show ?thesis using False 2 by (auto simp: round_significand_def Let_def)
  qed
qed

lemma round_bounds:
  assumes "0 < m" "b = bit_count m"
  shows "2 ^ 52 \<le> round_significand b m" and "round_significand b m \<le> 2 ^ 53"
    and "b \<le> 53 \<Longrightarrow> round_significand b m < 2 ^ 53"
proof -
  have b: "0 < b" "2 ^ (b - 1) \<le> m" "m < 2 ^ b" using bit_count_bounds [OF assms(1)] assms(2) by auto
  have low: "2 ^ 52 \<le> m * 2 ^ (53 - b)" "m * 2 ^ (53 - b) < 2 ^ 53" if "b \<le> 53"
  proof -
    have p: "2 ^ 52 = 2 ^ (b - 1) * (2 :: nat) ^ (53 - b)" using that b(1) by (simp flip: power_add)
    show "2 ^ 52 \<le> m * 2 ^ (53 - b)" unfolding p using b(2) by (rule mult_le_mono1)
    have q: "2 ^ 53 = 2 ^ b * (2 :: nat) ^ (53 - b)" using that by (simp flip: power_add)
    show "m * 2 ^ (53 - b) < 2 ^ 53" unfolding q using b(3) by simp
  qed
  have high: "2 ^ 52 \<le> m div 2 ^ (b - 53)" "m div 2 ^ (b - 53) < 2 ^ 53" if "\<not> b \<le> 53"
  proof -
    have "b - 1 = 52 + (b - 53)" using that by simp
    then have "2 ^ (b - 1) = 2 ^ 52 * (2 :: nat) ^ (b - 53)" by (metis power_add)
    then have "2 ^ 52 * 2 ^ (b - 53) \<le> m" using b(2) by metis
    then show "2 ^ 52 \<le> m div 2 ^ (b - 53)" by (subst less_eq_div_iff_mult_less_eq) simp_all
    have "b = 53 + (b - 53)" using that by simp
    then have "2 ^ b = 2 ^ 53 * (2 :: nat) ^ (b - 53)" by (metis power_add)
    then have "m < 2 ^ 53 * 2 ^ (b - 53)" using b(3) by metis
    then show "m div 2 ^ (b - 53) < 2 ^ 53" by (rule less_mult_imp_div_less)
  qed
  show "2 ^ 52 \<le> round_significand b m" "round_significand b m \<le> 2 ^ 53"
    using low high by (auto simp: round_significand_def Let_def)
  show "b \<le> 53 \<Longrightarrow> round_significand b m < 2 ^ 53"
    using low by (simp add: round_significand_def)
qed

lemma bits_step:
  assumes "bit_count m < bit_count n"
  shows "nat_double_bits m \<le> nat_double_bits n"
    and "bit_count m \<le> 53 \<Longrightarrow> nat_double_bits m < nat_double_bits n"
proof -
  have n: "0 < n" using assms by (cases n) auto
  have ln: "(bit_count n + 1022) * 2 ^ 52 \<le> nat_double_bits n"
    using round_bounds(1) [OF n refl] assms by (simp add: nat_double_bits_def Let_def)
  have "nat_double_bits m \<le> (bit_count m + 1023) * 2 ^ 52 \<and>
      (bit_count m \<le> 53 \<longrightarrow> nat_double_bits m < (bit_count m + 1023) * 2 ^ 52)"
  proof (cases "m = 0")
    case False
    then show ?thesis
      using round_bounds(2,3) [of m, OF _ refl] bit_count_bounds [of m]
      by (auto simp: nat_double_bits_def Let_def algebra_simps)
  qed (simp add: nat_double_bits_def)
  moreover have "(bit_count m + 1023) * 2 ^ 52 \<le> (bit_count n + 1022) * (2 :: nat) ^ 52"
    using assms by (intro mult_right_mono) simp_all
  ultimately show "nat_double_bits m \<le> nat_double_bits n"
    "bit_count m \<le> 53 \<Longrightarrow> nat_double_bits m < nat_double_bits n"
    using ln by linarith+
qed

lemma bits_mono: "m \<le> n \<Longrightarrow> nat_double_bits m \<le> nat_double_bits n"
proof -
  assume le: "m \<le> n"
  consider "bit_count m < bit_count n" | "bit_count m = bit_count n"
    using bit_count_mono [OF le] by linarith
  then show ?thesis
  proof cases
    case 1
    then show ?thesis by (rule bits_step)
  next
    case 2
    then show ?thesis using round_mono [OF le] by (simp add: nat_double_bits_def Let_def)
  qed
qed

lemma bits_strict:
  assumes "m < n" "n \<le> 2 ^ 53"
  shows "nat_double_bits m < nat_double_bits n"
proof -
  have m: "bit_count m \<le> 53"
  proof (cases "m = 0")
    case False
    then have "2 ^ (bit_count m - 1) < (2 :: nat) ^ 53" using bit_count_bounds [of m] assms by linarith
    then have "bit_count m - 1 < 53" by (rule power_less_imp_less_exp [rotated]) simp
    then show ?thesis by simp
  qed simp
  consider "bit_count m < bit_count n" | "bit_count m = bit_count n"
    using bit_count_mono [of m n] assms by linarith
  then show ?thesis
  proof cases
    case 1
    then show ?thesis using bits_step(2) m by blast
  next
    case 2
    moreover have "bit_count n \<noteq> 0" using bit_count_bounds [of n] assms by simp
    ultimately show ?thesis
      using m assms(1) by (simp add: nat_double_bits_def Let_def round_significand_def)
  qed
qed

lemma bits_bound: "m < 2 ^ 64 \<Longrightarrow> nat_double_bits m < 0x7FF0000000000000"
proof -
  assume m: "m < 2 ^ 64"
  show ?thesis
  proof (cases "m = 0")
    case False
    then have b: "0 < m" by simp
    have "2 ^ (bit_count m - 1) < (2 :: nat) ^ 64" using bit_count_bounds [OF b] m by linarith
    then have "bit_count m - 1 < 64" by (rule power_less_imp_less_exp [rotated]) simp
    then have "(bit_count m + 1021) * 2 ^ 52 \<le> 1085 * (2 :: nat) ^ 52"
      by (intro mult_right_mono) simp_all
    then have "nat_double_bits m \<le> 1085 * 2 ^ 52 + 2 ^ 53"
      using round_bounds(2) [OF b refl] by (simp add: nat_double_bits_def Let_def)
    then show ?thesis by simp
  qed (simp add: nat_double_bits_def)
qed

definition int_key :: "int \<Rightarrow> int" where
  "int_key x = (if x < 0 then - int (nat_double_bits (nat (- x))) else int (nat_double_bits (nat x)))"

lemma uint_of_nat_u64: "n < 2 ^ 64 \<Longrightarrow> uint (of_nat n :: u64) = int n"
  by (simp add: unsigned_of_nat take_bit_nat_eq_self)

lemma int_to_double_key:
  assumes "\<bar>x\<bar> < 2 ^ 64"
  shows "d_key (int_to_double x) = int_key x" and "\<not> d_isnan (int_to_double x)"
proof -
  have b: "nat_double_bits (nat \<bar>x\<bar>) < 0x7FF0000000000000"
    using assms by (intro bits_bound) (simp add: nat_less_iff)
  have "d_magnitude (int_to_double x) = int (nat_double_bits (nat \<bar>x\<bar>)) \<and> d_key (int_to_double x) = int_key x"
  proof (cases "x < 0")
    case True
    have "uint (int_to_double x) = 2 ^ 63 + int (nat_double_bits (nat (- x)))"
      using True b by (simp add: int_to_double_def uint_of_nat_u64 del: of_nat_add of_nat_power)
    then show ?thesis using True by (simp add: d_magnitude_def d_key_def int_key_def)
  next
    case False
    have "uint (int_to_double x) = int (nat_double_bits (nat x))"
      using False b by (simp add: int_to_double_def uint_of_nat_u64)
    then show ?thesis using False b by (simp add: d_magnitude_def d_key_def int_key_def)
  qed
  then show "d_key (int_to_double x) = int_key x" "\<not> d_isnan (int_to_double x)"
    using b by (auto simp: d_isnan_def)
qed

lemma nat_bits_pos: "0 < m \<Longrightarrow> 0 < nat_double_bits m"
  using bit_count_bounds [of m] by (simp add: nat_double_bits_def Let_def)

lemma int_key_mono: "x \<le> y \<Longrightarrow> int_key x \<le> int_key y"
  by (auto simp: int_key_def intro!: bits_mono)

lemma int_key_strict: "x < y \<Longrightarrow> \<bar>x\<bar> \<le> 2 ^ 53 \<Longrightarrow> \<bar>y\<bar> \<le> 2 ^ 53 \<Longrightarrow> int_key x < int_key y"
proof -
  assume a: "x < y" "\<bar>x\<bar> \<le> 2 ^ 53" "\<bar>y\<bar> \<le> 2 ^ 53"
  consider "0 \<le> x" | "x < 0" "0 \<le> y" | "y < 0" by linarith
  then show ?thesis
  proof cases
    case 1
    then show ?thesis using a by (auto simp: int_key_def intro!: bits_strict)
  next
    case 2
    then show ?thesis using nat_bits_pos [of "nat (- x)"] by (auto simp: int_key_def)
  next
    case 3
    then show ?thesis using a by (auto simp: int_key_def intro!: bits_strict)
  qed
qed

text \<open>The comparisons of two converted integers.\<close>

lemma converted_compare:
  assumes "\<bar>x\<bar> < 2 ^ 64" "\<bar>y\<bar> < 2 ^ 64"
  shows "d_eq (int_to_double x) (int_to_double y) \<longleftrightarrow> int_key x = int_key y"
    and "d_lt (int_to_double x) (int_to_double y) \<longleftrightarrow> int_key x < int_key y"
    and "d_le (int_to_double x) (int_to_double y) \<longleftrightarrow> int_key x \<le> int_key y"
  using assms by (simp_all add: d_eq_def d_lt_def d_le_def int_to_double_key)

end
