(* ===== verification/Like_Match.thy ===== *)
theory Like_Match
  imports Prelude
begin

text \<open>
  The LIKE matcher (\<open>matchesLikePatternImpl\<close> in \<open>src/query/executor/ExecutorUtils.cpp\<close>): the pattern
  is cut into tokens, and a loop with one saved wildcard position walks over the value.  The loop
  is a partial function on the code's indices; \<open>like_loop_correct\<close> proves that it returns, with
  the answer of a declarative reference matcher.
\<close>

section \<open>Tokens\<close>

datatype ptoken = LITERAL char | ANY | SINGLE

fun tokenize :: "string \<Rightarrow> ptoken list" where
  "tokenize [] = []"
| "tokenize [c] =
     (if c = CHR ''%'' \<or> c = CHR ''*'' then [ANY] else if c = CHR ''_'' then [SINGLE] else [LITERAL c])"
| "tokenize (c # d # rest) =
     (if c = CHR 0x5C then LITERAL d # tokenize rest
      else if c = CHR ''%'' \<or> c = CHR ''*'' then ANY # tokenize (d # rest)
      else if c = CHR ''_'' then SINGLE # tokenize (d # rest)
      else LITERAL c # tokenize (d # rest))"

text \<open>\<open>std::tolower\<close> of the C locale on an unsigned char.\<close>

definition tolower :: "char \<Rightarrow> char" where
  "tolower c = (let n = of_char c :: nat in if 65 \<le> n \<and> n \<le> 90 then char_of (n + 32) else c)"

definition equalIgnoreCase :: "char \<Rightarrow> char \<Rightarrow> bool" where
  "equalIgnoreCase a b \<longleftrightarrow> tolower a = tolower b"

definition token_eats :: "ptoken \<Rightarrow> char \<Rightarrow> bool" where
  "token_eats tok c \<longleftrightarrow> (case tok of SINGLE \<Rightarrow> True | LITERAL l \<Rightarrow> equalIgnoreCase l c | ANY \<Rightarrow> False)"

section \<open>The loop\<close>

fun skip_any :: "ptoken list \<Rightarrow> ptoken list" where
  "skip_any (ANY # toks) = skip_any toks"
| "skip_any toks = toks"

partial_function (option) like_loop ::
  "ptoken list \<Rightarrow> string \<Rightarrow> nat \<Rightarrow> nat \<Rightarrow> nat option \<Rightarrow> nat \<Rightarrow> bool option" where
  "like_loop tokens v value_index token_index wildcard_token wildcard_value =
     (if value_index < length v then
        if token_index < length tokens \<and> token_eats (tokens ! token_index) (v ! value_index)
        then like_loop tokens v (value_index + 1) (token_index + 1) wildcard_token wildcard_value
        else if token_index < length tokens \<and> tokens ! token_index = ANY
        then like_loop tokens v value_index (token_index + 1) (Some token_index) value_index
        else (case wildcard_token of
            Some w \<Rightarrow> like_loop tokens v (wildcard_value + 1) (w + 1) wildcard_token (wildcard_value + 1)
          | None \<Rightarrow> Some False)
      else Some (skip_any (drop token_index tokens) = []))"

definition matchesLikePattern :: "string \<Rightarrow> string \<Rightarrow> bool option" where
  "matchesLikePattern v pat = like_loop (tokenize pat) v 0 0 None 0"

section \<open>Reference\<close>

text \<open>A token list matches a string: a literal or \<open>_\<close> takes one character, \<open>%\<close> and \<open>*\<close> any number.\<close>

fun glob :: "ptoken list \<Rightarrow> string \<Rightarrow> bool" where
  "glob [] s \<longleftrightarrow> s = []"
| "glob (ANY # ts) [] \<longleftrightarrow> glob ts []"
| "glob (ANY # ts) (c # s) \<longleftrightarrow> glob ts (c # s) \<or> glob (ANY # ts) s"
| "glob (t # ts) [] \<longleftrightarrow> False"
| "glob (t # ts) (c # s) \<longleftrightarrow> token_eats t c \<and> glob ts s"

lemma glob_ANY: "glob (ANY # ts) s \<longleftrightarrow> (\<exists>k\<le>length s. glob ts (drop k s))"
proof (induction s)
  case (Cons c s)
  have "(\<exists>k\<le>length (c # s). glob ts (drop k (c # s))) \<longleftrightarrow>
      glob ts (c # s) \<or> (\<exists>k\<le>length s. glob ts (drop k s))" (is "?l \<longleftrightarrow> ?r")
  proof
    assume ?l
    then obtain k where k: "k \<le> length (c # s)" "glob ts (drop k (c # s))" by blast
    then show ?r by (cases k) auto
  next
    assume ?r
    then show ?l by (metis Suc_le_mono drop0 drop_Suc_Cons le0 length_Cons)
  qed
  then show ?case using Cons.IH by simp
qed simp

lemma glob_ANY_drop: "glob (ANY # ts) (drop k s) \<Longrightarrow> glob (ANY # ts) s"
  by (induction s arbitrary: k) (auto simp: drop_Cons split: nat.splits)

definition eats_all :: "ptoken list \<Rightarrow> string \<Rightarrow> bool" where
  "eats_all = list_all2 token_eats"

lemma not_eats_ANY [simp]: "\<not> token_eats ANY c"
  by (simp add: token_eats_def)

lemma glob_nonANY: "t \<noteq> ANY \<Longrightarrow> glob (t # ts) s \<longleftrightarrow> (\<exists>c s'. s = c # s' \<and> token_eats t c \<and> glob ts s')"
  by (cases t; cases s) auto

lemma glob_prefix:
  "ANY \<notin> set ls \<Longrightarrow> glob (ls @ ts) s \<longleftrightarrow> (\<exists>u v. s = u @ v \<and> eats_all ls u \<and> glob ts v)"
proof (induction ls arbitrary: s)
  case Nil
  then show ?case by (simp add: eats_all_def)
next
  case (Cons l ls)
  then have l: "l \<noteq> ANY" by auto
  have "glob ((l # ls) @ ts) s \<longleftrightarrow> (\<exists>c s'. s = c # s' \<and> token_eats l c \<and> (\<exists>u v. s' = u @ v \<and> eats_all ls u \<and> glob ts v))"
    using Cons glob_nonANY [OF l] by simp
  also have "\<dots> \<longleftrightarrow> (\<exists>u v. s = u @ v \<and> eats_all (l # ls) u \<and> glob ts v)"
    by (auto simp: eats_all_def list_all2_Cons1, metis append_Cons, blast)
  finally show ?case .
qed

lemma eats_all_length: "eats_all ls u \<Longrightarrow> length u = length ls"
  by (simp add: eats_all_def list_all2_lengthD)

lemma glob_nil: "glob ts [] \<longleftrightarrow> skip_any ts = []"
  by (induction ts rule: skip_any.induct) auto

section \<open>Correctness of the loop\<close>

text \<open>
  The invariant: since the saved wildcard, the tokens up to the current one have eaten exactly the
  characters between the saved position and the current one.
\<close>

definition loop_inv :: "ptoken list \<Rightarrow> string \<Rightarrow> nat \<Rightarrow> nat \<Rightarrow> nat option \<Rightarrow> nat \<Rightarrow> bool" where
  "loop_inv ts v vi ti wt wv \<longleftrightarrow> vi \<le> length v \<and> ti \<le> length ts \<and>
     (case wt of None \<Rightarrow> True
      | Some w \<Rightarrow> w < ti \<and> wv \<le> vi \<and> ts ! w = ANY \<and>
          eats_all (take (ti - Suc w) (drop (Suc w) ts)) (take (vi - wv) (drop wv v)))"

text \<open>What the loop still has to decide: a match from here, or one that starts after the saved position.\<close>

definition answer :: "ptoken list \<Rightarrow> string \<Rightarrow> nat \<Rightarrow> nat \<Rightarrow> nat option \<Rightarrow> nat \<Rightarrow> bool" where
  "answer ts v vi ti wt wv \<longleftrightarrow> glob (drop ti ts) (drop vi v) \<or>
     (case wt of None \<Rightarrow> False
      | Some w \<Rightarrow> \<exists>k. wv < k \<and> k \<le> length v \<and> glob (drop (Suc w) ts) (drop k v))"

lemma eats_no_ANY: "eats_all ls u \<Longrightarrow> ANY \<notin> set ls"
  by (auto simp: eats_all_def list_all2_conv_all_nth in_set_conv_nth)

lemma step_eats:
  assumes inv: "loop_inv ts v vi ti wt wv" and vi: "vi < length v" and ti: "ti < length ts"
    and eats: "token_eats (ts ! ti) (v ! vi)"
  shows "loop_inv ts v (vi + 1) (ti + 1) wt wv" and "answer ts v vi ti wt wv \<longleftrightarrow> answer ts v (vi + 1) (ti + 1) wt wv"
proof -
  have dv: "drop vi v = v ! vi # drop (Suc vi) v" and dt: "drop ti ts = ts ! ti # drop (Suc ti) ts"
    using vi ti by (simp_all add: Cons_nth_drop_Suc)
  have "glob (drop ti ts) (drop vi v) \<longleftrightarrow> glob (drop (Suc ti) ts) (drop (Suc vi) v)"
    using eats by (cases "ts ! ti") (simp_all add: dv dt)
  then show "answer ts v vi ti wt wv \<longleftrightarrow> answer ts v (vi + 1) (ti + 1) wt wv"
    by (simp add: answer_def)
  show "loop_inv ts v (vi + 1) (ti + 1) wt wv"
  proof (cases wt)
    case None
    then show ?thesis using inv vi ti by (simp add: loop_inv_def)
  next
    case (Some w)
    have w: "w < ti" "wv \<le> vi" "ts ! w = ANY"
      "eats_all (take (ti - Suc w) (drop (Suc w) ts)) (take (vi - wv) (drop wv v))"
      using inv Some by (simp_all add: loop_inv_def)
    have "take (Suc ti - Suc w) (drop (Suc w) ts) = take (ti - Suc w) (drop (Suc w) ts) @ [ts ! ti]"
      using w(1) ti by (simp add: Suc_diff_le take_Suc_conv_app_nth Suc_diff_Suc [symmetric])
    moreover have "take (Suc vi - wv) (drop wv v) = take (vi - wv) (drop wv v) @ [v ! vi]"
      using w(2) vi by (simp add: Suc_diff_le take_Suc_conv_app_nth)
    ultimately have "eats_all (take (Suc ti - Suc w) (drop (Suc w) ts)) (take (Suc vi - wv) (drop wv v))"
      using w(4) eats by (simp add: eats_all_def list_all2_appendI)
    then show ?thesis using w(1,2,3) Some vi ti by (simp add: loop_inv_def)
  qed
qed

lemma ex_le_split: "i \<le> n \<Longrightarrow> (\<exists>k\<le>n. i \<le> k \<and> P k) \<longleftrightarrow> P i \<or> (\<exists>k. i < k \<and> k \<le> n \<and> P k)" for i n :: nat
proof -
  assume "i \<le> n"
  moreover have "i \<le> k \<longleftrightarrow> k = i \<or> i < k" for k by auto
  ultimately show ?thesis by auto
qed

lemma step_any:
  assumes inv: "loop_inv ts v vi ti wt wv" and vi: "vi < length v" and ti: "ti < length ts" and any: "ts ! ti = ANY"
  shows "loop_inv ts v vi (ti + 1) (Some ti) vi" and "answer ts v vi ti wt wv \<longleftrightarrow> answer ts v vi (ti + 1) (Some ti) vi"
proof -
  show "loop_inv ts v vi (ti + 1) (Some ti) vi"
    using vi ti any by (simp add: loop_inv_def eats_all_def)
  let ?rest = "drop (Suc ti) ts"
  have dt: "drop ti ts = ANY # ?rest" using ti any by (simp add: Cons_nth_drop_Suc [symmetric])
  have here: "glob (ANY # ?rest) (drop vi v) \<longleftrightarrow> answer ts v vi (ti + 1) (Some ti) vi"
  proof -
    have "glob (ANY # ?rest) (drop vi v) \<longleftrightarrow> (\<exists>j\<le>length v - vi. glob ?rest (drop (j + vi) v))"
      by (simp add: glob_ANY)
    also have "\<dots> \<longleftrightarrow> (\<exists>k\<le>length v. vi \<le> k \<and> glob ?rest (drop k v))"
    proof
      assume "\<exists>j\<le>length v - vi. glob ?rest (drop (j + vi) v)"
      then obtain j where j: "j \<le> length v - vi" "glob ?rest (drop (j + vi) v)" by blast
      have "j + vi \<le> length v" using j(1) vi by simp
      then show "\<exists>k\<le>length v. vi \<le> k \<and> glob ?rest (drop k v)" using j(2) by (intro exI [of _ "j + vi"]) simp
    next
      assume "\<exists>k\<le>length v. vi \<le> k \<and> glob ?rest (drop k v)"
      then obtain k where k: "k \<le> length v" "vi \<le> k" "glob ?rest (drop k v)" by blast
      then show "\<exists>j\<le>length v - vi. glob ?rest (drop (j + vi) v)"
        by (intro exI [of _ "k - vi"]) (simp add: diff_le_mono)
    qed
    also have "\<dots> \<longleftrightarrow> glob ?rest (drop vi v) \<or> (\<exists>k. vi < k \<and> k \<le> length v \<and> glob ?rest (drop k v))"
      by (rule ex_le_split) (use vi in simp)
    also have "\<dots> \<longleftrightarrow> answer ts v vi (ti + 1) (Some ti) vi"
      by (simp add: answer_def)
    finally show ?thesis .
  qed
  have "glob (ANY # ?rest) (drop vi v)"
    if w: "wt = Some w" and k: "wv < k" "k \<le> length v" "glob (drop (Suc w) ts) (drop k v)" for w k
  proof -
    have i: "w < ti" "wv \<le> vi" "eats_all (take (ti - Suc w) (drop (Suc w) ts)) (take (vi - wv) (drop wv v))"
      using inv w by (simp_all add: loop_inv_def)
    let ?L = "take (ti - Suc w) (drop (Suc w) ts)"
    have split: "drop (Suc w) ts = ?L @ ANY # ?rest"
      using i(1) dt by (metis Suc_leI add_diff_cancel_left' append_take_drop_id drop_drop le_add_diff_inverse2)
    obtain u x where u: "drop k v = u @ x" "eats_all ?L u" "glob (ANY # ?rest) x"
      using k(3) glob_prefix [OF eats_no_ANY [OF i(3)], of "ANY # ?rest" "drop k v"] split by auto
    have "length u = vi - wv"
      using eats_all_length [OF u(2)] eats_all_length [OF i(3)] vi i(2) by simp
    then have "x = drop (k + (vi - wv)) v"
      using u(1) by (metis append_eq_conv_conj drop_drop add.commute)
    moreover have "drop (k + (vi - wv)) v = drop (k - wv) (drop vi v)"
      using k(1) i(2) by (simp add: add.commute)
    ultimately show ?thesis using u(3) glob_ANY_drop [of ?rest "k - wv" "drop vi v"] by simp
  qed
  then show "answer ts v vi ti wt wv \<longleftrightarrow> answer ts v vi (ti + 1) (Some ti) vi"
    unfolding here [symmetric] by (auto simp: answer_def dt split: option.splits)
qed

lemma step_back:
  assumes inv: "loop_inv ts v vi ti (Some w) wv" and vi: "vi < length v"
    and stuck: "\<not> (ti < length ts \<and> token_eats (ts ! ti) (v ! vi))" "\<not> (ti < length ts \<and> ts ! ti = ANY)"
  shows "loop_inv ts v (wv + 1) (w + 1) (Some w) (wv + 1)"
    and "answer ts v vi ti (Some w) wv \<longleftrightarrow> answer ts v (wv + 1) (w + 1) (Some w) (wv + 1)"
    and "\<not> glob (drop ti ts) (drop vi v)"
proof -
  have dv: "drop vi v = v ! vi # drop (Suc vi) v" using vi by (simp add: Cons_nth_drop_Suc)
  show no: "\<not> glob (drop ti ts) (drop vi v)"
  proof (cases "ti < length ts")
    case True
    then have dt: "drop ti ts = ts ! ti # drop (Suc ti) ts" by (simp add: Cons_nth_drop_Suc)
    show ?thesis using True stuck by (cases "ts ! ti") (simp_all add: dv dt)
  qed (simp add: dv)
  have i: "w < ti" "wv \<le> vi" "ts ! w = ANY" "ti \<le> length ts" using inv by (simp_all add: loop_inv_def)
  then show "loop_inv ts v (wv + 1) (w + 1) (Some w) (wv + 1)"
    using vi by (simp add: loop_inv_def eats_all_def)
  have "(\<exists>k. wv < k \<and> k \<le> length v \<and> glob (drop (Suc w) ts) (drop k v)) \<longleftrightarrow>
      glob (drop (Suc w) ts) (drop (Suc wv) v) \<or>
      (\<exists>k. Suc wv < k \<and> k \<le> length v \<and> glob (drop (Suc w) ts) (drop k v))"
  proof -
    have "(\<exists>k. wv < k \<and> k \<le> length v \<and> glob (drop (Suc w) ts) (drop k v)) \<longleftrightarrow>
        (\<exists>k\<le>length v. Suc wv \<le> k \<and> glob (drop (Suc w) ts) (drop k v))" by (auto simp: Suc_le_eq)
    also have "\<dots> \<longleftrightarrow> glob (drop (Suc w) ts) (drop (Suc wv) v) \<or>
        (\<exists>k. Suc wv < k \<and> k \<le> length v \<and> glob (drop (Suc w) ts) (drop k v))"
      by (rule ex_le_split) (use i(2) vi in simp)
    finally show ?thesis .
  qed
  then show "answer ts v vi ti (Some w) wv \<longleftrightarrow> answer ts v (wv + 1) (w + 1) (Some w) (wv + 1)"
    using no by (simp add: answer_def)
qed

lemma stuck_without_wildcard:
  assumes "vi < length v" "\<not> (ti < length ts \<and> token_eats (ts ! ti) (v ! vi))"
    "\<not> (ti < length ts \<and> ts ! ti = ANY)"
  shows "\<not> answer ts v vi ti None wv"
proof -
  have dv: "drop vi v = v ! vi # drop (Suc vi) v" using assms(1) by (simp add: Cons_nth_drop_Suc)
  show ?thesis
  proof (cases "ti < length ts")
    case True
    then have dt: "drop ti ts = ts ! ti # drop (Suc ti) ts" by (simp add: Cons_nth_drop_Suc)
    show ?thesis using True assms(2,3) by (cases "ts ! ti") (simp_all add: dv dt answer_def)
  qed (simp add: dv answer_def)
qed

text \<open>
  Termination: a wildcard step moves the saved token forward, a restart moves the saved position
  forward, and every other step moves the current position forward.
\<close>

definition wild_left :: "ptoken list \<Rightarrow> nat option \<Rightarrow> nat" where
  "wild_left ts wt = (case wt of None \<Rightarrow> Suc (length ts) | Some w \<Rightarrow> length ts - w)"

lemma like_loop_correct:
  "loop_inv ts v vi ti wt wv \<Longrightarrow> wt = None \<longrightarrow> wv = 0 \<Longrightarrow>
     like_loop ts v vi ti wt wv = Some (answer ts v vi ti wt wv)"
proof (induction "(wild_left ts wt, length v - wv, length v - vi)" arbitrary: vi ti wt wv
    rule: wf_induct_rule [OF wf_lex_prod [OF wf_less_than wf_lex_prod [OF wf_less_than wf_less_than]]])
  case (1 vi wt wv ti)
  note inv = \<open>loop_inv ts v vi ti wt wv\<close>
  have ih: "like_loop ts v vi' ti' wt' wv' = Some (answer ts v vi' ti' wt' wv')"
    if "wild_left ts wt' < wild_left ts wt \<or> wild_left ts wt' = wild_left ts wt \<and>
          (length v - wv' < length v - wv \<or> length v - wv' = length v - wv \<and> length v - vi' < length v - vi)"
      "loop_inv ts v vi' ti' wt' wv'" "wt' = None \<longrightarrow> wv' = 0" for vi' ti' wt' wv'
    by (rule 1(1)) (use that in auto)
  show ?case
  proof (cases "vi < length v")
    case False
    then have "vi = length v" using inv by (simp add: loop_inv_def)
    moreover have "\<not> (\<exists>k. wv < k \<and> k \<le> length v \<and> glob (drop (Suc w) ts) (drop k v))"
      if "wt = Some w" "\<not> glob (drop ti ts) []" for w
    proof
      assume "\<exists>k. wv < k \<and> k \<le> length v \<and> glob (drop (Suc w) ts) (drop k v)"
      then obtain k where k: "wv < k" "k \<le> length v" "glob (drop (Suc w) ts) (drop k v)" by blast
      have i: "w < ti" "wv \<le> vi" "ti \<le> length ts"
        "eats_all (take (ti - Suc w) (drop (Suc w) ts)) (take (vi - wv) (drop wv v))"
        using inv that(1) by (simp_all add: loop_inv_def)
      let ?L = "take (ti - Suc w) (drop (Suc w) ts)"
      have "drop (Suc w) ts = ?L @ drop ti ts"
        using i(1) by (metis Suc_leI append_take_drop_id drop_drop le_add_diff_inverse2)
      then obtain u x where u: "drop k v = u @ x" "eats_all ?L u"
        using k(3) glob_prefix [OF eats_no_ANY [OF i(4)], of "drop ti ts" "drop k v"] by auto
      have "length u = vi - wv"
        using eats_all_length [OF u(2)] eats_all_length [OF i(4)] \<open>vi = length v\<close> i(2) by simp
      moreover have "length u \<le> length v - k" using u(1) by (metis length_append length_drop le_add1)
      ultimately show False using k(1,2) i(2) \<open>vi = length v\<close> by linarith
    qed
    ultimately show ?thesis
      by (subst like_loop.simps) (auto simp: answer_def glob_nil split: option.splits)
  next
    case True
    show ?thesis
    proof (cases "ti < length ts \<and> token_eats (ts ! ti) (v ! vi)")
      case eat: True
      then have "like_loop ts v (vi + 1) (ti + 1) wt wv = Some (answer ts v (vi + 1) (ti + 1) wt wv)"
        using step_eats(1) [OF inv True] 1(3) True by (intro ih) auto
      then show ?thesis
        using eat True step_eats(2) [OF inv True] by (subst like_loop.simps) simp
    next
      case no_eat: False
      show ?thesis
      proof (cases "ti < length ts \<and> ts ! ti = ANY")
        case any: True
        have "wild_left ts (Some ti) < wild_left ts wt"
          using any inv by (auto simp: wild_left_def loop_inv_def split: option.splits)
        then have "like_loop ts v vi (ti + 1) (Some ti) vi = Some (answer ts v vi (ti + 1) (Some ti) vi)"
          using step_any(1) [OF inv True] any by (intro ih) auto
        then show ?thesis
          using any no_eat True step_any(2) [OF inv True] by (subst like_loop.simps) simp
      next
        case no_any: False
        show ?thesis
        proof (cases wt)
          case None
          have "\<not> answer ts v vi ti None wv" by (rule stuck_without_wildcard [OF True no_eat no_any])
          then show ?thesis using None no_eat no_any True by (subst like_loop.simps) auto
        next
          case (Some w)
          note bk = step_back [OF inv [unfolded Some] True no_eat no_any]
          have "wv < length v" using inv Some True by (simp add: loop_inv_def)
          then have "like_loop ts v (wv + 1) (w + 1) (Some w) (wv + 1) =
              Some (answer ts v (wv + 1) (w + 1) (Some w) (wv + 1))"
            using bk(1) Some by (intro ih) auto
          then show ?thesis
            using Some no_eat no_any True bk(2) by (subst like_loop.simps) auto
        qed
      qed
    qed
  qed
qed

lemma like_total: "matchesLikePattern v pat = Some (glob (tokenize pat) v)"
proof -
  have "loop_inv (tokenize pat) v 0 0 None 0" by (simp add: loop_inv_def)
  then show ?thesis
    unfolding matchesLikePattern_def by (subst like_loop_correct) (simp_all add: answer_def)
qed

text \<open>A value with a backslash before each character.\<close>

definition escape :: "string \<Rightarrow> string" where
  "escape s = concat (map (\<lambda>c. [CHR 0x5C, c]) s)"

section \<open>Properties\<close>

text \<open>
  C23. The LIKE matcher always returns, and its answer is the declarative one: the tokens of the
  pattern match the whole value, where \<open>%\<close> and \<open>*\<close> stand for any number of characters, \<open>_\<close> for one,
  and every other character, or one after a backslash, for itself up to ASCII case.
\<close>

theorem like_matcher_total_correct:
  "matchesLikePattern v pat = Some (glob (tokenize pat) v)"
  by (rule like_total)

text \<open>
  Escaping.  A value with a backslash put before each of its characters is a pattern that
  matches, among all values, exactly those equal to it up to ASCII case.
\<close>

theorem escaped_pattern_matches_itself_only:
  "matchesLikePattern v (escape s) = Some (map tolower v = map tolower s)"
proof -
  have "tokenize (escape s) = map LITERAL s" by (induction s) (simp_all add: escape_def)
  moreover have "glob (map LITERAL s) v \<longleftrightarrow> map tolower v = map tolower s"
  proof (induction s arbitrary: v)
    case (Cons c s)
    show ?case using Cons.IH by (cases v) (auto simp: token_eats_def equalIgnoreCase_def)
  qed simp
  ultimately show ?thesis by (simp add: like_total)
qed

end
