(* ===== verification/Predicates.thy ===== *)
theory Predicates
  imports Double_Order Like_Match "HOL-Library.Sublist"
begin

text \<open>
  The evaluation of predicates on a row and the local filter
  (\<open>src/query/executor/ExecutorUtils.cpp\<close>, \<open>include/query/IQueryable.h\<close>).  A record batch is a list
  of rows under a schema of column names.  Arrow's name lookup \<open>Schema::GetFieldIndex\<close> is the
  parameter \<open>gfi\<close>.  Doubles are bit patterns, 64-bit integers are \<open>int\<close> or \<open>nat\<close> values.
\<close>

section \<open>Values\<close>

text \<open>
  An Arrow scalar by the classes the code distinguishes; a union carries its own validity flag and
  its child, and \<open>SC_Other\<close> is a valid scalar of a type the engine does not compare.
\<close>

datatype ascalar =
    SC_Null
  | SC_String string
  | SC_Bool bool
  | SC_Int int
  | SC_UInt nat
  | SC_Double u64
  | SC_Timestamp int
  | SC_Duration int
  | SC_List "ascalar list"
  | SC_Union bool ascalar
  | SC_Other

fun is_valid :: "ascalar \<Rightarrow> bool" where
  "is_valid SC_Null = False"
| "is_valid (SC_Union v _) = v"
| "is_valid _ = True"

datatype literal =
    Lit_String string
  | Lit_Int int
  | Lit_Double u64
  | Lit_Bool bool
  | Lit_Timestamp int
  | Lit_Duration int

datatype NativeScalar =
    N_Null
  | N_String string
  | N_Bool bool
  | N_Int int
  | N_UInt nat
  | N_Double u64
  | N_Timestamp int
  | N_Duration int
  | N_Unsupported

fun nativeScalarFromArrow :: "ascalar \<Rightarrow> NativeScalar" where
  "nativeScalarFromArrow (SC_Union v child) = (if v then nativeScalarFromArrow child else N_Null)"
| "nativeScalarFromArrow SC_Null = N_Null"
| "nativeScalarFromArrow (SC_String s) = N_String s"
| "nativeScalarFromArrow (SC_Bool b) = N_Bool b"
| "nativeScalarFromArrow (SC_Int i) = N_Int i"
| "nativeScalarFromArrow (SC_UInt n) = N_UInt n"
| "nativeScalarFromArrow (SC_Double d) = N_Double d"
| "nativeScalarFromArrow (SC_Timestamp t) = N_Timestamp t"
| "nativeScalarFromArrow (SC_Duration t) = N_Duration t"
| "nativeScalarFromArrow (SC_List xs) = N_Unsupported"
| "nativeScalarFromArrow SC_Other = N_Unsupported"

fun nativeScalarFromLiteral :: "literal \<Rightarrow> NativeScalar" where
  "nativeScalarFromLiteral (Lit_String s) = N_String s"
| "nativeScalarFromLiteral (Lit_Int i) = N_Int i"
| "nativeScalarFromLiteral (Lit_Double d) = N_Double d"
| "nativeScalarFromLiteral (Lit_Bool b) = N_Bool b"
| "nativeScalarFromLiteral (Lit_Timestamp t) = N_Timestamp t"
| "nativeScalarFromLiteral (Lit_Duration t) = N_Duration t"

datatype PredicateOp =
    EQ | NEQ | LT | LTE | GT | GTE | IN | PREFIX | CONTAINS | LIKE | BETWEEN | IS_NULL | IS_NOT_NULL

record Predicate =
  pr_column :: string
  pr_op :: PredicateOp
  pr_values :: "literal list"

section \<open>Comparison\<close>

fun compareNumeric :: "u64 \<Rightarrow> u64 \<Rightarrow> PredicateOp \<Rightarrow> bool" where
  "compareNumeric lhs rhs EQ = d_eq lhs rhs"
| "compareNumeric lhs rhs NEQ = (\<not> d_eq lhs rhs)"
| "compareNumeric lhs rhs LT = d_lt lhs rhs"
| "compareNumeric lhs rhs LTE = d_le lhs rhs"
| "compareNumeric lhs rhs GT = d_lt rhs lhs"
| "compareNumeric lhs rhs GTE = d_le rhs lhs"
| "compareNumeric _ _ _ = False"

text \<open>The division of C++ on \<open>int64_t\<close>, which truncates.\<close>

definition cpp_div :: "int \<Rightarrow> int \<Rightarrow> int" where
  "cpp_div a b = (if a \<ge> 0 then a div b else - ((- a) div b))"

fun compareStrings :: "string \<Rightarrow> string \<Rightarrow> PredicateOp \<Rightarrow> bool" where
  "compareStrings lhs rhs EQ = (lhs = rhs)"
| "compareStrings lhs rhs NEQ = (lhs \<noteq> rhs)"
| "compareStrings lhs rhs PREFIX = prefix rhs lhs"
| "compareStrings lhs rhs CONTAINS = sublist rhs lhs"
| "compareStrings lhs rhs LIKE = (matchesLikePattern lhs rhs = Some True)"
| "compareStrings lhs rhs LT = (lhs < rhs)"
| "compareStrings lhs rhs LTE = (lhs \<le> rhs)"
| "compareStrings lhs rhs GT = (lhs > rhs)"
| "compareStrings lhs rhs GTE = (lhs \<ge> rhs)"
| "compareStrings _ _ _ = False"

fun compareBools :: "bool \<Rightarrow> bool \<Rightarrow> PredicateOp \<Rightarrow> bool" where
  "compareBools lhs rhs EQ = (lhs = rhs)"
| "compareBools lhs rhs NEQ = (lhs \<noteq> rhs)"
| "compareBools _ _ _ = False"

fun as_double :: "NativeScalar \<Rightarrow> u64 option" where
  "as_double (N_Int i) = Some (int_to_double i)"
| "as_double (N_UInt n) = Some (int_to_double (int n))"
| "as_double (N_Double d) = Some d"
| "as_double _ = None"

fun compareSingle :: "NativeScalar \<Rightarrow> literal \<Rightarrow> PredicateOp \<Rightarrow> bool" where
  "compareSingle native lit op =
     (let native_literal = nativeScalarFromLiteral lit in
      case (native, native_literal) of
        (N_Timestamp t, N_Int i) \<Rightarrow> compareNumeric (int_to_double (cpp_div t 1000000000)) (int_to_double i) op
      | (N_Timestamp t, N_Timestamp u) \<Rightarrow> compareNumeric (int_to_double t) (int_to_double u) op
      | (N_Duration t, N_Duration u) \<Rightarrow> compareNumeric (int_to_double t) (int_to_double u) op
      | (N_String a, N_String b) \<Rightarrow> compareStrings a b op
      | (N_Bool a, N_Bool b) \<Rightarrow> compareBools a b op
      | _ \<Rightarrow> (case (as_double native, as_double native_literal) of
               (Some a, Some b) \<Rightarrow> compareNumeric a b op
             | _ \<Rightarrow> False))"

fun between_literal :: "literal \<Rightarrow> bool" where
  "between_literal (Lit_Int _) = True"
| "between_literal (Lit_Double _) = True"
| "between_literal (Lit_Timestamp _) = True"
| "between_literal (Lit_Duration _) = True"
| "between_literal _ = False"

definition matchesBetween :: "NativeScalar \<Rightarrow> literal list \<Rightarrow> bool" where
  "matchesBetween native vals =
     (case vals of
        [a, b] \<Rightarrow>
          if \<not> between_literal a \<or> \<not> between_literal b then False
          else (case (native, a, b) of
              (N_Timestamp t, Lit_Timestamp lo, Lit_Timestamp hi) \<Rightarrow> t \<ge> lo \<and> t \<le> hi
            | (N_Duration t, Lit_Duration lo, Lit_Duration hi) \<Rightarrow> t \<ge> lo \<and> t \<le> hi
            | _ \<Rightarrow> (case (as_double native, as_double (nativeScalarFromLiteral a), as_double (nativeScalarFromLiteral b)) of
                (Some x, Some lo, Some hi) \<Rightarrow> d_le lo x \<and> d_le x hi
              | _ \<Rightarrow> False))
      | _ \<Rightarrow> False)"

definition scalarMatchesPredicate :: "ascalar \<Rightarrow> PredicateOp \<Rightarrow> literal list \<Rightarrow> bool" where
  "scalarMatchesPredicate scalar op vals =
     (if op = IS_NULL then \<not> is_valid scalar
      else if op = IS_NOT_NULL then is_valid scalar
      else if \<not> is_valid scalar then False
      else let native = nativeScalarFromArrow scalar in
        if native = N_Null \<or> native = N_Unsupported then False
        else if op = IN then (\<exists>v\<in>set vals. compareSingle native v EQ)
        else if op = BETWEEN then matchesBetween native vals
        else (case vals of [] \<Rightarrow> False | v # _ \<Rightarrow> compareSingle native v op))"

definition listContainsPredicateValue :: "ascalar \<Rightarrow> Predicate \<Rightarrow> bool" where
  "listContainsPredicateValue scalar p =
     (case scalar of
        SC_List xs \<Rightarrow> (\<exists>x\<in>set xs. scalarMatchesPredicate x (pr_op p) (pr_values p))
      | _ \<Rightarrow> False)"

section \<open>Three-valued truth\<close>

datatype truth = FALSE_VALUE | TRUE_VALUE | UNKNOWN

type_synonym row = "ascalar list"

fun suffix_index :: "string \<Rightarrow> string list \<Rightarrow> nat \<Rightarrow> nat option" where
  "suffix_index suf [] i = None"
| "suffix_index suf (name # names) i =
     (if length name > length suf \<and> drop (length name - length suf) name = suf then Some i
      else suffix_index suf names (i + 1))"

definition predicateFieldIndex ::
  "(string list \<Rightarrow> string \<Rightarrow> nat option) \<Rightarrow> string list \<Rightarrow> string \<Rightarrow> nat option" where
  "predicateFieldIndex gfi schema column =
     (case gfi schema column of
        Some i \<Rightarrow> Some i
      | None \<Rightarrow> suffix_index (CHR ''.'' # column) schema 0)"

definition predicateTruth ::
  "(string list \<Rightarrow> string \<Rightarrow> nat option) \<Rightarrow> string list \<Rightarrow> row \<Rightarrow> Predicate \<Rightarrow> truth" where
  "predicateTruth gfi schema row p =
     (if pr_column p = ''tag'' then
        (case predicateFieldIndex gfi schema ''tags'' of
           None \<Rightarrow> UNKNOWN
         | Some i \<Rightarrow> if listContainsPredicateValue (row ! i) p then TRUE_VALUE else FALSE_VALUE)
      else
        (case predicateFieldIndex gfi schema (pr_column p) of
           None \<Rightarrow> UNKNOWN
         | Some i \<Rightarrow>
             let null_test = pr_op p = IS_NULL \<or> pr_op p = IS_NOT_NULL; scalar = row ! i in
             if \<not> null_test \<and> \<not> is_valid scalar then UNKNOWN
             else if scalarMatchesPredicate scalar (pr_op p) (pr_values p) then TRUE_VALUE else FALSE_VALUE))"

text \<open>The boolean tree; \<open>NOT\<close> uses its first child, and a \<open>NOT\<close> without one is not formed.\<close>

datatype PredicateGroup =
    G_Leaf Predicate
  | G_And "PredicateGroup list"
  | G_Or "PredicateGroup list"
  | G_Not PredicateGroup

text \<open>The loop of \<open>AND\<close> and \<open>OR\<close> over the children's values, with its early return.\<close>

fun connective :: "truth \<Rightarrow> bool \<Rightarrow> truth list \<Rightarrow> truth" where
  "connective decisive unknown [] =
     (if unknown then UNKNOWN else if decisive = FALSE_VALUE then TRUE_VALUE else FALSE_VALUE)"
| "connective decisive unknown (v # vs) =
     (if v = decisive then decisive else connective decisive (unknown \<or> v = UNKNOWN) vs)"

fun groupTruth ::
  "(string list \<Rightarrow> string \<Rightarrow> nat option) \<Rightarrow> string list \<Rightarrow> row \<Rightarrow> PredicateGroup \<Rightarrow> truth" where
  "groupTruth gfi schema row (G_Leaf p) = predicateTruth gfi schema row p"
| "groupTruth gfi schema row (G_Not g) =
     (case groupTruth gfi schema row g of
        UNKNOWN \<Rightarrow> UNKNOWN | TRUE_VALUE \<Rightarrow> FALSE_VALUE | FALSE_VALUE \<Rightarrow> TRUE_VALUE)"
| "groupTruth gfi schema row (G_And gs) = connective FALSE_VALUE False (map (groupTruth gfi schema row) gs)"
| "groupTruth gfi schema row (G_Or gs) = connective TRUE_VALUE False (map (groupTruth gfi schema row) gs)"

section \<open>The filter\<close>

fun all_true :: "('p \<Rightarrow> truth) \<Rightarrow> 'p list \<Rightarrow> bool" where
  "all_true f [] = True"
| "all_true f (p # ps) = (if f p \<noteq> TRUE_VALUE then False else all_true f ps)"

definition include_row ::
  "(string list \<Rightarrow> string \<Rightarrow> nat option) \<Rightarrow> string list \<Rightarrow> Predicate list \<Rightarrow> PredicateGroup list \<Rightarrow> row \<Rightarrow> bool" where
  "include_row gfi schema preds groups row =
     (all_true (predicateTruth gfi schema row) preds \<and> all_true (groupTruth gfi schema row) groups)"

text \<open>
  \<open>selectUnionSafeRows\<close>: the selected row numbers are cut into runs of consecutive numbers, and each
  run is copied as a slice.  \<open>run_end\<close> is the inner loop.
\<close>

fun run_end :: "nat list \<Rightarrow> nat \<Rightarrow> nat \<times> nat list" where
  "run_end [] last_row = (last_row, [])"
| "run_end (r # rs) last_row = (if r = last_row + 1 then run_end rs r else (last_row, r # rs))"

lemma run_end_length: "length (snd (run_end rs l)) \<le> length rs"
  by (induction rs l rule: run_end.induct) auto

function slices :: "nat list \<Rightarrow> (nat \<times> nat) list" where
  "slices [] = []"
| "slices (first_row # rest) =
     (let (last_row, remaining) = run_end rest first_row
      in (first_row, last_row + 1 - first_row) # slices remaining)"
  by pat_completeness auto
termination
proof (relation "measure length", goal_cases)
  case (2 first_row rest x last_row remaining)
  then have "remaining = snd (run_end rest first_row)" by (metis snd_conv)
  then show ?case using run_end_length [of rest first_row] by (simp add: le_imp_less_Suc)
qed simp

definition selectUnionSafeRows :: "'a list \<Rightarrow> nat list \<Rightarrow> 'a list" where
  "selectUnionSafeRows rows selected =
     concat (map (\<lambda>(first_row, n). take n (drop first_row rows)) (slices selected))"

definition applyFilter ::
  "(string list \<Rightarrow> string \<Rightarrow> nat option) \<Rightarrow> string list \<Rightarrow> bool \<Rightarrow> Predicate list \<Rightarrow> PredicateGroup list \<Rightarrow>
   row list \<Rightarrow> row list" where
  "applyFilter gfi schema has_union preds groups rows =
     (let mask = map (include_row gfi schema preds groups) rows;
          selected_rows = filter (\<lambda>i. mask ! i) [0..<length rows] in
      if has_union then selectUnionSafeRows rows selected_rows
      else map snd (filter fst (zip mask rows)))"

section \<open>Facts\<close>

lemma all_true_iff [simp]: "all_true f ps \<longleftrightarrow> (\<forall>p\<in>set ps. f p = TRUE_VALUE)"
  by (induction ps) auto

lemma run_end_split:
  "sorted_wrt (<) (l # rs) \<Longrightarrow> run_end rs l = (e, remaining) \<Longrightarrow>
     l \<le> e \<and> l # rs = [l..<Suc e] @ remaining"
proof (induction rs l rule: run_end.induct)
  case (2 r rs l)
  show ?case
  proof (cases "r = l + 1")
    case True
    then have "run_end rs r = (e, remaining)" "sorted_wrt (<) (r # rs)" using 2(2,3) by auto
    then have ih: "r \<le> e" "r # rs = [r..<Suc e] @ remaining" using 2(1) [OF True] by auto
    then have "[l..<Suc e] = l # [r..<Suc e]" using True by (simp add: upt_conv_Cons)
    then show ?thesis using ih True by simp
  next
    case False
    then show ?thesis using 2(3) by simp
  qed
qed simp

lemma slice_nth: "f \<le> e \<Longrightarrow> e < length xs \<Longrightarrow> take (Suc e - f) (drop f xs) = map ((!) xs) [f..<Suc e]"
  by (rule nth_equalityI) (auto simp del: upt_Suc)

lemma slices_select:
  "sorted_wrt (<) sel \<Longrightarrow> \<forall>i\<in>set sel. i < length rows \<Longrightarrow>
     selectUnionSafeRows rows sel = map ((!) rows) sel"
proof (induction sel rule: slices.induct)
  case (2 first_row rest)
  obtain e remaining where r: "run_end rest first_row = (e, remaining)" by force
  have s: "first_row \<le> e" "first_row # rest = [first_row..<Suc e] @ remaining"
    using run_end_split [OF 2(2) r] by auto
  have "sorted_wrt (<) remaining" "\<forall>i\<in>set remaining. i < length rows"
    using 2(2,3) unfolding s(2) by (auto simp: sorted_wrt_append)
  then have ih: "selectUnionSafeRows rows remaining = map ((!) rows) remaining"
    using 2(1) r by simp
  have "e \<in> set (first_row # rest)" unfolding s(2) using s(1) by simp
  then have e: "e < length rows" using 2(3) by auto
  have "selectUnionSafeRows rows (first_row # rest) =
      take (Suc e - first_row) (drop first_row rows) @ selectUnionSafeRows rows remaining"
    by (simp add: selectUnionSafeRows_def r)
  then show ?case
    unfolding ih slice_nth [OF s(1) e] by (simp add: s(2) del: upt_Suc)
qed (simp add: selectUnionSafeRows_def)

lemma mask_filter: "map snd (filter fst (zip (map P rows) rows)) = filter P rows"
  by (induction rows) auto

lemma index_filter: "map ((!) rows) (filter (\<lambda>i. map P rows ! i) [0..<length rows]) = filter P rows"
proof -
  have "map ((!) rows) (filter (\<lambda>i. map P rows ! i) [0..<length rows]) =
      map ((!) rows) (filter (\<lambda>i. P (rows ! i)) [0..<length rows])"
    by (intro arg_cong [of _ _ "map _"] filter_cong) auto
  also have "\<dots> = filter P (map ((!) rows) [0..<length rows])"
    by (simp add: filter_map comp_def)
  finally show ?thesis by (simp add: map_nth)
qed

lemma connective_cases:
  "connective FALSE_VALUE u vs = TRUE_VALUE \<longleftrightarrow> \<not> u \<and> (\<forall>v\<in>set vs. v = TRUE_VALUE)"
  "connective FALSE_VALUE u vs = FALSE_VALUE \<longleftrightarrow> FALSE_VALUE \<in> set vs"
  "connective TRUE_VALUE u vs = TRUE_VALUE \<longleftrightarrow> TRUE_VALUE \<in> set vs"
  "connective TRUE_VALUE u vs = FALSE_VALUE \<longleftrightarrow> \<not> u \<and> (\<forall>v\<in>set vs. v = FALSE_VALUE)"
proof (induction vs arbitrary: u)
  case (Cons v vs)
  { case 1 show ?case using Cons.IH by (cases v) auto }
  { case 2 show ?case using Cons.IH by (cases v) auto }
  { case 3 show ?case using Cons.IH by (cases v) auto }
  { case 4 show ?case using Cons.IH by (cases v) auto }
qed auto

lemma truth_eqI: "(a = TRUE_VALUE \<longleftrightarrow> b = TRUE_VALUE) \<Longrightarrow> (a = FALSE_VALUE \<longleftrightarrow> b = FALSE_VALUE) \<Longrightarrow> a = b"
  by (cases a; cases b) auto

lemma group_not: "groupTruth gfi sch row (G_Not g) = TRUE_VALUE \<longleftrightarrow> groupTruth gfi sch row g = FALSE_VALUE"
  "groupTruth gfi sch row (G_Not g) = FALSE_VALUE \<longleftrightarrow> groupTruth gfi sch row g = TRUE_VALUE"
  by (cases "groupTruth gfi sch row g"; simp)+

lemma group_and:
  "groupTruth gfi sch row (G_And gs) = TRUE_VALUE \<longleftrightarrow> (\<forall>g\<in>set gs. groupTruth gfi sch row g = TRUE_VALUE)"
  "groupTruth gfi sch row (G_And gs) = FALSE_VALUE \<longleftrightarrow> (\<exists>g\<in>set gs. groupTruth gfi sch row g = FALSE_VALUE)"
  by (force simp: connective_cases)+

lemma group_or:
  "groupTruth gfi sch row (G_Or gs) = TRUE_VALUE \<longleftrightarrow> (\<exists>g\<in>set gs. groupTruth gfi sch row g = TRUE_VALUE)"
  "groupTruth gfi sch row (G_Or gs) = FALSE_VALUE \<longleftrightarrow> (\<forall>g\<in>set gs. groupTruth gfi sch row g = FALSE_VALUE)"
  by (force simp: connective_cases)+

lemma applyFilter_rows:
  "applyFilter gfi schema has_union preds groups rows = filter (include_row gfi schema preds groups) rows"
proof -
  let ?P = "include_row gfi schema preds groups"
  let ?sel = "filter (\<lambda>i. map ?P rows ! i) [0..<length rows]"
  have "sorted_wrt (<) ?sel" by (rule sorted_wrt_filter) (rule sorted_wrt_upt)
  then have "selectUnionSafeRows rows ?sel = map ((!) rows) ?sel" by (intro slices_select) auto
  then show ?thesis by (simp add: applyFilter_def Let_def mask_filter index_filter)
qed

section \<open>Properties\<close>

text \<open>
  The local filter keeps, in order, exactly the rows on which every conjunct and every group is
  TRUE, not merely not FALSE.  The copy by slices of consecutive rows that batches with union
  columns take gives the same rows as the mask.
\<close>

theorem filter_keeps_true_rows:
  "applyFilter gfi schema has_union preds groups rows =
     filter (\<lambda>row. (\<forall>p\<in>set preds. predicateTruth gfi schema row p = TRUE_VALUE) \<and>
                   (\<forall>g\<in>set groups. groupTruth gfi schema row g = TRUE_VALUE)) rows"
  by (simp add: applyFilter_rows include_row_def [abs_def])

theorem filter_keeps_true_rows_witness:
  "applyFilter (\<lambda>sch c. Some 0) [''name''] True
     [\<lparr>pr_column = ''name'', pr_op = LIKE, pr_values = [Lit_String ''a'']\<rparr>] []
     [[SC_Null], [SC_Null]] = []"
  by (subst filter_keeps_true_rows) (simp add: predicateTruth_def predicateFieldIndex_def)

text \<open>
  The boolean tree is Kleene's three-valued logic: \<open>AND\<close> is TRUE iff all children are, FALSE iff
  one is; \<open>OR\<close> dually; \<open>NOT\<close> exchanges TRUE and FALSE; and De Morgan's laws and the double negation
  hold for the values, so the early returns of the loop change nothing.
\<close>

theorem group_truth_is_kleene:
  "(groupTruth gfi sch row (G_And gs) = TRUE_VALUE \<longleftrightarrow> (\<forall>g\<in>set gs. groupTruth gfi sch row g = TRUE_VALUE)) \<and>
   (groupTruth gfi sch row (G_And gs) = FALSE_VALUE \<longleftrightarrow> (\<exists>g\<in>set gs. groupTruth gfi sch row g = FALSE_VALUE)) \<and>
   (groupTruth gfi sch row (G_Or gs) = TRUE_VALUE \<longleftrightarrow> (\<exists>g\<in>set gs. groupTruth gfi sch row g = TRUE_VALUE)) \<and>
   (groupTruth gfi sch row (G_Or gs) = FALSE_VALUE \<longleftrightarrow> (\<forall>g\<in>set gs. groupTruth gfi sch row g = FALSE_VALUE)) \<and>
   groupTruth gfi sch row (G_Not (G_And gs)) = groupTruth gfi sch row (G_Or (map G_Not gs)) \<and>
   groupTruth gfi sch row (G_Not (G_Or gs)) = groupTruth gfi sch row (G_And (map G_Not gs)) \<and>
   groupTruth gfi sch row (G_Not (G_Not g)) = groupTruth gfi sch row g"
proof (intro conjI)
  show "groupTruth gfi sch row (G_Not (G_And gs)) = groupTruth gfi sch row (G_Or (map G_Not gs))"
    by (rule truth_eqI) (simp_all only: group_not group_and group_or set_map ball_simps bex_simps)
  show "groupTruth gfi sch row (G_Not (G_Or gs)) = groupTruth gfi sch row (G_And (map G_Not gs))"
    by (rule truth_eqI) (simp_all only: group_not group_and group_or set_map ball_simps bex_simps)
  show "groupTruth gfi sch row (G_Not (G_Not g)) = groupTruth gfi sch row g"
    by (rule truth_eqI) (simp_all only: group_not)
qed (simp_all only: group_and group_or)

theorem group_truth_is_kleene_witness:
  "groupTruth (\<lambda>sch c. Some 0) [''name''] [SC_Null]
     (G_And [G_Leaf \<lparr>pr_column = ''name'', pr_op = EQ, pr_values = [Lit_String ''a'']\<rparr>,
             G_Leaf \<lparr>pr_column = ''name'', pr_op = IS_NOT_NULL, pr_values = []\<rparr>]) = FALSE_VALUE"
  by (simp only: group_truth_is_kleene [THEN conjunct2, THEN conjunct1])
    (simp add: predicateTruth_def predicateFieldIndex_def scalarMatchesPredicate_def)

text \<open>
  Integers are compared through \<open>double\<close>.  Up to \<open>2 ^ 53\<close> in magnitude the six operators are
  exact; beyond, the conversion is monotone, so a strict comparison that succeeds is right and a
  true strict order is never contradicted by the weak one.
\<close>

theorem integer_comparison_exact_to_2_53:
  assumes "\<bar>x\<bar> < 2 ^ 63" and "\<bar>y\<bar> < 2 ^ 63"
  shows "(x < y \<longrightarrow> compareSingle (N_Int x) (Lit_Int y) LTE \<and> \<not> compareSingle (N_Int x) (Lit_Int y) GT) \<and>
    (compareSingle (N_Int x) (Lit_Int y) LT \<longrightarrow> x < y) \<and>
    (\<bar>x\<bar> \<le> 2 ^ 53 \<longrightarrow> \<bar>y\<bar> \<le> 2 ^ 53 \<longrightarrow>
       (compareSingle (N_Int x) (Lit_Int y) EQ \<longleftrightarrow> x = y) \<and>
       (compareSingle (N_Int x) (Lit_Int y) NEQ \<longleftrightarrow> x \<noteq> y) \<and>
       (compareSingle (N_Int x) (Lit_Int y) LT \<longleftrightarrow> x < y) \<and>
       (compareSingle (N_Int x) (Lit_Int y) LTE \<longleftrightarrow> x \<le> y) \<and>
       (compareSingle (N_Int x) (Lit_Int y) GT \<longleftrightarrow> x > y) \<and>
       (compareSingle (N_Int x) (Lit_Int y) GTE \<longleftrightarrow> x \<ge> y))"
proof -
  have b: "\<bar>x\<bar> < 2 ^ 64" "\<bar>y\<bar> < 2 ^ 64" using assms by simp_all
  have strict: "int_key x < int_key y \<Longrightarrow> x < y" using int_key_mono [of y x] by linarith
  have exact: "x < y \<longleftrightarrow> int_key x < int_key y" "y < x \<longleftrightarrow> int_key y < int_key x"
    if "\<bar>x\<bar> \<le> 2 ^ 53" "\<bar>y\<bar> \<le> 2 ^ 53"
    using int_key_strict [of x y] int_key_strict [of y x] int_key_mono [of x y] int_key_mono [of y x] that
    by linarith+
  have "int_key x = int_key y \<longleftrightarrow> x = y" if "\<bar>x\<bar> \<le> 2 ^ 53" "\<bar>y\<bar> \<le> 2 ^ 53"
    using exact [OF that] by (metis linorder_less_linear less_irrefl)
  then show ?thesis
    using strict exact int_key_mono [of x y] int_key_mono [of y x]
    by (auto simp: converted_compare [OF b] converted_compare [OF b(2,1)] not_less)
qed

theorem integer_comparison_exact_to_2_53_witness:
  "compareSingle (N_Int 3) (Lit_Int 7) LT \<and> \<not> compareSingle (N_Int 7) (Lit_Int 3) LTE"
  using integer_comparison_exact_to_2_53 [of 3 7] integer_comparison_exact_to_2_53 [of 7 3] by auto

text \<open>
  Timestamps are compared through \<open>double\<close> as well, and nanoseconds since the epoch exceed
  \<open>2 ^ 53\<close>: two different timestamps of the year 2023 pass \<open>=\<close> and fail \<open><\<close>, while \<open>BETWEEN\<close> on the
  same values compares the integers and tells them apart.
\<close>

theorem timestamp_equality_is_imprecise:
  "compareSingle (N_Timestamp 1700000000000000000) (Lit_Timestamp 1700000000000000001) EQ \<and>
   \<not> compareSingle (N_Timestamp 1700000000000000000) (Lit_Timestamp 1700000000000000001) LT \<and>
   \<not> scalarMatchesPredicate (SC_Timestamp 1700000000000000000) BETWEEN
       [Lit_Timestamp 1700000000000000001, Lit_Timestamp 1700000000000000001]"
proof -
  have "int_key 1700000000000000000 = int_key 1700000000000000001"
    by (simp add: int_key_def nat_double_bits_def bit_count_numeral round_significand_def Let_def)
  then show ?thesis
    by (simp add: converted_compare scalarMatchesPredicate_def matchesBetween_def)
qed

text \<open>
  A NULL tag list is not UNKNOWN.  The row's \<open>tags\<close> cell is NULL, and yet the negation of a tag
  predicate is TRUE on it, so \<open>NOT tag = 'x'\<close> keeps the row; a NULL in any other column would make
  the same negation UNKNOWN and drop the row.
\<close>

theorem null_tags_satisfy_negation:
  assumes "predicateFieldIndex gfi schema ''tags'' = Some i" and "row ! i = SC_Null"
    and "pr_column p = ''tag''" and "pr_column q \<noteq> ''tag''"
    and "predicateFieldIndex gfi schema (pr_column q) = Some j" and "row ! j = SC_Null"
    and "pr_op q \<noteq> IS_NULL" and "pr_op q \<noteq> IS_NOT_NULL"
  shows "groupTruth gfi schema row (G_Not (G_Leaf p)) = TRUE_VALUE \<and>
    groupTruth gfi schema row (G_Not (G_Leaf q)) = UNKNOWN"
  using assms by (simp add: predicateTruth_def listContainsPredicateValue_def)

theorem null_tags_satisfy_negation_witness:
  "groupTruth (\<lambda>sch c. if c = ''tags'' then Some 0 else Some 1) [''tags'', ''name''] [SC_Null, SC_Null]
     (G_Not (G_Leaf \<lparr>pr_column = ''tag'', pr_op = EQ, pr_values = [Lit_String ''x'']\<rparr>)) = TRUE_VALUE"
  using null_tags_satisfy_negation [of "\<lambda>sch c. if c = ''tags'' then Some 0 else Some 1"
      "[''tags'', ''name'']" 0 "[SC_Null, SC_Null]"
      "\<lparr>pr_column = ''tag'', pr_op = EQ, pr_values = [Lit_String ''x'']\<rparr>"
      "\<lparr>pr_column = ''name'', pr_op = EQ, pr_values = [Lit_String ''x'']\<rparr>" 1]
  by (simp add: predicateFieldIndex_def)

end
