(* ===== verification/Aggregate_Value.thy ===== *)
theory Aggregate_Value
  imports Double_Order
begin

text \<open>
  The values of the aggregation (\<open>src/query/executor/AggregateValue.cpp\<close>): their kinds, the
  comparison behind \<open>MIN\<close> and \<open>MAX\<close>, the byte encoding that groups rows and finds duplicates,
  and the sum and the quotient of doubles that \<open>SUM\<close> and \<open>AVG\<close> use.

  \<open>ValueRef\<close> and \<open>OwnedValue\<close> differ in ownership only and share the datatype below.  A value of a
  nested or unsupported Arrow type is known by what the code reads of it, its \<open>ToString\<close> text.
\<close>

section \<open>Values\<close>

datatype OwnedValue =
    V_NUL
  | V_INT u64
  | V_DOUBLE u64
  | V_BOOL bool
  | V_STRING string
  | V_OTHER string

fun numeric :: "OwnedValue \<Rightarrow> bool" where
  "numeric (V_INT _) = True"
| "numeric (V_DOUBLE _) = True"
| "numeric _ = False"

fun asDouble :: "OwnedValue \<Rightarrow> u64" where
  "asDouble (V_INT i) = int_to_double (sint i)"
| "asDouble (V_DOUBLE d) = d"
| "asDouble _ = 0"

text \<open>\<open>std::string_view::compare\<close>: by unsigned bytes, the shorter string first; only the sign is used.\<close>

fun compare_text :: "string \<Rightarrow> string \<Rightarrow> int" where
  "compare_text [] [] = 0"
| "compare_text [] (b # bs) = - 1"
| "compare_text (a # as) [] = 1"
| "compare_text (a # as) (b # bs) =
     (if (of_char a :: nat) < of_char b then - 1
      else if (of_char b :: nat) < of_char a then 1
      else compare_text as bs)"

definition not_orderable :: exn where
  "not_orderable = RuntimeError ''MIN/MAX cannot compare values of different or non-orderable types''"

fun compareValues :: "OwnedValue \<Rightarrow> OwnedValue \<Rightarrow> exn + int" where
  "compareValues (V_INT a) (V_INT b) =
     Inr (if sint a < sint b then - 1 else if sint a > sint b then 1 else 0)"
| "compareValues (V_STRING a) (V_STRING b) = Inr (compare_text a b)"
| "compareValues (V_BOOL a) (V_BOOL b) = Inr (of_bool a - of_bool b)"
| "compareValues a b =
     (if numeric a \<and> numeric b then
        Inr (if d_lt (asDouble a) (asDouble b) then - 1
             else if d_lt (asDouble b) (asDouble a) then 1 else 0)
      else Inl not_orderable)"

section \<open>The grouping key\<close>

text \<open>The bytes of an integer as a little-endian machine stores them.\<close>

fun le_bytes :: "nat \<Rightarrow> nat \<Rightarrow> string" where
  "le_bytes 0 x = []"
| "le_bytes (Suc n) x = char_of (x mod 256) # le_bytes n (x div 256)"

fun value_key :: "OwnedValue \<Rightarrow> string" where
  "value_key V_NUL = ''N''"
| "value_key (V_INT i) = CHR ''I'' # le_bytes 8 (unat i)"
| "value_key (V_DOUBLE d) = CHR ''D'' # le_bytes 8 (unat (if d_eq d 0 then 0 else d))"
| "value_key (V_BOOL b) = (if b then ''T'' else ''F'')"
| "value_key (V_STRING s) = CHR ''S'' # le_bytes 4 (length s mod 2 ^ 32) @ s"
| "value_key (V_OTHER s) = CHR ''O'' # le_bytes 4 (length s mod 2 ^ 32) @ s"

definition appendValueKey :: "string \<Rightarrow> OwnedValue \<Rightarrow> string" where
  "appendValueKey out v = out @ value_key v"

text \<open>The key of a row: the buffer is cleared and every key column appends its value.\<close>

definition row_key :: "OwnedValue list \<Rightarrow> string" where
  "row_key vs = foldl appendValueKey [] vs"

lemma row_key_concat: "row_key vs = concat (map value_key vs)"
proof -
  have "foldl appendValueKey out vs = out @ concat (map value_key vs)" for out
    by (induction vs arbitrary: out) (auto simp: appendValueKey_def)
  then show ?thesis by (simp add: row_key_def)
qed

section \<open>Sums and quotients of doubles\<close>

text \<open>
  A finite double is an integer multiple of \<open>2 ^ -1074\<close>.  \<open>d_units\<close> is that integer, and
  \<open>d_encode a b\<close> the bit pattern of the double nearest to \<open>a / b\<close> such units, ties to even,
  infinity when it is too large.  In this encoding the subnormal range and the carry of the
  rounding into the exponent need no special case.
\<close>

definition d_negative :: "u64 \<Rightarrow> bool" where
  "d_negative x \<longleftrightarrow> uint x \<ge> 2 ^ 63"

definition d_infinity :: nat where
  "d_infinity = 0x7FF0000000000000"

definition d_isinf :: "u64 \<Rightarrow> bool" where
  "d_isinf x \<longleftrightarrow> d_magnitude x = int d_infinity"

definition d_quiet_nan :: u64 where
  "d_quiet_nan = 0x7FF8000000000000"

definition d_units :: "u64 \<Rightarrow> int" where
  "d_units x =
     (let m = nat (d_magnitude x); e = m div 2 ^ 52; f = m mod 2 ^ 52;
          u = int (if e = 0 then f else (2 ^ 52 + f) * 2 ^ (e - 1))
      in if d_negative x then - u else u)"

definition round_ratio :: "nat \<Rightarrow> nat \<Rightarrow> nat" where
  "round_ratio a b =
     (let q = a div b; r = a mod b in
      if 2 * r > b \<or> (2 * r = b \<and> odd q) then q + 1 else q)"

definition d_encode :: "nat \<Rightarrow> nat \<Rightarrow> nat" where
  "d_encode a b =
     (let s = bit_count (a div b) - 53 in min d_infinity (s * 2 ^ 52 + round_ratio a (b * 2 ^ s)))"

definition d_signed :: "bool \<Rightarrow> nat \<Rightarrow> u64" where
  "d_signed neg bits = of_nat (if neg then 2 ^ 63 + bits else bits)"

definition d_add :: "u64 \<Rightarrow> u64 \<Rightarrow> u64" where
  "d_add x y =
     (if d_isnan x \<or> d_isnan y then d_quiet_nan
      else if d_isinf x then (if d_isinf y \<and> d_negative x \<noteq> d_negative y then d_quiet_nan else x)
      else if d_isinf y then y
      else let z = d_units x + d_units y in
        if z = 0 then d_signed (d_negative x \<and> d_negative y) 0
        else d_signed (z < 0) (d_encode (nat \<bar>z\<bar>) 1))"

definition d_div :: "u64 \<Rightarrow> u64 \<Rightarrow> u64" where
  "d_div x y =
     (let neg = (d_negative x \<noteq> d_negative y); zx = (d_magnitude x = 0); zy = (d_magnitude y = 0) in
      if d_isnan x \<or> d_isnan y \<or> (d_isinf x \<and> d_isinf y) \<or> (zx \<and> zy) then d_quiet_nan
      else if d_isinf x \<or> zy then d_signed neg d_infinity
      else if d_isinf y \<or> zx then d_signed neg 0
      else d_signed neg (d_encode (nat \<bar>d_units x\<bar> * 2 ^ 1074) (nat \<bar>d_units y\<bar>)))"

section \<open>The grouping key identifies the values\<close>

text \<open>What the key does not distinguish: the two zeros.  A NaN is known by its bits.\<close>

fun same_zero :: "OwnedValue \<Rightarrow> OwnedValue" where
  "same_zero (V_DOUBLE d) = V_DOUBLE (if d_eq d 0 then 0 else d)"
| "same_zero v = v"

fun short_text :: "OwnedValue \<Rightarrow> bool" where
  "short_text (V_STRING s) = (length s < 2 ^ 32)"
| "short_text (V_OTHER s) = (length s < 2 ^ 32)"
| "short_text _ = True"

lemma length_le_bytes [simp]: "length (le_bytes n x) = n"
  by (induction n arbitrary: x) auto

lemma le_bytes_inj: "x < 256 ^ n \<Longrightarrow> y < 256 ^ n \<Longrightarrow> le_bytes n x = le_bytes n y \<Longrightarrow> x = y"
proof (induction n arbitrary: x y)
  case (Suc n)
  then have "(char_of (x mod 256) :: char) = char_of (y mod 256)" "le_bytes n (x div 256) = le_bytes n (y div 256)"
    by auto
  then have "x mod 256 = y mod 256"
    by (metis char_of_eq_iff char_of_mod_256 of_char_of mod_mod_trivial)
  moreover have "x div 256 = y div 256"
    using Suc by (intro Suc.IH) (auto simp: less_mult_imp_div_less mult.commute)
  ultimately show ?case by (metis div_mult_mod_eq)
qed simp

lemma le_bytes_u64 [simp]: "le_bytes 8 (unat (a :: u64)) = le_bytes 8 (unat b) \<longleftrightarrow> a = b"
proof
  assume "le_bytes 8 (unat a) = le_bytes 8 (unat b)"
  moreover have "unat a < 256 ^ 8" "unat b < 256 ^ 8"
    using unsigned_less [of a, where 'a = nat] unsigned_less [of b, where 'a = nat] by simp_all
  ultimately show "a = b" by (metis le_bytes_inj unsigned_word_eqI)
qed simp

lemma le_bytes_size: "le_bytes 4 m = le_bytes 4 n \<Longrightarrow> m < 4294967296 \<Longrightarrow> n < 4294967296 \<Longrightarrow> m = n"
  using le_bytes_inj [of m 4 n] by simp

lemma value_key_split:
  assumes "value_key v @ xs = value_key w @ ys" "short_text v" "short_text w"
  shows "same_zero v = same_zero w \<and> xs = ys"
  using assms
  by (cases v; cases w) (auto simp: append_eq_append_conv dest: le_bytes_size split: if_splits)

lemma value_key_nonempty [simp]: "value_key v \<noteq> []"
  by (cases v) auto

lemma value_key_same_zero: "value_key (same_zero v) = value_key v"
  by (cases v) (auto simp: d_eq_def d_isnan_def d_magnitude_def d_key_def)

lemma row_key_Nil [simp]: "row_key [] = []"
  by (simp add: row_key_def)

text \<open>
  C38. Grouping by the encoded key is grouping by the values: two rows whose texts are shorter than
  \<open>2 ^ 32\<close> bytes have the same key exactly when they agree value by value, up to the sign of a zero.
  No combination of strings, numbers and nulls in neighbouring key columns collides.
\<close>

theorem group_key_injective:
  assumes "\<forall>v\<in>set vs \<union> set ws. short_text v"
  shows "row_key vs = row_key ws \<longleftrightarrow> map same_zero vs = map same_zero ws"
proof
  assume "row_key vs = row_key ws"
  then have "concat (map value_key vs) = concat (map value_key ws)" by (simp add: row_key_concat)
  then show "map same_zero vs = map same_zero ws" using assms
  proof (induction vs arbitrary: ws)
    case Nil
    then show ?case by (cases ws) auto
  next
    case (Cons v vs)
    then obtain w ws' where ws: "ws = w # ws'" by (cases ws) auto
    have "same_zero v = same_zero w \<and> concat (map value_key vs) = concat (map value_key ws')"
      using Cons.prems ws by (intro value_key_split) auto
    then show ?case using Cons.IH [of ws'] Cons.prems(2) ws by auto
  qed
next
  assume "map same_zero vs = map same_zero ws"
  then have "map value_key (map same_zero vs) = map value_key (map same_zero ws)" by simp
  then have "map value_key vs = map value_key ws" by (simp add: value_key_same_zero comp_def)
  then show "row_key vs = row_key ws" by (simp add: row_key_concat)
qed

theorem group_key_injective_witness:
  "row_key [V_STRING ''a'', V_STRING ''bc''] \<noteq> row_key [V_STRING ''ab'', V_STRING ''c''] \<and>
     row_key [V_DOUBLE 0] = row_key [V_DOUBLE 0x8000000000000000]"
proof -
  have z: "d_eq 0 0" "d_eq 0x8000000000000000 0"
    by (simp_all add: d_eq_def d_isnan_def d_magnitude_def d_key_def)
  show ?thesis
    using group_key_injective [of "[V_STRING ''a'', V_STRING ''bc'']" "[V_STRING ''ab'', V_STRING ''c'']"]
      group_key_injective [of "[V_DOUBLE 0]" "[V_DOUBLE 0x8000000000000000]"]
    by (simp add: z)
qed

end
