(* ===== verification/Accumulators.thy ===== *)
theory Accumulators
  imports Aggregate_Value Like_Match
begin

text \<open>
  The aggregate functions and their accumulators (\<open>src/query/AggregateRegistry.cpp\<close>).

  An accumulator keeps vectors indexed by the group id that are always resized together; here they
  are one list of cells, a cell being what the vectors hold for one group.  \<open>consume_value\<close> is the
  body of the row loop of \<open>consume\<close> on one cell.  \<open>bytes_\<close> is left out: it depends on the capacity of
  the library's strings and only feeds the memory estimate, which \<open>Grouped_Aggregator\<close> takes as a
  parameter.  A signed overflow of a counter or of an integer sum wraps here and is undefined in C++.
\<close>

section \<open>State\<close>

datatype Mode = MODE_MIN | MODE_MAX | MODE_FIRST | MODE_LAST

datatype acc_kind =
    K_Count bool
  | K_Sum bool
  | K_Choice Mode

datatype cell =
    COUNT_CELL u64 "string list"
  | SUM_CELL u64 u64 u64
  | CHOICE_CELL OwnedValue

record Accumulator =
  acc_kind :: acc_kind
  acc_cells :: "cell list"
  acc_floating :: bool

fun new_cell :: "acc_kind \<Rightarrow> cell" where
  "new_cell (K_Count dst) = COUNT_CELL 0 []"
| "new_cell (K_Sum average) = SUM_CELL 0 0 0"
| "new_cell (K_Choice mode) = CHOICE_CELL V_NUL"

definition new_accumulator :: "acc_kind \<Rightarrow> Accumulator" where
  "new_accumulator k = \<lparr>acc_kind = k, acc_cells = [], acc_floating = False\<rparr>"

definition resize :: "nat \<Rightarrow> Accumulator \<Rightarrow> Accumulator" where
  "resize groups a =
     a\<lparr>acc_cells := acc_cells a @ replicate (groups - length (acc_cells a)) (new_cell (acc_kind a))\<rparr>"

section \<open>Consuming a value\<close>

text \<open>\<open>None\<close> is the null pointer of a call without an argument; only \<open>COUNT\<close> is called so.\<close>

definition count_value :: "bool \<Rightarrow> u64 \<Rightarrow> string list \<Rightarrow> OwnedValue option \<Rightarrow> cell" where
  "count_value dst n seen v =
     (case v of
        None \<Rightarrow> COUNT_CELL (n + 1) seen
      | Some x \<Rightarrow>
          if x = V_NUL then COUNT_CELL n seen
          else if \<not> dst then COUNT_CELL (n + 1) seen
          else let key = value_key x in
            if key \<in> set seen then COUNT_CELL n seen else COUNT_CELL (n + 1) (seen @ [key]))"

definition sum_name :: "bool \<Rightarrow> string" where
  "sum_name average = (if average then ''AVG'' else ''SUM'')"

definition sum_value :: "bool \<Rightarrow> u64 \<Rightarrow> u64 \<Rightarrow> u64 \<Rightarrow> OwnedValue \<Rightarrow> exn + cell" where
  "sum_value average n isum dsum x =
     (if x = V_NUL then Inr (SUM_CELL n isum dsum)
      else if \<not> numeric x then Inl (RuntimeError (sum_name average @ '' requires numeric values''))
      else Inr (SUM_CELL (n + 1)
        (case x of V_INT i \<Rightarrow> isum + i | _ \<Rightarrow> isum) (d_add dsum (asDouble x))))"

text \<open>\<open>better\<close> and the test in \<open>offer\<close>: does the order of the two values make the new one win?\<close>

definition better :: "Mode \<Rightarrow> OwnedValue \<Rightarrow> OwnedValue \<Rightarrow> exn + bool" where
  "better mode candidate current =
     (case compareValues candidate current of
        Inl e \<Rightarrow> Inl e
      | Inr order \<Rightarrow> Inr (if mode = MODE_MIN then order < 0 else order > 0))"

definition offer :: "Mode \<Rightarrow> OwnedValue \<Rightarrow> OwnedValue \<Rightarrow> exn + OwnedValue" where
  "offer mode current v =
     (if current = V_NUL then Inr v
      else if mode = MODE_FIRST then Inr current
      else if mode = MODE_LAST then Inr v
      else case better mode v current of
        Inl e \<Rightarrow> Inl e | Inr wins \<Rightarrow> Inr (if wins then v else current))"

definition choose_value :: "Mode \<Rightarrow> OwnedValue \<Rightarrow> OwnedValue \<Rightarrow> exn + cell" where
  "choose_value mode current x =
     (if x = V_NUL then Inr (CHOICE_CELL current)
      else case offer mode current x of Inl e \<Rightarrow> Inl e | Inr v \<Rightarrow> Inr (CHOICE_CELL v))"

text \<open>
  One row of \<open>consume\<close>.  The two cases no call reaches (an accumulator on another one's cell, a sum
  or a choice without an argument) leave the cell alone.
\<close>

fun consume_value :: "acc_kind \<Rightarrow> cell \<Rightarrow> OwnedValue option \<Rightarrow> exn + cell" where
  "consume_value (K_Count dst) (COUNT_CELL n seen) v = Inr (count_value dst n seen v)"
| "consume_value (K_Sum average) (SUM_CELL n isum dsum) (Some x) = sum_value average n isum dsum x"
| "consume_value (K_Choice mode) (CHOICE_CELL current) (Some x) = choose_value mode current x"
| "consume_value _ c _ = Inr c"

fun turns_floating :: "acc_kind \<Rightarrow> OwnedValue option \<Rightarrow> bool" where
  "turns_floating (K_Sum average) (Some (V_DOUBLE d)) = True"
| "turns_floating _ _ = False"

definition consume_row :: "Accumulator \<Rightarrow> nat \<times> OwnedValue option \<Rightarrow> exn + Accumulator" where
  "consume_row a row =
     (case consume_value (acc_kind a) (acc_cells a ! fst row) (snd row) of
        Inl e \<Rightarrow> Inl e
      | Inr c \<Rightarrow> Inr (a\<lparr>acc_cells := (acc_cells a)[fst row := c],
          acc_floating := acc_floating a \<or> turns_floating (acc_kind a) (snd row)\<rparr>))"

definition acc_consume :: "Accumulator \<Rightarrow> nat list \<Rightarrow> OwnedValue option list \<Rightarrow> exn + Accumulator" where
  "acc_consume a group_ids values = foldE consume_row a (zip group_ids values)"

section \<open>Merging and finishing\<close>

fun merge_seen :: "u64 \<Rightarrow> string list \<Rightarrow> string list \<Rightarrow> cell" where
  "merge_seen n seen [] = COUNT_CELL n seen"
| "merge_seen n seen (key # keys) =
     (if key \<in> set seen then merge_seen n seen keys else merge_seen (n + 1) (seen @ [key]) keys)"

definition merge_choice :: "Mode \<Rightarrow> OwnedValue \<Rightarrow> OwnedValue \<Rightarrow> exn + cell" where
  "merge_choice mode current candidate =
     (if candidate = V_NUL then Inr (CHOICE_CELL current)
      else if current = V_NUL \<or> mode = MODE_LAST then Inr (CHOICE_CELL candidate)
      else if mode = MODE_FIRST then Inr (CHOICE_CELL current)
      else case better mode candidate current of
        Inl e \<Rightarrow> Inl e | Inr wins \<Rightarrow> Inr (CHOICE_CELL (if wins then candidate else current)))"

fun merge_cell :: "acc_kind \<Rightarrow> cell \<Rightarrow> cell \<Rightarrow> exn + cell" where
  "merge_cell (K_Count dst) (COUNT_CELL n seen) (COUNT_CELL m other) =
     Inr (if dst then merge_seen n seen other else COUNT_CELL (n + m) seen)"
| "merge_cell (K_Sum average) (SUM_CELL n isum dsum) (SUM_CELL m j e) =
     Inr (SUM_CELL (n + m) (isum + j) (d_add dsum e))"
| "merge_cell (K_Choice mode) (CHOICE_CELL current) (CHOICE_CELL candidate) =
     merge_choice mode current candidate"
| "merge_cell _ c _ = Inr c"

definition kSkipGroup :: nat where
  "kSkipGroup = 2 ^ 32 - 1"

definition merge_group :: "Accumulator \<Rightarrow> cell \<times> nat \<Rightarrow> exn + Accumulator" where
  "merge_group a x =
     (if snd x = kSkipGroup then Inr a
      else case merge_cell (acc_kind a) (acc_cells a ! snd x) (fst x) of
        Inl e \<Rightarrow> Inl e | Inr c \<Rightarrow> Inr (a\<lparr>acc_cells := (acc_cells a)[snd x := c]\<rparr>))"

definition merge :: "Accumulator \<Rightarrow> Accumulator \<Rightarrow> nat list \<Rightarrow> exn + Accumulator" where
  "merge a other mapping =
     foldE merge_group (a\<lparr>acc_floating := acc_floating a \<or> acc_floating other\<rparr>)
       (zip (acc_cells other) mapping)"

text \<open>The output value of a group; the chosen values are rebuilt in the input type by the caller.\<close>

fun finish_cell :: "acc_kind \<Rightarrow> bool \<Rightarrow> cell \<Rightarrow> OwnedValue" where
  "finish_cell (K_Sum average) floating (SUM_CELL n isum dsum) =
     (if n = 0 then V_NUL
      else if \<not> average \<and> \<not> floating then V_INT isum
      else V_DOUBLE (if average then d_div dsum (int_to_double (sint n)) else dsum))"
| "finish_cell _ _ (COUNT_CELL n seen) = V_INT n"
| "finish_cell _ _ (CHOICE_CELL v) = v"
| "finish_cell _ _ (SUM_CELL n isum dsum) = V_NUL"

definition finish_column :: "Accumulator \<Rightarrow> OwnedValue list" where
  "finish_column a = map (finish_cell (acc_kind a) (acc_floating a)) (acc_cells a)"

section \<open>The registry\<close>



datatype AggregateFunction = F_Count | F_Sum bool | F_Choice Mode

definition function_name :: "AggregateFunction \<Rightarrow> string" where
  "function_name f =
     (case f of F_Count \<Rightarrow> ''count'' | F_Sum average \<Rightarrow> (if average then ''avg'' else ''sum'')
      | F_Choice mode \<Rightarrow> (case mode of MODE_MIN \<Rightarrow> ''min'' | MODE_MAX \<Rightarrow> ''max''
          | MODE_FIRST \<Rightarrow> ''first'' | MODE_LAST \<Rightarrow> ''last''))"

definition registry :: "AggregateFunction list" where
  "registry = [F_Count, F_Sum False, F_Sum True, F_Choice MODE_MIN, F_Choice MODE_MAX,
     F_Choice MODE_FIRST, F_Choice MODE_LAST]"

definition find_function :: "string \<Rightarrow> AggregateFunction option" where
  "find_function name = find (\<lambda>f. function_name f = map tolower name) registry"

definition requireArgument :: "ColumnType option \<Rightarrow> bool \<Rightarrow> exn + ColumnType" where
  "requireArgument argument dst =
     (case argument of
        None \<Rightarrow> Inl (PlannerBindError (''Only COUNT accepts '' @ quoted ''*''))
      | Some t \<Rightarrow>
          if dst then Inl (PlannerBindError ''DISTINCT is supported only in COUNT(DISTINCT expr)'')
          else Inr t)"

fun bind_function :: "AggregateFunction \<Rightarrow> ColumnType option \<Rightarrow> bool \<Rightarrow> exn + ColumnType" where
  "bind_function F_Count argument dst = Inr CT_INT"
| "bind_function (F_Sum average) argument dst =
     (case requireArgument argument dst of
        Inl e \<Rightarrow> Inl e
      | Inr t \<Rightarrow>
          if t \<noteq> CT_INT \<and> t \<noteq> CT_NATIVE_VALUE \<and> t \<noteq> CT_DURATION_SECONDS then
            Inl (PlannerBindError (''Aggregate function '' @ quoted (function_name (F_Sum average)) @
              '' requires a numeric argument''))
          else Inr CT_INT)"
| "bind_function (F_Choice mode) argument dst = requireArgument argument dst"

fun makeAccumulator :: "AggregateFunction \<Rightarrow> bool \<Rightarrow> Accumulator" where
  "makeAccumulator F_Count dst = new_accumulator (K_Count dst)"
| "makeAccumulator (F_Sum average) dst = new_accumulator (K_Sum average)"
| "makeAccumulator (F_Choice mode) dst = new_accumulator (K_Choice mode)"

section \<open>An accumulator works group by group\<close>

definition fold_cell :: "acc_kind \<Rightarrow> cell \<Rightarrow> OwnedValue option list \<Rightarrow> exn + cell" where
  "fold_cell k c vs = foldE (consume_value k) c vs"

lemma fold_cell_simps [simp]:
  "fold_cell k c [] = Inr c"
  "fold_cell k c (v # vs) = (case consume_value k c v of Inl e \<Rightarrow> Inl e | Inr c' \<Rightarrow> fold_cell k c' vs)"
  by (simp_all add: fold_cell_def split: sum.splits)

lemma fold_cell_append:
  "fold_cell k c (vs @ ws) = (case fold_cell k c vs of Inl e \<Rightarrow> Inl e | Inr c' \<Rightarrow> fold_cell k c' ws)"
  by (simp add: fold_cell_def foldE_append split: sum.splits)

text \<open>The values of a list of rows that fall into a group.\<close>

definition group_values :: "nat \<Rightarrow> (nat \<times> 'v) list \<Rightarrow> 'v list" where
  "group_values g rows = map snd (filter (\<lambda>row. fst row = g) rows)"

lemma group_values_simps [simp]:
  "group_values g [] = []"
  "group_values g ((h, v) # rows) = (if h = g then v # group_values g rows else group_values g rows)"
  "group_values g (rows @ rows') = group_values g rows @ group_values g rows'"
  by (simp_all add: group_values_def)

lemma consume_rows_Inr:
  assumes "foldE consume_row a rows = Inr a'" "\<forall>(g, v)\<in>set rows. g < length (acc_cells a)"
  shows "acc_kind a' = acc_kind a \<and> length (acc_cells a') = length (acc_cells a) \<and>
    (\<forall>g<length (acc_cells a). fold_cell (acc_kind a) (acc_cells a ! g) (group_values g rows) = Inr (acc_cells a' ! g))"
  using assms
proof (induction rows arbitrary: a)
  case (Cons row rows)
  obtain g v where row: "row = (g, v)" by fastforce
  from Cons.prems(1) obtain b where b: "consume_row a row = Inr b" and rest: "foldE consume_row b rows = Inr a'"
    by (auto split: sum.splits)
  then obtain c where c: "consume_value (acc_kind a) (acc_cells a ! g) v = Inr c"
    and bd: "b = a\<lparr>acc_cells := (acc_cells a)[g := c], acc_floating := acc_floating a \<or> turns_floating (acc_kind a) v\<rparr>"
    by (auto simp: row consume_row_def split: sum.splits)
  have g: "g < length (acc_cells a)" using Cons.prems(2) row by auto
  have ih: "acc_kind a' = acc_kind b \<and> length (acc_cells a') = length (acc_cells b) \<and>
    (\<forall>g<length (acc_cells b). fold_cell (acc_kind b) (acc_cells b ! g) (group_values g rows) = Inr (acc_cells a' ! g))"
    using Cons.prems(2) by (intro Cons.IH rest) (auto simp: bd)
  show ?case
  proof (intro conjI allI impI)
    fix h assume "h < length (acc_cells a)"
    then have "fold_cell (acc_kind a) ((acc_cells a)[g := c] ! h) (group_values h rows) = Inr (acc_cells a' ! h)"
      using ih by (simp add: bd)
    then show "fold_cell (acc_kind a) (acc_cells a ! h) (group_values h (row # rows)) = Inr (acc_cells a' ! h)"
      using g c by (cases "g = h") (auto simp: row)
  qed (use ih in \<open>auto simp: bd\<close>)
qed simp

lemma consume_rows_Inl:
  assumes "foldE consume_row a rows = Inl e" "\<forall>(g, v)\<in>set rows. g < length (acc_cells a)"
  shows "\<exists>g<length (acc_cells a). fold_cell (acc_kind a) (acc_cells a ! g) (group_values g rows) = Inl e \<and>
    g \<in> fst ` set rows"
  using assms
proof (induction rows arbitrary: a)
  case (Cons row rows)
  obtain g v where row: "row = (g, v)" by fastforce
  have g: "g < length (acc_cells a)" using Cons.prems(2) row by auto
  show ?case
  proof (cases "consume_value (acc_kind a) (acc_cells a ! g) v")
    case (Inl e')
    then have "e' = e" using Cons.prems(1) by (simp add: row consume_row_def)
    then show ?thesis using Inl g by (intro exI [of _ g]) (simp add: row)
  next
    case (Inr c)
    let ?b = "a\<lparr>acc_cells := (acc_cells a)[g := c], acc_floating := acc_floating a \<or> turns_floating (acc_kind a) v\<rparr>"
    have "consume_row a row = Inr ?b" using Inr by (simp add: row consume_row_def)
    then have "foldE consume_row ?b rows = Inl e" using Cons.prems(1) by simp
    then obtain h where h: "h < length (acc_cells a)"
      "fold_cell (acc_kind a) ((acc_cells a)[g := c] ! h) (group_values h rows) = Inl e" "h \<in> fst ` set rows"
      using Cons.IH [of ?b] Cons.prems(2) by auto
    then show ?thesis using Inr g
      by (intro exI [of _ h]) (cases "g = h", auto simp: row)
  qed
qed simp

section \<open>What the aggregates compute\<close>

definition non_null :: "OwnedValue list \<Rightarrow> OwnedValue list" where
  "non_null xs = filter (\<lambda>x. x \<noteq> V_NUL) xs"

lemma non_null_simps [simp]:
  "non_null [] = []" "non_null (x # xs) = (if x = V_NUL then non_null xs else x # non_null xs)"
  by (simp_all add: non_null_def)

lemma count_plain:
  "fold_cell (K_Count False) (COUNT_CELL n seen) (map Some xs) =
     Inr (COUNT_CELL (n + of_nat (length (non_null xs))) seen)"
  by (induction xs arbitrary: n) (auto simp: count_value_def algebra_simps)

lemma count_distinct:
  "distinct seen \<Longrightarrow> \<exists>seen'. fold_cell (K_Count True) (COUNT_CELL (of_nat (length seen)) seen) (map Some xs) =
     Inr (COUNT_CELL (of_nat (length seen')) seen') \<and> distinct seen' \<and>
     set seen' = set seen \<union> value_key ` set (non_null xs)"
proof (induction xs arbitrary: seen)
  case (Cons x xs)
  show ?case
  proof (cases "x = V_NUL \<or> value_key x \<in> set seen")
    case True
    then show ?thesis using Cons.IH [OF Cons.prems] by (auto simp: count_value_def)
  next
    case False
    then have "distinct (seen @ [value_key x])" using Cons.prems by simp
    from Cons.IH [OF this] False show ?thesis by (auto simp: count_value_def algebra_simps)
  qed
qed auto

text \<open>
  \<open>COUNT(x)\<close> is the number of the non-null values and \<open>COUNT(DISTINCT x)\<close> the number of different
  ones among them, values counting as different when their keys differ; both never throw.
\<close>

theorem count_is_exact:
  "(case fold_cell (K_Count dst) (new_cell (K_Count dst)) (map Some xs) of
      Inl e \<Rightarrow> False
    | Inr c \<Rightarrow> finish_cell (K_Count dst) floating c =
        V_INT (of_nat (if dst then card (value_key ` set (non_null xs)) else length (non_null xs))))"
proof (cases dst)
  case True
  obtain seen where "fold_cell (K_Count True) (COUNT_CELL 0 []) (map Some xs) = Inr (COUNT_CELL (of_nat (length seen)) seen)"
    "distinct seen" "set seen = value_key ` set (non_null xs)"
    using count_distinct [of "[]" xs] by auto
  then show ?thesis using True by (simp flip: distinct_card)
qed (simp add: count_plain)

section \<open>Merging is consuming the later rows\<close>

locale mergeable =
  fixes start :: 'c
    and step :: "'c \<Rightarrow> 'v \<Rightarrow> exn + 'c"
    and combine :: "'c \<Rightarrow> 'c \<Rightarrow> exn + 'c"
    and inv :: "'c \<Rightarrow> bool"
    and ok :: "'v \<Rightarrow> bool"
  assumes start_inv: "inv start"
    and step_inv: "inv c \<Longrightarrow> ok v \<Longrightarrow> \<exists>d. step c v = Inr d \<and> inv d"
    and combine_inv: "inv c \<Longrightarrow> inv d \<Longrightarrow> \<exists>r. combine c d = Inr r \<and> inv r"
    and combine_start: "inv c \<Longrightarrow> combine c start = Inr c"
    and combine_step: "inv c \<Longrightarrow> inv d \<Longrightarrow> ok v \<Longrightarrow> step d v = Inr d' \<Longrightarrow> combine c d = Inr r \<Longrightarrow>
      combine c d' = step r v"
begin

lemma fold_inv: "inv c \<Longrightarrow> \<forall>v\<in>set vs. ok v \<Longrightarrow> \<exists>d. foldE step c vs = Inr d \<and> inv d"
proof (induction vs arbitrary: c)
  case (Cons v vs)
  obtain d where "step c v = Inr d" "inv d" using step_inv [OF Cons.prems(1)] Cons.prems(2) by auto
  then show ?case using Cons.IH [of d] Cons.prems(2) by auto
qed simp

lemma combine_fold:
  assumes "inv c" "inv d" "combine c d = Inr r" "\<forall>v\<in>set ws. ok v" "foldE step d ws = Inr d'"
  shows "combine c d' = foldE step r ws"
  using assms
proof (induction ws arbitrary: d r)
  case (Cons w ws)
  obtain e where e: "step d w = Inr e" "inv e" using step_inv [OF Cons.prems(2)] Cons.prems(4) by auto
  have cs: "combine c e = step r w"
    using combine_step [OF Cons.prems(1,2) _ e(1) Cons.prems(3)] Cons.prems(4) by simp
  obtain q where q: "combine c e = Inr q" using combine_inv [OF Cons.prems(1) e(2)] by blast
  have "step r w = Inr q" using cs q by simp
  moreover have "combine c d' = foldE step q ws"
    using Cons.prems e by (intro Cons.IH [OF Cons.prems(1) e(2) q]) simp_all
  ultimately show ?case by simp
qed simp

lemma combine_later:
  assumes "\<forall>v\<in>set (vs @ ws). ok v" "foldE step start vs = Inr c" "foldE step start ws = Inr d"
  shows "combine c d = foldE step start (vs @ ws)"
proof -
  have "inv c" using fold_inv [OF start_inv, of vs] assms by auto
  then have "combine c d = foldE step c ws"
    using assms by (intro combine_fold [OF _ start_inv combine_start]) auto
  then show ?thesis using assms(2) by (simp add: foldE_append)
qed

end

fun count_inv :: "cell \<Rightarrow> bool" where
  "count_inv (COUNT_CELL n seen) = distinct seen"
| "count_inv _ = False"

lemma merge_seen_eq:
  "distinct other \<Longrightarrow> merge_seen n seen other =
     COUNT_CELL (n + of_nat (length (filter (\<lambda>k. k \<notin> set seen) other))) (seen @ filter (\<lambda>k. k \<notin> set seen) other)"
proof (induction other arbitrary: n seen)
  case (Cons k ks)
  have "filter (\<lambda>j. j \<noteq> k \<and> j \<notin> set seen) ks = filter (\<lambda>j. j \<notin> set seen) ks"
    using Cons.prems by (intro filter_cong) auto
  then show ?case using Cons by (auto simp: algebra_simps)
qed simp

interpretation count_merge: mergeable "new_cell (K_Count dst)" "consume_value (K_Count dst)"
  "merge_cell (K_Count dst)" count_inv "\<lambda>v. v \<noteq> None \<or> \<not> dst" for dst
proof (unfold_locales, goal_cases)
  case (2 c v)
  then show ?case by (cases c) (auto simp: count_value_def Let_def split: option.splits)
next
  case (3 c d)
  then show ?case by (cases c; cases d) (auto simp: merge_seen_eq)
next
  case (4 c)
  then show ?case by (cases c) auto
next
  case (5 c d v d' r)
  then show ?case
    by (cases c; cases d; cases v)
      (auto simp: count_value_def Let_def merge_seen_eq algebra_simps split: if_splits)
qed simp

fun choice_inv :: "(OwnedValue \<Rightarrow> bool) \<Rightarrow> cell \<Rightarrow> bool" where
  "choice_inv P (CHOICE_CELL v) = (v = V_NUL \<or> P v)"
| "choice_inv P _ = False"

fun is_int :: "OwnedValue \<Rightarrow> bool" where
  "is_int (V_INT _) = True"
| "is_int _ = False"

lemma is_int_iff: "is_int v \<longleftrightarrow> (\<exists>i. v = V_INT i)"
  by (cases v) auto

definition null_or :: "(OwnedValue \<Rightarrow> bool) \<Rightarrow> OwnedValue option \<Rightarrow> bool" where
  "null_or P v \<longleftrightarrow> (\<exists>x. v = Some x \<and> (x = V_NUL \<or> P x))"

lemmas choice_defs = choose_value_def offer_def merge_choice_def better_def null_or_def

text \<open>\<open>FIRST\<close> and \<open>LAST\<close> take any values; \<open>MIN\<close> and \<open>MAX\<close> are considered on integers.\<close>

definition choice_ok :: "Mode \<Rightarrow> OwnedValue \<Rightarrow> bool" where
  "choice_ok mode v \<longleftrightarrow> mode = MODE_FIRST \<or> mode = MODE_LAST \<or> is_int v"

interpretation choice_merge: mergeable "new_cell (K_Choice mode)" "consume_value (K_Choice mode)"
  "merge_cell (K_Choice mode)" "choice_inv (choice_ok mode)" "null_or (choice_ok mode)" for mode
proof (unfold_locales, goal_cases)
  case (2 c v)
  then show ?case by (cases c; cases mode) (auto simp: choice_defs choice_ok_def is_int_iff)
next
  case (3 c d)
  then show ?case by (cases c; cases d; cases mode) (auto simp: choice_defs choice_ok_def is_int_iff)
next
  case (4 c)
  then show ?case by (cases c) (auto simp: choice_defs)
next
  case (5 c d v d' r)
  then show ?case
    by (cases c; cases d; cases mode) (auto simp: choice_defs choice_ok_def is_int_iff split: if_splits)
qed simp

text \<open>Which columns merge exactly; a sum of doubles does not, since rounding is not associative.\<close>

fun merges :: "acc_kind \<Rightarrow> OwnedValue option \<Rightarrow> bool" where
  "merges (K_Count dst) v = (v \<noteq> None \<or> \<not> dst)"
| "merges (K_Sum average) v = False"
| "merges (K_Choice mode) v = null_or (choice_ok mode) v"

text \<open>Merging an accumulator that has consumed later rows gives the accumulator that consumed all
  rows in order: counts, distinct counts, \<open>FIRST\<close> and \<open>LAST\<close> on any values, \<open>MIN\<close> and \<open>MAX\<close> on integers.
\<close>

theorem merge_consumes_later_rows:
  assumes "\<forall>v\<in>set (vs @ ws). merges k v"
    and "fold_cell k (new_cell k) vs = Inr c" "fold_cell k (new_cell k) ws = Inr d"
  shows "merge_cell k c d = fold_cell k (new_cell k) (vs @ ws)"
proof (cases k)
  case (K_Count dst)
  then show ?thesis
    using count_merge.combine_later [of vs ws dst c d] assms by (simp add: fold_cell_def)
next
  case (K_Sum average)
  then have "vs = []" "ws = []" using assms(1) by (cases vs; cases ws; auto)+
  then show ?thesis using assms K_Sum
    by (auto simp: d_add_def d_isnan_def d_isinf_def d_magnitude_def d_infinity_def d_units_def
        d_negative_def d_signed_def)
next
  case (K_Choice mode)
  then show ?thesis
    using choice_merge.combine_later [of vs ws mode c d] assms by (simp add: fold_cell_def)
qed

theorem merge_consumes_later_rows_witness:
  "merge_cell (K_Choice MODE_MAX) (CHOICE_CELL (V_INT 3)) (CHOICE_CELL (V_INT 7)) =
     fold_cell (K_Choice MODE_MAX) (CHOICE_CELL V_NUL) [Some (V_INT 3), Some V_NUL, Some (V_INT 7)]"
  using merge_consumes_later_rows [of "[Some (V_INT 3), Some V_NUL]" "[Some (V_INT 7)]"
      "K_Choice MODE_MAX" "CHOICE_CELL (V_INT 3)" "CHOICE_CELL (V_INT 7)"]
  by (simp add: choice_defs choice_ok_def)

end
