(* ===== verification/Grouped_Aggregator.thy ===== *)
theory Grouped_Aggregator
  imports Accumulators
begin

text \<open>
  \<open>GROUP BY\<close> (\<open>src/query/executor/GroupedAggregator.cpp\<close>): the table of group keys, the groups in
  memory, and the aggregator that freezes its groups when they exceed the memory budget, spills the
  rows of new keys into partitions by hash, and aggregates every partition on its own, recursively.

  An evaluated batch is a list of rows, each with its key values and the argument values of the calls
  that have one.  The evaluation of the expressions, the memory estimate and the hash function are
  parameters; a spill file is the list of batches appended to it.  Group ids are not narrowed to
  32 bits, so the model is the code's for fewer than \<open>2 ^ 32\<close> groups.
\<close>

section \<open>State\<close>

record AggregateCall =
  ag_function :: AggregateFunction
  ag_distinct :: bool
  ag_argument :: bool

record AggregateSpec =
  sp_keys :: nat
  sp_aggregates :: "AggregateCall list"

record EvaluatedRow =
  er_keys :: "OwnedValue list"
  er_arguments :: "OwnedValue list"

text \<open>\<open>values_\<close> has a column per key; here it is kept by group, which is the same table transposed.\<close>

record GroupKeyTable =
  kt_index :: "(string, nat) umap"
  kt_values :: "OwnedValue list list"

record InMemoryGroups =
  ig_keys :: GroupKeyTable
  ig_accumulators :: "Accumulator option list"

section \<open>The key table\<close>

definition assign_row :: "GroupKeyTable \<Rightarrow> EvaluatedRow \<Rightarrow> GroupKeyTable \<times> nat" where
  "assign_row t row =
     (let key = row_key (er_keys row); fresh = length (kt_index t) in
      case map_of (kt_index t) key of
        Some g \<Rightarrow> (t, g)
      | None \<Rightarrow> (\<lparr>kt_index = umap_emplace key fresh (kt_index t), kt_values = kt_values t @ [er_keys row]\<rparr>, fresh))"

fun assign_rows :: "GroupKeyTable \<Rightarrow> EvaluatedRow list \<Rightarrow> GroupKeyTable \<times> nat list" where
  "assign_rows t [] = (t, [])"
| "assign_rows t (row # rows) =
     (let (t1, g) = assign_row t row; (t2, gs) = assign_rows t1 rows in (t2, g # gs))"

definition assign :: "nat \<Rightarrow> GroupKeyTable \<Rightarrow> EvaluatedRow list \<Rightarrow> GroupKeyTable \<times> nat list" where
  "assign keys t rows = (if keys = 0 then (t, replicate (length rows) 0) else assign_rows t rows)"

definition known :: "GroupKeyTable \<Rightarrow> EvaluatedRow \<Rightarrow> bool" where
  "known t row \<longleftrightarrow> map_of (kt_index t) (row_key (er_keys row)) \<noteq> None"

definition classify :: "GroupKeyTable \<Rightarrow> EvaluatedRow list \<Rightarrow> EvaluatedRow list \<times> EvaluatedRow list" where
  "classify t rows = (filter (known t) rows, filter (\<lambda>row. \<not> known t row) rows)"

section \<open>Groups in memory\<close>

definition groupCount :: "AggregateSpec \<Rightarrow> GroupKeyTable \<Rightarrow> nat" where
  "groupCount spec t = (if sp_keys spec = 0 then 1 else length (kt_index t))"

definition grow_slot :: "nat \<Rightarrow> AggregateCall \<Rightarrow> Accumulator option \<Rightarrow> Accumulator option" where
  "grow_slot groups call acc =
     map_option (resize groups)
       (if acc = None \<and> \<not> ag_argument call then Some (makeAccumulator (ag_function call) False) else acc)"

definition grow :: "AggregateSpec \<Rightarrow> nat \<Rightarrow> Accumulator option list \<Rightarrow> Accumulator option list" where
  "grow spec groups accs = map2 (grow_slot groups) (sp_aggregates spec) accs"

definition new_groups :: "AggregateSpec \<Rightarrow> InMemoryGroups" where
  "new_groups spec =
     (let accs = replicate (length (sp_aggregates spec)) None in
      \<lparr>ig_keys = \<lparr>kt_index = [], kt_values = []\<rparr>,
       ig_accumulators = (if sp_keys spec = 0 then grow spec 1 accs else accs)\<rparr>)"

text \<open>\<open>column++\<close>: the argument columns are those of the calls that have an argument, in order.\<close>

definition argument_column :: "AggregateSpec \<Rightarrow> nat \<Rightarrow> nat" where
  "argument_column spec i = length (filter ag_argument (take i (sp_aggregates spec)))"

definition call_value :: "AggregateSpec \<Rightarrow> nat \<Rightarrow> EvaluatedRow \<Rightarrow> OwnedValue option" where
  "call_value spec i row =
     (if ag_argument (sp_aggregates spec ! i) then Some (er_arguments row ! argument_column spec i) else None)"

definition consume_slot ::
  "AggregateSpec \<Rightarrow> nat \<Rightarrow> nat list \<Rightarrow> EvaluatedRow list \<Rightarrow> Accumulator option list \<Rightarrow> nat \<Rightarrow> exn + Accumulator" where
  "consume_slot spec groups group_ids rows accs i =
     (let call = sp_aggregates spec ! i;
          acc = (case accs ! i of Some a \<Rightarrow> a
                 | None \<Rightarrow> resize groups (makeAccumulator (ag_function call) (ag_distinct call)))
      in acc_consume acc group_ids (map (call_value spec i) rows))"

definition consume_groups :: "AggregateSpec \<Rightarrow> InMemoryGroups \<Rightarrow> EvaluatedRow list \<Rightarrow> exn + InMemoryGroups" where
  "consume_groups spec g rows =
     (let (t, group_ids) = assign (sp_keys spec) (ig_keys g) rows;
          groups = groupCount spec t;
          accs = grow spec groups (ig_accumulators g)
      in case mapE (consume_slot spec groups group_ids rows accs) [0..<length (sp_aggregates spec)] of
           Inl e \<Rightarrow> Inl e
         | Inr consumed \<Rightarrow> Inr \<lparr>ig_keys = t, ig_accumulators = map Some consumed\<rparr>)"

text \<open>
  What \<open>finish\<close> emits: per group its key values and its cells, and for the whole batch which
  accumulators have seen a double, since that decides the type of a sum column.
\<close>

record GroupBatch =
  gb_accumulators :: "(acc_kind \<times> bool) list"
  gb_groups :: "(OwnedValue list \<times> cell list) list"

definition finished_slots :: "AggregateSpec \<Rightarrow> InMemoryGroups \<Rightarrow> Accumulator list" where
  "finished_slots spec g =
     map2 (\<lambda>call acc. case acc of Some a \<Rightarrow> a
             | None \<Rightarrow> resize (groupCount spec (ig_keys g)) (makeAccumulator (ag_function call) (ag_distinct call)))
       (sp_aggregates spec) (ig_accumulators g)"

definition finish_groups :: "AggregateSpec \<Rightarrow> InMemoryGroups \<Rightarrow> GroupBatch" where
  "finish_groups spec g =
     (let accs = finished_slots spec g in
      \<lparr>gb_accumulators = map (\<lambda>a. (acc_kind a, acc_floating a)) accs,
       gb_groups = map (\<lambda>j. (if sp_keys spec = 0 then [] else kt_values (ig_keys g) ! j,
           map (\<lambda>a. acc_cells a ! j) accs)) [0..<groupCount spec (ig_keys g)]\<rparr>)"

definition output_rows :: "GroupBatch \<Rightarrow> OwnedValue list list" where
  "output_rows b =
     map (\<lambda>(keys, cells). keys @ map2 (\<lambda>(k, floating) c. finish_cell k floating c) (gb_accumulators b) cells)
       (gb_groups b)"

section \<open>Spilling\<close>

record AggregateEnv =
  en_spec :: AggregateSpec
  en_spill :: bool
  en_partitions :: nat
  en_hash :: "string \<Rightarrow> u64"
  en_over_budget :: "InMemoryGroups \<Rightarrow> bool"

definition kMaxDepth :: nat where
  "kMaxDepth = 4"

definition hashKey :: "(string \<Rightarrow> u64) \<Rightarrow> string \<Rightarrow> nat \<Rightarrow> u64" where
  "hashKey hash key depth = xor (hash key) (0x9e3779b97f4a7c15 * of_nat (depth + 1))"

definition partition_count :: "AggregateEnv \<Rightarrow> nat" where
  "partition_count env = max 2 (en_partitions env)"

definition partition_of :: "AggregateEnv \<Rightarrow> nat \<Rightarrow> EvaluatedRow \<Rightarrow> nat" where
  "partition_of env depth row =
     unat (hashKey (en_hash env) (row_key (er_keys row)) depth) mod partition_count env"

record EvaluatedAggregator =
  ea_groups :: InMemoryGroups
  ea_frozen :: bool
  ea_writers :: "EvaluatedRow list list list"

definition spill :: "AggregateEnv \<Rightarrow> nat \<Rightarrow> EvaluatedRow list \<Rightarrow> EvaluatedAggregator \<Rightarrow> EvaluatedAggregator" where
  "spill env depth rows s =
     (let n = partition_count env;
          writers = (if ea_writers s = [] then replicate n [] else ea_writers s)
      in s\<lparr>ea_writers := map2 (\<lambda>i batches.
             let selected = filter (\<lambda>row. partition_of env depth row = i) rows
             in if selected = [] then batches else batches @ [selected]) [0..<n] writers\<rparr>)"

definition consume_evaluated ::
  "AggregateEnv \<Rightarrow> nat \<Rightarrow> EvaluatedAggregator \<Rightarrow> EvaluatedRow list \<Rightarrow> exn + EvaluatedAggregator" where
  "consume_evaluated env depth s rows =
     (if \<not> ea_frozen s then
        (case consume_groups (en_spec env) (ea_groups s) rows of
           Inl e \<Rightarrow> Inl e
         | Inr g \<Rightarrow> Inr (s\<lparr>ea_groups := g,
             ea_frozen := sp_keys (en_spec env) \<noteq> 0 \<and> en_spill env \<and> depth < kMaxDepth \<and> en_over_budget env g\<rparr>))
      else
        (let (hits, misses) = classify (ig_keys (ea_groups s)) rows in
         case (if hits = [] then Inr (ea_groups s) else consume_groups (en_spec env) (ea_groups s) hits) of
           Inl e \<Rightarrow> Inl e
         | Inr g \<Rightarrow> Inr (if misses = [] then s\<lparr>ea_groups := g\<rparr> else spill env depth misses (s\<lparr>ea_groups := g\<rparr>))))"

definition new_aggregator :: "AggregateEnv \<Rightarrow> EvaluatedAggregator" where
  "new_aggregator env = \<lparr>ea_groups = new_groups (en_spec env), ea_frozen = False, ea_writers = []\<rparr>"



text \<open>
  All batches through an aggregator at some depth, and its \<open>finish\<close>: the groups in memory, then the
  groups of every partition with rows, aggregated one level deeper.  At \<open>kMaxDepth\<close> an aggregator
  never freezes, so it has no partitions (\<open>no_partitions_at_max_depth\<close> below); the guard is there for
  the termination proof.
\<close>

function aggregate :: "AggregateEnv \<Rightarrow> nat \<Rightarrow> EvaluatedRow list list \<Rightarrow> exn + GroupBatch list" where
  "aggregate env depth batches =
     (case foldE (consume_evaluated env depth) (new_aggregator env) batches of
        Inl e \<Rightarrow> Inl e
      | Inr s \<Rightarrow>
          (case (if depth < kMaxDepth
                 then mapE (aggregate env (depth + 1)) (filter (\<lambda>w. w \<noteq> []) (ea_writers s)) else Inr []) of
             Inl e \<Rightarrow> Inl e
           | Inr outs \<Rightarrow> Inr (finish_groups (en_spec env) (ea_groups s) # concat outs)))"
  by pat_completeness auto
termination
  by (relation "measure (\<lambda>(env, depth, batches). kMaxDepth - depth)") auto

declare aggregate.simps [simp del]

text \<open>\<open>GroupedAggregator\<close>: empty input batches are skipped; \<open>HAVING\<close> and the slices of the output.\<close>

definition batch_rows :: nat where
  "batch_rows = 65536"

function slice_rows :: "'a list \<Rightarrow> 'a list list" where
  "slice_rows rows = (if rows = [] then [] else take batch_rows rows # slice_rows (drop batch_rows rows))"
  by pat_completeness auto
termination by (relation "measure length") (auto simp: batch_rows_def)

declare slice_rows.simps [simp del]

definition applyAggregate ::
  "AggregateEnv \<Rightarrow> (OwnedValue list \<Rightarrow> bool) \<Rightarrow> EvaluatedRow list list \<Rightarrow> exn + OwnedValue list list list" where
  "applyAggregate env having batches =
     (case aggregate env 0 (filter (\<lambda>b. b \<noteq> []) batches) of
        Inl e \<Rightarrow> Inl e
      | Inr out \<Rightarrow> Inr (concat (map (\<lambda>b. slice_rows (filter having (output_rows b))) out)))"

section \<open>The specification: one group at a time\<close>

definition key_of :: "AggregateSpec \<Rightarrow> EvaluatedRow \<Rightarrow> string" where
  "key_of spec row = (if sp_keys spec = 0 then [] else row_key (er_keys row))"

text \<open>The keys in the order of their first appearance; without \<open>GROUP BY\<close> there is always one group.\<close>

definition add_key :: "string list \<Rightarrow> string \<Rightarrow> string list" where
  "add_key ks k = (if k \<in> set ks then ks else ks @ [k])"

definition group_keys :: "AggregateSpec \<Rightarrow> EvaluatedRow list \<Rightarrow> string list" where
  "group_keys spec rows = foldl add_key (if sp_keys spec = 0 then [[]] else []) (map (key_of spec) rows)"

definition rows_of :: "AggregateSpec \<Rightarrow> EvaluatedRow list \<Rightarrow> string \<Rightarrow> EvaluatedRow list" where
  "rows_of spec rows k = filter (\<lambda>row. key_of spec row = k) rows"

definition call_kind :: "AggregateSpec \<Rightarrow> nat \<Rightarrow> acc_kind" where
  "call_kind spec i =
     (let call = sp_aggregates spec ! i in
      acc_kind (makeAccumulator (ag_function call) (ag_argument call \<and> ag_distinct call)))"

definition cell_of :: "AggregateSpec \<Rightarrow> EvaluatedRow list \<Rightarrow> string \<Rightarrow> nat \<Rightarrow> exn + cell" where
  "cell_of spec rows k i =
     fold_cell (call_kind spec i) (new_cell (call_kind spec i)) (map (call_value spec i) (rows_of spec rows k))"

text \<open>The group of a key: the key values of its first row, and every call folded over its rows in order.\<close>

definition group_of :: "AggregateSpec \<Rightarrow> EvaluatedRow list \<Rightarrow> string \<Rightarrow> exn + (OwnedValue list \<times> cell list)" where
  "group_of spec rows k =
     (case mapE (cell_of spec rows k) [0..<length (sp_aggregates spec)] of
        Inl e \<Rightarrow> Inl e
      | Inr cells \<Rightarrow> Inr (if sp_keys spec = 0 then [] else er_keys (hd (rows_of spec rows k)), cells))"

section \<open>The keys\<close>

lemma set_foldl_add_key: "set (foldl add_key ks xs) = set ks \<union> set xs"
  by (induction xs arbitrary: ks) (auto simp: add_key_def)

lemma distinct_foldl_add_key: "distinct ks \<Longrightarrow> distinct (foldl add_key ks xs)"
  by (induction xs arbitrary: ks) (auto simp: add_key_def)

lemma foldl_add_key_extends: "\<exists>new. foldl add_key ks xs = ks @ new"
proof (induction xs arbitrary: ks)
  case (Cons x xs)
  obtain new where "foldl add_key (add_key ks x) xs = add_key ks x @ new" using Cons.IH by blast
  moreover have "\<exists>new. add_key ks x = ks @ new" by (simp add: add_key_def)
  ultimately show ?case by auto
qed simp

lemma distinct_group_keys [simp]: "distinct (group_keys spec rows)"
  by (simp add: group_keys_def distinct_foldl_add_key)

lemma set_group_keys:
  "set (group_keys spec rows) = (if sp_keys spec = 0 then {[]} else {}) \<union> key_of spec ` set rows"
  by (auto simp: group_keys_def set_foldl_add_key)

lemma group_keys_append:
  "group_keys spec (rows @ rows') = foldl add_key (group_keys spec rows) (map (key_of spec) rows')"
  by (simp add: group_keys_def)

lemma rows_of_append: "rows_of spec (rows @ rows') k = rows_of spec rows k @ rows_of spec rows' k"
  by (simp add: rows_of_def)

lemma key_of_no_keys [simp]: "sp_keys spec = 0 \<Longrightarrow> key_of spec row = []"
  by (simp add: key_of_def)

lemma group_keys_no_keys: "sp_keys spec = 0 \<Longrightarrow> group_keys spec rows = [[]]"
  by (induction rows) (auto simp: group_keys_def add_key_def)

text \<open>The rows of a key do not see the rows that another part of the input takes away.\<close>

lemma rows_of_filter: "P k \<Longrightarrow> rows_of spec (filter (\<lambda>row. P (key_of spec row)) rows) k = rows_of spec rows k"
  by (induction rows) (auto simp: rows_of_def)

lemma group_of_filter: "P k \<Longrightarrow> group_of spec (filter (\<lambda>row. P (key_of spec row)) rows) k = group_of spec rows k"
  unfolding group_of_def cell_of_def [abs_def] by (simp only: rows_of_filter [of P])

section \<open>The invariant of the groups in memory\<close>

definition table_ok :: "AggregateSpec \<Rightarrow> EvaluatedRow list \<Rightarrow> GroupKeyTable \<Rightarrow> bool" where
  "table_ok spec rows t \<longleftrightarrow>
     (sp_keys spec \<noteq> 0 \<longrightarrow>
        kt_index t = zip (group_keys spec rows) [0..<length (group_keys spec rows)] \<and>
        kt_values t = map (\<lambda>k. er_keys (hd (rows_of spec rows k))) (group_keys spec rows))"

definition slot_ok :: "AggregateSpec \<Rightarrow> EvaluatedRow list \<Rightarrow> string list \<Rightarrow> nat \<Rightarrow> Accumulator \<Rightarrow> bool" where
  "slot_ok spec rows ks i a \<longleftrightarrow>
     acc_kind a = call_kind spec i \<and> length (acc_cells a) = length ks \<and>
     (\<forall>j<length ks. cell_of spec rows (ks ! j) i = Inr (acc_cells a ! j))"

definition groups_ok :: "AggregateSpec \<Rightarrow> EvaluatedRow list \<Rightarrow> InMemoryGroups \<Rightarrow> bool" where
  "groups_ok spec rows g \<longleftrightarrow>
     table_ok spec rows (ig_keys g) \<and>
     length (ig_accumulators g) = length (sp_aggregates spec) \<and>
     (\<forall>i<length (sp_aggregates spec). case ig_accumulators g ! i of
        None \<Rightarrow> rows = [] \<and> (ag_argument (sp_aggregates spec ! i) \<or> sp_keys spec \<noteq> 0)
      | Some a \<Rightarrow> slot_ok spec rows (group_keys spec rows) i a)"

section \<open>Consuming a batch keeps the invariant\<close>

lemma index_lookup:
  "case map_of (zip ks [0..<length ks]) k of
      None \<Rightarrow> k \<notin> set ks | Some g \<Rightarrow> g < length ks \<and> ks ! g = k"
proof (cases "map_of (zip ks [0..<length ks]) k")
  case None
  then have "k \<notin> fst ` set (zip ks [0..<length ks])" by (simp add: map_of_eq_None_iff)
  also have "fst ` set (zip ks [0..<length ks]) = set ks"
    by (metis length_upt list.set_map map_fst_zip diff_zero)
  finally have "k \<notin> set ks" .
  then show ?thesis unfolding None by simp
next
  case (Some g)
  then show ?thesis using map_of_SomeD [OF Some] by (auto simp: in_set_zip)
qed

lemma known_iff:
  "table_ok spec rows t \<Longrightarrow> sp_keys spec \<noteq> 0 \<Longrightarrow> known t row \<longleftrightarrow> key_of spec row \<in> set (group_keys spec rows)"
  using index_lookup [of "row_key (er_keys row)" "group_keys spec rows"]
  by (auto simp: known_def table_ok_def key_of_def split: option.splits)

lemma group_keys_snoc:
  "group_keys spec (rows @ [row]) = add_key (group_keys spec rows) (key_of spec row)"
  by (simp add: group_keys_def)

lemma assign_row_ok:
  assumes "table_ok spec rows t" "sp_keys spec \<noteq> 0" "assign_row t row = (t', g)"
  shows "table_ok spec (rows @ [row]) t' \<and> g < length (group_keys spec (rows @ [row])) \<and>
    group_keys spec (rows @ [row]) ! g = key_of spec row"
proof -
  let ?ks = "group_keys spec rows" and ?k = "key_of spec row"
  have t: "kt_index t = zip ?ks [0..<length ?ks]"
    "kt_values t = map (\<lambda>k. er_keys (hd (rows_of spec rows k))) ?ks"
    using assms(1,2) by (auto simp: table_ok_def)
  have k: "row_key (er_keys row) = ?k" using assms(2) by (simp add: key_of_def)
  have old: "er_keys (hd (rows_of spec (rows @ [row]) k)) = er_keys (hd (rows_of spec rows k))"
    if "k \<in> set ?ks" for k
  proof -
    have "rows_of spec rows k \<noteq> []"
      using that assms(2) by (auto simp: set_group_keys rows_of_def filter_empty_conv split: if_splits)
    then show ?thesis by (simp add: rows_of_append)
  qed
  show ?thesis
  proof (cases "?k \<in> set ?ks")
    case True
    then have "map_of (kt_index t) ?k \<noteq> None"
      using index_lookup [of ?k ?ks] t(1) by (auto split: option.splits)
    then have "t' = t" "map_of (kt_index t) ?k = Some g"
      using assms(3) k by (auto simp: assign_row_def Let_def)
    then show ?thesis
      using True index_lookup [of ?k ?ks] t old
      by (auto simp: table_ok_def group_keys_snoc add_key_def)
  next
    case False
    then have n: "map_of (kt_index t) ?k = None"
      using index_lookup [of ?k ?ks] t(1) by (auto split: option.splits)
    then have t': "t' = \<lparr>kt_index = kt_index t @ [(?k, length ?ks)], kt_values = kt_values t @ [er_keys row]\<rparr>"
      "g = length ?ks"
      using assms(3) k n by (auto simp: assign_row_def Let_def umap_emplace_def) (simp_all add: t(1))
    have "rows_of spec rows ?k = []"
      using False unfolding set_group_keys rows_of_def filter_empty_conv by (metis UnI2 imageI)
    then have "rows_of spec (rows @ [row]) ?k = [row]" by (simp add: rows_of_append) (simp add: rows_of_def)
    then show ?thesis
      using False t' t old by (auto simp: table_ok_def group_keys_snoc add_key_def nth_append)
  qed
qed

definition ids_ok :: "AggregateSpec \<Rightarrow> string list \<Rightarrow> EvaluatedRow list \<Rightarrow> nat list \<Rightarrow> bool" where
  "ids_ok spec ks rows gs \<longleftrightarrow>
     list_all2 (\<lambda>row g. g < length ks \<and> ks ! g = key_of spec row) rows gs"

lemma assign_rows_ok:
  assumes "table_ok spec rows t" "sp_keys spec \<noteq> 0" "assign_rows t new = (t', gs)"
  shows "table_ok spec (rows @ new) t' \<and> ids_ok spec (group_keys spec (rows @ new)) new gs"
  using assms
proof (induction new arbitrary: rows t gs)
  case (Cons row new)
  obtain t1 g gs' where s: "assign_row t row = (t1, g)" "assign_rows t1 new = (t', gs')" "gs = g # gs'"
    using Cons.prems(3) by (auto split: prod.splits)
  have r: "table_ok spec (rows @ [row]) t1" "g < length (group_keys spec (rows @ [row]))"
    "group_keys spec (rows @ [row]) ! g = key_of spec row"
    using assign_row_ok [OF Cons.prems(1,2) s(1)] by auto
  have ih: "table_ok spec ((rows @ [row]) @ new) t' \<and> ids_ok spec (group_keys spec ((rows @ [row]) @ new)) new gs'"
    by (rule Cons.IH [OF r(1) Cons.prems(2) s(2)])
  obtain more where "group_keys spec ((rows @ [row]) @ new) = group_keys spec (rows @ [row]) @ more"
    using foldl_add_key_extends by (metis group_keys_append)
  then have "g < length (group_keys spec ((rows @ [row]) @ new)) \<and>
      group_keys spec ((rows @ [row]) @ new) ! g = key_of spec row"
    using r by (simp add: nth_append)
  then show ?case using ih s(3) by (simp add: ids_ok_def)
qed (simp add: ids_ok_def)

lemma assign_ok:
  assumes "table_ok spec rows t" "assign (sp_keys spec) t new = (t', gs)"
  shows "table_ok spec (rows @ new) t' \<and> ids_ok spec (group_keys spec (rows @ new)) new gs"
proof (cases "sp_keys spec = 0")
  case True
  then show ?thesis
    using assms by (auto simp: assign_def table_ok_def ids_ok_def group_keys_no_keys list_all2_conv_all_nth)
next
  case False
  then show ?thesis using assign_rows_ok [OF assms(1) False] assms(2) by (simp add: assign_def)
qed

lemma groupCount_ok: "table_ok spec rows t \<Longrightarrow> groupCount spec t = length (group_keys spec rows)"
  by (auto simp: groupCount_def table_ok_def group_keys_no_keys)

lemma group_values_ids:
  assumes "ids_ok spec ks rows gs" "distinct ks" "j < length ks"
  shows "group_values j (zip gs (map f rows)) = map f (rows_of spec rows (ks ! j))"
proof -
  from assms(1) have "list_all2 (\<lambda>row g. g < length ks \<and> ks ! g = key_of spec row) rows gs"
    by (simp add: ids_ok_def)
  then show ?thesis
  proof (induction rule: list_all2_induct)
    case (Cons row rows g gs)
    have "g = j \<longleftrightarrow> key_of spec row = ks ! j"
      using Cons(1) assms(2,3) nth_eq_iff_index_eq by metis
    then show ?case using Cons(3) by (auto simp: rows_of_def)
  qed (simp add: rows_of_def)
qed

lemma fold_cell_group:
  "cell_of spec (rows @ new) k i =
     (case cell_of spec rows k i of Inl e \<Rightarrow> Inl e
      | Inr c \<Rightarrow> fold_cell (call_kind spec i) c (map (call_value spec i) (rows_of spec new k)))"
  by (simp add: cell_of_def rows_of_append fold_cell_append)

lemma slot_consume:
  assumes "slot_ok spec rows ks i a" "ids_ok spec ks new gs" "distinct ks"
  shows "case acc_consume a gs (map (call_value spec i) new) of
      Inr a' \<Rightarrow> slot_ok spec (rows @ new) ks i a'
    | Inl e \<Rightarrow> \<exists>k\<in>set ks. cell_of spec (rows @ new) k i = Inl e"
proof -
  have len: "\<forall>(g, v)\<in>set (zip gs (map (call_value spec i) new)). g < length (acc_cells a)"
    using assms(1,2) by (auto simp: slot_ok_def ids_ok_def list_all2_conv_all_nth set_zip)
  have old: "cell_of spec rows (ks ! j) i = Inr (acc_cells a ! j)" "acc_kind a = call_kind spec i"
    "length (acc_cells a) = length ks" if "j < length ks" for j
    using assms(1) that by (auto simp: slot_ok_def)
  have gv: "group_values j (zip gs (map (call_value spec i) new)) =
      map (call_value spec i) (rows_of spec new (ks ! j))" if "j < length ks" for j
    by (rule group_values_ids [OF assms(2,3) that])
  show ?thesis
  proof (cases "acc_consume a gs (map (call_value spec i) new)")
    case (Inl e)
    then obtain j where "j < length ks" "fold_cell (acc_kind a) (acc_cells a ! j)
        (group_values j (zip gs (map (call_value spec i) new))) = Inl e"
      using consume_rows_Inl [OF _ len] assms(1) by (auto simp: acc_consume_def slot_ok_def)
    then have "cell_of spec (rows @ new) (ks ! j) i = Inl e"
      using old [of j] gv [of j] by (simp add: fold_cell_group)
    then show ?thesis using Inl \<open>j < length ks\<close> by auto
  next
    case (Inr a')
    then have "acc_kind a' = acc_kind a \<and> length (acc_cells a') = length (acc_cells a) \<and>
      (\<forall>g<length (acc_cells a). fold_cell (acc_kind a) (acc_cells a ! g)
         (group_values g (zip gs (map (call_value spec i) new))) = Inr (acc_cells a' ! g))"
      using consume_rows_Inr [OF _ len] by (simp add: acc_consume_def)
    then show ?thesis
      using Inr old gv assms(1) by (auto simp: slot_ok_def fold_cell_group)
  qed
qed

lemma cell_of_no_rows: "rows_of spec rows k = [] \<Longrightarrow> cell_of spec rows k i = Inr (new_cell (call_kind spec i))"
  by (simp add: cell_of_def)

lemma no_rows_of_new:
  "k \<notin> set (group_keys spec rows) \<Longrightarrow> rows_of spec rows k = []"
  unfolding set_group_keys rows_of_def filter_empty_conv by (metis UnI2 imageI)

lemma slot_resize:
  assumes "slot_ok spec rows (group_keys spec rows) i a"
  shows "slot_ok spec rows (group_keys spec (rows @ new)) i (resize (length (group_keys spec (rows @ new))) a)"
proof -
  obtain more where more: "group_keys spec (rows @ new) = group_keys spec rows @ more"
    using foldl_add_key_extends by (metis group_keys_append)
  have fresh: "cell_of spec rows (more ! j) i = Inr (new_cell (call_kind spec i))" if "j < length more" for j
  proof (rule cell_of_no_rows, rule no_rows_of_new)
    have "distinct (group_keys spec rows @ more)" by (metis distinct_group_keys more)
    then show "more ! j \<notin> set (group_keys spec rows)" using that by (auto simp: disjoint_iff)
  qed
  show ?thesis
    using assms fresh by (auto simp: slot_ok_def resize_def more nth_append)
qed

lemma slot_fresh:
  "acc_kind a = call_kind spec i \<Longrightarrow> acc_cells a = [] \<Longrightarrow> slot_ok spec [] ks i (resize (length ks) a)"
  by (auto simp: slot_ok_def resize_def cell_of_def rows_of_def)

lemma makeAccumulator_cells [simp]: "acc_cells (makeAccumulator f d) = []"
  by (cases f) (simp_all add: new_accumulator_def)

lemma mapE_InlD: "mapE f xs = Inl e \<Longrightarrow> \<exists>x\<in>set xs. f x = Inl e"
  by (induction xs) (auto split: sum.splits)

lemma group_of_fails_iff:
  "(\<exists>e. group_of spec rows k = Inl e) \<longleftrightarrow> (\<exists>i<length (sp_aggregates spec). \<exists>e. cell_of spec rows k i = Inl e)"
  using mapE_Inl_iff [of "cell_of spec rows k" "[0..<length (sp_aggregates spec)]"]
  by (auto simp: group_of_def split: sum.splits)

lemma group_of_fails_append:
  "\<exists>e. group_of spec rows k = Inl e \<Longrightarrow> \<exists>e. group_of spec (rows @ new) k = Inl e"
  unfolding group_of_fails_iff by (force simp: fold_cell_group)

text \<open>Some group of the rows cannot be computed: a non-numeric sum, incomparable values.\<close>

definition some_group_fails :: "AggregateSpec \<Rightarrow> EvaluatedRow list \<Rightarrow> bool" where
  "some_group_fails spec rows \<longleftrightarrow> (\<exists>k\<in>set (group_keys spec rows). \<exists>e. group_of spec rows k = Inl e)"

lemma some_group_fails_append: "some_group_fails spec rows \<Longrightarrow> some_group_fails spec (rows @ new)"
proof -
  assume "some_group_fails spec rows"
  then obtain k where "k \<in> set (group_keys spec rows)" "\<exists>e. group_of spec rows k = Inl e"
    by (auto simp: some_group_fails_def)
  then have "k \<in> set (group_keys spec (rows @ new))" "\<exists>e. group_of spec (rows @ new) k = Inl e"
    using group_of_fails_append by (auto simp: set_group_keys)
  then show ?thesis by (auto simp: some_group_fails_def)
qed

lemma some_group_fails_filter:
  assumes "some_group_fails spec (filter (\<lambda>row. P (key_of spec row)) rows)" "sp_keys spec \<noteq> 0"
  shows "some_group_fails spec rows"
proof -
  obtain k where k: "k \<in> set (group_keys spec (filter (\<lambda>row. P (key_of spec row)) rows))"
    "\<exists>e. group_of spec (filter (\<lambda>row. P (key_of spec row)) rows) k = Inl e"
    using assms(1) by (auto simp: some_group_fails_def)
  then have "P k" "k \<in> set (group_keys spec rows)" using assms(2) by (auto simp: set_group_keys)
  then show ?thesis using k(2) group_of_filter [of P k spec rows] by (auto simp: some_group_fails_def)
qed

lemma consume_slot_start:
  assumes "groups_ok spec rows g" "i < length (sp_aggregates spec)"
    and "n = length (group_keys spec (rows @ new))" and "call = sp_aggregates spec ! i"
  shows "slot_ok spec rows (group_keys spec (rows @ new)) i
    (case grow_slot n call (ig_accumulators g ! i) of Some a \<Rightarrow> a
     | None \<Rightarrow> resize n (makeAccumulator (ag_function call) (ag_distinct call)))"
proof (cases "ig_accumulators g ! i")
  case None
  then have "rows = []" using assms(1,2) by (auto simp: groups_ok_def)
  then show ?thesis using None
    by (auto simp: grow_slot_def assms(3,4) call_kind_def Let_def intro!: slot_fresh)
next
  case (Some a)
  then have "slot_ok spec rows (group_keys spec rows) i a"
    using assms(1,2) unfolding groups_ok_def by (auto split: option.splits)
  then show ?thesis using Some slot_resize by (simp add: grow_slot_def assms(3))
qed

lemma consume_groups_ok:
  assumes "groups_ok spec rows g"
  shows "case consume_groups spec g new of
      Inl e \<Rightarrow> some_group_fails spec (rows @ new) | Inr g' \<Rightarrow> groups_ok spec (rows @ new) g'"
proof -
  let ?ks = "group_keys spec (rows @ new)" and ?N = "length (sp_aggregates spec)"
  obtain t gs where a: "assign (sp_keys spec) (ig_keys g) new = (t, gs)" by fastforce
  have t: "table_ok spec (rows @ new) t" "ids_ok spec ?ks new gs"
    using assign_ok [OF _ a] assms by (auto simp: groups_ok_def)
  have n: "groupCount spec t = length ?ks" by (rule groupCount_ok [OF t(1)])
  let ?accs = "grow spec (length ?ks) (ig_accumulators g)"
  let ?f = "consume_slot spec (length ?ks) gs new ?accs"
  have slot: "case ?f i of Inr a' \<Rightarrow> slot_ok spec (rows @ new) ?ks i a'
    | Inl e \<Rightarrow> \<exists>k\<in>set ?ks. cell_of spec (rows @ new) k i = Inl e" if i: "i < ?N" for i
  proof -
    have "?accs ! i = grow_slot (length ?ks) (sp_aggregates spec ! i) (ig_accumulators g ! i)"
      using i assms by (simp add: grow_def groups_ok_def)
    then show ?thesis
      using slot_consume [OF consume_slot_start [OF assms i refl refl] t(2) distinct_group_keys]
      by (simp add: consume_slot_def Let_def)
  qed
  show ?thesis
  proof (cases "mapE ?f [0..<?N]")
    case (Inl e)
    then have "\<exists>i\<in>set [0..<?N]. ?f i = Inl e" by (rule mapE_InlD)
    then obtain i where i: "i < ?N" "?f i = Inl e" by (metis atLeastLessThan_iff set_upt)
    then obtain k where "k \<in> set ?ks" "cell_of spec (rows @ new) k i = Inl e"
      using slot [OF i(1)] unfolding i(2) by (simp, blast)
    then have "some_group_fails spec (rows @ new)"
      unfolding some_group_fails_def group_of_fails_iff using i(1) by blast
    then show ?thesis using Inl by (simp add: consume_groups_def a n)
  next
    case (Inr as)
    then have as: "list_all2 (\<lambda>i a. ?f i = Inr a) [0..<?N] as" by (simp add: mapE_Inr_iff)
    then have len: "length as = ?N" by (auto dest: list_all2_lengthD)
    have "slot_ok spec (rows @ new) ?ks i (as ! i)" if i: "i < ?N" for i
      using slot [OF i] list_all2_nthD [OF as, of i] i by simp
    then have "groups_ok spec (rows @ new) \<lparr>ig_keys = t, ig_accumulators = map Some as\<rparr>"
      using t(1) len by (simp add: groups_ok_def)
    then show ?thesis using Inr by (simp add: consume_groups_def a n)
  qed
qed

lemma new_groups_ok: "groups_ok spec [] (new_groups spec)"
proof -
  have "slot_ok spec [] [[]] i (resize (Suc 0) (makeAccumulator (ag_function (sp_aggregates spec ! i)) False))"
    if "\<not> ag_argument (sp_aggregates spec ! i)" for i
    using slot_fresh [of "makeAccumulator (ag_function (sp_aggregates spec ! i)) False" spec i "[[]]"] that
    by (simp add: call_kind_def Let_def)
  then show ?thesis
    by (auto simp: groups_ok_def new_groups_def table_ok_def group_keys_def grow_def grow_slot_def Let_def)
qed

lemma finish_groups_ok:
  assumes "groups_ok spec rows g"
  shows "map Inr (gb_groups (finish_groups spec g)) = map (group_of spec rows) (group_keys spec rows)"
proof -
  let ?ks = "group_keys spec rows" and ?N = "length (sp_aggregates spec)"
  let ?as = "finished_slots spec g"
  have n: "groupCount spec (ig_keys g) = length ?ks"
    using assms by (auto simp: groups_ok_def intro: groupCount_ok)
  have len: "length ?as = ?N" using assms by (simp add: finished_slots_def groups_ok_def)
  have cell: "cell_of spec rows (?ks ! j) i = Inr (acc_cells (?as ! i) ! j)" if "j < length ?ks" "i < ?N" for i j
  proof (cases "ig_accumulators g ! i")
    case None
    then have r: "rows = []" "ag_argument (sp_aggregates spec ! i) \<or> sp_keys spec \<noteq> 0"
      using assms that unfolding groups_ok_def by (auto split: option.splits)
    have arg: "ag_argument (sp_aggregates spec ! i)"
      using r that(1) by (auto simp: group_keys_def)
    have "?as ! i = resize (length ?ks) (makeAccumulator (ag_function (sp_aggregates spec ! i)) (ag_distinct (sp_aggregates spec ! i)))"
      using None that assms n by (simp add: finished_slots_def groups_ok_def)
    then have "slot_ok spec [] ?ks i (?as ! i)"
      using arg by (auto simp: call_kind_def Let_def intro!: slot_fresh)
    then show ?thesis using r that by (simp add: slot_ok_def)
  next
    case (Some a)
    then have "slot_ok spec rows ?ks i a" "?as ! i = a"
      using assms that unfolding groups_ok_def by (auto simp: finished_slots_def split: option.splits)
    then show ?thesis using that by (simp add: slot_ok_def)
  qed
  have "mapE (cell_of spec rows (?ks ! j)) [0..<?N] = Inr (map (\<lambda>a. acc_cells a ! j) ?as)" if "j < length ?ks" for j
    using cell [OF that] len by (auto simp: mapE_Inr_iff list_all2_conv_all_nth)
  moreover have "sp_keys spec \<noteq> 0 \<Longrightarrow> j < length ?ks \<Longrightarrow> kt_values (ig_keys g) ! j = er_keys (hd (rows_of spec rows (?ks ! j)))" for j
    using assms by (simp add: groups_ok_def table_ok_def)
  ultimately show ?thesis
    by (intro nth_equalityI) (auto simp: finish_groups_def Let_def n group_of_def)
qed

section \<open>Freezing and spilling keep every row with its key\<close>

definition key_partition :: "AggregateEnv \<Rightarrow> nat \<Rightarrow> string \<Rightarrow> nat" where
  "key_partition env depth k = unat (hashKey (en_hash env) k depth) mod partition_count env"

lemma partition_of_key: "sp_keys spec \<noteq> 0 \<Longrightarrow> partition_of env depth row = key_partition env depth (key_of spec row)"
  by (simp add: partition_of_def key_partition_def key_of_def)

lemma key_partition_less [simp]: "key_partition env depth k < partition_count env"
  by (simp add: key_partition_def partition_count_def)

text \<open>
  After the rows \<open>R\<close>: the groups in memory have seen all of \<open>R\<close>, or, once frozen, exactly the rows of
  their keys; and partition \<open>p\<close> holds, in order, the other rows whose key hashes to \<open>p\<close>.
\<close>

definition spilled :: "AggregateEnv \<Rightarrow> nat \<Rightarrow> string set \<Rightarrow> nat \<Rightarrow> string \<Rightarrow> bool" where
  "spilled env depth K p k \<longleftrightarrow> k \<notin> K \<and> key_partition env depth k = p"

definition writers_ok :: "AggregateEnv \<Rightarrow> nat \<Rightarrow> string set \<Rightarrow> EvaluatedRow list \<Rightarrow> EvaluatedRow list list list \<Rightarrow> bool" where
  "writers_ok env depth K R ws \<longleftrightarrow>
     (if ws = [] then \<forall>row\<in>set R. key_of (en_spec env) row \<in> K
      else length ws = partition_count env \<and>
        (\<forall>p<partition_count env. concat (ws ! p) =
           filter (\<lambda>row. spilled env depth K p (key_of (en_spec env) row)) R))"

definition agg_inv :: "AggregateEnv \<Rightarrow> nat \<Rightarrow> EvaluatedRow list \<Rightarrow> EvaluatedAggregator \<Rightarrow> bool" where
  "agg_inv env depth R s \<longleftrightarrow>
     (if ea_frozen s then
        sp_keys (en_spec env) \<noteq> 0 \<and> depth < kMaxDepth \<and>
        (\<exists>K Rm. groups_ok (en_spec env) Rm (ea_groups s) \<and> K = set (group_keys (en_spec env) Rm) \<and>
           Rm = filter (\<lambda>row. key_of (en_spec env) row \<in> K) R \<and>
           writers_ok env depth K R (ea_writers s))
      else groups_ok (en_spec env) R (ea_groups s) \<and> ea_writers s = [])"

lemma partition_count_pos [simp]: "0 < partition_count env"
  by (simp add: partition_count_def)

lemma spill_writers_ok:
  assumes "writers_ok env depth K R (ea_writers s)" "sp_keys (en_spec env) \<noteq> 0"
  shows "writers_ok env depth K (R @ new)
    (ea_writers (spill env depth (filter (\<lambda>row. key_of (en_spec env) row \<notin> K) new) s))"
proof -
  let ?n = "partition_count env" and ?k = "key_of (en_spec env)"
  let ?ws = "if ea_writers s = [] then replicate ?n [] else ea_writers s"
  let ?ws' = "ea_writers (spill env depth (filter (\<lambda>row. ?k row \<notin> K) new) s)"
  have ws: "length ?ws = ?n" "\<And>p. p < ?n \<Longrightarrow> concat (?ws ! p) = filter (\<lambda>row. spilled env depth K p (?k row)) R"
    using assms(1) by (auto simp: writers_ok_def spilled_def filter_empty_conv split: if_splits)
  have sel: "filter (\<lambda>row. partition_of env depth row = p) (filter (\<lambda>row. ?k row \<notin> K) new) =
      filter (\<lambda>row. spilled env depth K p (?k row)) new" for p
    using partition_of_key [OF assms(2)] by (auto simp: spilled_def intro!: filter_cong)
  have "?ws' \<noteq> []" "length ?ws' = ?n"
    using ws(1) by (auto simp: spill_def Let_def simp flip: length_0_conv)
  moreover have "concat (?ws' ! p) = filter (\<lambda>row. spilled env depth K p (?k row)) (R @ new)" if "p < ?n" for p
    using that ws sel by (simp add: spill_def Let_def)
  ultimately show ?thesis by (simp add: writers_ok_def)
qed

lemma writers_ok_known:
  assumes "writers_ok env depth K R ws" "\<forall>row\<in>set new. key_of (en_spec env) row \<in> K"
  shows "writers_ok env depth K (R @ new) ws"
  using assms by (auto simp: writers_ok_def spilled_def filter_empty_conv)

lemma agg_inv_frozenI:
  assumes "ea_frozen s" "sp_keys (en_spec env) \<noteq> 0" "depth < kMaxDepth" "groups_ok (en_spec env) Rm (ea_groups s)"
    "Rm = filter (\<lambda>row. key_of (en_spec env) row \<in> set (group_keys (en_spec env) Rm)) R"
    "writers_ok env depth (set (group_keys (en_spec env) Rm)) R (ea_writers s)"
  shows "agg_inv env depth R s"
  unfolding agg_inv_def if_P [OF assms(1)] using assms(2-6) by blast

lemma consume_evaluated_inv:
  assumes "agg_inv env depth R s"
  shows "case consume_evaluated env depth s new of
      Inl e \<Rightarrow> some_group_fails (en_spec env) (R @ new) | Inr s' \<Rightarrow> agg_inv env depth (R @ new) s'"
proof (cases "ea_frozen s")
  case False
  then have g: "groups_ok (en_spec env) R (ea_groups s)" "ea_writers s = []"
    using assms by (auto simp: agg_inv_def)
  show ?thesis
  proof (cases "consume_groups (en_spec env) (ea_groups s) new")
    case (Inl e)
    then show ?thesis using consume_groups_ok [OF g(1), of new] False by (simp add: consume_evaluated_def)
  next
    case (Inr g')
    then have g': "groups_ok (en_spec env) (R @ new) g'" using consume_groups_ok [OF g(1), of new] by simp
    let ?K = "set (group_keys (en_spec env) (R @ new))"
      and ?fr = "sp_keys (en_spec env) \<noteq> 0 \<and> en_spill env \<and> depth < kMaxDepth \<and> en_over_budget env g'"
    have all: "\<forall>row\<in>set (R @ new). key_of (en_spec env) row \<in> ?K"
      by (auto simp: set_group_keys)
    have "agg_inv env depth (R @ new) (s\<lparr>ea_groups := g', ea_frozen := ?fr\<rparr>)"
    proof (cases ?fr)
      case True
      show ?thesis
      proof (rule agg_inv_frozenI)
        show "R @ new = filter (\<lambda>row. key_of (en_spec env) row \<in> ?K) (R @ new)"
          using all by (metis (mono_tags, lifting) filter_True)
        show "writers_ok env depth ?K (R @ new) (ea_writers (s\<lparr>ea_groups := g', ea_frozen := ?fr\<rparr>))"
          using all g(2) by (simp add: writers_ok_def)
      qed (use True g' in simp_all)
    qed (use g' g(2) in \<open>auto simp: agg_inv_def\<close>)
    then show ?thesis using Inr False by (simp add: consume_evaluated_def)
  qed
next
  case True
  let ?sp = "en_spec env" and ?k = "key_of (en_spec env)"
  obtain K Rm where keys: "sp_keys ?sp \<noteq> 0" and d: "depth < kMaxDepth" and g: "groups_ok ?sp Rm (ea_groups s)"
    and K: "K = set (group_keys ?sp Rm)" and Rm: "Rm = filter (\<lambda>row. ?k row \<in> K) R"
    and w: "writers_ok env depth K R (ea_writers s)"
    using assms unfolding agg_inv_def if_P [OF True] by blast
  let ?hits = "filter (\<lambda>row. ?k row \<in> K) new" and ?misses = "filter (\<lambda>row. ?k row \<notin> K) new"
  have cl: "classify (ig_keys (ea_groups s)) new = (?hits, ?misses)"
  proof -
    have "known (ig_keys (ea_groups s)) row \<longleftrightarrow> ?k row \<in> K" for row
      using known_iff [OF _ keys] g unfolding K groups_ok_def by blast
    then show ?thesis unfolding classify_def by (simp cong: filter_cong)
  qed
  have RmR: "Rm @ ?hits = filter (\<lambda>row. ?k row \<in> K) (R @ new)" using Rm by simp
  have K': "K = set (group_keys ?sp (Rm @ ?hits))"
    using K keys by (auto simp: set_group_keys)
  let ?r = "if ?hits = [] then Inr (ea_groups s) else consume_groups ?sp (ea_groups s) ?hits"
  have r: "case ?r of Inl e \<Rightarrow> some_group_fails ?sp (Rm @ ?hits) | Inr g' \<Rightarrow> groups_ok ?sp (Rm @ ?hits) g'"
    using consume_groups_ok [OF g, of ?hits] g by (auto split: if_splits)
  show ?thesis
  proof (cases ?r)
    case (Inl e)
    then have "some_group_fails ?sp (filter (\<lambda>row. ?k row \<in> K) (R @ new))" using r RmR by simp
    then have "some_group_fails ?sp (R @ new)" by (rule some_group_fails_filter) (rule keys)
    then show ?thesis using True cl Inl by (simp add: consume_evaluated_def)
  next
    case (Inr g')
    let ?s' = "if ?misses = [] then s\<lparr>ea_groups := g'\<rparr> else spill env depth ?misses (s\<lparr>ea_groups := g'\<rparr>)"
    have w': "writers_ok env depth K (R @ new) (ea_writers ?s')"
    proof (cases "?misses = []")
      case True
      then show ?thesis using writers_ok_known [OF w, of new] by (simp add: filter_empty_conv)
    next
      case False
      have "writers_ok env depth K R (ea_writers (s\<lparr>ea_groups := g'\<rparr>))" using w by simp
      from spill_writers_ok [OF this keys, of new] False show ?thesis by simp
    qed
    have s': "ea_frozen ?s'" "ea_groups ?s' = g'" using True by (simp_all add: spill_def Let_def)
    have "agg_inv env depth (R @ new) ?s'"
    proof (rule agg_inv_frozenI [OF s'(1) keys d])
      show "groups_ok ?sp (Rm @ ?hits) (ea_groups ?s')" using r unfolding Inr s'(2) by simp
      show "Rm @ ?hits = filter (\<lambda>row. ?k row \<in> set (group_keys ?sp (Rm @ ?hits))) (R @ new)"
        by (subst K' [symmetric]) (rule RmR)
      show "writers_ok env depth (set (group_keys ?sp (Rm @ ?hits))) (R @ new) (ea_writers ?s')"
        by (subst K' [symmetric]) (rule w')
    qed
    then show ?thesis using True cl Inr by (simp add: consume_evaluated_def)
  qed
qed

lemma consume_all_inv:
  assumes "agg_inv env depth R s"
  shows "case foldE (consume_evaluated env depth) s batches of
      Inl e \<Rightarrow> some_group_fails (en_spec env) (R @ concat batches)
    | Inr s' \<Rightarrow> agg_inv env depth (R @ concat batches) s'"
  using assms
proof (induction batches arbitrary: R s)
  case (Cons b batches)
  show ?case
  proof (cases "consume_evaluated env depth s b")
    case (Inl e)
    then have "some_group_fails (en_spec env) (R @ b)"
      using consume_evaluated_inv [OF Cons.prems, of b] by simp
    from some_group_fails_append [OF this, of "concat batches"] show ?thesis using Inl by simp
  next
    case (Inr s')
    then have "agg_inv env depth (R @ b) s'"
      using consume_evaluated_inv [OF Cons.prems, of b] by simp
    moreover have "(R @ b) @ concat batches = R @ concat (b # batches)" by simp
    ultimately show ?thesis using Cons.IH [of "R @ b" s'] by (simp only: foldE.simps Inr sum.case)
  qed
qed simp

lemma new_aggregator_inv: "agg_inv env depth [] (new_aggregator env)"
  by (simp add: agg_inv_def new_aggregator_def new_groups_ok)

text \<open>At the deepest level nothing is ever spilled.\<close>

lemma no_partitions_at_max_depth:
  assumes "foldE (consume_evaluated env depth) (new_aggregator env) batches = Inr s" "\<not> depth < kMaxDepth"
  shows "ea_writers s = []"
  using consume_all_inv [OF new_aggregator_inv [of env depth], of batches] assms
  by (auto simp: agg_inv_def split: if_splits)

section \<open>The groups that come out\<close>

definition emitted :: "GroupBatch list \<Rightarrow> (OwnedValue list \<times> cell list) list" where
  "emitted out = concat (map gb_groups out)"

definition expected_groups :: "AggregateSpec \<Rightarrow> EvaluatedRow list \<Rightarrow> (exn + OwnedValue list \<times> cell list) multiset" where
  "expected_groups spec rows = image_mset (group_of spec rows) (mset (group_keys spec rows))"

definition outcome_ok :: "AggregateSpec \<Rightarrow> EvaluatedRow list \<Rightarrow> exn + GroupBatch list \<Rightarrow> bool" where
  "outcome_ok spec rows r \<longleftrightarrow>
     (case r of Inl e \<Rightarrow> some_group_fails spec rows
      | Inr out \<Rightarrow> image_mset Inr (mset (emitted out)) = expected_groups spec rows)"

lemma keys_of_part:
  "sp_keys spec \<noteq> 0 \<Longrightarrow>
     mset (group_keys spec (filter (\<lambda>row. P (key_of spec row)) rows)) = filter_mset P (mset (group_keys spec rows))"
proof -
  assume k: "sp_keys spec \<noteq> 0"
  have "mset_set (set (group_keys spec (filter (\<lambda>row. P (key_of spec row)) rows))) =
      mset_set {x \<in> set (group_keys spec rows). P x}"
    using k by (intro arg_cong [where f = mset_set]) (auto simp: set_group_keys)
  then show ?thesis by (simp add: mset_set_set filter_mset_mset_set [symmetric])
qed

lemma expected_part:
  assumes "sp_keys spec \<noteq> 0"
  shows "expected_groups spec (filter (\<lambda>row. P (key_of spec row)) rows) =
    image_mset (group_of spec rows) (filter_mset P (mset (group_keys spec rows)))"
proof -
  have "expected_groups spec (filter (\<lambda>row. P (key_of spec row)) rows) =
      image_mset (group_of spec (filter (\<lambda>row. P (key_of spec row)) rows)) (filter_mset P (mset (group_keys spec rows)))"
    by (simp add: expected_groups_def keys_of_part [OF assms])
  also have "\<dots> = image_mset (group_of spec rows) (filter_mset P (mset (group_keys spec rows)))"
    by (intro image_mset_cong) (simp add: group_of_filter [of P])
  finally show ?thesis .
qed

lemma split_by_partition:
  "(\<Sum>p\<leftarrow>[0..<n]. filter_mset (\<lambda>k. Q k \<and> part k = p) M) = filter_mset (\<lambda>k. Q k \<and> part k < n) M"
proof (induction n)
  case (Suc n)
  have "filter_mset (\<lambda>k. Q k \<and> part k < n) M + filter_mset (\<lambda>k. Q k \<and> part k = n) M =
      filter_mset (\<lambda>k. Q k \<and> part k < Suc n) M"
    by (induction M) (auto simp: less_Suc_eq)
  then show ?case using Suc by simp
qed simp

lemma sum_list_image_mset: "(\<Sum>x\<leftarrow>xs. image_mset f (g x)) = image_mset f (\<Sum>x\<leftarrow>xs. g x)"
  by (induction xs) auto

lemma expected_partitions:
  assumes keys: "sp_keys (en_spec env) \<noteq> 0"
  shows "expected_groups (en_spec env) (filter (\<lambda>row. key_of (en_spec env) row \<in> K) R) +
      (\<Sum>p\<leftarrow>[0..<partition_count env]. expected_groups (en_spec env)
         (filter (\<lambda>row. spilled env depth K p (key_of (en_spec env) row)) R)) =
    expected_groups (en_spec env) R"
proof -
  let ?sp = "en_spec env" let ?M = "mset (group_keys ?sp R)"
  have "(\<Sum>p\<leftarrow>[0..<partition_count env]. expected_groups ?sp (filter (\<lambda>row. spilled env depth K p (key_of ?sp row)) R)) =
      (\<Sum>p\<leftarrow>[0..<partition_count env]. image_mset (group_of ?sp R)
         (filter_mset (\<lambda>k. k \<notin> K \<and> key_partition env depth k = p) ?M))"
    unfolding spilled_def
    by (simp only: expected_part [OF keys, where P = "\<lambda>k. k \<notin> K \<and> key_partition env depth k = _"])
  also have "\<dots> = image_mset (group_of ?sp R)
      (\<Sum>p\<leftarrow>[0..<partition_count env]. filter_mset (\<lambda>k. k \<notin> K \<and> key_partition env depth k = p) ?M)"
    by (rule sum_list_image_mset)
  also have "\<dots> = image_mset (group_of ?sp R) (filter_mset (\<lambda>k. k \<notin> K) ?M)"
    by (simp add: split_by_partition)
  finally show ?thesis
    unfolding expected_part [OF keys, where P = "\<lambda>k. k \<in> K"] expected_groups_def [of ?sp R]
    by (simp flip: image_mset_union multiset_partition)
qed

lemma expected_no_rows: "sp_keys spec \<noteq> 0 \<Longrightarrow> expected_groups spec [] = {#}"
  by (simp add: expected_groups_def group_keys_def)

lemma partitions_outcome:
  assumes "\<And>w. w \<in> set ws \<Longrightarrow> w \<noteq> [] \<Longrightarrow> outcome_ok spec (concat w) (f w)" "sp_keys spec \<noteq> 0"
  shows "case mapE f (filter (\<lambda>w. w \<noteq> []) ws) of
      Inl e \<Rightarrow> \<exists>w\<in>set ws. some_group_fails spec (concat w)
    | Inr outs \<Rightarrow> image_mset Inr (mset (emitted (concat outs))) = (\<Sum>w\<leftarrow>ws. expected_groups spec (concat w))"
  using assms(1)
proof (induction ws)
  case Nil
  then show ?case by (simp add: emitted_def)
next
  case (Cons w ws)
  have ih: "case mapE f (filter (\<lambda>w. w \<noteq> []) ws) of
      Inl e \<Rightarrow> \<exists>w\<in>set ws. some_group_fails spec (concat w)
    | Inr outs \<Rightarrow> image_mset Inr (mset (emitted (concat outs))) = (\<Sum>w\<leftarrow>ws. expected_groups spec (concat w))"
    by (rule Cons.IH) (rule Cons.prems, simp_all)
  show ?case
  proof (cases "w = []")
    case True
    then show ?thesis using ih expected_no_rows [OF assms(2)] by (auto split: sum.splits)
  next
    case False
    then have "outcome_ok spec (concat w) (f w)" by (intro Cons.prems) simp_all
    then show ?thesis
      using ih False by (cases "f w"; cases "mapE f (filter (\<lambda>w. w \<noteq> []) ws)")
        (auto simp: outcome_ok_def emitted_def)
  qed
qed

lemma agg_inv_cases:
  assumes "agg_inv env depth R s"
  obtains (memory) "groups_ok (en_spec env) R (ea_groups s)" "ea_writers s = []"
  | (frozen) K Rm where "sp_keys (en_spec env) \<noteq> 0" "depth < kMaxDepth" "groups_ok (en_spec env) Rm (ea_groups s)"
      "Rm = filter (\<lambda>row. key_of (en_spec env) row \<in> K) R" "writers_ok env depth K R (ea_writers s)"
proof (cases "ea_frozen s")
  case True
  show ?thesis using assms frozen unfolding agg_inv_def if_P [OF True] by blast
next
  case False
  show ?thesis using assms memory unfolding agg_inv_def if_not_P [OF False] by blast
qed

lemma outcome_finish: "groups_ok spec R g \<Longrightarrow> image_mset Inr (mset (gb_groups (finish_groups spec g))) = expected_groups spec R"
  using finish_groups_ok [of spec R g] unfolding expected_groups_def by (metis mset_map)

lemma aggregate_outcome:
  "outcome_ok (en_spec env) (concat batches) (aggregate env depth batches)"
proof (induction env depth batches rule: aggregate.induct)
  case (1 env depth batches)
  let ?sp = "en_spec env" and ?R = "concat batches"
  have inv: "case foldE (consume_evaluated env depth) (new_aggregator env) batches of
      Inl e \<Rightarrow> some_group_fails ?sp ?R | Inr s' \<Rightarrow> agg_inv env depth ?R s'"
    using consume_all_inv [OF new_aggregator_inv [of env depth], of batches] unfolding append_Nil .
  show ?case
  proof (cases "foldE (consume_evaluated env depth) (new_aggregator env) batches")
    case (Inl e)
    then show ?thesis using inv by (simp add: aggregate.simps [of env depth batches] outcome_ok_def)
  next
    case (Inr s)
    then have "agg_inv env depth ?R s" using inv by simp
    then show ?thesis
    proof (cases rule: agg_inv_cases)
      case memory
      then show ?thesis using Inr outcome_finish [OF memory(1)]
        by (simp add: aggregate.simps [of env depth batches] outcome_ok_def emitted_def)
    next
      case (frozen K Rm)
      let ?ws = "ea_writers s" and ?part = "\<lambda>p. filter (\<lambda>row. spilled env depth K p (key_of ?sp row)) ?R"
      have ih: "outcome_ok ?sp (concat w) (aggregate env (depth + 1) w)" if "w \<in> set ?ws" "w \<noteq> []" for w
        using 1 [OF Inr frozen(2), of w] that by simp
      have out: "case mapE (aggregate env (depth + 1)) (filter (\<lambda>w. w \<noteq> []) ?ws) of
          Inl e \<Rightarrow> \<exists>w\<in>set ?ws. some_group_fails ?sp (concat w)
        | Inr outs \<Rightarrow> image_mset Inr (mset (emitted (concat outs))) = (\<Sum>w\<leftarrow>?ws. expected_groups ?sp (concat w))"
        by (rule partitions_outcome [OF _ frozen(1)]) (rule ih)
      have part: "\<exists>p. concat w = ?part p" if "w \<in> set ?ws" for w
        using frozen(5) that by (auto simp: writers_ok_def in_set_conv_nth split: if_splits)
      show ?thesis
      proof (cases "mapE (aggregate env (depth + 1)) (filter (\<lambda>w. w \<noteq> []) ?ws)")
        case (Inl e)
        then obtain w where "w \<in> set ?ws" "some_group_fails ?sp (concat w)" using out by auto
        then obtain p where "some_group_fails ?sp (?part p)" using part by metis
        then have "some_group_fails ?sp ?R"
          by (rule some_group_fails_filter [where P = "spilled env depth K p"]) (rule frozen(1))
        then show ?thesis
          using Inr Inl frozen(2) by (simp add: aggregate.simps [of env depth batches] outcome_ok_def)
      next
        case Out: (Inr outs)
        have sum: "expected_groups ?sp Rm + (\<Sum>w\<leftarrow>?ws. expected_groups ?sp (concat w)) = expected_groups ?sp ?R"
        proof (cases "?ws = []")
          case True
          then have "Rm = ?R" using frozen(4,5) by (simp add: writers_ok_def filter_id_conv)
          then show ?thesis using True by simp
        next
          case False
          then have ws: "length ?ws = partition_count env" "\<And>p. p < partition_count env \<Longrightarrow> concat (?ws ! p) = ?part p"
            using frozen(5) by (auto simp: writers_ok_def)
          have "map (\<lambda>w. expected_groups ?sp (concat w)) ?ws = map (\<lambda>p. expected_groups ?sp (?part p)) [0..<partition_count env]"
            using ws by (intro nth_equalityI) simp_all
          then show ?thesis using expected_partitions [OF frozen(1), of K ?R depth] frozen(4) by simp
        qed
        have "image_mset Inr (mset (emitted (concat outs))) = (\<Sum>w\<leftarrow>?ws. expected_groups ?sp (concat w))"
          using out Out by simp
        then show ?thesis
          using Inr Out frozen(2) outcome_finish [OF frozen(3)] sum
          by (simp add: aggregate.simps [of env depth batches] outcome_ok_def emitted_def)
      qed
    qed
  qed
qed

lemma expected_groups_Inr:
  assumes "image_mset Inr M = expected_groups spec rows"
  shows "\<not> some_group_fails spec rows"
proof
  assume "some_group_fails spec rows"
  then obtain k e where "k \<in> set (group_keys spec rows)" "group_of spec rows k = Inl e"
    by (auto simp: some_group_fails_def)
  then have "Inl e \<in># image_mset Inr M" by (metis assms expected_groups_def image_eqI set_image_mset set_mset_mset)
  then show False by auto
qed


lemma consume_no_spill:
  assumes "foldE (consume_evaluated env depth) s batches = Inr s'" "\<not> en_spill env" "\<not> ea_frozen s"
  shows "\<not> ea_frozen s'"
proof (rule foldE_invariant [where I = "\<lambda>s. \<not> ea_frozen s", OF assms(1,3)])
  fix s x t
  assume "\<not> ea_frozen s" "consume_evaluated env depth s x = Inr t"
  then show "\<not> ea_frozen t" using assms(2) by (auto simp: consume_evaluated_def split: sum.splits)
qed

text \<open>
  Without a spill manager there is one output batch, and its groups stand in the order in which
  their keys first appear in the input.
\<close>

theorem groups_in_order_of_appearance:
  "case aggregate (env\<lparr>en_spill := False\<rparr>) depth batches of
      Inl e \<Rightarrow> some_group_fails (en_spec env) (concat batches)
    | Inr out \<Rightarrow> (\<exists>b. out = [b] \<and>
        map Inr (gb_groups b) = map (group_of (en_spec env) (concat batches)) (group_keys (en_spec env) (concat batches)))"
proof -
  let ?env = "env\<lparr>en_spill := False\<rparr>" and ?R = "concat batches"
  have sp: "en_spec ?env = en_spec env" by simp
  have inv: "case foldE (consume_evaluated ?env depth) (new_aggregator ?env) batches of
      Inl e \<Rightarrow> some_group_fails (en_spec env) ?R | Inr s' \<Rightarrow> agg_inv ?env depth ?R s'"
    using consume_all_inv [OF new_aggregator_inv [of ?env depth], of batches]
    unfolding append_Nil sp .
  show ?thesis
  proof (cases "foldE (consume_evaluated ?env depth) (new_aggregator ?env) batches")
    case (Inl e)
    then show ?thesis using inv by (simp add: aggregate.simps [of ?env depth batches])
  next
    case (Inr s)
    then have "\<not> ea_frozen s" by (rule consume_no_spill) (simp_all add: new_aggregator_def)
    then have s: "groups_ok (en_spec env) ?R (ea_groups s)" "ea_writers s = []"
      using inv Inr by (auto simp: agg_inv_def)
    then show ?thesis using Inr finish_groups_ok [OF s(1)] by (simp add: aggregate.simps [of ?env depth batches])
  qed
qed

section \<open>Partitioning again\<close>

lemma partition_power_of_two:
  assumes "en_partitions env = 2 ^ k" "0 < k"
  shows "partition_of env depth row =
    unat (xor (take_bit k (en_hash env (row_key (er_keys row)))) (take_bit k (0x9e3779b97f4a7c15 * of_nat (depth + 1))))"
proof -
  have "(2 :: nat) ^ 1 \<le> 2 ^ k" using assms(2) by (intro power_increasing) simp_all
  then have "partition_count env = 2 ^ k" using assms(1) by (simp add: partition_count_def)
  then show ?thesis
    by (simp add: partition_of_def hashKey_def flip: take_bit_xor take_bit_eq_mod unsigned_take_bit_eq)
qed

text \<open>
  With a power of two of partitions, and the default is 16, partitioning a partition again does not
  split it: rows that share a partition at one depth share one at every depth.  The depth enters by an
  exclusive or with a constant, which only renumbers the partitions.  A partition that exceeds the
  budget is written to one file at each of the following depths.
\<close>

theorem repartition_never_splits:
  assumes "en_partitions env = 2 ^ k" "0 < k" "partition_of env depth r = partition_of env depth r'"
  shows "partition_of env depth' r = partition_of env depth' r'"
proof -
  let ?t = "\<lambda>r. take_bit k (en_hash env (row_key (er_keys r)))"
    and ?c = "\<lambda>d. take_bit k (0x9e3779b97f4a7c15 * of_nat (d + 1)) :: u64"
  have "xor (?t r) (?c depth) = xor (?t r') (?c depth)"
    using assms(3) unfolding partition_power_of_two [OF assms(1,2)] by (rule unsigned_word_eqI)
  then have "xor (xor (?t r) (?c depth)) (?c depth) = xor (xor (?t r') (?c depth)) (?c depth)" by (rule arg_cong)
  then have "?t r = ?t r'" by (simp add: xor.assoc)
  then show ?thesis unfolding partition_power_of_two [OF assms(1,2)] by simp
qed

definition ex_env :: AggregateEnv where
  "ex_env = \<lparr>en_spec = \<lparr>sp_keys = 1, sp_aggregates = [\<lparr>ag_function = F_Count, ag_distinct = False, ag_argument = False\<rparr>]\<rparr>,
     en_spill = True, en_partitions = 16, en_hash = (\<lambda>k. if length k = 6 then 16 else 32), en_over_budget = (\<lambda>g. True)\<rparr>"

theorem repartition_never_splits_witness:
  "partition_of ex_env 3 \<lparr>er_keys = [V_STRING ''a''], er_arguments = []\<rparr> =
     partition_of ex_env 3 \<lparr>er_keys = [V_STRING ''bc''], er_arguments = []\<rparr>"
proof (rule repartition_never_splits [of ex_env 4 0])
  have "take_bit 4 (16 :: u64) = 0" "take_bit 4 (32 :: u64) = 0" by simp_all
  then show "partition_of ex_env 0 \<lparr>er_keys = [V_STRING ''a''], er_arguments = []\<rparr> =
      partition_of ex_env 0 \<lparr>er_keys = [V_STRING ''bc''], er_arguments = []\<rparr>"
    using partition_power_of_two [of ex_env 4] by (simp add: ex_env_def)
qed (simp_all add: ex_env_def)

section \<open>The output\<close>

lemma concat_slice_rows [simp]: "concat (slice_rows rows) = rows"
  by (induction rows rule: slice_rows.induct) (subst slice_rows.simps, simp)

lemma slice_rows_bounds: "b \<in> set (slice_rows rows) \<Longrightarrow> 0 < length b \<and> length b \<le> batch_rows"
proof (induction rows rule: slice_rows.induct)
  case (1 rows)
  then show ?case
    by (cases "rows = []") (auto simp: slice_rows.simps [of rows] slice_rows.simps [of "[]"] batch_rows_def)
qed

end
