(* ===== verification/Stable_Sort.thy ===== *)
theory Stable_Sort
  imports Prelude
begin

text \<open>
  \<open>std::stable_sort\<close> over a comparator.  \<open>ORDER BY\<close> and the window evaluator call it with their own
  comparators; the locale \<open>weak_order\<close> states what the standard requires of a comparator (a strict
  weak ordering) and derives what a caller may rely on: a permutation, in order, that keeps the order
  of equivalent elements.
\<close>

section \<open>The algorithm\<close>

text \<open>By insertion: an element goes before the first one that is not less.\<close>

fun insert_stable :: "('a \<Rightarrow> 'a \<Rightarrow> bool) \<Rightarrow> 'a \<Rightarrow> 'a list \<Rightarrow> 'a list" where
  "insert_stable lt x [] = [x]"
| "insert_stable lt x (y # ys) = (if lt y x then y # insert_stable lt x ys else x # y # ys)"

definition stable_sort :: "('a \<Rightarrow> 'a \<Rightarrow> bool) \<Rightarrow> 'a list \<Rightarrow> 'a list" where
  "stable_sort lt xs = foldr (insert_stable lt) xs []"

lemma stable_sort_simps [simp]:
  "stable_sort lt [] = []"
  "stable_sort lt (x # xs) = insert_stable lt x (stable_sort lt xs)"
  by (simp_all add: stable_sort_def)

lemma mset_insert_stable [simp]: "mset (insert_stable lt x ys) = add_mset x (mset ys)"
  by (induction ys) auto

lemma mset_stable_sort [simp]: "mset (stable_sort lt xs) = mset xs"
  by (induction xs) auto

lemma set_stable_sort [simp]: "set (stable_sort lt xs) = set xs"
  by (metis mset_stable_sort set_mset_mset)

lemma length_stable_sort [simp]: "length (stable_sort lt xs) = length xs"
  by (metis mset_stable_sort size_mset)

lemma set_insert_stable [simp]: "set (insert_stable lt x ys) = insert x (set ys)"
  by (metis mset_insert_stable set_mset_add_mset_insert set_mset_mset)

lemma filter_insert_stable:
  "(\<And>y. y \<in> set ys \<Longrightarrow> P x \<Longrightarrow> P y \<Longrightarrow> \<not> lt y x) \<Longrightarrow>
     filter P (insert_stable lt x ys) = filter P (x # ys)"
  by (induction ys) auto

text \<open>Elements no two of which the comparator orders keep their order.\<close>

lemma filter_stable_sort:
  "(\<And>x y. x \<in> set xs \<Longrightarrow> y \<in> set xs \<Longrightarrow> P x \<Longrightarrow> P y \<Longrightarrow> \<not> lt y x) \<Longrightarrow>
     filter P (stable_sort lt xs) = filter P xs"
proof (induction xs)
  case (Cons x xs)
  have "filter P (insert_stable lt x (stable_sort lt xs)) = filter P (x # stable_sort lt xs)"
    by (rule filter_insert_stable) (use Cons.prems in auto)
  then show ?case using Cons by simp
qed simp

section \<open>The contract of a comparator\<close>

locale weak_order =
  fixes lt :: "'a \<Rightarrow> 'a \<Rightarrow> bool"
  assumes irrefl: "\<not> lt x x"
    and trans: "lt x y \<Longrightarrow> lt y z \<Longrightarrow> lt x z"
    and negtrans: "lt x z \<Longrightarrow> lt x y \<or> lt y z"
begin

lemma sorted_insert_stable:
  "sorted_wrt (\<lambda>x y. \<not> lt y x) ys \<Longrightarrow> sorted_wrt (\<lambda>x y. \<not> lt y x) (insert_stable lt x ys)"
proof (induction ys)
  case (Cons y ys)
  show ?case
  proof (cases "lt y x")
    case True
    then have "\<not> lt x y" using irrefl trans by blast
    then show ?thesis using Cons True by auto
  next
    case False
    have "\<not> lt z x" if "z \<in> set ys" for z
      using Cons.prems that False negtrans [of z x y] by auto
    then show ?thesis using Cons.prems False by auto
  qed
qed simp

lemma sorted: "sorted_wrt (\<lambda>x y. \<not> lt y x) (stable_sort lt xs)"
  by (induction xs) (simp_all add: sorted_insert_stable)

lemma stable: "filter (\<lambda>y. \<not> lt x y \<and> \<not> lt y x) (stable_sort lt xs) = filter (\<lambda>y. \<not> lt x y \<and> \<not> lt y x) xs"
proof (rule filter_stable_sort)
  fix u v
  assume "\<not> lt x u \<and> \<not> lt u x" "\<not> lt x v \<and> \<not> lt v x"
  then show "\<not> lt v u" using negtrans [of v u x] by blast
qed

end

text \<open>A comparator that compares images under another one.\<close>

lemma weak_order_image: "weak_order lt \<Longrightarrow> weak_order (\<lambda>x y. lt (f x) (f y))"
  unfolding weak_order_def by blast

text \<open>Comparing by a first weak order and, where it ties, by a second.\<close>

lemma weak_order_then:
  assumes "weak_order a" and "weak_order b"
  shows "weak_order (\<lambda>x y. a x y \<or> (\<not> a y x \<and> b x y))"
  using assms unfolding weak_order_def by meson

text \<open>
  On a list of increasing elements (row numbers) the result is in the order of the comparator with the
  elements themselves breaking ties, which is total: there is only one such permutation.
\<close>

definition tie_broken :: "('a::linorder \<Rightarrow> 'a \<Rightarrow> bool) \<Rightarrow> 'a \<Rightarrow> 'a \<Rightarrow> bool" where
  "tie_broken lt x y \<longleftrightarrow> lt x y \<or> (\<not> lt y x \<and> x < y)"

lemma tie_broken_trans: "weak_order lt \<Longrightarrow> transp (tie_broken lt)"
  by (rule transpI) (unfold tie_broken_def weak_order_def, meson less_trans)

lemma tie_broken_asym: "weak_order lt \<Longrightarrow> tie_broken lt x y \<Longrightarrow> \<not> tie_broken lt y x"
  unfolding tie_broken_def weak_order_def by (meson less_asym)

lemma tie_broken_insert:
  assumes "weak_order lt" and "sorted_wrt (tie_broken lt) ys" and "\<And>y. y \<in> set ys \<Longrightarrow> x < y"
  shows "sorted_wrt (tie_broken lt) (insert_stable lt x ys)"
  using assms(2,3)
proof (induction ys)
  case (Cons y ys)
  show ?case
  proof (cases "lt y x")
    case True
    then show ?thesis using Cons by (auto simp: tie_broken_def)
  next
    case False
    have "tie_broken lt x y" using False Cons.prems(2) by (simp add: tie_broken_def)
    moreover have "tie_broken lt x z" if "z \<in> set ys" for z
      using transpD [OF tie_broken_trans [OF assms(1)] \<open>tie_broken lt x y\<close>] Cons.prems(1) that by simp
    ultimately show ?thesis using Cons.prems(1) False by auto
  qed
qed simp

lemma tie_broken_sort:
  assumes "weak_order lt" and "sorted_wrt (<) xs"
  shows "sorted_wrt (tie_broken lt) (stable_sort lt xs)"
  using assms(2) by (induction xs) (auto intro: tie_broken_insert [OF assms(1)])

lemma tie_broken_unique:
  assumes "weak_order lt" and "sorted_wrt (tie_broken lt) xs" and "sorted_wrt (tie_broken lt) ys"
    and "mset xs = mset ys"
  shows "xs = ys"
  using assms(2-4)
proof (induction xs arbitrary: ys)
  case (Cons x xs)
  obtain y ys' where ys: "ys = y # ys'" using Cons.prems(3) by (cases ys) auto
  have "x = y"
  proof (rule ccontr)
    assume ne: "x \<noteq> y"
    have "x \<in> set (y # ys')" using Cons.prems(3) ys by (metis list.set_intros(1) mset_eq_setD)
    moreover have "y \<in> set (x # xs)" using Cons.prems(3) ys by (metis list.set_intros(1) mset_eq_setD)
    ultimately have "tie_broken lt y x" "tie_broken lt x y" using ne Cons.prems(1,2) ys by auto
    then show False using tie_broken_asym [OF assms(1)] by blast
  qed
  then show ?case using Cons ys by simp
qed simp

lemma stable_sort_cong:
  assumes "\<And>x y. x \<in> set xs \<Longrightarrow> y \<in> set xs \<Longrightarrow> lt x y = lt' x y"
  shows "stable_sort lt xs = stable_sort lt' xs"
proof -
  have ins: "insert_stable lt x ys = insert_stable lt' x ys"
    if "\<And>y. y \<in> set ys \<Longrightarrow> lt y x = lt' y x" for x ys
    using that by (induction ys) auto
  show ?thesis
    using assms
  proof (induction xs)
    case (Cons x xs)
    have "stable_sort lt xs = stable_sort lt' xs" using Cons by simp
    then show ?case using ins [of "stable_sort lt' xs" x] Cons.prems by simp
  qed simp
qed

lemma map_insert_stable: "map f (insert_stable (\<lambda>x y. lt (f x) (f y)) x ys) = insert_stable lt (f x) (map f ys)"
  by (induction ys) auto

lemma map_stable_sort: "map f (stable_sort (\<lambda>x y. lt (f x) (f y)) xs) = stable_sort lt (map f xs)"
  by (induction xs) (simp_all add: map_insert_stable)

section \<open>Stable sorting by parts\<close>

text \<open>
  A sorted list is determined by its classes of equivalent elements, each in its order.  Sorting parts of
  a list before sorting it therefore changes nothing, and merging sorted runs, ties to the earlier run, is
  the stable sort of their concatenation.
\<close>

definition tied :: "('a \<Rightarrow> 'a \<Rightarrow> bool) \<Rightarrow> 'a \<Rightarrow> 'a \<Rightarrow> bool" where
  "tied lt x y \<longleftrightarrow> \<not> lt x y \<and> \<not> lt y x"

context weak_order
begin

lemma sorted_unique:
  assumes "sorted_wrt (\<lambda>x y. \<not> lt y x) xs" and "sorted_wrt (\<lambda>x y. \<not> lt y x) ys"
    and "\<And>x. filter (tied lt x) xs = filter (tied lt x) ys"
  shows "xs = ys"
  using assms
proof (induction xs arbitrary: ys)
  case Nil
  have "filter (tied lt y) ys = []" for y using Nil(3) [of y] by simp
  then have "y \<notin> set ys" for y using irrefl by (auto simp: filter_empty_conv tied_def)
  then show ?case by (cases ys) auto
next
  case (Cons x xs)
  have "x \<in> set (filter (tied lt x) ys)" using Cons.prems(3) [of x] irrefl by (metis filter.simps(2) list.set_intros(1) tied_def)
  then have x: "x \<in> set ys" by simp
  obtain y ys' where ys: "ys = y # ys'" using x by (cases ys) auto
  have "y \<in> set (filter (tied lt y) ys)" using irrefl ys by (simp add: tied_def)
  then have y: "y \<in> set (x # xs)" unfolding Cons.prems(3) [of y, symmetric] by (auto split: if_splits)
  have "\<not> lt x y" using Cons.prems(2) x ys irrefl by auto
  moreover have "\<not> lt y x" using Cons.prems(1) y irrefl by auto
  ultimately have "tied lt x y" by (simp add: tied_def)
  then have eq: "x = y" using Cons.prems(3) [of x] ys irrefl by (simp add: tied_def)
  have "filter (tied lt z) xs = filter (tied lt z) ys'" for z
    using Cons.prems(3) [of z] unfolding ys eq by (simp split: if_splits)
  then have "xs = ys'" using Cons.IH [of ys'] Cons.prems(1,2) ys by simp
  then show ?case using eq ys by simp
qed

lemma filter_tied_sort: "filter (tied lt x) (stable_sort lt xs) = filter (tied lt x) xs"
  using stable [of x xs] by (simp add: tied_def [abs_def])

lemma sort_eq: "(\<And>x. filter (tied lt x) xs = filter (tied lt x) ys) \<Longrightarrow> stable_sort lt xs = stable_sort lt ys"
  by (rule sorted_unique) (simp_all add: sorted filter_tied_sort)

lemma sort_parts: "stable_sort lt (concat (map (stable_sort lt) xss)) = stable_sort lt (concat xss)"
  by (rule sort_eq) (simp add: filter_concat o_def filter_tied_sort)

lemma sort_sorted: "sorted_wrt (\<lambda>x y. \<not> lt y x) xs \<Longrightarrow> stable_sort lt xs = xs"
  by (rule sorted_unique) (simp_all add: sorted filter_tied_sort)

lemma sort_first:
  assumes "\<And>a. a \<in> set as \<Longrightarrow> lt x a" and "\<And>b. b \<in> set bs \<Longrightarrow> \<not> lt b x"
  shows "stable_sort lt (as @ x # bs) = x # stable_sort lt (as @ bs)"
  using assms(1)
proof (induction as)
  case Nil
  have "insert_stable lt x ys = x # ys" if "\<And>y. y \<in> set ys \<Longrightarrow> \<not> lt y x" for ys using that by (cases ys) auto
  from this [of "stable_sort lt bs"] show ?case using assms(2) by simp
qed simp

text \<open>The first row of the merge of sorted runs: ahead of the runs before it, not behind those after it.\<close>

lemma merge_first:
  assumes "\<And>r. r \<in> set before \<union> set after \<Longrightarrow> sorted_wrt (\<lambda>x y. \<not> lt y x) r" and "sorted_wrt (\<lambda>x y. \<not> lt y x) (x # run)"
    and "\<And>r. r \<in> set before \<Longrightarrow> r \<noteq> [] \<Longrightarrow> lt x (hd r)" and "\<And>r. r \<in> set after \<Longrightarrow> r \<noteq> [] \<Longrightarrow> \<not> lt (hd r) x"
  shows "stable_sort lt (concat (before @ (x # run) # after)) = x # stable_sort lt (concat (before @ run # after))"
proof -
  have head: "y = hd r \<or> \<not> lt y (hd r)" if "y \<in> set r" "sorted_wrt (\<lambda>x y. \<not> lt y x) r" for y r
    using that by (cases r) auto
  have 1: "lt x a" if a: "a \<in> set (concat before)" for a
  proof -
    obtain r where r: "r \<in> set before" "a \<in> set r" using a by auto
    then have "lt x (hd r)" using assms(3) by fastforce
    then show ?thesis using head [OF r(2)] assms(1) r(1) negtrans [of x "hd r" a] by auto
  qed
  have 2: "\<not> lt b x" if b: "b \<in> set (run @ concat after)" for b
  proof (cases "b \<in> set run")
    case False
    then obtain r where r: "r \<in> set after" "b \<in> set r" using b by auto
    then have "\<not> lt (hd r) x" using assms(4) by fastforce
    then show ?thesis using head [OF r(2)] assms(1) r(1) negtrans [of b x "hd r"] by auto
  qed (use assms(2) in auto)
  show ?thesis using sort_first [of "concat before" x "run @ concat after", OF 1 2] by simp
qed

end

end
