(* ===== verification/Batches.thy ===== *)
theory Batches
  imports Predicates Stable_Sort
begin

text \<open>
  Record batches and the operations on whole batches in
  \<open>src/query/executor/ExecutorUtils.cpp\<close>: projection on columns, \<open>LIMIT\<close>, concatenation,
  \<open>ORDER BY\<close>, renaming, and \<open>DISTINCT\<close> over a stream of batches.  A batch has its fields and its
  rows; every row has one cell per field.  Arrow's name lookup \<open>Schema::GetFieldIndex\<close> is the
  parameter \<open>gfi\<close>, the text that \<open>Scalar::ToString\<close> gives a valid scalar is the parameter \<open>txt\<close>.
\<close>

section \<open>Batches\<close>

text \<open>Arrow types by the classes the engine distinguishes; the string is the unit, zone or width.\<close>

datatype arrow_type =
    AT_NA | AT_STRING | AT_LARGE_STRING | AT_BOOL | AT_INT64
  | AT_TIMESTAMP string | AT_DURATION string | AT_INTEGRAL string | AT_UNION string | AT_OTHER string

record field =
  fd_name :: string
  fd_type :: arrow_type
  fd_nullable :: bool

record batch =
  b_fields :: "field list"
  b_rows :: "row list"

type_synonym lookup = "string list \<Rightarrow> string \<Rightarrow> nat option"

definition batch_ok :: "batch \<Rightarrow> bool" where
  "batch_ok b = (\<forall>r\<in>set (b_rows b). length r = length (b_fields b))"

definition field_index :: "lookup \<Rightarrow> batch \<Rightarrow> string \<Rightarrow> nat option" where
  "field_index gfi b column = gfi (map fd_name (b_fields b)) column"

definition is_union :: "field \<Rightarrow> bool" where
  "is_union f = (case fd_type f of AT_UNION _ \<Rightarrow> True | _ \<Rightarrow> False)"

definition hasUnionColumn :: "batch \<Rightarrow> bool" where
  "hasUnionColumn b = (\<exists>f\<in>set (b_fields b). is_union f)"

section \<open>Projection on columns\<close>

definition projected_index :: "lookup \<Rightarrow> batch \<Rightarrow> string \<Rightarrow> exn + nat" where
  "projected_index gfi b column =
     (case field_index gfi b column of
        None \<Rightarrow> Inl (RuntimeError (''Projection references unknown column: '' @ column))
      | Some i \<Rightarrow> Inr i)"

definition select_columns :: "batch \<Rightarrow> nat list \<Rightarrow> batch" where
  "select_columns b idx =
     \<lparr>b_fields = map ((!) (b_fields b)) idx, b_rows = map (\<lambda>r. map ((!) r) idx) (b_rows b)\<rparr>"

definition project_batch :: "lookup \<Rightarrow> string list \<Rightarrow> batch \<Rightarrow> exn + batch" where
  "project_batch gfi columns b =
     (case mapE (projected_index gfi b) columns of
        Inl e \<Rightarrow> Inl e
      | Inr idx \<Rightarrow> Inr (select_columns b idx))"

definition applyProjection :: "lookup \<Rightarrow> batch list \<Rightarrow> string list \<Rightarrow> exn + batch list" where
  "applyProjection gfi input columns =
     (if columns = [] then Inr input else mapE (project_batch gfi columns) input)"

section \<open>LIMIT\<close>

fun limit_loop :: "nat \<Rightarrow> batch list \<Rightarrow> batch list" where
  "limit_loop remaining [] = []"
| "limit_loop remaining (b # bs) =
     (if remaining = 0 then []
      else if length (b_rows b) \<le> remaining then b # limit_loop (remaining - length (b_rows b)) bs
      else b\<lparr>b_rows := take remaining (b_rows b)\<rparr> # limit_loop 0 bs)"

definition applyLimit :: "batch list \<Rightarrow> nat \<Rightarrow> batch list" where
  "applyLimit input lim = limit_loop lim input"

section \<open>Concatenation and renaming\<close>

text \<open>
  \<open>Table::FromRecordBatches\<close> refuses batches of different schemas; the text of its status is the
  parameter \<open>msg\<close>.  \<open>None\<close> is the null pointer.
\<close>

definition combineBatches :: "string \<Rightarrow> batch list \<Rightarrow> exn + batch option" where
  "combineBatches msg bs =
     (case bs of
        [] \<Rightarrow> Inr None
      | b # rest \<Rightarrow>
          if rest = [] then Inr (Some b)
          else if \<exists>c\<in>set rest. b_fields c \<noteq> b_fields b then Inl (RuntimeError msg)
          else Inr (Some \<lparr>b_fields = b_fields b, b_rows = concat (map b_rows bs)\<rparr>))"

definition qualifyBatchColumns :: "batch option \<Rightarrow> string \<Rightarrow> batch option" where
  "qualifyBatchColumns b alias_name =
     map_option (\<lambda>b. b\<lparr>b_fields := map (\<lambda>f. f\<lparr>fd_name := alias_name @ CHR ''.'' # fd_name f\<rparr>) (b_fields b)\<rparr>) b"

section \<open>ORDER BY\<close>

record SortKey =
  sk_column :: string
  sk_descending :: bool

text \<open>
  The comparator of the sort, over the resolved keys (column index, descending): NULL is after
  every value whatever the direction, values are compared by their text.
\<close>

fun sort_less :: "(ascalar \<Rightarrow> string) \<Rightarrow> (nat \<times> bool) list \<Rightarrow> row \<Rightarrow> row \<Rightarrow> bool" where
  "sort_less txt [] l r = False"
| "sort_less txt ((i, desc) # keys) l r =
     (let lhs_null = \<not> is_valid (l ! i); rhs_null = \<not> is_valid (r ! i) in
      if lhs_null \<or> rhs_null then
        (if lhs_null \<noteq> rhs_null then \<not> lhs_null else sort_less txt keys l r)
      else
        let lhs_value = txt (l ! i); rhs_value = txt (r ! i) in
        if lhs_value = rhs_value then sort_less txt keys l r
        else if desc then lhs_value > rhs_value else lhs_value < rhs_value)"

definition sort_key_index :: "lookup \<Rightarrow> batch \<Rightarrow> SortKey \<Rightarrow> exn + nat \<times> bool" where
  "sort_key_index gfi b key =
     (case field_index gfi b (sk_column key) of
        Some i \<Rightarrow> Inr (i, sk_descending key)
      | None \<Rightarrow>
          (case suffix_index (CHR ''.'' # sk_column key) (map fd_name (b_fields b)) 0 of
             Some i \<Rightarrow> Inr (i, sk_descending key)
           | None \<Rightarrow> Inl (RuntimeError (''ORDER BY references unknown column: '' @ sk_column key))))"

definition applySort ::
  "lookup \<Rightarrow> (ascalar \<Rightarrow> string) \<Rightarrow> string \<Rightarrow> batch list \<Rightarrow> SortKey list \<Rightarrow> exn + batch list" where
  "applySort gfi txt msg input keys =
     (if input = [] \<or> keys = [] then Inr input
      else case combineBatches msg input of
        Inl e \<Rightarrow> Inl e
      | Inr None \<Rightarrow> Inr []
      | Inr (Some b) \<Rightarrow>
          (case mapE (sort_key_index gfi b) keys of
             Inl e \<Rightarrow> Inl e
           | Inr idx \<Rightarrow> Inr [b\<lparr>b_rows := stable_sort (sort_less txt idx) (b_rows b)\<rparr>]))"

section \<open>DISTINCT\<close>

definition distinct_cell :: "(ascalar \<Rightarrow> string) \<Rightarrow> ascalar \<Rightarrow> string" where
  "distinct_cell txt c =
     (if \<not> is_valid c then ''N''
      else let text = txt c in CHR ''V'' # to_string (length text) @ CHR '':'' # text)"

definition distinct_key :: "(ascalar \<Rightarrow> string) \<Rightarrow> row \<Rightarrow> string" where
  "distinct_key txt r = concat (map (distinct_cell txt) r)"

text \<open>
  \<open>RowDeduplicator::selectNewRows\<close>: the numbers of the rows whose key was not seen, with the
  deduplicator's set after them.
\<close>

fun selectNewRows ::
  "(ascalar \<Rightarrow> string) \<Rightarrow> string set \<Rightarrow> nat \<Rightarrow> row list \<Rightarrow> string set \<times> nat list" where
  "selectNewRows txt seen i [] = (seen, [])"
| "selectNewRows txt seen i (r # rs) =
     (let key = distinct_key txt r;
          (seen', selected) = selectNewRows txt (insert key seen) (i + 1) rs in
      (seen', if key \<in> seen then selected else i # selected))"

text \<open>The mask loop of \<open>takeSelectedRows\<close> walks the rows and the selected numbers together.\<close>

fun mask_rows :: "nat \<Rightarrow> 'a list \<Rightarrow> nat list \<Rightarrow> 'a list" where
  "mask_rows i [] sel = []"
| "mask_rows i (r # rs) sel =
     (case sel of
        [] \<Rightarrow> mask_rows (i + 1) rs []
      | s # rest \<Rightarrow> if s = i then r # mask_rows (i + 1) rs rest else mask_rows (i + 1) rs sel)"

definition takeSelectedRows :: "batch \<Rightarrow> nat list \<Rightarrow> batch" where
  "takeSelectedRows b selected_rows =
     (if length selected_rows = length (b_rows b) then b
      else if hasUnionColumn b then b\<lparr>b_rows := selectUnionSafeRows (b_rows b) selected_rows\<rparr>
      else b\<lparr>b_rows := mask_rows 0 (b_rows b) selected_rows\<rparr>)"

definition dedup_filter ::
  "(ascalar \<Rightarrow> string) \<Rightarrow> string set \<Rightarrow> batch \<Rightarrow> string set \<times> batch" where
  "dedup_filter txt seen b =
     (let (seen', sel) = selectNewRows txt seen 0 (b_rows b) in (seen', takeSelectedRows b sel))"

fun distinct_loop ::
  "(ascalar \<Rightarrow> string) \<Rightarrow> string set \<Rightarrow> batch list \<Rightarrow> batch list" where
  "distinct_loop txt seen [] = []"
| "distinct_loop txt seen (b # bs) =
     (let (seen', unique) = dedup_filter txt seen b; rest = distinct_loop txt seen' bs in
      if b_rows unique = [] then rest else unique # rest)"

definition applyDistinct :: "(ascalar \<Rightarrow> string) \<Rightarrow> batch list \<Rightarrow> batch list" where
  "applyDistinct txt input = distinct_loop txt {} input"

section \<open>Facts about ORDER BY\<close>

text \<open>What the comparator sees of a cell: nothing when it is NULL, else its text.\<close>

definition cell_text :: "(ascalar \<Rightarrow> string) \<Rightarrow> ascalar \<Rightarrow> string option" where
  "cell_text txt c = (if is_valid c then Some (txt c) else None)"

text \<open>The order of \<open>ORDER BY\<close> on one key, and on a row of keys: the first key that differs decides.\<close>

fun key_before :: "bool \<Rightarrow> string option \<Rightarrow> string option \<Rightarrow> bool" where
  "key_before desc (Some x) (Some y) = (if desc then y < x else x < y)"
| "key_before desc (Some x) None = True"
| "key_before desc None _ = False"

definition row_before :: "(ascalar \<Rightarrow> string) \<Rightarrow> (nat \<times> bool) list \<Rightarrow> row \<Rightarrow> row \<Rightarrow> bool" where
  "row_before txt keys l r =
     (\<exists>k<length keys. key_before (snd (keys ! k)) (cell_text txt (l ! fst (keys ! k))) (cell_text txt (r ! fst (keys ! k))) \<and>
        (\<forall>j<k. cell_text txt (l ! fst (keys ! j)) = cell_text txt (r ! fst (keys ! j))))"

lemma sort_less_Cons:
  "sort_less txt ((i, desc) # keys) l r \<longleftrightarrow>
     key_before desc (cell_text txt (l ! i)) (cell_text txt (r ! i)) \<or>
     (cell_text txt (l ! i) = cell_text txt (r ! i) \<and> sort_less txt keys l r)"
  by (auto simp: cell_text_def Let_def)

lemma row_before_Cons:
  "row_before txt ((i, desc) # keys) l r \<longleftrightarrow>
     key_before desc (cell_text txt (l ! i)) (cell_text txt (r ! i)) \<or>
     (cell_text txt (l ! i) = cell_text txt (r ! i) \<and> row_before txt keys l r)"
  unfolding row_before_def by (simp add: ex_simps Ex_less_Suc2 All_less_Suc2) blast

lemma sort_less_is_row_before: "sort_less txt keys l r \<longleftrightarrow> row_before txt keys l r"
proof (induction keys)
  case Nil
  then show ?case by (simp add: row_before_def)
next
  case (Cons key keys)
  then show ?case by (cases key) (simp only: sort_less_Cons row_before_Cons)
qed

lemma key_before_order: "weak_order (key_before desc)"
proof
  show "\<not> key_before desc x x" for x by (cases x) auto
  show "key_before desc x y \<Longrightarrow> key_before desc y z \<Longrightarrow> key_before desc x z" for x y z
    by (cases x; cases y; cases z) (auto split: if_splits)
  show "key_before desc x z \<Longrightarrow> key_before desc x y \<or> key_before desc y z" for x y z
    by (cases x; cases y; cases z) (auto split: if_splits)
qed

lemma key_before_total: "key_before desc x y \<or> x = y \<or> key_before desc y x"
  by (cases x; cases y) auto

lemma key_before_irrefl: "\<not> key_before desc x x"
  by (rule weak_order.irrefl [OF key_before_order])

lemma sort_less_order: "weak_order (sort_less txt keys)"
proof (induction keys)
  case Nil
  show ?case by unfold_locales simp_all
next
  case (Cons key keys)
  obtain i desc where key: "key = (i, desc)" by force
  let ?a = "\<lambda>l r. key_before desc (cell_text txt (l ! i)) (cell_text txt (r ! i))"
  have "sort_less txt (key # keys) = (\<lambda>l r. ?a l r \<or> (\<not> ?a r l \<and> sort_less txt keys l r))"
    using key_before_total key_before_irrefl
    by (auto simp: fun_eq_iff key sort_less_Cons simp del: sort_less.simps)
  then show ?case
    using weak_order_then [OF weak_order_image [OF key_before_order] Cons.IH] by simp
qed

interpretation order_by: weak_order "sort_less tx keys" for tx keys
  by (rule sort_less_order)

lemma sort_less_tie:
  "\<not> sort_less txt keys l r \<and> \<not> sort_less txt keys r l \<longleftrightarrow>
     (\<forall>(i, desc)\<in>set keys. cell_text txt (l ! i) = cell_text txt (r ! i))"
proof (induction keys)
  case (Cons key keys)
  obtain i desc where key: "key = (i, desc)" by force
  show ?case
    using Cons.IH key_before_total [of desc "cell_text txt (l ! i)" "cell_text txt (r ! i)"] key_before_irrefl
    by (auto simp: key sort_less_Cons simp del: sort_less.simps)
qed simp

text \<open>
  The order of the values themselves, for an order \<open>lt\<close> of the cells, in the same scheme: NULL last,
  the first key that differs decides.
\<close>

definition cell_before :: "(ascalar \<Rightarrow> ascalar \<Rightarrow> bool) \<Rightarrow> bool \<Rightarrow> ascalar \<Rightarrow> ascalar \<Rightarrow> bool" where
  "cell_before lt desc c d \<longleftrightarrow> is_valid c \<and> (\<not> is_valid d \<or> (if desc then lt d c else lt c d))"

definition cell_tie :: "(ascalar \<Rightarrow> ascalar \<Rightarrow> bool) \<Rightarrow> ascalar \<Rightarrow> ascalar \<Rightarrow> bool" where
  "cell_tie lt c d \<longleftrightarrow> is_valid c = is_valid d \<and> (is_valid c \<longrightarrow> \<not> lt c d \<and> \<not> lt d c)"

definition value_before :: "(ascalar \<Rightarrow> ascalar \<Rightarrow> bool) \<Rightarrow> (nat \<times> bool) list \<Rightarrow> row \<Rightarrow> row \<Rightarrow> bool" where
  "value_before lt keys l r =
     (\<exists>k<length keys. cell_before lt (snd (keys ! k)) (l ! fst (keys ! k)) (r ! fst (keys ! k)) \<and>
        (\<forall>j<k. cell_tie lt (l ! fst (keys ! j)) (r ! fst (keys ! j))))"

text \<open>The printed texts of the key cells are in the order of the values.\<close>

definition prints_in_order ::
  "(ascalar \<Rightarrow> string) \<Rightarrow> (ascalar \<Rightarrow> ascalar \<Rightarrow> bool) \<Rightarrow> (nat \<times> bool) list \<Rightarrow> row list \<Rightarrow> bool" where
  "prints_in_order txt lt keys rows \<longleftrightarrow>
     (\<forall>(i, desc)\<in>set keys. \<forall>l\<in>set rows. \<forall>r\<in>set rows.
        is_valid (l ! i) \<longrightarrow> is_valid (r ! i) \<longrightarrow> txt (l ! i) < txt (r ! i) \<longleftrightarrow> lt (l ! i) (r ! i))"

lemma value_before_is_row_before:
  assumes "prints_in_order txt lt keys rows" "l \<in> set rows" "r \<in> set rows"
  shows "value_before lt keys l r \<longleftrightarrow> row_before txt keys l r"
proof -
  have o: "txt (l ! i) < txt (r ! i) \<longleftrightarrow> lt (l ! i) (r ! i)" "txt (r ! i) < txt (l ! i) \<longleftrightarrow> lt (r ! i) (l ! i)"
    if "(i, desc) \<in> set keys" "is_valid (l ! i)" "is_valid (r ! i)" for i desc
    using assms that unfolding prints_in_order_def by fast+
  have "cell_before lt desc (l ! i) (r ! i) \<longleftrightarrow> key_before desc (cell_text txt (l ! i)) (cell_text txt (r ! i))"
    "cell_tie lt (l ! i) (r ! i) \<longleftrightarrow> cell_text txt (l ! i) = cell_text txt (r ! i)"
    if "(i, desc) \<in> set keys" for i desc
    using o [OF that] by (auto simp: cell_before_def cell_tie_def cell_text_def)
  then have k: "cell_before lt (snd (keys ! k)) (l ! fst (keys ! k)) (r ! fst (keys ! k)) \<longleftrightarrow>
      key_before (snd (keys ! k)) (cell_text txt (l ! fst (keys ! k))) (cell_text txt (r ! fst (keys ! k)))"
    "cell_tie lt (l ! fst (keys ! k)) (r ! fst (keys ! k)) \<longleftrightarrow>
      cell_text txt (l ! fst (keys ! k)) = cell_text txt (r ! fst (keys ! k))" if "k < length keys" for k
    using nth_mem [OF that] by (metis prod.collapse)+
  then show ?thesis unfolding value_before_def row_before_def by (meson less_trans)
qed

text \<open>Where a text is out of the order of the values, the order by texts is not the order of the values.\<close>

lemma text_order_is_not_value_order:
  assumes "sorted_wrt (\<lambda>l r. \<not> row_before txt ((i, desc) # keys) r l) out" "l \<in> set out" "r \<in> set out"
    and "cell_before lt desc (l ! i) (r ! i)" "key_before desc (cell_text txt (r ! i)) (cell_text txt (l ! i))"
  shows "\<not> sorted_wrt (\<lambda>l r. \<not> value_before lt ((i, desc) # keys) r l) out"
proof
  assume v: "sorted_wrt (\<lambda>l r. \<not> value_before lt ((i, desc) # keys) r l) out"
  obtain p q where pq: "p < length out" "q < length out" "out ! p = l" "out ! q = r"
    using assms(2,3) by (auto simp: in_set_conv_nth)
  have t: "row_before txt ((i, desc) # keys) r l" using assms(5) by (simp add: row_before_Cons)
  have "value_before lt ((i, desc) # keys) l r"
    unfolding value_before_def by (intro exI [of _ 0]) (simp add: assms(4))
  then have "\<not> q < p" using v pq by (auto simp: sorted_wrt_iff_nth_less)
  moreover have "\<not> p < q" using t assms(1) pq by (auto simp: sorted_wrt_iff_nth_less)
  moreover have "p \<noteq> q" using pq assms(5) key_before_irrefl by auto
  ultimately show False by linarith
qed

section \<open>Facts about DISTINCT\<close>

text \<open>The elements whose image is new, given the images already seen.\<close>

fun new_rows :: "('a \<Rightarrow> 'k) \<Rightarrow> 'k set \<Rightarrow> 'a list \<Rightarrow> 'a list" where
  "new_rows f seen [] = []"
| "new_rows f seen (x # xs) =
     (if f x \<in> seen then new_rows f seen xs else x # new_rows f (insert (f x) seen) xs)"

text \<open>The first occurrences: no earlier element has the same image.\<close>

definition first_occurrences :: "('a \<Rightarrow> 'k) \<Rightarrow> 'a list \<Rightarrow> 'a list" where
  "first_occurrences f xs =
     map ((!) xs) (filter (\<lambda>i. \<forall>j<i. f (xs ! j) \<noteq> f (xs ! i)) [0..<length xs])"

lemma new_rows_snoc:
  "new_rows f seen (xs @ [x]) = new_rows f seen xs @ (if f x \<in> seen \<union> f ` set xs then [] else [x])"
  by (induction xs arbitrary: seen) auto

lemma new_rows_append:
  "new_rows f seen (xs @ ys) = new_rows f seen xs @ new_rows f (seen \<union> f ` set xs) ys"
  by (induction xs arbitrary: seen) (auto simp: insert_absorb)

lemma map_nth_prefix:
  "map ((!) (xs @ ys)) (filter P [0..<length xs]) = map ((!) xs) (filter P [0..<length xs])"
  by (rule map_cong) (auto simp: nth_append)

lemma first_occurrences_new_rows: "first_occurrences f xs = new_rows f {} xs"
proof (induction xs rule: rev_induct)
  case Nil
  then show ?case by (simp add: first_occurrences_def)
next
  case (snoc x xs)
  have "filter (\<lambda>i. \<forall>j<i. f ((xs @ [x]) ! j) \<noteq> f ((xs @ [x]) ! i)) [0..<length xs] =
      filter (\<lambda>i. \<forall>j<i. f (xs ! j) \<noteq> f (xs ! i)) [0..<length xs]"
    by (rule filter_cong) (auto simp: nth_append)
  moreover have "(\<forall>j<length xs. f (xs ! j) \<noteq> f x) \<longleftrightarrow> f x \<notin> f ` set xs"
    by (auto simp: image_iff) (metis in_set_conv_nth, metis nth_mem)
  ultimately show ?case
    using snoc by (simp add: first_occurrences_def new_rows_snoc nth_append map_nth_prefix)
qed

lemma new_rows_cong:
  "(\<And>x y. f x = f y \<longleftrightarrow> g x = g y) \<Longrightarrow> (\<And>x. x \<in> set xs \<Longrightarrow> f x \<in> seen \<longleftrightarrow> g x \<in> seen') \<Longrightarrow>
     new_rows f seen xs = new_rows g seen' xs"
  by (induction xs arbitrary: seen seen') auto

text \<open>The key of a row is a prefix code of its cells.\<close>

lemma distinct_cell_prefix_code:
  "distinct_cell tx c @ xs = distinct_cell tx d @ ys \<longleftrightarrow> cell_text tx c = cell_text tx d \<and> xs = ys"
  by (auto simp: distinct_cell_def cell_text_def Let_def to_string_terminated)

lemma distinct_cell_not_empty [simp]: "distinct_cell tx c \<noteq> []"
  by (simp add: distinct_cell_def Let_def)

lemma distinct_key_eq_iff:
  "distinct_key tx r = distinct_key tx s \<longleftrightarrow> map (cell_text tx) r = map (cell_text tx) s"
proof (induction r arbitrary: s)
  case Nil
  then show ?case by (cases s) (auto simp: distinct_key_def)
next
  case (Cons c r)
  then show ?case by (cases s) (auto simp: distinct_key_def distinct_cell_prefix_code)
qed

lemma selectNewRows_bounds:
  assumes "selectNewRows tx seen i rs = (seen', sel)"
  shows "sorted_wrt (<) sel \<and> set sel \<subseteq> {i..<i + length rs} \<and> seen' = seen \<union> distinct_key tx ` set rs"
  using assms
proof (induction rs arbitrary: seen i sel seen')
  case (Cons r rs)
  obtain t rest where rec: "selectNewRows tx (insert (distinct_key tx r) seen) (i + 1) rs = (t, rest)"
    by force
  then have "sorted_wrt (<) rest" "set rest \<subseteq> {i + 1..<i + 1 + length rs}"
    "t = insert (distinct_key tx r) seen \<union> distinct_key tx ` set rs"
    using Cons.IH by blast+
  then show ?case using Cons.prems rec by (auto simp: Let_def split: if_splits) force+
qed simp

lemma selectNewRows_rows:
  assumes "selectNewRows tx seen i rs = (seen', sel)" and "drop i rows = rs"
  shows "map ((!) rows) sel = new_rows (distinct_key tx) seen rs"
  using assms
proof (induction rs arbitrary: seen i sel seen')
  case (Cons r rs)
  obtain t rest where rec: "selectNewRows tx (insert (distinct_key tx r) seen) (i + 1) rs = (t, rest)"
    by force
  have d: "drop (i + 1) rows = rs" using Cons.prems(2) by (metis drop_Suc Suc_eq_plus1 list.sel(3) tl_drop)
  have nth: "rows ! i = r" using Cons.prems(2) by (metis drop_eq_Nil hd_drop_conv_nth leI list.sel(1) list.discI)
  show ?case
    using Cons.IH [OF rec d] Cons.prems(1) rec nth by (auto simp: Let_def insert_absorb split: if_splits)
qed simp

lemma mask_rows_nth:
  assumes "sorted_wrt (<) sel" and "set sel \<subseteq> {i..<i + length rs}" and "drop i rows = rs"
  shows "mask_rows i rs sel = map ((!) rows) sel"
  using assms
proof (induction rs arbitrary: i sel)
  case (Cons r rs)
  have d: "drop (i + 1) rows = rs" using Cons.prems(3) by (metis drop_Suc Suc_eq_plus1 list.sel(3) tl_drop)
  have nth: "rows ! i = r" using Cons.prems(3) by (metis drop_eq_Nil hd_drop_conv_nth leI list.sel(1) list.discI)
  show ?case
  proof (cases sel)
    case Nil
    then show ?thesis using Cons.IH [of "[]" "i + 1"] d by simp
  next
    case (Cons s rest)
    show ?thesis
    proof (cases "s = i")
      case True
      have "set rest \<subseteq> {i + 1..<i + 1 + length rs}"
        using Cons.prems(1,2) \<open>sel = s # rest\<close> True by fastforce
      then show ?thesis
        using Cons.IH [of rest "i + 1"] Cons.prems(1) \<open>sel = s # rest\<close> True d nth by simp
    next
      case False
      have "set sel \<subseteq> {i + 1..<i + 1 + length rs}"
        using Cons.prems(1,2) \<open>sel = s # rest\<close> False by fastforce
      then show ?thesis
        using Cons.IH [of sel "i + 1"] Cons.prems(1) \<open>sel = s # rest\<close> False d by simp
    qed
  qed
qed simp

lemma all_selected:
  assumes "sorted_wrt (<) sel" and "set sel \<subseteq> {0..<n}" and "length sel = n"
  shows "sel = [0..<n]"
proof -
  have d: "distinct sel" using assms(1) by (simp add: strict_sorted_iff)
  then have "card (set sel) = n" using assms(3) by (simp add: distinct_card)
  then have "set sel = {0..<n}" using assms(2) by (intro card_subset_eq) auto
  then show ?thesis
    using assms(1) by (metis atLeastLessThan_upt distinct_upt sorted_distinct_set_unique sorted_upt strict_sorted_iff d)
qed

lemma takeSelectedRows_nth:
  assumes "sorted_wrt (<) sel" and "set sel \<subseteq> {0..<length (b_rows b)}"
  shows "takeSelectedRows b sel = b\<lparr>b_rows := map ((!) (b_rows b)) sel\<rparr>"
proof (cases "length sel = length (b_rows b)")
  case True
  then have "sel = [0..<length (b_rows b)]" using all_selected [OF assms] by simp
  then show ?thesis using True by (simp add: takeSelectedRows_def map_nth)
next
  case False
  have "\<forall>i\<in>set sel. i < length (b_rows b)" using assms(2) by auto
  then show ?thesis
    using assms False by (simp add: takeSelectedRows_def slices_select mask_rows_nth [where rows = "b_rows b"])
qed

lemma dedup_filter_rows:
  assumes "dedup_filter tx seen b = (seen', u)"
  shows "b_rows u = new_rows (distinct_key tx) seen (b_rows b) \<and> b_fields u = b_fields b \<and>
    seen' = seen \<union> distinct_key tx ` set (b_rows b)"
proof -
  obtain t sel where s: "selectNewRows tx seen 0 (b_rows b) = (t, sel)" by force
  note bounds = selectNewRows_bounds [OF s] and rows = selectNewRows_rows [OF s, of "b_rows b"]
  have taken: "takeSelectedRows b sel = b\<lparr>b_rows := map ((!) (b_rows b)) sel\<rparr>"
    using bounds by (intro takeSelectedRows_nth) auto
  have u: "u = takeSelectedRows b sel" "seen' = t" using assms s by (simp_all add: dedup_filter_def)
  show ?thesis unfolding u taken using bounds rows by simp
qed

lemma distinct_loop_rows:
  "concat (map b_rows (distinct_loop tx seen bs)) = new_rows (distinct_key tx) seen (concat (map b_rows bs))"
proof (induction bs arbitrary: seen)
  case (Cons b bs)
  obtain seen' u where d: "dedup_filter tx seen b = (seen', u)" by force
  then show ?case
    using dedup_filter_rows [OF d] Cons [of seen'] by (auto simp: Let_def new_rows_append)
qed simp

lemma distinct_loop_shape:
  "c \<in> set (distinct_loop tx seen bs) \<Longrightarrow> b_rows c \<noteq> [] \<and> (\<exists>b\<in>set bs. b_fields c = b_fields b)"
proof (induction bs arbitrary: seen)
  case (Cons b bs)
  obtain seen' u where d: "dedup_filter tx seen b = (seen', u)" by force
  then show ?case
    using dedup_filter_rows [OF d] Cons.prems Cons.IH [of seen'] by (auto simp: Let_def split: if_splits)
qed simp

lemma limit_loop_rows:
  "concat (map b_rows (limit_loop n bs)) = take n (concat (map b_rows bs))"
  by (induction n bs rule: limit_loop.induct) auto

lemma limit_loop_fields: "prefix (map b_fields (limit_loop n bs)) (map b_fields bs)"
  by (induction n bs rule: limit_loop.induct) auto

section \<open>Properties\<close>

text \<open>
  C31. \<open>SELECT DISTINCT\<close> keeps the first occurrence of every row, over all batches of the stream, in
  order: two rows are the same when their cells are NULL together and have the same text
  together.  The length prefixes of the key make that exact, also for rows whose texts contain the
  separators, and the copy by slices, by mask or not at all gives the same rows.  No empty batch is
  emitted.
\<close>

theorem distinct_keeps_first_occurrences:
  "concat (map b_rows (applyDistinct tx input)) =
     first_occurrences (map (cell_text tx)) (concat (map b_rows input)) \<and>
   [] \<notin> b_rows ` set (applyDistinct tx input)"
proof -
  have "new_rows (distinct_key tx) {} rows = new_rows (map (cell_text tx)) {} rows" for rows
    by (rule new_rows_cong) (simp_all add: distinct_key_eq_iff)
  then show ?thesis
    using distinct_loop_shape [of _ tx "{}" input]
    by (simp add: applyDistinct_def distinct_loop_rows first_occurrences_new_rows image_iff) metis
qed

text \<open>
  C35. \<open>ORDER BY\<close> is a stable sort by the printed text of its keys: the one batch it returns has the
  fields and the multiset of rows of the concatenated input, no row is before an earlier one (NULL last
  on every key, whatever its direction; the first key whose text differs decides), and rows whose keys
  print the same keep their order.  For any order of the values, the result is therefore sorted by
  value where the texts of the key cells are in that order; and as soon as two rows have first keys
  whose texts are in the opposite order (the integers 9 and 10), it is not sorted by value, although
  the guide promises the order of the values.
\<close>

theorem order_by_sorts_stably:
  assumes "input \<noteq> []" and "keys \<noteq> []" and "combineBatches msg input = Inr (Some b)"
    and "mapE (sort_key_index gfi b) keys = Inr idx"
  shows "\<exists>out. applySort gfi tx msg input keys = Inr [out] \<and>
    b_fields out = b_fields b \<and> mset (b_rows out) = mset (b_rows b) \<and>
    sorted_wrt (\<lambda>l r. \<not> row_before tx idx r l) (b_rows out) \<and>
    (\<forall>r. filter (\<lambda>s. \<forall>(i, desc)\<in>set idx. cell_text tx (r ! i) = cell_text tx (s ! i)) (b_rows out) =
         filter (\<lambda>s. \<forall>(i, desc)\<in>set idx. cell_text tx (r ! i) = cell_text tx (s ! i)) (b_rows b)) \<and>
    (\<forall>lt. prints_in_order tx lt idx (b_rows b) \<longrightarrow>
       sorted_wrt (\<lambda>l r. \<not> value_before lt idx r l) (b_rows out)) \<and>
    (\<forall>lt l r. l \<in> set (b_rows b) \<and> r \<in> set (b_rows b) \<and>
       cell_before lt (snd (hd idx)) (l ! fst (hd idx)) (r ! fst (hd idx)) \<and>
       key_before (snd (hd idx)) (cell_text tx (r ! fst (hd idx))) (cell_text tx (l ! fst (hd idx))) \<longrightarrow>
       \<not> sorted_wrt (\<lambda>l r. \<not> value_before lt idx r l) (b_rows out))"
proof -
  let ?out = "stable_sort (sort_less tx idx) (b_rows b)"
  have rows: "sorted_wrt (\<lambda>l r. \<not> row_before tx idx r l) ?out" "mset ?out = mset (b_rows b)"
    "\<forall>r. filter (\<lambda>s. \<forall>(i, desc)\<in>set idx. cell_text tx (r ! i) = cell_text tx (s ! i)) ?out =
         filter (\<lambda>s. \<forall>(i, desc)\<in>set idx. cell_text tx (r ! i) = cell_text tx (s ! i)) (b_rows b)"
    using order_by.sorted [of tx idx "b_rows b"] order_by.stable [of tx idx _ "b_rows b"]
    by (simp_all add: sort_less_tie flip: sort_less_is_row_before)
  have same: "set ?out = set (b_rows b)" using rows(2) by (metis set_mset_mset)
  have "sorted_wrt (\<lambda>l r. \<not> value_before lt idx r l) ?out" if "prints_in_order tx lt idx (b_rows b)" for lt
    using rows(1) by (rule sorted_wrt_mono_rel [rotated]) (simp add: value_before_is_row_before [OF that] same)
  moreover have "\<not> sorted_wrt (\<lambda>l r. \<not> value_before lt idx r l) ?out"
    if "l \<in> set (b_rows b)" "r \<in> set (b_rows b)"
      "cell_before lt (snd (hd idx)) (l ! fst (hd idx)) (r ! fst (hd idx))"
      "key_before (snd (hd idx)) (cell_text tx (r ! fst (hd idx))) (cell_text tx (l ! fst (hd idx)))" for lt l r
  proof -
    have "idx \<noteq> []" using assms(2,4) by (cases keys) (auto split: sum.splits)
    then have "(fst (hd idx), snd (hd idx)) # tl idx = idx" by simp
    with text_order_is_not_value_order [of tx "fst (hd idx)" "snd (hd idx)" "tl idx" ?out l r lt] rows(1) that same
    show ?thesis by simp
  qed
  ultimately show ?thesis
    using assms rows by (intro exI [of _ "b\<lparr>b_rows := ?out\<rparr>"]) (auto simp: applySort_def)
qed

text \<open>Two batches with the integers 9 and 10, descending: sorted by text, and not by value.\<close>

definition ex_numbers :: "row list \<Rightarrow> batch" where
  "ex_numbers rows = \<lparr>b_fields = [\<lparr>fd_name = ''n'', fd_type = AT_INT64, fd_nullable = True\<rparr>], b_rows = rows\<rparr>"

theorem order_by_sorts_stably_witness:
  "\<exists>out. applySort (\<lambda>names c. Some 0) (\<lambda>c. if c = SC_Int 9 then ''9'' else ''10'') []
      [ex_numbers [[SC_Null], [SC_Int 10]], ex_numbers [[SC_Int 9]]] [\<lparr>sk_column = ''n'', sk_descending = True\<rparr>] = Inr [out] \<and>
     mset (b_rows out) = {#[SC_Null], [SC_Int 10], [SC_Int 9]#} \<and>
     \<not> sorted_wrt (\<lambda>l r. \<not> value_before (\<lambda>c d. case (c, d) of (SC_Int x, SC_Int y) \<Rightarrow> x < y | _ \<Rightarrow> False) [(0, True)] r l)
         (b_rows out)"
proof -
  let ?t = "\<lambda>c. if c = SC_Int 9 then ''9'' else ''10''" and ?b = "ex_numbers [[SC_Null], [SC_Int 10], [SC_Int 9]]"
  let ?in = "[ex_numbers [[SC_Null], [SC_Int 10]], ex_numbers [[SC_Int 9]]]"
  let ?lt = "\<lambda>c d. case (c, d) of (SC_Int x, SC_Int y) \<Rightarrow> x < y | _ \<Rightarrow> False"
  have c: "combineBatches [] ?in = Inr (Some ?b)" by (simp add: combineBatches_def ex_numbers_def)
  have k: "mapE (sort_key_index (\<lambda>names c. Some 0) ?b) [\<lparr>sk_column = ''n'', sk_descending = True\<rparr>] = Inr [(0, True)]"
    by (simp add: sort_key_index_def field_index_def)
  have less: "''10'' < ''9''" by (simp add: less_char_def)
  have ne: "?in \<noteq> []" "[\<lparr>sk_column = ''n'', sk_descending = True\<rparr>] \<noteq> []" by simp_all
  from order_by_sorts_stably [OF ne c k, of ?t] obtain out where
    out: "applySort (\<lambda>names c. Some 0) ?t [] ?in [\<lparr>sk_column = ''n'', sk_descending = True\<rparr>] = Inr [out]"
      "mset (b_rows out) = mset (b_rows ?b)"
    and no: "\<forall>lt l r. l \<in> set (b_rows ?b) \<and> r \<in> set (b_rows ?b) \<and>
       cell_before lt (snd (hd [(0 :: nat, True)])) (l ! fst (hd [(0 :: nat, True)])) (r ! fst (hd [(0 :: nat, True)])) \<and>
       key_before (snd (hd [(0 :: nat, True)])) (cell_text ?t (r ! fst (hd [(0 :: nat, True)]))) (cell_text ?t (l ! fst (hd [(0 :: nat, True)]))) \<longrightarrow>
       \<not> sorted_wrt (\<lambda>l r. \<not> value_before lt [(0, True)] r l) (b_rows out)"
    by (elim exE conjE) (rule that; assumption)
  have "\<not> sorted_wrt (\<lambda>l r. \<not> value_before ?lt [(0, True)] r l) (b_rows out)"
    by (rule no [rule_format, of "[SC_Int 10]" "[SC_Int 9]"])
      (use less in \<open>simp add: ex_numbers_def cell_before_def cell_text_def\<close>)
  with out show ?thesis by (intro exI [of _ out]) (simp add: ex_numbers_def)
qed

text \<open>
  \<open>ORDER BY\<close> compares texts, so integers are sorted by their digits: \<open>10\<close> comes before \<open>9\<close> in
  ascending order.
\<close>

theorem order_by_sorts_numbers_as_text:
  assumes "tx (SC_Int 9) = ''9''" and "tx (SC_Int 10) = ''10''" and "gfi [''n''] ''n'' = Some 0"
  shows "applySort gfi tx msg
      [\<lparr>b_fields = [\<lparr>fd_name = ''n'', fd_type = AT_INT64, fd_nullable = True\<rparr>], b_rows = [[SC_Int 9], [SC_Int 10]]\<rparr>]
      [\<lparr>sk_column = ''n'', sk_descending = False\<rparr>] =
    Inr [\<lparr>b_fields = [\<lparr>fd_name = ''n'', fd_type = AT_INT64, fd_nullable = True\<rparr>], b_rows = [[SC_Int 10], [SC_Int 9]]\<rparr>]"
  using assms
  by (simp add: applySort_def combineBatches_def sort_key_index_def field_index_def less_char_def)

theorem order_by_sorts_numbers_as_text_witness:
  "applySort (\<lambda>names c. Some 0) (\<lambda>c. if c = SC_Int 9 then ''9'' else ''10'') []
      [\<lparr>b_fields = [\<lparr>fd_name = ''n'', fd_type = AT_INT64, fd_nullable = True\<rparr>], b_rows = [[SC_Int 9], [SC_Int 10]]\<rparr>]
      [\<lparr>sk_column = ''n'', sk_descending = False\<rparr>] =
    Inr [\<lparr>b_fields = [\<lparr>fd_name = ''n'', fd_type = AT_INT64, fd_nullable = True\<rparr>], b_rows = [[SC_Int 10], [SC_Int 9]]\<rparr>]"
  by (rule order_by_sorts_numbers_as_text) simp_all

text \<open>
  \<open>LIMIT n\<close> passes exactly the first \<open>n\<close> rows of the stream, in batches of the fields of its first
  batches.
\<close>

theorem limit_takes_prefix:
  "concat (map b_rows (applyLimit input n)) = take n (concat (map b_rows input)) \<and>
   prefix (map b_fields (applyLimit input n)) (map b_fields input)"
  by (simp add: applyLimit_def limit_loop_rows limit_loop_fields)

end
