(* ===== verification/Joins.thy ===== *)
theory Joins
  imports Batches
begin

text \<open>
  The hash join of \<open>src/query/executor/ExecutorUtils.cpp\<close> (\<open>joinBatchesImpl\<close>), which the hash,
  nested-loop and block-nested-loop nodes all run: the empty sides, the choice of the build side, the
  spilling of the build side, the index and the probe.  A negative row index of the code is \<open>None\<close>.
  The spill manager of the context is a parameter: it writes batches and gives the batches it reads
  back, with the bytes written.
\<close>

section \<open>The join\<close>

datatype JoinType = INNER | LEFT_OUTER

record ExecutionContext =
  memory_limit_bytes :: u64
  spill_manager :: "(batch list \<Rightarrow> exn + u64 \<times> batch list) option"

record QueryStats =
  bytes_spilled :: u64
  spill_files :: u64

definition scalarKey :: "(ascalar \<Rightarrow> string) \<Rightarrow> ascalar \<Rightarrow> string" where
  "scalarKey txt c = (if is_valid c then txt c else [])"

text \<open>\<open>buildArrayFromIndices\<close>, on all columns of a side at once: \<open>None\<close> gathers a row of NULLs.\<close>

definition gather :: "nat \<Rightarrow> row list \<Rightarrow> nat option list \<Rightarrow> row list" where
  "gather width rows indices =
     map (\<lambda>i. case i of None \<Rightarrow> replicate width SC_Null | Some i \<Rightarrow> rows ! i) indices"

definition nullable_field :: "field \<Rightarrow> field" where
  "nullable_field f = f\<lparr>fd_nullable := True\<rparr>"

text \<open>The branch for an empty left side: the columns of both sides, with the left side's rows.\<close>

definition empty_left_join :: "batch \<Rightarrow> batch option \<Rightarrow> batch" where
  "empty_left_join l r =
     (case r of
        None \<Rightarrow> l
      | Some r \<Rightarrow>
          \<lparr>b_fields = b_fields l @ map nullable_field (b_fields r),
           b_rows = map2 (@) (b_rows l)
             (gather (length (b_fields r)) (b_rows r) (replicate (length (b_rows l)) None))\<rparr>)"

definition approximate_bytes :: "batch \<Rightarrow> u64" where
  "approximate_bytes b = of_nat (length (b_rows b)) * of_nat (max 1 (length (b_fields b))) * 8"

text \<open>The build side after the memory check: written and read back when it is over the limit.\<close>

definition spill_build ::
  "string \<Rightarrow> ExecutionContext \<Rightarrow> QueryStats \<Rightarrow> batch \<Rightarrow> exn + batch \<times> QueryStats" where
  "spill_build msg ctx stats build =
     (case spill_manager ctx of
        None \<Rightarrow> Inr (build, stats)
      | Some spill \<Rightarrow>
          if memory_limit_bytes ctx > 0 \<and> approximate_bytes build > memory_limit_bytes ctx then
            (case spill [build] of
               Inl e \<Rightarrow> Inl e
             | Inr (byte_count, batches) \<Rightarrow>
                 (case combineBatches msg batches of
                    Inl e \<Rightarrow> Inl e
                  | Inr None \<Rightarrow> Inl UndefinedBehaviour
                  | Inr (Some b) \<Rightarrow>
                      Inr (b, stats\<lparr>bytes_spilled := bytes_spilled stats + byte_count,
                                    spill_files := spill_files stats + 1\<rparr>)))
          else Inr (build, stats))"

fun build_rows ::
  "(ascalar \<Rightarrow> string) \<Rightarrow> nat \<Rightarrow> nat \<Rightarrow> row list \<Rightarrow> (string, nat list) umap \<Rightarrow> (string, nat list) umap" where
  "build_rows txt key_index i [] index = index"
| "build_rows txt key_index i (r # rs) index =
     (let scalar = r ! key_index in
      if \<not> is_valid scalar then build_rows txt key_index (i + 1) rs index
      else
        let key = scalarKey txt scalar;
            found = (case map_of index key of None \<Rightarrow> [] | Some rows \<Rightarrow> rows) in
        build_rows txt key_index (i + 1) rs (umap_assign key (found @ [i]) index))"

text \<open>One probe row: the pairs (left row, right row) it appends.\<close>

definition probe_row ::
  "(ascalar \<Rightarrow> string) \<Rightarrow> JoinType \<Rightarrow> bool \<Rightarrow> nat \<Rightarrow> (string, nat list) umap \<Rightarrow> nat \<Rightarrow> row \<Rightarrow>
   (nat \<times> nat option) list" where
  "probe_row txt type output_swap key_index index i r =
     (let scalar = r ! key_index;
          unmatched = (if type = LEFT_OUTER \<and> \<not> output_swap then [(i, None)] else []) in
      if \<not> is_valid scalar then unmatched
      else (case map_of index (scalarKey txt scalar) of
              None \<Rightarrow> unmatched
            | Some rows \<Rightarrow> map (\<lambda>j. if output_swap then (j, Some i) else (i, Some j)) rows))"

fun probe_rows ::
  "(ascalar \<Rightarrow> string) \<Rightarrow> JoinType \<Rightarrow> bool \<Rightarrow> nat \<Rightarrow> (string, nat list) umap \<Rightarrow> nat \<Rightarrow> row list \<Rightarrow>
   (nat \<times> nat option) list" where
  "probe_rows txt type output_swap key_index index i [] = []"
| "probe_rows txt type output_swap key_index index i (r # rs) =
     probe_row txt type output_swap key_index index i r @
     probe_rows txt type output_swap key_index index (i + 1) rs"

definition joined_batch :: "JoinType \<Rightarrow> batch \<Rightarrow> batch \<Rightarrow> (nat \<times> nat option) list \<Rightarrow> batch" where
  "joined_batch type l r pairs =
     \<lparr>b_fields = b_fields l @ (if type = LEFT_OUTER then map nullable_field (b_fields r) else b_fields r),
      b_rows = map2 (@) (gather (length (b_fields l)) (b_rows l) (map (Some \<circ> fst) pairs))
                        (gather (length (b_fields r)) (b_rows r) (map snd pairs))\<rparr>"

definition is_empty_side :: "batch option \<Rightarrow> bool" where
  "is_empty_side b = (case b of None \<Rightarrow> True | Some b \<Rightarrow> b_rows b = [])"

text \<open>Both sides have rows: the sides are chosen, the build side indexed, the probe side run.\<close>

definition hash_join ::
  "lookup \<Rightarrow> (ascalar \<Rightarrow> string) \<Rightarrow> string \<Rightarrow> batch \<Rightarrow> batch \<Rightarrow> string \<Rightarrow> string \<Rightarrow> JoinType \<Rightarrow>
   ExecutionContext \<Rightarrow> QueryStats \<Rightarrow> exn + batch option \<times> QueryStats" where
  "hash_join gfi txt msg l r left_key right_key type ctx stats =
     (case (field_index gfi l left_key, field_index gfi r right_key) of
        (Some left_index, Some right_index) \<Rightarrow>
          let swap = (type = INNER \<and> length (b_rows r) > length (b_rows l));
              build = (if swap then l else r); probe = (if swap then r else l);
              build_key = (if swap then left_index else right_index);
              probe_key = (if swap then right_index else left_index) in
          (case spill_build msg ctx stats build of
             Inl e \<Rightarrow> Inl e
           | Inr (build', stats') \<Rightarrow>
               let index = build_rows txt build_key 0 (b_rows build') [];
                   pairs = probe_rows txt type swap probe_key index 0 (b_rows probe) in
               Inr (Some (joined_batch type l r pairs), stats'))
      | _ \<Rightarrow> Inl (RuntimeError ''Join key missing from one side''))"

definition joinBatches ::
  "lookup \<Rightarrow> (ascalar \<Rightarrow> string) \<Rightarrow> string \<Rightarrow> batch option \<Rightarrow> batch option \<Rightarrow> string \<Rightarrow> string \<Rightarrow> JoinType \<Rightarrow>
   ExecutionContext \<Rightarrow> QueryStats \<Rightarrow> exn + batch option \<times> QueryStats" where
  "joinBatches gfi txt msg left right left_key right_key type ctx stats =
     (if is_empty_side left \<and> (type = LEFT_OUTER \<or> is_empty_side right) then
        Inr (map_option (\<lambda>l. empty_left_join l right) left, stats)
      else if is_empty_side left \<or> is_empty_side right then
        Inr (Some \<lparr>b_fields = [], b_rows = []\<rparr>, stats)
      else hash_join gfi txt msg (the left) (the right) left_key right_key type ctx stats)"

section \<open>The specification\<close>

text \<open>Two rows match when both keys are present and print the same.\<close>

definition keys_match :: "(ascalar \<Rightarrow> string) \<Rightarrow> nat \<Rightarrow> nat \<Rightarrow> row \<Rightarrow> row \<Rightarrow> bool" where
  "keys_match tx i j l r = (is_valid (l ! i) \<and> is_valid (r ! j) \<and> tx (l ! i) = tx (r ! j))"

definition inner_join :: "(ascalar \<Rightarrow> string) \<Rightarrow> nat \<Rightarrow> nat \<Rightarrow> row list \<Rightarrow> row list \<Rightarrow> row list" where
  "inner_join tx i j L R = concat (map (\<lambda>l. map ((@) l) (filter (keys_match tx i j l) R)) L)"

definition left_join :: "(ascalar \<Rightarrow> string) \<Rightarrow> nat \<Rightarrow> nat \<Rightarrow> nat \<Rightarrow> row list \<Rightarrow> row list \<Rightarrow> row list" where
  "left_join tx i j width L R =
     concat (map (\<lambda>l. if filter (keys_match tx i j l) R = [] then [l @ replicate width SC_Null]
                      else map ((@) l) (filter (keys_match tx i j l) R)) L)"

text \<open>
  The order of the pairs: left-major, but by the right side first in an inner join whose right side
  has more rows.
\<close>

definition inner_join_by_right :: "(ascalar \<Rightarrow> string) \<Rightarrow> nat \<Rightarrow> nat \<Rightarrow> row list \<Rightarrow> row list \<Rightarrow> row list" where
  "inner_join_by_right tx i j L R = concat (map (\<lambda>r. map (\<lambda>l. l @ r) (filter (\<lambda>l. keys_match tx i j l r) L)) R)"

definition nested_loop ::
  "(ascalar \<Rightarrow> string) \<Rightarrow> JoinType \<Rightarrow> nat \<Rightarrow> nat \<Rightarrow> nat \<Rightarrow> row list \<Rightarrow> row list \<Rightarrow> row list" where
  "nested_loop tx type i j width L R =
     (case type of
        LEFT_OUTER \<Rightarrow> left_join tx i j width L R
      | INNER \<Rightarrow> if length L < length R then inner_join_by_right tx i j L R else inner_join tx i j L R)"

definition side_rows :: "batch option \<Rightarrow> row list" where
  "side_rows b = (case b of None \<Rightarrow> [] | Some b \<Rightarrow> b_rows b)"

text \<open>A spill manager that works: the batches it reads back have the rows that were written.\<close>

definition spill_faithful :: "string \<Rightarrow> ExecutionContext \<Rightarrow> bool" where
  "spill_faithful msg ctx =
     (case spill_manager ctx of
        None \<Rightarrow> True
      | Some spill \<Rightarrow>
          (\<forall>b. case spill [b] of
             Inr (_, batches) \<Rightarrow>
               (case combineBatches msg batches of Inr (Some c) \<Rightarrow> b_rows c = b_rows b | _ \<Rightarrow> False)
           | _ \<Rightarrow> False))"

section \<open>Facts\<close>

definition key_rows :: "(ascalar \<Rightarrow> string) \<Rightarrow> nat \<Rightarrow> row list \<Rightarrow> string \<Rightarrow> nat list" where
  "key_rows tx k rows key = filter (\<lambda>j. is_valid (rows ! j ! k) \<and> tx (rows ! j ! k) = key) [0..<length rows]"

lemma build_rows_index:
  assumes "drop i rows = rs" and "i \<le> length rows"
    and "\<And>key. (case map_of m key of None \<Rightarrow> [] | Some js \<Rightarrow> js) =
       filter (\<lambda>j. is_valid (rows ! j ! k) \<and> tx (rows ! j ! k) = key) [0..<i]"
    and "\<And>key. map_of m key \<noteq> Some []"
  shows "(case map_of (build_rows tx k i rs m) key of None \<Rightarrow> [] | Some js \<Rightarrow> js) = key_rows tx k rows key \<and>
    map_of (build_rows tx k i rs m) key \<noteq> Some []"
  using assms
proof (induction rs arbitrary: i m)
  case Nil
  then have "i = length rows" by simp
  then show ?case using Nil.prems(3,4) by (simp add: key_rows_def)
next
  case (Cons r rs)
  have lt: "i < length rows" using Cons.prems(1) by (metis drop_all leI list.discI)
  have d: "drop (Suc i) rows = rs" and r: "rows ! i = r"
    using Cons.prems(1) lt by (simp_all add: Cons_nth_drop_Suc [symmetric])
  let ?m = "umap_assign (tx (r ! k)) ((case map_of m (tx (r ! k)) of None \<Rightarrow> [] | Some js \<Rightarrow> js) @ [i]) m"
  show ?case
  proof (cases "is_valid (r ! k)")
    case True
    have "(case map_of (build_rows tx k (Suc i) rs ?m) key of None \<Rightarrow> [] | Some js \<Rightarrow> js) = key_rows tx k rows key \<and>
        map_of (build_rows tx k (Suc i) rs ?m) key \<noteq> Some []"
      by (rule Cons.IH [OF d]) (use lt True r Cons.prems(3,4) in \<open>auto simp: map_of_assign\<close>)
    then show ?thesis using True by (simp add: Let_def scalarKey_def)
  next
    case False
    have "(case map_of (build_rows tx k (Suc i) rs m) key of None \<Rightarrow> [] | Some js \<Rightarrow> js) = key_rows tx k rows key \<and>
        map_of (build_rows tx k (Suc i) rs m) key \<noteq> Some []"
      by (rule Cons.IH [OF d]) (use lt False r Cons.prems(3,4) in auto)
    then show ?thesis using False by (simp add: Let_def)
  qed
qed

lemma build_rows_lookup:
  "map_of (build_rows tx k 0 rows []) key = (if key_rows tx k rows key = [] then None else Some (key_rows tx k rows key))"
  using build_rows_index [of 0 rows rows "[]" k tx key] by (auto split: option.splits)



lemma key_rows_nth:
  "map (\<lambda>j. f (rows ! j)) (key_rows tx k rows key) = map f (filter (\<lambda>r. is_valid (r ! k) \<and> tx (r ! k) = key) rows)"
  unfolding key_rows_def map_nth_filter [of rows "\<lambda>r. is_valid (r ! k) \<and> tx (r ! k) = key", symmetric] map_map o_def
  by (rule refl)

lemma key_rows_empty:
  "key_rows tx k rows key = [] \<longleftrightarrow> filter (\<lambda>r. is_valid (r ! k) \<and> tx (r ! k) = key) rows = []"
proof -
  have "length (key_rows tx k rows key) = length (filter (\<lambda>r. is_valid (r ! k) \<and> tx (r ! k) = key) rows)"
    using key_rows_nth [of id rows tx k key, THEN arg_cong [where f = length]] by (simp only: length_map)
  then show ?thesis by (simp only: flip: length_0_conv)
qed

lemma keys_match_left: "is_valid (l ! i) \<Longrightarrow>
    filter (keys_match tx i j l) R = filter (\<lambda>r. is_valid (r ! j) \<and> tx (r ! j) = tx (l ! i)) R"
  by (rule filter_cong) (auto simp: keys_match_def)

lemma keys_match_right: "is_valid (r ! j) \<Longrightarrow>
    filter (\<lambda>l. keys_match tx i j l r) L = filter (\<lambda>l. is_valid (l ! i) \<and> tx (l ! i) = tx (r ! j)) L"
  by (rule filter_cong) (auto simp: keys_match_def)

lemma keys_match_invalid: "\<not> is_valid (l ! i) \<Longrightarrow> filter (keys_match tx i j l) R = []"
  "\<not> is_valid (r ! j) \<Longrightarrow> filter (\<lambda>l. keys_match tx i j l r) L = []"
  by (auto simp: keys_match_def)

text \<open>The row that a pair of indices gives.\<close>

definition pair_row :: "nat \<Rightarrow> row list \<Rightarrow> row list \<Rightarrow> nat \<times> nat option \<Rightarrow> row" where
  "pair_row width L R p = L ! fst p @ (case snd p of None \<Rightarrow> replicate width SC_Null | Some j \<Rightarrow> R ! j)"

lemma joined_batch_rows:
  "b_rows (joined_batch type l r pairs) = map (pair_row (length (b_fields r)) (b_rows l) (b_rows r)) pairs"
  by (induction pairs) (auto simp: joined_batch_def gather_def pair_row_def)

lemma probe_row_plain:
  assumes "i < length L"
  shows "map (pair_row width L R) (probe_row tx type False lk (build_rows tx rk 0 R []) i (L ! i)) =
    (if filter (keys_match tx lk rk (L ! i)) R = []
     then (if type = LEFT_OUTER then [L ! i @ replicate width SC_Null] else [])
     else map ((@) (L ! i)) (filter (keys_match tx lk rk (L ! i)) R))"
proof (cases "is_valid (L ! i ! lk)")
  case True
  show ?thesis
    using key_rows_nth [of "(@) (L ! i)" R tx rk "tx (L ! i ! lk)"]
    by (auto simp: probe_row_def True Let_def build_rows_lookup key_rows_empty keys_match_left [OF True]
        scalarKey_def pair_row_def o_def)
next
  case False
  then show ?thesis by (simp add: probe_row_def keys_match_invalid pair_row_def)
qed

lemma probe_row_swapped:
  "map (pair_row width L R) (probe_row tx INNER True rk (build_rows tx lk 0 L []) i (R ! i)) =
    map (\<lambda>l. l @ R ! i) (filter (\<lambda>l. keys_match tx lk rk l (R ! i)) L)"
proof (cases "is_valid (R ! i ! rk)")
  case True
  show ?thesis
    using key_rows_nth [of "\<lambda>l. l @ R ! i" L tx lk "tx (R ! i ! rk)"]
    by (auto simp: probe_row_def True Let_def build_rows_lookup key_rows_empty keys_match_right [OF True]
        scalarKey_def pair_row_def o_def)
next
  case False
  then show ?thesis by (simp add: probe_row_def keys_match_invalid)
qed

lemma probe_rows_map:
  assumes "drop i rows = rs"
    and "\<And>i. i < length rows \<Longrightarrow> map g (probe_row tx type swap k index i (rows ! i)) = f (rows ! i)"
  shows "map g (probe_rows tx type swap k index i rs) = concat (map f rs)"
  using assms(1)
proof (induction rs arbitrary: i)
  case (Cons r rs)
  have lt: "i < length rows" using Cons.prems by (metis drop_all leI list.discI)
  then have "drop (Suc i) rows = rs" "rows ! i = r"
    using Cons.prems by (simp_all add: Cons_nth_drop_Suc [symmetric])
  then show ?case using Cons.IH [of "Suc i"] assms(2) [OF lt] by simp
qed simp

lemma plain_join:
  "concat (map (\<lambda>l. if filter (keys_match tx i j l) R = []
      then (if type = LEFT_OUTER then [l @ replicate width SC_Null] else [])
      else map ((@) l) (filter (keys_match tx i j l) R)) L) =
    (case type of INNER \<Rightarrow> inner_join tx i j L R | LEFT_OUTER \<Rightarrow> left_join tx i j width L R)"
proof (cases type)
  case INNER
  show ?thesis unfolding INNER JoinType.case inner_join_def
    by (rule arg_cong [where f = concat]) simp
next
  case LEFT_OUTER
  show ?thesis unfolding LEFT_OUTER JoinType.case left_join_def by (simp cong: if_cong)
qed

text \<open>Both orders of the loops give the same multiset of pairs.\<close>

lemma mset_concat_swap:
  "mset (concat (map (\<lambda>x. map (\<lambda>y. f x y) (filter (\<lambda>y. P x y) ys)) xs)) =
   mset (concat (map (\<lambda>y. map (\<lambda>x. f x y) (filter (\<lambda>x. P x y) xs)) ys))"
proof (induction xs)
  case Nil
  show ?case by (induction ys) auto
next
  case (Cons x xs)
  have "mset (concat (map (\<lambda>y. map (\<lambda>x. f x y) (filter (\<lambda>x. P x y) (x # xs))) ys)) =
      mset (map (f x) (filter (P x) ys)) + mset (concat (map (\<lambda>y. map (\<lambda>x. f x y) (filter (\<lambda>x. P x y) xs)) ys))"
    by (induction ys) auto
  then show ?case using Cons by simp
qed

lemma spill_build_rows:
  assumes "spill_faithful msg ctx"
  shows "\<exists>c stats'. spill_build msg ctx stats b = Inr (c, stats') \<and> b_rows c = b_rows b"
proof (cases "spill_manager ctx")
  case None
  then show ?thesis by (simp add: spill_build_def)
next
  case (Some spill)
  then have "case spill [b] of
      Inr (_, batches) \<Rightarrow> (case combineBatches msg batches of Inr (Some c) \<Rightarrow> b_rows c = b_rows b | _ \<Rightarrow> False)
    | _ \<Rightarrow> False"
    using assms by (simp add: spill_faithful_def)
  then show ?thesis
    using Some by (auto simp: spill_build_def split: sum.splits option.splits)
qed

lemma hash_join_rows:
  assumes "spill_faithful msg ctx"
    and "field_index gfi l left_key = Some i" and "field_index gfi r right_key = Some j"
  shows "\<exists>out stats'. hash_join gfi tx msg l r left_key right_key type ctx stats = Inr (Some out, stats') \<and>
    b_fields out = b_fields l @ (if type = LEFT_OUTER then map nullable_field (b_fields r) else b_fields r) \<and>
    b_rows out = nested_loop tx type i j (length (b_fields r)) (b_rows l) (b_rows r)"
proof -
  let ?L = "b_rows l" and ?R = "b_rows r" and ?w = "length (b_fields r)"
  define swap where "swap = (type = INNER \<and> length ?R > length ?L)"
  obtain c stats' where c: "spill_build msg ctx stats (if swap then l else r) = Inr (c, stats')"
    "b_rows c = b_rows (if swap then l else r)"
    using spill_build_rows [OF assms(1)] by blast
  have res: "hash_join gfi tx msg l r left_key right_key type ctx stats =
      Inr (Some (joined_batch type l r
        (probe_rows tx type swap (if swap then j else i)
          (build_rows tx (if swap then i else j) 0 (b_rows c) []) 0 (b_rows (if swap then r else l)))), stats')"
    using assms(2,3) c(1) by (simp add: hash_join_def swap_def Let_def)
  show ?thesis
  proof (cases swap)
    case True
    then have t: "type = INNER" "length ?L < length ?R" by (simp_all add: swap_def)
    have "map (pair_row ?w ?L ?R) (probe_rows tx INNER True j (build_rows tx i 0 ?L []) 0 ?R) =
        inner_join_by_right tx i j ?L ?R"
      unfolding inner_join_by_right_def
      by (rule probe_rows_map [where rows = ?R]) (simp_all add: probe_row_swapped)
    then show ?thesis
      using True c(2) t unfolding res
      by (simp add: joined_batch_rows nested_loop_def) (simp add: joined_batch_def)
  next
    case False
    have "map (pair_row ?w ?L ?R) (probe_rows tx type False i (build_rows tx j 0 ?R []) 0 ?L) =
        concat (map (\<lambda>l. if filter (keys_match tx i j l) ?R = []
          then (if type = LEFT_OUTER then [l @ replicate ?w SC_Null] else [])
          else map ((@) l) (filter (keys_match tx i j l) ?R)) ?L)"
      by (rule probe_rows_map [where rows = ?L]) (simp_all add: probe_row_plain)
    also have "\<dots> = (case type of INNER \<Rightarrow> inner_join tx i j ?L ?R | LEFT_OUTER \<Rightarrow> left_join tx i j ?w ?L ?R)"
      by (rule plain_join)
    also have "\<dots> = nested_loop tx type i j ?w ?L ?R"
      using False by (cases type) (auto simp: nested_loop_def swap_def)
    finally show ?thesis
      using False c(2) unfolding res by (simp add: joined_batch_rows) (simp add: joined_batch_def)
  qed
qed

lemma nested_loop_empty:
  "nested_loop tx type i j width [] R = []" "nested_loop tx INNER i j width L [] = []"
  by (cases type) (auto simp: nested_loop_def left_join_def inner_join_def inner_join_by_right_def)

lemma nested_loop_mset: "mset (nested_loop tx INNER i j width L R) = mset (inner_join tx i j L R)"
  using mset_concat_swap [of "\<lambda>r l. l @ r" "\<lambda>r l. keys_match tx i j l r" L R]
  by (simp add: nested_loop_def inner_join_def inner_join_by_right_def)

section \<open>Properties\<close>

text \<open>
  C6. The join returns, row by row and in order, the nested loops of the specification, whichever side
  is built and whether or not the build side is written to disk and read back; two rows match when
  both keys are present and print the same.  An inner join gives the matching pairs left-major, but
  right-major when the right side has more rows, so in any case the multiset of the matching pairs; a
  left outer join gives, for each left row in order, its matches in order or itself with NULLs.
  Sides may be missing or empty, except for the right side of a left outer join that has left rows
  (\<open>left_outer_join_loses_rows\<close>).  When both sides have rows, the fields are those of both sides,
  nullable on the right of an outer join; with an empty side the code gives no fields.
\<close>

theorem join_is_the_nested_loop:
  assumes "spill_faithful msg ctx"
    and "\<not> is_empty_side left \<longrightarrow> \<not> is_empty_side right \<longrightarrow>
      field_index gfi (the left) left_key = Some i \<and> field_index gfi (the right) right_key = Some j"
    and "type = LEFT_OUTER \<longrightarrow> is_empty_side right \<longrightarrow> is_empty_side left"
  shows "\<exists>out stats'. joinBatches gfi tx msg left right left_key right_key type ctx stats = Inr (out, stats') \<and>
    side_rows out = nested_loop tx type i j (length (b_fields (the right))) (side_rows left) (side_rows right) \<and>
    (type = INNER \<longrightarrow> mset (side_rows out) = mset (inner_join tx i j (side_rows left) (side_rows right))) \<and>
    (\<not> is_empty_side left \<longrightarrow> \<not> is_empty_side right \<longrightarrow>
      out \<noteq> None \<and> b_fields (the out) = b_fields (the left) @
        (if type = LEFT_OUTER then map nullable_field (b_fields (the right)) else b_fields (the right)))"
proof (cases "is_empty_side left \<or> is_empty_side right")
  case True
  have empty: "is_empty_side b \<longleftrightarrow> side_rows b = []" for b
    by (cases b) (simp_all add: is_empty_side_def side_rows_def)
  have rows: "side_rows (map_option (\<lambda>l. empty_left_join l right) left) = []" if "side_rows left = []"
    using that by (cases left) (auto simp: side_rows_def empty_left_join_def split: option.splits)
  have "nested_loop tx type i j (length (b_fields (the right))) (side_rows left) (side_rows right) = []"
    using True assms(3) nested_loop_empty by (cases type) (auto simp: empty)
  moreover have "type = INNER \<Longrightarrow> inner_join tx i j (side_rows left) (side_rows right) = []"
    using True by (auto simp: empty inner_join_def)
  moreover have "\<exists>out stats'. joinBatches gfi tx msg left right left_key right_key type ctx stats = Inr (out, stats') \<and>
      side_rows out = []"
    using True assms(3) rows by (cases type) (auto simp: joinBatches_def empty, auto simp: side_rows_def)
  ultimately show ?thesis using True by auto
next
  case False
  then obtain l r where lr: "left = Some l" "right = Some r" by (auto simp: is_empty_side_def split: option.splits)
  from hash_join_rows [OF assms(1), of gfi l left_key i r right_key j tx type stats] show ?thesis
    using False assms(2) lr nested_loop_mset by (fastforce simp: joinBatches_def side_rows_def)
qed

definition ex_side :: "row list \<Rightarrow> batch" where
  "ex_side rows = \<lparr>b_fields = [\<lparr>fd_name = ''k'', fd_type = AT_STRING, fd_nullable = True\<rparr>], b_rows = rows\<rparr>"

definition ex_spill :: ExecutionContext where
  "ex_spill = \<lparr>memory_limit_bytes = 1, spill_manager = Some (\<lambda>bs. Inr (8, bs))\<rparr>"

lemma ex_spill_faithful: "spill_faithful [] ex_spill"
  by (simp add: spill_faithful_def ex_spill_def combineBatches_def)

theorem join_is_the_nested_loop_witness:
  "(\<exists>out stats. joinBatches (\<lambda>names c. Some 0) (\<lambda>c. ''x'') [] (Some (ex_side [[SC_Null], [SC_Int 1]]))
      (Some (ex_side [[SC_Int 1]])) ''k'' ''k'' LEFT_OUTER ex_spill \<lparr>bytes_spilled = 0, spill_files = 0\<rparr> = Inr (out, stats) \<and>
      side_rows out = [[SC_Null, SC_Null], [SC_Int 1, SC_Int 1]]) \<and>
   (\<exists>out stats. joinBatches (\<lambda>names c. Some 0) (\<lambda>c. ''x'') [] (Some (ex_side [[SC_Int 1], [SC_Int 2]]))
      (Some (ex_side [[SC_Int 3], [SC_Int 4], [SC_Null]])) ''k'' ''k'' INNER ex_spill
      \<lparr>bytes_spilled = 0, spill_files = 0\<rparr> = Inr (out, stats) \<and>
      side_rows out = [[SC_Int 1, SC_Int 3], [SC_Int 2, SC_Int 3], [SC_Int 1, SC_Int 4], [SC_Int 2, SC_Int 4]])"
  using join_is_the_nested_loop [OF ex_spill_faithful, where left = "Some (ex_side [[SC_Null], [SC_Int 1]])" and
      right = "Some (ex_side [[SC_Int 1]])" and gfi = "\<lambda>names c. Some 0" and left_key = "''k''" and i = 0 and
      right_key = "''k''" and j = 0 and type = LEFT_OUTER and tx = "\<lambda>c. ''x''" and stats = "\<lparr>bytes_spilled = 0, spill_files = 0\<rparr>"]
    join_is_the_nested_loop [OF ex_spill_faithful, where left = "Some (ex_side [[SC_Int 1], [SC_Int 2]])" and
      right = "Some (ex_side [[SC_Int 3], [SC_Int 4], [SC_Null]])" and gfi = "\<lambda>names c. Some 0" and left_key = "''k''" and
      i = 0 and right_key = "''k''" and j = 0 and type = INNER and tx = "\<lambda>c. ''x''" and
      stats = "\<lparr>bytes_spilled = 0, spill_files = 0\<rparr>"]
  by (simp add: ex_side_def is_empty_side_def field_index_def nested_loop_def left_join_def inner_join_by_right_def
      keys_match_def side_rows_def) blast

text \<open>
  A left outer join whose right side is empty loses the left rows: with a non-empty left side and a
  right side that is missing or has no rows, the result has neither rows nor columns, although
  every left row should come out once, padded with NULLs.  The inner join of the same sides gives
  the same batch.
\<close>

theorem left_outer_join_loses_rows:
  assumes "b_rows l \<noteq> []" and "is_empty_side right"
  shows "joinBatches gfi tx msg (Some l) right left_key right_key LEFT_OUTER ctx stats =
      Inr (Some \<lparr>b_fields = [], b_rows = []\<rparr>, stats) \<and>
    left_join tx i j width (b_rows l) [] = map (\<lambda>r. r @ replicate width SC_Null) (b_rows l)"
  using assms by (simp add: joinBatches_def is_empty_side_def left_join_def concat_map_singleton)

theorem left_outer_join_loses_rows_witness:
  "joinBatches (\<lambda>names c. Some 0) (\<lambda>c. []) []
      (Some \<lparr>b_fields = [\<lparr>fd_name = ''k'', fd_type = AT_INT64, fd_nullable = True\<rparr>], b_rows = [[SC_Int 1]]\<rparr>)
      None ''k'' ''k'' LEFT_OUTER \<lparr>memory_limit_bytes = 0, spill_manager = None\<rparr>
      \<lparr>bytes_spilled = 0, spill_files = 0\<rparr> =
    Inr (Some \<lparr>b_fields = [], b_rows = []\<rparr>, \<lparr>bytes_spilled = 0, spill_files = 0\<rparr>)"
  by (rule left_outer_join_loses_rows [THEN conjunct1]) (simp_all add: is_empty_side_def)

end
