(* ===== verification/Expressions.thy ===== *)
theory Expressions
  imports Batches "HOL-Library.Signed_Division"
begin

text \<open>
  SQL expressions: the tree of \<open>include/query/parser/QueryAST.h\<close>, its evaluation on a row
  (\<open>evaluateExpression\<close> in \<open>src/query/executor/ExecutorUtils.cpp\<close>), and what the engine does with
  it: computed columns, \<open>DISTINCT ON\<close>, and the conditions of a filter.  A scalar is its Arrow type
  with its value.  Arrow's casts and comparison kernels and the formatting of timestamps in a time
  zone are parameters (\<open>EvalEnv\<close>).  Signed overflow and a cast of a scalar pointer to the wrong class
  end the evaluation with \<open>SignedOverflow\<close> and \<open>UndefinedBehaviour\<close>.
\<close>

section \<open>Expressions\<close>

datatype LiteralValue = LV literal | LV_Now int

record QualifiedColumn =
  qc_qualifier :: "string option"
  qc_name :: string

text \<open>\<open>E_Missing\<close> is the null pointer; the flag of a call is its \<open>OVER\<close> clause.\<close>

datatype expr =
    E_Missing
  | E_Literal LiteralValue
  | E_Column QualifiedColumn
  | E_Call string bool "expr list"
  | E_Unary string expr
  | E_Binary string expr expr

type_synonym scalar = "arrow_type \<times> ascalar"

abbreviation null_scalar :: scalar where "null_scalar \<equiv> (AT_NA, SC_Null)"

abbreviation bool_scalar :: "bool \<Rightarrow> scalar" where "bool_scalar b \<equiv> (AT_BOOL, SC_Bool b)"

abbreviation int_scalar :: "int \<Rightarrow> scalar" where "int_scalar i \<equiv> (AT_INT64, SC_Int i)"

record EvalEnv =
  ee_gfi :: lookup
  ee_txt :: "ascalar \<Rightarrow> string"
  ee_cast :: "scalar \<Rightarrow> arrow_type \<Rightarrow> string + scalar"
  ee_from_utc_local :: "ascalar \<Rightarrow> exn + string"
  ee_from_utc :: "ascalar \<Rightarrow> string \<Rightarrow> exn + string"
  ee_kernel :: "string \<Rightarrow> ascalar list \<Rightarrow> ascalar list \<Rightarrow> bool option list option"
  ee_status :: string

section \<open>Evaluation\<close>

fun literal_scalar :: "LiteralValue \<Rightarrow> exn + scalar" where
  "literal_scalar (LV (Lit_Int i)) = Inr (AT_INT64, SC_Int i)"
| "literal_scalar (LV (Lit_Bool b)) = Inr (AT_BOOL, SC_Bool b)"
| "literal_scalar (LV (Lit_String s)) = Inr (AT_STRING, SC_String s)"
| "literal_scalar (LV (Lit_Timestamp t)) = Inr (AT_TIMESTAMP ''ns'', SC_Timestamp t)"
| "literal_scalar (LV (Lit_Duration t)) = Inr (AT_DURATION ''ns'', SC_Duration t)"
| "literal_scalar _ = Inl (RuntimeError ''Unsupported literal in expression evaluator'')"

definition column_scalar :: "EvalEnv \<Rightarrow> batch \<Rightarrow> nat \<Rightarrow> string \<Rightarrow> exn + scalar" where
  "column_scalar env b i name =
     (case field_index (ee_gfi env) b name of
        None \<Rightarrow> Inl (RuntimeError (''Expression references unknown column: '' @ name))
      | Some k \<Rightarrow>
          if i < length (b_rows b) then Inr (fd_type (b_fields b ! k), b_rows b ! i ! k)
          else Inl (RuntimeError (ee_status env)))"

text \<open>The pointer casts of the unary operators are unchecked.\<close>

definition eval_unary :: "string \<Rightarrow> scalar \<Rightarrow> exn + scalar" where
  "eval_unary op operand =
     (if op = ''IS NULL'' then Inr (bool_scalar (\<not> is_valid (snd operand)))
      else if op = ''IS NOT NULL'' then Inr (bool_scalar (is_valid (snd operand)))
      else if \<not> is_valid (snd operand) then Inr null_scalar
      else if op = ''NOT'' then
        (case operand of (AT_BOOL, SC_Bool b) \<Rightarrow> Inr (bool_scalar (\<not> b)) | _ \<Rightarrow> Inl UndefinedBehaviour)
      else
        (case operand of
           (AT_INT64, SC_Int i) \<Rightarrow>
             (if op = ''-'' then (case int64 (- i) of Inl e \<Rightarrow> Inl e | Inr j \<Rightarrow> Inr (int_scalar j))
              else Inr (int_scalar i))
         | _ \<Rightarrow> Inl UndefinedBehaviour))"

definition compare_op :: "string \<Rightarrow> 'a::linorder \<Rightarrow> 'a \<Rightarrow> bool option" where
  "compare_op op lhs rhs =
     (if op = ''='' then Some (lhs = rhs)
      else if op = ''!='' then Some (lhs \<noteq> rhs)
      else if op = ''<'' then Some (lhs < rhs)
      else if op = ''<='' then Some (lhs \<le> rhs)
      else if op = ''>'' then Some (lhs > rhs)
      else if op = ''>='' then Some (lhs \<ge> rhs)
      else None)"

definition logical_op :: "string \<Rightarrow> scalar \<Rightarrow> scalar \<Rightarrow> bool option" where
  "logical_op op left right =
     (case (left, right) of
        ((AT_BOOL, SC_Bool lhs), (AT_BOOL, SC_Bool rhs)) \<Rightarrow>
          if op = ''AND'' then Some (lhs \<and> rhs) else if op = ''OR'' then Some (lhs \<or> rhs) else None
      | _ \<Rightarrow> None)"

definition is_text :: "scalar \<Rightarrow> bool" where
  "is_text s = (fst s = AT_STRING \<or> fst s = AT_LARGE_STRING)"

definition integerValue :: "string \<Rightarrow> scalar \<Rightarrow> exn + int" where
  "integerValue op s =
     (case s of
        (AT_INT64, SC_Int i) \<Rightarrow> Inr i
      | (AT_TIMESTAMP _, SC_Timestamp t) \<Rightarrow> Inr t
      | (AT_DURATION _, SC_Duration t) \<Rightarrow> Inr t
      | _ \<Rightarrow> Inl (RuntimeError (''Expression operator '' @ op @ '' requires numeric or temporal operands'')))"

definition temporalResult :: "string \<Rightarrow> arrow_type \<Rightarrow> arrow_type \<Rightarrow> int \<Rightarrow> scalar" where
  "temporalResult op left right result =
     (case (left, right) of
        (AT_TIMESTAMP unit, AT_DURATION _) \<Rightarrow>
          if op = ''+'' \<or> op = ''-'' then (AT_TIMESTAMP unit, SC_Timestamp result) else int_scalar result
      | (AT_TIMESTAMP _, AT_TIMESTAMP _) \<Rightarrow>
          if op = ''-'' then (AT_DURATION ''ns'', SC_Duration result) else int_scalar result
      | _ \<Rightarrow> int_scalar result)"

definition integer_op :: "string \<Rightarrow> arrow_type \<Rightarrow> arrow_type \<Rightarrow> int \<Rightarrow> int \<Rightarrow> exn + scalar" where
  "integer_op op left right lhs rhs =
     (if op = ''+'' then (case int64 (lhs + rhs) of Inl e \<Rightarrow> Inl e | Inr i \<Rightarrow> Inr (temporalResult op left right i))
      else if op = ''-'' then (case int64 (lhs - rhs) of Inl e \<Rightarrow> Inl e | Inr i \<Rightarrow> Inr (temporalResult op left right i))
      else if op = ''*'' then (case int64 (lhs * rhs) of Inl e \<Rightarrow> Inl e | Inr i \<Rightarrow> Inr (int_scalar i))
      else if op = ''/'' then
        (if rhs = 0 then Inl (RuntimeError ''/ divide by zero'')
         else (case int64 (lhs sdiv rhs) of Inl e \<Rightarrow> Inl e | Inr i \<Rightarrow> Inr (int_scalar i)))
      else (case compare_op op lhs rhs of
              Some b \<Rightarrow> Inr (bool_scalar b)
            | None \<Rightarrow> Inl (RuntimeError (''Unsupported expression operator: '' @ op))))"

definition eval_binary :: "EvalEnv \<Rightarrow> string \<Rightarrow> scalar \<Rightarrow> scalar \<Rightarrow> exn + scalar" where
  "eval_binary env op left right =
     (if \<not> is_valid (snd left) \<or> \<not> is_valid (snd right) then Inr null_scalar
      else case logical_op op left right of Some b \<Rightarrow> Inr (bool_scalar b)
      | None \<Rightarrow>
          (case (if is_text left \<and> is_text right
                 then compare_op op (ee_txt env (snd left)) (ee_txt env (snd right)) else None) of
             Some b \<Rightarrow> Inr (bool_scalar b)
           | None \<Rightarrow>
               (case integerValue op left of Inl e \<Rightarrow> Inl e | Inr lhs \<Rightarrow>
                (case integerValue op right of Inl e \<Rightarrow> Inl e | Inr rhs \<Rightarrow>
                  integer_op op (fst left) (fst right) lhs rhs))))"

text \<open>\<open>coalesce\<close> stops at the first value; a result behind it, even an exception, is not looked at.\<close>

fun coalesce_loop :: "EvalEnv \<Rightarrow> scalar option \<Rightarrow> (exn + scalar) list \<Rightarrow> exn + scalar" where
  "coalesce_loop env first_arg [] = Inr (case first_arg of Some s \<Rightarrow> s | None \<Rightarrow> null_scalar)"
| "coalesce_loop env first_arg (Inl e # rest) = Inl e"
| "coalesce_loop env first_arg (Inr s # rest) =
     (let f = (case first_arg of Some f \<Rightarrow> f | None \<Rightarrow> s) in
      if \<not> is_valid (snd s) then coalesce_loop env (Some f) rest
      else if fst f = AT_NA \<or> fst s = fst f then Inr s
      else (case ee_cast env s (fst f) of
              Inl status \<Rightarrow> Inl (RuntimeError (''coalesce: '' @ status))
            | Inr c \<Rightarrow> Inr c))"

definition no_overload :: "exn + scalar" where
  "no_overload = Inl (RuntimeError ''from_utc has no matching overload'')"

definition from_utc_call :: "EvalEnv \<Rightarrow> (exn + scalar) list \<Rightarrow> exn + scalar" where
  "from_utc_call env args =
     (let text_result = (\<lambda>r. case r of Inl e \<Rightarrow> Inl e | Inr s \<Rightarrow> Inr (AT_STRING, SC_String s)) in
      case args of
        [r] \<Rightarrow>
          (case r of Inl e \<Rightarrow> Inl e | Inr t \<Rightarrow>
             if \<not> is_valid (snd t) then Inr (AT_STRING, SC_Null)
             else (case fst t of AT_TIMESTAMP _ \<Rightarrow> text_result (ee_from_utc_local env (snd t)) | _ \<Rightarrow> no_overload))
      | [r, z] \<Rightarrow>
          (case r of Inl e \<Rightarrow> Inl e | Inr t \<Rightarrow>
          (case z of Inl e \<Rightarrow> Inl e | Inr zone \<Rightarrow>
             if \<not> is_valid (snd t) \<or> \<not> is_valid (snd zone) then Inr (AT_STRING, SC_Null)
             else (case (fst t, zone) of
                     (AT_TIMESTAMP _, (AT_STRING, SC_String s)) \<Rightarrow> text_result (ee_from_utc env (snd t) s)
                   | _ \<Rightarrow> no_overload)))
      | _ \<Rightarrow> no_overload)"

fun evaluateExpression :: "EvalEnv \<Rightarrow> batch \<Rightarrow> nat \<Rightarrow> expr \<Rightarrow> exn + scalar" where
  "evaluateExpression env b i E_Missing = Inl (RuntimeError ''Missing expression'')"
| "evaluateExpression env b i (E_Column c) = column_scalar env b i (qc_name c)"
| "evaluateExpression env b i (E_Literal v) = literal_scalar v"
| "evaluateExpression env b i (E_Unary op e) =
     (case evaluateExpression env b i e of Inl x \<Rightarrow> Inl x | Inr operand \<Rightarrow> eval_unary op operand)"
| "evaluateExpression env b i (E_Binary op l r) =
     (case evaluateExpression env b i l of Inl x \<Rightarrow> Inl x | Inr left \<Rightarrow>
     (case evaluateExpression env b i r of Inl x \<Rightarrow> Inl x | Inr right \<Rightarrow> eval_binary env op left right))"
| "evaluateExpression env b i (E_Call name over args) =
     (let results = map (evaluateExpression env b i) args; n = map tolower name in
      if n = ''coalesce'' then coalesce_loop env None results
      else if n = ''from_utc'' then from_utc_call env results
      else Inl (RuntimeError (''Function evaluation is not implemented: '' @ name)))"

section \<open>Computed columns\<close>

fun referencesColumn :: "expr \<Rightarrow> bool" where
  "referencesColumn E_Missing = False"
| "referencesColumn (E_Column c) = True"
| "referencesColumn (E_Call name over args) = (\<exists>a\<in>set args. referencesColumn a)"
| "referencesColumn (E_Unary op e) = referencesColumn e"
| "referencesColumn (E_Binary op l r) = (referencesColumn l \<or> referencesColumn r)"
| "referencesColumn (E_Literal v) = False"

text \<open>The type of the first row whose value is not NULL.\<close>

fun infer_type :: "EvalEnv \<Rightarrow> batch \<Rightarrow> expr \<Rightarrow> nat list \<Rightarrow> exn + arrow_type option" where
  "infer_type env b e [] = Inr None"
| "infer_type env b e (i # is) =
     (case evaluateExpression env b i e of
        Inl x \<Rightarrow> Inl x
      | Inr s \<Rightarrow> if is_valid (snd s) then Inr (Some (fst s)) else infer_type env b e is)"

definition column_type :: "EvalEnv \<Rightarrow> batch \<Rightarrow> expr \<Rightarrow> exn + arrow_type" where
  "column_type env b e =
     (case infer_type env b e [0..<length (b_rows b)] of
        Inl x \<Rightarrow> Inl x
      | Inr (Some t) \<Rightarrow> Inr t
      | Inr None \<Rightarrow>
          if b_rows b = [] \<and> \<not> referencesColumn e then
            (case evaluateExpression env b 0 e of
               Inl x \<Rightarrow> Inl x
             | Inr s \<Rightarrow> Inr (if is_valid (snd s) then fst s else AT_NA))
          else Inr AT_NA)"

text \<open>One appended cell; a builder takes scalars of its own type only.\<close>

definition append_cell :: "EvalEnv \<Rightarrow> batch \<Rightarrow> expr \<Rightarrow> arrow_type \<Rightarrow> nat \<Rightarrow> exn + ascalar" where
  "append_cell env b e type i =
     (case evaluateExpression env b i e of
        Inl x \<Rightarrow> Inl x
      | Inr s \<Rightarrow>
          if \<not> is_valid (snd s) then Inr SC_Null
          else if fst s = type then Inr (snd s)
          else Inl (RuntimeError (ee_status env)))"

definition named :: "string list \<Rightarrow> nat \<Rightarrow> exn + string" where
  "named names k = (if k < length names then Inr (names ! k) else Inl OutOfRange)"

definition expression_column ::
  "EvalEnv \<Rightarrow> batch \<Rightarrow> string list \<Rightarrow> nat \<times> expr \<Rightarrow> exn + field \<times> ascalar list" where
  "expression_column env b names ke =
     (case ke of
        (k, E_Column c) \<Rightarrow>
          (case field_index (ee_gfi env) b (qc_name c) of
             None \<Rightarrow> Inl (RuntimeError (''Expression references unknown column: '' @ qc_name c))
           | Some i \<Rightarrow>
               (case named names k of Inl x \<Rightarrow> Inl x
                | Inr name \<Rightarrow> Inr ((b_fields b ! i)\<lparr>fd_name := name\<rparr>, map (\<lambda>r. r ! i) (b_rows b))))
      | (k, e) \<Rightarrow>
          (case column_type env b e of Inl x \<Rightarrow> Inl x | Inr type \<Rightarrow>
          (case mapE (append_cell env b e type) [0..<length (b_rows b)] of Inl x \<Rightarrow> Inl x | Inr cells \<Rightarrow>
          (case named names k of Inl x \<Rightarrow> Inl x
           | Inr name \<Rightarrow> Inr (\<lparr>fd_name = name, fd_type = type, fd_nullable = True\<rparr>, cells)))))"

definition batch_of_columns :: "nat \<Rightarrow> (field \<times> ascalar list) list \<Rightarrow> batch" where
  "batch_of_columns n columns =
     \<lparr>b_fields = map fst columns, b_rows = map (\<lambda>i. map (\<lambda>c. snd c ! i) columns) [0..<n]\<rparr>"

definition project_expressions ::
  "EvalEnv \<Rightarrow> expr list \<Rightarrow> string list \<Rightarrow> batch \<Rightarrow> exn + batch" where
  "project_expressions env expressions names b =
     (case mapE (expression_column env b names) (enumerate 0 expressions) of
        Inl x \<Rightarrow> Inl x
      | Inr columns \<Rightarrow> Inr (batch_of_columns (length (b_rows b)) columns))"

definition applyExpressionProjection ::
  "EvalEnv \<Rightarrow> batch list \<Rightarrow> expr list \<Rightarrow> string list \<Rightarrow> exn + batch list" where
  "applyExpressionProjection env input expressions names = mapE (project_expressions env expressions names) input"

section \<open>DISTINCT ON\<close>

definition filterOn :: "EvalEnv \<Rightarrow> expr list \<Rightarrow> string set \<Rightarrow> batch \<Rightarrow> exn + string set \<times> batch" where
  "filterOn env keys seen b =
     (case applyExpressionProjection env [b] keys
             (map (\<lambda>i. ''__distinct_on_'' @ to_string i) [0..<length keys]) of
        Inl x \<Rightarrow> Inl x
      | Inr [] \<Rightarrow> Inr (seen, takeSelectedRows b [])
      | Inr (key_batch # _) \<Rightarrow>
          (let (seen', sel) = selectNewRows (ee_txt env) seen 0 (b_rows key_batch) in
           Inr (seen', takeSelectedRows b sel)))"

fun distinct_on_loop :: "EvalEnv \<Rightarrow> expr list \<Rightarrow> string set \<Rightarrow> batch list \<Rightarrow> exn + batch list" where
  "distinct_on_loop env keys seen [] = Inr []"
| "distinct_on_loop env keys seen (b # bs) =
     (case filterOn env keys seen b of
        Inl x \<Rightarrow> Inl x
      | Inr (seen', unique) \<Rightarrow>
          (case distinct_on_loop env keys seen' bs of
             Inl x \<Rightarrow> Inl x
           | Inr rest \<Rightarrow> Inr (if b_rows unique = [] then rest else unique # rest)))"

definition applyDistinctOn :: "EvalEnv \<Rightarrow> batch list \<Rightarrow> expr list \<Rightarrow> exn + batch list" where
  "applyDistinctOn env input keys = distinct_on_loop env keys {} input"

section \<open>The conditions of a filter\<close>

definition column_operand :: "EvalEnv \<Rightarrow> batch \<Rightarrow> expr \<Rightarrow> nat option" where
  "column_operand env b e =
     (case e of E_Column c \<Rightarrow> field_index (ee_gfi env) b (qc_name c) | _ \<Rightarrow> None)"

definition compare_names :: "string list" where
  "compare_names = [''='', ''!='', ''<'', ''<='', ''>'', ''>='']"

text \<open>
  The vectorised mask of a condition, or \<open>None\<close> when it takes the evaluator: \<open>IS [NOT] NULL\<close> on a
  column, and a comparison of two columns of the same type where the kernel supports it.
\<close>

definition vectorMask :: "EvalEnv \<Rightarrow> batch \<Rightarrow> expr \<Rightarrow> bool option list option" where
  "vectorMask env b condition =
     (case condition of
        E_Unary op e \<Rightarrow>
          (case column_operand env b e of
             None \<Rightarrow> None
           | Some k \<Rightarrow>
               if op = ''IS NULL'' then Some (map (\<lambda>r. Some (\<not> is_valid (r ! k))) (b_rows b))
               else if op = ''IS NOT NULL'' then Some (map (\<lambda>r. Some (is_valid (r ! k))) (b_rows b))
               else None)
      | E_Binary op l r \<Rightarrow>
          (case (column_operand env b l, column_operand env b r) of
             (Some i, Some j) \<Rightarrow>
               if op \<notin> set compare_names \<or> fd_type (b_fields b ! i) \<noteq> fd_type (b_fields b ! j) then None
               else ee_kernel env op (map (\<lambda>r. r ! i) (b_rows b)) (map (\<lambda>r. r ! j) (b_rows b))
           | _ \<Rightarrow> None)
      | _ \<Rightarrow> None)"

definition condition_holds :: "exn + scalar \<Rightarrow> exn + bool" where
  "condition_holds r = (case r of Inl x \<Rightarrow> Inl x | Inr s \<Rightarrow> Inr (s = bool_scalar True))"

definition condition_mask :: "EvalEnv \<Rightarrow> batch \<Rightarrow> expr \<Rightarrow> exn + bool list" where
  "condition_mask env b condition =
     mapE (\<lambda>i. condition_holds (evaluateExpression env b i condition)) [0..<length (b_rows b)]"

definition apply_condition :: "EvalEnv \<Rightarrow> batch \<Rightarrow> expr \<Rightarrow> exn + batch" where
  "apply_condition env current condition =
     (case vectorMask env current condition of
        Some ms \<Rightarrow>
          Inr (current\<lparr>b_rows := map snd (filter (\<lambda>(m, r). m = Some True) (zip ms (b_rows current)))\<rparr>)
      | None \<Rightarrow>
          (case condition_mask env current condition of
             Inl x \<Rightarrow> Inl x
           | Inr ms \<Rightarrow>
               let rows = filter (\<lambda>i. ms ! i) [0..<length (b_rows current)] in
               Inr (if length rows \<noteq> length (b_rows current) then takeSelectedRows current rows else current)))"

fun applyConditions :: "EvalEnv \<Rightarrow> batch \<Rightarrow> expr list \<Rightarrow> exn + batch" where
  "applyConditions env current [] = Inr current"
| "applyConditions env current (c # cs) =
     (if b_rows current = [] then Inr current
      else case apply_condition env current c of
        Inl x \<Rightarrow> Inl x
      | Inr next_batch \<Rightarrow> applyConditions env next_batch cs)"

section \<open>Facts about conditions\<close>

text \<open>An expression on one row.\<close>

definition eval_row :: "EvalEnv \<Rightarrow> field list \<Rightarrow> row \<Rightarrow> expr \<Rightarrow> exn + scalar" where
  "eval_row env fs r e = evaluateExpression env \<lparr>b_fields = fs, b_rows = [r]\<rparr> 0 e"

lemma column_scalar_row:
  "i < length (b_rows b) \<Longrightarrow>
     column_scalar env b i name = column_scalar env \<lparr>b_fields = b_fields b, b_rows = [b_rows b ! i]\<rparr> 0 name"
  by (simp add: column_scalar_def field_index_def split: option.splits)

lemma eval_row_eq:
  "i < length (b_rows b) \<Longrightarrow> evaluateExpression env b i e = eval_row env (b_fields b) (b_rows b ! i) e"
proof (induction e)
  case (E_Column c)
  then show ?case using column_scalar_row [of i b env] by (simp add: eval_row_def)
next
  case (E_Call name over args)
  have "map (evaluateExpression env b i) args =
      map (evaluateExpression env \<lparr>b_fields = b_fields b, b_rows = [b_rows b ! i]\<rparr> 0) args"
    by (rule map_cong) (use E_Call in \<open>auto simp: eval_row_def\<close>)
  then show ?case unfolding eval_row_def evaluateExpression.simps by (simp only:)
qed (simp_all add: eval_row_def split: sum.splits)

text \<open>
  The specification of a condition on one row.  A comparison of two columns of one type holds when both
  cells are present and the comparison \<open>cmp\<close> of their values holds; every other condition holds when the
  evaluator gives TRUE for the row.
\<close>

definition compared_columns :: "EvalEnv \<Rightarrow> field list \<Rightarrow> expr \<Rightarrow> (string \<times> nat \<times> nat) option" where
  "compared_columns env fs c =
     (case c of
        E_Binary op l r \<Rightarrow>
          (case (column_operand env \<lparr>b_fields = fs, b_rows = []\<rparr> l, column_operand env \<lparr>b_fields = fs, b_rows = []\<rparr> r) of
             (Some i, Some j) \<Rightarrow>
               if op \<in> set compare_names \<and> fd_type (fs ! i) = fd_type (fs ! j) then Some (op, i, j) else None
           | _ \<Rightarrow> None)
      | _ \<Rightarrow> None)"

definition row_keeps ::
  "EvalEnv \<Rightarrow> (string \<Rightarrow> ascalar \<Rightarrow> ascalar \<Rightarrow> bool) \<Rightarrow> field list \<Rightarrow> row \<Rightarrow> expr \<Rightarrow> bool" where
  "row_keeps env cmp fs r c =
     (case compared_columns env fs c of
        Some (op, i, j) \<Rightarrow> is_valid (r ! i) \<and> is_valid (r ! j) \<and> cmp op (r ! i) (r ! j)
      | None \<Rightarrow> eval_row env fs r c = Inr (bool_scalar True))"

text \<open>
  Arrow's comparison kernels: cell by cell, NULL where a cell is NULL, the usual comparison on integers,
  times and texts; a kernel may refuse its arguments.
\<close>

definition kernel_compares :: "EvalEnv \<Rightarrow> (string \<Rightarrow> ascalar \<Rightarrow> ascalar \<Rightarrow> bool) \<Rightarrow> bool" where
  "kernel_compares env cmp \<longleftrightarrow>
     (\<forall>op\<in>set compare_names. \<forall>xs ys. length xs = length ys \<longrightarrow>
        ee_kernel env op xs ys = None \<or>
        ee_kernel env op xs ys =
          Some (map2 (\<lambda>x y. if is_valid x \<and> is_valid y then Some (cmp op x y) else None) xs ys)) \<and>
     (\<forall>op\<in>set compare_names. \<forall>a b. cmp op (SC_Int a) (SC_Int b) \<longleftrightarrow> compare_op op a b = Some True) \<and>
     (\<forall>op\<in>set compare_names. \<forall>a b. cmp op (SC_Timestamp a) (SC_Timestamp b) \<longleftrightarrow> compare_op op a b = Some True) \<and>
     (\<forall>op\<in>set compare_names. \<forall>a b. cmp op (SC_Duration a) (SC_Duration b) \<longleftrightarrow> compare_op op a b = Some True) \<and>
     (\<forall>op\<in>set compare_names. \<forall>a b. cmp op (SC_String a) (SC_String b) \<longleftrightarrow> compare_op op a b = Some True) \<and>
     (\<forall>a. ee_txt env (SC_String a) = a)"

text \<open>The cells of a text column are texts.\<close>

definition cells_fit :: "EvalEnv \<Rightarrow> field list \<Rightarrow> row \<Rightarrow> bool" where
  "cells_fit env fs r \<longleftrightarrow>
     (\<forall>name i. ee_gfi env (map fd_name fs) name = Some i \<longrightarrow> fd_type (fs ! i) \<in> {AT_STRING, AT_LARGE_STRING} \<longrightarrow>
        is_valid (r ! i) \<longrightarrow> (\<exists>s. r ! i = SC_String s))"

lemma operand_fits:
  "cells_fit env fs r \<Longrightarrow> column_operand env \<lparr>b_fields = fs, b_rows = []\<rparr> e = Some i \<Longrightarrow>
     fd_type (fs ! i) \<in> {AT_STRING, AT_LARGE_STRING} \<Longrightarrow> is_valid (r ! i) \<Longrightarrow> \<exists>s. r ! i = SC_String s"
  by (auto simp: cells_fit_def column_operand_def field_index_def split: expr.splits)

lemma column_operand_rows: "column_operand env \<lparr>b_fields = b_fields b, b_rows = rows\<rparr> e = column_operand env b e"
  by (simp add: column_operand_def field_index_def split: expr.splits)

lemma eval_row_operand:
  "column_operand env \<lparr>b_fields = fs, b_rows = []\<rparr> e = Some k \<Longrightarrow> eval_row env fs r e = Inr (fd_type (fs ! k), r ! k)"
  by (auto simp: column_operand_def eval_row_def column_scalar_def field_index_def split: expr.splits)

lemma compare_op_some: "op \<in> set compare_names \<Longrightarrow> \<exists>t. compare_op op x y = Some t"
  by (auto simp: compare_names_def compare_op_def)

lemma compare_is_no_operator:
  "op \<in> set compare_names \<Longrightarrow> op \<notin> {''+'', ''-'', ''*'', ''/'', ''AND'', ''OR''}"
  by (auto simp: compare_names_def)

text \<open>On a comparison of two columns the evaluator gives what the kernel gives, where it gives a value.\<close>

lemma eval_binary_compares:
  assumes op: "op \<in> set compare_names" and k: "kernel_compares env cmp"
    and valid: "is_valid x" "is_valid y"
    and strs: "t \<in> {AT_STRING, AT_LARGE_STRING} \<longrightarrow> (\<exists>a b. x = SC_String a \<and> y = SC_String b)"
    and res: "eval_binary env op (t, x) (t, y) = Inr s"
  shows "s = bool_scalar (cmp op x y)"
proof -
  have no: "op \<notin> {''+'', ''-'', ''*'', ''/'', ''AND'', ''OR''}" using compare_is_no_operator [OF op] .
  then have l: "logical_op op (t, x) (t, y) = None"
    by (auto simp: logical_op_def split: arrow_type.splits ascalar.splits)
  have ii: "integer_op op u v a b = (case compare_op op a b of Some t \<Rightarrow> Inr (bool_scalar t)
      | None \<Rightarrow> Inl (RuntimeError (''Unsupported expression operator: '' @ op)))" for u v a b
    using no by (simp add: integer_op_def)
  show ?thesis
  proof (cases "t \<in> {AT_STRING, AT_LARGE_STRING}")
    case True
    then obtain a b where ab: "x = SC_String a" "y = SC_String b" using strs by blast
    obtain c where "compare_op op a b = Some c" using compare_op_some [OF op] by blast
    then show ?thesis using res k op True l by (auto simp: eval_binary_def ab is_text_def kernel_compares_def)
  next
    case False
    then have nt: "\<not> (is_text (t, x) \<and> is_text (t, y))" by (simp add: is_text_def)
    obtain a b where a: "integerValue op (t, x) = Inr a" and b: "integerValue op (t, y) = Inr b"
      using res valid l nt by (auto simp: eval_binary_def split: sum.splits)
    obtain c where c: "compare_op op a b = Some c" using compare_op_some [OF op] by blast
    have s: "s = bool_scalar c" using res valid l nt a b c by (simp add: eval_binary_def ii)
    have "(\<exists>u v. x = SC_Int u \<and> y = SC_Int v \<and> a = u \<and> b = v) \<or>
      (\<exists>u v. x = SC_Timestamp u \<and> y = SC_Timestamp v \<and> a = u \<and> b = v) \<or>
      (\<exists>u v. x = SC_Duration u \<and> y = SC_Duration v \<and> a = u \<and> b = v)"
      using a b by (auto simp: integerValue_def split: arrow_type.splits ascalar.splits)
    then show ?thesis using k op c s by (auto simp: kernel_compares_def)
  qed
qed

lemma eval_row_agrees:
  assumes k: "kernel_compares env cmp" and fit: "cells_fit env fs r" and res: "eval_row env fs r c = Inr s"
  shows "row_keeps env cmp fs r c \<longleftrightarrow> s = bool_scalar True"
proof (cases "compared_columns env fs c")
  case None
  then show ?thesis using res by (simp add: row_keeps_def)
next
  case (Some p)
  obtain op i j where p: "p = (op, i, j)" by (cases p)
  then obtain l e where c: "c = E_Binary op l e" "column_operand env \<lparr>b_fields = fs, b_rows = []\<rparr> l = Some i"
    "column_operand env \<lparr>b_fields = fs, b_rows = []\<rparr> e = Some j" "op \<in> set compare_names"
    "fd_type (fs ! i) = fd_type (fs ! j)"
    using Some by (auto simp: compared_columns_def split: expr.splits option.splits if_splits)
  have ev: "eval_binary env op (fd_type (fs ! i), r ! i) (fd_type (fs ! i), r ! j) = Inr s"
    using res eval_row_operand [OF c(2), of r] eval_row_operand [OF c(3), of r] c(1,5) by (simp add: eval_row_def)
  show ?thesis
  proof (cases "is_valid (r ! i) \<and> is_valid (r ! j)")
    case True
    then have "s = bool_scalar (cmp op (r ! i) (r ! j))"
      using operand_fits [OF fit c(2)] operand_fits [OF fit c(3)] c(5)
      by (intro eval_binary_compares [OF c(4) k _ _ _ ev]) auto
    then show ?thesis using True by (simp add: row_keeps_def Some p)
  next
    case False
    then show ?thesis using ev by (auto simp: row_keeps_def Some p eval_binary_def)
  qed
qed

lemma map2_map: "map2 f (map g xs) (map h xs) = map (\<lambda>x. f (g x) (h x)) xs"
  by (induction xs) auto

text \<open>A vectorised mask marks the rows that the specification keeps.\<close>

lemma vectorMask_keeps:
  assumes "kernel_compares env cmp" and "vectorMask env b c = Some ms"
  shows "\<exists>t. ms = map t (b_rows b) \<and> (\<forall>r. t r = Some True \<longleftrightarrow> row_keeps env cmp (b_fields b) r c)"
proof (cases c)
  case (E_Unary op e)
  then obtain k where k: "column_operand env b e = Some k"
    using assms(2) by (auto simp: vectorMask_def split: option.splits)
  have "column_operand env \<lparr>b_fields = b_fields b, b_rows = []\<rparr> e = Some k" using k by (simp only: column_operand_rows)
  from eval_row_operand [OF this]
  have ev: "eval_row env (b_fields b) r (E_Unary u e) = eval_unary u (fd_type (b_fields b ! k), r ! k)" for r u
    by (simp add: eval_row_def)
  have none: "compared_columns env (b_fields b) (E_Unary u e) = None" for u by (simp add: compared_columns_def)
  consider "op = ''IS NULL''" | "op = ''IS NOT NULL''" using assms(2) k by (auto simp: E_Unary vectorMask_def split: if_splits)
  then show ?thesis
    using assms(2) k
    by cases (auto simp: E_Unary vectorMask_def row_keeps_def none ev eval_unary_def
        intro!: exI)
next
  case (E_Binary op l e)
  then obtain i j where c: "column_operand env b l = Some i" "column_operand env b e = Some j"
    "op \<in> set compare_names" "fd_type (b_fields b ! i) = fd_type (b_fields b ! j)"
    and ms: "ee_kernel env op (map (\<lambda>r. r ! i) (b_rows b)) (map (\<lambda>r. r ! j) (b_rows b)) = Some ms"
    using assms(2) by (auto simp: vectorMask_def split: option.splits if_splits)
  have cc: "compared_columns env (b_fields b) c = Some (op, i, j)"
    using c by (simp add: E_Binary compared_columns_def column_operand_rows)
  let ?t = "\<lambda>r. if is_valid (r ! i) \<and> is_valid (r ! j) then Some (cmp op (r ! i) (r ! j)) else None"
  have "\<forall>xs ys. length xs = length ys \<longrightarrow> ee_kernel env op xs ys = None \<or>
      ee_kernel env op xs ys = Some (map2 (\<lambda>x y. if is_valid x \<and> is_valid y then Some (cmp op x y) else None) xs ys)"
    using assms(1) c(3) unfolding kernel_compares_def by blast
  from this [rule_format, of "map (\<lambda>r. r ! i) (b_rows b)" "map (\<lambda>r. r ! j) (b_rows b)"]
  have "ms = map ?t (b_rows b)" using ms by (simp add: map2_map)
  then show ?thesis by (intro exI [of _ ?t]) (auto simp: row_keeps_def cc)
qed (use assms(2) in \<open>simp_all add: vectorMask_def\<close>)

lemma filter_zip_map: "map snd (filter (\<lambda>(m, r). P m) (zip (map f xs) xs)) = filter (\<lambda>x. P (f x)) xs"
  by (induction xs) auto

lemma filter_id_length: "length (filter P xs) = length xs \<Longrightarrow> filter P xs = xs"
  using length_filter_less [of _ xs P] by (metis filter_id_conv less_irrefl)

text \<open>The rows that the evaluator's mask selects.\<close>

lemma condition_mask_rows:
  assumes "condition_mask env b c = Inr ms"
  shows "(let rows = filter (\<lambda>i. ms ! i) [0..<length (b_rows b)] in
      if length rows \<noteq> length (b_rows b) then takeSelectedRows b rows else b) =
    b\<lparr>b_rows := filter (\<lambda>r. eval_row env (b_fields b) r c = Inr (bool_scalar True)) (b_rows b)\<rparr>"
proof -
  let ?P = "\<lambda>r. eval_row env (b_fields b) r c = Inr (bool_scalar True)"
  have ms: "ms ! i \<longleftrightarrow> ?P (b_rows b ! i)" if "i < length (b_rows b)" for i
  proof -
    have "condition_holds (evaluateExpression env b i c) = Inr (ms ! i)"
      using assms that unfolding condition_mask_def mapE_Inr_iff by (auto simp: list_all2_conv_all_nth)
    then show ?thesis
      unfolding eval_row_eq [OF that] by (simp add: condition_holds_def split: sum.splits)
  qed
  have sel: "filter (\<lambda>i. ms ! i) [0..<length (b_rows b)] = filter (\<lambda>i. ?P (b_rows b ! i)) [0..<length (b_rows b)]"
    by (rule filter_cong) (auto simp: ms)
  have rows: "map ((!) (b_rows b)) (filter (\<lambda>i. ?P (b_rows b ! i)) [0..<length (b_rows b)]) = filter ?P (b_rows b)"
    by (rule map_nth_filter)
  have taken: "takeSelectedRows b (filter (\<lambda>i. ?P (b_rows b ! i)) [0..<length (b_rows b)]) =
      b\<lparr>b_rows := filter ?P (b_rows b)\<rparr>"
    unfolding rows [symmetric] by (rule takeSelectedRows_nth) (auto intro: sorted_wrt_filter)
  have "length (filter (\<lambda>i. ?P (b_rows b ! i)) [0..<length (b_rows b)]) = length (filter ?P (b_rows b))"
    unfolding rows [symmetric] by (simp only: length_map)
  then show ?thesis
    using taken filter_id_length [of ?P "b_rows b"]
    by (cases "length (filter ?P (b_rows b)) = length (b_rows b)") (simp_all add: sel Let_def)
qed

lemma apply_condition_rows:
  assumes k: "kernel_compares env cmp" and fit: "\<forall>r\<in>set (b_rows b). cells_fit env (b_fields b) r"
  shows "case apply_condition env b c of
      Inr out \<Rightarrow> b_fields out = b_fields b \<and> b_rows out = filter (\<lambda>r. row_keeps env cmp (b_fields b) r c) (b_rows b)
    | Inl x \<Rightarrow> \<exists>r\<in>set (b_rows b). eval_row env (b_fields b) r c = Inl x"
proof (cases "vectorMask env b c")
  case (Some ms)
  then obtain t where t: "ms = map t (b_rows b)" "\<And>r. t r = Some True \<longleftrightarrow> row_keeps env cmp (b_fields b) r c"
    using vectorMask_keeps [OF k] by blast
  then show ?thesis by (simp add: apply_condition_def Some filter_zip_map)
next
  case None
  show ?thesis
  proof (cases "condition_mask env b c")
    case (Inl x)
    then obtain i where "i < length (b_rows b)" "evaluateExpression env b i c = Inl x"
      unfolding condition_mask_def
      by (auto simp: condition_holds_def dest!: mapE_first_error split: sum.splits)
    then show ?thesis
      using Inl None eval_row_eq [of i b env c] by (auto simp: apply_condition_def)
  next
    case (Inr ms)
    have "row_keeps env cmp (b_fields b) r c \<longleftrightarrow> eval_row env (b_fields b) r c = Inr (bool_scalar True)"
      if mem: "r \<in> set (b_rows b)" for r
    proof -
      obtain i where i: "i < length (b_rows b)" "b_rows b ! i = r" using mem by (auto simp: in_set_conv_nth)
      have "condition_holds (evaluateExpression env b i c) = Inr (ms ! i)"
        using Inr i(1) unfolding condition_mask_def mapE_Inr_iff by (auto simp: list_all2_conv_all_nth)
      then obtain s where "eval_row env (b_fields b) r c = Inr s"
        unfolding eval_row_eq [OF i(1)] i(2) by (auto simp: condition_holds_def split: sum.splits)
      then show ?thesis using eval_row_agrees [OF k] fit mem by simp
    qed
    then have "filter (\<lambda>r. row_keeps env cmp (b_fields b) r c) (b_rows b) =
        filter (\<lambda>r. eval_row env (b_fields b) r c = Inr (bool_scalar True)) (b_rows b)"
      by (rule filter_cong [OF refl])
    moreover have "apply_condition env b c = Inr (let rows = filter (\<lambda>i. ms ! i) [0..<length (b_rows b)] in
        if length rows \<noteq> length (b_rows b) then takeSelectedRows b rows else b)"
      using None Inr by (simp add: apply_condition_def Let_def)
    ultimately show ?thesis unfolding condition_mask_rows [OF Inr] by simp
  qed
qed

section \<open>Facts about DISTINCT ON\<close>

lemma batch_of_columns_rows [simp]:
  "length (b_rows (batch_of_columns n columns)) = n"
  "b_fields (batch_of_columns n columns) = map fst columns"
  by (simp_all add: batch_of_columns_def)

lemma project_expressions_length:
  "project_expressions env es names b = Inr out \<Longrightarrow> length (b_rows out) = length (b_rows b)"
  by (auto simp: project_expressions_def split: sum.splits)

text \<open>The rows at the numbers that \<open>selectNewRows\<close> picks on other rows of the same number.\<close>

lemma selectNewRows_zip:
  assumes "selectNewRows tx seen i ks = (seen', sel)" and "length ks = length rs" and "drop i rows = rs"
  shows "map ((!) rows) sel = map snd (new_rows (\<lambda>(k, r). distinct_key tx k) seen (zip ks rs))"
  using assms
proof (induction ks arbitrary: seen i sel seen' rs)
  case (Cons k ks)
  obtain r rs' where rs: "rs = r # rs'" using Cons.prems(2) by (cases rs) auto
  have lt: "i < length rows" using Cons.prems(3) rs by (metis drop_all leI list.discI)
  then have d: "drop (i + 1) rows = rs'" "rows ! i = r"
    using Cons.prems(3) rs by (simp_all add: Cons_nth_drop_Suc [symmetric])
  obtain t rest where rec: "selectNewRows tx (insert (distinct_key tx k) seen) (i + 1) ks = (t, rest)"
    by force
  show ?case
    using Cons.IH [OF rec, of rs'] Cons.prems rec d rs by (auto simp: Let_def insert_absorb split: if_splits)
qed simp

section \<open>Properties\<close>

text \<open>
  C36. The conditions of a filter keep exactly the rows on which every condition holds, in order and with
  the fields unchanged, whatever the order of the conditions and whether a condition is evaluated row by
  row or by a vectorised mask.  A condition holds when the evaluator gives TRUE for the row; the one
  exception is the comparison of two columns of one type, which holds when both cells are present and
  their values compare as Arrow's kernels do, so also for types the evaluator has no comparison for.
  Where the evaluator gives a value for such a comparison, it holds exactly when that value is TRUE: the
  vectorised path changes no answer.  An exception is the exception of some condition on some row.  Of
  Arrow it needs that its comparison kernels work cell by cell with the usual order on integers, times
  and texts, or refuse their arguments.
\<close>

theorem conditions_keep_true_rows:
  assumes "kernel_compares env cmp" and "\<forall>r\<in>set (b_rows b). cells_fit env (b_fields b) r"
  shows "(case applyConditions env b conditions of
      Inr out \<Rightarrow> b_fields out = b_fields b \<and>
        b_rows out = filter (\<lambda>r. \<forall>c\<in>set conditions. row_keeps env cmp (b_fields b) r c) (b_rows b)
    | Inl x \<Rightarrow> \<exists>r\<in>set (b_rows b). \<exists>c\<in>set conditions. eval_row env (b_fields b) r c = Inl x) \<and>
    (\<forall>r\<in>set (b_rows b). \<forall>c s. eval_row env (b_fields b) r c = Inr s \<longrightarrow>
       row_keeps env cmp (b_fields b) r c = (s = bool_scalar True))"
proof
  show "case applyConditions env b conditions of
      Inr out \<Rightarrow> b_fields out = b_fields b \<and>
        b_rows out = filter (\<lambda>r. \<forall>c\<in>set conditions. row_keeps env cmp (b_fields b) r c) (b_rows b)
    | Inl x \<Rightarrow> \<exists>r\<in>set (b_rows b). \<exists>c\<in>set conditions. eval_row env (b_fields b) r c = Inl x"
    using assms(2)
  proof (induction conditions arbitrary: b)
    case (Cons c cs)
    show ?case
    proof (cases "b_rows b = []")
      case False
      show ?thesis
      proof (cases "apply_condition env b c")
        case (Inl x)
        then show ?thesis using False apply_condition_rows [OF assms(1) Cons.prems, of c] by auto
      next
        case (Inr out)
        then have o: "b_fields out = b_fields b" "b_rows out = filter (\<lambda>r. row_keeps env cmp (b_fields b) r c) (b_rows b)"
          using apply_condition_rows [OF assms(1) Cons.prems, of c] by auto
        then have "\<forall>r\<in>set (b_rows out). cells_fit env (b_fields out) r" using Cons.prems by auto
        from Cons.IH [OF this] show ?thesis using False Inr by (auto simp: o split: sum.splits)
      qed
    qed simp
  qed simp
  show "\<forall>r\<in>set (b_rows b). \<forall>c s. eval_row env (b_fields b) r c = Inr s \<longrightarrow>
      row_keeps env cmp (b_fields b) r c = (s = bool_scalar True)"
    using eval_row_agrees [OF assms(1)] assms(2) by blast
qed

text \<open>A filter on \<open>a < b\<close> and \<open>a IS NOT NULL\<close> over integers.\<close>

fun ex_cmp :: "string \<Rightarrow> ascalar \<Rightarrow> ascalar \<Rightarrow> bool" where
  "ex_cmp op (SC_Int a) (SC_Int b) = (compare_op op a b = Some True)"
| "ex_cmp op (SC_Timestamp a) (SC_Timestamp b) = (compare_op op a b = Some True)"
| "ex_cmp op (SC_Duration a) (SC_Duration b) = (compare_op op a b = Some True)"
| "ex_cmp op (SC_String a) (SC_String b) = (compare_op op a b = Some True)"
| "ex_cmp op _ _ = False"

definition ex_eval_env :: EvalEnv where
  "ex_eval_env = \<lparr>ee_gfi = \<lambda>ns c. if c = ''a'' then Some 0 else Some 1,
     ee_txt = \<lambda>c. case c of SC_String s \<Rightarrow> s | _ \<Rightarrow> [], ee_cast = \<lambda>s t. Inl [],
     ee_from_utc_local = \<lambda>t. Inr [], ee_from_utc = \<lambda>t z. Inr [],
     ee_kernel = \<lambda>op xs ys. Some (map2 (\<lambda>x y. if is_valid x \<and> is_valid y then Some (ex_cmp op x y) else None) xs ys),
     ee_status = []\<rparr>"

definition ex_cond_batch :: batch where
  "ex_cond_batch = \<lparr>b_fields = [\<lparr>fd_name = ''a'', fd_type = AT_INT64, fd_nullable = True\<rparr>,
       \<lparr>fd_name = ''b'', fd_type = AT_INT64, fd_nullable = True\<rparr>],
     b_rows = [[SC_Int 1, SC_Int 2], [SC_Int 3, SC_Int 2], [SC_Null, SC_Int 5], [SC_Int (-4), SC_Int (-3)]]\<rparr>"

definition ex_conditions :: "expr list" where
  "ex_conditions = [E_Binary ''<'' (E_Column \<lparr>qc_qualifier = None, qc_name = ''a''\<rparr>)
       (E_Column \<lparr>qc_qualifier = None, qc_name = ''b''\<rparr>),
     E_Unary ''IS NOT NULL'' (E_Column \<lparr>qc_qualifier = None, qc_name = ''a''\<rparr>)]"

theorem conditions_keep_true_rows_witness:
  "case applyConditions ex_eval_env ex_cond_batch ex_conditions of
      Inr out \<Rightarrow> b_rows out = [[SC_Int 1, SC_Int 2], [SC_Int (-4), SC_Int (-3)]]
    | Inl x \<Rightarrow> False"
proof -
  have k: "kernel_compares ex_eval_env ex_cmp" by (simp add: kernel_compares_def ex_eval_env_def)
  have fit: "\<forall>r\<in>set (b_rows ex_cond_batch). cells_fit ex_eval_env (b_fields ex_cond_batch) r"
    by (auto simp: cells_fit_def ex_eval_env_def ex_cond_batch_def split: if_splits)
  have "compared_columns ex_eval_env (b_fields ex_cond_batch) (ex_conditions ! 0) = Some (''<'', 0, 1)"
    "compared_columns ex_eval_env (b_fields ex_cond_batch) (ex_conditions ! 1) = None"
    "\<And>r. eval_row ex_eval_env (b_fields ex_cond_batch) r (ex_conditions ! 1) = Inr (bool_scalar (is_valid (r ! 0)))"
    by (simp_all add: ex_conditions_def ex_eval_env_def ex_cond_batch_def compared_columns_def column_operand_def
        field_index_def compare_names_def eval_row_def column_scalar_def eval_unary_def)
  then have keeps: "row_keeps ex_eval_env ex_cmp (b_fields ex_cond_batch) r c \<longleftrightarrow>
      (if c = ex_conditions ! 0 then is_valid (r ! 0) \<and> is_valid (r ! 1) \<and> ex_cmp ''<'' (r ! 0) (r ! 1) else is_valid (r ! 0))"
    if "c \<in> set ex_conditions" for r c
    using that by (auto simp: row_keeps_def ex_conditions_def)
  have "x \<noteq> Inl e" if "x = applyConditions ex_eval_env ex_cond_batch ex_conditions" for x e
    unfolding that by (simp add: ex_conditions_def ex_eval_env_def ex_cond_batch_def apply_condition_def vectorMask_def
        column_operand_def field_index_def compare_names_def compare_op_def)
  then obtain out where out: "applyConditions ex_eval_env ex_cond_batch ex_conditions = Inr out" by (meson sum.exhaust)
  then have "b_rows out = filter (\<lambda>r. \<forall>c\<in>set ex_conditions. row_keeps ex_eval_env ex_cmp (b_fields ex_cond_batch) r c)
      (b_rows ex_cond_batch)"
    using conditions_keep_true_rows [OF k fit, of ex_conditions] by simp
  also have "\<dots> = filter (\<lambda>r. is_valid (r ! 0) \<and> is_valid (r ! 1) \<and> ex_cmp ''<'' (r ! 0) (r ! 1)) (b_rows ex_cond_batch)"
    by (rule filter_cong [OF refl]) (auto simp: keeps, auto simp: ex_conditions_def)
  finally have "b_rows out = [[SC_Int 1, SC_Int 2], [SC_Int (-4), SC_Int (-3)]]"
    by (simp add: ex_cond_batch_def compare_op_def)
  then show ?thesis by (simp add: out)
qed

text \<open>
  \<open>DISTINCT ON\<close> keeps, of every batch, the rows whose key is new, in order: the keys are the
  evaluated expressions of each row, compared as \<open>DISTINCT\<close> compares rows, and a key once seen in the
  stream is never kept again.
\<close>

theorem distinct_on_keeps_new_keys:
  assumes "applyExpressionProjection env [b] keys
      (map (\<lambda>i. ''__distinct_on_'' @ to_string i) [0..<length keys]) = Inr [kb]"
  shows "filterOn env keys seen b =
    Inr (seen \<union> distinct_key (ee_txt env) ` set (b_rows kb),
      b\<lparr>b_rows := map snd (new_rows (\<lambda>(k, r). distinct_key (ee_txt env) k) seen (zip (b_rows kb) (b_rows b)))\<rparr>)"
proof -
  have len: "length (b_rows kb) = length (b_rows b)"
    using assms project_expressions_length [of env keys _ b kb]
    by (auto simp: applyExpressionProjection_def split: sum.splits)
  obtain seen' sel where s: "selectNewRows (ee_txt env) seen 0 (b_rows kb) = (seen', sel)" by force
  have "takeSelectedRows b sel = b\<lparr>b_rows := map ((!) (b_rows b)) sel\<rparr>"
    using selectNewRows_bounds [OF s] len by (intro takeSelectedRows_nth) auto
  then show ?thesis
    using assms s selectNewRows_bounds [OF s] selectNewRows_zip [OF s len, of "b_rows b"]
    by (simp add: filterOn_def)
qed

theorem distinct_on_keeps_new_keys_witness:
  "filterOn \<lparr>ee_gfi = \<lambda>ns c. Some 0, ee_txt = \<lambda>c. ''x'', ee_cast = \<lambda>s t. Inl [],
        ee_from_utc_local = \<lambda>t. Inr [], ee_from_utc = \<lambda>t z. Inr [], ee_kernel = \<lambda>op xs ys. None, ee_status = []\<rparr>
      [E_Column \<lparr>qc_qualifier = None, qc_name = ''a''\<rparr>] {}
      \<lparr>b_fields = [\<lparr>fd_name = ''a'', fd_type = AT_INT64, fd_nullable = True\<rparr>], b_rows = [[SC_Int 1], [SC_Int 1]]\<rparr> =
    Inr ({''V1:x''},
      \<lparr>b_fields = [\<lparr>fd_name = ''a'', fd_type = AT_INT64, fd_nullable = True\<rparr>], b_rows = [[SC_Int 1]]\<rparr>)"
  by (subst distinct_on_keeps_new_keys [where
        kb = "\<lparr>b_fields = [\<lparr>fd_name = ''__distinct_on_0'', fd_type = AT_INT64, fd_nullable = True\<rparr>],
          b_rows = [[SC_Int 1], [SC_Int 1]]\<rparr>"])
    (simp_all add: applyExpressionProjection_def project_expressions_def expression_column_def field_index_def
      named_def batch_of_columns_def to_string.simps digit_def char_of_def bit_0 distinct_key_def distinct_cell_def Let_def)

end
