(* ===== verification/Logical_Plan.thy ===== *)
theory Logical_Plan
  imports Expressions
begin

text \<open>
  Schemas, bound tables and the logical plan (\<open>include/query/plan/LogicalPlan.h\<close>,
  \<open>include/query/IQueryable.h\<close>), with the traversal of \<open>include/query/plan/PlanVisit.h\<close>.  A child
  \<open>SELECT\<close> statement of a scan is the type variable \<open>'q\<close>: the passes carry it and never look inside.
  The plan the passes build has no shared nodes, so rewriting in place is rewriting the tree.
\<close>

section \<open>Schemas and predicates\<close>

record ColumnSchema =
  cs_name :: string
  cs_type :: ColumnType
  cs_required :: bool
  cs_is_output :: bool
  cs_pushable_ops :: "PredicateOp set"
  cs_filterable_ops :: "PredicateOp set"

record PlannerPredicate =
  pp_column :: string
  pp_table_alias :: string
  pp_op :: PredicateOp
  pp_values :: "LiteralValue list"
  pp_column_type :: ColumnType
  pp_required_column :: bool
  pp_pushable_ops :: "PredicateOp set"
  pp_filterable_ops :: "PredicateOp set"

datatype PlannerPredicateGroup =
    PG_Leaf PlannerPredicate
  | PG_And "PlannerPredicateGroup list"
  | PG_Or "PlannerPredicateGroup list"
  | PG_Not "PlannerPredicateGroup list"

record 'q BoundInSubquery =
  bi_predicate :: PlannerPredicate
  bi_child :: 'q

record WindowShardSpec =
  ws_slice_ns :: int
  ws_series_per_shard :: nat

section \<open>Bound statements\<close>

record 'q BoundTable =
  bt_table_name :: string
  bt_table_alias :: string
  bt_schema :: "ColumnSchema list"
  bt_predicates :: "PlannerPredicate list"
  bt_predicate_groups :: "PlannerPredicateGroup list"
  bt_ipc_path :: string
  bt_arrow_ipc :: bool
  bt_derived_query :: "'q option"
  bt_in_subqueries :: "'q BoundInSubquery list"
  bt_window_subquery :: "'q option"
  bt_window_literal :: "(LiteralValue \<times> LiteralValue) option"
  bt_window_shards :: WindowShardSpec

datatype LogicalJoinType = LJ_INNER | LJ_LEFT_OUTER

record LogicalJoinCondition =
  jc_left_column :: string
  jc_right_column :: string

record LogicalSortKey =
  lk_column :: string
  lk_expression :: expr
  lk_descending :: bool

record PlanAggregateCall =
  pa_function :: string
  pa_argument :: expr
  pa_distinct :: bool
  pa_name :: string

record PlanAggregateSpec =
  ps_keys :: "(expr \<times> string) list"
  ps_aggregates :: "PlanAggregateCall list"
  ps_having :: expr

datatype WindowBoundKind =
  UNBOUNDED_PRECEDING | PRECEDING | CURRENT_ROW | FOLLOWING | UNBOUNDED_FOLLOWING

record WindowFrameSpec =
  wf_rows :: bool
  wf_start :: WindowBoundKind
  wf_start_offset :: int
  wf_end :: WindowBoundKind
  wf_end_offset :: int

record WindowCall =
  wc_function :: string
  wc_argument :: expr
  wc_offset :: int
  wc_default_value :: expr
  wc_frame :: WindowFrameSpec
  wc_name :: string

record WindowGroup =
  wg_partition_by :: "expr list"
  wg_order_by :: "LogicalSortKey list"
  wg_calls :: "WindowCall list"

record 'q BoundJoinClause =
  bj_type :: LogicalJoinType
  bj_table :: "'q BoundTable"
  bj_condition :: LogicalJoinCondition

record 'q BoundSelect =
  bs_from :: "'q BoundTable"
  bs_joins :: "'q BoundJoinClause list"
  bs_distinct :: bool
  bs_distinct_on :: "expr list"
  bs_aggregate :: "PlanAggregateSpec option"
  bs_windows :: "WindowGroup list"
  bs_select_all :: bool
  bs_select_columns :: "string list"
  bs_select_expressions :: "expr list"
  bs_select_names :: "string list"
  bs_order_by :: "LogicalSortKey list"
  bs_limit :: "nat option"
  bs_conditions :: "expr list"

section \<open>The logical plan\<close>

record 'q LogicalScan =
  ls_table_name :: string
  ls_table_alias :: string
  ls_schema :: "ColumnSchema list"
  ls_pushable_predicates :: "PlannerPredicate list"
  ls_projection_hint :: "string set"
  ls_ipc_path :: string
  ls_arrow_ipc :: bool
  ls_derived_query :: "'q option"
  ls_in_subqueries :: "'q BoundInSubquery list"
  ls_window_subquery :: "'q option"
  ls_window_literal :: "(LiteralValue \<times> LiteralValue) option"
  ls_window_shards :: WindowShardSpec
  ls_projection_explicit :: bool

record LogicalFilter =
  lf_predicates :: "PlannerPredicate list"
  lf_predicate_groups :: "PlannerPredicateGroup list"
  lf_conditions :: "expr list"

record LogicalProject =
  lp_select_all :: bool
  lp_columns :: "string list"
  lp_expressions :: "expr list"
  lp_names :: "string list"
  lp_distinct :: bool
  lp_distinct_on :: "expr list"

record LogicalJoin =
  lj_type :: LogicalJoinType
  lj_condition :: LogicalJoinCondition
  lj_predicates :: "PlannerPredicate list"
  lj_left_bounded :: bool
  lj_right_bounded :: bool
  lj_warnings :: "string list"

text \<open>\<open>L_Null\<close> is the null pointer, which every pass returns as it is.\<close>

datatype 'q LogicalNode =
    L_Null
  | L_Scan "'q LogicalScan"
  | L_Filter LogicalFilter "'q LogicalNode"
  | L_Project LogicalProject "'q LogicalNode"
  | L_Sort "LogicalSortKey list" "'q LogicalNode"
  | L_Limit nat "'q LogicalNode"
  | L_Join LogicalJoin "'q LogicalNode" "'q LogicalNode"
  | L_Aggregate PlanAggregateSpec "'q LogicalNode"
  | L_Window "WindowGroup list" "'q LogicalNode"

text \<open>The children, left to right.\<close>

fun children :: "'q LogicalNode \<Rightarrow> 'q LogicalNode list" where
  "children L_Null = []"
| "children (L_Scan s) = []"
| "children (L_Filter f n) = [n]"
| "children (L_Project p n) = [n]"
| "children (L_Sort ks n) = [n]"
| "children (L_Limit l n) = [n]"
| "children (L_Aggregate a n) = [n]"
| "children (L_Window w n) = [n]"
| "children (L_Join j l r) = [l, r]"

text \<open>Replacing every child by its image.\<close>

fun map_children :: "('q LogicalNode \<Rightarrow> 'q LogicalNode) \<Rightarrow> 'q LogicalNode \<Rightarrow> 'q LogicalNode" where
  "map_children f L_Null = L_Null"
| "map_children f (L_Scan s) = L_Scan s"
| "map_children f (L_Filter x n) = L_Filter x (f n)"
| "map_children f (L_Project p n) = L_Project p (f n)"
| "map_children f (L_Sort ks n) = L_Sort ks (f n)"
| "map_children f (L_Limit l n) = L_Limit l (f n)"
| "map_children f (L_Aggregate a n) = L_Aggregate a (f n)"
| "map_children f (L_Window w n) = L_Window w (f n)"
| "map_children f (L_Join j l r) = L_Join j (f l) (f r)"

lemma map_children_cong [fundef_cong]:
  "n = m \<Longrightarrow> (\<And>c. c \<in> set (children m) \<Longrightarrow> f c = g c) \<Longrightarrow> map_children f n = map_children g m"
  by (cases m) auto

lemma children_size: "c \<in> set (children n) \<Longrightarrow> size c < size n"
  by (cases n) auto

text \<open>The scans of a plan, left to right.\<close>

fun plan_scans :: "'q LogicalNode \<Rightarrow> 'q LogicalScan list" where
  "plan_scans L_Null = []"
| "plan_scans (L_Scan s) = [s]"
| "plan_scans (L_Filter f n) = plan_scans n"
| "plan_scans (L_Project p n) = plan_scans n"
| "plan_scans (L_Sort ks n) = plan_scans n"
| "plan_scans (L_Limit l n) = plan_scans n"
| "plan_scans (L_Aggregate a n) = plan_scans n"
| "plan_scans (L_Window w n) = plan_scans n"
| "plan_scans (L_Join j l r) = plan_scans l @ plan_scans r"

end
