(* ===== verification/Binding.thy ===== *)
theory Binding
  imports Logical_Plan
begin

text \<open>
  Binding of expressions: the registry of functions and operators
  (\<open>src/query/ExpressionRegistry.cpp\<close>), the resolution of column references, and the type checker
  \<open>bindExpression\<close> (\<open>src/query/planner/Binder.cpp\<close>), which also rewrites column names to the names the
  batches carry.  The last section relates the checker to the evaluator.
\<close>

section \<open>The registry\<close>

datatype CallableKind = FUNCTION | BINARY_OPERATOR | UNARY_OPERATOR | AGGREGATE | WINDOW

record Callable =
  ca_name :: string
  ca_kind :: CallableKind
  ca_arguments :: "ColumnType list"
  ca_returns :: ColumnType
  ca_variadic :: bool

definition normalized :: "string \<Rightarrow> string" where
  "normalized s = map tolower s"

definition accepts_args :: "Callable \<Rightarrow> ColumnType list \<Rightarrow> bool" where
  "accepts_args c args =
     (if \<not> ca_variadic c then ca_arguments c = args
      else length args \<ge> 2 \<and> (\<forall>t\<in>set args. t = hd (ca_arguments c)))"

definition inferReturnType :: "Callable \<Rightarrow> ColumnType list \<Rightarrow> exn + ColumnType" where
  "inferReturnType c args =
     (if \<not> accepts_args c args then Inl (PlannerTypeError (ca_name c @ '' has no matching overload''))
      else Inr (ca_returns c))"

definition registerCallable :: "Callable list \<Rightarrow> Callable \<Rightarrow> exn + Callable list" where
  "registerCallable callables d =
     (if ca_arguments d = [] then Inl (LogicError ''Expression callable must have at least one argument'')
      else if \<exists>other\<in>set callables. normalized (ca_name other) = normalized (ca_name d) \<and>
          ca_kind other = ca_kind d \<and> ca_arguments other = ca_arguments d
        then Inl (LogicError (''Duplicate expression callable: '' @ ca_name d))
      else Inr (callables @ [d]))"

abbreviation fixed :: "string \<Rightarrow> CallableKind \<Rightarrow> ColumnType list \<Rightarrow> ColumnType \<Rightarrow> Callable" where
  "fixed n k args r \<equiv> \<lparr>ca_name = n, ca_kind = k, ca_arguments = args, ca_returns = r, ca_variadic = False\<rparr>"

definition scalar_types :: "ColumnType list" where
  "scalar_types = [CT_STRING, CT_INT, CT_TIMESTAMP, CT_DURATION_SECONDS, CT_BOOL]"

definition function_callables :: "Callable list" where
  "function_callables =
     [fixed ''to_utc'' FUNCTION [CT_STRING] CT_TIMESTAMP,
      fixed ''to_utc'' FUNCTION [CT_STRING, CT_STRING] CT_TIMESTAMP,
      fixed ''from_utc'' FUNCTION [CT_TIMESTAMP] CT_STRING,
      fixed ''from_utc'' FUNCTION [CT_TIMESTAMP, CT_STRING] CT_STRING] @
     map (\<lambda>t. \<lparr>ca_name = ''coalesce'', ca_kind = FUNCTION, ca_arguments = [t], ca_returns = t, ca_variadic = True\<rparr>)
       scalar_types"

definition arithmetic_callables :: "Callable list" where
  "arithmetic_callables =
     [fixed ''+'' BINARY_OPERATOR [CT_INT, CT_INT] CT_INT,
      fixed ''+'' BINARY_OPERATOR [CT_TIMESTAMP, CT_DURATION_SECONDS] CT_TIMESTAMP,
      fixed ''-'' BINARY_OPERATOR [CT_INT, CT_INT] CT_INT,
      fixed ''-'' BINARY_OPERATOR [CT_TIMESTAMP, CT_TIMESTAMP] CT_DURATION_SECONDS,
      fixed ''-'' BINARY_OPERATOR [CT_TIMESTAMP, CT_DURATION_SECONDS] CT_TIMESTAMP,
      fixed ''*'' BINARY_OPERATOR [CT_INT, CT_INT] CT_INT,
      fixed ''/'' BINARY_OPERATOR [CT_INT, CT_INT] CT_INT]"

definition typed_callables :: "ColumnType \<Rightarrow> Callable list" where
  "typed_callables t =
     [fixed ''IS NULL'' UNARY_OPERATOR [t] CT_BOOL, fixed ''IS NOT NULL'' UNARY_OPERATOR [t] CT_BOOL,
      fixed ''='' BINARY_OPERATOR [t, t] CT_BOOL, fixed ''!='' BINARY_OPERATOR [t, t] CT_BOOL,
      fixed ''<'' BINARY_OPERATOR [t, t] CT_BOOL, fixed ''<='' BINARY_OPERATOR [t, t] CT_BOOL,
      fixed ''>'' BINARY_OPERATOR [t, t] CT_BOOL, fixed ''>='' BINARY_OPERATOR [t, t] CT_BOOL]"

definition logical_callables :: "Callable list" where
  "logical_callables =
     [fixed ''AND'' BINARY_OPERATOR [CT_BOOL, CT_BOOL] CT_BOOL, fixed ''OR'' BINARY_OPERATOR [CT_BOOL, CT_BOOL] CT_BOOL,
      fixed ''NOT'' UNARY_OPERATOR [CT_BOOL] CT_BOOL, fixed ''+'' UNARY_OPERATOR [CT_INT] CT_INT,
      fixed ''-'' UNARY_OPERATOR [CT_INT] CT_INT]"

text \<open>What the constructor registers, in its order.\<close>

definition builtin_callables :: "Callable list" where
  "builtin_callables =
     function_callables @ arithmetic_callables @ concat (map typed_callables scalar_types) @ logical_callables"

text \<open>The loop of \<open>resolveOperator\<close>: the last match is remembered, a second one is an error.\<close>

fun resolve_loop ::
  "string \<Rightarrow> CallableKind \<Rightarrow> ColumnType list \<Rightarrow> Callable option \<Rightarrow> Callable list \<Rightarrow> exn + Callable" where
  "resolve_loop name kind args found [] =
     (case found of None \<Rightarrow> Inl (PlannerTypeError (name @ '' has no matching overload'')) | Some c \<Rightarrow> Inr c)"
| "resolve_loop name kind args found (c # cs) =
     (if ca_kind c = kind \<and> normalized (ca_name c) = normalized name \<and> accepts_args c args then
        (if found \<noteq> None then Inl (LogicError (''Ambiguous expression callable: '' @ name))
         else resolve_loop name kind args (Some c) cs)
      else resolve_loop name kind args found cs)"

definition resolveOperator :: "string \<Rightarrow> CallableKind \<Rightarrow> ColumnType list \<Rightarrow> exn + Callable" where
  "resolveOperator name kind args =
     (case foldE registerCallable [] builtin_callables of
        Inl e \<Rightarrow> Inl e
      | Inr callables \<Rightarrow> resolve_loop name kind args None callables)"

text \<open>Resolution and the return type, as the binder calls them.\<close>

definition call_type :: "string \<Rightarrow> CallableKind \<Rightarrow> ColumnType list \<Rightarrow> exn + ColumnType" where
  "call_type name kind args =
     (case resolveOperator name kind args of Inl e \<Rightarrow> Inl e | Inr c \<Rightarrow> inferReturnType c args)"

section \<open>Column references\<close>

definition findColumnSchema :: "ColumnSchema list \<Rightarrow> string \<Rightarrow> ColumnSchema option" where
  "findColumnSchema schema name = find (\<lambda>c. cs_name c = name) schema"

definition qualify :: "string \<Rightarrow> string \<Rightarrow> string" where
  "qualify alias_name name = alias_name @ CHR ''.'' # name"

text \<open>The empty string is "not on this table".\<close>

definition resolveColumnOnTable :: "QualifiedColumn \<Rightarrow> 'q BoundTable \<Rightarrow> string" where
  "resolveColumnOnTable column table =
     (if (case qc_qualifier column of None \<Rightarrow> False
          | Some q \<Rightarrow> q \<noteq> bt_table_alias table \<and> q \<noteq> bt_table_name table) then []
      else if findColumnSchema (bt_schema table) (qc_name column) \<noteq> None then qc_name column
      else if prefix ''attributes.'' (qc_name column) \<and> findColumnSchema (bt_schema table) ''attributes'' \<noteq> None
        then qc_name column
      else if prefix ''provenance.'' (qc_name column) \<and> findColumnSchema (bt_schema table) ''provenance'' \<noteq> None
        then qc_name column
      else [])"

fun listAliases :: "'q BoundTable list \<Rightarrow> string" where
  "listAliases [] = []"
| "listAliases [t] = quoted (bt_table_alias t)"
| "listAliases (t # ts) = quoted (bt_table_alias t) @ '', '' @ listAliases ts"

definition resolveColumnReference :: "QualifiedColumn \<Rightarrow> 'q BoundTable list \<Rightarrow> exn + string \<times> string" where
  "resolveColumnReference column tables =
     (case filter (\<lambda>t. resolveColumnOnTable column t \<noteq> []) tables of
        [] \<Rightarrow> (case qc_qualifier column of
                Some q \<Rightarrow> Inl (PlannerBindError (''Unknown column '' @ quoted (q @ CHR ''.'' # qc_name column)))
              | None \<Rightarrow> Inl (PlannerBindError (''Unknown column '' @ quoted (qc_name column))))
      | [t] \<Rightarrow> Inr (bt_table_alias t, resolveColumnOnTable column t)
      | _ \<Rightarrow> Inl (PlannerBindError (''Ambiguous column '' @ quoted (qc_name column) @
                  ''. Qualify it with one of: '' @ listAliases tables)))"

section \<open>Typing and binding\<close>

definition bind_column :: "'q BoundTable list \<Rightarrow> bool \<Rightarrow> QualifiedColumn \<Rightarrow> exn + ColumnType \<times> QualifiedColumn" where
  "bind_column tables multi_table column =
     (case resolveColumnReference column tables of
        Inl x \<Rightarrow> Inl x
      | Inr (alias_name, name) \<Rightarrow>
          (case find (\<lambda>t. bt_table_alias t = alias_name) tables of
             None \<Rightarrow> Inl UndefinedBehaviour
           | Some table \<Rightarrow>
               (case findColumnSchema (bt_schema table) name of
                  None \<Rightarrow>
                    if \<not> prefix ''attributes.'' name \<and> \<not> prefix ''provenance.'' name
                    then Inl (PlannerBindError (''Unknown column '' @ quoted name))
                    else Inr (CT_STRING, \<lparr>qc_qualifier = None,
                           qc_name = (if multi_table then qualify alias_name name else name)\<rparr>)
                | Some c \<Rightarrow>
                    Inr (cs_type c, \<lparr>qc_qualifier = None,
                      qc_name = (if multi_table \<and> alias_name \<noteq> [] then qualify alias_name name else name)\<rparr>))))"

fun literal_type :: "LiteralValue \<Rightarrow> ColumnType" where
  "literal_type (LV (Lit_String s)) = CT_STRING"
| "literal_type (LV (Lit_Int i)) = CT_INT"
| "literal_type (LV (Lit_Bool b)) = CT_BOOL"
| "literal_type (LV (Lit_Timestamp t)) = CT_TIMESTAMP"
| "literal_type (LV_Now n) = CT_TIMESTAMP"
| "literal_type (LV (Lit_Duration t)) = CT_DURATION_SECONDS"
| "literal_type (LV (Lit_Double d)) = CT_INT"

definition windowNotAllowed :: exn where
  "windowNotAllowed = PlannerBindError
     ''Window functions are allowed only in the select list and ORDER BY; filter on a window result through a derived table''"

fun bindExpression :: "'q BoundTable list \<Rightarrow> bool \<Rightarrow> expr \<Rightarrow> exn + ColumnType \<times> expr" where
  "bindExpression tables multi E_Missing = Inl (PlannerBindError ''Missing expression'')"
| "bindExpression tables multi (E_Column c) =
     (case bind_column tables multi c of Inl x \<Rightarrow> Inl x | Inr (t, c') \<Rightarrow> Inr (t, E_Column c'))"
| "bindExpression tables multi (E_Literal v) = Inr (literal_type v, E_Literal v)"
| "bindExpression tables multi (E_Call name over args) =
     (if over then Inl windowNotAllowed
      else case mapE (bindExpression tables multi) args of
        Inl x \<Rightarrow> Inl x
      | Inr bound \<Rightarrow>
          (case call_type name FUNCTION (map fst bound) of
             Inl x \<Rightarrow> Inl x
           | Inr t \<Rightarrow> Inr (t, E_Call name over (map snd bound))))"
| "bindExpression tables multi (E_Unary op e) =
     (case bindExpression tables multi e of Inl x \<Rightarrow> Inl x | Inr (t, e') \<Rightarrow>
     (case call_type op UNARY_OPERATOR [t] of Inl x \<Rightarrow> Inl x | Inr u \<Rightarrow> Inr (u, E_Unary op e')))"
| "bindExpression tables multi (E_Binary op l r) =
     (case bindExpression tables multi l of Inl x \<Rightarrow> Inl x | Inr (t, l') \<Rightarrow>
     (case bindExpression tables multi r of Inl x \<Rightarrow> Inl x | Inr (u, r') \<Rightarrow>
     (case call_type op BINARY_OPERATOR [t, u] of Inl x \<Rightarrow> Inl x | Inr v \<Rightarrow> Inr (v, E_Binary op l' r'))))"

section \<open>Facts about the registry\<close>

text \<open>Two callables that some call could both match.\<close>

definition same_arguments :: "Callable \<Rightarrow> Callable \<Rightarrow> bool" where
  "same_arguments c d = (ca_kind c = ca_kind d \<and>
     (if ca_variadic c \<or> ca_variadic d
      then \<not> ca_variadic c \<or> \<not> ca_variadic d \<or> hd (ca_arguments c) = hd (ca_arguments d)
      else ca_arguments c = ca_arguments d))"

definition overlap :: "Callable \<Rightarrow> Callable \<Rightarrow> bool" where
  "overlap c d = (if same_arguments c d then normalized (ca_name c) = normalized (ca_name d) else False)"

lemma overlap_if_both_accept:
  "ca_kind c = ca_kind d \<Longrightarrow> normalized (ca_name c) = normalized (ca_name d) \<Longrightarrow>
     accepts_args c args \<Longrightarrow> accepts_args d args \<Longrightarrow> overlap c d"
  by (cases args) (auto simp: overlap_def same_arguments_def accepts_args_def split: if_splits)

lemma overlap_if_duplicate:
  "ca_kind c = ca_kind d \<Longrightarrow> normalized (ca_name c) = normalized (ca_name d) \<Longrightarrow>
     ca_arguments c = ca_arguments d \<Longrightarrow> overlap c d"
  by (simp add: overlap_def same_arguments_def)

lemma normalized_names [simp]:
  "normalized ''to_utc'' = ''to_utc''" "normalized ''from_utc'' = ''from_utc''" "normalized ''coalesce'' = ''coalesce''"
  "normalized ''+'' = ''+''" "normalized ''-'' = ''-''" "normalized ''*'' = ''*''" "normalized ''/'' = ''/''"
  "normalized ''='' = ''=''" "normalized ''!='' = ''!=''" "normalized ''<'' = ''<''" "normalized ''<='' = ''<=''"
  "normalized ''>'' = ''>''" "normalized ''>='' = ''>=''" "normalized ''AND'' = ''and''" "normalized ''OR'' = ''or''"
  "normalized ''NOT'' = ''not''" "normalized ''IS NULL'' = ''is null''" "normalized ''IS NOT NULL'' = ''is not null''"
  by code_simp+

lemma no_overlap_groups:
  "sorted_wrt (\<lambda>c d. \<not> overlap c d) function_callables"
  "sorted_wrt (\<lambda>c d. \<not> overlap c d) arithmetic_callables"
  "sorted_wrt (\<lambda>c d. \<not> overlap c d) logical_callables"
  by (simp_all add: function_callables_def scalar_types_def arithmetic_callables_def logical_callables_def
      overlap_def same_arguments_def)

lemma no_overlap_arithmetic_logical: "\<forall>c\<in>set arithmetic_callables. \<forall>d\<in>set logical_callables. \<not> overlap c d"
  by (simp add: arithmetic_callables_def logical_callables_def overlap_def same_arguments_def)

lemma callable_kinds:
  "\<forall>c\<in>set function_callables. ca_kind c = FUNCTION" "\<forall>c\<in>set arithmetic_callables. ca_kind c = BINARY_OPERATOR"
  "\<forall>c\<in>set logical_callables. ca_kind c \<noteq> FUNCTION" "\<forall>c\<in>set (typed_callables t). ca_kind c \<noteq> FUNCTION"
  by (simp_all add: function_callables_def scalar_types_def arithmetic_callables_def logical_callables_def typed_callables_def)

text \<open>The names of the typed operators, in the order of \<open>typed_callables\<close>.\<close>

definition typed_names :: "string list" where
  "typed_names = [''is null'', ''is not null'', ''='', ''!='', ''<'', ''<='', ''>'', ''>='']"

lemma typed_callables_names: "map (\<lambda>c. normalized (ca_name c)) (typed_callables t) = typed_names"
  by (simp add: typed_callables_def typed_names_def)

lemma typed_callables_arguments: "c \<in> set (typed_callables t) \<Longrightarrow> \<not> ca_variadic c \<and> hd (ca_arguments c) = t"
  by (auto simp: typed_callables_def)

lemma no_overlap_names:
  "\<forall>c\<in>set arithmetic_callables. normalized (ca_name c) \<notin> set typed_names"
  "\<forall>c\<in>set logical_callables. normalized (ca_name c) \<notin> set typed_names"
  by (simp_all add: arithmetic_callables_def logical_callables_def typed_names_def)

lemma overlap_names: "overlap c d \<Longrightarrow> normalized (ca_name c) = normalized (ca_name d)"
  by (simp add: overlap_def split: if_splits)

lemma overlap_kinds: "overlap c d \<Longrightarrow> ca_kind c = ca_kind d"
  by (simp add: overlap_def same_arguments_def split: if_splits)

lemma typed_name: "c \<in> set (typed_callables t) \<Longrightarrow> normalized (ca_name c) \<in> set typed_names"
  by (metis typed_callables_names image_eqI set_map)

lemma no_overlap_typed:
  assumes "distinct ts"
  shows "sorted_wrt (\<lambda>c d. \<not> overlap c d) (concat (map typed_callables ts))"
  using assms
proof (induction ts)
  case (Cons t ts)
  have own: "sorted_wrt (\<lambda>c d. \<not> overlap c d) (typed_callables t)"
    by (simp add: typed_callables_def overlap_def same_arguments_def)
  have "\<not> overlap c d" if "c \<in> set (typed_callables t)" "d \<in> set (typed_callables u)" "u \<in> set ts" for c d u
    using typed_callables_arguments [OF that(1)] typed_callables_arguments [OF that(2)] that(3) Cons.prems
    by (auto simp: overlap_def same_arguments_def)
  then show ?case using own Cons by (auto simp: sorted_wrt_append)
qed simp

lemma no_overlap: "sorted_wrt (\<lambda>c d. \<not> overlap c d) builtin_callables"
proof -
  let ?typed = "concat (map typed_callables scalar_types)"
  have typed: "sorted_wrt (\<lambda>c d. \<not> overlap c d) ?typed"
    by (rule no_overlap_typed) (simp add: scalar_types_def)
  have names: "normalized (ca_name d) \<in> set typed_names" if "d \<in> set ?typed" for d
    using that typed_name by auto
  have kinds: "ca_kind d \<noteq> FUNCTION" if "d \<in> set (arithmetic_callables @ ?typed @ logical_callables)" for d
    using that callable_kinds by fastforce
  have "\<not> overlap c d" if "c \<in> set function_callables" "d \<in> set (arithmetic_callables @ ?typed @ logical_callables)" for c d
    using overlap_kinds [of c d] kinds [OF that(2)] callable_kinds(1) that(1) by metis
  moreover have "\<not> overlap c d" if "c \<in> set arithmetic_callables" "d \<in> set (?typed @ logical_callables)" for c d
    using overlap_names [of c d] names [of d] no_overlap_names(1) no_overlap_arithmetic_logical that
    by (metis Un_iff set_append)
  moreover have "\<not> overlap c d" if "c \<in> set ?typed" "d \<in> set logical_callables" for c d
    using overlap_names [of c d] names [OF that(1)] no_overlap_names(2) that(2) by metis
  ultimately show ?thesis
    unfolding builtin_callables_def using typed no_overlap_groups by (simp only: sorted_wrt_append) blast
qed

lemma register_all:
  "sorted_wrt (\<lambda>c d. \<not> overlap c d) (acc @ ds) \<Longrightarrow> \<forall>d\<in>set ds. ca_arguments d \<noteq> [] \<Longrightarrow>
     foldE registerCallable acc ds = Inr (acc @ ds)"
proof (induction ds arbitrary: acc)
  case (Cons d ds)
  have "\<not> (normalized (ca_name c) = normalized (ca_name d) \<and> ca_kind c = ca_kind d \<and> ca_arguments c = ca_arguments d)"
    if "c \<in> set acc" for c
    using overlap_if_duplicate [of c d] Cons.prems(1) that by (auto simp: sorted_wrt_append)
  then have "registerCallable acc d = Inr (acc @ [d])"
    using Cons.prems(2) by (auto simp: registerCallable_def)
  then show ?case using Cons.IH [of "acc @ [d]"] Cons.prems by simp
qed simp

lemma builtin_arguments: "\<forall>d\<in>set builtin_callables. ca_arguments d \<noteq> []"
  by (simp add: builtin_callables_def function_callables_def arithmetic_callables_def logical_callables_def
      typed_callables_def scalar_types_def)

lemma registry_built: "foldE registerCallable [] builtin_callables = Inr builtin_callables"
  using register_all [of "[]" builtin_callables] no_overlap builtin_arguments by simp

definition matching :: "string \<Rightarrow> CallableKind \<Rightarrow> ColumnType list \<Rightarrow> Callable \<Rightarrow> bool" where
  "matching name kind args c = (ca_kind c = kind \<and> normalized (ca_name c) = normalized name \<and> accepts_args c args)"

lemma resolve_loop_find:
  assumes "sorted_wrt (\<lambda>c d. \<not> overlap c d) cs"
    and "found \<noteq> None \<Longrightarrow> \<forall>c\<in>set cs. \<not> matching name kind args c"
  shows "resolve_loop name kind args found cs =
    (case found of Some c \<Rightarrow> Inr c
     | None \<Rightarrow> (case find (matching name kind args) cs of
         None \<Rightarrow> Inl (PlannerTypeError (name @ '' has no matching overload'')) | Some c \<Rightarrow> Inr c))"
  using assms
proof (induction cs arbitrary: found)
  case Nil
  then show ?case by (simp split: option.splits)
next
  case (Cons c cs)
  show ?case
  proof (cases "matching name kind args c")
    case True
    then have f: "found = None" using Cons.prems(2) by force
    have "\<not> matching name kind args d" if "d \<in> set cs" for d
      using that Cons.prems(1) True overlap_if_both_accept [of c d args] by (auto simp: matching_def)
    then show ?thesis using True Cons f by (simp add: matching_def)
  next
    case False
    then have "resolve_loop name kind args found (c # cs) = resolve_loop name kind args found cs"
      by (auto simp: matching_def)
    moreover have "resolve_loop name kind args found cs =
      (case found of Some c \<Rightarrow> Inr c
       | None \<Rightarrow> (case find (matching name kind args) cs of
           None \<Rightarrow> Inl (PlannerTypeError (name @ '' has no matching overload'')) | Some c \<Rightarrow> Inr c))"
      by (rule Cons.IH) (use Cons.prems in auto)
    moreover have "find (matching name kind args) (c # cs) = find (matching name kind args) cs"
      using False by simp
    ultimately show ?thesis by (simp only:)
  qed
qed

lemma resolveOperator_find:
  "resolveOperator name kind args =
     (case find (matching name kind args) builtin_callables of
        None \<Rightarrow> Inl (PlannerTypeError (name @ '' has no matching overload'')) | Some c \<Rightarrow> Inr c)"
  using resolve_loop_find [OF no_overlap, of None name kind args]
  by (simp add: resolveOperator_def registry_built)

lemma call_type_callable:
  assumes "call_type name kind args = Inr t"
  shows "\<exists>c\<in>set builtin_callables. matching name kind args c \<and> ca_returns c = t"
  using assms
  by (auto simp: call_type_def resolveOperator_find inferReturnType_def find_Some_iff
      split: option.splits if_splits dest: nth_mem)

lemma call_type_error:
  "call_type name kind args = Inl x \<Longrightarrow> x = PlannerTypeError (name @ '' has no matching overload'')"
  by (auto simp: call_type_def resolveOperator_find inferReturnType_def find_Some_iff matching_def
      split: option.splits if_splits)

text \<open>What the operators of the registry take and give.\<close>

definition comparison_names :: "string list" where
  "comparison_names = [''='', ''!='', ''<'', ''<='', ''>'', ''>='']"

definition binary_table :: "(string \<times> ColumnType \<times> ColumnType \<times> ColumnType) set" where
  "binary_table = {(n, t, u, v).
     if n = ''+'' then (t, u, v) = (CT_INT, CT_INT, CT_INT) \<or> (t, u, v) = (CT_TIMESTAMP, CT_DURATION_SECONDS, CT_TIMESTAMP)
     else if n = ''-'' then (t, u, v) = (CT_INT, CT_INT, CT_INT) \<or>
       (t, u, v) = (CT_TIMESTAMP, CT_TIMESTAMP, CT_DURATION_SECONDS) \<or>
       (t, u, v) = (CT_TIMESTAMP, CT_DURATION_SECONDS, CT_TIMESTAMP)
     else if n = ''*'' then (t, u, v) = (CT_INT, CT_INT, CT_INT)
     else if n = ''/'' then (t, u, v) = (CT_INT, CT_INT, CT_INT)
     else if n = ''and'' then (t, u, v) = (CT_BOOL, CT_BOOL, CT_BOOL)
     else if n = ''or'' then (t, u, v) = (CT_BOOL, CT_BOOL, CT_BOOL)
     else n \<in> set comparison_names \<and> u = t \<and> v = CT_BOOL \<and> t \<in> set scalar_types}"

definition unary_table :: "(string \<times> ColumnType \<times> ColumnType) set" where
  "unary_table = {(n, t, u).
     if n = ''not'' then (t, u) = (CT_BOOL, CT_BOOL)
     else if n = ''+'' then (t, u) = (CT_INT, CT_INT)
     else if n = ''-'' then (t, u) = (CT_INT, CT_INT)
     else (n = ''is null'' \<or> n = ''is not null'') \<and> u = CT_BOOL \<and> t \<in> set scalar_types}"

lemma builtin_cases:
  "c \<in> set builtin_callables \<longleftrightarrow> c \<in> set function_callables \<or> c \<in> set arithmetic_callables \<or>
     (\<exists>t\<in>set scalar_types. c \<in> set (typed_callables t)) \<or> c \<in> set logical_callables"
  by (auto simp: builtin_callables_def)

lemma binary_entries:
  "\<forall>c\<in>set arithmetic_callables. (normalized (ca_name c), ca_arguments c ! 0, ca_arguments c ! 1, ca_returns c) \<in> binary_table"
  "\<forall>c\<in>set logical_callables. ca_kind c = BINARY_OPERATOR \<longrightarrow>
     (normalized (ca_name c), ca_arguments c ! 0, ca_arguments c ! 1, ca_returns c) \<in> binary_table"
  "s \<in> set scalar_types \<Longrightarrow> \<forall>c\<in>set (typed_callables s). ca_kind c = BINARY_OPERATOR \<longrightarrow>
     (normalized (ca_name c), ca_arguments c ! 0, ca_arguments c ! 1, ca_returns c) \<in> binary_table"
  by (simp_all add: arithmetic_callables_def logical_callables_def typed_callables_def binary_table_def comparison_names_def)

lemma unary_entries:
  "\<forall>c\<in>set logical_callables. ca_kind c = UNARY_OPERATOR \<longrightarrow>
     (normalized (ca_name c), ca_arguments c ! 0, ca_returns c) \<in> unary_table"
  "s \<in> set scalar_types \<Longrightarrow> \<forall>c\<in>set (typed_callables s). ca_kind c = UNARY_OPERATOR \<longrightarrow>
     (normalized (ca_name c), ca_arguments c ! 0, ca_returns c) \<in> unary_table"
  by (simp_all add: logical_callables_def typed_callables_def unary_table_def)

lemma operators_not_variadic:
  "\<forall>c\<in>set arithmetic_callables. \<not> ca_variadic c" "\<forall>c\<in>set logical_callables. \<not> ca_variadic c"
  "\<forall>c\<in>set (typed_callables s). \<not> ca_variadic c"
  by (simp_all add: arithmetic_callables_def logical_callables_def typed_callables_def)

lemma operator_arguments:
  assumes "c \<in> set builtin_callables" and "ca_kind c \<noteq> FUNCTION" and "accepts_args c args"
  shows "ca_arguments c = args"
  using assms callable_kinds(1) operators_not_variadic by (auto simp: builtin_cases accepts_args_def)

lemma binary_callable:
  assumes "c \<in> set builtin_callables" and "matching name BINARY_OPERATOR [t, u] c"
  shows "(normalized name, t, u, ca_returns c) \<in> binary_table"
proof -
  have m: "ca_kind c = BINARY_OPERATOR" "normalized (ca_name c) = normalized name" "accepts_args c [t, u]"
    using assms(2) by (auto simp: matching_def)
  have "ca_arguments c = [t, u]" using operator_arguments [OF assms(1) _ m(3)] m(1) by simp
  moreover have "(normalized (ca_name c), ca_arguments c ! 0, ca_arguments c ! 1, ca_returns c) \<in> binary_table"
    using assms(1) m(1) callable_kinds(1) binary_entries unfolding builtin_cases by fastforce
  ultimately show ?thesis using m(2) by simp
qed

lemma unary_callable:
  assumes "c \<in> set builtin_callables" and "matching name UNARY_OPERATOR [t] c"
  shows "(normalized name, t, ca_returns c) \<in> unary_table"
proof -
  have m: "ca_kind c = UNARY_OPERATOR" "normalized (ca_name c) = normalized name" "accepts_args c [t]"
    using assms(2) by (auto simp: matching_def)
  have "ca_arguments c = [t]" using operator_arguments [OF assms(1) _ m(3)] m(1) by simp
  moreover have "(normalized (ca_name c), ca_arguments c ! 0, ca_returns c) \<in> unary_table"
    using assms(1) m(1) callable_kinds(1,2) unary_entries unfolding builtin_cases by fastforce
  ultimately show ?thesis using m(2) by simp
qed

lemma binary_call: "call_type name BINARY_OPERATOR [t, u] = Inr v \<Longrightarrow> (normalized name, t, u, v) \<in> binary_table"
  using call_type_callable binary_callable by blast

lemma unary_call: "call_type name UNARY_OPERATOR [t] = Inr v \<Longrightarrow> (normalized name, t, v) \<in> unary_table"
  using call_type_callable unary_callable by blast

lemma function_entries:
  "\<forall>c\<in>set function_callables. accepts_args c ts \<longrightarrow>
     (normalized (ca_name c) = ''to_utc'' \<and> ca_returns c = CT_TIMESTAMP) \<or>
     (normalized (ca_name c) = ''from_utc'' \<and> ca_returns c = CT_STRING \<and> (ts = [CT_TIMESTAMP] \<or> ts = [CT_TIMESTAMP, CT_STRING])) \<or>
     (normalized (ca_name c) = ''coalesce'' \<and> length ts \<ge> 2 \<and> (\<forall>t\<in>set ts. t = ca_returns c))"
  by (simp add: function_callables_def scalar_types_def accepts_args_def eq_commute)

lemma function_call:
  assumes "call_type name FUNCTION ts = Inr v"
  shows "(normalized name = ''to_utc'' \<and> v = CT_TIMESTAMP) \<or>
    (normalized name = ''from_utc'' \<and> v = CT_STRING \<and> (ts = [CT_TIMESTAMP] \<or> ts = [CT_TIMESTAMP, CT_STRING])) \<or>
    (normalized name = ''coalesce'' \<and> length ts \<ge> 2 \<and> (\<forall>t\<in>set ts. t = v))"
proof -
  obtain c where c: "c \<in> set builtin_callables" "matching name FUNCTION ts c" "ca_returns c = v"
    using call_type_callable [OF assms] by blast
  have f: "c \<in> set function_callables"
    using c(1,2) builtin_cases [of c] callable_kinds by (auto simp: matching_def)
  have m: "normalized name = normalized (ca_name c)" "accepts_args c ts" using c(2) by (simp_all add: matching_def)
  show ?thesis using function_entries [rule_format, OF f m(2)] unfolding m(1) [symmetric] c(3) .
qed

end
