(* ===== verification/Expression_Safety.thy ===== *)
theory Expression_Safety
  imports Binding
begin

text \<open>
  The type checker of \<open>src/query/planner/Binder.cpp\<close> against the evaluator of
  \<open>src/query/executor/ExecutorUtils.cpp\<close>: what the binder accepts, the evaluator computes without an
  invalid cast, with a value of the type the binder gave; and the expressions that the binder accepts
  and the evaluator refuses.
\<close>

section \<open>Values of a type\<close>

fun conforms :: "ColumnType \<Rightarrow> scalar \<Rightarrow> bool" where
  "conforms CT_STRING (AT_STRING, v) = (v = SC_Null \<or> (\<exists>s. v = SC_String s))"
| "conforms CT_BOOL (AT_BOOL, v) = (v = SC_Null \<or> (\<exists>b. v = SC_Bool b))"
| "conforms CT_INT (AT_INT64, v) = (v = SC_Null \<or> (\<exists>i. v = SC_Int i))"
| "conforms CT_TIMESTAMP (AT_TIMESTAMP u, v) = (v = SC_Null \<or> (\<exists>t. v = SC_Timestamp t))"
| "conforms CT_DURATION_SECONDS (AT_DURATION u, v) = (v = SC_Null \<or> (\<exists>t. v = SC_Duration t))"
| "conforms _ _ = False"

text \<open>
  A result of a type: a value of the type, or a NULL of the type or of no type.  Columns of native values
  may hold anything; no operator or function takes them.
\<close>

definition result_of :: "ColumnType \<Rightarrow> scalar \<Rightarrow> bool" where
  "result_of t s = (t \<in> set scalar_types \<longrightarrow> conforms t s \<or> s = null_scalar)"

text \<open>The failures that depend on the data: overflow, division by zero, and those of the parameters.\<close>

definition data_failure :: "EvalEnv \<Rightarrow> exn \<Rightarrow> bool" where
  "data_failure env x =
     (x = SignedOverflow \<or> x = RuntimeError ''/ divide by zero'' \<or>
      (\<exists>s t status. ee_cast env s t = Inl status \<and> x = RuntimeError (''coalesce: '' @ status)) \<or>
      (\<exists>t. ee_from_utc_local env t = Inl x) \<or> (\<exists>t z. ee_from_utc env t z = Inl x))"

text \<open>A cast that works gives a value of the type asked for.\<close>

definition cast_sound :: "EvalEnv \<Rightarrow> bool" where
  "cast_sound env = (\<forall>s f c t. ee_cast env s (fst f) = Inr c \<longrightarrow> conforms t f \<longrightarrow> conforms t c)"

text \<open>
  The row has, for every column that the expression mentions and the binder resolves, a cell of the
  type of the column; what the other columns of the tables hold, and whether the batch has them, is open.
\<close>

fun expr_columns :: "expr \<Rightarrow> QualifiedColumn set" where
  "expr_columns E_Missing = {}"
| "expr_columns (E_Literal v) = {}"
| "expr_columns (E_Column c) = {c}"
| "expr_columns (E_Call name over args) = (\<Union>a\<in>set args. expr_columns a)"
| "expr_columns (E_Unary op e) = expr_columns e"
| "expr_columns (E_Binary op l r) = expr_columns l \<union> expr_columns r"

definition columns_typed :: "EvalEnv \<Rightarrow> batch \<Rightarrow> nat \<Rightarrow> 'q BoundTable list \<Rightarrow> bool \<Rightarrow> QualifiedColumn set \<Rightarrow> bool" where
  "columns_typed env b i tables multi columns =
     (\<forall>c\<in>columns. \<forall>t c'. bind_column tables multi c = Inr (t, c') \<longrightarrow>
        (case column_scalar env b i (qc_name c') of Inr s \<Rightarrow> result_of t s | Inl _ \<Rightarrow> False))"

text \<open>
  The expressions that the evaluator supports: operators spelled as the registry spells them, no
  floating-point literal, no \<open>NOW\<close>, no \<open>to_utc\<close> (the binder folds constant calls of it), no comparison of
  booleans.
\<close>

definition unary_names :: "string list" where
  "unary_names = [''IS NULL'', ''IS NOT NULL'', ''NOT'', ''+'', ''-'']"

definition binary_names :: "string list" where
  "binary_names = [''+'', ''-'', ''*'', ''/'', ''AND'', ''OR''] @ comparison_names"

fun supported :: "'q BoundTable list \<Rightarrow> bool \<Rightarrow> expr \<Rightarrow> bool" where
  "supported tables multi E_Missing = False"
| "supported tables multi (E_Column c) = True"
| "supported tables multi (E_Literal v) =
     (case v of LV (Lit_Double d) \<Rightarrow> False | LV_Now n \<Rightarrow> False | _ \<Rightarrow> True)"
| "supported tables multi (E_Call name over args) =
     (normalized name \<noteq> ''to_utc'' \<and> (\<forall>a\<in>set args. supported tables multi a))"
| "supported tables multi (E_Unary op e) = (op \<in> set unary_names \<and> supported tables multi e)"
| "supported tables multi (E_Binary op l r) =
     (op \<in> set binary_names \<and> supported tables multi l \<and> supported tables multi r \<and>
      (op \<in> set comparison_names \<longrightarrow> (\<forall>l'. bindExpression tables multi l \<noteq> Inr (CT_BOOL, l'))))"

section \<open>The steps\<close>

lemma conforms_valid:
  "conforms t s \<Longrightarrow> is_valid (snd s) \<Longrightarrow>
     (t = CT_STRING \<and> (\<exists>x. s = (AT_STRING, SC_String x))) \<or> (t = CT_BOOL \<and> (\<exists>x. s = (AT_BOOL, SC_Bool x))) \<or>
     (t = CT_INT \<and> (\<exists>x. s = (AT_INT64, SC_Int x))) \<or> (t = CT_TIMESTAMP \<and> (\<exists>u x. s = (AT_TIMESTAMP u, SC_Timestamp x))) \<or>
     (t = CT_DURATION_SECONDS \<and> (\<exists>u x. s = (AT_DURATION u, SC_Duration x)))"
  by (induction t s rule: conforms.induct) auto

lemma scalar_members [simp]:
  "CT_STRING \<in> set scalar_types" "CT_INT \<in> set scalar_types" "CT_TIMESTAMP \<in> set scalar_types"
  "CT_DURATION_SECONDS \<in> set scalar_types" "CT_BOOL \<in> set scalar_types"
  by (simp_all add: scalar_types_def)

lemma table_types:
  "(n, t, u) \<in> unary_table \<Longrightarrow> t \<in> set scalar_types"
  "(n, t, u, v) \<in> binary_table \<Longrightarrow> t \<in> set scalar_types \<and> u \<in> set scalar_types"
  by (auto simp: unary_table_def binary_table_def split: if_splits)

lemma result_of_valid:
  "result_of t s \<Longrightarrow> t \<in> set scalar_types \<Longrightarrow> is_valid (snd s) \<Longrightarrow> conforms t s"
  by (auto simp: result_of_def)

lemma result_of_null [simp]: "result_of t null_scalar"
  by (simp add: result_of_def)

lemma int64_cases: "(case int64 i of Inl x \<Rightarrow> P x | Inr j \<Rightarrow> Q j) \<longleftrightarrow> (if - (2 ^ 63) \<le> i \<and> i < 2 ^ 63 then Q i else P SignedOverflow)"
  by (simp add: int64_def)

text \<open>The property of a result, as a predicate on sums.\<close>

definition safe :: "EvalEnv \<Rightarrow> ColumnType \<Rightarrow> exn + scalar \<Rightarrow> bool" where
  "safe env t r = (case r of Inr s \<Rightarrow> result_of t s | Inl x \<Rightarrow> data_failure env x)"

lemma safe_simps [simp]:
  "safe env t (Inr s) = result_of t s" "safe env t (Inl x) = data_failure env x"
  by (simp_all add: safe_def)

lemma data_failure_overflow [simp]: "data_failure env SignedOverflow"
  by (simp add: data_failure_def)

lemma literal_safe:
  "supported tables multi (E_Literal v) \<Longrightarrow> safe env (literal_type v) (literal_scalar v)"
  by (cases v; cases "case v of LV l \<Rightarrow> l") (auto simp: result_of_def)

lemma unary_spelled:
  assumes "op \<in> set unary_names" and "(normalized op, t, u) \<in> unary_table"
  shows "(op = ''NOT'' \<and> t = CT_BOOL \<and> u = CT_BOOL) \<or> (op = ''+'' \<and> t = CT_INT \<and> u = CT_INT) \<or>
    (op = ''-'' \<and> t = CT_INT \<and> u = CT_INT) \<or> (op = ''IS NULL'' \<and> u = CT_BOOL) \<or> (op = ''IS NOT NULL'' \<and> u = CT_BOOL)"
proof -
  consider "op = ''IS NULL''" | "op = ''IS NOT NULL''" | "op = ''NOT''" | "op = ''+''" | "op = ''-''"
    using assms(1) unfolding unary_names_def by auto
  then show ?thesis using assms(2) by cases (simp_all add: unary_table_def)
qed

lemma unary_safe:
  assumes "op \<in> set unary_names" and "(normalized op, t, u) \<in> unary_table" and "result_of t s"
  shows "safe env u (eval_unary op s)"
proof (cases "is_valid (snd s)")
  case True
  then have c: "conforms t s" using result_of_valid [OF assms(3) table_types(1) [OF assms(2)]] by simp
  from unary_spelled [OF assms(1,2)] show ?thesis
    using c True by (elim disjE conjE) (auto simp: eval_unary_def int64_def result_of_def dest: conforms_valid)
next
  case False
  from unary_spelled [OF assms(1,2)] show ?thesis
    using False by (elim disjE conjE) (auto simp: eval_unary_def result_of_def)
qed

definition int_op :: "string \<Rightarrow> bool" where
  "int_op op = (op = ''+'' \<or> op = ''-'' \<or> op = ''*'' \<or> op = ''/'')"

definition shift_op :: "string \<Rightarrow> bool" where
  "shift_op op = (op = ''+'' \<or> op = ''-'')"

definition minus_op :: "string \<Rightarrow> bool" where
  "minus_op op = (op = ''-'')"

definition bool_op :: "string \<Rightarrow> bool" where
  "bool_op op = (op = ''AND'' \<or> op = ''OR'')"

lemma int_op_safe: "int_op op \<Longrightarrow> safe env CT_INT (integer_op op AT_INT64 AT_INT64 x y)"
  unfolding int_op_def
  by (elim disjE) (simp_all add: integer_op_def int64_def temporalResult_def result_of_def data_failure_def)

lemma shift_op_safe:
  "shift_op op \<Longrightarrow> safe env CT_TIMESTAMP (integer_op op (AT_TIMESTAMP a) (AT_DURATION b) x y)"
  unfolding shift_op_def
  by (elim disjE) (simp_all add: integer_op_def int64_def temporalResult_def result_of_def)

lemma minus_op_safe:
  "minus_op op \<Longrightarrow> safe env CT_DURATION_SECONDS (integer_op op (AT_TIMESTAMP a) (AT_TIMESTAMP b) x y)"
  unfolding minus_op_def
  by (simp add: integer_op_def int64_def temporalResult_def result_of_def)

lemma bool_op_safe:
  "bool_op op \<Longrightarrow> safe env CT_BOOL (eval_binary env op (bool_scalar x) (bool_scalar y))"
  unfolding bool_op_def
  by (elim disjE) (simp_all add: eval_binary_def logical_op_def result_of_def)

lemma binary_spelled:
  assumes "op \<in> set binary_names" and "(normalized op, t, u, v) \<in> binary_table"
  shows "(int_op op \<and> t = CT_INT \<and> u = CT_INT \<and> v = CT_INT) \<or>
    (shift_op op \<and> t = CT_TIMESTAMP \<and> u = CT_DURATION_SECONDS \<and> v = CT_TIMESTAMP) \<or>
    (minus_op op \<and> t = CT_TIMESTAMP \<and> u = CT_TIMESTAMP \<and> v = CT_DURATION_SECONDS) \<or>
    (bool_op op \<and> t = CT_BOOL \<and> u = CT_BOOL \<and> v = CT_BOOL) \<or>
    (op \<in> set comparison_names \<and> u = t \<and> v = CT_BOOL)"
proof -
  have "op = ''+'' \<or> op = ''-'' \<or> op = ''*'' \<or> op = ''/'' \<or> op = ''AND'' \<or> op = ''OR'' \<or>
      op = ''='' \<or> op = ''!='' \<or> op = ''<'' \<or> op = ''<='' \<or> op = ''>'' \<or> op = ''>=''"
    using assms(1) by (simp add: binary_names_def comparison_names_def)
  then show ?thesis using assms(2)
    by (elim disjE; simp add: binary_table_def comparison_names_def int_op_def shift_op_def minus_op_def bool_op_def)
      (simp_all add: disj_commute)
qed

lemma compare_op_defined: "op \<in> set comparison_names \<Longrightarrow> \<exists>b. compare_op op x y = Some b"
  by (simp add: comparison_names_def) (elim disjE; simp add: compare_op_def)

lemma integer_op_compare:
  "op \<in> set comparison_names \<Longrightarrow> \<exists>b. integer_op op a b' x y = Inr (bool_scalar b)"
  by (simp add: comparison_names_def) (elim disjE; simp add: compare_op_def integer_op_def)

text \<open>The operands as the evaluator sees them: two integers, or two texts.\<close>

lemma eval_binary_integers:
  assumes "logical_op op l r = None" and "\<not> is_text l" and "is_valid (snd l)" "is_valid (snd r)"
    and "integerValue op l = Inr x" "integerValue op r = Inr y"
  shows "eval_binary env op l r = integer_op op (fst l) (fst r) x y"
  using assms by (simp add: eval_binary_def)

lemma binary_safe:
  assumes "op \<in> set binary_names" and "(normalized op, t, u, v) \<in> binary_table"
    and "op \<in> set comparison_names \<longrightarrow> t \<noteq> CT_BOOL" and "result_of t l" and "result_of u r"
  shows "safe env v (eval_binary env op l r)"
proof (cases "is_valid (snd l) \<and> is_valid (snd r)")
  case True
  have tu: "t \<in> set scalar_types" "u \<in> set scalar_types" using table_types(2) [OF assms(2)] by simp_all
  note l = conforms_valid [OF result_of_valid [OF assms(4) tu(1)]] and r = conforms_valid [OF result_of_valid [OF assms(5) tu(2)]]
  consider "int_op op" "t = CT_INT" "u = CT_INT" "v = CT_INT"
    | "shift_op op" "t = CT_TIMESTAMP" "u = CT_DURATION_SECONDS" "v = CT_TIMESTAMP"
    | "minus_op op" "t = CT_TIMESTAMP" "u = CT_TIMESTAMP" "v = CT_DURATION_SECONDS"
    | "bool_op op" "t = CT_BOOL" "u = CT_BOOL" "v = CT_BOOL"
    | "op \<in> set comparison_names" "u = t" "v = CT_BOOL"
    using binary_spelled [OF assms(1,2)] by blast
  then show ?thesis
  proof cases
    case 1
    then obtain x y where lr: "l = int_scalar x" "r = int_scalar y" using l r True by auto
    have "eval_binary env op l r = integer_op op AT_INT64 AT_INT64 x y"
      by (subst eval_binary_integers) (simp_all add: lr logical_op_def is_text_def integerValue_def)
    then show ?thesis using int_op_safe [OF 1(1)] 1(4) by (simp only:)
  next
    case 2
    then obtain a x b y where lr: "l = (AT_TIMESTAMP a, SC_Timestamp x)" "r = (AT_DURATION b, SC_Duration y)"
      using l r True by auto
    have "eval_binary env op l r = integer_op op (AT_TIMESTAMP a) (AT_DURATION b) x y"
      by (subst eval_binary_integers) (simp_all add: lr logical_op_def is_text_def integerValue_def)
    then show ?thesis using shift_op_safe [OF 2(1)] 2(4) by (simp only:)
  next
    case 3
    then obtain a x b y where lr: "l = (AT_TIMESTAMP a, SC_Timestamp x)" "r = (AT_TIMESTAMP b, SC_Timestamp y)"
      using l r True by auto
    have "eval_binary env op l r = integer_op op (AT_TIMESTAMP a) (AT_TIMESTAMP b) x y"
      by (subst eval_binary_integers) (simp_all add: lr logical_op_def is_text_def integerValue_def)
    then show ?thesis using minus_op_safe [OF 3(1)] 3(4) by (simp only:)
  next
    case 4
    then obtain x y where lr: "l = bool_scalar x" "r = bool_scalar y" using l r True by auto
    then show ?thesis using bool_op_safe [OF 4(1)] 4(4) by (simp only:)
  next
    case 5
    then have t: "t \<noteq> CT_BOOL" using assms(3) by simp
    show ?thesis
    proof (cases "t = CT_STRING")
      case True
      then obtain x y where lr: "l = (AT_STRING, SC_String x)" "r = (AT_STRING, SC_String y)"
        using l r 5(2) \<open>is_valid (snd l) \<and> is_valid (snd r)\<close> by auto
      then show ?thesis
        using compare_op_defined [OF 5(1), of "ee_txt env (SC_String x)" "ee_txt env (SC_String y)"] 5(3)
        by (auto simp: eval_binary_def logical_op_def is_text_def result_of_def)
    next
      case False
      then obtain x y where lr: "integerValue op l = Inr x" "integerValue op r = Inr y"
        "logical_op op l r = None" "\<not> is_text l"
        using l r t 5(2) True
        by (auto simp: integerValue_def logical_op_def is_text_def)
      then show ?thesis
        using True 5(3) integer_op_compare [OF 5(1), of "fst l" "fst r" x y]
        by (auto simp: eval_binary_integers result_of_def)
    qed
  qed
next
  case False
  then have "eval_binary env op l r = Inr null_scalar" by (auto simp: eval_binary_def)
  then show ?thesis by simp
qed

lemma coalesce_safe:
  assumes "cast_sound env" and "\<forall>r\<in>set results. safe env t r"
    and "case first_arg of Some f \<Rightarrow> result_of t f | None \<Rightarrow> True"
  shows "safe env t (coalesce_loop env first_arg results)"
  using assms(2,3)
proof (induction results arbitrary: first_arg)
  case Nil
  then show ?case by (cases first_arg) auto
next
  case (Cons r rest)
  show ?case
  proof (cases r)
    case (Inl x)
    then show ?thesis using Cons.prems by simp
  next
    case (Inr s)
    define f where "f = (case first_arg of Some f \<Rightarrow> f | None \<Rightarrow> s)"
    have rs: "result_of t s" using Cons.prems(1) Inr by simp
    have rf: "result_of t f"
    proof (cases first_arg)
      case None
      then have "f = s" by (simp add: f_def)
      then show ?thesis using rs by (simp only:)
    next
      case (Some g)
      then have "f = g" by (simp add: f_def)
      moreover have "result_of t g" using Cons.prems(2) unfolding Some option.case .
      ultimately show ?thesis by (simp only:)
    qed
    consider "\<not> is_valid (snd s)" | "is_valid (snd s)" "fst f = AT_NA \<or> fst s = fst f"
      | "is_valid (snd s)" "fst f \<noteq> AT_NA" "fst s \<noteq> fst f" by blast
    then show ?thesis
    proof cases
      case 1
      then show ?thesis using Cons.IH [of "Some f"] Cons.prems(1) rf by (simp add: Inr Let_def f_def)
    next
      case 2
      then show ?thesis using rs by (auto simp: Inr Let_def f_def)
    next
      case 3
      then have cf: "t \<in> set scalar_types \<Longrightarrow> conforms t f" using rf by (auto simp: result_of_def)
      have e: "coalesce_loop env first_arg (r # rest) =
          (case ee_cast env s (fst f) of Inl status \<Rightarrow> Inl (RuntimeError (''coalesce: '' @ status)) | Inr c \<Rightarrow> Inr c)"
        using 3 unfolding Inr f_def by (simp add: Let_def)
      show ?thesis
      proof (cases "ee_cast env s (fst f)")
        case (Inl status)
        then have "data_failure env (RuntimeError (''coalesce: '' @ status))"
          unfolding data_failure_def by blast
        then show ?thesis unfolding e Inl by (simp only: sum.case safe_simps)
      next
        case (Inr c)
        then have "t \<in> set scalar_types \<Longrightarrow> conforms t c" using assms(1) cf unfolding cast_sound_def by blast
        then show ?thesis unfolding e Inr by (simp add: result_of_def)
      qed
    qed
  qed
qed

lemma text_result_safe:
  "(\<And>x. r = Inl x \<Longrightarrow> data_failure env x) \<Longrightarrow>
     safe env CT_STRING (case r of Inl e \<Rightarrow> Inl e | Inr s \<Rightarrow> Inr (AT_STRING, SC_String s))"
  by (cases r) (auto simp: result_of_def)

lemma from_utc_failures [simp]:
  "ee_from_utc_local env t = Inl x \<Longrightarrow> data_failure env x"
  "ee_from_utc env t z = Inl x \<Longrightarrow> data_failure env x"
  by (auto simp: data_failure_def)

lemma string_null_result [simp]: "result_of CT_STRING (AT_STRING, SC_Null)"
  by (simp add: result_of_def)

lemma from_utc_local_safe:
  assumes "safe env CT_TIMESTAMP r"
  shows "safe env CT_STRING (from_utc_call env [r])"
proof (cases r)
  case (Inl x)
  then show ?thesis using assms by (simp add: from_utc_call_def)
next
  case (Inr s)
  show ?thesis
  proof (cases "is_valid (snd s)")
    case True
    then obtain u x where "s = (AT_TIMESTAMP u, SC_Timestamp x)"
      using assms Inr conforms_valid [of CT_TIMESTAMP s] result_of_valid [of CT_TIMESTAMP s] by auto
    then show ?thesis
      by (simp add: from_utc_call_def Inr Let_def del: safe_simps) (rule text_result_safe, simp)
  qed (simp add: from_utc_call_def Inr)
qed

lemma from_utc_zone_safe:
  assumes "safe env CT_TIMESTAMP r" and "safe env CT_STRING z"
  shows "safe env CT_STRING (from_utc_call env [r, z])"
proof (cases r; cases z)
  fix s y
  assume rz: "r = Inr s" "z = Inr y"
  show ?thesis
  proof (cases "is_valid (snd s) \<and> is_valid (snd y)")
    case True
    then obtain u x w where "s = (AT_TIMESTAMP u, SC_Timestamp x)" "y = (AT_STRING, SC_String w)"
      using assms rz conforms_valid [of CT_TIMESTAMP s] result_of_valid [of CT_TIMESTAMP s]
        conforms_valid [of CT_STRING y] result_of_valid [of CT_STRING y] by auto
    then show ?thesis
      by (simp add: from_utc_call_def rz Let_def del: safe_simps) (rule text_result_safe, simp)
  next
    case False
    then have "from_utc_call env [r, z] = Inr (AT_STRING, SC_Null)" by (auto simp: from_utc_call_def rz)
    then show ?thesis by simp
  qed
qed (use assms in \<open>simp_all add: from_utc_call_def\<close>)

section \<open>Properties\<close>

text \<open>
  C9. The casts of the evaluator that are not checked are safe: an expression of supported operators that
  the binder types with \<open>t\<close> evaluates, on a row whose cells for the columns the expression mentions have
  the types of those columns, to a value of type \<open>t\<close> or to NULL (for a bare column of native values, to
  whatever the cell holds), or fails for a reason in the data (overflow of \<open>int64_t\<close>, division by zero, a
  conversion that a parameter refuses); it never reads a scalar through a pointer of the wrong class,
  meets an unknown column, an unsupported operator or operands of the wrong kind.  The other columns of
  the tables, native values and attributes included, do not matter.
\<close>

theorem bound_expressions_evaluate_safely:
  assumes "bindExpression tables multi e = Inr (t, e')" and "supported tables multi e"
    and "columns_typed env b i tables multi (expr_columns e)" and "cast_sound env"
  shows "case evaluateExpression env b i e' of
      Inr s \<Rightarrow> result_of t s
    | Inl x \<Rightarrow> data_failure env x"
proof -
  have "safe env t (evaluateExpression env b i e')"
    using assms(1,2,3)
  proof (induction e arbitrary: t e')
    case (E_Column c)
    then obtain c' where c': "bind_column tables multi c = Inr (t, c')" "e' = E_Column c'"
      by (auto split: sum.splits prod.splits)
    have "case column_scalar env b i (qc_name c') of Inr s \<Rightarrow> result_of t s | Inl _ \<Rightarrow> False"
      using E_Column.prems(3) c'(1) unfolding columns_typed_def by simp
    then show ?case using c'(2)
      by (cases "column_scalar env b i (qc_name c')") simp_all
  next
    case (E_Literal v)
    then show ?case using literal_safe [of tables multi v env] by (simp only: bindExpression.simps) auto
  next
    case (E_Unary op e)
    from E_Unary.prems(1) obtain a a' where a: "bindExpression tables multi e = Inr (a, a')"
      "call_type op UNARY_OPERATOR [a] = Inr t" "e' = E_Unary op a'"
      by (auto split: sum.splits prod.splits)
    have s: "safe env a (evaluateExpression env b i a')" and op: "op \<in> set unary_names"
      using E_Unary.IH [OF a(1)] E_Unary.prems(2,3) by simp_all
    show ?case
    proof (cases "evaluateExpression env b i a'")
      case (Inl x)
      then show ?thesis using s a(3) by simp
    next
      case (Inr x)
      then show ?thesis using s a(3) unary_safe [OF op unary_call [OF a(2)], of x env] by simp
    qed
  next
    case (E_Binary op l r)
    from E_Binary.prems(1) obtain p l' q r' where lr: "bindExpression tables multi l = Inr (p, l')"
      "bindExpression tables multi r = Inr (q, r')" "call_type op BINARY_OPERATOR [p, q] = Inr t" "e' = E_Binary op l' r'"
      by (auto split: sum.splits prod.splits)
    have s: "safe env p (evaluateExpression env b i l')" "safe env q (evaluateExpression env b i r')"
      and op: "op \<in> set binary_names" "op \<in> set comparison_names \<longrightarrow> p \<noteq> CT_BOOL"
      using E_Binary.IH(1) [OF lr(1)] E_Binary.IH(2) [OF lr(2)] E_Binary.prems(2,3) lr(1)
      by (auto simp: columns_typed_def)
    show ?case
    proof (cases "evaluateExpression env b i l'"; cases "evaluateExpression env b i r'")
      fix x y
      assume "evaluateExpression env b i l' = Inr x" "evaluateExpression env b i r' = Inr y"
      then show ?thesis using s lr(4) binary_safe [OF op(1) binary_call [OF lr(3)] op(2), of x y env] by simp
    qed (use s lr(4) in simp_all)
  next
    case (E_Call name over args)
    from E_Call.prems(1) obtain bound where bound: "mapE (bindExpression tables multi) args = Inr bound"
      "call_type name FUNCTION (map fst bound) = Inr t" "e' = E_Call name over (map snd bound)"
      by (auto split: sum.splits if_splits)
    have each: "safe env (fst x) (evaluateExpression env b i (snd x))" if "x \<in> set bound" for x
    proof -
      obtain k where n: "k < length bound" "x = bound ! k" using \<open>x \<in> set bound\<close> by (metis in_set_conv_nth)
      then have k: "k < length args" "bindExpression tables multi (args ! k) = Inr x"
        using bound(1) by (simp_all add: mapE_Inr_iff list_all2_conv_all_nth)
      show ?thesis
        using E_Call.IH [of "args ! k" "fst x" "snd x"] k nth_mem [OF k(1)] E_Call.prems(2,3)
        unfolding columns_typed_def expr_columns.simps supported.simps prod.collapse UN_ball_bex_simps by blast
    qed
    have names: "normalized name = map tolower name" by (simp add: normalized_def)
    have "normalized name \<noteq> ''to_utc''" using E_Call.prems(2) by simp
    then consider "normalized name = ''from_utc''" "t = CT_STRING" "map fst bound = [CT_TIMESTAMP]"
      | "normalized name = ''from_utc''" "t = CT_STRING" "map fst bound = [CT_TIMESTAMP, CT_STRING]"
      | "normalized name = ''coalesce''" "\<forall>u\<in>set (map fst bound). u = t"
      using function_call [OF bound(2)] by argo
    then show ?case
    proof cases
      case 1
      then obtain a where "bound = [(CT_TIMESTAMP, a)]" by (cases bound) auto
      then show ?thesis using 1 each bound(3) names from_utc_local_safe by simp
    next
      case 2
      then obtain a z where "bound = [(CT_TIMESTAMP, a), (CT_STRING, z)]" by (cases bound; cases "tl bound") auto
      then show ?thesis
        using 2 bound(3) names from_utc_zone_safe [of env "evaluateExpression env b i a" "evaluateExpression env b i z"]
          each [of "(CT_TIMESTAMP, a)"] each [of "(CT_STRING, z)"] by simp
    next
      case 3
      have "\<forall>r\<in>set (map (evaluateExpression env b i) (map snd bound)). safe env t r"
        using each 3(2) by fastforce
      then show ?thesis
        using coalesce_safe [OF assms(4), of _ t None] 3(1) bound(3) names by simp
    qed
  qed simp
  then show ?thesis by (simp add: safe_def)
qed

text \<open>A table with an integer column, a column of native values and attributes; \<open>a - 1\<close> over a row of it.\<close>

definition ex_schema_column :: "string \<Rightarrow> ColumnType \<Rightarrow> ColumnSchema" where
  "ex_schema_column n t = \<lparr>cs_name = n, cs_type = t, cs_required = False, cs_is_output = True,
     cs_pushable_ops = {}, cs_filterable_ops = {}\<rparr>"

definition ex_native_table :: "unit BoundTable \<Rightarrow> bool" where
  "ex_native_table t \<longleftrightarrow> bt_table_name t = ''mldp.t'' \<and> bt_table_alias t = ''t'' \<and>
     bt_schema t = [ex_schema_column ''a'' CT_INT, ex_schema_column ''v'' CT_NATIVE_VALUE,
       ex_schema_column ''attributes'' CT_NATIVE_VALUE]"

definition ex_native_env :: EvalEnv where
  "ex_native_env = \<lparr>ee_gfi = \<lambda>ns c. if c = ''a'' then Some 0 else None, ee_txt = \<lambda>c. [], ee_cast = \<lambda>s t. Inl [],
     ee_from_utc_local = \<lambda>t. Inr [], ee_from_utc = \<lambda>t z. Inr [], ee_kernel = \<lambda>op xs ys. None, ee_status = []\<rparr>"

definition ex_native_batch :: batch where
  "ex_native_batch = \<lparr>b_fields = [\<lparr>fd_name = ''a'', fd_type = AT_INT64, fd_nullable = True\<rparr>,
       \<lparr>fd_name = ''v'', fd_type = AT_UNION [], fd_nullable = True\<rparr>],
     b_rows = [[SC_Int 7, SC_Union True SC_Other]]\<rparr>"

definition ex_minus :: expr where
  "ex_minus = E_Binary ''-'' (E_Column \<lparr>qc_qualifier = Some ''t'', qc_name = ''a''\<rparr>) (E_Literal (LV (Lit_Int 1)))"

theorem bound_expressions_evaluate_safely_witness:
  "\<exists>t. ex_native_table t \<and> bindExpression [t] False ex_minus =
      Inr (CT_INT, E_Binary ''-'' (E_Column \<lparr>qc_qualifier = None, qc_name = ''a''\<rparr>) (E_Literal (LV (Lit_Int 1)))) \<and>
    (case evaluateExpression ex_native_env ex_native_batch 0
        (E_Binary ''-'' (E_Column \<lparr>qc_qualifier = None, qc_name = ''a''\<rparr>) (E_Literal (LV (Lit_Int 1)))) of
      Inr s \<Rightarrow> result_of CT_INT s \<and> s = int_scalar 6
    | Inl x \<Rightarrow> data_failure ex_native_env x)"
proof -
  obtain t where t: "ex_native_table t"
  proof
    show "ex_native_table \<lparr>bt_table_name = ''mldp.t'', bt_table_alias = ''t'',
      bt_schema = [ex_schema_column ''a'' CT_INT, ex_schema_column ''v'' CT_NATIVE_VALUE,
        ex_schema_column ''attributes'' CT_NATIVE_VALUE],
      bt_predicates = [], bt_predicate_groups = [], bt_ipc_path = [], bt_arrow_ipc = False, bt_derived_query = None,
      bt_in_subqueries = [], bt_window_subquery = None, bt_window_literal = None, bt_window_shards = \<lparr>ws_slice_ns = 1, ws_series_per_shard = 1\<rparr>\<rparr>"
      by (simp add: ex_native_table_def)
  qed
  let ?c = "\<lparr>qc_qualifier = Some ''t'', qc_name = ''a''\<rparr>" and ?d = "\<lparr>qc_qualifier = None, qc_name = ''a''\<rparr>"
  let ?e = "E_Binary ''-'' (E_Column ?d) (E_Literal (LV (Lit_Int 1)))"
  have column: "bind_column [t] False ?c = Inr (CT_INT, ?d)"
    using t by (simp add: ex_native_table_def bind_column_def resolveColumnReference_def resolveColumnOnTable_def
        findColumnSchema_def ex_schema_column_def)
  have "find (matching ''-'' BINARY_OPERATOR [CT_INT, CT_INT]) builtin_callables =
      Some (fixed ''-'' BINARY_OPERATOR [CT_INT, CT_INT] CT_INT)"
    by (simp add: builtin_callables_def function_callables_def arithmetic_callables_def logical_callables_def
        typed_callables_def scalar_types_def matching_def accepts_args_def)
  then have bind: "bindExpression [t] False ex_minus = Inr (CT_INT, ?e)"
    using column by (simp add: ex_minus_def call_type_def resolveOperator_find inferReturnType_def accepts_args_def)
  have supp: "supported [t] False ex_minus" by (simp add: ex_minus_def binary_names_def comparison_names_def)
  have typed: "columns_typed ex_native_env ex_native_batch 0 [t] False (expr_columns ex_minus)"
    using column by (simp add: ex_minus_def columns_typed_def column_scalar_def field_index_def ex_native_env_def
        ex_native_batch_def result_of_def)
  have cast: "cast_sound ex_native_env" by (simp add: cast_sound_def ex_native_env_def)
  have "evaluateExpression ex_native_env ex_native_batch 0 ?e = Inr (int_scalar 6)"
    by (simp add: column_scalar_def field_index_def ex_native_env_def ex_native_batch_def eval_binary_def logical_op_def
        is_text_def integerValue_def integer_op_def int64_def temporalResult_def)
  then show ?thesis
    using t bind bound_expressions_evaluate_safely [OF bind supp typed cast] by auto
qed

text \<open>
  The binder accepts expressions that the evaluator refuses on every row: a comparison of two
  booleans, a floating-point literal (typed as an integer), and \<open>NOW\<close>.
\<close>

theorem accepted_expressions_that_throw:
  "bindExpression [] False (E_Binary ''='' (E_Literal (LV (Lit_Bool p))) (E_Literal (LV (Lit_Bool q)))) =
     Inr (CT_BOOL, E_Binary ''='' (E_Literal (LV (Lit_Bool p))) (E_Literal (LV (Lit_Bool q)))) \<and>
   evaluateExpression env b i (E_Binary ''='' (E_Literal (LV (Lit_Bool p))) (E_Literal (LV (Lit_Bool q)))) =
     Inl (RuntimeError ''Expression operator = requires numeric or temporal operands'') \<and>
   bindExpression [] False (E_Literal (LV (Lit_Double d))) = Inr (CT_INT, E_Literal (LV (Lit_Double d))) \<and>
   evaluateExpression env b i (E_Literal (LV (Lit_Double d))) =
     Inl (RuntimeError ''Unsupported literal in expression evaluator'') \<and>
   bindExpression [] False (E_Literal (LV_Now n)) = Inr (CT_TIMESTAMP, E_Literal (LV_Now n)) \<and>
   evaluateExpression env b i (E_Literal (LV_Now n)) =
     Inl (RuntimeError ''Unsupported literal in expression evaluator'')"
proof -
  have "find (matching ''='' BINARY_OPERATOR [CT_BOOL, CT_BOOL]) builtin_callables =
      Some (fixed ''='' BINARY_OPERATOR [CT_BOOL, CT_BOOL] CT_BOOL)"
    by (simp add: builtin_callables_def function_callables_def arithmetic_callables_def logical_callables_def
        typed_callables_def scalar_types_def matching_def accepts_args_def)
  then show ?thesis
    by (simp add: call_type_def resolveOperator_find inferReturnType_def accepts_args_def eval_binary_def
        logical_op_def is_text_def integerValue_def)
qed

text \<open>
  A logical operator over NULL is NULL in the evaluator, whatever the other operand: \<open>TRUE OR NULL\<close>
  and \<open>FALSE AND NULL\<close> are NULL, where the predicate trees of the same engine, and SQL, give TRUE and
  FALSE.
\<close>

theorem logical_operators_propagate_null:
  "eval_binary env ''OR'' (bool_scalar True) null_scalar = Inr null_scalar \<and>
   eval_binary env ''AND'' (bool_scalar False) null_scalar = Inr null_scalar \<and>
   connective TRUE_VALUE False [TRUE_VALUE, UNKNOWN] = TRUE_VALUE \<and>
   connective FALSE_VALUE False [FALSE_VALUE, UNKNOWN] = FALSE_VALUE"
  by (simp add: eval_binary_def)

end
