(* ===== verification/Planner.thy ===== *)
theory Planner
  imports Logical_Plan
begin

text \<open>
  Type checking of bound statements and the construction of the logical plan
  (\<open>src/query/planner/TypeChecker.cpp\<close>, \<open>src/query/planner/LogicalPlanner.cpp\<close>).  The current time
  in seconds is the parameter \<open>now\<close>.
\<close>

section \<open>Type checking\<close>

definition literal_fits :: "ColumnType \<Rightarrow> LiteralValue \<Rightarrow> bool" where
  "literal_fits t v =
     (case t of
        CT_STRING \<Rightarrow> (case v of LV (Lit_String _) \<Rightarrow> True | _ \<Rightarrow> False)
      | CT_TIMESTAMP \<Rightarrow> (case v of LV (Lit_Int _) \<Rightarrow> True | _ \<Rightarrow> False)
      | CT_DURATION_SECONDS \<Rightarrow> (case v of LV (Lit_Int _) \<Rightarrow> True | _ \<Rightarrow> False)
      | CT_INT \<Rightarrow> (case v of LV (Lit_Int _) \<Rightarrow> True | _ \<Rightarrow> False)
      | CT_NATIVE_VALUE \<Rightarrow> (case v of LV _ \<Rightarrow> True | LV_Now _ \<Rightarrow> False)
      | CT_BOOL \<Rightarrow> (case v of LV (Lit_Bool _) \<Rightarrow> True | _ \<Rightarrow> False))"

definition enforceLiteralType :: "string \<Rightarrow> ColumnType \<Rightarrow> LiteralValue \<Rightarrow> exn + LiteralValue" where
  "enforceLiteralType column t v =
     (if literal_fits t v then Inr v
      else Inl (PlannerTypeError (''Type mismatch for column '' @ quoted column)))"

text \<open>\<open>NOW\<close> becomes seconds, then the value has to fit its column.\<close>

definition check_value :: "int \<Rightarrow> string \<Rightarrow> ColumnType \<Rightarrow> LiteralValue \<Rightarrow> exn + LiteralValue" where
  "check_value now column t v =
     (case v of
        LV_Now offset \<Rightarrow>
          if t \<noteq> CT_TIMESTAMP
          then Inl (PlannerTypeError ''NOW can only be compared against TIMESTAMP columns'')
          else (case int64 (now + offset) of
                  Inl e \<Rightarrow> Inl e
                | Inr i \<Rightarrow> enforceLiteralType column t (LV (Lit_Int i)))
      | _ \<Rightarrow> enforceLiteralType column t v)"

definition check_predicate :: "int \<Rightarrow> PlannerPredicate \<Rightarrow> exn + PlannerPredicate" where
  "check_predicate now p =
     (case mapE (check_value now (pp_column p) (pp_column_type p)) (pp_values p) of
        Inl e \<Rightarrow> Inl e
      | Inr vs \<Rightarrow> Inr (p\<lparr>pp_values := vs\<rparr>))"

fun check_group :: "int \<Rightarrow> PlannerPredicateGroup \<Rightarrow> exn + PlannerPredicateGroup" where
  "check_group now (PG_Leaf p) =
     (case check_predicate now p of Inl e \<Rightarrow> Inl e | Inr q \<Rightarrow> Inr (PG_Leaf q))"
| "check_group now (PG_And gs) =
     (case mapE (check_group now) gs of Inl e \<Rightarrow> Inl e | Inr hs \<Rightarrow> Inr (PG_And hs))"
| "check_group now (PG_Or gs) =
     (case mapE (check_group now) gs of Inl e \<Rightarrow> Inl e | Inr hs \<Rightarrow> Inr (PG_Or hs))"
| "check_group now (PG_Not gs) =
     (case mapE (check_group now) gs of Inl e \<Rightarrow> Inl e | Inr hs \<Rightarrow> Inr (PG_Not hs))"

text \<open>The literal window: both ends in seconds, put in order.\<close>

definition check_window :: "int \<Rightarrow> LiteralValue \<times> LiteralValue \<Rightarrow> exn + LiteralValue \<times> LiteralValue" where
  "check_window now w =
     (case check_value now ''window'' CT_TIMESTAMP (fst w) of Inl e \<Rightarrow> Inl e | Inr a \<Rightarrow>
     (case check_value now ''window'' CT_TIMESTAMP (snd w) of Inl e \<Rightarrow> Inl e | Inr b \<Rightarrow>
       (case (a, b) of
          (LV (Lit_Int x), LV (Lit_Int y)) \<Rightarrow> Inr (if y < x then (b, a) else (a, b))
        | _ \<Rightarrow> Inl UndefinedBehaviour)))"

definition check_filters :: "int \<Rightarrow> 'q BoundTable \<Rightarrow> exn + 'q BoundTable" where
  "check_filters now t =
     (case mapE (check_predicate now) (bt_predicates t) of Inl e \<Rightarrow> Inl e | Inr ps \<Rightarrow>
     (case mapE (check_group now) (bt_predicate_groups t) of Inl e \<Rightarrow> Inl e | Inr gs \<Rightarrow>
       Inr (t\<lparr>bt_predicates := ps, bt_predicate_groups := gs\<rparr>)))"

definition check_from :: "int \<Rightarrow> 'q BoundTable \<Rightarrow> exn + 'q BoundTable" where
  "check_from now t =
     (case check_filters now t of Inl e \<Rightarrow> Inl e | Inr t \<Rightarrow>
       (case bt_window_literal t of
          None \<Rightarrow> Inr t
        | Some w \<Rightarrow>
            (case check_window now w of
               Inl e \<Rightarrow> Inl e
             | Inr w' \<Rightarrow> Inr (t\<lparr>bt_window_literal := Some w'\<rparr>))))"

definition check_join :: "int \<Rightarrow> 'q BoundJoinClause \<Rightarrow> exn + 'q BoundJoinClause" where
  "check_join now j =
     (case check_filters now (bj_table j) of Inl e \<Rightarrow> Inl e | Inr t \<Rightarrow> Inr (j\<lparr>bj_table := t\<rparr>))"

definition typeCheckSelect :: "int \<Rightarrow> 'q BoundSelect \<Rightarrow> exn + 'q BoundSelect" where
  "typeCheckSelect now bound =
     (case check_from now (bs_from bound) of Inl e \<Rightarrow> Inl e | Inr t \<Rightarrow>
     (case mapE (check_join now) (bs_joins bound) of Inl e \<Rightarrow> Inl e | Inr js \<Rightarrow>
       Inr (bound\<lparr>bs_from := t, bs_joins := js\<rparr>)))"

section \<open>The logical plan of a statement\<close>

definition metadata_key :: "string \<Rightarrow> bool" where
  "metadata_key column = (prefix ''attributes.'' column \<or> prefix ''provenance.'' column)"

definition projectionHint :: "'q BoundSelect \<Rightarrow> 'q BoundTable \<Rightarrow> string set" where
  "projectionHint bound table =
     (let pre = (if bs_joins bound \<noteq> [] then bt_table_alias table @ ''.'' else []);
          names = bs_select_columns bound @ map lk_column (bs_order_by bound) in
      set (filter metadata_key (map (drop (length pre)) (filter (prefix pre) names))))"

definition table_scan :: "'q BoundSelect \<Rightarrow> 'q BoundTable \<Rightarrow> 'q LogicalScan" where
  "table_scan bound t =
     \<lparr>ls_table_name = bt_table_name t, ls_table_alias = bt_table_alias t, ls_schema = bt_schema t,
      ls_pushable_predicates = [], ls_projection_hint = projectionHint bound t, ls_ipc_path = bt_ipc_path t,
      ls_arrow_ipc = bt_arrow_ipc t, ls_derived_query = bt_derived_query t, ls_in_subqueries = bt_in_subqueries t,
      ls_window_subquery = bt_window_subquery t, ls_window_literal = bt_window_literal t,
      ls_window_shards = bt_window_shards t, ls_projection_explicit = False\<rparr>"

definition buildTableSubtree :: "'q BoundSelect \<Rightarrow> 'q BoundTable \<Rightarrow> 'q LogicalNode" where
  "buildTableSubtree bound t =
     (if bt_predicates t \<noteq> [] \<or> bt_predicate_groups t \<noteq> []
      then L_Filter \<lparr>lf_predicates = bt_predicates t, lf_predicate_groups = bt_predicate_groups t, lf_conditions = []\<rparr>
             (L_Scan (table_scan bound t))
      else L_Scan (table_scan bound t))"

definition add_join :: "'q BoundSelect \<Rightarrow> 'q LogicalNode \<Rightarrow> 'q BoundJoinClause \<Rightarrow> 'q LogicalNode" where
  "add_join bound root j =
     L_Join \<lparr>lj_type = bj_type j, lj_condition = bj_condition j, lj_predicates = [], lj_left_bounded = False,
             lj_right_bounded = False, lj_warnings = []\<rparr> root (buildTableSubtree bound (bj_table j))"

definition output_columns :: "'q BoundTable \<Rightarrow> string list" where
  "output_columns t = map (\<lambda>c. bt_table_alias t @ ''.'' @ cs_name c) (filter cs_is_output (bt_schema t))"

text \<open>The projection on top: of the select list, of \<open>*\<close> over a join, or of \<open>DISTINCT *\<close>.\<close>

definition add_projection :: "'q BoundSelect \<Rightarrow> 'q LogicalNode \<Rightarrow> 'q LogicalNode" where
  "add_projection bound root =
     (if \<not> bs_select_all bound then
        L_Project \<lparr>lp_select_all = False, lp_columns = bs_select_columns bound,
          lp_expressions = bs_select_expressions bound, lp_names = bs_select_names bound,
          lp_distinct = bs_distinct bound, lp_distinct_on = bs_distinct_on bound\<rparr> root
      else if bs_joins bound \<noteq> [] then
        L_Project \<lparr>lp_select_all = True,
          lp_columns = output_columns (bs_from bound) @ concat (map (output_columns \<circ> bj_table) (bs_joins bound)),
          lp_expressions = [], lp_names = [], lp_distinct = bs_distinct bound,
          lp_distinct_on = bs_distinct_on bound\<rparr> root
      else if bs_distinct bound then
        L_Project \<lparr>lp_select_all = True, lp_columns = [], lp_expressions = [], lp_names = [], lp_distinct = True,
          lp_distinct_on = bs_distinct_on bound\<rparr> root
      else root)"

definition buildLogicalPlan :: "'q BoundSelect \<Rightarrow> 'q LogicalNode" where
  "buildLogicalPlan bound =
     (let root = foldl (add_join bound) (buildTableSubtree bound (bs_from bound)) (bs_joins bound);
          root = (if bs_conditions bound \<noteq> []
                  then L_Filter \<lparr>lf_predicates = [], lf_predicate_groups = [], lf_conditions = bs_conditions bound\<rparr> root
                  else root);
          root = (case bs_aggregate bound of Some spec \<Rightarrow> L_Aggregate spec root | None \<Rightarrow> root);
          root = (if bs_windows bound \<noteq> [] then L_Window (bs_windows bound) root else root);
          root = (if bs_order_by bound \<noteq> [] then L_Sort (bs_order_by bound) root else root);
          root = add_projection bound root in
      case bs_limit bound of Some lim \<Rightarrow> L_Limit lim root | None \<Rightarrow> root)"

end
