(* ===== verification/Plan_Passes.thy ===== *)
theory Plan_Passes
  imports Planner
begin

text \<open>
  The rewriting passes over the logical plan, in the order \<open>QueryPlanner::plan\<close> runs them: predicate
  pushdown, join order, constant folding, column pruning and the check of required columns
  (\<open>src/query/planner/*.cpp\<close>, \<open>src/query/QueryPlanner.cpp\<close>).  \<open>std::to_string\<close> of a double is the parameter \<open>dtxt\<close>.
\<close>

section \<open>Predicate pushdown\<close>

text \<open>Metadata criteria stay in the filter although they are pushed.\<close>

definition metadata_criterion :: "string \<Rightarrow> PlannerPredicate \<Rightarrow> bool" where
  "metadata_criterion table_name p =
     (table_name \<noteq> ''mldp.time_series_table'' \<and>
      (pp_column p = ''tag'' \<or> prefix ''attributes.'' (pp_column p) \<or> prefix ''provenance.'' (pp_column p) \<or>
       (table_name = ''mldp.configuration_activation'' \<and> (pp_column p = ''start_time'' \<or> pp_column p = ''end_time''))))"

definition pushable :: "PlannerPredicate \<Rightarrow> bool" where
  "pushable p = (pp_op p \<in> pp_pushable_ops p)"

fun push_loop ::
  "string \<Rightarrow> PlannerPredicate list \<Rightarrow> PlannerPredicate list \<Rightarrow> PlannerPredicate list \<Rightarrow>
   PlannerPredicate list \<times> PlannerPredicate list" where
  "push_loop table pushed post_filter [] = (pushed, post_filter)"
| "push_loop table pushed post_filter (p # ps) =
     (if pushable p then
        push_loop table (pushed @ [p]) (if metadata_criterion table p then post_filter @ [p] else post_filter) ps
      else push_loop table pushed (post_filter @ [p]) ps)"

definition push_filter :: "LogicalFilter \<Rightarrow> 'q LogicalNode \<Rightarrow> 'q LogicalNode" where
  "push_filter f input =
     (case input of
        L_Scan s \<Rightarrow>
          (case push_loop (ls_table_name s) (ls_pushable_predicates s) [] (lf_predicates f) of
             (pushed, post_filter) \<Rightarrow>
               let s' = s\<lparr>ls_pushable_predicates := pushed\<rparr> in
               if post_filter = [] \<and> lf_predicate_groups f = [] \<and> lf_conditions f = [] then L_Scan s'
               else L_Filter (f\<lparr>lf_predicates := post_filter\<rparr>) (L_Scan s'))
      | _ \<Rightarrow> L_Filter f input)"

function applyPredicatePushdown :: "'q LogicalNode \<Rightarrow> 'q LogicalNode" where
  "applyPredicatePushdown n =
     (case map_children applyPredicatePushdown n of
        L_Filter f input \<Rightarrow> push_filter f input
      | m \<Rightarrow> m)"
  by pat_completeness auto
termination by (relation "measure size") (auto simp: children_size)

declare applyPredicatePushdown.simps [simp del]

section \<open>Join order\<close>

definition isBoundedScan :: "'q LogicalScan \<Rightarrow> bool" where
  "isBoundedScan s =
     (if ls_pushable_predicates s = [] then False
      else if \<exists>p\<in>set (ls_pushable_predicates s). pp_op p = EQ \<or> pp_op p = IN \<or> pp_op p = BETWEEN then True
      else \<exists>c\<in>set (ls_schema s). cs_required c \<and> (\<exists>p\<in>set (ls_pushable_predicates s). pp_column p = cs_name c))"

fun isBounded :: "'q LogicalNode \<Rightarrow> bool" where
  "isBounded L_Null = False"
| "isBounded (L_Scan s) = isBoundedScan s"
| "isBounded (L_Filter f n) = (lf_predicates f \<noteq> [] \<or> isBounded n)"
| "isBounded (L_Project p n) = isBounded n"
| "isBounded (L_Sort k n) = isBounded n"
| "isBounded (L_Aggregate a n) = isBounded n"
| "isBounded (L_Window w n) = isBounded n"
| "isBounded (L_Limit l n) = True"
| "isBounded (L_Join j l r) = (isBounded l \<or> isBounded r)"

text \<open>Scores are far below the bounds of \<open>int64_t\<close> for a limit below \<open>2 ^ 63\<close>.\<close>

fun boundedScore :: "'q LogicalNode \<Rightarrow> int" where
  "boundedScore L_Null = 1000"
| "boundedScore (L_Scan s) = int (length (ls_pushable_predicates s))"
| "boundedScore (L_Filter f n) = int (length (lf_predicates f)) + boundedScore n"
| "boundedScore (L_Project p n) = boundedScore n"
| "boundedScore (L_Sort k n) = boundedScore n"
| "boundedScore (L_Aggregate a n) = boundedScore n"
| "boundedScore (L_Window w n) = boundedScore n"
| "boundedScore (L_Limit l n) = 100000 + int l"
| "boundedScore (L_Join j l r) = boundedScore l + boundedScore r"

definition swap_condition :: "LogicalJoin \<Rightarrow> LogicalJoin" where
  "swap_condition j = j\<lparr>lj_condition :=
     \<lparr>jc_left_column = jc_right_column (lj_condition j), jc_right_column = jc_left_column (lj_condition j)\<rparr>\<rparr>"

definition order_join :: "LogicalJoin \<Rightarrow> 'q LogicalNode \<Rightarrow> 'q LogicalNode \<Rightarrow> 'q LogicalNode" where
  "order_join j l r =
     (let j = j\<lparr>lj_left_bounded := isBounded l, lj_right_bounded := isBounded r\<rparr> in
      if \<not> lj_left_bounded j \<and> lj_right_bounded j \<and> lj_type j = LJ_INNER then
        L_Join ((swap_condition j)\<lparr>lj_left_bounded := lj_right_bounded j, lj_right_bounded := lj_left_bounded j\<rparr>) r l
      else if lj_left_bounded j \<and> lj_right_bounded j \<and> lj_type j = LJ_INNER then
        (if boundedScore l > boundedScore r then L_Join (swap_condition j) r l else L_Join j l r)
      else if \<not> lj_left_bounded j \<and> \<not> lj_right_bounded j then
        L_Join (j\<lparr>lj_warnings := lj_warnings j @
          [''PlanWarning: joining two unbounded sides; spill is expected under memory pressure'']\<rparr>) l r
      else L_Join j l r)"

function applyJoinOrderOptimizer :: "'q LogicalNode \<Rightarrow> 'q LogicalNode" where
  "applyJoinOrderOptimizer n =
     (case map_children applyJoinOrderOptimizer n of
        L_Join j l r \<Rightarrow> order_join j l r
      | m \<Rightarrow> m)"
  by pat_completeness auto
termination by (relation "measure size") (auto simp: children_size)

declare applyJoinOrderOptimizer.simps [simp del]

section \<open>Constant folding\<close>

definition int_to_string :: "int \<Rightarrow> string" where
  "int_to_string i = (if i < 0 then CHR ''-'' # to_string (nat (- i)) else to_string (nat i))"

fun literalKey :: "(u64 \<Rightarrow> string) \<Rightarrow> LiteralValue \<Rightarrow> string" where
  "literalKey dtxt (LV (Lit_String s)) = ''s:'' @ s"
| "literalKey dtxt (LV (Lit_Int i)) = ''i:'' @ int_to_string i"
| "literalKey dtxt (LV (Lit_Double d)) = ''d:'' @ dtxt d"
| "literalKey dtxt (LV (Lit_Bool b)) = ''b:'' @ (if b then ''1'' else ''0'')"
| "literalKey dtxt (LV (Lit_Timestamp t)) = ''t:'' @ int_to_string t"
| "literalKey dtxt (LV (Lit_Duration t)) = ''u:'' @ int_to_string t"
| "literalKey dtxt (LV_Now offset) = ''n:'' @ int_to_string offset"

fun op_code :: "PredicateOp \<Rightarrow> nat" where
  "op_code EQ = 0" | "op_code NEQ = 1" | "op_code LT = 2" | "op_code LTE = 3" | "op_code GT = 4"
| "op_code GTE = 5" | "op_code IN = 6" | "op_code PREFIX = 7" | "op_code CONTAINS = 8" | "op_code LIKE = 9"
| "op_code BETWEEN = 10" | "op_code IS_NULL = 11" | "op_code IS_NOT_NULL = 12"

definition predicateKey :: "(u64 \<Rightarrow> string) \<Rightarrow> PlannerPredicate \<Rightarrow> string" where
  "predicateKey dtxt p =
     pp_column p @ ''#'' @ to_string (op_code (pp_op p)) @
     concat (map (\<lambda>v. ''#'' @ literalKey dtxt v) (pp_values p))"

fun dedupe_loop ::
  "(u64 \<Rightarrow> string) \<Rightarrow> string set \<Rightarrow> PlannerPredicate list \<Rightarrow> PlannerPredicate list" where
  "dedupe_loop dtxt seen [] = []"
| "dedupe_loop dtxt seen (p # ps) =
     (let key = predicateKey dtxt p in
      if key \<in> seen then dedupe_loop dtxt seen ps
      else p # dedupe_loop dtxt (insert key seen) ps)"

definition dedupe :: "(u64 \<Rightarrow> string) \<Rightarrow> PlannerPredicate list \<Rightarrow> PlannerPredicate list" where
  "dedupe dtxt ps = dedupe_loop dtxt {} ps"

fun applyConstantFolding :: "(u64 \<Rightarrow> string) \<Rightarrow> 'q LogicalNode \<Rightarrow> 'q LogicalNode" where
  "applyConstantFolding dtxt L_Null = L_Null"
| "applyConstantFolding dtxt (L_Scan s) =
     L_Scan (s\<lparr>ls_pushable_predicates := dedupe dtxt (ls_pushable_predicates s)\<rparr>)"
| "applyConstantFolding dtxt (L_Filter f n) =
     L_Filter (f\<lparr>lf_predicates := dedupe dtxt (lf_predicates f)\<rparr>) (applyConstantFolding dtxt n)"
| "applyConstantFolding dtxt (L_Join j l r) =
     L_Join (j\<lparr>lj_predicates := dedupe dtxt (lj_predicates j)\<rparr>)
       (applyConstantFolding dtxt l) (applyConstantFolding dtxt r)"
| "applyConstantFolding dtxt (L_Project p n) = L_Project p (applyConstantFolding dtxt n)"
| "applyConstantFolding dtxt (L_Sort k n) = L_Sort k (applyConstantFolding dtxt n)"
| "applyConstantFolding dtxt (L_Limit l n) = L_Limit l (applyConstantFolding dtxt n)"
| "applyConstantFolding dtxt (L_Aggregate a n) = L_Aggregate a (applyConstantFolding dtxt n)"
| "applyConstantFolding dtxt (L_Window w n) = L_Window w (applyConstantFolding dtxt n)"

section \<open>The check of required columns\<close>

text \<open>\<open>splitQualified\<close>: at the first dot; without one there is no alias.\<close>

definition splitQualified :: "string \<Rightarrow> string \<times> string" where
  "splitQualified v =
     (if CHR ''.'' \<notin> set v then ([], v)
      else (takeWhile (\<lambda>c. c \<noteq> CHR ''.'') v, tl (dropWhile (\<lambda>c. c \<noteq> CHR ''.'') v)))"

definition condition_keys :: "LogicalJoin \<Rightarrow> (string \<times> string) set" where
  "condition_keys j =
     {k \<in> {splitQualified (jc_left_column (lj_condition j)), splitQualified (jc_right_column (lj_condition j))}.
        fst k \<noteq> []}"

text \<open>The pairs (alias, column) that \<open>collectState\<close> gathers in \<open>join_columns\<close>.\<close>

fun join_columns :: "'q LogicalNode \<Rightarrow> (string \<times> string) set" where
  "join_columns L_Null = {}"
| "join_columns (L_Scan s) = {}"
| "join_columns (L_Join j l r) = condition_keys j \<union> join_columns l \<union> join_columns r"
| "join_columns (L_Filter f n) = join_columns n"
| "join_columns (L_Project p n) = join_columns n"
| "join_columns (L_Sort k n) = join_columns n"
| "join_columns (L_Limit l n) = join_columns n"
| "join_columns (L_Aggregate a n) = join_columns n"
| "join_columns (L_Window w n) = join_columns n"

definition column_covered :: "(string \<times> string) set \<Rightarrow> 'q LogicalScan \<Rightarrow> ColumnSchema \<Rightarrow> bool" where
  "column_covered joins s c =
     ((\<exists>p\<in>set (ls_pushable_predicates s). pp_column p = cs_name c) \<or>
      (\<exists>q\<in>set (ls_in_subqueries s). pp_column (bi_predicate q) = cs_name c \<and> IN \<in> pp_pushable_ops (bi_predicate q)) \<or>
      (ls_table_alias s, cs_name c) \<in> joins)"

fun check_columns :: "(string \<times> string) set \<Rightarrow> 'q LogicalScan \<Rightarrow> ColumnSchema list \<Rightarrow> exn + unit" where
  "check_columns joins s [] = Inr ()"
| "check_columns joins s (c # cs) =
     (if cs_required c \<and> \<not> column_covered joins s c then
        Inl (PlannerPlanError (''Required column '' @ quoted (ls_table_alias s @ ''.'' @ cs_name c) @
          '' must have a pushable predicate or be part of an equi-join''))
      else check_columns joins s cs)"

fun check_scans :: "(string \<times> string) set \<Rightarrow> 'q LogicalScan list \<Rightarrow> exn + unit" where
  "check_scans joins [] = Inr ()"
| "check_scans joins (s # ss) =
     (case check_columns joins s (ls_schema s) of Inl e \<Rightarrow> Inl e | Inr _ \<Rightarrow> check_scans joins ss)"

definition requiredColumnCheck :: "'q LogicalNode \<Rightarrow> exn + unit" where
  "requiredColumnCheck root = check_scans (join_columns root) (plan_scans root)"

end
