(* ===== verification/Column_Pruning.thy ===== *)
theory Column_Pruning
  imports Plan_Passes
begin

text \<open>
  Column pruning (\<open>src/query/planner/ColumnPruning.cpp\<close>) and the sequence of passes of
  \<open>QueryPlanner::plan\<close> (\<open>src/query/QueryPlanner.cpp\<close>).  The map from an alias to the set of columns
  read under it is the set of its pairs; the empty alias holds unqualified names.
\<close>

section \<open>Referenced columns\<close>

type_synonym columns = "(string \<times> string) set"

definition splitQualifiedColumn :: "string set \<Rightarrow> string \<Rightarrow> string \<times> string" where
  "splitQualifiedColumn aliases v =
     (let alias_name = takeWhile (\<lambda>c. c \<noteq> CHR ''.'') v in
      if CHR ''.'' \<notin> set v \<or> alias_name \<notin> aliases then ([], v)
      else (alias_name, tl (dropWhile (\<lambda>c. c \<noteq> CHR ''.'') v)))"

fun collectExpressionColumns :: "string set \<Rightarrow> expr \<Rightarrow> columns" where
  "collectExpressionColumns aliases E_Missing = {}"
| "collectExpressionColumns aliases (E_Literal v) = {}"
| "collectExpressionColumns aliases (E_Column c) =
     {splitQualifiedColumn aliases
        (case qc_qualifier c of Some q \<Rightarrow> q @ ''.'' @ qc_name c | None \<Rightarrow> qc_name c)}"
| "collectExpressionColumns aliases (E_Call name over args) = (\<Union>a\<in>set args. collectExpressionColumns aliases a)"
| "collectExpressionColumns aliases (E_Unary op e) = collectExpressionColumns aliases e"
| "collectExpressionColumns aliases (E_Binary op l r) =
     collectExpressionColumns aliases l \<union> collectExpressionColumns aliases r"

definition stored_column :: "string \<Rightarrow> string" where
  "stored_column column = (if column = ''tag'' then ''tags'' else column)"

definition predicate_column :: "PlannerPredicate \<Rightarrow> string \<times> string" where
  "predicate_column p = (pp_table_alias p, stored_column (pp_column p))"

fun group_columns :: "PlannerPredicateGroup \<Rightarrow> columns" where
  "group_columns (PG_Leaf p) = {predicate_column p}"
| "group_columns (PG_And gs) = (\<Union>g\<in>set gs. group_columns g)"
| "group_columns (PG_Or gs) = (\<Union>g\<in>set gs. group_columns g)"
| "group_columns (PG_Not gs) = (\<Union>g\<in>set gs. group_columns g)"

definition scan_columns :: "'q LogicalScan \<Rightarrow> columns" where
  "scan_columns s =
     (\<lambda>p. (ls_table_alias s, stored_column (pp_column p))) ` set (ls_pushable_predicates s) \<union>
     (\<lambda>q. (ls_table_alias s, stored_column (pp_column (bi_predicate q)))) `
       {q \<in> set (ls_in_subqueries s). IN \<notin> pp_pushable_ops (bi_predicate q)}"

definition filter_columns :: "string set \<Rightarrow> LogicalFilter \<Rightarrow> columns" where
  "filter_columns aliases f =
     predicate_column ` set (lf_predicates f) \<union> (\<Union>g\<in>set (lf_predicate_groups f). group_columns g) \<union>
     (\<Union>c\<in>set (lf_conditions f). collectExpressionColumns aliases c)"

definition aggregate_columns :: "string set \<Rightarrow> PlanAggregateSpec \<Rightarrow> columns" where
  "aggregate_columns aliases spec =
     (\<Union>k\<in>set (ps_keys spec). collectExpressionColumns aliases (fst k)) \<union>
     (\<Union>a\<in>set (ps_aggregates spec). collectExpressionColumns aliases (pa_argument a))"

definition collect_call :: "string set \<Rightarrow> columns \<Rightarrow> WindowCall \<Rightarrow> columns" where
  "collect_call aliases cols call =
     (cols - {([], wc_name call)}) \<union> collectExpressionColumns aliases (wc_argument call) \<union>
     collectExpressionColumns aliases (wc_default_value call)"

definition collect_window_group :: "string set \<Rightarrow> columns \<Rightarrow> WindowGroup \<Rightarrow> columns" where
  "collect_window_group aliases cols g =
     foldl (collect_call aliases) cols (wg_calls g) \<union>
     (\<Union>e\<in>set (wg_partition_by g). collectExpressionColumns aliases e) \<union>
     (\<Union>k\<in>set (wg_order_by g). collectExpressionColumns aliases (lk_expression k))"

definition project_columns :: "string set \<Rightarrow> LogicalProject \<Rightarrow> columns" where
  "project_columns aliases p =
     splitQualifiedColumn aliases ` set (lp_columns p) \<union>
     (\<Union>e\<in>set (lp_expressions p). collectExpressionColumns aliases e) \<union>
     (\<Union>e\<in>set (lp_distinct_on p). collectExpressionColumns aliases e)"

text \<open>The walk: a node's columns, then its children's, left to right; an aggregate starts afresh.\<close>

fun collectReferencedColumns :: "string set \<Rightarrow> 'q LogicalNode \<Rightarrow> columns \<Rightarrow> columns" where
  "collectReferencedColumns aliases L_Null cols = cols"
| "collectReferencedColumns aliases (L_Scan s) cols = cols \<union> scan_columns s"
| "collectReferencedColumns aliases (L_Filter f n) cols =
     collectReferencedColumns aliases n (cols \<union> filter_columns aliases f)"
| "collectReferencedColumns aliases (L_Aggregate spec n) cols =
     collectReferencedColumns aliases n (aggregate_columns aliases spec)"
| "collectReferencedColumns aliases (L_Window groups n) cols =
     collectReferencedColumns aliases n (foldl (collect_window_group aliases) cols groups)"
| "collectReferencedColumns aliases (L_Project p n) cols =
     collectReferencedColumns aliases n (cols \<union> project_columns aliases p)"
| "collectReferencedColumns aliases (L_Sort keys n) cols =
     collectReferencedColumns aliases n (cols \<union> splitQualifiedColumn aliases ` lk_column ` set keys)"
| "collectReferencedColumns aliases (L_Limit lim n) cols = collectReferencedColumns aliases n cols"
| "collectReferencedColumns aliases (L_Join j l r) cols =
     collectReferencedColumns aliases r
       (collectReferencedColumns aliases l
         (cols \<union> {splitQualifiedColumn aliases (jc_left_column (lj_condition j)),
                  splitQualifiedColumn aliases (jc_right_column (lj_condition j))}))"

definition collectTableAliases :: "'q LogicalNode \<Rightarrow> string set" where
  "collectTableAliases n = ls_table_alias ` set (plan_scans n)"

section \<open>Projection hints\<close>

definition columns_of :: "columns \<Rightarrow> string \<Rightarrow> string set" where
  "columns_of cols alias_name = snd ` {k \<in> cols. fst k = alias_name}"

definition hint_scan :: "columns \<Rightarrow> bool \<Rightarrow> 'q LogicalScan \<Rightarrow> 'q LogicalScan" where
  "hint_scan cols select_all s =
     (let hint = columns_of cols (ls_table_alias s) \<union> columns_of cols [] in
      s\<lparr>ls_projection_explicit := \<not> select_all \<and> hint \<noteq> {},
        ls_projection_hint := (if hint = {} then cs_name ` {c \<in> set (ls_schema s). cs_is_output c} else hint)\<rparr>)"

fun applyProjectionHint :: "columns \<Rightarrow> bool \<Rightarrow> 'q LogicalNode \<Rightarrow> 'q LogicalNode" where
  "applyProjectionHint cols sel L_Null = L_Null"
| "applyProjectionHint cols sel (L_Scan s) = L_Scan (hint_scan cols sel s)"
| "applyProjectionHint cols sel (L_Project p n) = L_Project p (applyProjectionHint cols (lp_select_all p) n)"
| "applyProjectionHint cols sel (L_Aggregate a n) = L_Aggregate a (applyProjectionHint cols False n)"
| "applyProjectionHint cols sel (L_Filter f n) = L_Filter f (applyProjectionHint cols sel n)"
| "applyProjectionHint cols sel (L_Sort k n) = L_Sort k (applyProjectionHint cols sel n)"
| "applyProjectionHint cols sel (L_Limit l n) = L_Limit l (applyProjectionHint cols sel n)"
| "applyProjectionHint cols sel (L_Window w n) = L_Window w (applyProjectionHint cols sel n)"
| "applyProjectionHint cols sel (L_Join j l r) =
     L_Join j (applyProjectionHint cols sel l) (applyProjectionHint cols sel r)"

definition applyColumnPruning :: "'q LogicalNode \<Rightarrow> 'q LogicalNode" where
  "applyColumnPruning root =
     applyProjectionHint (collectReferencedColumns (collectTableAliases root) root {}) True root"

section \<open>The passes in order\<close>

definition plan_select :: "(u64 \<Rightarrow> string) \<Rightarrow> int \<Rightarrow> 'q BoundSelect \<Rightarrow> exn + 'q LogicalNode" where
  "plan_select dtxt now bound =
     (case typeCheckSelect now bound of
        Inl e \<Rightarrow> Inl e
      | Inr bound \<Rightarrow>
          let logical = applyColumnPruning (applyConstantFolding dtxt (applyJoinOrderOptimizer
                (applyPredicatePushdown (buildLogicalPlan bound)))) in
          (case requiredColumnCheck logical of Inl e \<Rightarrow> Inl e | Inr _ \<Rightarrow> Inr logical))"

end
