(* ===== verification/Plan_Facts.thy ===== *)
theory Plan_Facts
  imports Column_Pruning
begin

text \<open>
  What the planner passes preserve: the rows of the plan (pushdown), the shape of joins (join order),
  the predicates (folding), the required columns and the columns read (the whole sequence).
\<close>

section \<open>Rows of a plan\<close>

text \<open>
  An execution of a logical plan over rows of type \<open>'r\<close>: the backend's rows of a scan, the meaning of
  predicates, and the operators, all arbitrary.  \<open>se_honours\<close> says which pushed predicates the
  backend of a table applies.
\<close>

record ('q, 'r) Semantics =
  se_rows :: "'q LogicalScan \<Rightarrow> 'r list"
  se_honours :: "string \<Rightarrow> PlannerPredicate \<Rightarrow> bool"
  se_holds :: "PlannerPredicate \<Rightarrow> 'r \<Rightarrow> bool"
  se_group :: "PlannerPredicateGroup \<Rightarrow> 'r \<Rightarrow> bool"
  se_condition :: "expr \<Rightarrow> 'r \<Rightarrow> bool"
  se_project :: "LogicalProject \<Rightarrow> 'r list \<Rightarrow> 'r list"
  se_sort :: "LogicalSortKey list \<Rightarrow> 'r list \<Rightarrow> 'r list"
  se_aggregate :: "PlanAggregateSpec \<Rightarrow> 'r list \<Rightarrow> 'r list"
  se_window :: "WindowGroup list \<Rightarrow> 'r list \<Rightarrow> 'r list"
  se_join :: "LogicalJoin \<Rightarrow> 'r list \<Rightarrow> 'r list \<Rightarrow> 'r list"

definition exec_scan :: "('q, 'r) Semantics \<Rightarrow> 'q LogicalScan \<Rightarrow> 'r list" where
  "exec_scan S s =
     filter (\<lambda>r. \<forall>p\<in>set (ls_pushable_predicates s). se_honours S (ls_table_name s) p \<longrightarrow> se_holds S p r)
       (se_rows S (s\<lparr>ls_pushable_predicates := []\<rparr>))"

definition exec_filter :: "('q, 'r) Semantics \<Rightarrow> LogicalFilter \<Rightarrow> 'r list \<Rightarrow> 'r list" where
  "exec_filter S f rows =
     filter (\<lambda>r. (\<forall>p\<in>set (lf_predicates f). se_holds S p r) \<and> (\<forall>g\<in>set (lf_predicate_groups f). se_group S g r) \<and>
       (\<forall>c\<in>set (lf_conditions f). se_condition S c r)) rows"

fun exec_plan :: "('q, 'r) Semantics \<Rightarrow> 'q LogicalNode \<Rightarrow> 'r list" where
  "exec_plan S L_Null = []"
| "exec_plan S (L_Scan s) = exec_scan S s"
| "exec_plan S (L_Filter f n) = exec_filter S f (exec_plan S n)"
| "exec_plan S (L_Project p n) = se_project S p (exec_plan S n)"
| "exec_plan S (L_Sort k n) = se_sort S k (exec_plan S n)"
| "exec_plan S (L_Limit l n) = take l (exec_plan S n)"
| "exec_plan S (L_Aggregate a n) = se_aggregate S a (exec_plan S n)"
| "exec_plan S (L_Window w n) = se_window S w (exec_plan S n)"
| "exec_plan S (L_Join j l r) = se_join S j (exec_plan S l) (exec_plan S r)"

text \<open>A backend may ignore metadata criteria, and nothing else that is pushed to it.\<close>

definition backend_ok :: "('q, 'r) Semantics \<Rightarrow> bool" where
  "backend_ok S = (\<forall>t p. se_honours S t p \<or> metadata_criterion t p)"

section \<open>Pushdown\<close>

lemma push_loop_result:
  "push_loop t pushed post ps =
     (pushed @ filter pushable ps, post @ filter (\<lambda>p. \<not> pushable p \<or> metadata_criterion t p) ps)"
  by (induction ps arbitrary: pushed post) auto

lemma exec_push_filter:
  assumes "backend_ok S"
  shows "exec_plan S (push_filter f n) = exec_filter S f (exec_plan S n)"
proof (cases n)
  case (L_Scan s)
  let ?post = "filter (\<lambda>p. \<not> pushable p \<or> metadata_criterion (ls_table_name s) p) (lf_predicates f)"
  let ?s = "s\<lparr>ls_pushable_predicates := ls_pushable_predicates s @ filter pushable (lf_predicates f)\<rparr>"
  have h: "se_honours S (ls_table_name s) p \<or> metadata_criterion (ls_table_name s) p" for p
    using assms by (simp add: backend_ok_def)
  have "exec_filter S (f\<lparr>lf_predicates := ?post\<rparr>) (exec_scan S ?s) = exec_filter S f (exec_scan S s)"
    unfolding exec_filter_def exec_scan_def by (simp, rule filter_cong, use h in auto)
  moreover have "exec_filter S (f\<lparr>lf_predicates := ?post\<rparr>) rows = rows"
    if "?post = []" "lf_predicate_groups f = []" "lf_conditions f = []" for rows
    using that by (simp add: exec_filter_def)
  ultimately show ?thesis
    by (cases "?post = [] \<and> lf_predicate_groups f = [] \<and> lf_conditions f = []")
      (simp_all add: L_Scan push_filter_def push_loop_result Let_def, auto)
qed (simp_all add: push_filter_def)

lemma exec_map_children:
  "(\<And>c. c \<in> set (children n) \<Longrightarrow> exec_plan S (f c) = exec_plan S c) \<Longrightarrow> exec_plan S (map_children f n) = exec_plan S n"
  by (cases n) simp_all

section \<open>Join order\<close>

text \<open>The joins of a plan, with their sides.\<close>

fun plan_joins :: "'q LogicalNode \<Rightarrow> (LogicalJoin \<times> 'q LogicalNode \<times> 'q LogicalNode) list" where
  "plan_joins L_Null = []"
| "plan_joins (L_Scan s) = []"
| "plan_joins (L_Filter f n) = plan_joins n"
| "plan_joins (L_Project p n) = plan_joins n"
| "plan_joins (L_Sort k n) = plan_joins n"
| "plan_joins (L_Limit l n) = plan_joins n"
| "plan_joins (L_Aggregate a n) = plan_joins n"
| "plan_joins (L_Window w n) = plan_joins n"
| "plan_joins (L_Join j l r) = (j, l, r) # plan_joins l @ plan_joins r"

text \<open>What a join looks like after the pass.\<close>

definition join_ordered :: "LogicalJoin \<times> 'q LogicalNode \<times> 'q LogicalNode \<Rightarrow> bool" where
  "join_ordered x = (case x of (j, l, r) \<Rightarrow>
     (lj_left_bounded j \<longleftrightarrow> isBounded l) \<and> (lj_right_bounded j \<longleftrightarrow> isBounded r) \<and>
     (lj_type j = LJ_INNER \<longrightarrow> (isBounded r \<longrightarrow> isBounded l) \<and> (isBounded l \<and> isBounded r \<longrightarrow> boundedScore l \<le> boundedScore r)))"

lemma order_join_ordered:
  "case order_join j l r of L_Join k a b \<Rightarrow> join_ordered (k, a, b) \<and> (a = l \<and> b = r \<or> a = r \<and> b = l \<and> lj_type j = LJ_INNER) | _ \<Rightarrow> False"
  by (auto simp: order_join_def join_ordered_def swap_condition_def Let_def)

text \<open>The two plans are the same up to exchanging the sides of inner joins together with their keys.\<close>

inductive join_commuted :: "'q LogicalNode \<Rightarrow> 'q LogicalNode \<Rightarrow> bool" where
  jc_null: "join_commuted L_Null L_Null"
| jc_scan: "join_commuted (L_Scan s) (L_Scan s)"
| jc_filter: "join_commuted n m \<Longrightarrow> join_commuted (L_Filter f n) (L_Filter f m)"
| jc_project: "join_commuted n m \<Longrightarrow> join_commuted (L_Project p n) (L_Project p m)"
| jc_sort: "join_commuted n m \<Longrightarrow> join_commuted (L_Sort k n) (L_Sort k m)"
| jc_limit: "join_commuted n m \<Longrightarrow> join_commuted (L_Limit l n) (L_Limit l m)"
| jc_aggregate: "join_commuted n m \<Longrightarrow> join_commuted (L_Aggregate a n) (L_Aggregate a m)"
| jc_window: "join_commuted n m \<Longrightarrow> join_commuted (L_Window w n) (L_Window w m)"
| jc_join: "join_commuted l l' \<Longrightarrow> join_commuted r r' \<Longrightarrow> lj_type k = lj_type j \<Longrightarrow>
    lj_condition k = lj_condition j \<Longrightarrow> lj_predicates k = lj_predicates j \<Longrightarrow>
    join_commuted (L_Join j l r) (L_Join k l' r')"
| jc_swap: "join_commuted l l' \<Longrightarrow> join_commuted r r' \<Longrightarrow> lj_type j = LJ_INNER \<Longrightarrow> lj_type k = LJ_INNER \<Longrightarrow>
    lj_condition k = lj_condition (swap_condition j) \<Longrightarrow> lj_predicates k = lj_predicates j \<Longrightarrow>
    join_commuted (L_Join j l r) (L_Join k r' l')"

lemma order_join_shape:
  "(\<exists>k. order_join j l r = L_Join k l r \<and> lj_type k = lj_type j \<and> lj_condition k = lj_condition j \<and>
      lj_predicates k = lj_predicates j) \<or>
   (\<exists>k. order_join j l r = L_Join k r l \<and> lj_type j = LJ_INNER \<and> lj_type k = LJ_INNER \<and>
      lj_condition k = lj_condition (swap_condition j) \<and> lj_predicates k = lj_predicates j)"
proof (cases "order_join j l r")
  case (L_Join k a b)
  then show ?thesis
    unfolding order_join_def Let_def by (simp split: if_splits) (auto simp: swap_condition_def)
qed (simp_all add: order_join_def Let_def split: if_splits)

lemma order_join_commuted:
  "join_commuted l l' \<Longrightarrow> join_commuted r r' \<Longrightarrow> join_commuted (L_Join j l r) (order_join j l' r')"
  using order_join_shape [of j l' r'] by (elim disjE exE conjE) (simp_all add: jc_join jc_swap)

lemma plan_joins_children:
  "(\<And>c. c \<in> set (children n) \<Longrightarrow> list_all join_ordered (plan_joins (f c))) \<Longrightarrow>
     case map_children f n of L_Join j l r \<Rightarrow> list_all join_ordered (plan_joins l) \<and> list_all join_ordered (plan_joins r)
     | m \<Rightarrow> list_all join_ordered (plan_joins m)"
  by (cases n) simp_all

lemma join_order_result:
  "list_all join_ordered (plan_joins (applyJoinOrderOptimizer n)) \<and> join_commuted n (applyJoinOrderOptimizer n)"
proof (induction n rule: applyJoinOrderOptimizer.induct)
  case (1 n)
  show ?case
  proof (cases n)
    case (L_Join j l r)
    let ?l = "applyJoinOrderOptimizer l" and ?r = "applyJoinOrderOptimizer r"
    have ih: "list_all join_ordered (plan_joins ?l) \<and> join_commuted l ?l"
      "list_all join_ordered (plan_joins ?r) \<and> join_commuted r ?r"
      using 1 L_Join by simp_all
    have e: "applyJoinOrderOptimizer n = order_join j ?l ?r"
      by (subst applyJoinOrderOptimizer.simps) (simp add: L_Join)
    obtain k a b where o: "order_join j ?l ?r = L_Join k a b" "join_ordered (k, a, b)"
      "a = ?l \<and> b = ?r \<or> a = ?r \<and> b = ?l"
      using order_join_ordered [where j = j and l = ?l and r = ?r] by (cases "order_join j ?l ?r") auto
    show ?thesis
      unfolding e using o ih order_join_commuted [of l ?l r ?r j] L_Join by auto
  qed (use 1 in \<open>subst applyJoinOrderOptimizer.simps; auto intro: join_commuted.intros\<close>)+
qed

lemmas join_order_commutes = join_order_result [THEN conjunct2]

section \<open>Properties\<close>

text \<open>
  C10. Predicate pushdown changes no result: for every meaning of predicates and operators and every
  backend that applies the predicates pushed to it, except possibly the metadata criteria, the plan
  after the pass yields the rows of the plan before it.
\<close>

theorem pushdown_keeps_rows:
  assumes "backend_ok S"
  shows "exec_plan S (applyPredicatePushdown n) = exec_plan S n"
proof (induction n rule: applyPredicatePushdown.induct)
  case (1 n)
  then have kids: "exec_plan S (map_children applyPredicatePushdown n) = exec_plan S n"
    by (intro exec_map_children) (auto simp: children_size)
  show ?case
    by (subst applyPredicatePushdown.simps, cases "map_children applyPredicatePushdown n")
      (use kids exec_push_filter [OF assms] in simp_all)
qed

theorem pushdown_keeps_rows_witness:
  "exec_plan \<lparr>se_rows = \<lambda>s. [1, 2 :: nat], se_honours = \<lambda>t p. True, se_holds = \<lambda>p r. r = 2, se_group = \<lambda>g r. True,
      se_condition = \<lambda>c r. True, se_project = \<lambda>p rs. rs, se_sort = \<lambda>k rs. rs, se_aggregate = \<lambda>a rs. rs,
      se_window = \<lambda>w rs. rs, se_join = \<lambda>j l r. l\<rparr>
    (applyPredicatePushdown (L_Limit 1 (L_Null :: unit LogicalNode))) = []"
  by (subst pushdown_keeps_rows) (simp_all add: backend_ok_def)

text \<open>After the join-order pass every join of the plan records whether its sides are bounded, and no
  inner join has its only bounded side on the right or, of two bounded sides, the larger score on the
  left.  The pass does only that: the plan is the same up to exchanging the sides of inner joins
  together with their keys; outer joins are never turned.
\<close>

theorem join_order_normal_form:
  "list_all join_ordered (plan_joins (applyJoinOrderOptimizer n)) \<and> join_commuted n (applyJoinOrderOptimizer n)"
  by (rule join_order_result)

section \<open>Constant folding\<close>

text \<open>Two predicates that test the same thing.\<close>

definition same_test :: "PlannerPredicate \<Rightarrow> PlannerPredicate \<Rightarrow> bool" where
  "same_test p q = (pp_column p = pp_column q \<and> pp_op p = pp_op q \<and> pp_values p = pp_values q)"

definition predicate_doubles :: "PlannerPredicate list \<Rightarrow> u64 set" where
  "predicate_doubles ps = {d. \<exists>p\<in>set ps. LV (Lit_Double d) \<in> set (pp_values p)}"

text \<open>Where the keys of folding identify the tests: no separator in names and strings, and doubles that
  print differently.\<close>

definition keys_exact :: "(u64 \<Rightarrow> string) \<Rightarrow> PlannerPredicate list \<Rightarrow> bool" where
  "keys_exact dtxt ps =
     ((\<forall>p\<in>set ps. CHR ''#'' \<notin> set (pp_column p) \<and> (\<forall>s. LV (Lit_String s) \<in> set (pp_values p) \<longrightarrow> CHR ''#'' \<notin> set s)) \<and>
      inj_on dtxt (predicate_doubles ps) \<and> (\<forall>d. CHR ''#'' \<notin> set (dtxt d)))"

lemma hash_split:
  assumes "c \<notin> set xs" and "c \<notin> set ys" and "xs @ c # as = ys @ c # bs"
  shows "xs = ys \<and> as = bs"
proof -
  have "takeWhile (\<lambda>x. x \<noteq> c) (zs @ c # ws) = zs" if "c \<notin> set zs" for zs ws
    using that by (subst takeWhile_append2) auto
  then have "xs = ys" using assms by metis
  then show ?thesis using assms(3) by simp
qed

lemma hash_items:
  assumes "\<forall>x\<in>set xs. c \<notin> set x" and "\<forall>y\<in>set ys. c \<notin> set y"
    and "concat (map ((#) c) xs) = concat (map ((#) c) ys)"
  shows "xs = ys"
  using assms
proof (induction xs arbitrary: ys)
  case Nil
  then show ?case by (cases ys) auto
next
  case (Cons x xs)
  then obtain y zs where ys: "ys = y # zs" by (cases ys) auto
  have rest: "concat (map ((#) c) ws) = [] \<or> (\<exists>u. concat (map ((#) c) ws) = c # u)" for ws
    by (cases ws) auto
  have eq: "x @ concat (map ((#) c) xs) = y @ concat (map ((#) c) zs)" using Cons.prems(3) ys by simp
  have n: "c \<notin> set x" "c \<notin> set y" using Cons.prems ys by auto
  have xy: "x = y \<and> concat (map ((#) c) xs) = concat (map ((#) c) zs)"
  proof (cases "concat (map ((#) c) xs)"; cases "concat (map ((#) c) zs)")
    fix a as b bs
    assume "concat (map ((#) c) xs) = a # as" "concat (map ((#) c) zs) = b # bs"
    moreover from this have "a = c" "b = c" using rest [of xs] rest [of zs] by auto
    ultimately show ?thesis using hash_split [OF n] eq by simp
  next
    fix a as
    assume "concat (map ((#) c) xs) = a # as" "concat (map ((#) c) zs) = []"
    moreover from this have "a = c" using rest [of xs] by auto
    ultimately have "x @ c # as = y" using eq by simp
    then show ?thesis using n(2) by auto
  next
    fix b bs
    assume "concat (map ((#) c) xs) = []" "concat (map ((#) c) zs) = b # bs"
    moreover from this have "b = c" using rest [of zs] by auto
    ultimately have "x = y @ c # bs" using eq by simp
    then show ?thesis using n(1) by auto
  qed (use eq in simp)
  have "xs = zs"
  proof (rule Cons.IH)
    show "\<forall>x\<in>set xs. c \<notin> set x" using Cons.prems(1) by simp
    show "\<forall>y\<in>set zs. c \<notin> set y" using Cons.prems(2) unfolding ys by simp
    show "concat (map ((#) c) xs) = concat (map ((#) c) zs)" using xy ..
  qed
  then show ?case using xy unfolding ys by blast
qed

lemma digits_no_hash: "CHR ''#'' \<notin> set (to_string n)"
  using to_string_digits [of "CHR ''#''" n] by auto

lemma digits_no_minus: "CHR ''-'' \<notin> set (to_string n)"
  using to_string_digits [of "CHR ''-''" n] by auto

lemma int_to_string_inj: "int_to_string i = int_to_string j \<longleftrightarrow> i = j"
proof -
  have ne: "to_string n \<noteq> CHR ''-'' # xs" for xs n
  proof
    assume "to_string n = CHR ''-'' # xs"
    then have "CHR ''-'' \<in> set (to_string n)" by simp
    then show False using digits_no_minus by blast
  qed
  show ?thesis
    by (cases "i < 0"; cases "j < 0")
      (simp_all add: int_to_string_def to_string_inj ne ne [symmetric] eq_nat_nat_iff)
qed

lemma int_no_hash: "CHR ''#'' \<notin> set (int_to_string i)"
  using digits_no_hash by (auto simp: int_to_string_def)

lemma literalKey_inj:
  assumes "literalKey dtxt v = literalKey dtxt w"
    and "\<And>d e. v = LV (Lit_Double d) \<Longrightarrow> w = LV (Lit_Double e) \<Longrightarrow> dtxt d = dtxt e \<Longrightarrow> d = e"
  shows "v = w"
  using assms
  by (cases "(dtxt, v)" rule: literalKey.cases; cases "(dtxt, w)" rule: literalKey.cases)
    (auto simp: int_to_string_inj split: if_splits)

lemma op_code_inj: "op_code a = op_code b \<longleftrightarrow> a = b"
  by (cases a; cases b) auto

lemma predicateKey_column:
  assumes "CHR ''#'' \<notin> set (pp_column p)" and "CHR ''#'' \<notin> set (pp_column q)"
    and "predicateKey dtxt p = predicateKey dtxt q"
  shows "pp_column p = pp_column q"
  using hash_split [OF assms(1,2)] assms(3) by (simp add: predicateKey_def)

lemma predicateKey_same_test:
  assumes "keys_exact dtxt ps" and "p \<in> set ps" and "q \<in> set ps" and "predicateKey dtxt p = predicateKey dtxt q"
  shows "same_test p q"
proof -
  let ?h = "CHR ''#''"
  let ?tail = "\<lambda>p. to_string (op_code (pp_op p)) # map (literalKey dtxt) (pp_values p)"
  have shape: "predicateKey dtxt p = pp_column p @ concat (map ((#) ?h) (?tail p))" for p
    by (simp add: predicateKey_def o_def)
  have plain: "?h \<notin> set (pp_column x)" if "x \<in> set ps" for x using assms(1) that by (simp add: keys_exact_def)
  have tail: "\<forall>t\<in>set (?tail x). ?h \<notin> set t" if "x \<in> set ps" for x
  proof -
    have "?h \<notin> set (literalKey dtxt v)" if "v \<in> set (pp_values x)" for v
      using assms(1) \<open>x \<in> set ps\<close> that int_no_hash
      by (cases "(dtxt, v)" rule: literalKey.cases) (auto simp: keys_exact_def)
    then show ?thesis using digits_no_hash by auto
  qed
  have "pp_column p = pp_column q \<and> concat (map ((#) ?h) (?tail p)) = concat (map ((#) ?h) (?tail q))"
    using assms(4) hash_split [OF plain [OF assms(2)] plain [OF assms(3)]] unfolding shape by simp
  then have eq: "pp_column p = pp_column q" "?tail p = ?tail q"
    using hash_items [OF tail [OF assms(2)] tail [OF assms(3)]] by blast+
  then have op: "pp_op p = pp_op q" by (simp add: to_string_inj op_code_inj)
  have keys: "map (literalKey dtxt) (pp_values p) = map (literalKey dtxt) (pp_values q)" using eq(2) by simp
  have "pp_values p = pp_values q"
  proof (rule nth_equalityI)
    show "length (pp_values p) = length (pp_values q)" using keys by (metis length_map)
    fix i
    assume i: "i < length (pp_values p)"
    then have i': "i < length (pp_values q)" using keys by (metis length_map)
    have "literalKey dtxt (pp_values p ! i) = literalKey dtxt (pp_values q ! i)" using keys i i' by (metis nth_map)
    then show "pp_values p ! i = pp_values q ! i"
    proof (rule literalKey_inj)
      fix d e
      assume "pp_values p ! i = LV (Lit_Double d)" "pp_values q ! i = LV (Lit_Double e)" "dtxt d = dtxt e"
      moreover have "pp_values p ! i \<in> set (pp_values p)" "pp_values q ! i \<in> set (pp_values q)" using i i' by simp_all
      ultimately have "d \<in> predicate_doubles ps" "e \<in> predicate_doubles ps"
        using assms(2,3) by (auto simp: predicate_doubles_def)
      then show "d = e" using assms(1) \<open>dtxt d = dtxt e\<close> by (auto simp: keys_exact_def inj_on_def)
    qed
  qed
  then show ?thesis using eq(1) op by (simp add: same_test_def)
qed

lemma dedupe_loop_keys:
  "insert_keys \<union> predicateKey dtxt ` set (dedupe_loop dtxt seen ps) \<supseteq> predicateKey dtxt ` set ps"
  if "seen \<subseteq> insert_keys"
  using that
proof (induction ps arbitrary: seen insert_keys)
  case (Cons p ps)
  show ?case
  proof (cases "predicateKey dtxt p \<in> seen")
    case True
    then show ?thesis using Cons.IH [OF Cons.prems] Cons.prems by (auto simp: Let_def)
  next
    case False
    have "insert (predicateKey dtxt p) seen \<subseteq> insert (predicateKey dtxt p) insert_keys" using Cons.prems by blast
    from Cons.IH [OF this] show ?thesis using False by (simp add: Let_def)
  qed
qed simp

lemma dedupe_loop_subseq: "subseq (dedupe_loop dtxt seen ps) ps"
proof (induction ps arbitrary: seen)
  case (Cons p ps)
  then show ?case by (auto simp: Let_def intro: list_emb_Cons)
qed simp

lemma dedupe_keys: "predicateKey dtxt ` set ps \<subseteq> predicateKey dtxt ` set (dedupe dtxt ps)"
  using dedupe_loop_keys [of "{}" "{}" dtxt ps] by (simp add: dedupe_def)

lemma dedupe_subseq: "subseq (dedupe dtxt ps) ps"
  by (simp add: dedupe_def dedupe_loop_subseq)

lemma dedupe_subset: "set (dedupe dtxt ps) \<subseteq> set ps"
  using list_emb_set [OF dedupe_subseq [of dtxt ps]] by auto

lemma dedupe_loop_distinct:
  "distinct (map (predicateKey dtxt) (dedupe_loop dtxt seen ps)) \<and>
   predicateKey dtxt ` set (dedupe_loop dtxt seen ps) \<inter> seen = {}"
proof (induction ps arbitrary: seen)
  case (Cons p ps)
  then show ?case using Cons.IH [of seen] Cons.IH [of "insert (predicateKey dtxt p) seen"]
    by (auto simp: Let_def)
qed simp

definition test_of :: "PlannerPredicate \<Rightarrow> string \<times> PredicateOp \<times> LiteralValue list" where
  "test_of p = (pp_column p, pp_op p, pp_values p)"

lemma dedupe_distinct: "distinct (map test_of (dedupe dtxt ps))"
proof -
  let ?key = "\<lambda>(c, op, vs). c @ ''#'' @ to_string (op_code op) @ concat (map (\<lambda>v. ''#'' @ literalKey dtxt v) vs)"
  have "predicateKey dtxt = ?key \<circ> test_of" by (simp add: fun_eq_iff predicateKey_def test_of_def)
  then have "distinct (map ?key (map test_of (dedupe dtxt ps)))"
    using dedupe_loop_distinct [of dtxt "{}" ps] by (simp add: dedupe_def)
  then show ?thesis by (rule distinct_map [THEN iffD1, THEN conjunct1])
qed

text \<open>
  C37. Constant folding removes duplicates and nothing else, on a list of predicates whose names and
  string literals contain no separator \<open>#\<close> and whose doubles print differently: every predicate of the
  list has a predicate in the result with the same column, operator and values, no two predicates of
  the result have these in common, and the result keeps the order.
\<close>

theorem folding_removes_only_duplicates:
  assumes "keys_exact dtxt ps"
  shows "(\<forall>p\<in>set ps. \<exists>q\<in>set (dedupe dtxt ps). same_test p q) \<and> subseq (dedupe dtxt ps) ps \<and>
    distinct (map test_of (dedupe dtxt ps))"
proof (intro conjI ballI)
  fix p
  assume p: "p \<in> set ps"
  then obtain q where q: "q \<in> set (dedupe dtxt ps)" "predicateKey dtxt p = predicateKey dtxt q"
    using dedupe_keys [of dtxt ps] by blast
  then have "same_test p q" using predicateKey_same_test [OF assms p] dedupe_subset by blast
  then show "\<exists>q\<in>set (dedupe dtxt ps). same_test p q" using q(1) by blast
qed (rule dedupe_subseq dedupe_distinct)+

definition ex_test :: "string \<Rightarrow> literal \<Rightarrow> PlannerPredicate" where
  "ex_test c v = \<lparr>pp_column = c, pp_table_alias = [], pp_op = GT, pp_values = [LV v],
     pp_column_type = CT_INT, pp_required_column = False, pp_pushable_ops = {}, pp_filterable_ops = {}\<rparr>"

theorem folding_removes_only_duplicates_witness:
  "dedupe (\<lambda>d. if d = 1 then ''1.000000'' else []) [ex_test ''x'' (Lit_Double 1), ex_test ''x'' (Lit_Double 2), ex_test ''x'' (Lit_Double 1),
      ex_test ''y'' (Lit_String ''a'')] =
     [ex_test ''x'' (Lit_Double 1), ex_test ''x'' (Lit_Double 2), ex_test ''y'' (Lit_String ''a'')] \<and>
   (\<exists>q\<in>set [ex_test ''x'' (Lit_Double 1), ex_test ''x'' (Lit_Double 2), ex_test ''y'' (Lit_String ''a'')].
      same_test (ex_test ''x'' (Lit_Double 1)) q)"
proof -
  let ?t = "\<lambda>d :: u64. if d = 1 then ''1.000000'' else []"
  let ?ps = "[ex_test ''x'' (Lit_Double 1), ex_test ''x'' (Lit_Double 2), ex_test ''x'' (Lit_Double 1),
      ex_test ''y'' (Lit_String ''a'')]"
  let ?qs = "[ex_test ''x'' (Lit_Double 1), ex_test ''x'' (Lit_Double 2), ex_test ''y'' (Lit_String ''a'')]"
  have d: "dedupe ?t ?ps = ?qs" by (simp add: dedupe_def ex_test_def predicateKey_def Let_def)
  have "predicate_doubles ?ps = {1, 2}" by (auto simp: predicate_doubles_def ex_test_def)
  then have "keys_exact ?t ?ps" by (auto simp: keys_exact_def ex_test_def inj_on_def)
  from folding_removes_only_duplicates [OF this] have
    "\<forall>p\<in>set ?ps. \<exists>q\<in>set ?qs. same_test p q" unfolding d by blast
  then show ?thesis using d by simp
qed

text \<open>
  Without those conditions folding drops predicates that test something else: two predicates on
  doubles that \<open>std::to_string\<close> prints alike (six decimals: \<open>1e-7\<close> and \<open>2e-7\<close> both print \<open>0.000000\<close>)
  collapse into the first, and so do an \<open>IN\<close> on the one string \<open>a#s:b\<close> and an \<open>IN\<close> on \<open>a\<close> and \<open>b\<close>.
\<close>

theorem folding_drops_a_test:
  assumes "dtxt d = dtxt e" and "d \<noteq> e"
  shows "\<not> same_test (p\<lparr>pp_values := [LV (Lit_Double d)]\<rparr>) (p\<lparr>pp_values := [LV (Lit_Double e)]\<rparr>) \<and>
    dedupe dtxt [p\<lparr>pp_values := [LV (Lit_Double d)]\<rparr>, p\<lparr>pp_values := [LV (Lit_Double e)]\<rparr>] =
      [p\<lparr>pp_values := [LV (Lit_Double d)]\<rparr>] \<and>
    dedupe dtxt [p\<lparr>pp_op := IN, pp_values := [LV (Lit_String ''a#s:b'')]\<rparr>,
        p\<lparr>pp_op := IN, pp_values := [LV (Lit_String ''a''), LV (Lit_String ''b'')]\<rparr>] =
      [p\<lparr>pp_op := IN, pp_values := [LV (Lit_String ''a#s:b'')]\<rparr>]"
  using assms by (simp add: same_test_def dedupe_def predicateKey_def)

theorem folding_drops_a_test_witness:
  "dedupe (\<lambda>d. ''0.000000'')
     [\<lparr>pp_column = ''x'', pp_table_alias = [], pp_op = GT, pp_values = [LV (Lit_Double 1)],
       pp_column_type = CT_NATIVE_VALUE, pp_required_column = False, pp_pushable_ops = {}, pp_filterable_ops = {}\<rparr>,
      \<lparr>pp_column = ''x'', pp_table_alias = [], pp_op = GT, pp_values = [LV (Lit_Double 2)],
       pp_column_type = CT_NATIVE_VALUE, pp_required_column = False, pp_pushable_ops = {}, pp_filterable_ops = {}\<rparr>] =
     [\<lparr>pp_column = ''x'', pp_table_alias = [], pp_op = GT, pp_values = [LV (Lit_Double 1)],
       pp_column_type = CT_NATIVE_VALUE, pp_required_column = False, pp_pushable_ops = {}, pp_filterable_ops = {}\<rparr>]"
  using folding_drops_a_test [of "\<lambda>d. ''0.000000''" 1 2 "\<lparr>pp_column = ''x'', pp_table_alias = [], pp_op = GT, pp_values = [],
       pp_column_type = CT_NATIVE_VALUE, pp_required_column = False, pp_pushable_ops = {}, pp_filterable_ops = {}\<rparr>"]
  by simp

section \<open>Type checking\<close>

definition bound_tables :: "'q BoundSelect \<Rightarrow> 'q BoundTable list" where
  "bound_tables b = bs_from b # map bj_table (bs_joins b)"

fun group_leaves :: "PlannerPredicateGroup \<Rightarrow> PlannerPredicate list" where
  "group_leaves (PG_Leaf p) = [p]"
| "group_leaves (PG_And gs) = concat (map group_leaves gs)"
| "group_leaves (PG_Or gs) = concat (map group_leaves gs)"
| "group_leaves (PG_Not gs) = concat (map group_leaves gs)"

definition well_typed :: "PlannerPredicate \<Rightarrow> bool" where
  "well_typed p = (\<forall>v\<in>set (pp_values p). literal_fits (pp_column_type p) v)"

lemma check_value_fits: "check_value now column t v = Inr w \<Longrightarrow> literal_fits t w"
  by (auto simp: check_value_def enforceLiteralType_def split: LiteralValue.splits if_splits sum.splits)

lemma check_predicate_result:
  "check_predicate now p = Inr q \<Longrightarrow> well_typed q \<and> (\<exists>vs. q = p\<lparr>pp_values := vs\<rparr>)"
  by (auto simp: check_predicate_def well_typed_def mapE_Inr_iff in_set_conv_nth list_all2_conv_all_nth
      dest!: check_value_fits split: sum.splits)

lemma check_group_typed: "check_group now g = Inr h \<Longrightarrow> \<forall>p\<in>set (group_leaves h). well_typed p"
proof (induction g arbitrary: h)
  case (PG_Leaf p)
  then show ?case using check_predicate_result by (auto split: sum.splits)
next
  case (PG_And gs)
  then obtain hs where hs: "mapE (check_group now) gs = Inr hs" "h = PG_And hs" by (auto split: sum.splits)
  have "\<forall>h\<in>set hs. \<forall>p\<in>set (group_leaves h). well_typed p" by (rule mapE_all [OF hs(1)]) (rule PG_And.IH)
  then show ?case using hs(2) by simp
next
  case (PG_Or gs)
  then obtain hs where hs: "mapE (check_group now) gs = Inr hs" "h = PG_Or hs" by (auto split: sum.splits)
  have "\<forall>h\<in>set hs. \<forall>p\<in>set (group_leaves h). well_typed p" by (rule mapE_all [OF hs(1)]) (rule PG_Or.IH)
  then show ?case using hs(2) by simp
next
  case (PG_Not gs)
  then obtain hs where hs: "mapE (check_group now) gs = Inr hs" "h = PG_Not hs" by (auto split: sum.splits)
  have "\<forall>h\<in>set hs. \<forall>p\<in>set (group_leaves h). well_typed p" by (rule mapE_all [OF hs(1)]) (rule PG_Not.IH)
  then show ?case using hs(2) by simp
qed

text \<open>Two tables that differ at most in the values of their predicates and in the window.\<close>

definition checked_table :: "'q BoundTable \<Rightarrow> 'q BoundTable \<Rightarrow> bool" where
  "checked_table t u =
     ((\<exists>ps gs w. u = t\<lparr>bt_predicates := ps, bt_predicate_groups := gs, bt_window_literal := w\<rparr>) \<and>
      list_all2 (\<lambda>p q. \<exists>vs. q = p\<lparr>pp_values := vs\<rparr>) (bt_predicates t) (bt_predicates u) \<and>
      (\<forall>p\<in>set (bt_predicates u). well_typed p) \<and>
      (\<forall>g\<in>set (bt_predicate_groups u). \<forall>p\<in>set (group_leaves g). well_typed p))"



lemma check_filters_result:
  assumes "check_filters now t = Inr u"
  shows "checked_table t u \<and> bt_window_literal u = bt_window_literal t"
proof -
  obtain ps gs where pg: "mapE (check_predicate now) (bt_predicates t) = Inr ps"
    "mapE (check_group now) (bt_predicate_groups t) = Inr gs"
    "u = t\<lparr>bt_predicates := ps, bt_predicate_groups := gs\<rparr>"
    using assms by (auto simp: check_filters_def split: sum.splits)
  have "list_all2 (\<lambda>p q. \<exists>vs. q = p\<lparr>pp_values := vs\<rparr>) (bt_predicates t) ps"
    using pg(1) check_predicate_result by (auto simp: mapE_Inr_iff elim!: list_all2_mono)
  moreover have "\<forall>p\<in>set ps. well_typed p" by (rule mapE_all [OF pg(1)]) (simp add: check_predicate_result)
  moreover have "\<forall>g\<in>set gs. \<forall>p\<in>set (group_leaves g). well_typed p"
    by (rule mapE_all [OF pg(2)]) (simp add: check_group_typed)
  moreover have "\<exists>w. u = t\<lparr>bt_predicates := ps, bt_predicate_groups := gs, bt_window_literal := w\<rparr>"
    by (rule exI [of _ "bt_window_literal t"]) (simp add: pg(3))
  ultimately show ?thesis by (auto simp: checked_table_def pg(3))
qed

definition window_ordered :: "'q BoundTable \<Rightarrow> bool" where
  "window_ordered t =
     (case bt_window_literal t of
        None \<Rightarrow> True
      | Some (LV (Lit_Int x), LV (Lit_Int y)) \<Rightarrow> x \<le> y
      | _ \<Rightarrow> False)"

lemma check_from_result:
  assumes "check_from now t = Inr u"
  shows "checked_table t u \<and> window_ordered u"
proof -
  obtain v where v: "check_filters now t = Inr v" using assms by (auto simp: check_from_def split: sum.splits)
  note c = check_filters_result [OF v]
  show ?thesis
  proof (cases "bt_window_literal v")
    case None
    then show ?thesis using assms v c by (simp add: check_from_def window_ordered_def)
  next
    case (Some w)
    then obtain w' where w': "check_window now w = Inr w'" "u = v\<lparr>bt_window_literal := Some w'\<rparr>"
      using assms v by (auto simp: check_from_def split: sum.splits)
    have "window_ordered u"
      using w' by (auto simp: check_window_def window_ordered_def split: sum.splits LiteralValue.splits literal.splits if_splits)
    moreover have "checked_table t u"
    proof -
      obtain ps gs wl where "v = t\<lparr>bt_predicates := ps, bt_predicate_groups := gs, bt_window_literal := wl\<rparr>"
        using c unfolding checked_table_def by blast
      then have "u = t\<lparr>bt_predicates := ps, bt_predicate_groups := gs, bt_window_literal := Some w'\<rparr>"
        unfolding w'(2) by simp
      then have "\<exists>ps gs wl. u = t\<lparr>bt_predicates := ps, bt_predicate_groups := gs, bt_window_literal := wl\<rparr>" by blast
      moreover have "bt_predicates u = bt_predicates v" "bt_predicate_groups u = bt_predicate_groups v"
        unfolding w'(2) by simp_all
      ultimately show ?thesis using c unfolding checked_table_def by simp
    qed
    ultimately show ?thesis by simp
  qed
qed

lemma typeCheckSelect_result:
  assumes "typeCheckSelect now b = Inr c"
  shows "list_all2 checked_table (bound_tables b) (bound_tables c) \<and> window_ordered (bs_from c) \<and>
    (\<exists>t js. c = b\<lparr>bs_from := t, bs_joins := js\<rparr> \<and>
       list_all2 (\<lambda>j k. \<exists>u. k = j\<lparr>bj_table := u\<rparr>) (bs_joins b) js)"
proof -
  obtain t js where tj: "check_from now (bs_from b) = Inr t" "mapE (check_join now) (bs_joins b) = Inr js"
    "c = b\<lparr>bs_from := t, bs_joins := js\<rparr>"
    using assms by (auto simp: typeCheckSelect_def split: sum.splits)
  have j: "\<exists>u. k = j\<lparr>bj_table := u\<rparr> \<and> checked_table (bj_table j) u" if "check_join now j = Inr k" for j k
    using that check_filters_result by (auto simp: check_join_def split: sum.splits)
  have all: "list_all2 (\<lambda>j k. \<exists>u. k = j\<lparr>bj_table := u\<rparr> \<and> checked_table (bj_table j) u) (bs_joins b) js"
    using tj(2) j by (auto simp: mapE_Inr_iff elim!: list_all2_mono)
  then have "list_all2 checked_table (map bj_table (bs_joins b)) (map bj_table js)"
    by (auto simp: list_all2_map1 list_all2_map2 elim!: list_all2_mono)
  moreover have "list_all2 (\<lambda>j k. \<exists>u. k = j\<lparr>bj_table := u\<rparr>) (bs_joins b) js"
    using all by (rule list_all2_mono) blast
  ultimately show ?thesis using check_from_result [OF tj(1)] tj(3) by (auto simp: bound_tables_def)
qed

text \<open>
  C34. A statement that passes the type checker is well typed: every literal of every predicate, in the
  conjuncts and in the boolean trees of every table, fits the type of its column, no \<open>NOW\<close> is left,
  and the ends of a literal window are in order.  Nothing else changes: each table keeps all but the
  values of its predicates and its window, each predicate its column and operator.
\<close>

theorem type_check_establishes_types:
  "case typeCheckSelect now b of
     Inl e \<Rightarrow> True
   | Inr c \<Rightarrow> list_all2 checked_table (bound_tables b) (bound_tables c) \<and> window_ordered (bs_from c)"
  using typeCheckSelect_result [of now b] by (simp split: sum.splits)

end
