(* ===== verification/Plan_Required.thy ===== *)
theory Plan_Required
  imports Plan_Facts
begin

text \<open>
  The check of required columns at the end of the passes, stated on the statement the planner was
  given: the passes in between neither hide a pushable predicate from the check nor forge one.
\<close>

section \<open>What the passes keep of a scan\<close>

definition scan_core ::
  "'q LogicalScan \<Rightarrow> string \<times> ColumnSchema list \<times> 'q BoundInSubquery list \<times> string set" where
  "scan_core s = (ls_table_alias s, ls_schema s, ls_in_subqueries s, pp_column ` set (ls_pushable_predicates s))"

text \<open>The check reads the scans through their cores only, and as a set.\<close>

definition core_ok ::
  "(string \<times> string) set \<Rightarrow> string \<times> ColumnSchema list \<times> 'q BoundInSubquery list \<times> string set \<Rightarrow> bool" where
  "core_ok joins x = (case x of (alias_name, schema, subqueries, cols) \<Rightarrow>
     \<forall>c\<in>set schema. cs_required c \<longrightarrow> cs_name c \<in> cols \<or>
       (\<exists>q\<in>set subqueries. pp_column (bi_predicate q) = cs_name c \<and> IN \<in> pp_pushable_ops (bi_predicate q)) \<or>
       (alias_name, cs_name c) \<in> joins)"

lemma check_columns_ok:
  "check_columns joins s cs = Inr () \<longleftrightarrow> (\<forall>c\<in>set cs. cs_required c \<longrightarrow> column_covered joins s c)"
  by (induction cs) auto

lemma check_scans_ok:
  "check_scans joins ss = Inr () \<longleftrightarrow> (\<forall>s\<in>set ss. core_ok joins (scan_core s))"
proof (induction ss)
  case (Cons s ss)
  have "check_columns joins s (ls_schema s) = Inr () \<longleftrightarrow> core_ok joins (scan_core s)"
    by (auto simp: check_columns_ok core_ok_def scan_core_def column_covered_def image_iff) metis+
  then show ?case using Cons by (auto split: sum.splits)
qed simp

lemma requiredColumnCheck_ok:
  "requiredColumnCheck n = Inr () \<longleftrightarrow> (\<forall>x\<in>scan_core ` set (plan_scans n). core_ok (join_columns n) x)"
  by (simp add: requiredColumnCheck_def check_scans_ok)

section \<open>Pruning and folding\<close>

lemma hint_scans:
  "map scan_core (plan_scans (applyProjectionHint cols sel n)) = map scan_core (plan_scans n) \<and>
   join_columns (applyProjectionHint cols sel n) = join_columns n"
  by (induction cols sel n rule: applyProjectionHint.induct) (simp_all add: hint_scan_def scan_core_def Let_def)

lemma dedupe_columns:
  assumes "\<forall>p\<in>set ps. CHR ''#'' \<notin> set (pp_column p)"
  shows "pp_column ` set (dedupe dtxt ps) = pp_column ` set ps"
proof
  show "pp_column ` set (dedupe dtxt ps) \<subseteq> pp_column ` set ps" using dedupe_subset by blast
  show "pp_column ` set ps \<subseteq> pp_column ` set (dedupe dtxt ps)"
  proof (rule image_subsetI)
    fix p
    assume p: "p \<in> set ps"
    then obtain q where q: "q \<in> set (dedupe dtxt ps)" "predicateKey dtxt p = predicateKey dtxt q"
      using dedupe_keys [of dtxt ps] by blast
    then have "pp_column p = pp_column q"
      using predicateKey_column [of p q dtxt] assms p dedupe_subset by blast
    then show "pp_column p \<in> pp_column ` set (dedupe dtxt ps)" using q(1) by blast
  qed
qed

definition plain_columns :: "'q LogicalScan list \<Rightarrow> bool" where
  "plain_columns ss = (\<forall>s\<in>set ss. \<forall>p\<in>set (ls_pushable_predicates s). CHR ''#'' \<notin> set (pp_column p))"

lemma folding_scans:
  "plain_columns (plan_scans n) \<Longrightarrow>
     map scan_core (plan_scans (applyConstantFolding dtxt n)) = map scan_core (plan_scans n) \<and>
     join_columns (applyConstantFolding dtxt n) = join_columns n"
proof (induction n)
  case (L_Join j l r)
  then have "plain_columns (plan_scans l)" "plain_columns (plan_scans r)" by (auto simp: plain_columns_def)
  then show ?case using L_Join.IH by (simp add: condition_keys_def)
qed (simp_all add: scan_core_def plain_columns_def dedupe_columns)

section \<open>Join order\<close>

lemma condition_keys_swap: "condition_keys (swap_condition j) = condition_keys j"
  by (auto simp: condition_keys_def swap_condition_def)

lemma condition_keys_cong: "lj_condition k = lj_condition j \<Longrightarrow> condition_keys k = condition_keys j"
  by (simp add: condition_keys_def)

lemma commuted_scans:
  "join_commuted n m \<Longrightarrow> set (plan_scans m) = set (plan_scans n) \<and> join_columns m = join_columns n"
proof (induction rule: join_commuted.induct)
  case (jc_join l l' r r' k j)
  then show ?case using condition_keys_cong [of k j] by simp
next
  case (jc_swap l l' r r' j k)
  then show ?case using condition_keys_cong [of k "swap_condition j"] condition_keys_swap [of j] by auto
qed simp_all

section \<open>Pushdown\<close>

text \<open>The scan of a table after the pass.\<close>

definition pushed_scan :: "'q BoundSelect \<Rightarrow> 'q BoundTable \<Rightarrow> 'q LogicalScan" where
  "pushed_scan b t = (table_scan b t)\<lparr>ls_pushable_predicates := filter pushable (bt_predicates t)\<rparr>"

lemma pushdown_unary [simp]:
  "applyPredicatePushdown (L_Project p n) = L_Project p (applyPredicatePushdown n)"
  "applyPredicatePushdown (L_Sort k n) = L_Sort k (applyPredicatePushdown n)"
  "applyPredicatePushdown (L_Limit lim n) = L_Limit lim (applyPredicatePushdown n)"
  "applyPredicatePushdown (L_Aggregate a n) = L_Aggregate a (applyPredicatePushdown n)"
  "applyPredicatePushdown (L_Window w n) = L_Window w (applyPredicatePushdown n)"
  "applyPredicatePushdown (L_Join j l r) = L_Join j (applyPredicatePushdown l) (applyPredicatePushdown r)"
  "applyPredicatePushdown (L_Filter f n) = push_filter f (applyPredicatePushdown n)"
  "applyPredicatePushdown (L_Scan s) = L_Scan s"
  by (subst applyPredicatePushdown.simps, simp)+

lemma push_filter_scans:
  "lf_predicates f = [] \<Longrightarrow> plan_scans (push_filter f n) = plan_scans n"
  by (cases n) (simp_all add: push_filter_def Let_def)

lemma push_filter_joins: "join_columns (push_filter f n) = join_columns n"
  by (cases n) (simp_all add: push_filter_def Let_def split: prod.splits)

lemma pushdown_joins: "join_columns (applyPredicatePushdown n) = join_columns n"
proof (induction n rule: applyPredicatePushdown.induct)
  case (1 n)
  then show ?case by (cases n) (simp_all add: push_filter_joins, simp add: applyPredicatePushdown.simps)
qed

lemma table_scans: "plan_scans (applyPredicatePushdown (buildTableSubtree b t)) = [pushed_scan b t]"
  by (simp add: buildTableSubtree_def pushed_scan_def push_filter_def push_loop_result Let_def)
    (simp add: table_scan_def)

lemma join_scans:
  "plan_scans (applyPredicatePushdown (foldl (add_join b) n js)) =
     plan_scans (applyPredicatePushdown n) @ map (pushed_scan b \<circ> bj_table) js"
  by (induction js arbitrary: n) (simp_all add: add_join_def table_scans)

lemma projection_scans:
  "plan_scans (applyPredicatePushdown (add_projection b n)) = plan_scans (applyPredicatePushdown n)"
  by (simp add: add_projection_def)

lemma pushed_plan_scans:
  "plan_scans (applyPredicatePushdown (buildLogicalPlan b)) = map (pushed_scan b) (bound_tables b)"
  by (simp add: buildLogicalPlan_def Let_def projection_scans push_filter_scans join_scans table_scans bound_tables_def
      split: option.splits)

text \<open>The join keys of the statement.\<close>

definition join_keys :: "'q BoundSelect \<Rightarrow> (string \<times> string) set" where
  "join_keys b =
     {k. \<exists>j\<in>set (bs_joins b). k \<in> {splitQualified (jc_left_column (bj_condition j)),
        splitQualified (jc_right_column (bj_condition j))} \<and> fst k \<noteq> []}"

lemma table_join_columns: "join_columns (buildTableSubtree b t) = {}"
  by (simp add: buildTableSubtree_def)

lemma joined_columns:
  "join_columns (foldl (add_join b) n js) = join_columns n \<union>
     {k. \<exists>j\<in>set js. k \<in> {splitQualified (jc_left_column (bj_condition j)),
        splitQualified (jc_right_column (bj_condition j))} \<and> fst k \<noteq> []}"
  by (induction js arbitrary: n) (auto simp: add_join_def table_join_columns condition_keys_def)

lemma plan_join_columns: "join_columns (buildLogicalPlan b) = join_keys b"
  by (simp add: buildLogicalPlan_def Let_def add_projection_def joined_columns table_join_columns join_keys_def
      split: option.splits)

section \<open>Properties\<close>

text \<open>A required column of a table is constrained by the statement.\<close>

definition constrained :: "'q BoundSelect \<Rightarrow> 'q BoundTable \<Rightarrow> ColumnSchema \<Rightarrow> bool" where
  "constrained b t c =
     ((\<exists>p\<in>set (bt_predicates t). pushable p \<and> pp_column p = cs_name c) \<or>
      (\<exists>q\<in>set (bt_in_subqueries t). pp_column (bi_predicate q) = cs_name c \<and> IN \<in> pp_pushable_ops (bi_predicate q)) \<or>
      (bt_table_alias t, cs_name c) \<in> join_keys b)"

text \<open>
  C32. The planner accepts a well-typed statement exactly when every required column of every table has
  a pushable predicate among the conjuncts of the \<open>WHERE\<close> clause, a pushable \<open>IN\<close> subquery, or is a
  key of a join: pushdown, join order, folding and pruning neither lose such a predicate nor invent
  one.  (Names of columns contain no \<open>#\<close>.)
\<close>

theorem planning_rejects_iff_unconstrained:
  assumes "typeCheckSelect now b = Inr c"
    and "\<forall>t\<in>set (bound_tables c). \<forall>p\<in>set (bt_predicates t). CHR ''#'' \<notin> set (pp_column p)"
  shows "(\<exists>n. plan_select dtxt now b = Inr n) \<longleftrightarrow>
    (\<forall>t\<in>set (bound_tables c). \<forall>col\<in>set (bt_schema t). cs_required col \<longrightarrow> constrained c t col)"
proof -
  let ?p1 = "applyPredicatePushdown (buildLogicalPlan c)"
  let ?p2 = "applyJoinOrderOptimizer ?p1"
  let ?p3 = "applyConstantFolding dtxt ?p2"
  let ?p4 = "applyColumnPruning ?p3"
  have s2: "set (plan_scans ?p2) = pushed_scan c ` set (bound_tables c)" "join_columns ?p2 = join_keys c"
    using commuted_scans [OF join_order_commutes [of ?p1]]
    by (simp_all add: pushed_plan_scans pushdown_joins plan_join_columns)
  have "plain_columns (plan_scans ?p2)"
    using assms(2) s2(1) by (auto simp: plain_columns_def pushed_scan_def)
  then have "map scan_core (plan_scans ?p3) = map scan_core (plan_scans ?p2) \<and> join_columns ?p3 = join_columns ?p2"
    by (rule folding_scans)
  then have "scan_core ` set (plan_scans ?p4) = scan_core ` pushed_scan c ` set (bound_tables c)"
    "join_columns ?p4 = join_keys c"
    using hint_scans [of _ True ?p3] s2 unfolding applyColumnPruning_def by (metis set_map, metis)
  then have "requiredColumnCheck ?p4 = Inr () \<longleftrightarrow>
      (\<forall>t\<in>set (bound_tables c). core_ok (join_keys c) (scan_core (pushed_scan c t)))"
    by (simp add: requiredColumnCheck_ok)
  moreover have "core_ok (join_keys c) (scan_core (pushed_scan c t)) \<longleftrightarrow>
      (\<forall>col\<in>set (bt_schema t). cs_required col \<longrightarrow> constrained c t col)" for t
    by (auto simp: core_ok_def scan_core_def pushed_scan_def table_scan_def constrained_def image_iff) metis+
  moreover have "(\<exists>n. plan_select dtxt now b = Inr n) \<longleftrightarrow> requiredColumnCheck ?p4 = Inr ()"
    using assms(1) by (simp add: plan_select_def Let_def split: sum.splits)
  ultimately show ?thesis by simp
qed

text \<open>A table with one required column and no predicate, for the examples.\<close>

definition example_table :: "unit BoundTable" where
  "example_table =
     \<lparr>bt_table_name = ''t'', bt_table_alias = ''t'',
      bt_schema = [\<lparr>cs_name = ''pv'', cs_type = CT_STRING, cs_required = True, cs_is_output = True,
                    cs_pushable_ops = {EQ}, cs_filterable_ops = {}\<rparr>],
      bt_predicates = [], bt_predicate_groups = [], bt_ipc_path = [], bt_arrow_ipc = False, bt_derived_query = None,
      bt_in_subqueries = [], bt_window_subquery = None, bt_window_literal = None,
      bt_window_shards = \<lparr>ws_slice_ns = 0, ws_series_per_shard = 1\<rparr>\<rparr>"

definition example_select :: "unit BoundSelect" where
  "example_select =
     \<lparr>bs_from = example_table, bs_joins = [], bs_distinct = False, bs_distinct_on = [], bs_aggregate = None,
      bs_windows = [], bs_select_all = True, bs_select_columns = [], bs_select_expressions = [], bs_select_names = [],
      bs_order_by = [], bs_limit = None, bs_conditions = []\<rparr>"

theorem planning_rejects_iff_unconstrained_witness:
  "\<not> (\<exists>n. plan_select (\<lambda>d. []) 0 example_select = Inr n)"
proof -
  have c: "typeCheckSelect 0 example_select = Inr example_select"
    by (simp add: typeCheckSelect_def check_from_def check_filters_def example_select_def example_table_def)
  show ?thesis
    by (subst planning_rejects_iff_unconstrained [OF c])
      (simp_all add: bound_tables_def example_select_def example_table_def constrained_def join_keys_def)
qed

end
