(* ===== verification/Window_Order.thy ===== *)
theory Window_Order
  imports Aggregate_Value Stable_Sort "HOL-Library.List_Lexorder"
begin

text \<open>
  The order of the window evaluator (\<open>src/query/executor/WindowEvaluator.cpp\<close>): comparison of keys and
  rows, and the sort that precedes the evaluation of a window group, with its short cut for input that
  is expected in order.

  An evaluated row holds the row of the input, the values of the \<open>PARTITION BY\<close> and \<open>ORDER BY\<close> keys,
  and per call the argument and the default; an absent argument or default is a \<open>V_NUL\<close> that no
  operation reads.  The expressions were evaluated by \<open>applyProjection\<close> before.
\<close>

section \<open>Comparison\<close>

record 'r WindowRow =
  wr_input :: 'r
  wr_partition :: "OwnedValue list"
  wr_order :: "OwnedValue list"
  wr_arguments :: "OwnedValue list"
  wr_defaults :: "OwnedValue list"

definition window_failed :: "string \<Rightarrow> exn" where
  "window_failed message = RuntimeError (''Window function failed: '' @ message)"

definition not_scalar :: exn where
  "not_scalar = window_failed ''PARTITION BY, ORDER BY and MIN/MAX values must be scalar''"

fun kind_code :: "OwnedValue \<Rightarrow> nat" where
  "kind_code V_NUL = 0"
| "kind_code (V_INT _) = 1"
| "kind_code (V_DOUBLE _) = 2"
| "kind_code (V_BOOL _) = 3"
| "kind_code (V_STRING _) = 4"
| "kind_code (V_OTHER _) = 5"

text \<open>The sign of a comparison of doubles; a NaN is neither before nor after anything.\<close>

definition compare_doubles :: "u64 \<Rightarrow> u64 \<Rightarrow> int" where
  "compare_doubles a b = of_bool (d_lt b a) - of_bool (d_lt a b)"

fun compareRefs :: "OwnedValue \<Rightarrow> OwnedValue \<Rightarrow> exn + int" where
  "compareRefs (V_INT a) (V_INT b) = Inr (of_bool (sint a > sint b) - of_bool (sint a < sint b))"
| "compareRefs (V_STRING a) (V_STRING b) = Inr (compare_text a b)"
| "compareRefs (V_BOOL a) (V_BOOL b) = Inr (of_bool a - of_bool b)"
| "compareRefs a b =
     (if numeric a \<and> numeric b then Inr (compare_doubles (asDouble a) (asDouble b))
      else if kind_code a = 5 \<or> kind_code b = 5 then Inl not_scalar
      else Inr (if kind_code a < kind_code b then - 1 else 1))"

definition compareKey :: "bool \<Rightarrow> OwnedValue \<Rightarrow> OwnedValue \<Rightarrow> exn + int" where
  "compareKey descending lhs rhs =
     (if lhs = V_NUL \<or> rhs = V_NUL then
        Inr (if lhs = V_NUL \<and> rhs = V_NUL then 0 else if lhs = V_NUL then 1 else - 1)
      else case compareRefs lhs rhs of
          Inl e \<Rightarrow> Inl e
        | Inr order \<Rightarrow> Inr (if descending then - order else order))"

text \<open>The first key that differs decides.\<close>

fun compareKeys :: "bool list \<Rightarrow> OwnedValue list \<Rightarrow> OwnedValue list \<Rightarrow> exn + int" where
  "compareKeys (d # ds) (a # as) (b # bs) =
     (case compareKey d a b of
        Inl e \<Rightarrow> Inl e
      | Inr order \<Rightarrow> if order \<noteq> 0 then Inr order else compareKeys ds as bs)"
| "compareKeys _ _ _ = Inr 0"

definition comparePartition :: "'r WindowRow \<Rightarrow> 'r WindowRow \<Rightarrow> exn + int" where
  "comparePartition lhs rhs =
     compareKeys (map (\<lambda>_. False) (wr_partition lhs)) (wr_partition lhs) (wr_partition rhs)"

definition compareOrder :: "bool list \<Rightarrow> 'r WindowRow \<Rightarrow> 'r WindowRow \<Rightarrow> exn + int" where
  "compareOrder descending lhs rhs = compareKeys descending (wr_order lhs) (wr_order rhs)"

definition compareRows :: "bool list \<Rightarrow> 'r WindowRow \<Rightarrow> 'r WindowRow \<Rightarrow> exn + int" where
  "compareRows descending lhs rhs =
     (case comparePartition lhs rhs of
        Inl e \<Rightarrow> Inl e
      | Inr order \<Rightarrow> if order \<noteq> 0 then Inr order else compareOrder descending lhs rhs)"

text \<open>The value of a comparison that does not throw.\<close>

definition the_order :: "exn + int \<Rightarrow> int" where
  "the_order c = (case c of Inr order \<Rightarrow> order | Inl _ \<Rightarrow> 0)"

section \<open>The sort\<close>

text \<open>
  Which pairs \<open>std::stable_sort\<close> compares is not specified.  The model throws when the comparison of any
  two rows of the batch would; the library may miss such a pair in a batch that has others.
\<close>

definition comparison_throws :: "bool list \<Rightarrow> 'r WindowRow list \<Rightarrow> bool" where
  "comparison_throws descending rows \<longleftrightarrow>
     (\<exists>i\<in>set [0..<length rows]. \<exists>j\<in>set [0..<length rows].
        i \<noteq> j \<and> (case compareRows descending (rows ! i) (rows ! j) of Inl _ \<Rightarrow> True | Inr _ \<Rightarrow> False))"

definition partition_less :: "'r WindowRow list \<Rightarrow> nat \<Rightarrow> nat \<Rightarrow> bool" where
  "partition_less rows i j \<longleftrightarrow> the_order (comparePartition (rows ! i) (rows ! j)) < 0"

definition rows_less :: "bool list \<Rightarrow> 'r WindowRow list \<Rightarrow> nat \<Rightarrow> nat \<Rightarrow> bool" where
  "rows_less descending rows i j \<longleftrightarrow> the_order (compareRows descending (rows ! i) (rows ! j)) < 0"

text \<open>Neighbours within a partition are in the order of the \<open>ORDER BY\<close> keys.\<close>

fun ordered_within :: "bool list \<Rightarrow> 'r WindowRow list \<Rightarrow> nat list \<Rightarrow> bool" where
  "ordered_within descending rows (i # j # is) =
     ((the_order (comparePartition (rows ! i) (rows ! j)) \<noteq> 0 \<or>
       the_order (compareOrder descending (rows ! i) (rows ! j)) \<le> 0) \<and>
      ordered_within descending rows (j # is))"
| "ordered_within descending rows _ = True"

definition sortPermutation :: "bool list \<Rightarrow> bool \<Rightarrow> 'r WindowRow list \<Rightarrow> exn + nat list" where
  "sortPermutation descending sorted_input rows =
     (if comparison_throws descending rows then Inl not_scalar
      else let by_partition = stable_sort (partition_less rows) [0..<length rows] in
        if sorted_input \<and> ordered_within descending rows by_partition then Inr by_partition
        else Inr (stable_sort (rows_less descending rows) [0..<length rows]))"

definition takeRows :: "'r list \<Rightarrow> nat list \<Rightarrow> 'r list" where
  "takeRows batch rows = map ((!) batch) rows"

section \<open>Columns of one kind\<close>

text \<open>
  What a typed Arrow column gives: two values of a key column are of one kind, unless one is NULL, of a
  kind with an order, and not NaN.
\<close>

fun key_image :: "OwnedValue \<Rightarrow> int list option" where
  "key_image V_NUL = None"
| "key_image (V_INT i) = Some [sint i]"
| "key_image (V_DOUBLE d) = Some [d_key d]"
| "key_image (V_BOOL b) = Some [of_bool b]"
| "key_image (V_STRING s) = Some (map (\<lambda>c. int (of_char c)) s)"
| "key_image (V_OTHER s) = None"

fun is_nan_value :: "OwnedValue \<Rightarrow> bool" where
  "is_nan_value (V_DOUBLE d) = d_isnan d"
| "is_nan_value _ = False"

definition comparable :: "OwnedValue \<Rightarrow> OwnedValue \<Rightarrow> bool" where
  "comparable a b \<longleftrightarrow> kind_code a \<noteq> 5 \<and> kind_code b \<noteq> 5 \<and> \<not> is_nan_value a \<and> \<not> is_nan_value b \<and>
     (a = V_NUL \<or> b = V_NUL \<or> kind_code a = kind_code b)"

definition comparable_rows :: "nat \<Rightarrow> nat \<Rightarrow> 'r WindowRow list \<Rightarrow> bool" where
  "comparable_rows np no rows \<longleftrightarrow>
     (\<forall>a\<in>set rows. length (wr_partition a) = np \<and> length (wr_order a) = no \<and>
       (\<forall>b\<in>set rows. list_all2 comparable (wr_partition a) (wr_partition b) \<and>
          list_all2 comparable (wr_order a) (wr_order b)))"

definition image_before :: "bool \<Rightarrow> int list option \<Rightarrow> int list option \<Rightarrow> bool" where
  "image_before descending x y =
     (case (x, y) of
        (Some a, Some b) \<Rightarrow> if descending then b < a else a < b
      | (Some a, None) \<Rightarrow> True
      | _ \<Rightarrow> False)"

fun keys_before :: "bool list \<Rightarrow> OwnedValue list \<Rightarrow> OwnedValue list \<Rightarrow> bool" where
  "keys_before [] a b = False"
| "keys_before (d # ds) a b =
     (image_before d (key_image (hd a)) (key_image (hd b)) \<or>
      (\<not> image_before d (key_image (hd b)) (key_image (hd a)) \<and> keys_before ds (tl a) (tl b)))"

lemma weak_order_image_before: "weak_order (image_before d)"
  by unfold_locales (auto simp: image_before_def split: option.splits)

lemma weak_order_keys_before: "weak_order (keys_before ds)"
proof (induction ds)
  case Nil
  show ?case by unfold_locales simp_all
next
  case (Cons d ds)
  have 1: "weak_order (\<lambda>a b. image_before d (key_image (hd a)) (key_image (hd b)))"
    by (rule weak_order_image [OF weak_order_image_before])
  have 2: "weak_order (\<lambda>a b. keys_before ds (tl a) (tl b))"
    by (rule weak_order_image [OF Cons])
  have "keys_before (d # ds) = (\<lambda>a b. image_before d (key_image (hd a)) (key_image (hd b)) \<or>
      (\<not> image_before d (key_image (hd b)) (key_image (hd a)) \<and> keys_before ds (tl a) (tl b)))"
    by (intro ext) (rule keys_before.simps)
  then show ?case using weak_order_then [OF 1 2] by simp
qed

lemma compare_text_image:
  "compare_text a b < 0 \<longleftrightarrow> map (\<lambda>c. int (of_char c)) a < map (\<lambda>c. int (of_char c)) b"
  "compare_text a b > 0 \<longleftrightarrow> map (\<lambda>c. int (of_char c)) b < map (\<lambda>c. int (of_char c)) a"
  by (induction a b rule: compare_text.induct) (auto)

lemma compareKey_image:
  assumes "comparable a b"
  obtains order where "compareKey d a b = Inr order"
    and "order < 0 \<longleftrightarrow> image_before d (key_image a) (key_image b)"
    and "order > 0 \<longleftrightarrow> image_before d (key_image b) (key_image a)"
proof -
  have "\<exists>order. compareKey d a b = Inr order \<and> (order < 0 \<longleftrightarrow> image_before d (key_image a) (key_image b)) \<and>
      (order > 0 \<longleftrightarrow> image_before d (key_image b) (key_image a))"
    using assms
    by (cases a; cases b)
      (auto simp: comparable_def compareKey_def image_before_def compare_doubles_def d_lt_def compare_text_image
        of_bool_def)
  then show ?thesis using that by blast
qed

lemma compareKeys_before:
  assumes "list_all2 comparable as bs" and "length ds = length as"
  obtains order where "compareKeys ds as bs = Inr order"
    and "order < 0 \<longleftrightarrow> keys_before ds as bs" and "order > 0 \<longleftrightarrow> keys_before ds bs as"
proof -
  have "\<exists>order. compareKeys ds as bs = Inr order \<and> (order < 0 \<longleftrightarrow> keys_before ds as bs) \<and>
      (order > 0 \<longleftrightarrow> keys_before ds bs as)"
    using assms
  proof (induction ds as bs rule: compareKeys.induct)
    case (1 d ds a as b bs)
    have c: "comparable a b" using 1(2) by simp
    then obtain order where o: "compareKey d a b = Inr order"
      "order < 0 \<longleftrightarrow> image_before d (key_image a) (key_image b)"
      "order > 0 \<longleftrightarrow> image_before d (key_image b) (key_image a)"
      by (rule compareKey_image)
    show ?case
    proof (cases "order = 0")
      case True
      then show ?thesis using o 1 by auto
    next
      case False
      then have "order < 0 \<longleftrightarrow> \<not> order > 0" by auto
      then show ?thesis using o False by auto
    qed
  qed auto
  then show ?thesis using that by blast
qed

text \<open>The orders of rows.\<close>

definition partition_before :: "nat \<Rightarrow> 'r WindowRow \<Rightarrow> 'r WindowRow \<Rightarrow> bool" where
  "partition_before np a b = keys_before (replicate np False) (wr_partition a) (wr_partition b)"

definition order_before :: "bool list \<Rightarrow> 'r WindowRow \<Rightarrow> 'r WindowRow \<Rightarrow> bool" where
  "order_before ds a b = keys_before ds (wr_order a) (wr_order b)"

definition window_before :: "nat \<Rightarrow> bool list \<Rightarrow> 'r WindowRow \<Rightarrow> 'r WindowRow \<Rightarrow> bool" where
  "window_before np ds a b \<longleftrightarrow> partition_before np a b \<or> (\<not> partition_before np b a \<and> order_before ds a b)"

lemma weak_order_partition_before: "weak_order (partition_before np)"
  unfolding partition_before_def by (rule weak_order_image [OF weak_order_keys_before])

lemma weak_order_order_before: "weak_order (order_before ds)"
  unfolding order_before_def by (rule weak_order_image [OF weak_order_keys_before])

interpretation window_rows: weak_order "window_before np ds" for np ds
proof -
  show "weak_order (window_before np ds)"
    using weak_order_then [OF weak_order_partition_before weak_order_order_before]
    by (simp add: window_before_def [abs_def])
qed

section \<open>The comparisons on such columns\<close>

lemma comparePartition_before:
  fixes ds :: "bool list"
  assumes rows: "comparable_rows np (length ds) rows"
    and "a \<in> set rows" and "b \<in> set rows"
  obtains order where "comparePartition a b = Inr order"
    and "order < 0 \<longleftrightarrow> partition_before np a b" and "order > 0 \<longleftrightarrow> partition_before np b a"
  supply assms = assms(2-)
proof -
  have l: "length (wr_partition a) = np" "list_all2 comparable (wr_partition a) (wr_partition b)"
    using rows assms by (auto simp: comparable_rows_def)
  then have "map (\<lambda>_. False) (wr_partition a) = replicate np False" by (simp add: map_replicate_const)
  then show ?thesis
    using that l(1) by (auto simp: comparePartition_def partition_before_def
        intro: compareKeys_before [OF l(2), of "replicate np False"])
qed

lemma compareOrder_before:
  fixes ds :: "bool list"
  assumes rows: "comparable_rows np (length ds) rows"
    and "a \<in> set rows" and "b \<in> set rows"
  obtains order where "compareOrder ds a b = Inr order"
    and "order < 0 \<longleftrightarrow> order_before ds a b" and "order > 0 \<longleftrightarrow> order_before ds b a"
  supply assms = assms(2-)
proof -
  have l: "length ds = length (wr_order a)" "list_all2 comparable (wr_order a) (wr_order b)"
    using rows assms by (auto simp: comparable_rows_def)
  show ?thesis
    using that by (auto simp: compareOrder_def order_before_def intro: compareKeys_before [OF l(2,1)])
qed

lemma compareRows_before:
  fixes ds :: "bool list"
  assumes rows: "comparable_rows np (length ds) rows"
    and "a \<in> set rows" and "b \<in> set rows"
  obtains order where "compareRows ds a b = Inr order"
    and "order < 0 \<longleftrightarrow> window_before np ds a b" and "order > 0 \<longleftrightarrow> window_before np ds b a"
  supply assms = assms(2-)
  supply comparePartition_before = comparePartition_before [OF rows]
  supply compareOrder_before = compareOrder_before [OF rows]
proof -
  obtain p where p: "comparePartition a b = Inr p" "p < 0 \<longleftrightarrow> partition_before np a b" "p > 0 \<longleftrightarrow> partition_before np b a"
    using comparePartition_before [OF assms] .
  obtain q where q: "compareOrder ds a b = Inr q" "q < 0 \<longleftrightarrow> order_before ds a b" "q > 0 \<longleftrightarrow> order_before ds b a"
    using compareOrder_before [OF assms] .
  consider "p = 0" | "p < 0" | "p > 0" by linarith
  then have "compareRows ds a b = Inr (if p \<noteq> 0 then p else q)" and
    "(if p \<noteq> 0 then p else q) < 0 \<longleftrightarrow> window_before np ds a b" and "(if p \<noteq> 0 then p else q) > 0 \<longleftrightarrow> window_before np ds b a"
    using p q by (auto simp: compareRows_def window_before_def)
  then show ?thesis using that by blast
qed

lemma no_comparison_throws:
  fixes ds :: "bool list"
  assumes rows: "comparable_rows np (length ds) rows"
  shows "\<not> comparison_throws ds rows"
  supply compareRows_before = compareRows_before [OF rows]
proof
  assume "comparison_throws ds rows"
  then obtain i j where ij: "i < length rows" "j < length rows"
    "case compareRows ds (rows ! i) (rows ! j) of Inl _ \<Rightarrow> True | Inr _ \<Rightarrow> False"
    by (auto simp: comparison_throws_def)
  obtain order where "compareRows ds (rows ! i) (rows ! j) = Inr order"
    by (rule compareRows_before [of "rows ! i" "rows ! j"]) (use ij in auto)
  then show False using ij by simp
qed

lemma less_on_rows:
  fixes ds :: "bool list"
  assumes rows: "comparable_rows np (length ds) rows"
    and "i < length rows" and "j < length rows"
  shows "partition_less rows i j \<longleftrightarrow> partition_before np (rows ! i) (rows ! j)"
    and "rows_less ds rows i j \<longleftrightarrow> window_before np ds (rows ! i) (rows ! j)"
    and "the_order (comparePartition (rows ! i) (rows ! j)) = 0 \<longleftrightarrow>
      \<not> partition_before np (rows ! i) (rows ! j) \<and> \<not> partition_before np (rows ! j) (rows ! i)"
    and "the_order (compareOrder ds (rows ! i) (rows ! j)) \<le> 0 \<longleftrightarrow> \<not> order_before ds (rows ! j) (rows ! i)"
    and "the_order (compareOrder ds (rows ! i) (rows ! j)) = 0 \<longleftrightarrow>
      \<not> order_before ds (rows ! i) (rows ! j) \<and> \<not> order_before ds (rows ! j) (rows ! i)"
  supply assms = assms(2-)
  supply comparePartition_before = comparePartition_before [OF rows]
  supply compareOrder_before = compareOrder_before [OF rows]
  supply compareRows_before = compareRows_before [OF rows]
proof -
  have s: "rows ! i \<in> set rows" "rows ! j \<in> set rows" using assms by auto
  show "partition_less rows i j \<longleftrightarrow> partition_before np (rows ! i) (rows ! j)"
    using comparePartition_before [OF s] by (metis partition_less_def the_order_def sum.case(2))
  show "rows_less ds rows i j \<longleftrightarrow> window_before np ds (rows ! i) (rows ! j)"
    using compareRows_before [OF s] by (metis rows_less_def the_order_def sum.case(2))
  obtain p where p: "comparePartition (rows ! i) (rows ! j) = Inr p"
    "p < 0 \<longleftrightarrow> partition_before np (rows ! i) (rows ! j)" "p > 0 \<longleftrightarrow> partition_before np (rows ! j) (rows ! i)"
    using comparePartition_before [OF s] .
  then show "the_order (comparePartition (rows ! i) (rows ! j)) = 0 \<longleftrightarrow>
      \<not> partition_before np (rows ! i) (rows ! j) \<and> \<not> partition_before np (rows ! j) (rows ! i)"
    by (auto simp: the_order_def simp flip: p(2,3))
  obtain q where q: "compareOrder ds (rows ! i) (rows ! j) = Inr q"
    "q < 0 \<longleftrightarrow> order_before ds (rows ! i) (rows ! j)" "q > 0 \<longleftrightarrow> order_before ds (rows ! j) (rows ! i)"
    using compareOrder_before [OF s] .
  then show "the_order (compareOrder ds (rows ! i) (rows ! j)) \<le> 0 \<longleftrightarrow> \<not> order_before ds (rows ! j) (rows ! i)"
    and "the_order (compareOrder ds (rows ! i) (rows ! j)) = 0 \<longleftrightarrow>
      \<not> order_before ds (rows ! i) (rows ! j) \<and> \<not> order_before ds (rows ! j) (rows ! i)"
    by (auto simp: the_order_def simp flip: q(2,3))
qed

lemma stable_sort_rows:
  fixes ds :: "bool list"
  assumes rows: "comparable_rows np (length ds) rows"
  shows "stable_sort (rows_less ds rows) [0..<length rows] =
     stable_sort (\<lambda>i j. window_before np ds (rows ! i) (rows ! j)) [0..<length rows]"
  supply less_on_rows = less_on_rows [OF rows]
  by (rule stable_sort_cong) (simp add: less_on_rows)

lemma stable_sort_partitions:
  fixes ds :: "bool list"
  assumes rows: "comparable_rows np (length ds) rows"
  shows "stable_sort (partition_less rows) [0..<length rows] =
     stable_sort (\<lambda>i j. partition_before np (rows ! i) (rows ! j)) [0..<length rows]"
  supply less_on_rows = less_on_rows [OF rows]
  by (rule stable_sort_cong) (simp add: less_on_rows)

text \<open>Neighbours in order, the partition sort and the tie-break give the full order.\<close>

lemma ordered_within_sorted:
  fixes ds :: "bool list"
  assumes rows: "comparable_rows np (length ds) rows"
    and "sorted_wrt (tie_broken (\<lambda>i j. partition_before np (rows ! i) (rows ! j))) is"
    and "ordered_within ds rows is" and "set is \<subseteq> {..<length rows}"
  shows "sorted_wrt (tie_broken (\<lambda>i j. window_before np ds (rows ! i) (rows ! j))) is"
  supply assms = assms(2-)
  supply less_on_rows = less_on_rows [OF rows]
proof -
  let ?R = "tie_broken (\<lambda>i j. window_before np ds (rows ! i) (rows ! j))"
  have wo: "weak_order (\<lambda>i j. window_before np ds (rows ! i) (rows ! j))"
    by (rule weak_order_image [OF window_rows.weak_order_axioms])
  show ?thesis
    using assms
  proof (induction "is" rule: induct_list012)
    case (3 i j "is")
    have ij: "i < length rows" "j < length rows" using 3(5) by auto
    have "?R i j" using 3(3,4) ij by (auto simp: tie_broken_def window_before_def less_on_rows)
    moreover have "sorted_wrt ?R (j # is)" using 3 by simp
    ultimately show ?case using transpD [OF tie_broken_trans [OF wo]] by fastforce
  qed simp_all
qed

text \<open>With or without the short cut: the one sorted permutation.\<close>

lemma sortPermutation_result:
  assumes "comparable_rows np (length ds) rows"
  shows "sortPermutation ds sorted_input rows =
    Inr (stable_sort (\<lambda>i j. window_before np ds (rows ! i) (rows ! j)) [0..<length rows])"
proof -
  let ?lt = "\<lambda>i j. window_before np ds (rows ! i) (rows ! j)" and ?pt = "\<lambda>i j. partition_before np (rows ! i) (rows ! j)"
  let ?is = "[0..<length rows]"
  have wo: "weak_order ?lt" "weak_order ?pt"
    by (rule weak_order_image [OF window_rows.weak_order_axioms],
        rule weak_order_image [OF weak_order_partition_before])
  have full: "sorted_wrt (tie_broken ?lt) (stable_sort ?lt ?is)" by (rule tie_broken_sort [OF wo(1)]) simp
  have "stable_sort ?pt ?is = stable_sort ?lt ?is" if "ordered_within ds rows (stable_sort ?pt ?is)"
  proof (rule tie_broken_unique [OF wo(1)])
    have "sorted_wrt (tie_broken ?pt) (stable_sort ?pt ?is)" by (rule tie_broken_sort [OF wo(2)]) simp
    from ordered_within_sorted [OF assms this that] show "sorted_wrt (tie_broken ?lt) (stable_sort ?pt ?is)" by (simp add: subset_iff)
  qed (use full in simp_all)
  then show ?thesis
    by (simp add: sortPermutation_def Let_def no_comparison_throws [OF assms] stable_sort_rows [OF assms]
        stable_sort_partitions [OF assms])
qed

lemma sorted_rows_result:
  assumes "comparable_rows np (length ds) rows" and "sortPermutation ds sorted_input rows = Inr p"
  shows "takeRows rows p = stable_sort (window_before np ds) rows"
proof -
  have "takeRows rows p = stable_sort (window_before np ds) (map ((!) rows) [0..<length rows])"
    using assms(2) map_stable_sort [where f = "(!) rows" and lt = "window_before np ds" and xs = "[0..<length rows]"]
    unfolding sortPermutation_result [OF assms(1)] by (simp add: takeRows_def)
  then show ?thesis by (simp add: map_nth)
qed

section \<open>Properties\<close>

text \<open>
  C20. The short cut for input expected in order never changes the result: on key columns of one kind each
  the sort does not throw, and with or without \<open>sorted_input\<close> it gives the one permutation of the rows
  that is sorted by the partition keys, then by the order keys (NULLs last, \<open>DESC\<close> keys reversed), and
  keeps rows with equal keys in their input order.
\<close>

theorem sorted_input_is_only_a_hint:
  assumes "comparable_rows np (length ds) rows"
  shows "case sortPermutation ds sorted_input rows of
      Inl e \<Rightarrow> False
    | Inr p \<Rightarrow> p = stable_sort (\<lambda>i j. window_before np ds (rows ! i) (rows ! j)) [0..<length rows] \<and>
        mset p = mset [0..<length rows] \<and>
        sorted_wrt (\<lambda>i j. window_before np ds (rows ! i) (rows ! j) \<or>
          (\<not> window_before np ds (rows ! j) (rows ! i) \<and> i < j)) p"
proof -
  have "sorted_wrt (tie_broken (\<lambda>i j. window_before np ds (rows ! i) (rows ! j)))
      (stable_sort (\<lambda>i j. window_before np ds (rows ! i) (rows ! j)) [0..<length rows])"
    by (rule tie_broken_sort [OF weak_order_image [OF window_rows.weak_order_axioms]]) simp
  then show ?thesis by (simp add: sortPermutation_result [OF assms] tie_broken_def [abs_def])
qed

theorem sorted_input_is_only_a_hint_witness:
  "sortPermutation [True] True
     [\<lparr>wr_input = (), wr_partition = [V_BOOL True], wr_order = [V_NUL], wr_arguments = [], wr_defaults = []\<rparr>,
      \<lparr>wr_input = (), wr_partition = [V_BOOL True], wr_order = [V_INT 1], wr_arguments = [], wr_defaults = []\<rparr>,
      \<lparr>wr_input = (), wr_partition = [V_BOOL False], wr_order = [V_INT 2], wr_arguments = [], wr_defaults = []\<rparr>] =
   Inr [2, 1, 0]"
  using sorted_input_is_only_a_hint [of 1 "[True]"
     "[\<lparr>wr_input = (), wr_partition = [V_BOOL True], wr_order = [V_NUL], wr_arguments = [], wr_defaults = []\<rparr>,
      \<lparr>wr_input = (), wr_partition = [V_BOOL True], wr_order = [V_INT 1], wr_arguments = [], wr_defaults = []\<rparr>,
      \<lparr>wr_input = (), wr_partition = [V_BOOL False], wr_order = [V_INT 2], wr_arguments = [], wr_defaults = []\<rparr>]" True]
  by (simp add: comparable_rows_def comparable_def window_before_def partition_before_def order_before_def
      image_before_def split: sum.splits)

end
