(* ===== verification/Window_Frames.thy ===== *)
theory Window_Frames
  imports Window_Order Logical_Plan "HOL-Library.Signed_Division"
begin

text \<open>
  Partitions, peer groups and frames of a sorted batch (\<open>segment\<close>, \<open>frames\<close> of
  \<open>src/query/executor/WindowEvaluator.cpp\<close>).  Row numbers are \<open>nat\<close>, the \<open>int64_t\<close> arithmetic on them and
  on keys saturates as in the source.
\<close>

section \<open>Saturating arithmetic\<close>

definition int64_min :: int where
  "int64_min = - (2 ^ 63)"

definition int64_max :: int where
  "int64_max = 2 ^ 63 - 1"

definition saturatingAdd :: "int \<Rightarrow> int \<Rightarrow> int" where
  "saturatingAdd lhs rhs =
     (if lhs + rhs < int64_min \<or> int64_max < lhs + rhs
      then if rhs > 0 then int64_max else int64_min else lhs + rhs)"

definition saturatingSub :: "int \<Rightarrow> int \<Rightarrow> int" where
  "saturatingSub lhs rhs =
     (if lhs - rhs < int64_min \<or> int64_max < lhs - rhs
      then if rhs < 0 then int64_max else int64_min else lhs - rhs)"

section \<open>Segments\<close>

record Segment =
  sg_partition_begin :: nat
  sg_partition_end :: nat
  sg_peer_begin :: nat
  sg_peer_end :: nat
  sg_non_null_end :: nat

definition same_partition :: "'r WindowRow list \<Rightarrow> nat \<Rightarrow> nat \<Rightarrow> bool" where
  "same_partition rows i j \<longleftrightarrow> the_order (comparePartition (rows ! i) (rows ! j)) = 0"

definition same_peer :: "bool list \<Rightarrow> 'r WindowRow list \<Rightarrow> nat \<Rightarrow> nat \<Rightarrow> bool" where
  "same_peer ds rows i j \<longleftrightarrow> the_order (compareOrder ds (rows ! i) (rows ! j)) = 0"

definition null_order_key :: "'r WindowRow list \<Rightarrow> nat \<Rightarrow> bool" where
  "null_order_key rows i \<longleftrightarrow> hd (wr_order (rows ! i)) = V_NUL"

text \<open>\<open>while (end < limit && same(end)) ++end\<close>, and the loop down from the end of a partition.\<close>

function scan_end :: "(nat \<Rightarrow> bool) \<Rightarrow> nat \<Rightarrow> nat \<Rightarrow> nat" where
  "scan_end same limit e = (if e < limit \<and> same e then scan_end same limit (Suc e) else e)"
  by pat_completeness auto
termination by (relation "measure (\<lambda>(same, limit, e). limit - e)") auto

fun back_over :: "(nat \<Rightarrow> bool) \<Rightarrow> nat \<Rightarrow> nat \<Rightarrow> nat" where
  "back_over null b 0 = 0"
| "back_over null b (Suc e) = (if Suc e > b \<and> null e then back_over null b e else Suc e)"

declare scan_end.simps [simp del]

lemma scan_end_ge: "e \<le> scan_end same limit e"
  by (induction same limit e rule: scan_end.induct) (subst scan_end.simps, auto)

lemma scan_end_le: "e \<le> limit \<Longrightarrow> scan_end same limit e \<le> limit"
  by (induction same limit e rule: scan_end.induct) (subst scan_end.simps, auto)

lemma scan_end_same: "e \<le> j \<Longrightarrow> j < scan_end same limit e \<Longrightarrow> same j"
proof (induction same limit e rule: scan_end.induct)
  case (1 same limit e)
  show ?case
  proof (cases "e < limit \<and> same e \<and> e \<noteq> j")
    case True
    then show ?thesis using 1 by (subst (asm) scan_end.simps) simp
  next
    case False
    then show ?thesis using 1(2,3) by (subst (asm) scan_end.simps) (auto split: if_splits)
  qed
qed

lemma scan_end_stop: "e \<le> limit \<Longrightarrow> scan_end same limit e < limit \<Longrightarrow> \<not> same (scan_end same limit e)"
  by (induction same limit e rule: scan_end.induct) (subst scan_end.simps, subst (asm) (2) scan_end.simps, auto split: if_splits)

lemma back_over_spec:
  assumes "b \<le> e"
  shows "b \<le> back_over null b e" and "back_over null b e \<le> e"
    and "back_over null b e \<le> j \<Longrightarrow> j < e \<Longrightarrow> null j"
    and "b < back_over null b e \<Longrightarrow> \<not> null (back_over null b e - 1)"
  using assms by (induction e) (auto split: if_splits simp: le_Suc_eq less_Suc_eq)

function peer_loop :: "bool list \<Rightarrow> 'r WindowRow list \<Rightarrow> nat \<Rightarrow> nat \<Rightarrow> nat \<Rightarrow> nat \<Rightarrow> Segment list" where
  "peer_loop ds rows b e non_null peer =
     (if peer < e then
        let peer_last = scan_end (same_peer ds rows peer) e (Suc peer) in
        replicate (peer_last - peer)
          \<lparr>sg_partition_begin = b, sg_partition_end = e, sg_peer_begin = peer, sg_peer_end = peer_last,
           sg_non_null_end = non_null\<rparr> @
        peer_loop ds rows b e non_null peer_last
      else [])"
  by pat_completeness auto
termination
  by (relation "measure (\<lambda>(ds, rows, b, e, non_null, peer). e - peer)")
    (auto intro!: diff_less_mono2 less_le_trans [OF lessI scan_end_ge])

function segment_loop :: "bool list \<Rightarrow> 'r WindowRow list \<Rightarrow> nat \<Rightarrow> Segment list" where
  "segment_loop ds rows b =
     (if b < length rows then
        let e = scan_end (same_partition rows b) (length rows) (Suc b);
            non_null = (if length ds = 1 then back_over (null_order_key rows) b e else e) in
        peer_loop ds rows b e non_null b @ segment_loop ds rows e
      else [])"
  by pat_completeness auto
termination
  by (relation "measure (\<lambda>(ds, rows, b). length rows - b)")
    (auto intro!: diff_less_mono2 less_le_trans [OF lessI scan_end_ge])

declare peer_loop.simps [simp del] segment_loop.simps [simp del]

definition segment :: "bool list \<Rightarrow> 'r WindowRow list \<Rightarrow> Segment list" where
  "segment ds rows = segment_loop ds rows 0"

section \<open>Frames\<close>

text \<open>The type of the first order key: a timestamp or duration with its unit, or any other type.\<close>

datatype TimeUnit = SECOND | MILLI | MICRO | NANO

definition keyOffset :: "int \<Rightarrow> TimeUnit option \<Rightarrow> int" where
  "keyOffset offset type =
     (case type of
        None \<Rightarrow> offset
      | Some SECOND \<Rightarrow> offset sdiv 1000000000
      | Some MILLI \<Rightarrow> offset sdiv 1000000
      | Some MICRO \<Rightarrow> offset sdiv 1000
      | Some NANO \<Rightarrow> offset)"

text \<open>The \<open>integer\<close> member of a value, 0 for values of other kinds.\<close>

fun integer_field :: "OwnedValue \<Rightarrow> int" where
  "integer_field (V_INT i) = sint i"
| "integer_field _ = 0"

definition order_key :: "'r WindowRow list \<Rightarrow> nat \<Rightarrow> int" where
  "order_key rows i = integer_field (hd (wr_order (rows ! i)))"

text \<open>The binary search: \<open>low\<close> moves past rows that are before the target.\<close>

function search :: "(nat \<Rightarrow> bool) \<Rightarrow> nat \<Rightarrow> nat \<Rightarrow> nat" where
  "search before low high =
     (if low < high then
        let middle = low + (high - low) div 2 in
        if before middle then search before (middle + 1) high else search before low middle
      else low)"
  by pat_completeness auto
termination by (relation "measure (\<lambda>(before, low, high). high - low)") auto

declare search.simps [simp del]

definition before_target :: "bool \<Rightarrow> bool \<Rightarrow> int \<Rightarrow> int \<Rightarrow> bool" where
  "before_target descending strict target value =
     (if descending then (if strict then value \<ge> target else value > target)
      else (if strict then value \<le> target else value < target))"

definition search_target ::
  "bool \<Rightarrow> 'r WindowRow list \<Rightarrow> Segment \<Rightarrow> int \<Rightarrow> bool \<Rightarrow> nat" where
  "search_target descending rows s target strict =
     search (\<lambda>i. before_target descending strict target (order_key rows i)) (sg_partition_begin s) (sg_non_null_end s)"

definition key_target :: "bool \<Rightarrow> 'r WindowRow list \<Rightarrow> nat \<Rightarrow> int \<Rightarrow> bool \<Rightarrow> int" where
  "key_target descending rows row offset preceding =
     (if preceding \<noteq> descending then saturatingSub (order_key rows row) offset
      else saturatingAdd (order_key rows row) offset)"

definition ranged :: "WindowFrameSpec \<Rightarrow> bool" where
  "ranged f \<longleftrightarrow> \<not> wf_rows f \<and>
     (wf_start f = PRECEDING \<or> wf_start f = FOLLOWING \<or> wf_end f = PRECEDING \<or> wf_end f = FOLLOWING)"

definition start_offset :: "WindowFrameSpec \<Rightarrow> TimeUnit option \<Rightarrow> int" where
  "start_offset f type = (if ranged f then keyOffset (wf_start_offset f) type else wf_start_offset f)"

definition end_offset :: "WindowFrameSpec \<Rightarrow> TimeUnit option \<Rightarrow> int" where
  "end_offset f type = (if ranged f then keyOffset (wf_end_offset f) type else wf_end_offset f)"

text \<open>The two switches, on \<open>int64_t\<close> values, then the clamps.\<close>

definition frame_begin ::
  "WindowFrameSpec \<Rightarrow> TimeUnit option \<Rightarrow> bool \<Rightarrow> 'r WindowRow list \<Rightarrow> Segment \<Rightarrow> nat \<Rightarrow> int" where
  "frame_begin f type descending rows s row =
     (let first = int (sg_partition_begin s); last = int (sg_partition_end s);
          null_key = (ranged f \<and> row \<ge> sg_non_null_end s);
          found = (\<lambda>preceding. if null_key then int (sg_peer_begin s)
            else int (search_target descending rows s (key_target descending rows row (start_offset f type) preceding) False))
      in case wf_start f of
           UNBOUNDED_PRECEDING \<Rightarrow> first
         | CURRENT_ROW \<Rightarrow> if wf_rows f then int row else int (sg_peer_begin s)
         | PRECEDING \<Rightarrow> if wf_rows f then max first (saturatingSub (int row) (start_offset f type)) else found True
         | FOLLOWING \<Rightarrow> if wf_rows f then min last (saturatingAdd (int row) (start_offset f type)) else found False
         | UNBOUNDED_FOLLOWING \<Rightarrow> last)"

definition frame_end ::
  "WindowFrameSpec \<Rightarrow> TimeUnit option \<Rightarrow> bool \<Rightarrow> 'r WindowRow list \<Rightarrow> Segment \<Rightarrow> nat \<Rightarrow> int" where
  "frame_end f type descending rows s row =
     (let first = int (sg_partition_begin s); last = int (sg_partition_end s);
          null_key = (ranged f \<and> row \<ge> sg_non_null_end s);
          found = (\<lambda>preceding. if null_key then int (sg_peer_end s)
            else int (search_target descending rows s (key_target descending rows row (end_offset f type) preceding) True))
      in case wf_end f of
           UNBOUNDED_FOLLOWING \<Rightarrow> last
         | CURRENT_ROW \<Rightarrow> if wf_rows f then int row + 1 else int (sg_peer_end s)
         | PRECEDING \<Rightarrow> if wf_rows f then saturatingAdd (saturatingSub (int row) (end_offset f type)) 1 else found True
         | FOLLOWING \<Rightarrow> if wf_rows f then saturatingAdd (saturatingAdd (int row) (end_offset f type)) 1 else found False
         | UNBOUNDED_PRECEDING \<Rightarrow> first)"

definition clamp :: "int \<Rightarrow> int \<Rightarrow> int \<Rightarrow> int" where
  "clamp v lo hi = (if v < lo then lo else if hi < v then hi else v)"

definition frame_of_row ::
  "WindowFrameSpec \<Rightarrow> TimeUnit option \<Rightarrow> bool \<Rightarrow> 'r WindowRow list \<Rightarrow> Segment \<Rightarrow> nat \<Rightarrow> nat \<times> nat" where
  "frame_of_row f type descending rows s row =
     (let first = int (sg_partition_begin s); last = int (sg_partition_end s);
          b = clamp (frame_begin f type descending rows s row) first last;
          e = clamp (frame_end f type descending rows s row) b last
      in (nat b, nat e))"

definition frames ::
  "WindowFrameSpec \<Rightarrow> Segment list \<Rightarrow> TimeUnit option \<Rightarrow> bool \<Rightarrow> 'r WindowRow list \<Rightarrow> (nat \<times> nat) list" where
  "frames f segments type descending rows =
     map (\<lambda>row. frame_of_row f type descending rows (segments ! row) row) [0..<length rows]"

section \<open>The segments of a sorted batch\<close>

text \<open>
  What a segment records of row \<open>i\<close>: the rows of its partition, those of them with equal order keys, and,
  for a single order key, where the NULL keys begin.
\<close>

definition segment_ok :: "bool list \<Rightarrow> 'r WindowRow list \<Rightarrow> nat \<Rightarrow> Segment \<Rightarrow> bool" where
  "segment_ok ds rows i s \<longleftrightarrow>
     sg_partition_begin s \<le> sg_peer_begin s \<and> sg_peer_begin s \<le> i \<and> i < sg_peer_end s \<and>
     sg_peer_end s \<le> sg_partition_end s \<and> sg_partition_end s \<le> length rows \<and>
     (\<forall>j<length rows. sg_partition_begin s \<le> j \<and> j < sg_partition_end s \<longleftrightarrow> same_partition rows i j) \<and>
     (\<forall>j<length rows. sg_peer_begin s \<le> j \<and> j < sg_peer_end s \<longleftrightarrow> same_partition rows i j \<and> same_peer ds rows i j) \<and>
     sg_partition_begin s \<le> sg_non_null_end s \<and> sg_non_null_end s \<le> sg_partition_end s \<and>
     (length ds = 1 \<longrightarrow> (\<forall>j. sg_partition_begin s \<le> j \<longrightarrow> j < sg_partition_end s \<longrightarrow>
        (j < sg_non_null_end s \<longleftrightarrow> \<not> null_order_key rows j)))"

definition sorted_rows :: "nat \<Rightarrow> bool list \<Rightarrow> 'r WindowRow list \<Rightarrow> bool" where
  "sorted_rows np ds rows \<longleftrightarrow> comparable_rows np (length ds) rows \<and>
     sorted_wrt (\<lambda>a b. \<not> window_before np ds b a) rows"

lemma rows_comparable:
  assumes sorted: "sorted_rows np ds rows"
  shows "comparable_rows np (length ds) rows"
  using sorted by (simp add: sorted_rows_def)

lemma rows_sorted:
  assumes sorted: "sorted_rows np ds rows"
    and "i < j" and "j < length rows"
  shows "\<not> partition_before np (rows ! j) (rows ! i)" and "partition_before np (rows ! i) (rows ! j) \<or> \<not> order_before ds (rows ! j) (rows ! i)"
  supply assms = assms(2-)
  using sorted assms by (auto simp: sorted_rows_def window_before_def sorted_wrt_iff_nth_less)

lemma P_order:
  assumes sorted: "sorted_rows np ds rows"
  shows "partition_before np (rows ! i) (rows ! j) \<Longrightarrow> partition_before np (rows ! j) (rows ! k) \<Longrightarrow> partition_before np (rows ! i) (rows ! k)" "partition_before np (rows ! i) (rows ! k) \<Longrightarrow> partition_before np (rows ! i) (rows ! j) \<or> partition_before np (rows ! j) (rows ! k)" "\<not> partition_before np (rows ! i) (rows ! i)"
  using weak_order_partition_before [of np] unfolding weak_order_def by blast+

lemma O_order:
  assumes sorted: "sorted_rows np ds rows"
  shows "order_before ds (rows ! i) (rows ! j) \<Longrightarrow> order_before ds (rows ! j) (rows ! k) \<Longrightarrow> order_before ds (rows ! i) (rows ! k)" "order_before ds (rows ! i) (rows ! k) \<Longrightarrow> order_before ds (rows ! i) (rows ! j) \<or> order_before ds (rows ! j) (rows ! k)" "\<not> order_before ds (rows ! i) (rows ! i)"
  using weak_order_order_before [of ds] unfolding weak_order_def by blast+

lemma same_partition_iff:
  assumes sorted: "sorted_rows np ds rows"
  shows "i < length rows \<Longrightarrow> j < length rows \<Longrightarrow> same_partition rows i j \<longleftrightarrow> \<not> partition_before np (rows ! i) (rows ! j) \<and> \<not> partition_before np (rows ! j) (rows ! i)"
  supply rows_comparable = rows_comparable [OF sorted]
  supply on_rows = less_on_rows [OF rows_comparable]
  by (simp add: same_partition_def on_rows)

lemma same_peer_iff:
  assumes sorted: "sorted_rows np ds rows"
  shows "i < length rows \<Longrightarrow> j < length rows \<Longrightarrow> same_peer ds rows i j \<longleftrightarrow> \<not> order_before ds (rows ! i) (rows ! j) \<and> \<not> order_before ds (rows ! j) (rows ! i)"
  supply rows_comparable = rows_comparable [OF sorted]
  supply on_rows = less_on_rows [OF rows_comparable]
  by (simp add: same_peer_def on_rows)

text \<open>A cut: every row below it is in an earlier partition than every row from it on.\<close>

definition partition_cut :: "nat \<Rightarrow> 'r WindowRow list \<Rightarrow> nat \<Rightarrow> bool" where
  "partition_cut np rows b \<longleftrightarrow> b \<le> length rows \<and> (\<forall>j<b. \<forall>i. b \<le> i \<longrightarrow> i < length rows \<longrightarrow> partition_before np (rows ! j) (rows ! i))"

lemma next_partition_cut:
  assumes sorted: "sorted_rows np ds rows"
    and "partition_cut np rows b" and "b < length rows"
  defines "e \<equiv> scan_end (same_partition rows b) (length rows) (Suc b)"
  shows "b < e" and "e \<le> length rows" and "partition_cut np rows e"
    and "\<And>i j. b \<le> i \<Longrightarrow> i < e \<Longrightarrow> b \<le> j \<Longrightarrow> j < e \<Longrightarrow> \<not> partition_before np (rows ! i) (rows ! j)"
  supply assms = assms(2-)
  supply rows_sorted = rows_sorted [OF sorted]
  supply P_order = P_order [OF sorted]
  supply same_partition_iff = same_partition_iff [OF sorted]
proof -
  show be: "b < e" using scan_end_ge [of "Suc b"] by (simp add: e_def Suc_le_lessD)
  show en: "e \<le> length rows" using assms(2) by (simp add: e_def scan_end_le)
  have same: "\<not> partition_before np (rows ! b) (rows ! j) \<and> \<not> partition_before np (rows ! j) (rows ! b)" if "b \<le> j" "j < e" for j
  proof (cases "j = b")
    case False
    then have "same_partition rows b j"
      using that by (intro scan_end_same [of "Suc b" j "same_partition rows b" "length rows"]) (auto simp: e_def)
    then show ?thesis using that en by (simp add: same_partition_iff)
  qed (use P_order(3) in blast)
  show "\<not> partition_before np (rows ! i) (rows ! j)" if "b \<le> i" "i < e" "b \<le> j" "j < e" for i j
    using same [of i] same [of j] that P_order(2) by blast
  have "partition_before np (rows ! j) (rows ! i)" if "j < e" "e \<le> i" "i < length rows" for i j
  proof -
    have "\<not> same_partition rows b e"
      unfolding e_def using assms(2) that by (intro scan_end_stop) (auto simp: e_def)
    then have "partition_before np (rows ! b) (rows ! e)" using that en be rows_sorted(1) [of b e] by (auto simp: same_partition_iff)
    then have "partition_before np (rows ! b) (rows ! i)" using P_order(2) [of b e i] rows_sorted(1) [of e i] that
      by (cases "e = i") auto
    show ?thesis
    proof (cases "j < b")
      case True
      then show ?thesis using assms(1) that be by (auto simp: partition_cut_def)
    next
      case False
      then show ?thesis using P_order(2) [OF \<open>partition_before np (rows ! b) (rows ! i)\<close>, of j] same [of j] that by auto
    qed
  qed
  then show "partition_cut np rows e" using en by (simp add: partition_cut_def)
qed

lemma null_keys_last:
  assumes sorted: "sorted_rows np ds rows"
    and "length ds = 1" and "i < j" and "j < length rows" and "\<not> partition_before np (rows ! i) (rows ! j)"
    and "null_order_key rows i"
  shows "null_order_key rows j"
  supply assms = assms(2-)
  supply rows_comparable = rows_comparable [OF sorted]
  supply rows_sorted = rows_sorted [OF sorted]
proof (rule ccontr)
  assume n: "\<not> null_order_key rows j"
  obtain d where d: "ds = [d]" using assms(1) by (cases ds) auto
  have len: "length (wr_order (rows ! j)) = 1" "list_all2 comparable (wr_order (rows ! j)) (wr_order (rows ! j))"
    using rows_comparable assms by (auto simp: comparable_rows_def)
  then obtain v where v: "wr_order (rows ! j) = [v]" "comparable v v" by (cases "wr_order (rows ! j)") auto
  then obtain k where "key_image v = Some k" using n by (cases v) (auto simp: null_order_key_def comparable_def)
  then have "order_before ds (rows ! j) (rows ! i)" using assms(5) v by (simp add: order_before_def d image_before_def null_order_key_def)
  then show False using rows_sorted(2) [OF assms(2,3)] assms(4) by blast
qed

text \<open>The peers of one partition \<open>[b, e)\<close>.\<close>

lemma next_peers:
  assumes sorted: "sorted_rows np ds rows"
    and part: "\<And>i j. b \<le> i \<Longrightarrow> i < e \<Longrightarrow> b \<le> j \<Longrightarrow> j < e \<Longrightarrow> \<not> partition_before np (rows ! i) (rows ! j)" and "e \<le> length rows"
    and "b \<le> peer" and "peer < e" and cut: "\<And>i j. b \<le> j \<Longrightarrow> j < peer \<Longrightarrow> peer \<le> i \<Longrightarrow> i < e \<Longrightarrow> order_before ds (rows ! j) (rows ! i)"
  defines "l \<equiv> scan_end (same_peer ds rows peer) e (Suc peer)"
  shows "peer < l" and "l \<le> e"
    and "\<And>i j. peer \<le> i \<Longrightarrow> i < l \<Longrightarrow> peer \<le> j \<Longrightarrow> j < l \<Longrightarrow> \<not> order_before ds (rows ! i) (rows ! j)"
    and "\<And>i j. b \<le> j \<Longrightarrow> j < l \<Longrightarrow> l \<le> i \<Longrightarrow> i < e \<Longrightarrow> order_before ds (rows ! j) (rows ! i)"
  supply assms = assms(2-)
  supply rows_sorted = rows_sorted [OF sorted]
  supply O_order = O_order [OF sorted]
  supply same_peer_iff = same_peer_iff [OF sorted]
proof -
  show pl: "peer < l" using scan_end_ge [of "Suc peer"] by (simp add: l_def Suc_le_lessD)
  show le: "l \<le> e" using assms(4) by (simp add: l_def scan_end_le)
  have sorted_peers: "\<not> order_before ds (rows ! j) (rows ! i)" if "b \<le> i" "i < j" "j < e" for i j
    using rows_sorted(2) [of i j] part [of i j] that assms(2) by auto
  have same: "\<not> order_before ds (rows ! peer) (rows ! j) \<and> \<not> order_before ds (rows ! j) (rows ! peer)" if "peer \<le> j" "j < l" for j
  proof (cases "j = peer")
    case False
    then have "same_peer ds rows peer j"
      using that by (intro scan_end_same [of "Suc peer" j "same_peer ds rows peer" e]) (auto simp: l_def)
    then show ?thesis using that le assms(2) by (simp add: same_peer_iff)
  qed (use O_order(3) in blast)
  show "\<not> order_before ds (rows ! i) (rows ! j)" if "peer \<le> i" "i < l" "peer \<le> j" "j < l" for i j
    using same [of i] same [of j] that O_order(2) by blast
  show "order_before ds (rows ! j) (rows ! i)" if "b \<le> j" "j < l" "l \<le> i" "i < e" for i j
  proof -
    have "\<not> same_peer ds rows peer l"
      unfolding l_def using assms(4) that by (intro scan_end_stop) (auto simp: l_def)
    then have "order_before ds (rows ! peer) (rows ! l)" using that le pl assms(2,3) sorted_peers [of peer l] by (auto simp: same_peer_iff)
    then have "order_before ds (rows ! peer) (rows ! i)" using O_order(2) [of peer l i] sorted_peers [of l i] that assms(3) pl
      by (cases "l = i") auto
    then show ?thesis using cut [of j i] same [of j] O_order(2) [of peer i j] that pl
      by (cases "j < peer") auto
  qed
qed

lemma peer_loop_ok:
  assumes sorted: "sorted_rows np ds rows"
    and part: "\<And>i j. b \<le> i \<Longrightarrow> i < e \<Longrightarrow> b \<le> j \<Longrightarrow> j < e \<Longrightarrow> \<not> partition_before np (rows ! i) (rows ! j)"
    and cuts: "partition_cut np rows b" "partition_cut np rows e"
    and nn: "b \<le> nn" "nn \<le> e"
      "length ds = 1 \<Longrightarrow> \<forall>j. b \<le> j \<longrightarrow> j < e \<longrightarrow> (j < nn \<longleftrightarrow> \<not> null_order_key rows j)"
    and "b \<le> peer" and "peer \<le> e" and cut: "\<And>i j. b \<le> j \<Longrightarrow> j < peer \<Longrightarrow> peer \<le> i \<Longrightarrow> i < e \<Longrightarrow> order_before ds (rows ! j) (rows ! i)"
  shows "length (peer_loop ds rows b e nn peer) = e - peer \<and>
    (\<forall>k<e - peer. segment_ok ds rows (peer + k) (peer_loop ds rows b e nn peer ! k))"
  supply assms = assms(2-)
  supply same_partition_iff = same_partition_iff [OF sorted]
  supply same_peer_iff = same_peer_iff [OF sorted]
  supply next_peers = next_peers [OF sorted]
  using assms(7-9)
proof (induction "e - peer" arbitrary: peer rule: less_induct)
  case less
  show ?case
  proof (cases "peer < e")
    case True
    define l where "l = scan_end (same_peer ds rows peer) e (Suc peer)"
    define s where "s = \<lparr>sg_partition_begin = b, sg_partition_end = e, sg_peer_begin = peer, sg_peer_end = l,
      sg_non_null_end = nn\<rparr>"
    have en: "e \<le> length rows" using cuts by (simp add: partition_cut_def)
    note l = next_peers [OF part en less(2) True less(4), folded l_def]
    have loop: "peer_loop ds rows b e nn peer = replicate (l - peer) s @ peer_loop ds rows b e nn l"
      using True by (subst peer_loop.simps) (simp add: l_def s_def Let_def)
    have inpart: "same_partition rows i j \<longleftrightarrow> b \<le> j \<and> j < e" if "b \<le> i" "i < e" "j < length rows" for i j
    proof -
      consider "j < b" | "b \<le> j" "j < e" | "e \<le> j" by linarith
      then show ?thesis
      proof cases
        case 1
        then have "partition_before np (rows ! j) (rows ! i)" using cuts(1) that en by (auto simp: partition_cut_def)
        then show ?thesis using 1 that en by (simp add: same_partition_iff)
      next
        case 2
        then show ?thesis using part that en by (simp add: same_partition_iff)
      next
        case 3
        then have "partition_before np (rows ! i) (rows ! j)" using cuts(2) that by (auto simp: partition_cut_def)
        then show ?thesis using 3 that en by (simp add: same_partition_iff)
      qed
    qed
    have inpeer: "same_partition rows i j \<and> same_peer ds rows i j \<longleftrightarrow> peer \<le> j \<and> j < l"
      if "peer \<le> i" "i < l" "j < length rows" for i j
    proof -
      have i: "b \<le> i" "i < e" using that less(2) l(2) by auto
      consider "j < b \<or> e \<le> j" | "b \<le> j" "j < peer" | "peer \<le> j" "j < l" | "l \<le> j" "j < e" by linarith
      then show ?thesis
      proof cases
        case 1
        then show ?thesis using inpart [OF i that(3)] less(2) l(2) by auto
      next
        case 2
        then show ?thesis using less(4) [of j i] i that en by (simp add: same_peer_iff)
      next
        case 3
        then show ?thesis using inpart [OF i that(3)] l(3) i that less(2) l(2) en by (simp add: same_peer_iff)
      next
        case 4
        then show ?thesis using l(4) [of i j] i that en by (simp add: same_peer_iff)
      qed
    qed
    have ok: "segment_ok ds rows i s" if "peer \<le> i" "i < l" for i
      using that inpart inpeer less(2) l(1,2) en nn by (auto simp: segment_ok_def s_def)
    have rec: "length (peer_loop ds rows b e nn l) = e - l \<and>
        (\<forall>k<e - l. segment_ok ds rows (l + k) (peer_loop ds rows b e nn l ! k))"
    proof (rule less(1))
      show "e - l < e - peer" "b \<le> l" using True l(1,2) less(2) by simp_all
    qed (use l(2,4) in blast)+
    show ?thesis
    proof (intro conjI allI impI)
      fix k
      assume k: "k < e - peer"
      show "segment_ok ds rows (peer + k) (peer_loop ds rows b e nn peer ! k)"
      proof (cases "k < l - peer")
        case True
        then show ?thesis using ok [of "peer + k"] l(1) by (simp add: loop nth_append)
      next
        case False
        define m where "m = k - (l - peer)"
        have "peer + k = l + m" "m < e - l" using False k l(1,2) by (auto simp: m_def)
        then show ?thesis using rec False by (simp add: loop nth_append flip: m_def)
      qed
    qed (use rec l(1,2) loop in simp)
  qed (simp add: peer_loop.simps)
qed

lemma segment_loop_ok:
  assumes sorted: "sorted_rows np ds rows"
    and "partition_cut np rows b"
  shows "length (segment_loop ds rows b) = length rows - b \<and>
    (\<forall>k<length rows - b. segment_ok ds rows (b + k) (segment_loop ds rows b ! k))"
  supply assms = assms(2-)
  supply next_partition_cut = next_partition_cut [OF sorted]
  supply null_keys_last = null_keys_last [OF sorted]
  supply peer_loop_ok = peer_loop_ok [OF sorted]
  using assms
proof (induction "length rows - b" arbitrary: b rule: less_induct)
  case less
  show ?case
  proof (cases "b < length rows")
    case True
    define e where "e = scan_end (same_partition rows b) (length rows) (Suc b)"
    define nn where "nn = (if length ds = 1 then back_over (null_order_key rows) b e else e)"
    note e = next_partition_cut [OF less(2) True, folded e_def]
    have loop: "segment_loop ds rows b = peer_loop ds rows b e nn b @ segment_loop ds rows e"
      using True by (subst segment_loop.simps) (simp add: e_def nn_def Let_def)
    have be: "b \<le> e" using e(1) by simp
    note bo = back_over_spec [OF be, of "null_order_key rows"]
    have nn: "b \<le> nn" "nn \<le> e" using bo(1,2) be by (simp_all add: nn_def)
    have nulls: "\<forall>j. b \<le> j \<longrightarrow> j < e \<longrightarrow> (j < nn \<longleftrightarrow> \<not> null_order_key rows j)" if one: "length ds = 1"
    proof (intro allI impI iffI)
      fix j
      assume j: "b \<le> j" "j < e"
      show "\<not> null_order_key rows j" if "j < nn"
      proof
        assume n: "null_order_key rows j"
        have "\<not> null_order_key rows (nn - 1)" using bo(4) that j one by (simp add: nn_def)
        moreover have "nn - 1 = j \<or> j < nn - 1" using that by auto
        ultimately show False
          using n null_keys_last [OF one, of j "nn - 1"] e(2) e(4) [of j "nn - 1"] j nn(2) that by fastforce
      qed
      show "j < nn" if "\<not> null_order_key rows j"
        using bo(3) [of j] that j one by (simp add: nn_def) (metis not_less)
    qed
    have peers: "length (peer_loop ds rows b e nn b) = e - b \<and>
        (\<forall>k<e - b. segment_ok ds rows (b + k) (peer_loop ds rows b e nn b ! k))"
      by (rule peer_loop_ok [OF e(4) less(2) e(3) nn nulls]) (use be in auto)
    have rec: "length (segment_loop ds rows e) = length rows - e \<and>
        (\<forall>k<length rows - e. segment_ok ds rows (e + k) (segment_loop ds rows e ! k))"
      by (rule less(1)) (use e(1,3) True in \<open>simp_all add: diff_less_mono2\<close>)
    show ?thesis
    proof (intro conjI allI impI)
      fix k
      assume k: "k < length rows - b"
      show "segment_ok ds rows (b + k) (segment_loop ds rows b ! k)"
      proof (cases "k < e - b")
        case True
        then show ?thesis using peers by (simp add: loop nth_append)
      next
        case False
        define m where "m = k - (e - b)"
        have "b + k = e + m" "m < length rows - e" using False k e(1,2) by (auto simp: m_def)
        then show ?thesis using rec peers False by (simp add: loop nth_append flip: m_def)
      qed
    qed (use rec peers e(1,2) loop in simp)
  qed (simp add: segment_loop.simps)
qed

lemma segment_correct:
  assumes sorted: "sorted_rows np ds rows"
  shows "length (segment ds rows) = length rows"
  "i < length rows \<Longrightarrow> segment_ok ds rows i (segment ds rows ! i)"
  supply segment_loop_ok = segment_loop_ok [OF sorted]
  using segment_loop_ok [of 0] by (simp_all add: segment_def partition_cut_def)

end
