(* ===== verification/Window_Frame_Facts.thy ===== *)
theory Window_Frame_Facts
  imports Window_Frames
begin

text \<open>
  The frames of \<open>Window_Frames\<close> against a declarative reading of the \<open>ROWS\<close> and \<open>RANGE\<close> clauses: which
  rows of its partition a row sees.
\<close>

section \<open>The binary search\<close>

lemma search_spec:
  assumes "low \<le> high" and "\<And>i j. low \<le> i \<Longrightarrow> i \<le> j \<Longrightarrow> j < high \<Longrightarrow> before j \<Longrightarrow> before i"
  shows "low \<le> search before low high \<and> search before low high \<le> high \<and>
    (\<forall>j. low \<le> j \<longrightarrow> j < high \<longrightarrow> (j < search before low high \<longleftrightarrow> before j))"
  using assms
proof (induction before low high rule: search.induct)
  case (1 before low high)
  show ?case
  proof (cases "low < high")
    case True
    define m where "m = low + (high - low) div 2"
    have m: "low \<le> m" "m < high" using True by (auto simp: m_def)
    show ?thesis
    proof (cases "before m")
      case b: True
      have "search before low high = search before (m + 1) high"
        using True b by (subst search.simps) (simp add: m_def Let_def)
      moreover have "m + 1 \<le> search before (m + 1) high \<and> search before (m + 1) high \<le> high \<and>
          (\<forall>j. m + 1 \<le> j \<longrightarrow> j < high \<longrightarrow> (j < search before (m + 1) high \<longleftrightarrow> before j))"
        using 1(1) [OF True m_def b] 1(4) m by simp
      moreover have "before j" if "low \<le> j" "j \<le> m" for j using 1(4) [of j m] that b m by simp
      ultimately show ?thesis using m by (metis Suc_eq_plus1 Suc_leI le_trans less_le_trans not_less lessI less_imp_le)
    next
      case b: False
      have "search before low high = search before low m"
        using True b by (subst search.simps) (simp add: m_def Let_def)
      moreover have "low \<le> search before low m \<and> search before low m \<le> m \<and>
          (\<forall>j. low \<le> j \<longrightarrow> j < m \<longrightarrow> (j < search before low m \<longleftrightarrow> before j))"
        using 1(2) [OF True m_def b] 1(4) m by simp
      moreover have "\<not> before j" if "m \<le> j" "j < high" for j using 1(4) [of m j] that b m by auto
      ultimately show ?thesis using m by (metis le_trans not_less less_imp_le)
    qed
  next
    case False
    then show ?thesis using 1(3) by (subst (1 2 3) search.simps) auto
  qed
qed

section \<open>The declarative reading\<close>

text \<open>A target key stays in the range of \<open>int64_t\<close>.\<close>

definition bounded_key :: "int \<Rightarrow> int" where
  "bounded_key k = max int64_min (min int64_max k)"

text \<open>
  The rows at or after the start: by row number, or by peers, or by key.  Under a \<open>RANGE\<close> with offsets a
  row with a NULL key starts at the NULL keys and reaches to the end of its partition.
\<close>

definition key_at_least :: "bool \<Rightarrow> 'r WindowRow list \<Rightarrow> nat \<Rightarrow> int \<Rightarrow> nat \<Rightarrow> bool" where
  "key_at_least descending rows row delta j \<longleftrightarrow> null_order_key rows j \<or>
     (\<not> null_order_key rows row \<and>
      (if descending then order_key rows j \<le> bounded_key (order_key rows row - delta)
       else bounded_key (order_key rows row + delta) \<le> order_key rows j))"

definition key_at_most :: "bool \<Rightarrow> 'r WindowRow list \<Rightarrow> nat \<Rightarrow> int \<Rightarrow> nat \<Rightarrow> bool" where
  "key_at_most descending rows row delta j \<longleftrightarrow> null_order_key rows row \<or>
     (\<not> null_order_key rows j \<and>
      (if descending then bounded_key (order_key rows row - delta) \<le> order_key rows j
       else order_key rows j \<le> bounded_key (order_key rows row + delta)))"

definition from_start ::
  "WindowFrameSpec \<Rightarrow> TimeUnit option \<Rightarrow> bool list \<Rightarrow> 'r WindowRow list \<Rightarrow> nat \<Rightarrow> nat \<Rightarrow> bool" where
  "from_start f type ds rows row j =
     (case wf_start f of
        UNBOUNDED_PRECEDING \<Rightarrow> True
      | UNBOUNDED_FOLLOWING \<Rightarrow> False
      | CURRENT_ROW \<Rightarrow> row \<le> j \<or> (\<not> wf_rows f \<and> same_peer ds rows row j)
      | PRECEDING \<Rightarrow> if wf_rows f then int row - wf_start_offset f \<le> int j
          else key_at_least (hd ds) rows row (- start_offset f type) j
      | FOLLOWING \<Rightarrow> if wf_rows f then int row + wf_start_offset f \<le> int j
          else key_at_least (hd ds) rows row (start_offset f type) j)"

definition to_end ::
  "WindowFrameSpec \<Rightarrow> TimeUnit option \<Rightarrow> bool list \<Rightarrow> 'r WindowRow list \<Rightarrow> nat \<Rightarrow> nat \<Rightarrow> bool" where
  "to_end f type ds rows row j =
     (case wf_end f of
        UNBOUNDED_PRECEDING \<Rightarrow> False
      | UNBOUNDED_FOLLOWING \<Rightarrow> True
      | CURRENT_ROW \<Rightarrow> j \<le> row \<or> (\<not> wf_rows f \<and> same_peer ds rows row j)
      | PRECEDING \<Rightarrow> if wf_rows f then int j \<le> int row - wf_end_offset f
          else key_at_most (hd ds) rows row (- end_offset f type) j
      | FOLLOWING \<Rightarrow> if wf_rows f then int j \<le> int row + wf_end_offset f
          else key_at_most (hd ds) rows row (end_offset f type) j)"

definition in_frame ::
  "WindowFrameSpec \<Rightarrow> TimeUnit option \<Rightarrow> bool list \<Rightarrow> 'r WindowRow list \<Rightarrow> nat \<Rightarrow> nat \<Rightarrow> bool" where
  "in_frame f type ds rows row j \<longleftrightarrow>
     same_partition rows row j \<and> from_start f type ds rows row j \<and> to_end f type ds rows row j"

text \<open>What the binder checks of a frame: offsets are \<open>int64_t\<close>, not negative, and with \<open>RANGE\<close> there is one integer key.\<close>

definition integer_keys :: "'r WindowRow list \<Rightarrow> bool" where
  "integer_keys rows \<longleftrightarrow> (\<forall>r\<in>set rows. \<exists>v. wr_order r = [v] \<and> (v = V_NUL \<or> kind_code v = 1))"

definition frame_bound :: "WindowFrameSpec \<Rightarrow> bool list \<Rightarrow> 'r WindowRow list \<Rightarrow> bool" where
  "frame_bound f ds rows \<longleftrightarrow>
     0 \<le> wf_start_offset f \<and> wf_start_offset f \<le> int64_max \<and> 0 \<le> wf_end_offset f \<and> wf_end_offset f \<le> int64_max \<and>
     int (length rows) \<le> int64_max \<and> (ranged f \<longrightarrow> length ds = 1 \<and> integer_keys rows)"

lemma saturating_bounded:
  assumes "int64_min \<le> v" "v \<le> int64_max" "0 \<le> d"
  shows "saturatingAdd v d = bounded_key (v + d)" and "saturatingSub v d = bounded_key (v - d)"
  using assms by (auto simp: saturatingAdd_def saturatingSub_def bounded_key_def int64_min_def int64_max_def)

lemma keyOffset_nonneg: "0 \<le> d \<Longrightarrow> 0 \<le> keyOffset d t"
  by (auto simp: keyOffset_def signed_divide_int_def sgn_if pos_imp_zdiv_nonneg_iff split: option.splits TimeUnit.splits)

lemma order_key_range: "int64_min \<le> order_key rows i" "order_key rows i \<le> int64_max"
proof -
  have "int64_min \<le> integer_field v \<and> integer_field v \<le> int64_max" for v
  proof (cases v)
    case (V_INT w)
    then show ?thesis using sint_ge [of w] sint_lt [of w] by (simp add: int64_min_def int64_max_def)
  qed (simp_all add: int64_min_def int64_max_def)
  then show "int64_min \<le> order_key rows i" "order_key rows i \<le> int64_max" by (simp_all add: order_key_def)
qed

section \<open>Frames\<close>

lemma segment_ok_null:
  assumes "segment_ok ds rows row s" and "length ds = 1"
  shows "sg_non_null_end s \<le> row \<longleftrightarrow> null_order_key rows row"
proof -
  have "sg_partition_begin s \<le> row" "row < sg_partition_end s" using assms(1) by (auto simp: segment_ok_def)
  then have "row < sg_non_null_end s \<longleftrightarrow> \<not> null_order_key rows row"
    using assms unfolding segment_ok_def by blast
  then show ?thesis by (simp add: not_less [symmetric])
qed

lemma segment_ok_part:
  assumes "segment_ok ds rows row s" and "sg_partition_begin s \<le> j" and "j < sg_partition_end s"
  shows "j < length rows \<and> same_partition rows row j"
proof -
  have "j < length rows" using assms(1,3) by (simp add: segment_ok_def)
  then show ?thesis using assms unfolding segment_ok_def by blast
qed

lemma one_key:
  assumes sorted: "sorted_rows np ds rows"
    and bound: "frame_bound f ds rows"
    and "ranged f" and "i < length rows"
  obtains v d where "ds = [d]" and "wr_order (rows ! i) = [v]" and "v = V_NUL \<or> kind_code v = 1"
    and "null_order_key rows i \<longleftrightarrow> v = V_NUL" and "order_key rows i = integer_field v"
  supply assms = assms(3-)
proof -
  obtain v where "wr_order (rows ! i) = [v]" "v = V_NUL \<or> kind_code v = 1"
    using bound assms nth_mem [OF assms(2)] unfolding frame_bound_def integer_keys_def by blast
  moreover obtain d where "ds = [d]" using bound assms(1) by (auto simp: frame_bound_def length_Suc_conv)
  ultimately show ?thesis using that by (simp add: null_order_key_def order_key_def)
qed

lemma order_before_keys:
  assumes sorted: "sorted_rows np ds rows"
    and bound: "frame_bound f ds rows"
    and "ranged f" and "i < length rows" and "j < length rows"
  shows "order_before ds (rows ! i) (rows ! j) \<longleftrightarrow>
    \<not> null_order_key rows i \<and> (null_order_key rows j \<or>
      (if hd ds then order_key rows j < order_key rows i else order_key rows i < order_key rows j))"
  supply assms = assms(3-)
  supply one_key = one_key [OF sorted bound]
proof -
  obtain v d where v: "ds = [d]" "wr_order (rows ! i) = [v]" "v = V_NUL \<or> kind_code v = 1"
    "null_order_key rows i \<longleftrightarrow> v = V_NUL" "order_key rows i = integer_field v"
    by (rule one_key [OF assms(1,2)])
  obtain w where w: "wr_order (rows ! j) = [w]" "w = V_NUL \<or> kind_code w = 1"
    "null_order_key rows j \<longleftrightarrow> w = V_NUL" "order_key rows j = integer_field w"
    by (rule one_key [OF assms(1,3)])
  show ?thesis using v w by (cases v; cases w) (auto simp: order_before_def image_before_def)
qed

text \<open>The search finds the rows of the partition that are before the target; the keys are in order.\<close>

lemma search_target_spec:
  assumes sorted: "sorted_rows np ds rows"
    and bound: "frame_bound f ds rows"
    and "ranged f" and "segment_ok ds rows row s" and "row < length rows"
  shows "sg_partition_begin s \<le> search_target (hd ds) rows s t strict"
    and "\<And>j. sg_partition_begin s \<le> j \<Longrightarrow> j < sg_partition_end s \<Longrightarrow>
      j < search_target (hd ds) rows s t strict \<longleftrightarrow>
      \<not> null_order_key rows j \<and> before_target (hd ds) strict t (order_key rows j)"
  supply assms = assms(3-)
  supply order_before_keys = order_before_keys [OF sorted bound]
proof -
  let ?before = "\<lambda>i. before_target (hd ds) strict t (order_key rows i)"
  let ?b = "sg_partition_begin s" and ?e = "sg_partition_end s" and ?n = "sg_non_null_end s"
  have len: "length ds = 1" using bound assms(1) by (simp add: frame_bound_def)
  have s: "?b \<le> ?n" "?n \<le> ?e" "?e \<le> length rows" "\<And>j. ?b \<le> j \<Longrightarrow> j < ?e \<Longrightarrow> j < ?n \<longleftrightarrow> \<not> null_order_key rows j"
    using assms(2) len by (auto simp: segment_ok_def)
  have part: "same_partition rows row j" if "?b \<le> j" "j < ?e" for j
    using segment_ok_part [OF assms(2) that] by simp
  have mono: "?before i" if ij: "?b \<le> i" "i \<le> j" "j < ?n" "?before j" for i j
  proof (cases "i = j")
    case False
    have "same_partition rows row i" "same_partition rows row j" using part [of i] part [of j] ij s by auto
    then have "\<not> partition_before np (rows ! i) (rows ! j)"
      using ij s assms(3) P_order(2) [OF sorted, of i j row]
      by (auto simp: same_partition_iff [OF sorted])
    then have "\<not> order_before ds (rows ! j) (rows ! i)"
      using rows_sorted(2) [OF sorted, of i j] False ij s by auto
    moreover have "\<not> null_order_key rows j" using s(2) s(4) [of j] ij by simp
    ultimately show ?thesis
      using ij s(2,3) by (auto simp: order_before_keys [OF assms(1)] before_target_def split: if_splits)
  qed (use ij in simp)
  have sp: "?b \<le> search ?before ?b ?n \<and> search ?before ?b ?n \<le> ?n \<and>
      (\<forall>j. ?b \<le> j \<longrightarrow> j < ?n \<longrightarrow> (j < search ?before ?b ?n \<longleftrightarrow> ?before j))"
    by (rule search_spec [OF s(1)]) (rule mono)
  then show "?b \<le> search_target (hd ds) rows s t strict" by (simp add: search_target_def)
  show "j < search_target (hd ds) rows s t strict \<longleftrightarrow> \<not> null_order_key rows j \<and> ?before j"
    if "?b \<le> j" "j < ?e" for j
    using sp s(4) [OF that] that less_le_trans [of j "search ?before ?b ?n" ?n]
    unfolding search_target_def by blast
qed

lemma key_target_bounded:
  assumes sorted: "sorted_rows np ds rows"
    and bound: "frame_bound f ds rows"
    and "0 \<le> offset"
  shows "key_target descending rows row offset preceding =
    bounded_key (order_key rows row + (if preceding \<noteq> descending then - offset else offset))"
  supply assms = assms(3-)
  by (simp add: key_target_def saturating_bounded [OF order_key_range(1) order_key_range(2) assms])

lemma offsets_nonneg:
  assumes sorted: "sorted_rows np ds rows"
    and bound: "frame_bound f ds rows"
  shows "0 \<le> start_offset f type" "0 \<le> end_offset f type"
  using bound by (auto simp: start_offset_def end_offset_def frame_bound_def intro: keyOffset_nonneg)

lemma null_rows:
  assumes sorted: "sorted_rows np ds rows"
    and bound: "frame_bound f ds rows"
    and "ranged f" and "segment_ok ds rows row s" and "row < length rows"
    and "sg_partition_begin s \<le> j" and "j < sg_partition_end s" and "null_order_key rows row"
  shows "sg_peer_begin s \<le> j \<longleftrightarrow> null_order_key rows j" and "j < sg_peer_end s"
  supply assms = assms(3-)
  supply order_before_keys = order_before_keys [OF sorted bound]
proof -
  have len: "length ds = 1" using bound assms(1) by (simp add: frame_bound_def)
  have j: "j < length rows" "same_partition rows row j" using segment_ok_part [OF assms(2,4,5)] by simp_all
  have peer: "same_peer ds rows row j \<longleftrightarrow> null_order_key rows j"
    using assms(6) by (simp add: same_peer_iff [OF sorted assms(3) j(1)] order_before_keys [OF assms(1)] assms(3) j(1))
  have in_peers: "sg_peer_begin s \<le> j \<and> j < sg_peer_end s \<longleftrightarrow> null_order_key rows j"
    using assms(2) j peer by (simp add: segment_ok_def)
  have "j < sg_peer_end s" if "\<not> null_order_key rows j"
  proof -
    have "j < sg_non_null_end s" "\<not> row < sg_non_null_end s"
      using assms(2,4-6) that len by (auto simp: segment_ok_def)
    then show ?thesis using assms(2) by (auto simp: segment_ok_def)
  qed
  then show "j < sg_peer_end s" using in_peers by blast
  then show "sg_peer_begin s \<le> j \<longleftrightarrow> null_order_key rows j" using in_peers by blast
qed

lemma frame_begin_spec:
  assumes sorted: "sorted_rows np ds rows"
    and bound: "frame_bound f ds rows"
    and s: "segment_ok ds rows row s" and row: "row < length rows"
    and j: "sg_partition_begin s \<le> j" "j < sg_partition_end s"
  shows "frame_begin f type (hd ds) rows s row \<le> int j \<longleftrightarrow> from_start f type ds rows row j"
  supply search_target_spec = search_target_spec [OF sorted bound]
  supply key_target_bounded = key_target_bounded [OF sorted bound]
  supply offsets_nonneg = offsets_nonneg [OF sorted bound]
  supply null_rows = null_rows [OF sorted bound]
proof -
  have lens: "int row \<le> int64_max" "int j \<le> int64_max" "int (sg_partition_end s) \<le> int64_max"
    using bound row j s by (auto simp: frame_bound_def segment_ok_def)
  have offs: "0 \<le> wf_start_offset f" "wf_start_offset f \<le> int64_max" using bound by (auto simp: frame_bound_def)
  have peers: "sg_peer_begin s \<le> j \<longleftrightarrow> row \<le> j \<or> same_peer ds rows row j"
  proof -
    have "sg_peer_begin s \<le> j \<and> j < sg_peer_end s \<longleftrightarrow> same_peer ds rows row j"
      using s segment_ok_part [OF s j] unfolding segment_ok_def by blast
    moreover have "sg_peer_begin s \<le> row" "row < sg_peer_end s" using s by (auto simp: segment_ok_def)
    ultimately show ?thesis by linarith
  qed
  have rows_pre: "wf_rows f \<Longrightarrow> max (int (sg_partition_begin s)) (saturatingSub (int row) (start_offset f type)) \<le> int j \<longleftrightarrow>
      int row - wf_start_offset f \<le> int j"
    using j lens offs by (auto simp: start_offset_def ranged_def saturatingSub_def int64_min_def int64_max_def)
  have rows_fol: "wf_rows f \<Longrightarrow> min (int (sg_partition_end s)) (saturatingAdd (int row) (start_offset f type)) \<le> int j \<longleftrightarrow>
      int row + wf_start_offset f \<le> int j"
    using j lens offs by (auto simp: start_offset_def ranged_def saturatingAdd_def int64_min_def int64_max_def)
  have range: "(if row \<ge> sg_non_null_end s then int (sg_peer_begin s)
       else int (search_target (hd ds) rows s (key_target (hd ds) rows row (start_offset f type) preceding) False)) \<le> int j
     \<longleftrightarrow> key_at_least (hd ds) rows row (if preceding then - start_offset f type else start_offset f type) j"
    if r: "ranged f" for preceding
  proof -
    have "length ds = 1" using bound r by (simp add: frame_bound_def)
    note nn = segment_ok_null [OF s this]
    let ?t = "key_target (hd ds) rows row (start_offset f type) preceding"
    have "search_target (hd ds) rows s ?t False \<le> j \<longleftrightarrow>
        null_order_key rows j \<or> \<not> before_target (hd ds) False ?t (order_key rows j)"
      using search_target_spec(2) [OF r s row j, of ?t False] by (simp add: not_less [symmetric])
    then show ?thesis
      using null_rows(1) [OF r s row j]
      by (auto simp: nn key_at_least_def before_target_def key_target_bounded [OF offsets_nonneg(1)] not_less)
  qed
  show ?thesis
    using peers rows_pre rows_fol range [of True] range [of False] j
    by (cases "wf_start f"; cases "wf_rows f")
      (auto simp: frame_begin_def from_start_def Let_def ranged_def)
qed

lemma frame_end_spec:
  assumes sorted: "sorted_rows np ds rows"
    and bound: "frame_bound f ds rows"
    and s: "segment_ok ds rows row s" and row: "row < length rows"
    and j: "sg_partition_begin s \<le> j" "j < sg_partition_end s"
  shows "int j < frame_end f type (hd ds) rows s row \<longleftrightarrow> to_end f type ds rows row j"
  supply search_target_spec = search_target_spec [OF sorted bound]
  supply key_target_bounded = key_target_bounded [OF sorted bound]
  supply offsets_nonneg = offsets_nonneg [OF sorted bound]
  supply null_rows = null_rows [OF sorted bound]
proof -
  have lens: "int row < int64_max" "int j < int64_max" "int (sg_partition_end s) \<le> int64_max"
    using bound row j s by (auto simp: frame_bound_def segment_ok_def)
  have offs: "0 \<le> wf_end_offset f" "wf_end_offset f \<le> int64_max" using bound by (auto simp: frame_bound_def)
  have peers: "j < sg_peer_end s \<longleftrightarrow> j \<le> row \<or> same_peer ds rows row j"
  proof -
    have "sg_peer_begin s \<le> j \<and> j < sg_peer_end s \<longleftrightarrow> same_peer ds rows row j"
      using s segment_ok_part [OF s j] unfolding segment_ok_def by blast
    moreover have "sg_peer_begin s \<le> row" "row < sg_peer_end s" using s by (auto simp: segment_ok_def)
    ultimately show ?thesis by linarith
  qed
  have rows_pre: "wf_rows f \<Longrightarrow> int j < saturatingAdd (saturatingSub (int row) (end_offset f type)) 1 \<longleftrightarrow>
      int j \<le> int row - wf_end_offset f"
    using j lens offs by (auto simp: end_offset_def ranged_def saturatingSub_def saturatingAdd_def int64_min_def int64_max_def)
  have rows_fol: "wf_rows f \<Longrightarrow> int j < saturatingAdd (saturatingAdd (int row) (end_offset f type)) 1 \<longleftrightarrow>
      int j \<le> int row + wf_end_offset f"
    using j lens offs by (auto simp: end_offset_def ranged_def saturatingAdd_def int64_min_def int64_max_def)
  have range: "int j < (if row \<ge> sg_non_null_end s then int (sg_peer_end s)
       else int (search_target (hd ds) rows s (key_target (hd ds) rows row (end_offset f type) preceding) True))
     \<longleftrightarrow> key_at_most (hd ds) rows row (if preceding then - end_offset f type else end_offset f type) j"
    if r: "ranged f" for preceding
  proof -
    have "length ds = 1" using bound r by (simp add: frame_bound_def)
    note nn = segment_ok_null [OF s this]
    show ?thesis
      using null_rows(2) [OF r s row j]
        search_target_spec(2) [OF r s row j, of "key_target (hd ds) rows row (end_offset f type) preceding" True]
      by (auto simp: nn key_at_most_def before_target_def key_target_bounded [OF offsets_nonneg(2)] not_less)
  qed
  show ?thesis
    using peers rows_pre rows_fol range [of True] range [of False] j
    by (cases "wf_end f"; cases "wf_rows f")
      (auto simp: frame_end_def to_end_def Let_def ranged_def)
qed

lemma frame_of_row_spec:
  assumes sorted: "sorted_rows np ds rows"
    and bound: "frame_bound f ds rows"
    and s: "segment_ok ds rows row s" and row: "row < length rows"
    and fr: "frame_of_row f type (hd ds) rows s row = (b, e)"
  shows "sg_partition_begin s \<le> b" and "b \<le> e" and "e \<le> sg_partition_end s"
    and "j < length rows \<Longrightarrow> b \<le> j \<and> j < e \<longleftrightarrow> in_frame f type ds rows row j"
  supply frame_begin_spec = frame_begin_spec [OF sorted bound]
  supply frame_end_spec = frame_end_spec [OF sorted bound]
proof -
  let ?b = "frame_begin f type (hd ds) rows s row" and ?e = "frame_end f type (hd ds) rows s row"
  have pe: "sg_partition_begin s < sg_partition_end s" using s by (auto simp: segment_ok_def)
  show be: "sg_partition_begin s \<le> b" "b \<le> e" "e \<le> sg_partition_end s"
    using fr pe by (auto simp: frame_of_row_def clamp_def Let_def split: if_splits)
  show "b \<le> j \<and> j < e \<longleftrightarrow> in_frame f type ds rows row j" if "j < length rows"
  proof (cases "same_partition rows row j")
    case True
    then have j: "sg_partition_begin s \<le> j" "j < sg_partition_end s"
      using s that unfolding segment_ok_def by blast+
    have "b \<le> j \<and> j < e \<longleftrightarrow> ?b \<le> int j \<and> int j < ?e"
      using fr j by (auto simp: frame_of_row_def clamp_def Let_def split: if_splits)
    then show ?thesis using frame_begin_spec [OF s row j] frame_end_spec [OF s row j] True
      by (simp add: in_frame_def)
  next
    case False
    then have "\<not> (sg_partition_begin s \<le> j \<and> j < sg_partition_end s)"
      using s that unfolding segment_ok_def by blast
    then show ?thesis using be False by (auto simp: in_frame_def)
  qed
qed

section \<open>Property\<close>

definition first_descending :: "bool list \<Rightarrow> bool" where
  "first_descending ds \<longleftrightarrow> ds \<noteq> [] \<and> hd ds"

lemma frame_of_row_first_descending:
  assumes "frame_bound f ds rows"
  shows "frame_of_row f type (first_descending ds) rows s row = frame_of_row f type (hd ds) rows s row"
proof (cases "ranged f")
  case True
  then have "ds \<noteq> []" using assms by (auto simp: frame_bound_def)
  then show ?thesis by (simp add: first_descending_def)
next
  case False
  then have "frame_begin f type d rows s row = frame_begin f type d' rows s row"
    "frame_end f type d rows s row = frame_end f type d' rows s row" for d d'
    by (cases "wf_start f"; cases "wf_end f"; simp add: frame_begin_def frame_end_def Let_def ranged_def)+
  then show ?thesis unfolding frame_of_row_def by metis
qed

lemma frames_nth:
  assumes "sorted_rows np ds rows" and "frame_bound f ds rows" and "row < length rows"
  obtains b e where "frames f (segment ds rows) type (first_descending ds) rows ! row = (b, e)"
    and "sg_partition_begin (segment ds rows ! row) \<le> b" and "b \<le> e"
    and "e \<le> sg_partition_end (segment ds rows ! row)"
    and "{b..<e} = {j. j < length rows \<and> in_frame f type ds rows row j}"
proof -
  let ?s = "segment ds rows ! row"
  note ok = segment_correct(2) [OF assms(1,3)]
  obtain b e where be: "frame_of_row f type (hd ds) rows ?s row = (b, e)" by force
  note spec = frame_of_row_spec [OF assms(1,2) ok assms(3) be]
  have "sg_partition_end ?s \<le> length rows" using ok by (simp add: segment_ok_def)
  then have "{b..<e} = {j. j < length rows \<and> in_frame f type ds rows row j}"
    using spec(3,4) by (auto; meson less_le_trans)
  then show ?thesis
    using that be spec(1-3) assms(3) by (simp add: frames_def frame_of_row_first_descending [OF assms(2)])
qed

text \<open>
  C18. The frame of a row is what its clause says, on a batch sorted by partition and order keys: with \<open>ROWS\<close>
  the rows of the partition at the given distances, with \<open>RANGE\<close> those with keys in the given distance of
  the row's key (in key order, saturating at the ends of \<open>int64_t\<close>) or its peers, with NULL keys together
  at the end; the frame is empty when its end comes before its start.
\<close>

theorem window_frames_exact:
  assumes "sorted_rows np ds rows" and "frame_bound f ds rows" and "row < length rows"
  shows "case frames f (segment ds rows) type (first_descending ds) rows ! row of (b, e) \<Rightarrow>
    b \<le> e \<and> e \<le> length rows \<and> {b..<e} = {j. j < length rows \<and> in_frame f type ds rows row j}"
proof -
  obtain b e where be: "frames f (segment ds rows) type (first_descending ds) rows ! row = (b, e)"
    "b \<le> e" "e \<le> sg_partition_end (segment ds rows ! row)"
    "{b..<e} = {j. j < length rows \<and> in_frame f type ds rows row j}"
    by (rule frames_nth [OF assms, of type])
  moreover have "sg_partition_end (segment ds rows ! row) \<le> length rows"
    using segment_correct(2) [OF assms(1,3)] by (simp add: segment_ok_def)
  ultimately show ?thesis by simp
qed

definition ex_row :: "OwnedValue \<Rightarrow> OwnedValue \<Rightarrow> OwnedValue \<Rightarrow> unit WindowRow" where
  "ex_row p k v = \<lparr>wr_input = (), wr_partition = [p], wr_order = [k], wr_arguments = [v], wr_defaults = [V_NUL]\<rparr>"

definition ex_frame :: WindowFrameSpec where
  "ex_frame = \<lparr>wf_rows = False, wf_start = PRECEDING, wf_start_offset = 1, wf_end = CURRENT_ROW, wf_end_offset = 0\<rparr>"

definition ex_rows :: "unit WindowRow list" where
  "ex_rows = [ex_row (V_BOOL True) (V_INT 1) (V_INT 10), ex_row (V_BOOL True) (V_INT 2) (V_INT 20),
     ex_row (V_BOOL True) (V_INT 4) (V_INT 40)]"

lemma ex_rows_sorted: "sorted_rows 1 [False] ex_rows" "frame_bound ex_frame [False] ex_rows"
  by (simp_all add: sorted_rows_def comparable_rows_def comparable_def ex_rows_def ex_row_def window_before_def
      partition_before_def order_before_def image_before_def frame_bound_def ex_frame_def ranged_def integer_keys_def
      int64_max_def)

lemma length_ex_rows: "length ex_rows = 3"
  by (simp add: ex_rows_def)

lemma ex_frame_rows: "{j. j < 3 \<and> in_frame ex_frame None [False] ex_rows 1 j} = {0, 1}"
  by (auto simp: in_frame_def same_partition_def comparePartition_def compareKey_def the_order_def ex_rows_def ex_row_def
    ex_frame_def from_start_def to_end_def key_at_least_def null_order_key_def order_key_def start_offset_def
    bounded_key_def int64_max_def int64_min_def ranged_def keyOffset_def less_Suc_eq numeral_3_eq_3 same_peer_def
    compareOrder_def)

theorem window_frames_exact_witness:
  "frames ex_frame (segment [False] ex_rows) None False ex_rows ! 1 = (0, 2)"
proof -
  obtain b e where be: "frames ex_frame (segment [False] ex_rows) None False ex_rows ! 1 = (b, e)" by force
  have "b \<le> e \<and> {b..<e} = {0, 1}"
    using window_frames_exact [OF ex_rows_sorted, of 1 None] be ex_frame_rows
    by (simp add: first_descending_def length_ex_rows)
  then have "0 \<in> {b..<e}" "1 \<in> {b..<e}" "2 \<notin> {b..<e}" by simp_all
  then have "b = 0 \<and> e = 2" by auto
  then show ?thesis using be by simp
qed

end
