(* ===== verification/Window_Calls.thy ===== *)
theory Window_Calls
  imports Window_Frame_Facts
begin

text \<open>
  The calls of a window group over a sorted batch (\<open>slidingSum\<close>, \<open>slidingChoice\<close>, \<open>evaluateCall\<close> and
  \<open>evaluateSorted\<close> of \<open>src/query/executor/WindowEvaluator.cpp\<close>).

  An argument column is the list of its values with the two facts the code asks of its Arrow type:
  whether the call has an argument at all, and whether the type is integer (\<open>integerType\<close>).  Signed
  overflow of \<open>int64_t\<close> is undefined in C++; the model raises \<open>SignedOverflow\<close> there.
  \<open>buildValueColumn\<close>, which rebuilds the values of \<open>LAG\<close> and \<open>LEAD\<close> with a default in an Arrow type, is a
  parameter.
\<close>

section \<open>SUM, AVG and COUNT\<close>

record SumState =
  ss_low :: nat
  ss_high :: nat
  ss_integer :: int
  ss_double :: u64
  ss_values :: int

text \<open>Multiplication of a double by \<open>1\<close> or \<open>-1\<close>.\<close>

definition d_sign :: "int \<Rightarrow> u64 \<Rightarrow> u64" where
  "d_sign sign d = (if sign < 0 then d + 0x8000000000000000 else d)"

definition not_numeric :: "bool \<Rightarrow> exn" where
  "not_numeric average = window_failed ((if average then ''AVG'' else ''SUM'') @ '' requires numeric values'')"

definition apply_value :: "string \<Rightarrow> bool \<Rightarrow> OwnedValue list \<Rightarrow> int \<Rightarrow> SumState \<Rightarrow> nat \<Rightarrow> exn + SumState" where
  "apply_value function has_argument args sign st row =
     (if \<not> has_argument then Inr (st\<lparr>ss_values := ss_values st + sign\<rparr>)
      else if args ! row = V_NUL then Inr st
      else let st = st\<lparr>ss_values := ss_values st + sign\<rparr> in
        if function = ''count'' then Inr st
        else if \<not> numeric (args ! row) then Inl (not_numeric (function = ''avg''))
        else case (case args ! row of
               V_INT i \<Rightarrow> (case int64 (sign * sint i) of Inl e \<Rightarrow> Inl e | Inr d \<Rightarrow> int64 (ss_integer st + d))
             | _ \<Rightarrow> Inr (ss_integer st)) of
            Inl e \<Rightarrow> Inl e
          | Inr n \<Rightarrow> Inr (st\<lparr>ss_integer := n,
              ss_double := d_add (ss_double st) (d_sign sign (asDouble (args ! row)))\<rparr>))"

definition sum_reset :: "nat \<Rightarrow> SumState" where
  "sum_reset row = \<lparr>ss_low = row, ss_high = row, ss_integer = 0, ss_double = 0, ss_values = 0\<rparr>"

definition sum_slide ::
  "string \<Rightarrow> bool \<Rightarrow> OwnedValue list \<Rightarrow> nat \<times> nat \<Rightarrow> SumState \<Rightarrow> exn + SumState" where
  "sum_slide function has_argument args frame st =
     (case foldE (apply_value function has_argument args 1) st [ss_high st..<snd frame] of
        Inl e \<Rightarrow> Inl e
      | Inr st \<Rightarrow>
          let st = st\<lparr>ss_high := max (ss_high st) (snd frame)\<rparr> in
          (case foldE (apply_value function has_argument args (- 1)) st [ss_low st..<fst frame] of
             Inl e \<Rightarrow> Inl e
           | Inr st \<Rightarrow> Inr (st\<lparr>ss_low := max (ss_low st) (fst frame)\<rparr>)))"

definition sum_value_of :: "string \<Rightarrow> bool \<Rightarrow> SumState \<Rightarrow> OwnedValue" where
  "sum_value_of function integer st =
     (if function = ''count'' then V_INT (of_int (ss_values st))
      else if ss_values st = 0 then V_NUL
      else if function = ''avg'' then
        V_DOUBLE (d_div (if integer then int_to_double (ss_integer st) else ss_double st) (int_to_double (ss_values st)))
      else if integer then V_INT (of_int (ss_integer st))
      else V_DOUBLE (ss_double st))"

fun sum_rows ::
  "string \<Rightarrow> bool \<Rightarrow> bool \<Rightarrow> OwnedValue list \<Rightarrow> Segment list \<Rightarrow> (nat \<times> nat) list \<Rightarrow> SumState \<Rightarrow> nat list \<Rightarrow>
   exn + OwnedValue list" where
  "sum_rows function has_argument integer args segments fr st [] = Inr []"
| "sum_rows function has_argument integer args segments fr st (row # rows) =
     (case sum_slide function has_argument args (fr ! row)
             (if row = sg_partition_begin (segments ! row) then sum_reset row else st) of
        Inl e \<Rightarrow> Inl e
      | Inr st \<Rightarrow>
          (case sum_rows function has_argument integer args segments fr st rows of
             Inl e \<Rightarrow> Inl e
           | Inr vs \<Rightarrow> Inr (sum_value_of function integer st # vs)))"

definition slidingSum ::
  "string \<Rightarrow> bool \<Rightarrow> bool \<Rightarrow> OwnedValue list \<Rightarrow> Segment list \<Rightarrow> (nat \<times> nat) list \<Rightarrow> nat \<Rightarrow> exn + OwnedValue list" where
  "slidingSum function has_argument integer args segments fr n =
     sum_rows function has_argument (\<not> has_argument \<or> integer) args segments fr (sum_reset 0) [0..<n]"

section \<open>MIN and MAX\<close>

text \<open>Gathering by row number; no row gives NULL (\<open>take\<close> with a negative index).\<close>

definition take_value :: "OwnedValue list \<Rightarrow> nat option \<Rightarrow> OwnedValue" where
  "take_value source i = (case i of None \<Rightarrow> V_NUL | Some j \<Rightarrow> source ! j)"

text \<open>The candidates from the back: those that are not better than the new value go.\<close>

fun pop_candidates :: "bool \<Rightarrow> OwnedValue list \<Rightarrow> OwnedValue \<Rightarrow> nat list \<Rightarrow> exn + nat list" where
  "pop_candidates minimum args v [] = Inr []"
| "pop_candidates minimum args v (c # cs) =
     (case compareRefs (args ! c) v of
        Inl e \<Rightarrow> Inl e
      | Inr order \<Rightarrow>
          if (minimum \<and> order < 0) \<or> (\<not> minimum \<and> order > 0) then Inr (c # cs)
          else pop_candidates minimum args v cs)"

definition push_candidate :: "bool \<Rightarrow> OwnedValue list \<Rightarrow> nat list \<Rightarrow> nat \<Rightarrow> exn + nat list" where
  "push_candidate minimum args candidates row =
     (if args ! row = V_NUL then Inr candidates
      else case pop_candidates minimum args (args ! row) (rev candidates) of
          Inl e \<Rightarrow> Inl e
        | Inr cs \<Rightarrow> Inr (rev cs @ [row]))"

fun choice_rows ::
  "bool \<Rightarrow> OwnedValue list \<Rightarrow> Segment list \<Rightarrow> (nat \<times> nat) list \<Rightarrow> nat list \<times> nat \<Rightarrow> nat list \<Rightarrow> exn + nat option list" where
  "choice_rows minimum args segments fr st [] = Inr []"
| "choice_rows minimum args segments fr st (row # rows) =
     (let st = (if row = sg_partition_begin (segments ! row) then ([], row) else st);
          candidates = fst st; high = snd st in
      case foldE (push_candidate minimum args) candidates [high..<snd (fr ! row)] of
        Inl e \<Rightarrow> Inl e
      | Inr cs \<Rightarrow>
          let cs = dropWhile (\<lambda>c. c < fst (fr ! row)) cs in
          (case choice_rows minimum args segments fr (cs, max high (snd (fr ! row))) rows of
             Inl e \<Rightarrow> Inl e
           | Inr chosen \<Rightarrow> Inr ((case cs of [] \<Rightarrow> None | c # _ \<Rightarrow> Some c) # chosen)))"

definition slidingChoice ::
  "bool \<Rightarrow> OwnedValue list \<Rightarrow> Segment list \<Rightarrow> (nat \<times> nat) list \<Rightarrow> nat \<Rightarrow> exn + OwnedValue list" where
  "slidingChoice minimum args segments fr n =
     (case choice_rows minimum args segments fr ([], 0) [0..<n] of
        Inl e \<Rightarrow> Inl e
      | Inr chosen \<Rightarrow> Inr (map (take_value args) chosen))"

section \<open>Calls\<close>

text \<open>A call with the facts of its columns.\<close>

record CallColumns =
  cc_call :: WindowCall
  cc_has_argument :: bool
  cc_has_default :: bool
  cc_integer :: bool
  cc_build :: "OwnedValue list \<Rightarrow> OwnedValue list"

text \<open>The ranking functions: \<open>dense\<close> counts the peer groups of the partition.\<close>

fun rank_rows :: "string \<Rightarrow> Segment list \<Rightarrow> int \<Rightarrow> nat list \<Rightarrow> int list" where
  "rank_rows function segments dense [] = []"
| "rank_rows function segments dense (row # rows) =
     (let s = segments ! row; first = sg_partition_begin s;
          dense = (if row = first then 0 else dense);
          dense = (if row = sg_peer_begin s then dense + 1 else dense) in
      (if function = ''row_number'' then int row - int first + 1
       else if function = ''rank'' then int (sg_peer_begin s) - int first + 1 else dense) #
      rank_rows function segments dense rows)"

definition offset_target :: "string \<Rightarrow> int \<Rightarrow> Segment list \<Rightarrow> nat \<Rightarrow> nat option" where
  "offset_target function offset segments row =
     (let target = (if function = ''lag'' then saturatingSub (int row) offset else saturatingAdd (int row) offset);
          s = segments ! row in
      if target \<ge> int (sg_partition_begin s) \<and> target < int (sg_partition_end s) then Some (nat target) else None)"

definition offset_call :: "CallColumns \<Rightarrow> OwnedValue list \<Rightarrow> OwnedValue list \<Rightarrow> Segment list \<Rightarrow> nat \<Rightarrow> OwnedValue list" where
  "offset_call c args defaults segments n =
     (let targets = map (offset_target (wc_function (cc_call c)) (wc_offset (cc_call c)) segments) [0..<n] in
      if \<not> cc_has_default c then map (take_value args) targets
      else cc_build c (map (\<lambda>row. case targets ! row of Some t \<Rightarrow> args ! t | None \<Rightarrow> defaults ! row) [0..<n]))"

definition value_call :: "bool \<Rightarrow> OwnedValue list \<Rightarrow> (nat \<times> nat) list \<Rightarrow> nat \<Rightarrow> OwnedValue list" where
  "value_call first args fr n =
     map (\<lambda>row. take_value args
       (if snd (fr ! row) \<le> fst (fr ! row) then None
        else Some (if first then fst (fr ! row) else snd (fr ! row) - 1))) [0..<n]"

definition evaluateCall ::
  "bool list \<Rightarrow> TimeUnit option \<Rightarrow> CallColumns \<Rightarrow> nat \<Rightarrow> Segment list \<Rightarrow> 'r WindowRow list \<Rightarrow> exn + OwnedValue list" where
  "evaluateCall ds type c k segments rows =
     (let function = wc_function (cc_call c); n = length rows;
          args = map (\<lambda>r. wr_arguments r ! k) rows; defaults = map (\<lambda>r. wr_defaults r ! k) rows;
          fr = frames (wc_frame (cc_call c)) segments type (first_descending ds) rows in
      if function = ''row_number'' \<or> function = ''rank'' \<or> function = ''dense_rank''
      then Inr (map (\<lambda>v. V_INT (of_int v)) (rank_rows function segments 0 [0..<n]))
      else if function = ''lag'' \<or> function = ''lead''
      then if cc_has_argument c then Inr (offset_call c args defaults segments n) else Inl UndefinedBehaviour
      else if function = ''first_value'' \<or> function = ''last_value''
      then if cc_has_argument c then Inr (value_call (function = ''first_value'') args fr n) else Inl UndefinedBehaviour
      else if function = ''min'' \<or> function = ''max''
      then if cc_has_argument c then slidingChoice (function = ''min'') args segments fr n else Inl UndefinedBehaviour
      else if function = ''sum'' \<or> function = ''avg'' \<or> function = ''count''
      then slidingSum function (cc_has_argument c) (cc_integer c) args segments fr n
      else Inl (window_failed (''unsupported window function '' @ quoted function)))"

fun evaluate_calls ::
  "bool list \<Rightarrow> TimeUnit option \<Rightarrow> CallColumns list \<Rightarrow> nat \<Rightarrow> Segment list \<Rightarrow> 'r WindowRow list \<Rightarrow>
   exn + OwnedValue list list" where
  "evaluate_calls ds type [] k segments rows = Inr []"
| "evaluate_calls ds type (c # cs) k segments rows =
     (case evaluateCall ds type c k segments rows of
        Inl e \<Rightarrow> Inl e
      | Inr column \<Rightarrow>
          (case evaluate_calls ds type cs (k + 1) segments rows of
             Inl e \<Rightarrow> Inl e
           | Inr columns \<Rightarrow> Inr (column # columns)))"

text \<open>The output rows: the columns of the input followed by those of the calls.\<close>

definition evaluateSorted ::
  "bool list \<Rightarrow> TimeUnit option \<Rightarrow> CallColumns list \<Rightarrow> 'r WindowRow list \<Rightarrow> exn + ('r \<times> OwnedValue list) list" where
  "evaluateSorted ds type calls rows =
     (case evaluate_calls ds type calls 0 (segment ds rows) rows of
        Inl e \<Rightarrow> Inl e
      | Inr columns \<Rightarrow>
          Inr (map (\<lambda>i. (wr_input (rows ! i), map (\<lambda>column. column ! i) columns)) [0..<length rows]))"

end
