(* ===== verification/Window_Sums.thy ===== *)
theory Window_Sums
  imports Window_Calls
begin

text \<open>
  The sliding sums and choices against their meaning on every frame.  The loops rely on frames that only
  move forward within a partition, which the frames of a sorted batch do.
\<close>

section \<open>Frames that move forward\<close>

definition moving_frames :: "Segment list \<Rightarrow> (nat \<times> nat) list \<Rightarrow> nat \<Rightarrow> bool" where
  "moving_frames segments fr n \<longleftrightarrow>
     (\<forall>i<n. sg_partition_begin (segments ! i) \<le> i \<and> sg_partition_begin (segments ! i) \<le> fst (fr ! i) \<and>
        fst (fr ! i) \<le> snd (fr ! i) \<and> snd (fr ! i) \<le> n \<and>
        (sg_partition_begin (segments ! i) \<noteq> i \<longrightarrow>
           sg_partition_begin (segments ! (i - 1)) = sg_partition_begin (segments ! i) \<and>
           fst (fr ! (i - 1)) \<le> fst (fr ! i) \<and> snd (fr ! (i - 1)) \<le> snd (fr ! i)))"

lemma from_start_forward:
  assumes sorted: "sorted_rows np ds rows"
    and bound: "frame_bound f ds rows"
    and "i \<le> j" and "j < length rows" and "x < length rows"
    and "same_partition rows i j" and "same_partition rows i x" and "from_start f type ds rows j x"
  shows "from_start f type ds rows i x"
  supply assms = assms(3-)
proof -
  have i: "i < length rows" using assms by simp
  note ij = assms(4) [unfolded same_partition_iff [OF sorted i assms(2)]]
  note ix = assms(5) [unfolded same_partition_iff [OF sorted i assms(3)]]
  have sp: "i \<noteq> j \<Longrightarrow> \<not> order_before ds (rows ! j) (rows ! i)"
    using rows_sorted(2) [OF sorted, of i j] assms(1,2) ij by auto
  have peer: "i \<le> x \<or> same_peer ds rows i x" if "j \<le> x \<or> same_peer ds rows j x"
  proof (cases "i \<le> x")
    case False
    then have sj: "same_peer ds rows j x" using that assms(1) by auto
    then have "\<not> order_before ds (rows ! j) (rows ! x)" "\<not> order_before ds (rows ! x) (rows ! j)"
      using same_peer_iff [OF sorted assms(2,3)] by auto
    moreover have "\<not> order_before ds (rows ! i) (rows ! x)"
      using rows_sorted(2) [OF sorted, of x i] False i ix by auto
    ultimately show ?thesis
      using sp sj O_order(2) [OF sorted, of x i j] by (cases "i = j") (auto simp: same_peer_iff [OF sorted i assms(3)])
  qed simp
  have key: "key_at_least (hd ds) rows i d x" if "ranged f" "key_at_least (hd ds) rows j d x" for d
  proof (cases "i = j")
    case False
    have "\<not> null_order_key rows i \<and> (if hd ds then order_key rows j \<le> order_key rows i else order_key rows i \<le> order_key rows j)"
      if "\<not> null_order_key rows j"
      using sp [OF False] that \<open>ranged f\<close> i assms(2)
      by (auto simp: order_before_keys [OF sorted bound \<open>ranged f\<close>] split: if_splits)
    then show ?thesis using that by (auto simp: key_at_least_def bounded_key_def split: if_splits)
  qed (use that in simp)
  show ?thesis using assms(1,6) peer key
    by (cases "wf_start f"; cases "wf_rows f") (auto simp: from_start_def ranged_def)
qed

lemma to_end_forward:
  assumes sorted: "sorted_rows np ds rows"
    and bound: "frame_bound f ds rows"
    and "i \<le> j" and "j < length rows" and "x < length rows"
    and "same_partition rows i j" and "same_partition rows j x" and "to_end f type ds rows i x"
  shows "to_end f type ds rows j x"
  supply assms = assms(3-)
proof -
  have i: "i < length rows" using assms by simp
  note ij = assms(4) [unfolded same_partition_iff [OF sorted i assms(2)]]
  note jx = assms(5) [unfolded same_partition_iff [OF sorted assms(2,3)]]
  have sp: "i \<noteq> j \<Longrightarrow> \<not> order_before ds (rows ! j) (rows ! i)"
    using rows_sorted(2) [OF sorted, of i j] assms(1,2) ij by auto
  have peer: "x \<le> j \<or> same_peer ds rows j x" if "x \<le> i \<or> same_peer ds rows i x"
  proof (cases "x \<le> j")
    case False
    then have si: "same_peer ds rows i x" using that assms(1) by auto
    then have "\<not> order_before ds (rows ! i) (rows ! x)" "\<not> order_before ds (rows ! x) (rows ! i)"
      using same_peer_iff [OF sorted i assms(3)] by auto
    moreover have "\<not> order_before ds (rows ! x) (rows ! j)"
      using rows_sorted(2) [OF sorted, of j x] False assms(3) jx by auto
    ultimately show ?thesis
      using sp si O_order(2) [OF sorted, of j x i] by (cases "i = j") (auto simp: same_peer_iff [OF sorted assms(2,3)])
  qed simp
  have key: "key_at_most (hd ds) rows j d x" if "ranged f" "key_at_most (hd ds) rows i d x" for d
  proof (cases "i = j")
    case False
    have "null_order_key rows j \<or> \<not> null_order_key rows i \<and>
        (if hd ds then order_key rows j \<le> order_key rows i else order_key rows i \<le> order_key rows j)"
      using sp [OF False] \<open>ranged f\<close> i assms(2)
      by (auto simp: order_before_keys [OF sorted bound \<open>ranged f\<close>] split: if_splits)
    then show ?thesis using that by (auto simp: key_at_most_def bounded_key_def split: if_splits)
  qed (use that in simp)
  show ?thesis using assms(1,6) peer key
    by (cases "wf_end f"; cases "wf_rows f") (auto simp: to_end_def ranged_def)
qed

lemma clamp_begin:
  assumes sorted: "sorted_rows np ds rows"
    and bound: "frame_bound f ds rows"
    and "i < length rows"
  defines "s \<equiv> segment ds rows ! i"
  assumes "frame_of_row f type (hd ds) rows s i = (b, e)"
    and "sg_partition_begin s \<le> x" and "x < sg_partition_end s"
  shows "b \<le> x \<longleftrightarrow> from_start f type ds rows i x" and "e \<le> x \<longleftrightarrow> b \<le> x \<and> \<not> to_end f type ds rows i x"
  supply assms = assms(3-)
proof -
  have s: "segment_ok ds rows i s" using segment_correct(2) [OF sorted assms(1)] by (simp add: s_def)
  note specs = frame_begin_spec [OF sorted bound s assms(1,4,5), of type]
    frame_end_spec [OF sorted bound s assms(1,4,5), of type]
  show "b \<le> x \<longleftrightarrow> from_start f type ds rows i x" "e \<le> x \<longleftrightarrow> b \<le> x \<and> \<not> to_end f type ds rows i x"
    using assms(3-5) specs by (auto simp: frame_of_row_def clamp_def Let_def split: if_splits)
qed

lemma frames_move_forward:
  assumes sorted: "sorted_rows np ds rows"
    and bound: "frame_bound f ds rows"
  shows "moving_frames (segment ds rows) (frames f (segment ds rows) type (first_descending ds) rows) (length rows)"
  supply from_start_forward = from_start_forward [OF sorted bound]
  supply to_end_forward = to_end_forward [OF sorted bound]
  supply clamp_begin = clamp_begin [OF sorted bound]
proof -
  let ?s = "\<lambda>i. segment ds rows ! i" and ?fr = "\<lambda>i. frame_of_row f type (hd ds) rows (segment ds rows ! i) i"
  have fr: "frames f (segment ds rows) type (first_descending ds) rows ! i = ?fr i" if "i < length rows" for i
    using that by (simp add: frames_def frame_of_row_first_descending [OF bound])
  have ok: "segment_ok ds rows i (?s i)" if "i < length rows" for i using segment_correct(2) [OF sorted that] .
  have in_part: "sg_partition_begin (?s i) \<le> fst (?fr i) \<and> fst (?fr i) \<le> snd (?fr i) \<and> snd (?fr i) \<le> sg_partition_end (?s i)"
    if "i < length rows" for i
    using frame_of_row_spec(1-3) [OF sorted bound ok [OF that] that, of type "fst (?fr i)" "snd (?fr i)"] by simp
  have same: "sg_partition_begin (?s (i - 1)) = sg_partition_begin (?s i) \<and>
      sg_partition_end (?s (i - 1)) = sg_partition_end (?s i) \<and> same_partition rows (i - 1) i"
    if "i < length rows" "sg_partition_begin (?s i) \<noteq> i" for i
  proof -
    let ?p = "?s (i - 1)" and ?q = "?s i"
    have p: "segment_ok ds rows (i - 1) ?p" and q: "segment_ok ds rows i ?q" using ok that by auto
    have bq: "sg_partition_begin ?q \<le> i - 1" "i - 1 < sg_partition_end ?q" using q that by (auto simp: segment_ok_def)
    have sp: "same_partition rows i (i - 1)" using segment_ok_part [OF q bq] by simp
    have iff: "same_partition rows i x \<longleftrightarrow> same_partition rows (i - 1) x" if "x < length rows" for x
      using sp that \<open>i < length rows\<close> P_order(2) [OF sorted]
      by (auto simp: same_partition_iff [OF sorted])
    have sets: "(sg_partition_begin ?p \<le> x \<and> x < sg_partition_end ?p) \<longleftrightarrow> (sg_partition_begin ?q \<le> x \<and> x < sg_partition_end ?q)"
      if "x < length rows" for x
      using p q iff [OF that] that unfolding segment_ok_def by blast
    have le: "sg_partition_begin ?p < sg_partition_end ?p" "sg_partition_begin ?q < sg_partition_end ?q"
      "sg_partition_end ?p \<le> length rows" "sg_partition_end ?q \<le> length rows"
      using p q by (auto simp: segment_ok_def)
    have "x < length rows" if "x < sg_partition_end ?p \<or> x < sg_partition_end ?q" for x using le(3,4) that by linarith
    then have "{sg_partition_begin ?p..<sg_partition_end ?p} = {sg_partition_begin ?q..<sg_partition_end ?q}"
      using sets by (auto simp: set_eq_iff)
    then have "sg_partition_begin ?p = sg_partition_begin ?q \<and> sg_partition_end ?p = sg_partition_end ?q"
      using le(1,2) by (simp add: atLeastLessThan_eq_iff)
    then show ?thesis using sp \<open>i < length rows\<close> by (simp add: same_partition_iff [OF sorted] conj_commute)
  qed
  have forward: "fst (?fr (i - 1)) \<le> fst (?fr i) \<and> snd (?fr (i - 1)) \<le> snd (?fr i)"
    if i: "i < length rows" "sg_partition_begin (?s i) \<noteq> i" for i
  proof -
    note sm = same [OF i]
    obtain b e b' e' where be: "?fr (i - 1) = (b, e)" "?fr i = (b', e')" by (metis surj_pair)
    have i1: "i - 1 < length rows" "i - 1 \<le> i" using i by simp_all
    have part: "same_partition rows (i - 1) x \<and> same_partition rows i x \<and> x < length rows"
      if "sg_partition_begin (?s i) \<le> x" "x < sg_partition_end (?s i)" for x
      using segment_ok_part [OF ok [OF i(1)] that] segment_ok_part [OF ok [OF i1(1)], of x] that sm by simp
    have ib: "sg_partition_begin (?s i) \<le> b" "b \<le> e" "e \<le> sg_partition_end (?s i)" "sg_partition_begin (?s i) \<le> b'"
      "b' \<le> e'" "e' \<le> sg_partition_end (?s i)"
      using in_part [OF i(1)] in_part [OF i1(1)] be sm by simp_all
    have bb: "b \<le> b'"
    proof (cases "b' < sg_partition_end (?s i)")
      case True
      then have "from_start f type ds rows i b'" using clamp_begin(1) [OF i(1) be(2) ib(4) True] by simp
      then have "from_start f type ds rows (i - 1) b'"
        using from_start_forward [OF i1(2) i(1), of b'] part [OF ib(4) True] sm by simp
      then show ?thesis using clamp_begin(1) [OF i1(1) be(1), of b'] ib(4) True sm by simp
    qed (use ib in simp)
    have "e \<le> e'"
    proof (cases "e' < sg_partition_end (?s i)")
      case True
      have pe: "sg_partition_begin (?s i) \<le> e'" using ib by simp
      have "\<not> to_end f type ds rows i e'" using clamp_begin(2) [OF i(1) be(2) pe True] by simp
      then have "\<not> to_end f type ds rows (i - 1) e'"
        using to_end_forward [OF i1(2) i(1), of e'] part [OF pe True] sm by auto
      then show ?thesis using clamp_begin(2) [OF i1(1) be(1), of e'] pe True sm ib bb by simp
    qed (use ib in simp)
    then show ?thesis using bb be by simp
  qed
  show ?thesis
    unfolding moving_frames_def
  proof (intro allI impI conjI)
    fix i
    assume i: "i < length rows"
    show "sg_partition_begin (?s i) \<le> i" using ok [OF i] by (auto simp: segment_ok_def)
    have "sg_partition_end (?s i) \<le> length rows" using ok [OF i] by (auto simp: segment_ok_def)
    then show "snd (frames f (segment ds rows) type (first_descending ds) rows ! i) \<le> length rows"
      using in_part [OF i] fr [OF i] by simp
  qed (use in_part forward same fr in auto)
qed

section \<open>Sliding sums of integers\<close>

fun int_part :: "OwnedValue \<Rightarrow> int" where
  "int_part (V_INT i) = sint i"
| "int_part _ = 0"

definition counted :: "bool \<Rightarrow> OwnedValue list \<Rightarrow> nat \<Rightarrow> int" where
  "counted has_argument args j = of_bool (\<not> has_argument \<or> args ! j \<noteq> V_NUL)"

definition summed :: "string \<Rightarrow> bool \<Rightarrow> OwnedValue list \<Rightarrow> nat \<Rightarrow> int" where
  "summed function has_argument args j =
     (if has_argument \<and> function \<noteq> ''count'' then int_part (args ! j) else 0)"

definition window_sum :: "(nat \<Rightarrow> int) \<Rightarrow> nat \<Rightarrow> nat \<Rightarrow> int" where
  "window_sum g lo hi = (\<Sum>j = lo..<hi. g j)"

lemma window_sum_simps [simp]:
  "window_sum g lo lo = 0"
  "lo \<le> hi \<Longrightarrow> window_sum g lo (Suc hi) = window_sum g lo hi + g hi"
  by (simp_all add: window_sum_def)

lemma window_sum_first: "lo < hi \<Longrightarrow> window_sum g lo hi = g lo + window_sum g (Suc lo) hi"
  by (simp add: window_sum_def sum.atLeast_Suc_lessThan)

text \<open>Why a sum fails: a value that is not a number, or a running sum outside \<open>int64_t\<close>.\<close>

definition in_int64 :: "int \<Rightarrow> bool" where
  "in_int64 i \<longleftrightarrow> int64_min \<le> i \<and> i \<le> int64_max"

definition sum_fails :: "string \<Rightarrow> OwnedValue list \<Rightarrow> nat \<Rightarrow> exn \<Rightarrow> bool" where
  "sum_fails function args n e \<longleftrightarrow>
     (e = not_numeric (function = ''avg'') \<and> (\<exists>j<n. args ! j \<noteq> V_NUL \<and> \<not> numeric (args ! j))) \<or>
     (e = SignedOverflow \<and> ((\<exists>j<n. int_part (args ! j) = int64_min) \<or>
        (\<exists>lo hi. lo \<le> hi \<and> hi \<le> n \<and> \<not> in_int64 (window_sum (\<lambda>j. int_part (args ! j)) lo hi))))"

lemma sum_failsI:
  "e = not_numeric (function = ''avg'') \<Longrightarrow> j < n \<Longrightarrow> args ! j \<noteq> V_NUL \<Longrightarrow> \<not> numeric (args ! j) \<Longrightarrow>
     sum_fails function args n e"
  "e = SignedOverflow \<Longrightarrow> j < n \<Longrightarrow> int_part (args ! j) = int64_min \<Longrightarrow> sum_fails function args n e"
  "e = SignedOverflow \<Longrightarrow> lo \<le> hi \<Longrightarrow> hi \<le> n \<Longrightarrow>
     \<not> in_int64 (window_sum (\<lambda>j. int_part (args ! j)) lo hi) \<Longrightarrow> sum_fails function args n e"
  unfolding sum_fails_def by blast+

lemma int64_in: "int64 i = (if in_int64 i then Inr i else Inl SignedOverflow)"
  by (auto simp: int64_def in_int64_def int64_min_def int64_max_def)

lemma in_int64_sint: "in_int64 (sint (w :: u64))" "\<not> in_int64 (- sint w) \<Longrightarrow> sint w = int64_min"
  using sint_ge [of w] sint_lt [of w] by (auto simp: in_int64_def int64_min_def int64_max_def)

definition holds_sum :: "string \<Rightarrow> bool \<Rightarrow> OwnedValue list \<Rightarrow> nat \<Rightarrow> nat \<Rightarrow> SumState \<Rightarrow> bool" where
  "holds_sum function has_argument args lo hi st \<longleftrightarrow>
     ss_values st = window_sum (counted has_argument args) lo hi \<and>
     ss_integer st = window_sum (summed function has_argument args) lo hi"

lemma apply_value_step:
  assumes "sign = 1 \<or> sign = - 1"
  shows "case apply_value function has_argument args sign st j of
      Inl e \<Rightarrow> has_argument \<and> function \<noteq> ''count'' \<and>
        ((e = not_numeric (function = ''avg'') \<and> args ! j \<noteq> V_NUL \<and> \<not> numeric (args ! j)) \<or>
         (e = SignedOverflow \<and> (int_part (args ! j) = int64_min \<or>
            \<not> in_int64 (ss_integer st + sign * int_part (args ! j)))))
    | Inr st' \<Rightarrow> ss_low st' = ss_low st \<and> ss_high st' = ss_high st \<and>
        ss_values st' = ss_values st + sign * counted has_argument args j \<and>
        ss_integer st' = ss_integer st + sign * summed function has_argument args j"
  using assms in_int64_sint
  by (cases "args ! j")
    (auto simp: apply_value_def counted_def summed_def int64_in Let_def split: if_splits)

lemma enter_rows:
  assumes "lo \<le> x" and "holds_sum function has_argument args lo x st" and "hi \<le> n"
  shows "case foldE (apply_value function has_argument args 1) st [x..<hi] of
      Inl e \<Rightarrow> sum_fails function args n e
    | Inr st' \<Rightarrow> ss_low st' = ss_low st \<and> ss_high st' = ss_high st \<and>
        holds_sum function has_argument args lo (max x hi) st'"
  using assms(1,2)
proof (induction "hi - x" arbitrary: x st)
  case 0
  then show ?case by simp
next
  case (Suc k)
  then have x: "x < hi" by simp
  note step = apply_value_step [of 1 has_argument "function" args x st]
  show ?case
  proof (cases "apply_value function has_argument args 1 st x")
    case (Inl e)
    have ext: "has_argument \<Longrightarrow> function \<noteq> ''count'' \<Longrightarrow>
        ss_integer st + int_part (args ! x) = window_sum (\<lambda>j. int_part (args ! j)) lo (Suc x)"
      using Suc.prems by (simp add: holds_sum_def summed_def [abs_def])
    have "sum_fails function args n e"
      using step Inl ext x assms(3) Suc.prems(1)
        sum_failsI(1) [where j = x and n = n] sum_failsI(2) [where j = x and n = n]
        sum_failsI(3) [where lo = lo and hi = "Suc x" and n = n] by auto
    then show ?thesis using x Inl by (simp add: upt_conv_Cons)
  next
    case (Inr st')
    then have st': "holds_sum function has_argument args lo (Suc x) st'" "ss_low st' = ss_low st" "ss_high st' = ss_high st"
      using step Suc.prems by (simp_all add: holds_sum_def)
    have "k = hi - Suc x" using Suc.hyps(2) by simp
    from Suc.hyps(1) [OF this _ st'(1)] show ?thesis
      using x Inr Suc.prems(1) st' by (simp add: upt_conv_Cons max_def split: sum.splits)
  qed
qed

lemma leave_rows:
  assumes "x \<le> lo" and "lo \<le> hi" and "holds_sum function has_argument args x hi st" and "hi \<le> n"
  shows "case foldE (apply_value function has_argument args (- 1)) st [x..<lo] of
      Inl e \<Rightarrow> sum_fails function args n e
    | Inr st' \<Rightarrow> ss_low st' = ss_low st \<and> ss_high st' = ss_high st \<and>
        holds_sum function has_argument args lo hi st'"
  using assms(1,3)
proof (induction "lo - x" arbitrary: x st)
  case 0
  then show ?case by simp
next
  case (Suc k)
  then have x: "x < lo" "x < hi" using assms(2) by simp_all
  note step = apply_value_step [of "- 1" has_argument "function" args x st]
  show ?case
  proof (cases "apply_value function has_argument args (- 1) st x")
    case (Inl e)
    have ext: "has_argument \<Longrightarrow> function \<noteq> ''count'' \<Longrightarrow>
        ss_integer st - int_part (args ! x) = window_sum (\<lambda>j. int_part (args ! j)) (Suc x) hi"
      using Suc.prems x by (simp add: holds_sum_def summed_def [abs_def] window_sum_first)
    have "sum_fails function args n e"
      using step Inl ext x assms(4)
        sum_failsI(1) [where j = x and n = n] sum_failsI(2) [where j = x and n = n]
        sum_failsI(3) [where lo = "Suc x" and hi = hi and n = n] by auto
    then show ?thesis using x Inl by (simp add: upt_conv_Cons)
  next
    case (Inr st')
    then have st': "holds_sum function has_argument args (Suc x) hi st'" "ss_low st' = ss_low st" "ss_high st' = ss_high st"
      using step Suc.prems x by (simp_all add: holds_sum_def window_sum_first)
    have "k = lo - Suc x" using Suc.hyps(2) by simp
    from Suc.hyps(1) [OF this _ st'(1)] show ?thesis
      using x Inr st' by (simp add: upt_conv_Cons split: sum.splits)
  qed
qed

text \<open>The value of a frame with \<open>n\<close> counted values that sum to \<open>sum_of\<close>.\<close>

definition exact_value :: "string \<Rightarrow> int \<Rightarrow> int \<Rightarrow> OwnedValue" where
  "exact_value function n sum_of =
     (if function = ''count'' then V_INT (of_int n)
      else if n = 0 then V_NUL
      else if function = ''avg'' then V_DOUBLE (d_div (int_to_double sum_of) (int_to_double n))
      else V_INT (of_int sum_of))"

lemma sum_slide_step:
  assumes "holds_sum function has_argument args (ss_low st) (ss_high st) st" and "ss_low st \<le> ss_high st"
    and "ss_low st \<le> b" and "b \<le> e" and "ss_high st \<le> e" and "e \<le> n"
  shows "case sum_slide function has_argument args (b, e) st of
      Inl x \<Rightarrow> sum_fails function args n x
    | Inr st' \<Rightarrow> ss_low st' = b \<and> ss_high st' = e \<and> holds_sum function has_argument args b e st'"
proof (cases "foldE (apply_value function has_argument args 1) st [ss_high st..<e]")
  case (Inl x)
  then show ?thesis using enter_rows [OF assms(2,1,6)] by (simp add: sum_slide_def)
next
  case (Inr st1)
  then have st1: "ss_low st1 = ss_low st" "ss_high st1 = ss_high st" "holds_sum function has_argument args (ss_low st) e st1"
    using enter_rows [OF assms(2,1,6)] assms(5) by (simp_all add: max_def)
  then have "holds_sum function has_argument args (ss_low st) e (st1\<lparr>ss_high := max (ss_high st1) e\<rparr>)"
    by (simp add: holds_sum_def)
  from leave_rows [OF assms(3,4) this assms(6)] show ?thesis
    using Inr st1 assms(3,5) by (auto simp: sum_slide_def Let_def max_def holds_sum_def split: sum.splits)
qed

lemma sum_rows_exact:
  assumes "moving_frames segments fr n" and "integer \<or> function = ''count''" and "i \<le> n"
    and "i < n \<Longrightarrow> sg_partition_begin (segments ! i) \<noteq> i \<Longrightarrow>
      ss_low st = fst (fr ! (i - 1)) \<and> ss_high st = snd (fr ! (i - 1)) \<and>
      holds_sum function has_argument args (fst (fr ! (i - 1))) (snd (fr ! (i - 1))) st"
  shows "case sum_rows function has_argument integer args segments fr st [i..<n] of
      Inl e \<Rightarrow> sum_fails function args n e
    | Inr vs \<Rightarrow> vs = map (\<lambda>j. exact_value function
        (window_sum (counted has_argument args) (fst (fr ! j)) (snd (fr ! j)))
        (window_sum (summed function has_argument args) (fst (fr ! j)) (snd (fr ! j)))) [i..<n]"
  using assms(3,4)
proof (induction "n - i" arbitrary: i st)
  case 0
  then show ?case by simp
next
  case (Suc k)
  then have i: "i < n" by simp
  obtain b e where be: "fr ! i = (b, e)" by force
  let ?pb = "sg_partition_begin (segments ! i)"
  have frame: "?pb \<le> i" "?pb \<le> b" "b \<le> e" "e \<le> n"
    and prev: "?pb \<noteq> i \<Longrightarrow> fst (fr ! (i - 1)) \<le> b \<and> snd (fr ! (i - 1)) \<le> e"
    using assms(1) i be by (auto simp: moving_frames_def)
  have prev_ok: "?pb \<noteq> i \<Longrightarrow> fst (fr ! (i - 1)) \<le> snd (fr ! (i - 1))"
    using assms(1) i by (auto simp: moving_frames_def)
  define st0 where "st0 = (if i = ?pb then sum_reset i else st)"
  have st0: "holds_sum function has_argument args (ss_low st0) (ss_high st0) st0"
    "ss_low st0 \<le> ss_high st0" "ss_low st0 \<le> b" "ss_high st0 \<le> e"
    using Suc.prems(2) [OF i] prev prev_ok frame
    by (auto simp: st0_def sum_reset_def holds_sum_def)
  note slide = sum_slide_step [OF st0(1,2,3) frame(3) st0(4) frame(4)]
  have rows: "[i..<n] = i # [Suc i..<n]" using i by (simp add: upt_conv_Cons)
  show ?case
  proof (cases "sum_slide function has_argument args (b, e) st0")
    case (Inl x)
    then show ?thesis using slide by (simp add: rows be flip: st0_def)
  next
    case (Inr st1)
    then have st1: "ss_low st1 = b" "ss_high st1 = e" "holds_sum function has_argument args b e st1"
      using slide by simp_all
    have "k = n - Suc i" using Suc.hyps(2) by simp
    note rec = Suc.hyps(1) [OF this, of st1]
    have "sum_value_of function integer st1 = exact_value function
        (window_sum (counted has_argument args) b e) (window_sum (summed function has_argument args) b e)"
      using st1(3) assms(2) by (auto simp: sum_value_of_def exact_value_def holds_sum_def)
    then show ?thesis
      using rec st1 i Inr by (auto simp: rows be simp flip: st0_def split: sum.splits)
  qed
qed

lemma slidingSum_exact:
  assumes "moving_frames segments fr n" and "\<not> has_argument \<or> integer \<or> function = ''count''"
    and "0 < n \<Longrightarrow> sg_partition_begin (segments ! 0) = 0"
  shows "case slidingSum function has_argument integer args segments fr n of
      Inl e \<Rightarrow> sum_fails function args n e
    | Inr vs \<Rightarrow> vs = map (\<lambda>j. exact_value function
        (window_sum (counted has_argument args) (fst (fr ! j)) (snd (fr ! j)))
        (window_sum (summed function has_argument args) (fst (fr ! j)) (snd (fr ! j)))) [0..<n]"
  unfolding slidingSum_def
  by (rule sum_rows_exact [OF assms(1)]) (use assms(2,3) in auto)

text \<open>
  C17. A sliding \<open>COUNT\<close>, integer \<open>SUM\<close> or integer \<open>AVG\<close>, which only adds the rows that enter the frame and
  takes away those that leave it, is the aggregate of the rows of each frame computed anew: the number
  and the sum of the non-NULL values.  It fails only on a value that is not a number, or when the running
  sum of some consecutive rows leaves \<open>int64_t\<close> (or a value is its least number).
\<close>

theorem window_sums_exact:
  assumes "sorted_rows np ds rows" and "frame_bound (wc_frame (cc_call c)) ds rows"
    and "wc_function (cc_call c) = ''count'' \<or>
      (wc_function (cc_call c) \<in> {''sum'', ''avg''} \<and> (cc_integer c \<or> \<not> cc_has_argument c))"
  shows "case evaluateCall ds type c k (segment ds rows) rows of
      Inl e \<Rightarrow> sum_fails (wc_function (cc_call c)) (map (\<lambda>r. wr_arguments r ! k) rows) (length rows) e
    | Inr column \<Rightarrow> column = map (\<lambda>row.
        let frame = {j. j < length rows \<and> in_frame (wc_frame (cc_call c)) type ds rows row j};
            counts = (\<lambda>j. \<not> cc_has_argument c \<or> wr_arguments (rows ! j) ! k \<noteq> V_NUL) in
        exact_value (wc_function (cc_call c)) (int (card {j \<in> frame. counts j}))
          (if cc_has_argument c \<and> wc_function (cc_call c) \<noteq> ''count''
           then (\<Sum>j\<in>frame. int_part (wr_arguments (rows ! j) ! k)) else 0)) [0..<length rows]"
proof -
  let ?f = "wc_frame (cc_call c)" and ?g = "wc_function (cc_call c)" and ?n = "length rows" and ?s = "segment ds rows"
  let ?args = "map (\<lambda>r. wr_arguments r ! k) rows" and ?h = "cc_has_argument c"
  let ?fr = "frames ?f ?s type (first_descending ds) rows"
  have call: "evaluateCall ds type c k ?s rows = slidingSum ?g ?h (cc_integer c) ?args ?s ?fr ?n"
    using assms(3) by (auto simp: evaluateCall_def)
  have first: "0 < ?n \<Longrightarrow> sg_partition_begin (?s ! 0) = 0"
    using segment_correct(2) [OF assms(1), of 0] by (auto simp: segment_ok_def)
  have exact: "exact_value ?g (window_sum (counted ?h ?args) (fst (?fr ! row)) (snd (?fr ! row)))
        (window_sum (summed ?g ?h ?args) (fst (?fr ! row)) (snd (?fr ! row))) =
      (let frame = {j. j < ?n \<and> in_frame ?f type ds rows row j};
           counts = (\<lambda>j. \<not> ?h \<or> wr_arguments (rows ! j) ! k \<noteq> V_NUL) in
        exact_value ?g (int (card {j \<in> frame. counts j}))
          (if ?h \<and> ?g \<noteq> ''count'' then (\<Sum>j\<in>frame. int_part (wr_arguments (rows ! j) ! k)) else 0))"
    if row: "row < ?n" for row
  proof -
    obtain b e where be: "?fr ! row = (b, e)" "{b..<e} = {j. j < ?n \<and> in_frame ?f type ds rows row j}"
      by (rule frames_nth [OF assms(1,2) row, of type])
    have "j < ?n" if "j \<in> {b..<e}" for j using that be(2) by auto
    then have args: "?args ! j = wr_arguments (rows ! j) ! k" if "j \<in> {b..<e}" for j using that by simp
    have "window_sum (counted ?h ?args) b e =
        (\<Sum>j\<in>{b..<e}. of_bool (\<not> ?h \<or> wr_arguments (rows ! j) ! k \<noteq> V_NUL))"
      unfolding window_sum_def by (rule sum.cong [OF refl]) (simp only: counted_def args)
    then have counts: "window_sum (counted ?h ?args) b e =
        int (card {j \<in> {b..<e}. \<not> ?h \<or> wr_arguments (rows ! j) ! k \<noteq> V_NUL})"
      by (simp add: sum_of_bool_eq Int_def)
    have constant_if: "(\<Sum>j\<in>A. if P then g j else 0) = (if P then \<Sum>j\<in>A. g j else 0)" for P A and g :: "nat \<Rightarrow> int"
      by simp
    have "window_sum (summed ?g ?h ?args) b e =
        (\<Sum>j\<in>{b..<e}. if ?h \<and> ?g \<noteq> ''count'' then int_part (wr_arguments (rows ! j) ! k) else 0)"
      unfolding window_sum_def by (rule sum.cong [OF refl]) (simp only: summed_def args)
    then have sums: "window_sum (summed ?g ?h ?args) b e =
        (if ?h \<and> ?g \<noteq> ''count'' then (\<Sum>j\<in>{b..<e}. int_part (wr_arguments (rows ! j) ! k)) else 0)"
      by (simp only: constant_if)
    show ?thesis by (simp only: be Let_def fst_conv snd_conv counts sums)
  qed
  have "\<not> ?h \<or> cc_integer c \<or> ?g = ''count''" using assms(3) by auto
  from slidingSum_exact [OF frames_move_forward [OF assms(1,2), of type] this first, of ?args] show ?thesis
    unfolding call by (simp add: exact cong: map_cong split: sum.splits)
qed

definition ex_call :: "string \<Rightarrow> CallColumns" where
  "ex_call name =
     \<lparr>cc_call = \<lparr>wc_function = name, wc_argument = E_Missing, wc_offset = 1, wc_default_value = E_Missing,
        wc_frame = ex_frame, wc_name = ''w''\<rparr>,
      cc_has_argument = True, cc_has_default = False, cc_integer = True, cc_build = (\<lambda>vs. vs)\<rparr>"

theorem window_sums_exact_witness:
  "\<exists>column. evaluateCall [False] None (ex_call ''sum'') 0 (segment [False] ex_rows) ex_rows = Inr column \<and>
     column ! 1 = V_INT 30"
proof -
  have args: "map (\<lambda>r. wr_arguments r ! 0) ex_rows = [V_INT 10, V_INT 20, V_INT 40]"
    by (simp add: ex_rows_def ex_row_def)
  have no_overflow: "in_int64 (window_sum (\<lambda>j. int_part ([V_INT 10, V_INT 20, V_INT 40] ! j)) lo hi)"
    if "lo \<le> hi" "hi \<le> 3" for lo hi
  proof -
    have "hi \<in> {0, 1, 2, 3}" "lo \<in> {0, 1, 2, 3}" using that by auto
    then show ?thesis using that
      by (auto simp: window_sum_def in_int64_def int64_min_def int64_max_def numeral_3_eq_3 numeral_2_eq_2)
  qed
  have elem: "[V_INT 10, V_INT 20, V_INT 40] ! j \<in> {V_INT 10, V_INT 20, V_INT 40}" if "j < 3" for j
    using nth_mem [of j "[V_INT 10, V_INT 20, V_INT 40]"] that by simp
  have num: "numeric ([V_INT 10, V_INT 20, V_INT 40] ! j) \<and> int_part ([V_INT 10, V_INT 20, V_INT 40] ! j) \<noteq> int64_min"
    if "j < 3" for j
    using elem [OF that] by (auto simp: int64_min_def)
  have ok: "\<not> sum_fails ''sum'' [V_INT 10, V_INT 20, V_INT 40] 3 e" for e
    using no_overflow num unfolding sum_fails_def by blast
  have vals: "wr_arguments (ex_rows ! 0) ! 0 = V_INT 10" "wr_arguments (ex_rows ! Suc 0) ! 0 = V_INT 20"
    by (simp_all add: ex_rows_def ex_row_def)
  have frame: "j < 3 \<and> in_frame ex_frame None [False] ex_rows (Suc 0) j \<longleftrightarrow> j = 0 \<or> j = Suc 0" for j
    using ex_frame_rows by (simp add: set_eq_iff)
  have "{j. j < 3 \<and> in_frame ex_frame None [False] ex_rows (Suc 0) j \<and> wr_arguments (ex_rows ! j) ! 0 \<noteq> V_NUL} = {0, Suc 0}"
    unfolding conj_assoc [symmetric] frame using vals by auto
  then have "exact_value ''sum'' (int (card
        {j. j < 3 \<and> in_frame ex_frame None [False] ex_rows (Suc 0) j \<and> wr_arguments (ex_rows ! j) ! 0 \<noteq> V_NUL}))
      (\<Sum>j | j < 3 \<and> in_frame ex_frame None [False] ex_rows (Suc 0) j. int_part (wr_arguments (ex_rows ! j) ! 0)) = V_INT 30"
    using vals ex_frame_rows by (simp add: exact_value_def)
  then show ?thesis
    using window_sums_exact [OF ex_rows_sorted(1), of "ex_call ''sum''" 0 None] ex_rows_sorted(2) ok
    by (simp add: args length_ex_rows ex_call_def split: sum.splits)
qed

end
