(* ===== verification/Window_Choice.thy ===== *)
theory Window_Choice
  imports Window_Sums
begin

text \<open>
  \<open>MIN\<close> and \<open>MAX\<close> over a frame (\<open>slidingChoice\<close> of \<open>src/query/executor/WindowEvaluator.cpp\<close>): the deque of
  candidate rows always holds the rows that some later frame could still choose.
\<close>

section \<open>Better values\<close>

definition better :: "bool \<Rightarrow> OwnedValue \<Rightarrow> OwnedValue \<Rightarrow> bool" where
  "better minimum a b = image_before (\<not> minimum) (key_image a) (key_image b)"

lemma compareRefs_better:
  assumes "comparable a b" and "a \<noteq> V_NUL" and "b \<noteq> V_NUL"
  obtains order where "compareRefs a b = Inr order"
    and "(minimum \<and> order < 0) \<or> (\<not> minimum \<and> order > 0) \<longleftrightarrow> better minimum a b"
proof -
  obtain order where o: "compareKey False a b = Inr order"
    "order < 0 \<longleftrightarrow> image_before False (key_image a) (key_image b)"
    "order > 0 \<longleftrightarrow> image_before False (key_image b) (key_image a)"
    using compareKey_image [OF assms(1)] .
  have some: "key_image a \<noteq> None" "key_image b \<noteq> None"
    using assms by (cases a; cases b; simp add: comparable_def)+
  then have "image_before False (key_image b) (key_image a) \<longleftrightarrow> image_before True (key_image a) (key_image b)"
    by (auto simp: image_before_def)
  then have "(minimum \<and> order < 0) \<or> (\<not> minimum \<and> order > 0) \<longleftrightarrow> better minimum a b"
    using o(2,3) by (cases minimum) (auto simp: better_def)
  moreover have "compareRefs a b = Inr order"
    using o(1) assms(2,3) by (simp add: compareKey_def split: sum.splits)
  ultimately show ?thesis using that by blast
qed

interpretation better_value: weak_order "better minimum" for minimum
proof -
  show "weak_order (better minimum)"
    using weak_order_image [OF weak_order_image_before] by (simp add: better_def [abs_def])
qed

section \<open>The candidates\<close>

definition comparable_values :: "OwnedValue list \<Rightarrow> bool" where
  "comparable_values args \<longleftrightarrow> (\<forall>a\<in>set args. \<forall>b\<in>set args. comparable a b)"

text \<open>A row is a candidate of \<open>[lo, hi)\<close> when it is better than every later row.\<close>

definition candidate :: "bool \<Rightarrow> OwnedValue list \<Rightarrow> nat \<Rightarrow> nat \<Rightarrow> bool" where
  "candidate minimum args hi j \<longleftrightarrow> args ! j \<noteq> V_NUL \<and>
     (\<forall>k. j < k \<longrightarrow> k < hi \<longrightarrow> args ! k \<noteq> V_NUL \<longrightarrow> better minimum (args ! j) (args ! k))"

definition candidates :: "bool \<Rightarrow> OwnedValue list \<Rightarrow> nat \<Rightarrow> nat \<Rightarrow> nat list" where
  "candidates minimum args lo hi = filter (candidate minimum args hi) [lo..<hi]"

lemma candidates_sorted: "sorted_wrt (\<lambda>i j. i < j \<and> better minimum (args ! i) (args ! j)) (candidates minimum args lo hi)"
proof -
  have "sorted_wrt (\<lambda>i j. i < j) (candidates minimum args lo hi)"
    unfolding candidates_def by (rule sorted_wrt_filter) simp
  then show ?thesis
    by (rule sorted_wrt_mono_rel [rotated])
      (auto simp: candidates_def candidate_def)
qed

lemma pop_candidates_filter:
  assumes args: "comparable_values args"
    and "sorted_wrt (\<lambda>i j. better minimum (args ! j) (args ! i)) cs" and "v \<in> set args" and "v \<noteq> V_NUL"
    and "\<forall>c\<in>set cs. c < length args \<and> args ! c \<noteq> V_NUL"
  shows "pop_candidates minimum args v cs = Inr (filter (\<lambda>c. better minimum (args ! c) v) cs)"
  supply assms = assms(2-)
  using assms(1,4)
proof (induction cs)
  case (Cons c cs)
  have "comparable (args ! c) v" using args assms(2) Cons.prems(2) by (simp add: comparable_values_def)
  then obtain order where o: "compareRefs (args ! c) v = Inr order"
    "(minimum \<and> order < 0) \<or> (\<not> minimum \<and> order > 0) \<longleftrightarrow> better minimum (args ! c) v"
    using compareRefs_better [of "args ! c" v minimum] Cons.prems(2) assms(3) by auto
  show ?case
  proof (cases "better minimum (args ! c) v")
    case True
    then have "better minimum (args ! d) v" if "d \<in> set cs" for d
      using that Cons.prems(1) better_value.trans by auto
    then have "filter (\<lambda>c. better minimum (args ! c) v) cs = cs" by simp
    then show ?thesis using o True by auto
  next
    case False
    then show ?thesis using o Cons by auto
  qed
qed simp

lemma push_candidate_step:
  assumes args: "comparable_values args"
    and "lo \<le> hi" and "hi < length args"
  shows "push_candidate minimum args (candidates minimum args lo hi) hi = Inr (candidates minimum args lo (Suc hi))"
  supply assms = assms(2-)
  supply pop_candidates_filter = pop_candidates_filter [OF args]
proof (cases "args ! hi = V_NUL")
  case True
  then have "candidate minimum args (Suc hi) j \<longleftrightarrow> candidate minimum args hi j \<and> j \<noteq> hi" if "j \<le> hi" for j
    using that by (auto simp: candidate_def less_Suc_eq)
  then have "candidates minimum args lo (Suc hi) = candidates minimum args lo hi"
    using assms(1) by (auto simp: candidates_def intro!: filter_cong)
  then show ?thesis using True by (simp add: push_candidate_def)
next
  case False
  let ?cs = "candidates minimum args lo hi" and ?v = "args ! hi"
  have "sorted_wrt (\<lambda>i j. better minimum (args ! i) (args ! j)) ?cs"
    by (rule sorted_wrt_mono_rel [OF _ candidates_sorted]) simp
  then have "sorted_wrt (\<lambda>i j. better minimum (args ! j) (args ! i)) (rev ?cs)"
    by (simp add: sorted_wrt_rev)
  moreover have "\<forall>c\<in>set (rev ?cs). c < length args \<and> args ! c \<noteq> V_NUL"
    using assms(2) by (auto simp: candidates_def candidate_def)
  ultimately have pop: "pop_candidates minimum args ?v (rev ?cs) = Inr (filter (\<lambda>c. better minimum (args ! c) ?v) (rev ?cs))"
    using pop_candidates_filter [where cs = "rev ?cs" and v = ?v] assms(2) False by simp
  have "candidate minimum args (Suc hi) j \<longleftrightarrow> candidate minimum args hi j \<and> better minimum (args ! j) ?v" if "j < hi" for j
    using that False by (auto simp: candidate_def less_Suc_eq)
  moreover have "candidate minimum args (Suc hi) hi" using False by (simp add: candidate_def)
  ultimately have "candidates minimum args lo (Suc hi) = filter (\<lambda>c. better minimum (args ! c) ?v) ?cs @ [hi]"
    using assms(1) by (auto simp: candidates_def intro!: filter_cong)
  then show ?thesis using False pop by (simp add: push_candidate_def rev_filter)
qed

lemma push_candidates:
  assumes args: "comparable_values args"
    and "lo \<le> hi" and "e \<le> length args"
  shows "foldE (push_candidate minimum args) (candidates minimum args lo hi) [hi..<e] =
    Inr (candidates minimum args lo (max hi e))"
  supply assms = assms(2-)
  supply push_candidate_step = push_candidate_step [OF args]
  using assms(1)
proof (induction "e - hi" arbitrary: hi)
  case (Suc k)
  then have "hi < e" by simp
  then show ?case
    using Suc.hyps(1) [of "Suc hi"] Suc.hyps(2) Suc.prems assms(2)
    by (simp add: upt_conv_Cons push_candidate_step)
qed simp

lemma drop_candidates:
  assumes "lo \<le> b" and "b \<le> hi"
  shows "dropWhile (\<lambda>c. c < b) (candidates minimum args lo hi) = candidates minimum args b hi"
proof -
  have "dropWhile (\<lambda>c. c < b) xs = filter (\<lambda>c. b \<le> c) xs" if "sorted_wrt (<) xs" for xs :: "nat list"
    using that by (induction xs) (auto simp: not_less intro!: filter_True [symmetric])
  moreover have "sorted_wrt (<) (candidates minimum args lo hi)"
    unfolding candidates_def by (rule sorted_wrt_filter) simp
  ultimately have "dropWhile (\<lambda>c. c < b) (candidates minimum args lo hi) =
      filter (\<lambda>c. b \<le> c) (candidates minimum args lo hi)" by blast
  also have "\<dots> = filter (candidate minimum args hi) (filter (\<lambda>c. b \<le> c) [lo..<hi])"
    by (simp add: candidates_def conj_commute)
  also have "filter (\<lambda>c. b \<le> c) [lo..<hi] = [b..<hi]"
  proof -
    have "[lo..<hi] = [lo..<b] @ [b..<hi]" using assms by (metis upt_add_eq_append le_add_diff_inverse)
    then show ?thesis by simp
  qed
  finally show ?thesis by (simp add: candidates_def)
qed

text \<open>The front of the deque is the last of the best rows.\<close>

definition best_row :: "bool \<Rightarrow> OwnedValue list \<Rightarrow> nat set \<Rightarrow> nat option \<Rightarrow> bool" where
  "best_row minimum args frame chosen \<longleftrightarrow>
     (case chosen of
        None \<Rightarrow> \<forall>j\<in>frame. args ! j = V_NUL
      | Some i \<Rightarrow> i \<in> frame \<and> args ! i \<noteq> V_NUL \<and>
          (\<forall>j\<in>frame. args ! j \<noteq> V_NUL \<longrightarrow> \<not> better minimum (args ! j) (args ! i) \<and>
             (i < j \<longrightarrow> better minimum (args ! i) (args ! j))))"

lemma best_candidate:
  "best_row minimum args {b..<e} (case candidates minimum args b e of [] \<Rightarrow> None | c # _ \<Rightarrow> Some c)"
proof -
  have dominated: "\<exists>c\<in>set (candidates minimum args b e). j \<le> c \<and> \<not> better minimum (args ! j) (args ! c)"
    if "b \<le> j" "j < e" "args ! j \<noteq> V_NUL" for j
    using that
  proof (induction "e - j" arbitrary: j rule: less_induct)
    case less
    show ?case
    proof (cases "candidate minimum args e j")
      case True
      then show ?thesis using less.prems better_value.irrefl
        by (intro bexI [of _ j]) (auto simp: candidates_def)
    next
      case False
      then obtain k where k: "j < k" "k < e" "args ! k \<noteq> V_NUL" "\<not> better minimum (args ! j) (args ! k)"
        using less.prems(3) by (auto simp: candidate_def)
      then obtain c where "c \<in> set (candidates minimum args b e)" "k \<le> c" "\<not> better minimum (args ! k) (args ! c)"
        using less.hyps [of k] less.prems(1) less_imp_le [OF less_le_trans, of b j k] diff_less_mono2 [of j k e] by fastforce
      then show ?thesis
        using k better_value.negtrans [of minimum "args ! j" "args ! c" "args ! k"] by (intro bexI [of _ c]) auto
    qed
  qed
  show ?thesis
  proof (cases "candidates minimum args b e")
    case Nil
    then have "args ! j = V_NUL" if "b \<le> j" "j < e" for j using dominated [OF that] by auto
    then show ?thesis using Nil by (simp add: best_row_def)
  next
    case (Cons c cs)
    have c: "c \<in> {b..<e}" "candidate minimum args e c"
      using Cons by (metis candidates_def list.set_intros(1) mem_Collect_eq set_filter set_upt)+
    have rest: "better minimum (args ! c) (args ! d)" if "d \<in> set cs" for d
      using candidates_sorted [of minimum args b e] Cons that by auto
    have "\<not> better minimum (args ! j) (args ! c)" if j: "j \<in> {b..<e}" "args ! j \<noteq> V_NUL" for j
    proof -
      obtain d where d: "d \<in> set (c # cs)" "\<not> better minimum (args ! j) (args ! d)"
        using dominated [of j] j Cons by auto
      then show ?thesis using rest [of d] better_value.trans [of minimum "args ! j" "args ! c" "args ! d"] by auto
    qed
    then show ?thesis using c Cons by (auto simp: best_row_def candidate_def)
  qed
qed

section \<open>The loop over the rows\<close>

lemma choice_rows_best:
  assumes "comparable_values args" and "moving_frames segments fr n" and "length args = n" and "i \<le> n"
    and "i < n \<Longrightarrow> sg_partition_begin (segments ! i) \<noteq> i \<Longrightarrow>
      st = (candidates minimum args (fst (fr ! (i - 1))) (snd (fr ! (i - 1))), snd (fr ! (i - 1)))"
  shows "choice_rows minimum args segments fr st [i..<n] =
    Inr (map (\<lambda>j. case candidates minimum args (fst (fr ! j)) (snd (fr ! j)) of [] \<Rightarrow> None | c # _ \<Rightarrow> Some c) [i..<n])"
  using assms(4,5)
proof (induction "n - i" arbitrary: i st)
  case 0
  then show ?case by simp
next
  case (Suc k)
  then have i: "i < n" by simp
  obtain b e where be: "fr ! i = (b, e)" by force
  let ?pb = "sg_partition_begin (segments ! i)"
  have frame: "?pb \<le> i" "?pb \<le> b" "b \<le> e" "e \<le> n"
    and prev: "?pb \<noteq> i \<Longrightarrow> fst (fr ! (i - 1)) \<le> b \<and> snd (fr ! (i - 1)) \<le> e \<and> fst (fr ! (i - 1)) \<le> snd (fr ! (i - 1))"
    using assms(2) i be by (auto simp: moving_frames_def)
  obtain lo hi where st0: "(if i = ?pb then ([], i) else st) = (candidates minimum args lo hi, hi)"
    "lo \<le> hi" "lo \<le> b" "max hi e = e"
  proof (cases "i = ?pb")
    case True
    then show ?thesis using that [of i i] frame by (simp add: candidates_def)
  next
    case False
    then show ?thesis using that Suc.prems(2) [OF i] prev by (simp add: max_def)
  qed
  have push: "foldE (push_candidate minimum args) (candidates minimum args lo hi) [hi..<e] =
      Inr (candidates minimum args lo e)"
    using push_candidates [OF assms(1) st0(2), of e minimum] frame(4) assms(3) st0(4) by simp
  have drop: "dropWhile (\<lambda>c. c < b) (candidates minimum args lo e) = candidates minimum args b e"
    by (rule drop_candidates [OF st0(3) frame(3)])
  have "k = n - Suc i" using Suc.hyps(2) by simp
  from Suc.hyps(1) [OF this, of "(candidates minimum args b e, e)"]
  have rec: "choice_rows minimum args segments fr (candidates minimum args b e, e) [Suc i..<n] =
      Inr (map (\<lambda>j. case candidates minimum args (fst (fr ! j)) (snd (fr ! j)) of [] \<Rightarrow> None | c # _ \<Rightarrow> Some c) [Suc i..<n])"
    using i be by simp
  have "[i..<n] = i # [Suc i..<n]" using i by (simp add: upt_conv_Cons)
  then show ?case using st0(4) by (simp add: st0(1) be push drop rec Let_def)
qed

text \<open>
  C19. \<open>MIN\<close> and \<open>MAX\<close> over a window, computed with a deque of candidate rows, are right for every frame: the
  result is NULL when the frame has no value, and otherwise the value of a row of the frame that no row of
  the frame beats (the last such row); on an argument column of one kind the calls never throw.
\<close>

theorem window_extrema_exact:
  assumes "sorted_rows np ds rows" and "frame_bound (wc_frame (cc_call c)) ds rows"
    and "wc_function (cc_call c) \<in> {''min'', ''max''}" and "cc_has_argument c"
    and "comparable_values (map (\<lambda>r. wr_arguments r ! k) rows)"
  shows "case evaluateCall ds type c k (segment ds rows) rows of
      Inl e \<Rightarrow> False
    | Inr column \<Rightarrow> length column = length rows \<and>
        list_all (\<lambda>row. \<exists>chosen.
          best_row (wc_function (cc_call c) = ''min'') (map (\<lambda>r. wr_arguments r ! k) rows)
            {j. j < length rows \<and> in_frame (wc_frame (cc_call c)) type ds rows row j} chosen \<and>
          column ! row = (case chosen of None \<Rightarrow> V_NUL | Some i \<Rightarrow> wr_arguments (rows ! i) ! k)) [0..<length rows]"
proof -
  let ?f = "wc_frame (cc_call c)" and ?n = "length rows" and ?s = "segment ds rows"
  let ?args = "map (\<lambda>r. wr_arguments r ! k) rows" and ?m = "wc_function (cc_call c) = ''min''"
  let ?fr = "frames ?f ?s type (first_descending ds) rows"
  let ?choice = "\<lambda>j. case candidates ?m ?args (fst (?fr ! j)) (snd (?fr ! j)) of [] \<Rightarrow> None | c # _ \<Rightarrow> Some c"
  have call: "evaluateCall ds type c k ?s rows = slidingChoice ?m ?args ?s ?fr ?n"
    using assms(3,4) by (auto simp: evaluateCall_def)
  have first: "0 < ?n \<Longrightarrow> sg_partition_begin (?s ! 0) = 0"
    using segment_correct(2) [OF assms(1), of 0] by (auto simp: segment_ok_def)
  have "choice_rows ?m ?args ?s ?fr ([], 0) [0..<?n] = Inr (map ?choice [0..<?n])"
    by (rule choice_rows_best [OF assms(5) frames_move_forward [OF assms(1,2), of type]]) (use first in simp_all)
  then have "evaluateCall ds type c k ?s rows = Inr (map (\<lambda>row. take_value ?args (?choice row)) [0..<?n])"
    by (simp only: call slidingChoice_def sum.case map_map comp_def)
  moreover have "\<exists>chosen. best_row ?m ?args {j. j < ?n \<and> in_frame ?f type ds rows row j} chosen \<and>
      take_value ?args (?choice row) = (case chosen of None \<Rightarrow> V_NUL | Some i \<Rightarrow> wr_arguments (rows ! i) ! k)"
    if row: "row < ?n" for row
  proof -
    obtain b e where be: "?fr ! row = (b, e)" "{b..<e} = {j. j < ?n \<and> in_frame ?f type ds rows row j}"
      by (rule frames_nth [OF assms(1,2) row, of type])
    have best: "best_row ?m ?args {b..<e} (?choice row)" using best_candidate [of ?m ?args b e] be(1) by simp
    have "take_value ?args (?choice row) =
        (case ?choice row of None \<Rightarrow> V_NUL | Some i \<Rightarrow> wr_arguments (rows ! i) ! k)"
    proof (cases "?choice row")
      case (Some i)
      then have "i \<in> {b..<e}" using best by (simp add: best_row_def)
      then have "i < ?n" using be(2) by auto
      then show ?thesis using Some by (simp add: take_value_def)
    qed (simp add: take_value_def)
    then show ?thesis using best be(2) by auto
  qed
  ultimately show ?thesis by (simp add: list_all_iff)
qed

theorem window_extrema_exact_witness:
  "\<exists>column. evaluateCall [False] None (ex_call ''max'') 0 (segment [False] ex_rows) ex_rows = Inr column \<and>
     column ! 1 = V_INT 20"
proof -
  have args: "map (\<lambda>r. wr_arguments r ! 0) ex_rows = [V_INT 10, V_INT 20, V_INT 40]"
    by (simp add: ex_rows_def ex_row_def)
  have cv: "comparable_values [V_INT 10, V_INT 20, V_INT 40]" by (simp add: comparable_values_def comparable_def)
  have "chosen = Some 1" if "best_row False [V_INT 10, V_INT 20, V_INT 40] {0, 1} chosen" for chosen
    using that by (cases chosen) (auto simp: best_row_def better_def image_before_def)
  moreover have "wr_arguments (ex_rows ! 1) ! 0 = V_INT 20" by (simp add: ex_rows_def ex_row_def)
  moreover have "case evaluateCall [False] None (ex_call ''max'') 0 (segment [False] ex_rows) ex_rows of
      Inl e \<Rightarrow> False
    | Inr column \<Rightarrow> length column = 3 \<and>
        list_all (\<lambda>row. \<exists>chosen. best_row False [V_INT 10, V_INT 20, V_INT 40]
            {j. j < 3 \<and> in_frame ex_frame None [False] ex_rows row j} chosen \<and>
          column ! row = (case chosen of None \<Rightarrow> V_NUL | Some i \<Rightarrow> wr_arguments (ex_rows ! i) ! 0)) [0..<3]"
  proof -
    have call: "wc_frame (cc_call (ex_call ''max'')) = ex_frame" "wc_function (cc_call (ex_call ''max'')) = ''max''"
      "cc_has_argument (ex_call ''max'')"
      by (simp_all add: ex_call_def)
    show ?thesis
      using window_extrema_exact [OF ex_rows_sorted(1) _ _ call(3), of 0 None] ex_rows_sorted(2) cv
      unfolding call(1,2) args length_ex_rows by (simp cong: sum.case_cong)
  qed
  then obtain column where column: "evaluateCall [False] None (ex_call ''max'') 0 (segment [False] ex_rows) ex_rows = Inr column"
    "list_all (\<lambda>row. \<exists>chosen. best_row False [V_INT 10, V_INT 20, V_INT 40]
        {j. j < 3 \<and> in_frame ex_frame None [False] ex_rows row j} chosen \<and>
      column ! row = (case chosen of None \<Rightarrow> V_NUL | Some i \<Rightarrow> wr_arguments (ex_rows ! i) ! 0)) [0..<3]"
    by (auto split: sum.splits)
  then have "\<exists>chosen. best_row False [V_INT 10, V_INT 20, V_INT 40] {0, 1} chosen \<and>
      column ! 1 = (case chosen of None \<Rightarrow> V_NUL | Some i \<Rightarrow> wr_arguments (ex_rows ! i) ! 0)"
    using ex_frame_rows by (auto simp: list_all_iff dest!: bspec [of _ _ 1])
  ultimately show ?thesis using column(1) by fastforce
qed

end
