(* ===== verification/Window_Ranks.thy ===== *)
theory Window_Ranks
  imports Window_Choice
begin

text \<open>
  The ranking functions of the window evaluator against counts over the partition, and what a sliding sum
  of doubles keeps of a value that left its frame.
\<close>

section \<open>Ranks\<close>

definition peers_of :: "bool list \<Rightarrow> 'r WindowRow list \<Rightarrow> nat \<Rightarrow> nat set" where
  "peers_of ds rows i = {j. j < length rows \<and> same_partition rows i j \<and> same_peer ds rows i j}"

text \<open>The number of a row, its rank with gaps, and its rank without, counted over the partition.\<close>

definition rank_spec :: "string \<Rightarrow> bool list \<Rightarrow> 'r WindowRow list \<Rightarrow> nat \<Rightarrow> int" where
  "rank_spec function ds rows i =
     (let partition = {j. j < length rows \<and> same_partition rows i j} in
      if function = ''row_number'' then int (card {j \<in> partition. j \<le> i})
      else if function = ''rank'' then 1 + int (card {j \<in> partition. order_before ds (rows ! j) (rows ! i)})
      else int (card (peers_of ds rows ` {j \<in> partition. \<not> order_before ds (rows ! i) (rows ! j)})))"

lemma segment_iff:
  assumes sorted: "sorted_rows np ds rows"
    and "i < length rows" and "j < length rows"
  shows "sg_partition_begin (segment ds rows ! i) \<le> j \<and> j < sg_partition_end (segment ds rows ! i) \<longleftrightarrow> same_partition rows i j"
    and "sg_peer_begin (segment ds rows ! i) \<le> j \<and> j < sg_peer_end (segment ds rows ! i) \<longleftrightarrow> same_partition rows i j \<and> same_peer ds rows i j"
  supply assms = assms(2-)
  supply seg_ok = segment_correct(2) [OF sorted]
  using seg_ok [OF assms(1)] assms(2) unfolding segment_ok_def by blast+

lemma segment_bounds:
  assumes sorted: "sorted_rows np ds rows"
    and "i < length rows"
  shows "sg_partition_begin (segment ds rows ! i) \<le> sg_peer_begin (segment ds rows ! i)" and "sg_peer_begin (segment ds rows ! i) \<le> i" and "i < sg_peer_end (segment ds rows ! i)"
    and "sg_peer_end (segment ds rows ! i) \<le> sg_partition_end (segment ds rows ! i)" and "sg_partition_end (segment ds rows ! i) \<le> length rows"
  supply assms = assms(2-)
  supply seg_ok = segment_correct(2) [OF sorted]
  using seg_ok [OF assms] by (auto simp: segment_ok_def)

lemma partition_interval:
  assumes sorted: "sorted_rows np ds rows"
    and "i < length rows"
  shows "{j. j < length rows \<and> same_partition rows i j} = {sg_partition_begin (segment ds rows ! i)..<sg_partition_end (segment ds rows ! i)}"
  supply assms = assms(2-)
  supply segment_iff = segment_iff [OF sorted]
  supply segment_bounds = segment_bounds [OF sorted]
  using segment_iff(1) [OF assms] less_le_trans [OF _ segment_bounds(5) [OF assms]]
  unfolding set_eq_iff mem_Collect_eq atLeastLessThan_iff by blast

lemma peers_interval:
  assumes sorted: "sorted_rows np ds rows"
    and "i < length rows"
  shows "peers_of ds rows i = {sg_peer_begin (segment ds rows ! i)..<sg_peer_end (segment ds rows ! i)}"
    and "sg_peer_begin (segment ds rows ! i) \<in> peers_of ds rows i" and "i \<in> peers_of ds rows i"
  supply assms = assms(2-)
  supply segment_iff = segment_iff [OF sorted]
  supply segment_bounds = segment_bounds [OF sorted]
proof -
  have "j < length rows" if "j < sg_peer_end (segment ds rows ! i)" for j using segment_bounds [OF assms] that by linarith
  then show p: "peers_of ds rows i = {sg_peer_begin (segment ds rows ! i)..<sg_peer_end (segment ds rows ! i)}"
    using segment_iff(2) [OF assms] unfolding peers_of_def set_eq_iff mem_Collect_eq atLeastLessThan_iff by blast
  show "sg_peer_begin (segment ds rows ! i) \<in> peers_of ds rows i" "i \<in> peers_of ds rows i"
    using segment_bounds [OF assms] unfolding p by auto
qed

lemma peers_eq:
  assumes sorted: "sorted_rows np ds rows"
    and "i < length rows" and "j \<in> peers_of ds rows i"
  shows "peers_of ds rows j = peers_of ds rows i"
  supply assms = assms(2-)
proof -
  have j: "j < length rows" using assms(2) by (simp add: peers_of_def)
  have ij: "\<not> partition_before np (rows ! i) (rows ! j)" "\<not> partition_before np (rows ! j) (rows ! i)"
    "\<not> order_before ds (rows ! i) (rows ! j)" "\<not> order_before ds (rows ! j) (rows ! i)"
    using assms j by (auto simp: peers_of_def same_partition_iff [OF sorted] same_peer_iff [OF sorted])
  have "k \<in> peers_of ds rows j \<longleftrightarrow> k \<in> peers_of ds rows i" if "k < length rows" for k
    using ij P_order(2) [OF sorted] O_order(2) [OF sorted] assms(1) j that
    unfolding peers_of_def mem_Collect_eq same_partition_iff [OF sorted j that] same_peer_iff [OF sorted j that]
      same_partition_iff [OF sorted assms(1) that] same_peer_iff [OF sorted assms(1) that]
    by blast
  then show ?thesis by (auto simp: peers_of_def)
qed

text \<open>In a partition the rows before the peers of a row are those with smaller order keys.\<close>

lemma before_peers:
  assumes sorted: "sorted_rows np ds rows"
    and "i < length rows" and "j < length rows" and "same_partition rows i j"
  shows "order_before ds (rows ! j) (rows ! i) \<longleftrightarrow> j < sg_peer_begin (segment ds rows ! i)"
    and "order_before ds (rows ! i) (rows ! j) \<longleftrightarrow> sg_peer_end (segment ds rows ! i) \<le> j"
  supply assms = assms(2-)
  supply segment_iff = segment_iff [OF sorted]
  supply segment_bounds = segment_bounds [OF sorted]
proof -
  note ij = assms(3) [unfolded same_partition_iff [OF sorted assms(1,2)]]
  have 1: "\<not> order_before ds (rows ! i) (rows ! j)" if "j < i" using rows_sorted(2) [OF sorted that assms(1)] ij by blast
  have 2: "\<not> order_before ds (rows ! j) (rows ! i)" if "i < j" using rows_sorted(2) [OF sorted that assms(2)] ij by blast
  have 3: "\<not> (order_before ds (rows ! i) (rows ! j) \<and> order_before ds (rows ! j) (rows ! i))"
    using O_order(1,3) [OF sorted] by blast
  have peer: "sg_peer_begin (segment ds rows ! i) \<le> j \<and> j < sg_peer_end (segment ds rows ! i) \<longleftrightarrow>
      \<not> order_before ds (rows ! i) (rows ! j) \<and> \<not> order_before ds (rows ! j) (rows ! i)"
    using segment_iff(2) [OF assms(1,2)] assms(3) same_peer_iff [OF sorted assms(1,2)] by blast
  note b = segment_bounds [OF assms(1)]
  show "order_before ds (rows ! j) (rows ! i) \<longleftrightarrow> j < sg_peer_begin (segment ds rows ! i)"
    using 1 2 3 peer b(2,3) by (metis le_less_trans less_le_trans not_less less_imp_le)
  show "order_before ds (rows ! i) (rows ! j) \<longleftrightarrow> sg_peer_end (segment ds rows ! i) \<le> j"
    using 1 2 3 peer b(2,3) by (metis le_less_trans less_le_trans not_less less_imp_le)
qed

lemma same_partition_trans:
  assumes sorted: "sorted_rows np ds rows"
    and "i < length rows" and "j < length rows" and "same_partition rows i j"
  shows "sg_partition_begin (segment ds rows ! j) = sg_partition_begin (segment ds rows ! i)"
  supply assms = assms(2-)
  supply segment_bounds = segment_bounds [OF sorted]
  supply partition_interval = partition_interval [OF sorted]
proof -
  have "same_partition rows i k \<longleftrightarrow> same_partition rows j k" if "k < length rows" for k
    using assms that P_order(2) [OF sorted] by (auto simp: same_partition_iff [OF sorted])
  then have "{sg_partition_begin (segment ds rows ! i)..<sg_partition_end (segment ds rows ! i)} = {sg_partition_begin (segment ds rows ! j)..<sg_partition_end (segment ds rows ! j)}"
    unfolding partition_interval [OF assms(1), symmetric] partition_interval [OF assms(2), symmetric] by blast
  then show ?thesis
    using segment_bounds [OF assms(1)] segment_bounds [OF assms(2)] by (simp add: atLeastLessThan_eq_iff)
qed

text \<open>The counter of \<open>dense_rank\<close>: the peer groups that begin in \<open>[partition_begin, i]\<close>.\<close>

definition peer_groups :: "bool list \<Rightarrow> 'r WindowRow list \<Rightarrow> nat \<Rightarrow> nat set set" where
  "peer_groups ds rows i = peers_of ds rows ` {sg_partition_begin (segment ds rows ! i)..i}"

lemma peer_groups_first:
  assumes sorted: "sorted_rows np ds rows"
  shows "i < length rows \<Longrightarrow> sg_partition_begin (segment ds rows ! i) = i \<Longrightarrow> peer_groups ds rows i = {peers_of ds rows i}"
  by (simp add: peer_groups_def)

lemma peer_groups_next:
  assumes sorted: "sorted_rows np ds rows"
    and "Suc i < length rows" and "sg_partition_begin (segment ds rows ! (Suc i)) \<noteq> Suc i"
  shows "card (peer_groups ds rows (Suc i)) = card (peer_groups ds rows i) + (if sg_peer_begin (segment ds rows ! (Suc i)) = Suc i then 1 else 0)"
    and "sg_partition_begin (segment ds rows ! i) = sg_partition_begin (segment ds rows ! (Suc i))"
  supply assms = assms(2-)
  supply segment_iff = segment_iff [OF sorted]
  supply segment_bounds = segment_bounds [OF sorted]
  supply peers_interval = peers_interval [OF sorted]
  supply peers_eq = peers_eq [OF sorted]
  supply same_partition_trans = same_partition_trans [OF sorted]
proof -
  let ?b = "sg_partition_begin (segment ds rows ! (Suc i))"
  note bounds = segment_bounds [OF assms(1)]
  have b: "?b \<le> i" "i < sg_partition_end (segment ds rows ! (Suc i))" using bounds assms(2) by linarith+
  then have sp: "same_partition rows (Suc i) i" using segment_iff(1) [OF assms(1), of i] assms(1) by simp
  show same: "sg_partition_begin (segment ds rows ! i) = ?b" using same_partition_trans [OF assms(1) _ sp] assms(1) by simp
  have ins: "peer_groups ds rows (Suc i) = insert (peers_of ds rows (Suc i)) (peer_groups ds rows i)"
    using b(1) by (simp add: peer_groups_def same atLeastAtMostSuc_conv)
  show "card (peer_groups ds rows (Suc i)) = card (peer_groups ds rows i) + (if sg_peer_begin (segment ds rows ! (Suc i)) = Suc i then 1 else 0)"
  proof (cases "sg_peer_begin (segment ds rows ! (Suc i)) = Suc i")
    case True
    have "peers_of ds rows (Suc i) \<noteq> peers_of ds rows j" if "j \<le> i" for j
    proof
      assume "peers_of ds rows (Suc i) = peers_of ds rows j"
      then have "j \<in> {sg_peer_begin (segment ds rows ! (Suc i))..<sg_peer_end (segment ds rows ! (Suc i))}"
        using peers_interval(1) [OF assms(1)] peers_interval(3) [of j] that assms(1) by simp
      then show False using True that by simp
    qed
    then have "peers_of ds rows (Suc i) \<notin> peer_groups ds rows i" unfolding peer_groups_def by fastforce
    moreover have "finite (peer_groups ds rows i)" by (simp add: peer_groups_def)
    ultimately show ?thesis using True by (simp add: ins)
  next
    case False
    then have "i \<in> peers_of ds rows (Suc i)"
      using bounds by (simp add: peers_interval(1) [OF assms(1)]) 
    then have "peers_of ds rows i = peers_of ds rows (Suc i)" using peers_eq [OF assms(1)] by blast
    then have "peers_of ds rows (Suc i) \<in> peer_groups ds rows i"
      using b(1) by (auto simp: peer_groups_def same intro!: image_eqI [of _ _ i])
    then show ?thesis using False by (simp add: ins insert_absorb)
  qed
qed

lemma rank_rows_spec:
  assumes sorted: "sorted_rows np ds rows"
    and "i \<le> length rows" and "i < length rows \<Longrightarrow> sg_partition_begin (segment ds rows ! i) \<noteq> i \<Longrightarrow> dense = int (card (peer_groups ds rows (i - 1)))"
  shows "rank_rows function (segment ds rows) dense [i..<length rows] =
    map (\<lambda>j. if function = ''row_number'' then int j - int (sg_partition_begin (segment ds rows ! j)) + 1
      else if function = ''rank'' then int (sg_peer_begin (segment ds rows ! j)) - int (sg_partition_begin (segment ds rows ! j)) + 1
      else int (card (peer_groups ds rows j))) [i..<length rows]"
  supply assms = assms(2-)
  supply segment_bounds = segment_bounds [OF sorted]
  supply peer_groups_first = peer_groups_first [OF sorted]
  supply peer_groups_next = peer_groups_next [OF sorted]
  using assms
proof (induction "length rows - i" arbitrary: i dense)
  case 0
  then show ?case by simp
next
  case (Suc k)
  then have i: "i < length rows" by simp
  let ?d = "\<lambda>d. if i = sg_peer_begin (segment ds rows ! i) then d + 1 else d"
  have dense: "?d (if i = sg_partition_begin (segment ds rows ! i) then 0 else dense) = int (card (peer_groups ds rows i))"
  proof (cases "i = sg_partition_begin (segment ds rows ! i)")
    case True
    then have "i = sg_peer_begin (segment ds rows ! i)" using segment_bounds [OF i] by linarith
    then show ?thesis using True peer_groups_first [OF i] by simp
  next
    case False
    then obtain m where m: "i = Suc m" using segment_bounds(1,2) [OF i] by (cases i) auto
    have "card (peer_groups ds rows i) = card (peer_groups ds rows m) + (if sg_peer_begin (segment ds rows ! i) = i then 1 else 0)"
      using peer_groups_next(1) [of m] i False m by simp
    then show ?thesis using False Suc.prems(2) [OF i] m by auto
  qed
  have "k = length rows - Suc i" using Suc.hyps(2) by simp
  note rec = Suc.hyps(1) [OF this, of "int (card (peer_groups ds rows i))"]
  show ?case using rec i dense by (simp add: upt_conv_Cons Let_def)
qed

lemma rank_spec_interval:
  assumes sorted: "sorted_rows np ds rows"
    and i: "i < length rows"
  shows "rank_spec function ds rows i =
    (if function = ''row_number'' then int i - int (sg_partition_begin (segment ds rows ! i)) + 1
     else if function = ''rank'' then int (sg_peer_begin (segment ds rows ! i)) - int (sg_partition_begin (segment ds rows ! i)) + 1
     else int (card (peer_groups ds rows i)))"
  supply segment_bounds = segment_bounds [OF sorted]
  supply partition_interval = partition_interval [OF sorted]
  supply peers_interval = peers_interval [OF sorted]
  supply peers_eq = peers_eq [OF sorted]
  supply before_peers = before_peers [OF sorted]
proof -
  let ?P = "{j. j < length rows \<and> same_partition rows i j}"
  note b = segment_bounds [OF i] and P = partition_interval [OF i]
  have e1: "{j \<in> ?P. j \<le> i} = {sg_partition_begin (segment ds rows ! i)..i}" unfolding P using b by auto
  have e2: "{j \<in> ?P. order_before ds (rows ! j) (rows ! i)} = {sg_partition_begin (segment ds rows ! i)..<sg_peer_begin (segment ds rows ! i)}"
  proof -
    have "{j \<in> ?P. order_before ds (rows ! j) (rows ! i)} = {j \<in> ?P. j < sg_peer_begin (segment ds rows ! i)}"
      using before_peers(1) [OF i] by blast
    also have "\<dots> = {sg_partition_begin (segment ds rows ! i)..<sg_peer_begin (segment ds rows ! i)}" unfolding P using b by auto
    finally show ?thesis .
  qed
  have e3: "peers_of ds rows ` {j \<in> ?P. \<not> order_before ds (rows ! i) (rows ! j)} = peer_groups ds rows i"
  proof -
    have "{j \<in> ?P. \<not> order_before ds (rows ! i) (rows ! j)} = {j \<in> ?P. j < sg_peer_end (segment ds rows ! i)}"
      using before_peers(2) [OF i] by (auto simp: not_le [symmetric])
    also have "\<dots> = {sg_partition_begin (segment ds rows ! i)..i} \<union> {j \<in> peers_of ds rows i. i \<le> j}"
      unfolding P peers_interval(1) [OF i] using b by auto
    finally have "peers_of ds rows ` {j \<in> ?P. \<not> order_before ds (rows ! i) (rows ! j)} =
        peer_groups ds rows i \<union> peers_of ds rows ` {j \<in> peers_of ds rows i. i \<le> j}"
      by (simp only: image_Un peer_groups_def)
    moreover have "peers_of ds rows ` {j \<in> peers_of ds rows i. i \<le> j} \<subseteq> peer_groups ds rows i"
    proof -
      have own: "peers_of ds rows i \<in> peer_groups ds rows i"
        unfolding peer_groups_def by (rule imageI) (use b(1,2) in simp)
      show ?thesis
      proof (rule image_subsetI)
        fix j
        assume "j \<in> {j \<in> peers_of ds rows i. i \<le> j}"
        then have "peers_of ds rows j = peers_of ds rows i" using peers_eq [OF i] by simp
        then show "peers_of ds rows j \<in> peer_groups ds rows i" using own by simp
      qed
    qed
    ultimately show ?thesis by (simp only: Un_absorb2)
  qed
  have "int (card {sg_partition_begin (segment ds rows ! i)..i}) = int i - int (sg_partition_begin (segment ds rows ! i)) + 1"
    "1 + int (card {sg_partition_begin (segment ds rows ! i)..<sg_peer_begin (segment ds rows ! i)}) =
      int (sg_peer_begin (segment ds rows ! i)) - int (sg_partition_begin (segment ds rows ! i)) + 1"
    using b by simp_all
  then show ?thesis unfolding rank_spec_def Let_def e1 e2 e3 by (simp only:)
qed

text \<open>
  C21. \<open>ROW_NUMBER\<close>, \<open>RANK\<close> and \<open>DENSE_RANK\<close> count what their names say over the partition of each row: the
  rows up to it, one more than the rows with smaller order keys, and the groups of peers up to its own.
\<close>

theorem window_ranks_exact:
  assumes "sorted_rows np ds rows" and "wc_function (cc_call c) \<in> {''row_number'', ''rank'', ''dense_rank''}"
  shows "evaluateCall ds type c k (segment ds rows) rows =
    Inr (map (\<lambda>i. V_INT (of_int (rank_spec (wc_function (cc_call c)) ds rows i))) [0..<length rows])"
proof -
  have "sg_partition_begin (segment ds rows ! 0) = 0" if "0 < length rows"
    using segment_correct(2) [OF assms(1) that] by (simp add: segment_ok_def)
  then have "rank_rows (wc_function (cc_call c)) (segment ds rows) 0 [0..<length rows] =
      map (rank_spec (wc_function (cc_call c)) ds rows) [0..<length rows]"
    using rank_rows_spec [OF assms(1), of 0 0 "wc_function (cc_call c)"] rank_spec_interval [OF assms(1)] by simp
  then show ?thesis using assms(2) by (simp add: evaluateCall_def Let_def)
qed

theorem window_ranks_exact_witness:
  "evaluateCall [False] None (ex_call ''rank'') 0 (segment [False] ex_rows) ex_rows = Inr [V_INT 1, V_INT 2, V_INT 3]"
proof -
  have sp: "same_partition ex_rows i j" if "i < 3" "j < 3" for i j
  proof -
    have "i \<in> {0, 1, 2}" "j \<in> {0, 1, 2}" using that by auto
    then show ?thesis
      by (auto simp: same_partition_def comparePartition_def compareKey_def the_order_def ex_rows_def ex_row_def)
  qed
  have before: "order_before [False] (ex_rows ! j) (ex_rows ! i) \<longleftrightarrow> j < i" if "i < 3" "j < 3" for i j
  proof -
    have "i \<in> {0, 1, 2}" "j \<in> {0, 1, 2}" using that by auto
    then show ?thesis by (auto simp: order_before_def image_before_def ex_rows_def ex_row_def)
  qed
  have "rank_spec ''rank'' [False] ex_rows i = 1 + int i" if "i < 3" for i
  proof -
    have "{j. j < 3 \<and> same_partition ex_rows i j \<and> order_before [False] (ex_rows ! j) (ex_rows ! i)} = {..<i}"
      using sp [OF that] before [OF that] that by auto
    then show ?thesis by (simp add: rank_spec_def length_ex_rows)
  qed
  moreover have "wc_function (cc_call (ex_call ''rank'')) = ''rank''" by (simp add: ex_call_def)
  ultimately show ?thesis
    using window_ranks_exact [OF ex_rows_sorted(1), of "ex_call ''rank''" None 0]
    by (simp add: length_ex_rows numeral_3_eq_3)
qed

section \<open>What leaves the frame\<close>

definition ex_double_call :: CallColumns where
  "ex_double_call =
     (ex_call ''sum'')\<lparr>cc_call := (cc_call (ex_call ''sum''))\<lparr>wc_frame := \<lparr>wf_rows = True, wf_start = CURRENT_ROW,
        wf_start_offset = 0, wf_end = CURRENT_ROW, wf_end_offset = 0\<rparr>\<rparr>, cc_integer := False\<rparr>"

definition ex_double_rows :: "unit WindowRow list" where
  "ex_double_rows = [ex_row (V_BOOL True) (V_INT 1) (V_DOUBLE 0x7FF0000000000000),
     ex_row (V_BOOL True) (V_INT 2) (V_DOUBLE 0x3FF0000000000000)]"

text \<open>A sliding sum of doubles is not the sum of the frame: over the frame of the current row alone
  (\<open>ROWS BETWEEN CURRENT ROW AND CURRENT ROW\<close>) the values infinity and \<open>1\<close> give infinity and NaN, because
  taking the infinity away again leaves NaN, for this and every later row of the partition.
\<close>

theorem sliding_sum_keeps_infinity:
  "evaluateCall [False] None ex_double_call 0 (segment [False] ex_double_rows) ex_double_rows =
     Inr [V_DOUBLE 0x7FF0000000000000, V_DOUBLE d_quiet_nan]"
proof -
  have same: "same_partition ex_double_rows 0 (Suc 0)" "\<not> same_peer [False] ex_double_rows 0 (Suc 0)"
    "\<not> null_order_key ex_double_rows 0" "\<not> null_order_key ex_double_rows (Suc 0)" "length ex_double_rows = 2"
    by (simp_all add: same_partition_def same_peer_def comparePartition_def compareOrder_def compareKey_def
        the_order_def null_order_key_def ex_double_rows_def ex_row_def)
  have segs: "segment [False] ex_double_rows =
      [\<lparr>sg_partition_begin = 0, sg_partition_end = 2, sg_peer_begin = 0, sg_peer_end = 1, sg_non_null_end = 2\<rparr>,
       \<lparr>sg_partition_begin = 0, sg_partition_end = 2, sg_peer_begin = 1, sg_peer_end = 2, sg_non_null_end = 2\<rparr>]"
    using same by (simp add: segment_def segment_loop.simps peer_loop.simps scan_end.simps numeral_2_eq_2)
  have fr: "frames (wc_frame (cc_call ex_double_call)) (segment [False] ex_double_rows) None False ex_double_rows =
      [(0, 1), (1, 2)]"
    by (simp add: segs frames_def frame_of_row_def frame_begin_def frame_end_def clamp_def ex_double_call_def same(5)
        numeral_2_eq_2)
  have inf: "\<not> d_isnan 0x7FF0000000000000" "\<not> d_isnan 0x3FF0000000000000" "d_isinf 0x7FF0000000000000"
    "\<not> d_isinf 0x3FF0000000000000" "\<not> d_negative 0x7FF0000000000000" "d_negative 0xFFF0000000000000"
    "d_isinf 0xFFF0000000000000" "\<not> d_isnan 0xFFF0000000000000" "\<not> d_isnan 0" "\<not> d_isinf 0"
    by (simp_all add: d_isnan_def d_isinf_def d_magnitude_def d_infinity_def d_negative_def)
  have "slidingSum ''sum'' True False [V_DOUBLE 0x7FF0000000000000, V_DOUBLE 0x3FF0000000000000]
      (segment [False] ex_double_rows) [(0, 1), (1, 2)] 2 = Inr [V_DOUBLE 0x7FF0000000000000, V_DOUBLE d_quiet_nan]"
    by (simp add: segs slidingSum_def numeral_2_eq_2 sum_slide_def sum_reset_def apply_value_def d_sign_def d_add_def inf
        sum_value_of_def Let_def)
  moreover have "map (\<lambda>r. wr_arguments r ! 0) ex_double_rows = [V_DOUBLE 0x7FF0000000000000, V_DOUBLE 0x3FF0000000000000]"
    by (simp add: ex_double_rows_def ex_row_def)
  moreover have "wc_function (cc_call ex_double_call) = ''sum''" "cc_has_argument ex_double_call" "\<not> cc_integer ex_double_call"
    by (simp_all add: ex_double_call_def ex_call_def)
  ultimately show ?thesis using fr by (simp add: evaluateCall_def first_descending_def same(5))
qed

end
