(* ===== verification/Window_Compose.thy ===== *)
theory Window_Compose
  imports Window_Ranks
begin

text \<open>
  Evaluating whole partitions one after the other is evaluating them together: the facts behind the
  merge of spilled runs.  A batch \<open>r\<close> sits in a larger one \<open>R\<close> at offset \<open>k\<close>, at partition borders; every
  loop of the evaluator over \<open>R\<close> does on the rows of \<open>r\<close> what it does over \<open>r\<close>.
\<close>

section \<open>Batches within batches\<close>

definition embeds :: "nat \<Rightarrow> 'a list \<Rightarrow> 'a list \<Rightarrow> bool" where
  "embeds k r R \<longleftrightarrow> k + length r \<le> length R \<and> (\<forall>i<length r. R ! (k + i) = r ! i)"

lemma embeds_append: "embeds 0 p (p @ q)" "embeds (length p) q (p @ q)"
  by (simp_all add: embeds_def nth_append)

lemma embeds_map: "embeds k r R \<Longrightarrow> embeds k (map f r) (map f R)"
  by (simp add: embeds_def)

lemma embeds_nth: "embeds k r R \<Longrightarrow> i < length r \<Longrightarrow> R ! (k + i) = r ! i"
  by (simp add: embeds_def)

definition shift_segment :: "nat \<Rightarrow> Segment \<Rightarrow> Segment" where
  "shift_segment k s = \<lparr>sg_partition_begin = k + sg_partition_begin s, sg_partition_end = k + sg_partition_end s,
     sg_peer_begin = k + sg_peer_begin s, sg_peer_end = k + sg_peer_end s, sg_non_null_end = k + sg_non_null_end s\<rparr>"

lemma shift_segment_simps [simp]:
  "sg_partition_begin (shift_segment k s) = k + sg_partition_begin s"
  "sg_partition_end (shift_segment k s) = k + sg_partition_end s"
  "sg_peer_begin (shift_segment k s) = k + sg_peer_begin s"
  "sg_peer_end (shift_segment k s) = k + sg_peer_end s"
  "sg_non_null_end (shift_segment k s) = k + sg_non_null_end s"
  by (simp_all add: shift_segment_def)

lemma scan_end_shift:
  assumes "\<And>i. e \<le> i \<Longrightarrow> i < l \<Longrightarrow> same' (k + i) = same i" and "e \<le> l" and "l = L - k \<or> (k + l < L \<and> \<not> same' (k + l))" and "k \<le> L"
  shows "scan_end same' L (k + e) = k + scan_end same l e"
  using assms
proof (induction "l - e" arbitrary: e)
  case 0
  then show ?case by (subst (1 2) scan_end.simps) auto
next
  case (Suc n)
  then have "e < l" "k + e < L" by auto
  then show ?case
    using Suc.hyps(1) [of "Suc e"] Suc.hyps(2) Suc.prems
    by (subst (1 2) scan_end.simps) auto
qed

lemma back_over_shift:
  "(\<And>i. b \<le> i \<Longrightarrow> i < e \<Longrightarrow> null' (k + i) = null i) \<Longrightarrow> b \<le> e \<Longrightarrow>
     back_over null' (k + b) (k + e) = k + back_over null b e"
proof (induction e)
  case 0
  then show ?case by (cases k) auto
next
  case (Suc e)
  then show ?case by (cases "b = Suc e") auto
qed

lemma search_shift:
  "(\<And>i. low \<le> i \<Longrightarrow> i < high \<Longrightarrow> before' (k + i) = before i) \<Longrightarrow>
     search before' (k + low) (k + high) = k + search before low high"
proof (induction before low high rule: search.induct)
  case (1 before low high)
  show ?case
  proof (cases "low < high")
    case True
    define m where "m = low + (high - low) div 2"
    have m: "low \<le> m" "m < high" "k + low + (high - low) div 2 = k + m" using True by (auto simp: m_def)
    have bm: "before' (k + m) = before m" using 1(3) m by simp
    have big: "search before' (k + low) (k + high) =
        (if before' (k + m) then search before' (k + Suc m) (k + high) else search before' (k + low) (k + m))"
      using True by (subst search.simps) (simp only: Let_def m(3) add_diff_cancel_left add_less_cancel_left if_True
        add_Suc_right Suc_eq_plus1 [symmetric])
    have small: "search before low high = (if before m then search before (Suc m) high else search before low m)"
      using True by (subst search.simps) (simp add: Let_def m_def)
    show ?thesis
    proof (cases "before m")
      case b: True
      then show ?thesis using 1(1) [OF True m_def b] 1(3) m big small bm by simp
    next
      case b: False
      then show ?thesis using 1(2) [OF True m_def b] 1(3) m big small bm by simp
    qed
  next
    case False
    then show ?thesis by (subst (1 2) search.simps) simp
  qed
qed

lemma peer_loop_shift:
  assumes "embeds k r R" and "e \<le> length r"
  shows "peer_loop ds R (k + b) (k + e) (k + nn) (k + peer) = map (shift_segment k) (peer_loop ds r b e nn peer)"
proof (induction "e - peer" arbitrary: peer rule: less_induct)
  case less
  show ?case
  proof (cases "peer < e")
    case True
    define l where "l = scan_end (same_peer ds r peer) e (Suc peer)"
    have same: "same_peer ds R (k + peer) (k + i) = same_peer ds r peer i" if "i < e" for i
      using that True assms by (simp add: same_peer_def embeds_nth)
    have l: "scan_end (same_peer ds R (k + peer)) (k + e) (k + Suc peer) = k + l"
      unfolding l_def by (rule scan_end_shift) (use same True in auto)
    have pl: "peer < l" "l \<le> e" using scan_end_ge [of "Suc peer"] scan_end_le [of "Suc peer" e] True
      by (auto simp: l_def Suc_le_lessD)
    have "peer_loop ds R (k + b) (k + e) (k + nn) (k + l) = map (shift_segment k) (peer_loop ds r b e nn l)"
      by (rule less) (use pl True in simp)
    then show ?thesis
      using True l by (subst (1 2) peer_loop.simps) (simp add: Let_def shift_segment_def flip: l_def)
  qed (simp add: peer_loop.simps)
qed

text \<open>A border: no row of \<open>r\<close> is in the partition of the row of \<open>R\<close> that follows.\<close>

definition border :: "nat \<Rightarrow> 'r WindowRow list \<Rightarrow> 'r WindowRow list \<Rightarrow> bool" where
  "border k r R \<longleftrightarrow> k + length r < length R \<longrightarrow> (\<forall>i<length r. \<not> same_partition R (k + i) (k + length r))"

lemma segment_loop_shift:
  assumes "embeds k r R" and "border k r R" and "b \<le> length r"
  shows "segment_loop ds R (k + b) = map (shift_segment k) (segment_loop ds r b) @ segment_loop ds R (k + length r)"
  using assms(3)
proof (induction "length r - b" arbitrary: b rule: less_induct)
  case less
  show ?case
  proof (cases "b < length r")
    case True
    define e where "e = scan_end (same_partition r b) (length r) (Suc b)"
    have kr: "k + length r \<le> length R" using assms(1) by (simp add: embeds_def)
    have same: "same_partition R (k + b) (k + i) = same_partition r b i" if "i < length r" for i
      using that True assms(1) by (simp add: same_partition_def embeds_nth)
    have e: "scan_end (same_partition R (k + b)) (length R) (k + Suc b) = k + e"
      unfolding e_def by (rule scan_end_shift) (use same True assms(2) kr in \<open>auto simp: border_def\<close>)
    have be: "b < e" "e \<le> length r" using scan_end_ge [of "Suc b"] scan_end_le [of "Suc b" "length r"] True
      by (auto simp: e_def Suc_le_lessD)
    have null: "back_over (null_order_key R) (k + b) (k + e) = k + back_over (null_order_key r) b e"
      by (rule back_over_shift) (use be assms(1) in \<open>auto simp: null_order_key_def embeds_nth\<close>)
    have rec: "segment_loop ds R (k + e) = map (shift_segment k) (segment_loop ds r e) @ segment_loop ds R (k + length r)"
      by (rule less) (use be True in auto)
    have "k + b < length R" using True kr by simp
    then show ?thesis
      using True e null rec peer_loop_shift [OF assms(1) be(2)]
      by (subst (1 2) segment_loop.simps) (simp add: Let_def flip: e_def)
  next
    case False
    then show ?thesis using less(2) by (simp add: segment_loop.simps)
  qed
qed

lemma segment_append:
  assumes "border 0 p (p @ q)"
  shows "segment ds (p @ q) = segment ds p @ map (shift_segment (length p)) (segment ds q)"
proof -
  have "segment_loop ds (p @ q) 0 = map (shift_segment 0) (segment_loop ds p 0) @ segment_loop ds (p @ q) (length p)"
    using segment_loop_shift [OF embeds_append(1) assms, of 0 ds] by simp
  moreover have "segment_loop ds (p @ q) (length p) =
      map (shift_segment (length p)) (segment_loop ds q 0) @ segment_loop ds (p @ q) (length (p @ q))"
    using segment_loop_shift [OF embeds_append(2), of p q 0 ds] by (simp add: border_def)
  moreover have "shift_segment 0 = id" by (auto simp: shift_segment_def)
  moreover have "segment_loop ds (p @ q) (length (p @ q)) = []" by (simp add: segment_loop.simps)
  ultimately show ?thesis by (simp add: segment_def)
qed

section \<open>Frames\<close>

definition within :: "'a list \<Rightarrow> nat \<Rightarrow> Segment \<Rightarrow> bool" where
  "within r row s \<longleftrightarrow> sg_partition_begin s \<le> row \<and> row < sg_partition_end s \<and> sg_partition_end s \<le> length r \<and>
     sg_partition_begin s \<le> sg_non_null_end s \<and> sg_non_null_end s \<le> sg_partition_end s"

lemma segment_ok_within: "segment_ok ds r row s \<Longrightarrow> within r row s"
  by (auto simp: segment_ok_def within_def)

lemma search_target_shift:
  assumes "embeds k r R" and "within r row s"
  shows "search_target d R (shift_segment k s) t strict = k + search_target d r s t strict"
  unfolding search_target_def shift_segment_simps
  by (rule search_shift) (use assms in \<open>auto simp: within_def order_key_def embeds_nth\<close>)

lemma frame_begin_shift:
  assumes "embeds k r R" and "within r row s" and "frame_bound f ds R"
  shows "clamp (frame_begin f type d R (shift_segment k s) (k + row)) (int k + int (sg_partition_begin s)) (int k + int (sg_partition_end s)) =
    int k + clamp (frame_begin f type d r s row) (int (sg_partition_begin s)) (int (sg_partition_end s))"
proof -
  have row: "row < length r" using assms(2) by (auto simp: within_def)
  have len: "int k + int (length r) \<le> int64_max" using assms(1,3) by (auto simp: frame_bound_def embeds_def)
  have bounds: "int row < int (sg_partition_end s)" "int (sg_partition_begin s) \<le> int row"
    "int (sg_partition_end s) \<le> int (length r)" "0 \<le> wf_start_offset f" "wf_start_offset f \<le> int64_max"
    using assms by (auto simp: frame_bound_def within_def)
  have key: "key_target d R (k + row) off pre = key_target d r row off pre" for off pre
    using embeds_nth [OF assms(1) row] by (simp add: key_target_def order_key_def)
  note st = search_target_shift [OF assms(1,2)]
  show ?thesis
    using len bounds
    by (cases "wf_start f"; cases "wf_rows f")
      (simp_all add: frame_begin_def Let_def key st clamp_def start_offset_def ranged_def saturatingSub_def saturatingAdd_def
        int64_min_def int64_max_def max_def min_def)
qed

lemma frame_end_shift:
  assumes "embeds k r R" and "within r row s" and "frame_bound f ds R" and "b \<le> int (sg_partition_end s)" and "0 \<le> b"
  shows "clamp (frame_end f type d R (shift_segment k s) (k + row)) (int k + b) (int k + int (sg_partition_end s)) =
    int k + clamp (frame_end f type d r s row) b (int (sg_partition_end s))"
proof -
  have row: "row < length r" using assms(2) by (auto simp: within_def)
  have len: "int k + int (length r) \<le> int64_max" using assms(1,3) by (auto simp: frame_bound_def embeds_def)
  have bounds: "int row < int (sg_partition_end s)" "int (sg_partition_begin s) \<le> int row"
    "int (sg_partition_end s) \<le> int (length r)" "0 \<le> wf_end_offset f" "wf_end_offset f \<le> int64_max"
    using assms by (auto simp: frame_bound_def within_def)
  have key: "key_target d R (k + row) off pre = key_target d r row off pre" for off pre
    using embeds_nth [OF assms(1) row] by (simp add: key_target_def order_key_def)
  note st = search_target_shift [OF assms(1,2)]
  show ?thesis
    using len bounds assms(4,5)
    by (cases "wf_end f"; cases "wf_rows f")
      (simp_all add: frame_end_def Let_def key st clamp_def end_offset_def ranged_def saturatingSub_def saturatingAdd_def
        int64_min_def int64_max_def)
qed

lemma frame_of_row_shift:
  assumes "embeds k r R" and "within r row s" and "frame_bound f ds R"
  shows "frame_of_row f type d R (shift_segment k s) (k + row) =
    (k + fst (frame_of_row f type d r s row), k + snd (frame_of_row f type d r s row))"
proof -
  let ?b = "clamp (frame_begin f type d r s row) (int (sg_partition_begin s)) (int (sg_partition_end s))"
  have "int (sg_partition_begin s) \<le> int (sg_partition_end s)" using assms(2) by (auto simp: within_def)
  then have b: "0 \<le> ?b" "?b \<le> int (sg_partition_end s)" by (auto simp: clamp_def)
  then have e: "0 \<le> clamp (frame_end f type d r s row) ?b (int (sg_partition_end s))" by (auto simp: clamp_def)
  note shifted = frame_end_shift [OF assms b(2,1), of type d]
  show ?thesis
    unfolding frame_of_row_def Let_def shift_segment_simps of_nat_add frame_begin_shift [OF assms] shifted
    using b(1) e by (simp add: nat_add_distrib)
qed

lemma frames_append:
  assumes "border 0 p (p @ q)" and "frame_bound f ds (p @ q)"
    and "\<And>i. i < length p \<Longrightarrow> within p i (segment ds p ! i)" and "\<And>i. i < length q \<Longrightarrow> within q i (segment ds q ! i)"
    and "length (segment ds p) = length p" and "length (segment ds q) = length q"
  shows "frames f (segment ds (p @ q)) type d (p @ q) =
    frames f (segment ds p) type d p @ map (\<lambda>(b, e). (length p + b, length p + e)) (frames f (segment ds q) type d q)"
proof -
  have z: "shift_segment 0 s = s" for s by (simp add: shift_segment_def)
  have 1: "frame_of_row f type d (p @ q) (segment ds (p @ q) ! i) i = frame_of_row f type d p (segment ds p ! i) i"
    if "i < length p" for i
    using frame_of_row_shift [OF embeds_append(1) assms(3) [OF that] assms(2), of type d] that assms(5)
    by (simp add: segment_append [OF assms(1)] nth_append z)
  have 2: "frame_of_row f type d (p @ q) (segment ds (p @ q) ! (length p + i)) (length p + i) =
      (case frame_of_row f type d q (segment ds q ! i) i of (b, e) \<Rightarrow> (length p + b, length p + e))"
    if "i < length q" for i
    using frame_of_row_shift [OF embeds_append(2) assms(4) [OF that(1)] assms(2), of type d] that assms(5,6)
    by (simp add: segment_append [OF assms(1)] nth_append case_prod_beta)
  show ?thesis
  proof (rule nth_equalityI)
    fix i
    assume i: "i < length (frames f (segment ds (p @ q)) type d (p @ q))"
    show "frames f (segment ds (p @ q)) type d (p @ q) ! i =
      (frames f (segment ds p) type d p @ map (\<lambda>(b, e). (length p + b, length p + e)) (frames f (segment ds q) type d q)) ! i"
    proof (cases "i < length p")
      case True
      then show ?thesis using 1 by (simp add: frames_def nth_append)
    next
      case False
      define j where "j = i - length p"
      have "i = length p + j" "j < length q" using i False by (simp_all add: frames_def j_def)
      then show ?thesis using 2 by (simp add: frames_def nth_append case_prod_beta)
    qed
  qed (simp add: frames_def)
qed

end
