(* ===== verification/Window_Partitions.thy ===== *)
theory Window_Partitions
  imports Window_Compose
begin

text \<open>
  The calls of a window group over two batches that share no partition: evaluating the first and then
  the second gives what evaluating them as one batch gives.  Every loop of the evaluator starts afresh at
  the first row of a partition, so each needs two facts: it reads only the rows, segments and frames of the
  rows it visits, and what it does from the first row of a partition on does not depend on what it did before.
\<close>

section \<open>Results\<close>

definition appendE :: "'e + 'a list \<Rightarrow> 'e + 'a list \<Rightarrow> 'e + 'a list" where
  "appendE x y = (case x of Inl e \<Rightarrow> Inl e | Inr a \<Rightarrow> (case y of Inl e \<Rightarrow> Inl e | Inr b \<Rightarrow> Inr (a @ b)))"

lemma appendE_simps [simp]:
  "appendE (Inl e) y = Inl e" "appendE (Inr a) (Inl e) = Inl e" "appendE (Inr a) (Inr b) = Inr (a @ b)"
  by (simp_all add: appendE_def)

lemma map_sum_id_cases:
  "(case map_sum id h x of Inl e \<Rightarrow> Inl e | Inr y \<Rightarrow> g y) = (case x of Inl e \<Rightarrow> Inl e | Inr y \<Rightarrow> g (h y))"
  by (cases x) simp_all

lemma foldE_transport:
  assumes "\<And>s x. x \<in> set xs \<Longrightarrow> g (h s) (t x) = map_sum id h (f s x)"
  shows "foldE g (h s) (map t xs) = map_sum id h (foldE f s xs)"
  using assms
proof (induction xs arbitrary: s)
  case (Cons x xs)
  then show ?case by (cases "f s x") simp_all
qed simp

lemma upt_shift: "[k + a..<k + b] = map ((+) k) [a..<b]"
  by (induction b) auto

section \<open>Embedded rows\<close>

definition embedded ::
  "nat \<Rightarrow> nat \<Rightarrow> Segment list \<Rightarrow> (nat \<times> nat) list \<Rightarrow> OwnedValue list \<Rightarrow>
   Segment list \<Rightarrow> (nat \<times> nat) list \<Rightarrow> OwnedValue list \<Rightarrow> bool" where
  "embedded k n segs fr args segs' fr' args' \<longleftrightarrow>
     (\<forall>i<n. segs' ! (k + i) = shift_segment k (segs ! i) \<and>
       fr' ! (k + i) = (k + fst (fr ! i), k + snd (fr ! i)) \<and>
       args' ! (k + i) = args ! i \<and> fst (fr ! i) \<le> n \<and> snd (fr ! i) \<le> n)"

lemma embeddedD:
  assumes "embedded k n segs fr args segs' fr' args'" and "i < n"
  shows "segs' ! (k + i) = shift_segment k (segs ! i)" and "fr' ! (k + i) = (k + fst (fr ! i), k + snd (fr ! i))"
    and "args' ! (k + i) = args ! i" and "fst (fr ! i) \<le> n" and "snd (fr ! i) \<le> n"
  using assms by (auto simp: embedded_def)

text \<open>The first row of a list of rows begins a partition.\<close>

definition starts :: "Segment list \<Rightarrow> nat list \<Rightarrow> bool" where
  "starts segs rows \<longleftrightarrow> (rows \<noteq> [] \<longrightarrow> sg_partition_begin (segs ! hd rows) = hd rows)"

section \<open>Ranks\<close>

lemma rank_rows_embedded:
  assumes "embedded k n segs fr args segs' fr' args'" and "\<forall>row\<in>set rows. row < n"
  shows "rank_rows function segs' dense (map ((+) k) rows) = rank_rows function segs dense rows"
  using assms(2)
proof (induction rows arbitrary: dense)
  case (Cons row rows)
  then show ?case using embeddedD(1) [OF assms(1), of row] by (simp add: Let_def)
qed simp

lemma rank_rows_append:
  assumes "starts segs ys"
  shows "rank_rows function segs dense (xs @ ys) = rank_rows function segs dense xs @ rank_rows function segs 0 ys"
proof (induction xs arbitrary: dense)
  case Nil
  then show ?case using assms by (cases ys) (simp_all add: starts_def Let_def)
qed (simp add: Let_def)

section \<open>Sums\<close>

definition shift_sum :: "nat \<Rightarrow> SumState \<Rightarrow> SumState" where
  "shift_sum k st = st\<lparr>ss_low := k + ss_low st, ss_high := k + ss_high st\<rparr>"

lemma apply_value_embedded:
  assumes "embedded k n segs fr args segs' fr' args'" and "row < n"
  shows "apply_value function h args' sign (shift_sum k st) (k + row) =
    map_sum id (shift_sum k) (apply_value function h args sign st row)"
  using embeddedD(3) [OF assms]
  by (auto simp: apply_value_def shift_sum_def Let_def split: sum.splits OwnedValue.splits)

lemma sum_slide_embedded:
  assumes "embedded k n segs fr args segs' fr' args'" and "row < n"
  shows "sum_slide function h args' (fr' ! (k + row)) (shift_sum k st) =
    map_sum id (shift_sum k) (sum_slide function h args (fr ! row) st)"
proof -
  have fold: "foldE (apply_value function h args' sign) (shift_sum k st) [k + a..<k + b] =
      map_sum id (shift_sum k) (foldE (apply_value function h args sign) st [a..<b])" if "b \<le> n" for sign st a b
    unfolding upt_shift by (rule foldE_transport) (use that apply_value_embedded [OF assms(1)] in simp)
  note ends = embeddedD(4,5) [OF assms]
  have hi: "ss_high (shift_sum k st) = k + ss_high st" and lo: "ss_low (shift_sum k st) = k + ss_low st" for st
    by (simp_all add: shift_sum_def)
  have up: "(shift_sum k st)\<lparr>ss_high := max (k + a) (k + b)\<rparr> = shift_sum k (st\<lparr>ss_high := max a b\<rparr>)"
    "(shift_sum k st)\<lparr>ss_low := max (k + a) (k + b)\<rparr> = shift_sum k (st\<lparr>ss_low := max a b\<rparr>)" for st a b
    by (simp_all add: shift_sum_def nat_add_max_right)
  show ?thesis
    unfolding sum_slide_def embeddedD(2) [OF assms] fst_conv snd_conv hi lo fold [OF ends(2)] map_sum_id_cases Let_def up
      fold [OF ends(1)]
    by (simp split: sum.split)
qed

lemma sum_rows_embedded:
  assumes "embedded k n segs fr args segs' fr' args'" and "\<forall>row\<in>set rows. row < n"
  shows "sum_rows function h integer args' segs' fr' (shift_sum k st) (map ((+) k) rows) =
    sum_rows function h integer args segs fr st rows"
  using assms(2)
proof (induction rows arbitrary: st)
  case (Cons row rows)
  have row: "row < n" using Cons.prems by simp
  have reset: "(if k + row = sg_partition_begin (segs' ! (k + row)) then sum_reset (k + row) else shift_sum k st) =
      shift_sum k (if row = sg_partition_begin (segs ! row) then sum_reset row else st)"
    using embeddedD(1) [OF assms(1) row] by (simp add: shift_sum_def sum_reset_def)
  have same: "sum_value_of function integer (shift_sum k st) = sum_value_of function integer st" for st
    by (simp add: sum_value_of_def shift_sum_def)
  have IH: "sum_rows function h integer args' segs' fr' (shift_sum k st) (map ((+) k) rows) =
      sum_rows function h integer args segs fr st rows" for st
    using Cons by simp
  show ?case
    by (simp only: list.map sum_rows.simps reset sum_slide_embedded [OF assms(1) row] map_sum_id_cases same IH)
qed simp

lemma sum_rows_append:
  assumes "starts segs ys"
  shows "sum_rows function h integer args segs fr st (xs @ ys) =
    appendE (sum_rows function h integer args segs fr st xs) (sum_rows function h integer args segs fr st' ys)"
proof (induction xs arbitrary: st)
  case Nil
  then show ?case using assms by (cases ys) (auto simp: starts_def appendE_def split: sum.splits)
next
  case (Cons x xs)
  then show ?case by (auto simp: appendE_def split: sum.splits)
qed

section \<open>Extrema\<close>

lemma pop_candidates_embedded:
  assumes "embedded k n segs fr args segs' fr' args'" and "\<forall>c\<in>set cs. c < n"
  shows "pop_candidates minimum args' v (map ((+) k) cs) = map_sum id (map ((+) k)) (pop_candidates minimum args v cs)"
  using assms(2)
proof (induction cs)
  case (Cons c cs)
  then show ?case using embeddedD(3) [OF assms(1), of c] by (simp split: sum.split)
qed simp

lemma pop_candidates_set: "pop_candidates minimum args v cs = Inr ds \<Longrightarrow> set ds \<subseteq> set cs"
  by (induction cs) (auto split: sum.splits if_splits)

lemma push_candidate_embedded:
  assumes "embedded k n segs fr args segs' fr' args'" and "row < n" and "\<forall>c\<in>set cs. c < n"
  shows "push_candidate minimum args' (map ((+) k) cs) (k + row) = map_sum id (map ((+) k)) (push_candidate minimum args cs row)"
proof -
  have "pop_candidates minimum args' v (rev (map ((+) k) cs)) = map_sum id (map ((+) k)) (pop_candidates minimum args v (rev cs))" for v
    using pop_candidates_embedded [OF assms(1), of "rev cs"] assms(3) by (simp add: rev_map)
  then show ?thesis
    using embeddedD(3) [OF assms(1,2)] by (simp add: push_candidate_def map_sum_id_cases rev_map split: sum.split)
qed

lemma push_candidate_set: "push_candidate minimum args cs row = Inr ds \<Longrightarrow> set ds \<subseteq> insert row (set cs)"
  using pop_candidates_set by (fastforce simp: push_candidate_def split: if_splits sum.splits)

lemma push_fold_embedded:
  assumes "embedded k n segs fr args segs' fr' args'" and "\<forall>row\<in>set rows. row < n" and "\<forall>c\<in>set cs. c < n"
  shows "foldE (push_candidate minimum args') (map ((+) k) cs) (map ((+) k) rows) =
      map_sum id (map ((+) k)) (foldE (push_candidate minimum args) cs rows)"
    and "foldE (push_candidate minimum args) cs rows = Inr ds \<Longrightarrow> \<forall>c\<in>set ds. c < n"
proof -
  show "foldE (push_candidate minimum args') (map ((+) k) cs) (map ((+) k) rows) =
      map_sum id (map ((+) k)) (foldE (push_candidate minimum args) cs rows)"
    using assms(2,3)
  proof (induction rows arbitrary: cs)
    case (Cons row rows)
    note step = push_candidate_embedded [OF assms(1), of row cs]
    show ?case
    proof (cases "push_candidate minimum args cs row")
      case (Inr ds)
      then have "\<forall>c\<in>set ds. c < n" using push_candidate_set [OF Inr] Cons.prems by auto
      then show ?thesis using Cons step Inr by simp
    qed (use Cons.prems step in simp)
  qed simp
  show "foldE (push_candidate minimum args) cs rows = Inr ds \<Longrightarrow> \<forall>c\<in>set ds. c < n"
    by (erule foldE_invariant) (use assms(2,3) push_candidate_set in \<open>fastforce+\<close>)
qed

lemma drop_candidates_shift:
  "dropWhile (\<lambda>c. c < k + low) (map ((+) k) cs) = map ((+) (k :: nat)) (dropWhile (\<lambda>c. c < low) cs)"
  by (induction cs) simp_all

definition shift_options :: "nat \<Rightarrow> nat option list \<Rightarrow> nat option list" where
  "shift_options k = map (map_option ((+) k))"

lemma choice_rows_embedded:
  assumes "embedded k n segs fr args segs' fr' args'" and "\<forall>row\<in>set rows. row < n" and "\<forall>c\<in>set cs. c < n"
  shows "choice_rows minimum args' segs' fr' (map ((+) k) cs, k + high) (map ((+) k) rows) =
    map_sum id (shift_options k) (choice_rows minimum args segs fr (cs, high) rows)"
  using assms(2,3)
proof (induction rows arbitrary: cs high)
  case Nil
  then show ?case by (simp add: shift_options_def)
next
  case (Cons row rows)
  have row: "row < n" using Cons.prems by simp
  note D = embeddedD [OF assms(1) row]
  define cs1 high1 where "cs1 = (if row = sg_partition_begin (segs ! row) then [] else cs)"
    and "high1 = (if row = sg_partition_begin (segs ! row) then row else high)"
  have cs1: "\<forall>c\<in>set cs1. c < n" using Cons.prems by (simp add: cs1_def)
  have small: "(if row = sg_partition_begin (segs ! row) then ([], row) else (cs, high)) = (cs1, high1)"
    by (simp add: cs1_def high1_def)
  have big: "(if k + row = sg_partition_begin (segs' ! (k + row)) then ([], k + row) else (map ((+) k) cs, k + high)) =
      (map ((+) k) cs1, k + high1)"
    using D(1) by (simp add: cs1_def high1_def)
  have rows1: "\<forall>i\<in>set [high1..<snd (fr ! row)]. i < n" using D(5) by simp
  note push = push_fold_embedded [OF assms(1) rows1 cs1, of minimum]
  show ?case
  proof (cases "foldE (push_candidate minimum args) cs1 [high1..<snd (fr ! row)]")
    case (Inl e)
    then show ?thesis by (simp add: big small D(2) upt_shift push(1) Let_def)
  next
    case (Inr ds)
    define es where "es = dropWhile (\<lambda>c. c < fst (fr ! row)) ds"
    have es: "\<forall>c\<in>set es. c < n" using push(2) [OF Inr] by (auto simp: es_def dest: set_dropWhileD)
    have IH: "choice_rows minimum args' segs' fr' (map ((+) k) es, k + max high1 (snd (fr ! row))) (map ((+) k) rows) =
        map_sum id (shift_options k) (choice_rows minimum args segs fr (es, max high1 (snd (fr ! row))) rows)"
      by (rule Cons.IH) (use Cons.prems es in simp_all)
    show ?thesis
      using Inr IH
      by (simp add: big small D(2) upt_shift push(1) Let_def drop_candidates_shift nat_add_max_right [symmetric]
          map_sum_id_cases flip: es_def split: sum.split)
        (simp add: shift_options_def split: list.split)
  qed
qed

lemma choice_rows_append:
  assumes "starts segs ys"
  shows "choice_rows minimum args segs fr st (xs @ ys) =
    appendE (choice_rows minimum args segs fr st xs) (choice_rows minimum args segs fr st' ys)"
proof (induction xs arbitrary: st)
  case Nil
  then show ?case using assms by (cases ys) (auto simp: starts_def appendE_def Let_def split: sum.splits)
next
  case (Cons x xs)
  then show ?case by (auto simp: appendE_def Let_def split: sum.splits)
qed

lemma choice_rows_bounded:
  assumes "choice_rows minimum args segs fr (cs, high) rows = Inr chosen"
    and "\<forall>c\<in>set cs. c < n" and "\<forall>row\<in>set rows. snd (fr ! row) \<le> n"
  shows "\<forall>c. Some c \<in> set chosen \<longrightarrow> c < n"
  using assms
proof (induction rows arbitrary: cs high chosen)
  case (Cons row rows)
  define cs1 high1 where "cs1 = (if row = sg_partition_begin (segs ! row) then [] else cs)"
    and "high1 = (if row = sg_partition_begin (segs ! row) then row else high)"
  have st: "(if row = sg_partition_begin (segs ! row) then ([], row) else (cs, high)) = (cs1, high1)"
    by (simp add: cs1_def high1_def)
  obtain ds where ds: "foldE (push_candidate minimum args) cs1 [high1..<snd (fr ! row)] = Inr ds"
    using Cons.prems(1) st by (auto simp: Let_def split: sum.splits)
  define es where "es = dropWhile (\<lambda>c. c < fst (fr ! row)) ds"
  obtain rest where rest: "choice_rows minimum args segs fr (es, max high1 (snd (fr ! row))) rows = Inr rest"
      "chosen = (case es of [] \<Rightarrow> None | c # _ \<Rightarrow> Some c) # rest"
    using Cons.prems(1) st ds by (auto simp: Let_def es_def split: sum.splits)
  have start: "\<forall>c\<in>set cs1. c < n" and visited: "\<And>i. i \<in> set [high1..<snd (fr ! row)] \<Longrightarrow> i < n"
    using Cons.prems(2,3) by (auto simp: cs1_def)
  have "\<forall>c\<in>set ds. c < n"
  proof (rule foldE_invariant [where I = "\<lambda>s. \<forall>c\<in>set s. c < n", OF ds start])
    fix s i t
    assume i: "i \<in> set [high1..<snd (fr ! row)]" and "\<forall>c\<in>set s. c < n" "push_candidate minimum args s i = Inr t"
    then show "\<forall>c\<in>set t. c < n" using push_candidate_set [of minimum args s i t] visited [OF i] by blast
  qed
  then have es: "\<forall>c\<in>set es. c < n" by (auto simp: es_def dest: set_dropWhileD)
  have IH: "\<forall>c. Some c \<in> set rest \<longrightarrow> c < n" by (rule Cons.IH [OF rest(1) es]) (use Cons.prems in simp)
  then show ?case using es rest(2) by (auto split: list.splits)
qed simp

section \<open>Calls\<close>

text \<open>What every sorted batch has.\<close>

definition segmented :: "bool list \<Rightarrow> 'r WindowRow list \<Rightarrow> bool" where
  "segmented ds r \<longleftrightarrow> length (segment ds r) = length r \<and> (\<forall>i<length r. within r i (segment ds r ! i))"

lemma sorted_segmented: "sorted_rows np ds r \<Longrightarrow> segmented ds r"
  unfolding segmented_def using segment_correct(1) segment_ok_within [OF segment_correct(2)] by blast

text \<open>The bounds of the plan: 64-bit frame and row offsets, and values rebuilt one by one.\<close>

definition call_ok :: "bool list \<Rightarrow> 'r WindowRow list \<Rightarrow> CallColumns \<Rightarrow> bool" where
  "call_ok ds rows c \<longleftrightarrow> frame_bound (wc_frame (cc_call c)) ds rows \<and> 0 \<le> wc_offset (cc_call c) \<and>
     wc_offset (cc_call c) \<le> int64_max \<and> (\<exists>g. cc_build c = map g)"

lemma frame_of_row_within:
  assumes "within r row s"
  shows "fst (frame_of_row f type d r s row) \<le> length r" and "snd (frame_of_row f type d r s row) \<le> length r"
  using assms by (auto simp: frame_of_row_def Let_def clamp_def within_def)

lemma frames_within:
  assumes "segmented ds r" and "i < length r"
  shows "fst (frames f (segment ds r) type d r ! i) \<le> length r" and "snd (frames f (segment ds r) type d r ! i) \<le> length r"
  using assms frame_of_row_within [of r i "segment ds r ! i"] by (simp_all add: frames_def segmented_def)

lemma frames_all:
  assumes "border 0 p (p @ q)" and "frame_bound f ds (p @ q)" and "segmented ds p" and "segmented ds q"
  shows "frames f (segment ds (p @ q)) type d (p @ q) =
    frames f (segment ds p) type d p @ map (\<lambda>(b, e). (length p + b, length p + e)) (frames f (segment ds q) type d q)"
  by (rule frames_append [OF assms(1,2)]) (use assms(3,4) in \<open>simp_all add: segmented_def\<close>)

lemma embedded_first:
  assumes "border 0 p (p @ q)" and "frame_bound f ds (p @ q)" and "segmented ds p" and "segmented ds q"
  shows "embedded 0 (length p) (segment ds p) (frames f (segment ds p) type d p) (map g p)
    (segment ds (p @ q)) (frames f (segment ds (p @ q)) type d (p @ q)) (map g (p @ q))"
proof -
  have len: "length (frames f (segment ds p) type d p) = length p" by (simp add: frames_def)
  have z: "shift_segment 0 s = s" for s by (simp add: shift_segment_def)
  note frs = frames_all [OF assms, of type d] and bounds = frames_within [OF assms(3)]
  show ?thesis
    unfolding embedded_def frs unfolding segment_append [OF assms(1)] z
    using bounds assms(3) by (simp add: nth_append len segmented_def)
qed

lemma embedded_second:
  assumes "border 0 p (p @ q)" and "frame_bound f ds (p @ q)" and "segmented ds p" and "segmented ds q"
  shows "embedded (length p) (length q) (segment ds q) (frames f (segment ds q) type d q) (map g q)
    (segment ds (p @ q)) (frames f (segment ds (p @ q)) type d (p @ q)) (map g (p @ q))"
proof -
  have len: "length (frames f (segment ds p) type d p) = length p" "length (frames f (segment ds q) type d q) = length q"
    by (simp_all add: frames_def)
  note frs = frames_all [OF assms, of type d] and bounds = frames_within [OF assms(4)]
  show ?thesis
    unfolding embedded_def frs unfolding segment_append [OF assms(1)]
    using bounds assms(3,4) by (simp add: nth_append len segmented_def case_prod_beta)
qed

lemma starts_second:
  assumes "border 0 p (p @ q)" and "segmented ds p" and "segmented ds q"
  shows "starts (segment ds (p @ q)) (map ((+) (length p)) [0..<length q])"
proof (cases "length q")
  case (Suc m)
  then have first: "sg_partition_begin (segment ds q ! 0) = 0" using assms(3) by (auto simp: segmented_def within_def)
  have "hd (map ((+) (length p)) [0..<length q]) = length p" using Suc by (simp add: hd_map hd_upt del: upt_Suc)
  moreover have "segment ds (p @ q) ! length p = shift_segment (length p) (segment ds q ! 0)"
    using assms(2,3) Suc by (simp add: segment_append [OF assms(1)] nth_append segmented_def)
  ultimately show ?thesis using first by (simp add: starts_def)
qed (simp add: starts_def)

lemma upt_parts: "[0..<m + n] = map ((+) 0) [0..<m] @ map ((+) m) [0..<n]"
proof -
  have "map ((+) 0) xs = xs" for xs :: "nat list" by (induction xs) simp_all
  then show ?thesis using upt_shift [of m 0 n] upt_add_eq_append [of 0 m n] by simp
qed

lemma take_value_embedded:
  assumes "\<And>i. i < n \<Longrightarrow> args' ! (k + i) = args ! i" and "\<forall>c. Some c \<in> set chosen \<longrightarrow> c < n"
  shows "map (take_value args') (shift_options k chosen) = map (take_value args) chosen"
  using assms by (auto simp: shift_options_def take_value_def split: option.splits)

lemma offset_target_embedded:
  assumes "embedded k n segs fr args segs' fr' args'" and "i < n" and "int (k + n) \<le> int64_max"
    and "0 \<le> offset" and "offset \<le> int64_max" and "sg_partition_end (segs ! i) \<le> n"
  shows "offset_target function offset segs' (k + i) = map_option ((+) k) (offset_target function offset segs i)"
  using assms(2-) embeddedD(1) [OF assms(1,2)]
  by (auto simp: offset_target_def Let_def saturatingSub_def saturatingAdd_def int64_min_def int64_max_def nat_add_distrib)

lemma offset_call_rows:
  assumes "cc_build c = map b"
  shows "offset_call c args defaults segs n =
    map (\<lambda>row. let t = offset_target (wc_function (cc_call c)) (wc_offset (cc_call c)) segs row in
      if \<not> cc_has_default c then take_value args t
      else b (case t of Some t \<Rightarrow> args ! t | None \<Rightarrow> defaults ! row)) [0..<n]"
  using assms by (simp add: offset_call_def Let_def)

lemma offset_target_within:
  "offset_target function offset segs i = Some t \<Longrightarrow> sg_partition_end (segs ! i) \<le> n \<Longrightarrow> t < n"
  by (auto simp: offset_target_def Let_def split: if_splits)

abbreviation (input) call_frames where
  "call_frames c ds type r \<equiv> frames (wc_frame (cc_call c)) (segment ds r) type (first_descending ds) r"


lemma bound:
  assumes border: "border 0 p (p @ q)"
    and ok: "call_ok ds (p @ q) c"
    and segp: "segmented ds p"
    and segq: "segmented ds q"
  shows "frame_bound (wc_frame (cc_call c)) ds (p @ q)"
  using ok by (simp add: call_ok_def)

lemma rank_rows_parts:
  assumes border: "border 0 p (p @ q)"
    and ok: "call_ok ds (p @ q) c"
    and segp: "segmented ds p"
    and segq: "segmented ds q"
  shows "rank_rows function (segment ds (p @ q)) 0 [0..<length p + length q] =
     rank_rows function (segment ds p) 0 [0..<length p] @ rank_rows function (segment ds q) 0 [0..<length q]"
  supply bound = bound [OF border ok segp segq]
  supply first = embedded_first [OF border bound segp segq, of type "first_descending ds"]
  supply second = embedded_second [OF border bound segp segq, of type "first_descending ds"]
  unfolding upt_parts rank_rows_append [OF starts_second [OF border segp segq]]
  by (simp add: rank_rows_embedded [OF first] rank_rows_embedded [OF second])

lemma slidingSum_parts:
  assumes border: "border 0 p (p @ q)"
    and ok: "call_ok ds (p @ q) c"
    and segp: "segmented ds p"
    and segq: "segmented ds q"
  shows "slidingSum function h integer (map g (p @ q)) (segment ds (p @ q)) (call_frames c ds type (p @ q)) (length p + length q) =
     appendE (slidingSum function h integer (map g p) (segment ds p) (call_frames c ds type p) (length p))
       (slidingSum function h integer (map g q) (segment ds q) (call_frames c ds type q) (length q))"
  supply bound = bound [OF border ok segp segq]
  supply first = embedded_first [OF border bound segp segq, of type "first_descending ds"]
  supply second = embedded_second [OF border bound segp segq, of type "first_descending ds"]
proof -
  have z: "sum_reset 0 = shift_sum 0 (sum_reset 0)" by (simp add: shift_sum_def sum_reset_def)
  have p: "sum_rows function h i (map g (p @ q)) (segment ds (p @ q)) (call_frames c ds type (p @ q)) (shift_sum 0 (sum_reset 0)) (map ((+) 0) [0..<length p]) =
      sum_rows function h i (map g p) (segment ds p) (call_frames c ds type p) (sum_reset 0) [0..<length p]" for i
    by (rule sum_rows_embedded [OF first]) simp
  have q: "sum_rows function h i (map g (p @ q)) (segment ds (p @ q)) (call_frames c ds type (p @ q)) (shift_sum (length p) (sum_reset 0))
        (map ((+) (length p)) [0..<length q]) =
      sum_rows function h i (map g q) (segment ds q) (call_frames c ds type q) (sum_reset 0) [0..<length q]" for i
    by (rule sum_rows_embedded [OF second]) simp
  show ?thesis
    unfolding slidingSum_def upt_parts
      sum_rows_append [OF starts_second [OF border segp segq], where st' = "shift_sum (length p) (sum_reset 0)"]
      p [folded z] q ..
qed

lemma slidingChoice_parts:
  assumes border: "border 0 p (p @ q)"
    and ok: "call_ok ds (p @ q) c"
    and segp: "segmented ds p"
    and segq: "segmented ds q"
  shows "slidingChoice minimum (map g (p @ q)) (segment ds (p @ q)) (call_frames c ds type (p @ q)) (length p + length q) =
     appendE (slidingChoice minimum (map g p) (segment ds p) (call_frames c ds type p) (length p))
       (slidingChoice minimum (map g q) (segment ds q) (call_frames c ds type q) (length q))"
  supply bound = bound [OF border ok segp segq]
  supply first = embedded_first [OF border bound segp segq, of type "first_descending ds"]
  supply second = embedded_second [OF border bound segp segq, of type "first_descending ds"]
proof -
  have p: "choice_rows minimum (map g (p @ q)) (segment ds (p @ q)) (call_frames c ds type (p @ q)) ([], 0) (map ((+) 0) [0..<length p]) =
      map_sum id (shift_options 0) (choice_rows minimum (map g p) (segment ds p) (call_frames c ds type p) ([], 0) [0..<length p])"
    using choice_rows_embedded [OF first, where rows = "[0..<length p]" and cs = "[]" and high = 0] by simp
  have q: "choice_rows minimum (map g (p @ q)) (segment ds (p @ q)) (call_frames c ds type (p @ q)) ([], length p) (map ((+) (length p)) [0..<length q]) =
      map_sum id (shift_options (length p)) (choice_rows minimum (map g q) (segment ds q) (call_frames c ds type q) ([], 0) [0..<length q])"
    using choice_rows_embedded [OF second, where rows = "[0..<length q]" and cs = "[]" and high = 0] by simp
  have tp: "map (take_value (map g (p @ q))) (shift_options 0 chosen) = map (take_value (map g p)) chosen"
    if "choice_rows minimum (map g p) (segment ds p) (call_frames c ds type p) ([], 0) [0..<length p] = Inr chosen" for chosen
    using choice_rows_bounded [OF that, of "length p"] frames_within [OF segp] embeddedD(3) [OF first]
    by (intro take_value_embedded [where n = "length p"]) auto
  have tq: "map (take_value (map g (p @ q))) (shift_options (length p) chosen) = map (take_value (map g q)) chosen"
    if "choice_rows minimum (map g q) (segment ds q) (call_frames c ds type q) ([], 0) [0..<length q] = Inr chosen" for chosen
    using choice_rows_bounded [OF that, of "length q"] frames_within [OF segq] embeddedD(3) [OF second]
    by (intro take_value_embedded [where n = "length q"]) auto
  show ?thesis
    unfolding slidingChoice_def upt_parts
      choice_rows_append [OF starts_second [OF border segp segq], where st' = "([], length p)"] p q
    using tp tq by (auto split: sum.split)
qed

lemma value_call_parts:
  assumes border: "border 0 p (p @ q)"
    and ok: "call_ok ds (p @ q) c"
    and segp: "segmented ds p"
    and segq: "segmented ds q"
  shows "value_call first (map g (p @ q)) (call_frames c ds type (p @ q)) (length p + length q) =
     value_call first (map g p) (call_frames c ds type p) (length p) @ value_call first (map g q) (call_frames c ds type q) (length q)"
  supply bound = bound [OF border ok segp segq]
  supply first = embedded_first [OF border bound segp segq, of type "first_descending ds"]
  supply second = embedded_second [OF border bound segp segq, of type "first_descending ds"]
proof -
  have row: "take_value args' (if snd (fr' ! (k + i)) \<le> fst (fr' ! (k + i)) then None
        else Some (if first then fst (fr' ! (k + i)) else snd (fr' ! (k + i)) - 1)) =
      take_value args (if snd (fr ! i) \<le> fst (fr ! i) then None else Some (if first then fst (fr ! i) else snd (fr ! i) - 1))"
    if e: "embedded k n segs fr args segs' fr' args'" and i: "i < n" for k n i segs fr args segs' fr' args'
  proof (cases "snd (fr ! i) \<le> fst (fr ! i)")
    case False
    then have "fst (fr ! i) < n" "snd (fr ! i) - 1 < n" "k + snd (fr ! i) - 1 = k + (snd (fr ! i) - 1)"
      using embeddedD(5) [OF e i] by linarith+
    then show ?thesis
      using False embeddedD(2) [OF e i] embeddedD(3) [OF e, of "fst (fr ! i)"] embeddedD(3) [OF e, of "snd (fr ! i) - 1"]
      by (simp add: take_value_def)
  qed (simp add: embeddedD(2) [OF e i] take_value_def)
  show ?thesis
    unfolding value_call_def upt_parts map_append map_map o_def
    using row [OF first] row [OF second] by simp
qed

lemma offset_call_parts:
  assumes border: "border 0 p (p @ q)"
    and ok: "call_ok ds (p @ q) c"
    and segp: "segmented ds p"
    and segq: "segmented ds q"
  shows "offset_call c (map g (p @ q)) (map h (p @ q)) (segment ds (p @ q)) (length p + length q) =
     offset_call c (map g p) (map h p) (segment ds p) (length p) @ offset_call c (map g q) (map h q) (segment ds q) (length q)"
  supply bound = bound [OF border ok segp segq]
  supply first = embedded_first [OF border bound segp segq, of type "first_descending ds"]
  supply second = embedded_second [OF border bound segp segq, of type "first_descending ds"]
proof -
  let ?t = "\<lambda>r. offset_target (wc_function (cc_call c)) (wc_offset (cc_call c)) (segment ds r)"
  have big: "int (length p + length q) \<le> int64_max" using bound by (simp add: frame_bound_def)
  have offs: "0 \<le> wc_offset (cc_call c)" "wc_offset (cc_call c) \<le> int64_max" using ok by (simp_all add: call_ok_def)
  obtain b where b: "cc_build c = map b" using ok by (auto simp: call_ok_def)
  have endp: "sg_partition_end (segment ds p ! i) \<le> length p" if "i < length p" for i
    using segp that by (simp add: segmented_def within_def)
  have endq: "sg_partition_end (segment ds q ! i) \<le> length q" if "i < length q" for i
    using segq that by (simp add: segmented_def within_def)
  have tp: "?t (p @ q) (0 + i) = map_option ((+) 0) (?t p i)" if "i < length p" for i
    by (rule offset_target_embedded [OF first that _ offs endp [OF that]]) (use big in simp)
  have tq: "?t (p @ q) (length p + i) = map_option ((+) (length p)) (?t q i)" if "i < length q" for i
    by (rule offset_target_embedded [OF second that big offs endq [OF that]])
  have wp: "t < length p" if "?t p i = Some t" "i < length p" for i t
    using offset_target_within [OF that(1) endp [OF that(2)]] .
  have wq: "t < length q" if "?t q i = Some t" "i < length q" for i t
    using offset_target_within [OF that(1) endq [OF that(2)]] .
  have taken: "take_value (map g (p @ q)) (?t (p @ q) (0 + i)) = take_value (map g p) (?t p i)" if "i < length p" for i
    using tp [OF that] wp [OF _ that] by (cases "?t p i") (simp_all add: take_value_def nth_append)
  have taken': "take_value (map g (p @ q)) (?t (p @ q) (length p + i)) = take_value (map g q) (?t q i)" if "i < length q" for i
    using tq [OF that] wq [OF _ that] by (cases "?t q i") (simp_all add: take_value_def nth_append)
  have fall: "(case ?t (p @ q) (0 + i) of Some t \<Rightarrow> map g (p @ q) ! t | None \<Rightarrow> map h (p @ q) ! (0 + i)) =
      (case ?t p i of Some t \<Rightarrow> map g p ! t | None \<Rightarrow> map h p ! i)" if "i < length p" for i
    using tp [OF that] wp [OF _ that] that by (cases "?t p i") (simp_all add: nth_append)
  have fall': "(case ?t (p @ q) (length p + i) of Some t \<Rightarrow> map g (p @ q) ! t | None \<Rightarrow> map h (p @ q) ! (length p + i)) =
      (case ?t q i of Some t \<Rightarrow> map g q ! t | None \<Rightarrow> map h q ! i)" if "i < length q" for i
    using tq [OF that] wq [OF _ that] that by (cases "?t q i") (simp_all add: nth_append)
  show ?thesis
    unfolding offset_call_rows [OF b] upt_parts map_append map_map o_def
    by (intro arg_cong2 [where f = "(@)"] map_cong refl)      (simp_all only: set_upt atLeastLessThan_iff Let_def taken [unfolded map_append] taken' [unfolded map_append]
        fall [unfolded map_append] fall' [unfolded map_append])
qed

lemma evaluateCall_parts:
  assumes border: "border 0 p (p @ q)"
    and ok: "call_ok ds (p @ q) c"
    and segp: "segmented ds p"
    and segq: "segmented ds q"
  shows "evaluateCall ds type c k (segment ds (p @ q)) (p @ q) =
     appendE (evaluateCall ds type c k (segment ds p) p) (evaluateCall ds type c k (segment ds q) q)"
  supply rank_rows_parts = rank_rows_parts [OF border ok segp segq]
  supply slidingSum_parts = slidingSum_parts [OF border ok segp segq]
  supply slidingChoice_parts = slidingChoice_parts [OF border ok segp segq]
  supply value_call_parts = value_call_parts [OF border ok segp segq]
  supply offset_call_parts = offset_call_parts [OF border ok segp segq]
  unfolding evaluateCall_def Let_def length_append rank_rows_parts offset_call_parts value_call_parts
    slidingChoice_parts slidingSum_parts
  by simp

section \<open>All calls\<close>

definition outcome :: "'e + 'a \<Rightarrow> 'a option" where
  "outcome x = (case x of Inl e \<Rightarrow> None | Inr a \<Rightarrow> Some a)"

lemma outcome_simps [simp]: "outcome (Inl e) = None" "outcome (Inr a) = Some a"
  by (simp_all add: outcome_def)

lemma outcome_Some: "outcome x = Some a \<longleftrightarrow> x = Inr a"
  by (cases x) auto

lemma outcome_None: "outcome x = None \<longleftrightarrow> (\<exists>e. x = Inl e)"
  by (cases x) auto

lemma outcome_appendE:
  "outcome (appendE x y) = (case (outcome x, outcome y) of (Some a, Some b) \<Rightarrow> Some (a @ b) | _ \<Rightarrow> None)"
  by (cases x; cases y) simp_all

lemma length_rank_rows: "length (rank_rows function segs dense rows) = length rows"
  by (induction rows arbitrary: dense) (simp_all add: Let_def)

lemma length_sum_rows: "sum_rows function h integer args segs fr st rows = Inr vs \<Longrightarrow> length vs = length rows"
  by (induction rows arbitrary: st vs) (auto split: sum.splits)

lemma length_choice_rows: "choice_rows minimum args segs fr st rows = Inr vs \<Longrightarrow> length vs = length rows"
  by (induction rows arbitrary: st vs) (auto simp: Let_def split: sum.splits)

lemma length_evaluateCall:
  assumes "evaluateCall ds type c k segs rows = Inr vs" and "cc_build c = map b"
  shows "length vs = length rows"
  using assms
  by (auto simp: evaluateCall_def Let_def offset_call_def value_call_def slidingChoice_def slidingSum_def length_rank_rows
      length_choice_rows length_sum_rows split: if_splits sum.splits dest: length_sum_rows length_choice_rows)

lemma length_evaluate_calls:
  assumes "evaluate_calls ds type cs k segs rows = Inr columns" and "\<forall>c\<in>set cs. \<exists>b. cc_build c = map b"
  shows "length columns = length cs" and "\<forall>column\<in>set columns. length column = length rows"
  using assms by (induction cs arbitrary: k columns) (fastforce split: sum.splits dest: length_evaluateCall)+

definition append_columns :: "'a list list option \<Rightarrow> 'a list list option \<Rightarrow> 'a list list option" where
  "append_columns x y = (case (x, y) of (Some a, Some b) \<Rightarrow> Some (map2 (@) a b) | _ \<Rightarrow> None)"

lemma evaluate_calls_parts:
  assumes "border 0 p (p @ q)" and "\<forall>c\<in>set cs. call_ok ds (p @ q) c" and "segmented ds p" and "segmented ds q"
  shows "outcome (evaluate_calls ds type cs k (segment ds (p @ q)) (p @ q)) =
    append_columns (outcome (evaluate_calls ds type cs k (segment ds p) p)) (outcome (evaluate_calls ds type cs k (segment ds q) q))"
  using assms(2)
proof (induction cs arbitrary: k)
  case (Cons c cs)
  have c: "call_ok ds (p @ q) c" using Cons.prems by simp
  note IH = Cons.IH [of "k + 1"]
  show ?case
    using IH Cons.prems
    by (simp add: evaluateCall_parts [OF assms(1) c assms(3,4)])
      (auto simp: appendE_def append_columns_def outcome_def split: sum.splits option.splits)
qed (simp add: append_columns_def)

lemma nth_columns:
  assumes "list_all2 (\<lambda>x y. length x = n) a b"
  shows "i < n \<Longrightarrow> map (\<lambda>z. (case z of (x, y) \<Rightarrow> x @ y) ! i) (zip a b) = map (\<lambda>column. column ! i) a"
    and "map (\<lambda>z. (case z of (x, y) \<Rightarrow> x @ y) ! (n + i)) (zip a b) = map (\<lambda>column. column ! i) b"
  using assms by (induction a b rule: list_all2_induct) (auto simp: nth_append)

lemma evaluateSorted_parts:
  assumes "border 0 p (p @ q)" and "\<forall>c\<in>set cs. call_ok ds (p @ q) c" and "segmented ds p" and "segmented ds q"
  shows "outcome (evaluateSorted ds type cs (p @ q)) =
    outcome (appendE (evaluateSorted ds type cs p) (evaluateSorted ds type cs q))"
proof -
  have build: "\<forall>c\<in>set cs. \<exists>b. cc_build c = map b" using assms(2) by (auto simp: call_ok_def)
  note parts = evaluate_calls_parts [OF assms, of type 0]
  show ?thesis
  proof (cases "evaluate_calls ds type cs 0 (segment ds p) p")
    case (Inl e)
    then show ?thesis using parts by (auto simp: evaluateSorted_def append_columns_def outcome_None)
  next
    case (Inr a)
    show ?thesis
    proof (cases "evaluate_calls ds type cs 0 (segment ds q) q")
      case (Inl e)
      then show ?thesis using parts Inr by (auto simp: evaluateSorted_def append_columns_def outcome_None)
    next
      case b: (Inr b)
      have l: "list_all2 (\<lambda>x y. length x = length p) a b"
        using length_evaluate_calls [OF Inr build] length_evaluate_calls [OF b build]
        by (simp add: list_all2_conv_all_nth)
      have "evaluate_calls ds type cs 0 (segment ds (p @ q)) (p @ q) = Inr (map2 (@) a b)"
        using parts Inr b by (simp add: append_columns_def outcome_Some)
      then show ?thesis
        using Inr b
        by (simp add: evaluateSorted_def upt_parts nth_append nth_columns [OF l] o_def cong: map_cong)
    qed
  qed
qed

end
