(* ===== verification/Window_Operator.thy ===== *)
theory Window_Operator
  imports Window_Partitions Grouped_Aggregator
begin

text \<open>
  The operator of a window node (\<open>WindowGroupOperator\<close>, \<open>WindowOperator\<close> and \<open>applyWindow\<close> of
  \<open>src/query/executor/WindowEvaluator.cpp\<close>): it buffers its input, spills sorted runs when the buffer
  exceeds the budget, and emits the evaluated rows, from the buffer or from a merge of the runs that
  evaluates one partition at a time.

  A spill file is the list of the batches appended to it.  The slices of a partition are the list of
  their rows, and combining batches is concatenation.  Parameters are the evaluation of the key and argument
  expressions over a batch (\<open>evaluate\<close>, an \<open>applyProjection\<close>), the memory estimate of Arrow and the
  row that a row of the input and the values of the calls make.  Progress and cancellation are left out.
\<close>

section \<open>State\<close>

record 'b WindowEnv =
  we_descending :: "bool list"
  we_type :: "TimeUnit option"
  we_calls :: "CallColumns list"
  we_sorted_input :: bool
  we_spill :: bool
  we_budget :: nat
  we_bytes :: "'b WindowRow list \<Rightarrow> nat"
  we_evaluate :: "'b list \<Rightarrow> exn + 'b WindowRow list"
  we_output :: "'b \<Rightarrow> OwnedValue list \<Rightarrow> 'b"

record 'b RunCursor =
  rc_reader :: "'b WindowRow list list"
  rc_batch :: "'b WindowRow list option"
  rc_row :: nat
  rc_row_bytes :: nat

record 'b WindowGroupOperator =
  wo_buffered :: "'b WindowRow list list"
  wo_buffered_bytes :: nat
  wo_runs :: "'b WindowRow list list list"
  wo_output :: "'b list list"
  wo_next :: nat
  wo_merging :: bool
  wo_cursors :: "'b RunCursor list"
  wo_partition :: "'b WindowRow list"
  wo_partition_bytes :: nat
  wo_pending :: "'b list list"
  wo_pending_rows :: nat

definition new_window_group :: "'b WindowGroupOperator" where
  "new_window_group = \<lparr>wo_buffered = [], wo_buffered_bytes = 0, wo_runs = [], wo_output = [], wo_next = 0,
     wo_merging = False, wo_cursors = [], wo_partition = [], wo_partition_bytes = 0, wo_pending = [],
     wo_pending_rows = 0\<rparr>"

section \<open>Input\<close>

definition evaluated_output :: "'b WindowEnv \<Rightarrow> 'b WindowRow list \<Rightarrow> exn + 'b list" where
  "evaluated_output env rows =
     (case evaluateSorted (we_descending env) (we_type env) (we_calls env) rows of
        Inl e \<Rightarrow> Inl e
      | Inr out \<Rightarrow> Inr (map (\<lambda>(row, values). we_output env row values) out))"

definition sorted_buffer :: "'b WindowEnv \<Rightarrow> 'b WindowRow list \<Rightarrow> exn + 'b WindowRow list" where
  "sorted_buffer env combined =
     (case sortPermutation (we_descending env) (we_sorted_input env) combined of
        Inl e \<Rightarrow> Inl e
      | Inr rows \<Rightarrow> Inr (takeRows combined rows))"

definition spillRun :: "'b WindowEnv \<Rightarrow> 'b WindowGroupOperator \<Rightarrow> exn + 'b WindowGroupOperator" where
  "spillRun env op =
     (case sorted_buffer env (concat (wo_buffered op)) of
        Inl e \<Rightarrow> Inl e
      | Inr ordered \<Rightarrow> Inr (op\<lparr>wo_buffered := [], wo_buffered_bytes := 0, wo_runs := wo_runs op @ [slice_rows ordered]\<rparr>))"

definition window_consume :: "'b WindowEnv \<Rightarrow> 'b WindowGroupOperator \<Rightarrow> 'b list \<Rightarrow> exn + 'b WindowGroupOperator" where
  "window_consume env op batch =
     (if batch = [] then Inr op
      else case we_evaluate env batch of
          Inl e \<Rightarrow> Inl e
        | Inr evaluated \<Rightarrow>
            let op = op\<lparr>wo_buffered_bytes := wo_buffered_bytes op + we_bytes env evaluated,
                       wo_buffered := wo_buffered op @ [evaluated]\<rparr> in
            if we_spill env \<and> wo_buffered_bytes op > we_budget env then spillRun env op else Inr op)"

text \<open>The next non-empty batch of a run; at its end the cursor has none.\<close>

fun advanceBatch :: "'b WindowEnv \<Rightarrow> 'b WindowRow list list \<Rightarrow> 'b RunCursor \<Rightarrow> 'b RunCursor" where
  "advanceBatch env [] c = c\<lparr>rc_reader := [], rc_batch := None\<rparr>"
| "advanceBatch env (batch # batches) c =
     (if batch = [] then advanceBatch env batches c
      else c\<lparr>rc_reader := batches, rc_batch := Some batch, rc_row := 0,
             rc_row_bytes := we_bytes env batch div length batch + 1\<rparr>)"

definition open_cursor :: "'b WindowEnv \<Rightarrow> 'b WindowRow list list \<Rightarrow> 'b RunCursor" where
  "open_cursor env run = advanceBatch env run \<lparr>rc_reader = run, rc_batch = None, rc_row = 0, rc_row_bytes = 0\<rparr>"

definition finishInput :: "'b WindowEnv \<Rightarrow> 'b WindowGroupOperator \<Rightarrow> exn + 'b WindowGroupOperator" where
  "finishInput env op =
     (if wo_runs op \<noteq> [] then
        (case (if wo_buffered op \<noteq> [] then spillRun env op else Inr op) of
           Inl e \<Rightarrow> Inl e
         | Inr op \<Rightarrow>
             Inr (op\<lparr>wo_cursors := wo_cursors op @ filter (\<lambda>c. rc_batch c \<noteq> None) (map (open_cursor env) (wo_runs op)),
                     wo_merging := True\<rparr>))
      else if wo_buffered op = [] then Inr op
      else case sorted_buffer env (concat (wo_buffered op)) of
          Inl e \<Rightarrow> Inl e
        | Inr ordered \<Rightarrow>
            (case evaluated_output env ordered of
               Inl e \<Rightarrow> Inl e
             | Inr out \<Rightarrow> Inr (op\<lparr>wo_buffered := [], wo_output := wo_output op @ slice_rows out\<rparr>)))"

section \<open>The merge\<close>

definition cursor_row :: "'b RunCursor \<Rightarrow> 'b WindowRow" where
  "cursor_row c = the (rc_batch c) ! rc_row c"

definition better_cursor :: "bool list \<Rightarrow> 'b RunCursor list \<Rightarrow> nat option \<Rightarrow> nat \<Rightarrow> exn + nat option" where
  "better_cursor ds cursors best i =
     (if rc_batch (cursors ! i) = None then Inr best
      else case best of
          None \<Rightarrow> Inr (Some i)
        | Some b \<Rightarrow>
            (case compareRows ds (cursor_row (cursors ! i)) (cursor_row (cursors ! b)) of
               Inl e \<Rightarrow> Inl e
             | Inr order \<Rightarrow> Inr (if order < 0 then Some i else Some b)))"

definition best_cursor :: "bool list \<Rightarrow> 'b RunCursor list \<Rightarrow> exn + nat option" where
  "best_cursor ds cursors = foldE (better_cursor ds cursors) None [0..<length cursors]"

definition closePartition :: "'b WindowEnv \<Rightarrow> 'b WindowGroupOperator \<Rightarrow> exn + 'b WindowGroupOperator" where
  "closePartition env op =
     (if wo_partition op = [] then Inr op
      else case evaluated_output env (wo_partition op) of
          Inl e \<Rightarrow> Inl e
        | Inr out \<Rightarrow> Inr (op\<lparr>wo_partition := [], wo_partition_bytes := 0,
            wo_pending := wo_pending op @ [out], wo_pending_rows := wo_pending_rows op + length out\<rparr>))"

definition flushPending :: "'b WindowGroupOperator \<Rightarrow> 'b list option \<times> 'b WindowGroupOperator" where
  "flushPending op = (Some (concat (wo_pending op)), op\<lparr>wo_pending := [], wo_pending_rows := 0\<rparr>)"

definition partition_too_large :: "nat \<Rightarrow> exn" where
  "partition_too_large budget = window_failed (''a single partition exceeds memory_limit_bytes ('' @ to_string budget @
     '' bytes); use a finer PARTITION BY or raise the limit'')"

definition advance_row :: "'b WindowEnv \<Rightarrow> 'b RunCursor \<Rightarrow> 'b RunCursor" where
  "advance_row env c =
     (if rc_row c + 1 \<ge> length (the (rc_batch c)) then advanceBatch env (rc_reader c) c else c\<lparr>rc_row := rc_row c + 1\<rparr>)"

text \<open>One round of the loop of \<open>nextMerged\<close> for the cursor with the first row.\<close>

definition merge_row :: "'b WindowEnv \<Rightarrow> 'b WindowGroupOperator \<Rightarrow> nat \<Rightarrow> exn + 'b WindowGroupOperator" where
  "merge_row env op i =
     (let best = wo_cursors op ! i; row = cursor_row best in
      case (if wo_partition op = [] then Inr op
            else case comparePartition row (last (wo_partition op)) of
                Inl e \<Rightarrow> Inl e
              | Inr order \<Rightarrow> if order \<noteq> 0 then closePartition env op else Inr op) of
        Inl e \<Rightarrow> Inl e
      | Inr op \<Rightarrow>
          let op = op\<lparr>wo_partition := wo_partition op @ [row],
                     wo_partition_bytes := wo_partition_bytes op + rc_row_bytes best\<rparr> in
          if wo_partition_bytes op > we_budget env then Inl (partition_too_large (we_budget env))
          else Inr (op\<lparr>wo_cursors := (wo_cursors op)[i := advance_row env best]\<rparr>))"

text \<open>The rows a cursor has left, and what the operator still holds.\<close>

definition cursor_left :: "'b RunCursor \<Rightarrow> nat" where
  "cursor_left c =
     (case rc_batch c of
        None \<Rightarrow> 0
      | Some batch \<Rightarrow> max 1 (length batch - rc_row c) + length (concat (rc_reader c)))"

definition window_left :: "'b WindowGroupOperator \<Rightarrow> nat" where
  "window_left op =
     (if wo_merging op then sum_list (map cursor_left (wo_cursors op)) + length (wo_partition op) + wo_pending_rows op
      else length (wo_output op) - wo_next op)"

lemma advanceBatch_left: "cursor_left (advanceBatch env batches c) = length (concat batches)"
  by (induction batches) (auto simp: cursor_left_def Suc_le_eq max_def)

lemma advance_row_left:
  assumes "rc_batch c \<noteq> None"
  shows "Suc (cursor_left (advance_row env c)) \<le> cursor_left c"
  using assms by (auto simp: advance_row_def advanceBatch_left) (auto simp: cursor_left_def)

lemma better_cursor_range:
  "better_cursor ds cursors best i = Inr best' \<Longrightarrow> best' = best \<or> (best' = Some i \<and> rc_batch (cursors ! i) \<noteq> None)"
  by (auto simp: better_cursor_def split: if_splits option.splits sum.splits)

lemma best_cursor_range:
  assumes "best_cursor ds cursors = Inr (Some i)"
  shows "i < length cursors" and "rc_batch (cursors ! i) \<noteq> None"
proof -
  have "case (Some i) of None \<Rightarrow> True | Some j \<Rightarrow> j < length cursors \<and> rc_batch (cursors ! j) \<noteq> None"
  proof (rule foldE_invariant [where I = "\<lambda>b. case b of None \<Rightarrow> True | Some j \<Rightarrow> j < length cursors \<and> rc_batch (cursors ! j) \<noteq> None"])
    show "foldE (better_cursor ds cursors) None [0..<length cursors] = Inr (Some i)" using assms by (simp add: best_cursor_def)
  qed (use better_cursor_range in \<open>fastforce split: option.splits\<close>)+
  then show "i < length cursors" "rc_batch (cursors ! i) \<noteq> None" by simp_all
qed

lemma length_evaluateSorted: "evaluateSorted ds type calls rows = Inr out \<Longrightarrow> length out = length rows"
  by (auto simp: evaluateSorted_def split: sum.splits)

lemma length_evaluated_output: "evaluated_output env rows = Inr out \<Longrightarrow> length out = length rows"
  by (auto simp: evaluated_output_def dest: length_evaluateSorted split: sum.splits)

lemma closePartition_keeps:
  assumes "closePartition env op = Inr op'"
  shows "wo_cursors op' = wo_cursors op" and "wo_merging op' = wo_merging op" and "wo_partition op' = []"
    and "length (wo_partition op) + wo_pending_rows op = wo_pending_rows op'"
  using assms by (auto simp: closePartition_def dest: length_evaluated_output split: if_splits sum.splits)

lemma sum_left_update:
  assumes "i < length cs" and "Suc (cursor_left c) \<le> cursor_left (cs ! i)"
  shows "Suc (sum_list (map cursor_left (cs[i := c]))) \<le> sum_list (map cursor_left cs)"
  using assms
proof (induction cs arbitrary: i)
  case (Cons d cs)
  then show ?case by (cases i) fastforce+
qed simp

lemma merge_row_keeps:
  assumes "merge_row env op i = Inr op'" and "i < length (wo_cursors op)" and "rc_batch (wo_cursors op ! i) \<noteq> None"
  shows "wo_merging op' = wo_merging op"
    and "sum_list (map cursor_left (wo_cursors op')) < sum_list (map cursor_left (wo_cursors op))"
    and "wo_merging op \<Longrightarrow> window_left op' \<le> window_left op"
proof -
  let ?best = "wo_cursors op ! i"
  let ?close = "if wo_partition op = [] then Inr op
    else case comparePartition (cursor_row ?best) (last (wo_partition op)) of
        Inl e \<Rightarrow> Inl e
      | Inr order \<Rightarrow> if order \<noteq> 0 then closePartition env op else Inr op"
  obtain op1 where close: "?close = Inr op1"
    using assms(1) unfolding merge_row_def Let_def by (cases ?close) simp_all
  then have op1: "op1 = op \<or> closePartition env op = Inr op1" by (auto split: if_splits sum.splits)
  have op': "op' = op1\<lparr>wo_partition := wo_partition op1 @ [cursor_row ?best],
      wo_partition_bytes := wo_partition_bytes op1 + rc_row_bytes ?best,
      wo_cursors := (wo_cursors op1)[i := advance_row env ?best]\<rparr>"
    using assms(1) unfolding merge_row_def Let_def close by (simp split: if_splits)
  have same: "wo_cursors op1 = wo_cursors op" "wo_merging op1 = wo_merging op"
    "length (wo_partition op1) + wo_pending_rows op1 = length (wo_partition op) + wo_pending_rows op"
    using op1 closePartition_keeps [of env op op1] by auto
  have less: "Suc (sum_list (map cursor_left (wo_cursors op'))) \<le> sum_list (map cursor_left (wo_cursors op))"
    unfolding op' using sum_left_update [OF assms(2) advance_row_left [OF assms(3)]] same(1) by simp
  then show "sum_list (map cursor_left (wo_cursors op')) < sum_list (map cursor_left (wo_cursors op))" by simp
  show "wo_merging op' = wo_merging op" using same op' by simp
  then show "window_left op' \<le> window_left op" if "wo_merging op"
    using less same(3) that op' by (simp add: window_left_def)
qed

function nextMerged :: "'b WindowEnv \<Rightarrow> 'b WindowGroupOperator \<Rightarrow> exn + 'b list option \<times> 'b WindowGroupOperator" where
  "nextMerged env op =
     (if wo_pending_rows op \<ge> batch_rows then Inr (flushPending op)
      else case best_cursor (we_descending env) (wo_cursors op) of
          Inl e \<Rightarrow> Inl e
        | Inr None \<Rightarrow>
            (case closePartition env op of
               Inl e \<Rightarrow> Inl e
             | Inr op \<Rightarrow> Inr (if wo_pending_rows op > 0 then flushPending op else (None, op)))
        | Inr (Some i) \<Rightarrow>
            (case merge_row env op i of
               Inl e \<Rightarrow> Inl e
             | Inr op' \<Rightarrow> nextMerged env op'))"
  by pat_completeness auto
termination
  by (relation "measure (\<lambda>(env, op). sum_list (map cursor_left (wo_cursors op)))")
    (auto dest: best_cursor_range intro: merge_row_keeps(2))

declare nextMerged.simps [simp del]

definition window_next :: "'b WindowEnv \<Rightarrow> 'b WindowGroupOperator \<Rightarrow> exn + 'b list option \<times> 'b WindowGroupOperator" where
  "window_next env op =
     (if wo_merging op then nextMerged env op
      else Inr (if wo_next op < length (wo_output op)
        then (Some (wo_output op ! wo_next op), op\<lparr>wo_next := wo_next op + 1\<rparr>) else (None, op)))"

lemma nextMerged_left:
  assumes "nextMerged env op = Inr (Some batch, op')" and "wo_merging op"
  shows "window_left op' < window_left op"
  using assms
proof (induction env op rule: nextMerged.induct)
  case (1 env op)
  show ?case
  proof (cases "wo_pending_rows op \<ge> batch_rows")
    case True
    then show ?thesis using 1(2,3) by (auto simp: nextMerged.simps [of env op] flushPending_def window_left_def batch_rows_def)
  next
    case False
    obtain b where b: "best_cursor (we_descending env) (wo_cursors op) = Inr b"
      using 1(2) False by (auto simp: nextMerged.simps [of env op] split: sum.splits)
    show ?thesis
    proof (cases b)
      case None
      then show ?thesis using 1(2,3) False b closePartition_keeps
        by (fastforce simp: nextMerged.simps [of env op] flushPending_def window_left_def split: sum.splits if_splits)
    next
      case (Some i)
      then obtain op1 where op1: "merge_row env op i = Inr op1" "nextMerged env op1 = Inr (Some batch, op')"
        using 1(2) False b by (auto simp: nextMerged.simps [of env op] split: sum.splits)
      note i = best_cursor_range [OF b [unfolded Some]]
      note keeps = merge_row_keeps [OF op1(1) i]
      have "window_left op' < window_left op1"
        by (rule 1(1) [OF False b Some op1]) (use keeps 1(3) in simp)
      then show ?thesis using keeps(3) [OF 1(3)] by simp
    qed
  qed
qed

lemma window_next_left: "window_next env op = Inr (Some batch, op') \<Longrightarrow> window_left op' < window_left op"
  by (auto simp: window_next_def window_left_def dest: nextMerged_left split: if_splits)

section \<open>The operator\<close>

text \<open>\<open>while (auto batch = next())\<close>, collecting the batches or feeding the next group.\<close>

function drain_window :: "'b WindowEnv \<Rightarrow> 'b WindowGroupOperator \<Rightarrow> exn + 'b list list" where
  "drain_window env op =
     (case window_next env op of
        Inl e \<Rightarrow> Inl e
      | Inr (None, _) \<Rightarrow> Inr []
      | Inr (Some batch, op') \<Rightarrow>
          (case drain_window env op' of
             Inl e \<Rightarrow> Inl e
           | Inr batches \<Rightarrow> Inr (batch # batches)))"
  by pat_completeness auto
termination by (relation "measure (\<lambda>(env, op). window_left op)") (auto dest: window_next_left)

function feed_group ::
  "'b WindowEnv \<Rightarrow> 'b WindowGroupOperator \<Rightarrow> 'b WindowEnv \<Rightarrow> 'b WindowGroupOperator \<Rightarrow> exn + 'b WindowGroupOperator" where
  "feed_group env op env' target =
     (case window_next env op of
        Inl e \<Rightarrow> Inl e
      | Inr (None, _) \<Rightarrow> Inr target
      | Inr (Some batch, op') \<Rightarrow>
          (case window_consume env' target batch of
             Inl e \<Rightarrow> Inl e
           | Inr target' \<Rightarrow> feed_group env op' env' target'))"
  by pat_completeness auto
termination by (relation "measure (\<lambda>(env, op, env', target). window_left op)") (auto dest: window_next_left)

declare drain_window.simps [simp del] feed_group.simps [simp del]

fun finish_groups_from ::
  "'b WindowEnv \<Rightarrow> 'b WindowGroupOperator \<Rightarrow> 'b WindowEnv list \<Rightarrow> exn + 'b list list" where
  "finish_groups_from env op [] = drain_window env op"
| "finish_groups_from env op (env' # envs) =
     (case feed_group env op env' new_window_group of
        Inl e \<Rightarrow> Inl e
      | Inr target \<Rightarrow>
          (case finishInput env' target of
             Inl e \<Rightarrow> Inl e
           | Inr target \<Rightarrow> finish_groups_from env' target envs))"

definition applyWindow :: "'b WindowEnv list \<Rightarrow> 'b list list \<Rightarrow> exn + 'b list list" where
  "applyWindow envs input =
     (case envs of
        [] \<Rightarrow> if input = [] then Inr [] else Inl (window_failed ''window node without groups'')
      | env # envs \<Rightarrow>
          (case foldE (window_consume env) new_window_group input of
             Inl e \<Rightarrow> Inl e
           | Inr op \<Rightarrow>
               (case finishInput env op of
                  Inl e \<Rightarrow> Inl e
                | Inr op \<Rightarrow> finish_groups_from env op envs)))"

end
