(* ===== verification/Window_Merge.thy ===== *)
theory Window_Merge
  imports Window_Operator
begin

text \<open>
  What the window operator computes: with any memory budget, through any number of spilled runs, it emits
  what evaluating the whole sorted input at once gives, unless a single partition exceeds the budget.
\<close>

section \<open>Buffers and runs\<close>

lemma comparable_rows_mono:
  "comparable_rows np no rows \<Longrightarrow> set rows' \<subseteq> set rows \<Longrightarrow> comparable_rows np no rows'"
  unfolding comparable_rows_def by blast

lemma call_ok_mono:
  assumes "call_ok ds rows c" and "set rows' \<subseteq> set rows" and "length rows' \<le> length rows"
  shows "call_ok ds rows' c"
proof -
  have "integer_keys rows \<Longrightarrow> integer_keys rows'" using assms(2) unfolding integer_keys_def by blast
  then show ?thesis using assms unfolding call_ok_def frame_bound_def by auto
qed

definition cursor_rows :: "'b RunCursor \<Rightarrow> 'b WindowRow list" where
  "cursor_rows c = (case rc_batch c of None \<Rightarrow> [] | Some batch \<Rightarrow> drop (rc_row c) batch @ concat (rc_reader c))"

text \<open>A cursor stands on a row of its batch, or its run is at its end.\<close>

definition cursor_ok :: "nat \<Rightarrow> 'b RunCursor \<Rightarrow> bool" where
  "cursor_ok w c \<longleftrightarrow> (case rc_batch c of None \<Rightarrow> True | Some batch \<Rightarrow> rc_row c < length batch \<and> rc_row_bytes c \<le> w)"

lemma advanceBatch_rows: "cursor_rows (advanceBatch env batches c) = concat batches"
  by (induction batches) (simp_all add: cursor_rows_def)

lemma advanceBatch_ok:
  "(\<And>b. we_bytes env b div length b < w) \<Longrightarrow> cursor_ok w (advanceBatch env batches c)"
  by (induction batches) (auto simp: cursor_ok_def Suc_le_eq)

lemma cursor_rows_first:
  assumes "cursor_ok w c" and "rc_batch c \<noteq> None"
  shows "cursor_rows c = cursor_row c # cursor_rows (advance_row env c)"
proof -
  obtain b where b: "rc_batch c = Some b" "rc_row c < length b" using assms by (auto simp: cursor_ok_def)
  have "drop (rc_row c) b = b ! rc_row c # drop (Suc (rc_row c)) b" using b(2) by (rule drop_cons_nth)
  then show ?thesis
    using b by (auto simp: advance_row_def cursor_row_def advanceBatch_rows) (simp_all add: cursor_rows_def)
qed

lemma advance_row_ok:
  assumes "cursor_ok w c" and "rc_batch c \<noteq> None" and "\<And>b. we_bytes env b div length b < w"
  shows "cursor_ok w (advance_row env c)"
  using assms by (auto simp: advance_row_def advanceBatch_ok) (auto simp: cursor_ok_def)

lemma cursor_rows_empty: "cursor_ok w c \<Longrightarrow> cursor_rows c = [] \<longleftrightarrow> rc_batch c = None"
  by (auto simp: cursor_ok_def cursor_rows_def split: option.splits)

lemma hd_cursor_rows: "cursor_ok w c \<Longrightarrow> rc_batch c \<noteq> None \<Longrightarrow> hd (cursor_rows c) = cursor_row c"
  using cursor_rows_first [of w c undefined] by simp

text \<open>The result for all rows at once; without rows nothing is evaluated.\<close>

definition window_result :: "'b WindowEnv \<Rightarrow> 'b WindowRow list \<Rightarrow> exn + 'b list" where
  "window_result env rows = (if rows = [] then Inr [] else evaluated_output env rows)"

section \<open>The operator on comparable rows\<close>

text \<open>
  The input: key columns of one kind each, calls within the bounds of the plan, and a bound on the weight
  of a row in the memory estimate.
\<close>

definition window_input :: "'b WindowEnv \<Rightarrow> nat \<Rightarrow> 'b WindowRow list \<Rightarrow> nat \<Rightarrow> bool" where
  "window_input env np rows w \<longleftrightarrow>
     comparable_rows np (length (we_descending env)) rows \<and>
     (\<forall>c\<in>set (we_calls env). call_ok (we_descending env) rows c) \<and>
     (\<forall>b. we_bytes env b div length b < w)"

lemma window_inputD:
  assumes "window_input env np rows w"
  shows "comparable_rows np (length (we_descending env)) rows"
    and "\<forall>c\<in>set (we_calls env). call_ok (we_descending env) rows c" and "we_bytes env b div length b < w"
  using assms unfolding window_input_def by blast+

abbreviation (input) window_lt :: "'b WindowEnv \<Rightarrow> nat \<Rightarrow> 'b WindowRow \<Rightarrow> 'b WindowRow \<Rightarrow> bool" where
  "window_lt env np \<equiv> window_before np (we_descending env)"

definition all_rows ::
  "'b WindowEnv \<Rightarrow> nat \<Rightarrow> 'b WindowRow list \<Rightarrow> 'b WindowRow list" where
  "all_rows env np rows = stable_sort (window_lt env np) rows"

lemma all_rows_mset:
  "set (all_rows env np rows) = set rows" "length (all_rows env np rows) = length rows"
  by (simp_all add: all_rows_def)

lemma sorted_part:
  assumes input: "window_input env np rows w"
    and "sorted_wrt (\<lambda>a b. \<not> (window_lt env np) b a) p" and "set p \<subseteq> set rows"
  shows "segmented (we_descending env) p"
  supply assms = assms(2-)
  supply comparable = window_inputD(1) [OF input]
  using sorted_segmented [of np "we_descending env" p] assms comparable_rows_mono [OF comparable assms(2)]
  by (simp add: sorted_rows_def)

lemma PB_order:
  "partition_before np a b \<Longrightarrow> partition_before np b c \<Longrightarrow> partition_before np a c" "partition_before np a c \<Longrightarrow> partition_before np a b \<or> partition_before np b c" "\<not> partition_before np a a"
  using weak_order_partition_before [of np] unfolding weak_order_def by blast+

lemma evaluated_parts:
  assumes input: "window_input env np rows w"
    and "sorted_wrt (\<lambda>a b. \<not> (window_lt env np) b a) (p @ q)" and "set (p @ q) \<subseteq> set rows" and "length (p @ q) \<le> length rows"
    and "\<And>x y. x \<in> set p \<Longrightarrow> y \<in> set q \<Longrightarrow> partition_before np x y"
  shows "outcome (evaluated_output env (p @ q)) = outcome (appendE (evaluated_output env p) (evaluated_output env q))"
  supply assms = assms(2-)
  supply comparable = window_inputD(1) [OF input]
  supply calls = window_inputD(2) [OF input]
  supply sorted_part = sorted_part [OF input]
proof -
  have border: "border 0 p (p @ q)"
    unfolding border_def
  proof (intro impI allI notI)
    fix i
    assume l: "0 + length p < length (p @ q)" "i < length p" and s: "same_partition (p @ q) (0 + i) (0 + length p)"
    have c: "comparable_rows np (length (we_descending env)) (p @ q)" by (rule comparable_rows_mono [OF comparable assms(2)])
    have "q ! 0 \<in> set q" "p ! i \<in> set p" using l by auto
    then have "partition_before np (p ! i) (q ! 0)" by (rule assms(4) [rotated])
    then show False
      using s l less_on_rows(3) [OF c, of i "length p"] by (simp add: same_partition_def nth_append)
  qed
  have ok: "\<forall>c\<in>set (we_calls env). call_ok (we_descending env) (p @ q) c"
    using calls call_ok_mono [OF _ assms(2,3)] by blast
  have "segmented (we_descending env) p" "segmented (we_descending env) q"
    using assms(1,2) by (auto intro!: sorted_part simp: sorted_wrt_append)
  from evaluateSorted_parts [OF border ok this, of "we_type env"]
  show ?thesis
    by (auto simp: evaluated_output_def appendE_def outcome_def split: sum.splits)
qed

lemma sorted_buffer_rows:
  assumes input: "window_input env np rows w"
    and "set p \<subseteq> set rows"
  shows "sorted_buffer env p = Inr (stable_sort (window_lt env np) p)"
  supply assms = assms(2-)
  supply comparable = window_inputD(1) [OF input]
  using sorted_rows_result [OF comparable_rows_mono [OF comparable assms]]
    sortPermutation_result [OF comparable_rows_mono [OF comparable assms]]
  by (simp add: sorted_buffer_def)

lemma compareRows_rows:
  assumes input: "window_input env np rows w"
    and "a \<in> set rows" and "b \<in> set rows"
  obtains order where "compareRows (we_descending env) a b = Inr order" and "order < 0 \<longleftrightarrow> (window_lt env np) a b"
  supply assms = assms(2-)
  supply comparable = window_inputD(1) [OF input]
  using compareRows_before [OF comparable assms] by blast

lemma comparePartition_rows:
  assumes input: "window_input env np rows w"
    and "a \<in> set rows" and "b \<in> set rows"
  obtains order where "comparePartition a b = Inr order" and "order = 0 \<longleftrightarrow> \<not> partition_before np a b \<and> \<not> partition_before np b a"
  supply assms = assms(2-)
  supply comparable = window_inputD(1) [OF input]
proof -
  obtain order where "comparePartition a b = Inr order" "order < 0 \<longleftrightarrow> partition_before np a b" "order > 0 \<longleftrightarrow> partition_before np b a"
    using comparePartition_before [OF comparable assms] .
  then show ?thesis using that by (metis less_irrefl linorder_less_linear)
qed

text \<open>The cursor that wins a round: ahead of the ones before it, not behind the ones after it.\<close>

definition cursors_ok ::
  "'b WindowEnv \<Rightarrow> nat \<Rightarrow> 'b WindowRow list \<Rightarrow> nat \<Rightarrow> 'b RunCursor list \<Rightarrow> bool" where
  "cursors_ok env np rows w cs \<longleftrightarrow> (\<forall>c\<in>set cs. cursor_ok w c \<and> set (cursor_rows c) \<subseteq> set rows \<and> sorted_wrt (\<lambda>a b. \<not> (window_lt env np) b a) (cursor_rows c))"

definition best_among ::
  "'b WindowEnv \<Rightarrow> nat \<Rightarrow> 'b RunCursor list \<Rightarrow> nat \<Rightarrow> nat option \<Rightarrow> bool" where
  "best_among env np cs n best \<longleftrightarrow>
     (case best of
        None \<Rightarrow> \<forall>j<n. rc_batch (cs ! j) = None
      | Some i \<Rightarrow> i < n \<and> rc_batch (cs ! i) \<noteq> None \<and>
          (\<forall>j<n. rc_batch (cs ! j) \<noteq> None \<longrightarrow>
             (j < i \<longrightarrow> (window_lt env np) (cursor_row (cs ! i)) (cursor_row (cs ! j))) \<and>
             \<not> (window_lt env np) (cursor_row (cs ! j)) (cursor_row (cs ! i))))"

lemma best_cursor_among:
  assumes input: "window_input env np rows w"
    and "cursors_ok env np rows w cs" and "n \<le> length cs"
  shows "\<exists>best. foldE (better_cursor (we_descending env) cs) None [0..<n] = Inr best \<and> best_among env np cs n best"
  supply assms = assms(2-)
  supply compareRows_rows = compareRows_rows [OF input]
  using assms(2)
proof (induction n)
  case 0
  then show ?case by (simp add: best_among_def)
next
  case (Suc n)
  then obtain best where best: "foldE (better_cursor (we_descending env) cs) None [0..<n] = Inr best" "best_among env np cs n best" by auto
  have in_rows: "cursor_row (cs ! j) \<in> set rows" if "j < length cs" "rc_batch (cs ! j) \<noteq> None" for j
  proof -
    have ok: "cursor_ok w (cs ! j)" "set (cursor_rows (cs ! j)) \<subseteq> set rows" using assms(1) that(1) by (simp_all add: cursors_ok_def)
    show ?thesis using cursor_rows_first [OF ok(1) that(2), of env] ok(2) by simp
  qed
  have fold: "foldE (better_cursor (we_descending env) cs) None [0..<Suc n] = better_cursor (we_descending env) cs best n"
    using best(1) by (simp add: foldE_append) (cases "better_cursor (we_descending env) cs best n"; simp)
  show ?case
  proof (cases "rc_batch (cs ! n) = None")
    case True
    then have "best_among env np cs (Suc n) best"
      using best(2) by (auto simp: best_among_def less_Suc_eq split: option.splits)
    moreover have "better_cursor (we_descending env) cs best n = Inr best" using True by (simp add: better_cursor_def)
    ultimately show ?thesis using fold by metis
  next
    case new: False
    show ?thesis
    proof (cases best)
      case None
      then have "best_among env np cs (Suc n) (Some n)"
        using best(2) new window_rows.irrefl by (auto simp: best_among_def less_Suc_eq)
      moreover have "better_cursor (we_descending env) cs best n = Inr (Some n)" using new None by (simp add: better_cursor_def)
      ultimately show ?thesis using fold by metis
    next
      case (Some b)
      have b: "b < n" "rc_batch (cs ! b) \<noteq> None" using best(2) Some by (simp_all add: best_among_def)
      obtain order where o: "compareRows (we_descending env) (cursor_row (cs ! n)) (cursor_row (cs ! b)) = Inr order"
        "order < 0 \<longleftrightarrow> (window_lt env np) (cursor_row (cs ! n)) (cursor_row (cs ! b))"
        by (rule compareRows_rows [OF in_rows [of n] in_rows [of b]]) (use new b Suc.prems in auto)
      have "best_among env np cs (Suc n) (if order < 0 then Some n else Some b)"
      proof (cases "order < 0")
        case True
        then have nb: "(window_lt env np) (cursor_row (cs ! n)) (cursor_row (cs ! b))" using o(2) by simp
        have "(window_lt env np) (cursor_row (cs ! n)) (cursor_row (cs ! j)) \<and> \<not> (window_lt env np) (cursor_row (cs ! j)) (cursor_row (cs ! n))"
          if "j < n" "rc_batch (cs ! j) \<noteq> None" for j
        proof -
          have "\<not> (window_lt env np) (cursor_row (cs ! j)) (cursor_row (cs ! b))" using best(2) that Some by (simp add: best_among_def)
          then show ?thesis using nb window_rows.negtrans window_rows.trans window_rows.irrefl by blast
        qed
        then show ?thesis using True new window_rows.irrefl by (auto simp: best_among_def less_Suc_eq)
      next
        case False
        then show ?thesis using best(2) Some o(2) by (auto simp: best_among_def less_Suc_eq)
      qed
      moreover have "better_cursor (we_descending env) cs best n = Inr (if order < 0 then Some n else Some b)"
        using new Some o(1) by (auto simp: better_cursor_def)
      ultimately show ?thesis using fold by metis
    qed
  qed
qed

lemma rest_first:
  assumes input: "window_input env np rows w"
    and "cursors_ok env np rows w cs" and "best_among env np cs (length cs) (Some i)"
  shows "stable_sort (window_lt env np) (concat (map cursor_rows cs)) =
      cursor_row (cs ! i) # stable_sort (window_lt env np) (concat (map cursor_rows (cs[i := advance_row env (cs ! i)])))"
    and "cursors_ok env np rows w (cs[i := advance_row env (cs ! i)])"
  supply assms = assms(2-)
  supply weight = window_inputD(3) [OF input]
proof -
  have i: "i < length cs" "rc_batch (cs ! i) \<noteq> None" using assms(2) by (simp_all add: best_among_def)
  have ok: "cursor_ok w c" "sorted_wrt (\<lambda>a b. \<not> (window_lt env np) b a) (cursor_rows c)" if "c \<in> set cs" for c
    using assms(1) that by (simp_all add: cursors_ok_def)
  have ci: "cs ! i \<in> set cs" using i(1) by simp
  note split = cursor_rows_first [OF ok(1) [OF ci] i(2), of env]
  have cs: "map cursor_rows cs = map cursor_rows (take i cs) @ cursor_rows (cs ! i) # map cursor_rows (drop (Suc i) cs)"
    using id_take_nth_drop [OF i(1)] by (metis list.simps(9) map_append)
  have head: "hd (cursor_rows (cs ! j)) = cursor_row (cs ! j)" "rc_batch (cs ! j) \<noteq> None"
    if "j < length cs" "cursor_rows (cs ! j) \<noteq> []" for j
    using that ok(1) [of "cs ! j"] hd_cursor_rows cursor_rows_empty by (metis nth_mem)+
  have "stable_sort (window_lt env np) (concat (map cursor_rows (take i cs) @ (cursor_row (cs ! i) # cursor_rows (advance_row env (cs ! i))) #
      map cursor_rows (drop (Suc i) cs))) =
    cursor_row (cs ! i) # stable_sort (window_lt env np) (concat (map cursor_rows (take i cs) @ cursor_rows (advance_row env (cs ! i)) #
      map cursor_rows (drop (Suc i) cs)))"
  proof (rule window_rows.merge_first)
    fix r
    assume "r \<in> set (map cursor_rows (take i cs)) \<union> set (map cursor_rows (drop (Suc i) cs))"
    then show "sorted_wrt (\<lambda>x y. \<not> (window_lt env np) y x) r" using ok(2) by (auto dest: in_set_takeD in_set_dropD)
  next
    show "sorted_wrt (\<lambda>x y. \<not> (window_lt env np) y x) (cursor_row (cs ! i) # cursor_rows (advance_row env (cs ! i)))"
      using ok(2) [OF ci] by (simp add: split)
  next
    fix r
    assume "r \<in> set (map cursor_rows (take i cs))" "r \<noteq> []"
    then obtain j where "j < i" "r = cursor_rows (cs ! j)" by (auto simp: in_set_conv_nth)
    then show "(window_lt env np) (cursor_row (cs ! i)) (hd r)"
      using head [of j] i assms(2) \<open>r \<noteq> []\<close> by (simp add: best_among_def)
  next
    fix r
    assume "r \<in> set (map cursor_rows (drop (Suc i) cs))" "r \<noteq> []"
    then obtain d where d: "d \<in> set (drop (Suc i) cs)" "r = cursor_rows d" by auto
    then obtain j where "j < length cs - Suc i" "d = cs ! (Suc i + j)" by (auto simp: in_set_conv_nth)
    then have "Suc i + j < length cs" "r = cursor_rows (cs ! (Suc i + j))" using d(2) by simp_all
    then show "\<not> (window_lt env np) (hd r) (cursor_row (cs ! i))"
      using head [of "Suc i + j"] assms(2) \<open>r \<noteq> []\<close> by (simp add: best_among_def)
  qed
  then show "stable_sort (window_lt env np) (concat (map cursor_rows cs)) =
      cursor_row (cs ! i) # stable_sort (window_lt env np) (concat (map cursor_rows (cs[i := advance_row env (cs ! i)])))"
    unfolding cs split by (simp add: upd_conv_take_nth_drop [OF i(1)])
  have "set (cursor_rows (advance_row env (cs ! i))) \<subseteq> set rows"
    "sorted_wrt (\<lambda>a b. \<not> (window_lt env np) b a) (cursor_rows (advance_row env (cs ! i)))"
    using assms(1) ci ok(2) [OF ci] unfolding cursors_ok_def split [symmetric] by (force simp: split)+
  moreover have "cursor_ok w (advance_row env (cs ! i))" by (rule advance_row_ok [OF ok(1) [OF ci] i(2) weight])
  ultimately show "cursors_ok env np rows w (cs[i := advance_row env (cs ! i)])"
    using assms(1) unfolding cursors_ok_def by (auto dest!: set_update_subset_insert [THEN subsetD])
qed

section \<open>The merge\<close>

definition rest_rows ::
  "'b WindowEnv \<Rightarrow> nat \<Rightarrow> 'b WindowGroupOperator \<Rightarrow> 'b WindowRow list" where
  "rest_rows env np op = stable_sort (window_lt env np) (concat (map cursor_rows (wo_cursors op)))"

text \<open>
  What holds between the rounds: the closed partitions, the open one and the rows still in the runs are the
  sorted input; the closed ones are evaluated, emitted or pending.
\<close>

definition merge_ok ::
  "'b WindowEnv \<Rightarrow> nat \<Rightarrow> 'b WindowRow list \<Rightarrow> nat \<Rightarrow> 'b list \<Rightarrow> 'b WindowGroupOperator \<Rightarrow> 'b WindowRow list \<Rightarrow> bool" where
  "merge_ok env np rows w sent op closed \<longleftrightarrow>
     wo_merging op \<and> cursors_ok env np rows w (wo_cursors op) \<and>
     (all_rows env np rows) = closed @ wo_partition op @ rest_rows env np op \<and>
     window_result env closed = Inr (sent @ concat (wo_pending op)) \<and>
     wo_pending_rows op = length (concat (wo_pending op)) \<and>
     (\<forall>x\<in>set closed. \<forall>y\<in>set (wo_partition op @ rest_rows env np op). partition_before np x y) \<and>
     (\<forall>x\<in>set (wo_partition op). \<forall>y\<in>set (wo_partition op). \<not> partition_before np x y) \<and>
     wo_partition_bytes op \<le> w * length (wo_partition op)"

definition too_large ::
  "'b WindowEnv \<Rightarrow> nat \<Rightarrow> 'b WindowRow list \<Rightarrow> nat \<Rightarrow> bool" where
  "too_large env np rows w \<longleftrightarrow> (\<exists>r\<in>set rows. we_budget env < w * length (filter (\<lambda>s. \<not> partition_before np r s \<and> \<not> partition_before np s r) rows))"

definition merge_fails ::
  "'b WindowEnv \<Rightarrow> nat \<Rightarrow> 'b WindowRow list \<Rightarrow> nat \<Rightarrow> exn \<Rightarrow> bool" where
  "merge_fails env np rows w e \<longleftrightarrow> (\<exists>e'. window_result env (all_rows env np rows) = Inl e') \<or> (e = partition_too_large (we_budget env) \<and> (too_large env np rows w))"

lemma all_rows_sorted:
  "sorted_wrt (\<lambda>a b. \<not> (window_lt env np) b a) (all_rows env np rows)"
  by (simp add: all_rows_def window_rows.sorted)

lemma evaluated_prefix:
  assumes input: "window_input env np rows w"
    and "all_rows env np rows = p @ q @ r" and "\<And>x y. x \<in> set p \<Longrightarrow> y \<in> set q \<Longrightarrow> partition_before np x y"
  shows "outcome (window_result env (p @ q)) = outcome (appendE (window_result env p) (window_result env q))"
  supply assms = assms(2-)
  supply all_rows_mset = all_rows_mset [of env np rows]
  supply evaluated_parts = evaluated_parts [OF input]
  supply all_rows_sorted = all_rows_sorted [of np env rows]
proof (cases "p = [] \<or> q = []")
  case True
  then show ?thesis by (auto simp: window_result_def appendE_def split: sum.splits)
next
  case False
  have "sorted_wrt (\<lambda>a b. \<not> (window_lt env np) b a) ((p @ q) @ r)" using all_rows_sorted assms(1) by simp
  then have "sorted_wrt (\<lambda>a b. \<not> (window_lt env np) b a) (p @ q)" by (simp only: sorted_wrt_append [of _ "p @ q" r])
  moreover have "set (p @ q) \<subseteq> set rows" "length (p @ q) \<le> length rows"
    unfolding all_rows_mset [symmetric] assms(1) by auto
  ultimately have "outcome (evaluated_output env (p @ q)) = outcome (appendE (evaluated_output env p) (evaluated_output env q))"
    using assms(2) by (rule evaluated_parts)
  then show ?thesis using False by (simp add: window_result_def)
qed

text \<open>Closing the partition when every row left belongs to a later one.\<close>

lemma close_step:
  assumes input: "window_input env np rows w"
    and "merge_ok env np rows w sent op closed" and "\<And>x y. x \<in> set (wo_partition op) \<Longrightarrow> y \<in> set (rest_rows env np op) \<Longrightarrow> partition_before np x y"
  shows "case closePartition env op of
      Inl e \<Rightarrow> merge_fails env np rows w e
    | Inr op' \<Rightarrow> merge_ok env np rows w sent op' (closed @ wo_partition op) \<and> wo_partition op' = [] \<and> wo_cursors op' = wo_cursors op"
  supply assms = assms(2-)
  supply evaluated_prefix = evaluated_prefix [OF input]
proof (cases "wo_partition op = []")
  case True
  then show ?thesis using assms(1) by (simp add: closePartition_def)
next
  case False
  let ?p = "wo_partition op"
  have p: "window_result env ?p = evaluated_output env ?p" using False by (simp add: window_result_def)
  have ok: "all_rows env np rows = closed @ ?p @ rest_rows env np op" "window_result env closed = Inr (sent @ concat (wo_pending op))"
    "\<And>x y. x \<in> set closed \<Longrightarrow> y \<in> set ?p \<Longrightarrow> partition_before np x y" "\<And>x y. x \<in> set closed \<Longrightarrow> y \<in> set (rest_rows env np op) \<Longrightarrow> partition_before np x y"
    using assms(1) by (simp_all add: merge_ok_def)
  note parts = evaluated_prefix [OF ok(1,3)]
  show ?thesis
  proof (cases "evaluated_output env ?p")
    case (Inl e)
    have "outcome (window_result env ((closed @ ?p) @ rest_rows env np op)) =
        outcome (appendE (window_result env (closed @ ?p)) (window_result env (rest_rows env np op)))"
      by (rule evaluated_prefix [where r = "[]"]) (use ok assms(2) in auto)
    moreover have "outcome (window_result env (closed @ ?p)) = None" using parts Inl ok(2) p by simp
    ultimately have "outcome (window_result env (all_rows env np rows)) = None" using ok(1) by (simp add: outcome_appendE)
    then show ?thesis using False Inl by (simp add: closePartition_def merge_fails_def outcome_None)
  next
    case (Inr out)
    then have "window_result env (closed @ ?p) = Inr (sent @ concat (wo_pending op) @ out)"
      using parts ok(2) p by (simp add: outcome_Some)
    moreover define op' where "op' = op\<lparr>wo_partition := [], wo_partition_bytes := 0,
      wo_pending := wo_pending op @ [out], wo_pending_rows := wo_pending_rows op + length out\<rparr>"
    moreover have "rest_rows env np op' = rest_rows env np op" by (simp add: op'_def rest_rows_def)
    ultimately have "merge_ok env np rows w sent op' (closed @ ?p)"
      using assms ok by (auto simp: merge_ok_def)
    then show ?thesis using False Inr by (simp add: closePartition_def op'_def)
  qed
qed

lemma same_partition_of_last:
  assumes input: "window_input env np rows w"
    and "merge_ok env np rows w sent op closed" and "wo_partition op \<noteq> []" and "rest_rows env np op = x # rest"
  shows "\<exists>order. comparePartition x (last (wo_partition op)) = Inr order \<and>
    (order = 0 \<longrightarrow> (\<forall>p\<in>set (wo_partition op). \<not> partition_before np p x \<and> \<not> partition_before np x p)) \<and>
    (order \<noteq> 0 \<longrightarrow> (\<forall>p\<in>set (wo_partition op). \<forall>y\<in>set (rest_rows env np op). partition_before np p y))"
  supply assms = assms(2-)
  supply all_rows_mset = all_rows_mset [of env np rows]
  supply comparePartition_rows = comparePartition_rows [OF input]
  supply all_rows_sorted = all_rows_sorted [of np env rows]
proof -
  let ?l = "last (wo_partition op)"
  have all: "all_rows env np rows = closed @ wo_partition op @ x # rest" and l: "?l \<in> set (wo_partition op)"
    using assms by (simp_all add: merge_ok_def)
  have tied: "\<not> partition_before np p ?l" "\<not> partition_before np ?l p" if "p \<in> set (wo_partition op)" for p
    using assms(1) that l by (auto simp: merge_ok_def)
  have sorted: "\<not> (window_lt env np) x p" if "p \<in> set (wo_partition op)" for p
    using all_rows_sorted that unfolding all by (auto simp: sorted_wrt_append)
  have later: "y = x \<or> \<not> (window_lt env np) y x" if "y \<in> set (rest_rows env np op)" for y
    using all_rows_sorted that assms(3) unfolding all by (auto simp: sorted_wrt_append)
  have "set (all_rows env np rows) = set rows" by (rule all_rows_mset)
  then have "x \<in> set rows" "?l \<in> set rows" using all l by auto
  then obtain order where o: "comparePartition x ?l = Inr order" "order = 0 \<longleftrightarrow> \<not> partition_before np x ?l \<and> \<not> partition_before np ?l x"
    by (rule comparePartition_rows)
  have zero: "\<not> partition_before np p x \<and> \<not> partition_before np x p" if "order = 0" "p \<in> set (wo_partition op)" for p
    using o(2) that tied [OF that(2)] PB_order(2) by blast
  have other: "partition_before np p y" if "order \<noteq> 0" "p \<in> set (wo_partition op)" "y \<in> set (rest_rows env np op)" for p y
  proof -
    have "\<not> partition_before np x ?l" using sorted [OF l] by (simp add: window_before_def)
    then have "partition_before np ?l x" using o(2) that(1) by blast
    then have "partition_before np p x" using tied [OF that(2)] PB_order(2) by blast
    then show ?thesis using later [OF that(3)] PB_order(2) by (auto simp: window_before_def)
  qed
  show ?thesis using o(1) zero other by blast
qed

lemma merge_step:
  assumes input: "window_input env np rows w"
    and ok: "merge_ok env np rows w sent op closed" and best: "best_among env np (wo_cursors op) (length (wo_cursors op)) (Some i)"
  shows "case merge_row env op i of Inl e \<Rightarrow> merge_fails env np rows w e | Inr op' \<Rightarrow> \<exists>closed'. merge_ok env np rows w sent op' closed'"
  supply all_rows_mset = all_rows_mset [of env np rows]
  supply rest_first = rest_first [OF input]
  supply close_step = close_step [OF input]
  supply same_partition_of_last = same_partition_of_last [OF input]
proof -
  let ?c = "wo_cursors op ! i" and ?cs' = "(wo_cursors op)[i := advance_row env (wo_cursors op ! i)]"
  define x rest where "x = cursor_row ?c" and "rest = stable_sort (window_lt env np) (concat (map cursor_rows ?cs'))"
  have cs: "cursors_ok env np rows w (wo_cursors op)" using ok by (simp add: merge_ok_def)
  note first = rest_first [OF cs best]
  have rest: "rest_rows env np op = x # rest" using first(1) by (simp add: rest_rows_def x_def rest_def)
  have bytes: "rc_row_bytes ?c \<le> w"
  proof -
    have i: "i < length (wo_cursors op)" "rc_batch ?c \<noteq> None" using best by (simp_all add: best_among_def)
    then have "cursor_ok w ?c" using cs by (simp add: cursors_ok_def)
    then show ?thesis using i(2) by (auto simp: cursor_ok_def)
  qed
  let ?close = "if wo_partition op = [] then Inr op
    else case comparePartition x (last (wo_partition op)) of
        Inl e \<Rightarrow> Inl e
      | Inr order \<Rightarrow> if order \<noteq> 0 then closePartition env op else Inr op"
  have close: "case ?close of
      Inl e \<Rightarrow> merge_fails env np rows w e
    | Inr op1 \<Rightarrow> \<exists>closed1. merge_ok env np rows w sent op1 closed1 \<and> wo_cursors op1 = wo_cursors op \<and>
        (\<forall>p\<in>set (wo_partition op1). \<not> partition_before np p x \<and> \<not> partition_before np x p)"
  proof (cases "wo_partition op = []")
    case True
    then show ?thesis using ok by auto
  next
    case False
    obtain order where o: "comparePartition x (last (wo_partition op)) = Inr order"
      "order = 0 \<longrightarrow> (\<forall>p\<in>set (wo_partition op). \<not> partition_before np p x \<and> \<not> partition_before np x p)"
      "order \<noteq> 0 \<longrightarrow> (\<forall>p\<in>set (wo_partition op). \<forall>y\<in>set (rest_rows env np op). partition_before np p y)"
      using same_partition_of_last [OF ok False rest] by blast
    show ?thesis
    proof (cases "order = 0")
      case True
      then show ?thesis using ok o False by auto
    next
      case ne: False
      have "partition_before np p y" if "p \<in> set (wo_partition op)" "y \<in> set (rest_rows env np op)" for p y using o(3) ne that by blast
      then show ?thesis using close_step [OF ok] o(1) ne False by (auto split: sum.splits)
    qed
  qed
  show ?thesis
  proof (cases ?close)
    case (Inl e)
    then have "merge_row env op i = Inl e" unfolding merge_row_def Let_def x_def by simp
    then show ?thesis using close Inl by simp
  next
    case (Inr op1)
    then obtain closed1 where op1: "merge_ok env np rows w sent op1 closed1" "wo_cursors op1 = wo_cursors op"
      "\<And>p. p \<in> set (wo_partition op1) \<Longrightarrow> \<not> partition_before np p x \<and> \<not> partition_before np x p"
      using close by auto
    define op2 where "op2 = op1\<lparr>wo_partition := wo_partition op1 @ [x],
      wo_partition_bytes := wo_partition_bytes op1 + rc_row_bytes ?c\<rparr>"
    have row: "merge_row env op i = (if wo_partition_bytes op2 > we_budget env then Inl (partition_too_large (we_budget env))
        else Inr (op2\<lparr>wo_cursors := ?cs'\<rparr>))"
      using Inr op1(2) unfolding merge_row_def Let_def x_def op2_def by simp
    have rest1: "rest_rows env np op1 = x # rest" using rest op1(2) by (simp add: rest_rows_def)
    have all: "all_rows env np rows = closed1 @ wo_partition op2 @ rest" using op1(1) rest1 by (simp add: merge_ok_def op2_def)
    have weigh: "wo_partition_bytes op2 \<le> w * length (wo_partition op2)"
      using op1(1) bytes by (simp add: merge_ok_def op2_def)
    show ?thesis
    proof (cases "wo_partition_bytes op2 > we_budget env")
      case True
      let ?same = "\<lambda>s. \<not> partition_before np x s \<and> \<not> partition_before np s x"
      have "length (wo_partition op2) \<le> length (filter ?same (all_rows env np rows))"
      proof -
        have "filter ?same (wo_partition op2) = wo_partition op2"
          using op1(3) PB_order(3) by (auto simp: op2_def filter_id_conv)
        then show ?thesis by (simp add: all)
      qed
      also have "\<dots> = length (filter ?same rows)"
      proof -
        have "mset (filter ?same (all_rows env np rows)) = mset (filter ?same rows)" by (simp add: all_rows_def)
        then show ?thesis by (rule mset_eq_length)
      qed
      finally have "we_budget env < w * length (filter ?same rows)"
      proof -
        assume "length (wo_partition op2) \<le> length (filter ?same rows)"
        then have "w * length (wo_partition op2) \<le> w * length (filter ?same rows)" by (rule mult_le_mono2)
        then show ?thesis using True weigh by linarith
      qed
      moreover have "x \<in> set rows" using all all_rows_mset(1) by (auto simp: op2_def)
      ultimately show ?thesis using row True by (auto simp: merge_fails_def too_large_def)
    next
      case False
      have "merge_ok env np rows w sent (op2\<lparr>wo_cursors := ?cs'\<rparr>) closed1"
        unfolding merge_ok_def
      proof (intro conjI)
        show "all_rows env np rows = closed1 @ wo_partition (op2\<lparr>wo_cursors := ?cs'\<rparr>) @ rest_rows env np (op2\<lparr>wo_cursors := ?cs'\<rparr>)"
          using all by (simp add: rest_rows_def rest_def)
        have "set (wo_partition op2 @ rest) = set (wo_partition op1 @ rest_rows env np op1)" by (auto simp: op2_def rest1)
        then show "\<forall>a\<in>set closed1. \<forall>b\<in>set (wo_partition (op2\<lparr>wo_cursors := ?cs'\<rparr>) @ rest_rows env np (op2\<lparr>wo_cursors := ?cs'\<rparr>)). partition_before np a b"
          using op1(1) by (simp add: merge_ok_def rest_rows_def rest_def)
        show "\<forall>a\<in>set (wo_partition (op2\<lparr>wo_cursors := ?cs'\<rparr>)). \<forall>b\<in>set (wo_partition (op2\<lparr>wo_cursors := ?cs'\<rparr>)). \<not> partition_before np a b"
          using op1(1,3) PB_order(3) by (simp add: merge_ok_def op2_def)
      qed (use op1(1) weigh first(2) in \<open>simp_all add: merge_ok_def op2_def\<close>)
      then show ?thesis using row False by auto
    qed
  qed
qed

lemma flush_step:
  assumes "merge_ok env np rows w sent op closed" and "flushPending op = (Some b, op')"
  shows "merge_ok env np rows w (sent @ b) op' closed"
proof -
  have "rest_rows env np op' = rest_rows env np op" using assms(2) by (auto simp: flushPending_def rest_rows_def)
  then show ?thesis using assms by (auto simp: merge_ok_def flushPending_def)
qed

lemma next_step:
  assumes input: "window_input env np rows w"
    and "merge_ok env np rows w sent op closed"
  shows "case nextMerged env op of
      Inl e \<Rightarrow> merge_fails env np rows w e
    | Inr (None, _) \<Rightarrow> window_result env (all_rows env np rows) = Inr sent
    | Inr (Some b, op') \<Rightarrow> \<exists>closed'. merge_ok env np rows w (sent @ b) op' closed'"
  supply assms = assms(2-)
  supply best_cursor_among = best_cursor_among [OF input]
  supply close_step = close_step [OF input]
  supply merge_step = merge_step [OF input]
  using assms
proof (induction "sum_list (map cursor_left (wo_cursors op))" arbitrary: op closed rule: less_induct)
  case less
  have flush: "\<exists>b op'. flushPending op1 = (Some b, op')" for op1 :: "'b WindowGroupOperator"
    by (simp add: flushPending_def)
  show ?case
  proof (cases "wo_pending_rows op \<ge> batch_rows")
    case True
    obtain b op' where f: "flushPending op = (Some b, op')" using flush by blast
    have "\<exists>closed'. merge_ok env np rows w (sent @ b) op' closed'" using flush_step [OF less(2) f] by blast
    then show ?thesis using True f by (subst nextMerged.simps) simp
  next
    case False
    have cs: "cursors_ok env np rows w (wo_cursors op)" using less(2) by (simp add: merge_ok_def)
    obtain best where best: "best_cursor (we_descending env) (wo_cursors op) = Inr best"
        "best_among env np (wo_cursors op) (length (wo_cursors op)) best"
      using best_cursor_among [OF cs order_refl] by (auto simp: best_cursor_def)
    show ?thesis
    proof (cases best)
      case None
      have "cursor_rows c = []" if "c \<in> set (wo_cursors op)" for c
        using best(2) that None by (auto simp: best_among_def in_set_conv_nth cursor_rows_def)
      then have none: "concat (map cursor_rows (wo_cursors op)) = []" by auto
      then have rest: "rest_rows env np op = []" unfolding rest_rows_def none by simp
      show ?thesis
      proof (cases "closePartition env op")
        case (Inl e)
        then show ?thesis using close_step [OF less(2)] rest False best(1) None by (subst nextMerged.simps) simp
      next
        case (Inr op1)
        then have op1: "merge_ok env np rows w sent op1 (closed @ wo_partition op)" "wo_partition op1 = []" "wo_cursors op1 = wo_cursors op"
          using close_step [OF less(2)] rest by simp_all
        have "window_result env (all_rows env np rows) = Inr sent" if "wo_pending_rows op1 = 0"
          using op1(1,2) that unfolding merge_ok_def rest_rows_def op1(3) none by simp
        moreover obtain b op' where f: "flushPending op1 = (Some b, op')" using flush by blast
        moreover have "\<exists>closed'. merge_ok env np rows w (sent @ b) op' closed'" using flush_step [OF op1(1) f] by blast
        ultimately show ?thesis using Inr False best(1) None by (subst nextMerged.simps) simp
      qed
    next
      case (Some i)
      note step = merge_step [OF less(2) best(2) [unfolded Some]]
      show ?thesis
      proof (cases "merge_row env op i")
        case (Inl e)
        then show ?thesis using step False best(1) Some by (subst nextMerged.simps) simp
      next
        case (Inr op1)
        then obtain closed1 where op1: "merge_ok env np rows w sent op1 closed1" using step by auto
        have "sum_list (map cursor_left (wo_cursors op1)) < sum_list (map cursor_left (wo_cursors op))"
          by (rule merge_row_keeps(2) [OF Inr]) (use best(2) Some in \<open>simp_all add: best_among_def\<close>)
        from less(1) [OF this op1] show ?thesis
          using Inr False best(1) Some by (subst nextMerged.simps) simp
      qed
    qed
  qed
qed

lemma drain_step:
  assumes input: "window_input env np rows w"
    and "merge_ok env np rows w sent op closed"
  shows "case drain_window env op of
      Inl e \<Rightarrow> merge_fails env np rows w e
    | Inr batches \<Rightarrow> window_result env (all_rows env np rows) = Inr (sent @ concat batches)"
  supply assms = assms(2-)
  supply next_step = next_step [OF input]
  using assms
proof (induction "window_left op" arbitrary: op sent closed rule: less_induct)
  case less
  have pull: "window_next env op = nextMerged env op" using less(2) by (simp add: window_next_def merge_ok_def)
  note step = next_step [OF less(2)]
  show ?case
  proof (cases "nextMerged env op")
    case (Inl e)
    then show ?thesis using step pull by (subst drain_window.simps) simp
  next
    case (Inr r)
    obtain b op1 where r: "r = (b, op1)" by (cases r)
    show ?thesis
    proof (cases b)
      case None
      then show ?thesis using step pull Inr r by (subst drain_window.simps) simp
    next
      case (Some batch)
      then obtain closed1 where op1: "merge_ok env np rows w (sent @ batch) op1 closed1" using step Inr r by auto
      have "window_left op1 < window_left op"
        by (rule window_next_left [of env op batch]) (use pull Inr r Some in simp)
      from less(1) [OF this op1] show ?thesis
        using Inr r Some pull by (subst drain_window.simps) (auto split: sum.splits)
    qed
  qed
qed

section \<open>Input\<close>

text \<open>The operator while it consumes: the runs are the sorted chunks of the rows before the buffer.\<close>

definition consumed ::
  "'b WindowEnv \<Rightarrow> nat \<Rightarrow> 'b WindowGroupOperator \<Rightarrow> 'b WindowRow list list \<Rightarrow> bool" where
  "consumed env np op chunks \<longleftrightarrow>
     wo_runs op = map (\<lambda>c. slice_rows (stable_sort (window_lt env np) c)) chunks \<and> (chunks \<noteq> [] \<longrightarrow> we_spill env) \<and>
     (\<forall>b\<in>set (wo_buffered op). b \<noteq> []) \<and> \<not> wo_merging op \<and> wo_cursors op = [] \<and> wo_partition op = [] \<and>
     wo_partition_bytes op = 0 \<and> wo_pending op = [] \<and> wo_pending_rows op = 0 \<and> wo_output op = [] \<and> wo_next op = 0"

lemma spill_step:
  assumes input: "window_input env np rows w"
    and "consumed env np op chunks" and "set (concat (wo_buffered op)) \<subseteq> set rows" and "chunks \<noteq> [] \<or> we_spill env"
  obtains op' where "spillRun env op = Inr op'" and "consumed env np op' (chunks @ [concat (wo_buffered op)])" and "wo_buffered op' = []"
  supply assms = assms(2-)
  supply sorted_buffer_rows = sorted_buffer_rows [OF input]
  using assms by (auto simp: spillRun_def sorted_buffer_rows consumed_def)

lemma consume_step:
  assumes input: "window_input env np rows w"
    and "consumed env np op chunks" and "we_evaluate env batch = Inr r" and "batch \<noteq> []" and "r \<noteq> []"
    and "set (concat (wo_buffered op) @ r) \<subseteq> set rows"
  shows "\<exists>op' chunks'. window_consume env op batch = Inr op' \<and> consumed env np op' chunks' \<and>
    concat chunks' @ concat (wo_buffered op') = concat chunks @ concat (wo_buffered op) @ r"
  supply assms = assms(2-)
  supply spill_step = spill_step [OF input]
proof -
  define op1 where "op1 = op\<lparr>wo_buffered_bytes := wo_buffered_bytes op + we_bytes env r, wo_buffered := wo_buffered op @ [r]\<rparr>"
  have c: "consumed env np op1 chunks" using assms(1,4) by (simp add: consumed_def op1_def)
  have step: "window_consume env op batch =
      (if we_spill env \<and> wo_buffered_bytes op1 > we_budget env then spillRun env op1 else Inr op1)"
    using assms(2,3) by (simp add: window_consume_def Let_def op1_def)
  show ?thesis
  proof (cases "we_spill env \<and> wo_buffered_bytes op1 > we_budget env")
    case True
    have "set (concat (wo_buffered op1)) \<subseteq> set rows" using assms(5) by (simp add: op1_def)
    then obtain op' where "spillRun env op1 = Inr op'" "consumed env np op' (chunks @ [concat (wo_buffered op1)])" "wo_buffered op' = []"
      using spill_step [OF c] True by blast
    then show ?thesis using step True by (intro exI [of _ op'] exI [of _ "chunks @ [concat (wo_buffered op1)]"]) (simp add: op1_def)
  next
    case False
    then have "window_consume env op batch = Inr op1" using step by (simp only: if_False)
    then show ?thesis using c by (intro exI [of _ op1] exI [of _ chunks]) (simp add: op1_def)
  qed
qed

lemma consume_all:
  assumes input: "window_input env np rows w"
    and "consumed env np op chunks" and "mapE (we_evaluate env) (filter (\<lambda>b. b \<noteq> []) batches) = Inr evaluated"
    and "\<And>b r. we_evaluate env b = Inr r \<Longrightarrow> length r = length b"
    and "set (concat chunks @ concat (wo_buffered op) @ concat evaluated) \<subseteq> set rows"
  shows "\<exists>op' chunks'. foldE (window_consume env) op batches = Inr op' \<and> consumed env np op' chunks' \<and>
    concat chunks' @ concat (wo_buffered op') = concat chunks @ concat (wo_buffered op) @ concat evaluated"
  supply assms = assms(2-)
  supply consume_step = consume_step [OF input]
  using assms(1,2,4)
proof (induction batches arbitrary: op chunks evaluated)
  case Nil
  then show ?case by auto
next
  case (Cons b batches)
  show ?case
  proof (cases "b = []")
    case True
    then show ?thesis using Cons by (simp add: window_consume_def)
  next
    case False
    then obtain r rs where r: "we_evaluate env b = Inr r" "mapE (we_evaluate env) (filter (\<lambda>b. b \<noteq> []) batches) = Inr rs"
        "evaluated = r # rs"
      using Cons.prems(2) by (auto split: sum.splits)
    have "r \<noteq> []" using assms(3) [OF r(1)] False by auto
    then obtain op1 chunks1 where op1: "window_consume env op b = Inr op1" "consumed env np op1 chunks1"
      "concat chunks1 @ concat (wo_buffered op1) = concat chunks @ concat (wo_buffered op) @ r"
      using consume_step [OF Cons.prems(1) r(1) False] Cons.prems(3) r(3) by auto
    have "set (concat chunks1 @ concat (wo_buffered op1) @ concat rs) = set (concat chunks @ concat (wo_buffered op) @ concat evaluated)"
      unfolding append_assoc [symmetric] set_append [of _ "concat rs"] op1(3) r(3) by auto
    then have "set (concat chunks1 @ concat (wo_buffered op1) @ concat rs) \<subseteq> set rows" using Cons.prems(3) by simp
    from Cons.IH [OF op1(2) r(2) this] show ?thesis using op1(1,3) r(3) by simp (metis append_assoc)
  qed
qed

lemma drain_output:
  "\<not> wo_merging op \<Longrightarrow> drain_window env op = Inr (drop (wo_next op) (wo_output op))"
proof (induction "window_left op" arbitrary: op rule: less_induct)
  case less
  show ?case
  proof (cases "wo_next op < length (wo_output op)")
    case True
    have "drain_window env (op\<lparr>wo_next := wo_next op + 1\<rparr>) = Inr (drop (Suc (wo_next op)) (wo_output op))"
      using less(1) [of "op\<lparr>wo_next := wo_next op + 1\<rparr>"] less(2) True by (simp add: window_left_def)
    then show ?thesis
      using True less(2) by (subst drain_window.simps) (simp add: window_next_def drop_cons_nth)
  next
    case False
    then show ?thesis using less(2) by (subst drain_window.simps) (simp add: window_next_def)
  qed
qed

lemma finish_spilled:
  assumes input: "window_input env np rows w"
    and "consumed env np op chunks" and "concat chunks @ concat (wo_buffered op) = rows" and "chunks \<noteq> []"
  shows "\<exists>op'. finishInput env op = Inr op' \<and> merge_ok env np rows w [] op' []"
  supply assms = assms(2-)
  supply weight = window_inputD(3) [OF input]
  supply spill_step = spill_step [OF input]
proof -
  have spill: "we_spill env" using assms(1,3) by (simp add: consumed_def)
  obtain op1 chunks1 where op1: "(if wo_buffered op \<noteq> [] then spillRun env op else Inr op) = Inr op1" "consumed env np op1 chunks1"
    "concat chunks1 = rows"
  proof (cases "wo_buffered op = []")
    case True
    then show ?thesis using that [of op chunks] assms by simp
  next
    case False
    have "set (concat (wo_buffered op)) \<subseteq> set rows" by (simp add: assms(2) [symmetric])
    then obtain op' where "spillRun env op = Inr op'" "consumed env np op' (chunks @ [concat (wo_buffered op)])"
      using spill_step [OF assms(1)] spill by blast
    then show ?thesis using that [of op' "chunks @ [concat (wo_buffered op)]"] assms(2) False by simp
  qed
  define op' where "op' = op1\<lparr>wo_cursors := filter (\<lambda>c. rc_batch c \<noteq> None) (map (open_cursor env) (wo_runs op1)), wo_merging := True\<rparr>"
  have runs: "wo_runs op \<noteq> []" using assms(1,3) by (simp add: consumed_def)
  have finish: "finishInput env op = Inr op'"
    using runs op1(1,2) by (simp add: finishInput_def op'_def consumed_def)
  have rows_of: "cursor_rows (open_cursor env (slice_rows c)) = c" for c
    by (simp add: open_cursor_def advanceBatch_rows)
  have ok: "cursor_ok w (open_cursor env run)" for run
    unfolding open_cursor_def by (rule advanceBatch_ok [OF weight])
  have none: "cursor_rows (open_cursor env run) = []" if "rc_batch (open_cursor env run) = None" for run
    using that by (simp add: cursor_rows_def)
  have drop: "concat (map cursor_rows (filter (\<lambda>c. rc_batch c \<noteq> None) cs)) = concat (map cursor_rows cs)" for cs :: "'b RunCursor list"
    by (induction cs) (auto simp: cursor_rows_def split: option.splits)
  have "concat (map cursor_rows (wo_cursors op')) = concat (map (stable_sort (window_lt env np)) chunks1)"
  proof -
    have cursors: "wo_cursors op' = filter (\<lambda>c. rc_batch c \<noteq> None) (map (open_cursor env) (wo_runs op1))" by (simp add: op'_def)
    show ?thesis unfolding cursors drop using op1(2) by (simp add: consumed_def o_def rows_of)
  qed
  then have rest: "rest_rows env np op' = (all_rows env np rows)"
    using op1(3) by (simp add: rest_rows_def all_rows_def window_rows.sort_parts)
  have "cursors_ok env np rows w (wo_cursors op')"
    using op1(2,3) ok by (auto simp: cursors_ok_def op'_def consumed_def rows_of window_rows.sorted)
  then have "merge_ok env np rows w [] op' []"
    using op1(2) rest by (simp add: merge_ok_def op'_def consumed_def window_result_def)
  then show ?thesis using finish by blast
qed

lemma finish_memory:
  assumes input: "window_input env np rows w"
    and "consumed env np op []" and "concat (wo_buffered op) = rows"
  shows "case finishInput env op of
      Inl e \<Rightarrow> window_result env (all_rows env np rows) = Inl e
    | Inr op' \<Rightarrow> \<not> wo_merging op' \<and> wo_next op' = 0 \<and> window_result env (all_rows env np rows) = Inr (concat (wo_output op'))"
  supply assms = assms(2-)
  supply all_rows_mset = all_rows_mset [of env np rows]
  supply sorted_buffer_rows = sorted_buffer_rows [OF input]
proof (cases "wo_buffered op = []")
  case True
  then have "length rows = 0" by (simp add: assms(2) [symmetric])
  then have "all_rows env np rows = []" using all_rows_mset(2) by (simp only: length_0_conv [symmetric])
  then show ?thesis using assms(1) True by (simp add: finishInput_def consumed_def window_result_def)
next
  case False
  then have "rows \<noteq> []" using assms by (cases "wo_buffered op") (auto simp: consumed_def)
  then have "all_rows env np rows \<noteq> []" using all_rows_mset(2) by auto
  moreover have "sorted_buffer env (concat (wo_buffered op)) = Inr (all_rows env np rows)"
    using sorted_buffer_rows [of rows] assms(2) by (simp add: all_rows_def)
  ultimately show ?thesis
    using assms(1) False by (auto simp: finishInput_def consumed_def window_result_def split: sum.split)
qed

lemma window_output:
  assumes input: "window_input env np rows w"
    and "mapE (we_evaluate env) (filter (\<lambda>b. b \<noteq> []) batches) = Inr evaluated"
    and "\<And>b r. we_evaluate env b = Inr r \<Longrightarrow> length r = length b" and "concat evaluated = rows"
  shows "case applyWindow [env] batches of
      Inl e \<Rightarrow> (\<exists>e'. window_result env (all_rows env np rows) = Inl e') \<or>
        (we_spill env \<and> e = partition_too_large (we_budget env) \<and> (too_large env np rows w))
    | Inr out \<Rightarrow> window_result env (all_rows env np rows) = Inr (concat out)"
  supply assms = assms(2-)
  supply drain_step = drain_step [OF input]
  supply consume_all = consume_all [OF input]
  supply drain_output = drain_output [where env = env]
  supply finish_spilled = finish_spilled [OF input]
  supply finish_memory = finish_memory [OF input]
proof -
  have "consumed env np new_window_group []" by (simp add: consumed_def new_window_group_def)
  from consume_all [OF this assms(1,2)] assms(3)
  obtain op chunks where op: "foldE (window_consume env) new_window_group batches = Inr op" "consumed env np op chunks"
    "concat chunks @ concat (wo_buffered op) = rows"
    by (auto simp: new_window_group_def)
  show ?thesis
  proof (cases "chunks = []")
    case True
    then show ?thesis
      using finish_memory [of op] op drain_output by (auto simp: applyWindow_def split: sum.splits)
  next
    case False
    then obtain op' where "finishInput env op = Inr op'" "merge_ok env np rows w [] op' []" using finish_spilled [OF op(2,3)] by blast
    moreover have "we_spill env" using False op(2) by (simp add: consumed_def)
    ultimately show ?thesis
      using drain_step [of "[]" op' "[]"] op(1) by (auto simp: applyWindow_def merge_fails_def split: sum.splits)
  qed
qed

section \<open>Properties\<close>


definition ex_numbering :: CallColumns where
  "ex_numbering = (ex_call ''row_number'')\<lparr>cc_call := (cc_call (ex_call ''row_number''))\<lparr>wc_frame := ex_frame\<lparr>wf_rows := True\<rparr>\<rparr>\<rparr>"

definition ex_window :: "OwnedValue list WindowEnv" where
  "ex_window = \<lparr>we_descending = [], we_type = None, we_calls = [ex_numbering], we_sorted_input = False,
     we_spill = True, we_budget = 18, we_bytes = (\<lambda>b. 8 * length b),
     we_evaluate = (\<lambda>b. Inr (map (\<lambda>r. \<lparr>wr_input = r, wr_partition = r, wr_order = [], wr_arguments = [V_NUL],
       wr_defaults = [V_NUL]\<rparr>) b)),
     we_output = (\<lambda>r vs. r @ vs)\<rparr>"

lemma ex_window_result:
  "window_result ex_window (map (\<lambda>b. \<lparr>wr_input = [V_BOOL b], wr_partition = [V_BOOL b], wr_order = [], wr_arguments = [V_NUL],
       wr_defaults = [V_NUL]\<rparr>) [False, False, True, True]) =
   Inr [[V_BOOL False, V_INT 1], [V_BOOL False, V_INT 2], [V_BOOL True, V_INT 1], [V_BOOL True, V_INT 2]]"
  by code_simp

lemma ex_window_input:
  "window_input ex_window 1 (map (\<lambda>b. \<lparr>wr_input = [V_BOOL b], wr_partition = [V_BOOL b], wr_order = [],
     wr_arguments = [V_NUL], wr_defaults = [V_NUL]\<rparr>) bs) 9" if "length bs \<le> 10"
proof -
  have "\<exists>g :: OwnedValue \<Rightarrow> OwnedValue. (\<lambda>vs. vs) = map g" by (intro exI [of _ "\<lambda>v. v"]) (simp add: fun_eq_iff)
  then have "call_ok [] (map (\<lambda>b. \<lparr>wr_input = [V_BOOL b], wr_partition = [V_BOOL b], wr_order = [],
     wr_arguments = [V_NUL], wr_defaults = [V_NUL]\<rparr>) bs) ex_numbering"
    using that by (auto simp: call_ok_def frame_bound_def ex_numbering_def ex_call_def ex_frame_def ranged_def int64_max_def)
  then show ?thesis
    by (auto simp: window_input_def ex_window_def comparable_rows_def comparable_def div_le_dividend less_Suc_eq_le)
qed


end
