(* ===== verification/Window_Scan.thy ===== *)
theory Window_Scan
  imports Time_Windows Batches
begin

text \<open>
  The scan of time windows: the parallel stream of shards
  (\<open>src/query/executor/WindowBackendScanRecordBatchStream.cpp\<close>), the serial loop
  (\<open>fetchTimeSeriesWindows\<close> of \<open>src/query/executor/scan/WideTableScan.cpp\<close>) and the choice of a slice
  width (\<open>autoSliceNs\<close>).  A window is cut into time slices, a slice into groups of series, and every
  group reads one stream of the backend.

  The backend is a parameter: for the predicates of a group, the text of an exception, or the batches it
  delivers and how its stream ends (\<open>None\<close> is the end of the stream).  A \<open>std::future\<close> holds the result of its
  task; as the tasks touch nothing but their own stream, the result is computed when the task is made.
  Cancellation, progress, statistics and the shard trace are left out.
\<close>

section \<open>The width of a slice\<close>

definition slice_steps :: "int list" where
  "slice_steps =
     [5000000000, 10000000000, 30000000000, 60000000000, 300000000000, 600000000000,
      1800000000000, 3600000000000, 86400000000000]"

fun first_step :: "int \<Rightarrow> int list \<Rightarrow> int option" where
  "first_step raw [] = None"
| "first_step raw (s # ss) = (if s \<ge> raw then Some s else first_step raw ss)"

definition autoSliceNs :: "int \<Rightarrow> int" where
  "autoSliceNs window_ns =
     (let raw = max 5000000000 (cpp_div window_ns 10) in
      case first_step raw slice_steps of Some s \<Rightarrow> s | None \<Rightarrow> last slice_steps)"

section \<open>Groups\<close>

type_synonym bstream = "batch list \<times> string option"

record ScanEnv =
  sv_pushable :: "Predicate list"
  sv_slice_ns :: int
  sv_series_per_shard :: nat
  sv_qualify_output :: bool
  sv_table_alias :: string
  sv_max_concurrent_streams :: nat
  sv_max_parallel_requests :: nat
  sv_gfi :: lookup
  sv_open :: "Predicate list \<Rightarrow> string + bstream"

record Group =
  gr_index :: nat
  gr_slice_index :: nat
  gr_begin_ns :: int
  gr_end_ns :: int
  gr_final_slice :: bool
  gr_predicates :: "Predicate list"
  gr_stream :: "bstream option"
  gr_next :: "(string + batch option \<times> bstream) option"

record WindowScan =
  sc_windows :: "window list"
  sc_requested_pvs :: "string list"
  sc_groups :: "Group list"
  sc_group_index :: nat
  sc_next_group_to_start :: nat
  sc_parallel_shard_limit :: nat
  sc_window_index :: nat
  sc_window_begin_ns :: int
  sc_window_end_ns :: int
  sc_slice_begin_ns :: int
  sc_slice_end_ns :: int
  sc_final_slice :: bool

fun string_values :: "literal list \<Rightarrow> string list" where
  "string_values [] = []"
| "string_values (Lit_String s # vs) = s # string_values vs"
| "string_values (v # vs) = string_values vs"

text \<open>The series of the predicates, in their order; the loop keeps every occurrence of a name.\<close>

definition requestedPvs :: "Predicate list \<Rightarrow> string list" where
  "requestedPvs preds =
     concat (map (\<lambda>p. if pr_column p \<noteq> ''pv'' \<or> (pr_op p \<noteq> EQ \<and> pr_op p \<noteq> IN) then []
                      else string_values (pr_values p)) preds)"

fun join_names :: "string list \<Rightarrow> string" where
  "join_names [] = []"
| "join_names [s] = s"
| "join_names (s # ss) = s @ '', '' @ join_names ss"

definition shardDescription :: "nat \<Rightarrow> nat \<Rightarrow> Predicate list \<Rightarrow> nat \<Rightarrow> string" where
  "shardDescription shard_index slice_index preds window_index =
     ''window '' @ to_string (window_index + 1) @ '', slice '' @ to_string slice_index @
     '', shard '' @ to_string shard_index @ '' (PVs: '' @
     join_names (concat (map (\<lambda>p. if pr_column p \<noteq> ''pv'' then [] else string_values (pr_values p)) preds)) @ '')''"

text \<open>The predicates of a group: its series, and the slice in whole seconds.\<close>

definition shard_predicates :: "Predicate list \<Rightarrow> string list \<Rightarrow> int \<Rightarrow> int \<Rightarrow> Predicate list" where
  "shard_predicates pushable pvs begin_ns end_ns =
     filter (\<lambda>p. \<not> (pr_column p = ''time'' \<or> pr_column p = ''pv'')) pushable @
     [\<lparr>pr_column = ''pv'', pr_op = IN, pr_values = map Lit_String pvs\<rparr>,
      \<lparr>pr_column = ''time'', pr_op = GTE, pr_values = [Lit_Int (cpp_div begin_ns 1000000000)]\<rparr>,
      \<lparr>pr_column = ''time'', pr_op = LTE, pr_values = [Lit_Int (cpp_div end_ns 1000000000)]\<rparr>]"

text \<open>
  The offsets of the loop \<open>offset += series_per_shard\<close> with the series of each group.  With 0 series
  per group the loop would not end; the binder accepts positive numbers only, and the default is 1.
\<close>

fun series_groups :: "nat \<Rightarrow> nat \<Rightarrow> string list \<Rightarrow> (nat \<times> string list) list" where
  "series_groups k offset pvs =
     (if pvs = [] \<or> k = 0 then [] else (offset, take k pvs) # series_groups k (offset + k) (drop k pvs))"

declare series_groups.simps [simp del]

text \<open>\<open>stream->next()\<close>, and the two tasks.\<close>

fun pull :: "bstream \<Rightarrow> string + batch option \<times> bstream" where
  "pull (b # bs, fin) = Inr (Some b, (bs, fin))"
| "pull ([], None) = Inr (None, ([], None))"
| "pull ([], Some what) = Inl what"

definition scheduleFirst :: "ScanEnv \<Rightarrow> nat \<Rightarrow> Group \<Rightarrow> Group" where
  "scheduleFirst env window_index g =
     (let description = shardDescription (gr_index g) (gr_slice_index g) (gr_predicates g) window_index;
          fail = (\<lambda>what. Inl (''Window backend scan failed while opening '' @ description @ '': '' @ what)) in
      g\<lparr>gr_next := Some (case sv_open env (gr_predicates g) of
          Inl what \<Rightarrow> fail what
        | Inr stream \<Rightarrow> (case pull stream of Inl what \<Rightarrow> fail what | Inr result \<Rightarrow> Inr result))\<rparr>)"

definition scheduleNext :: "nat \<Rightarrow> Group \<Rightarrow> exn + Group" where
  "scheduleNext window_index g =
     (let description = shardDescription (gr_index g) (gr_slice_index g) (gr_predicates g) window_index in
      case gr_stream g of
        None \<Rightarrow> Inl UndefinedBehaviour
      | Some stream \<Rightarrow>
          Inr (g\<lparr>gr_stream := None,
                 gr_next := Some (case pull stream of
                     Inl what \<Rightarrow> Inl (''Window backend scan failed while reading '' @ description @ '': '' @ what)
                   | Inr result \<Rightarrow> Inr result)\<rparr>))"

section \<open>The stream\<close>

definition selectWindow :: "WindowScan \<Rightarrow> WindowScan" where
  "selectWindow st =
     (case sc_windows st ! sc_window_index st of (b, e) \<Rightarrow>
        st\<lparr>sc_window_begin_ns := b, sc_window_end_ns := e, sc_slice_begin_ns := b, sc_final_slice := False\<rparr>)"

definition slice_groups :: "ScanEnv \<Rightarrow> WindowScan \<Rightarrow> nat \<Rightarrow> int \<Rightarrow> bool \<Rightarrow> Group list" where
  "slice_groups env st slice_index slice_end final =
     map (\<lambda>(offset, values).
        \<lparr>gr_index = offset div sv_series_per_shard env + 1, gr_slice_index = slice_index,
         gr_begin_ns = sc_slice_begin_ns st, gr_end_ns = slice_end, gr_final_slice = final,
         gr_predicates = shard_predicates (sv_pushable env) values (sc_slice_begin_ns st) slice_end,
         gr_stream = None, gr_next = None\<rparr>)
       (series_groups (sv_series_per_shard env) 0 (sc_requested_pvs st))"

definition stream_concurrency :: "ScanEnv \<Rightarrow> nat \<Rightarrow> nat" where
  "stream_concurrency env groups =
     (let capability = max 1 (sv_max_concurrent_streams env);
          requested = (if sv_max_parallel_requests env = 0 then capability
                       else min capability (sv_max_parallel_requests env)) in
      min groups requested)"

text \<open>The body of the loop of \<open>prepareNextSlice\<close> once a window with instants left is selected.\<close>

definition next_slice :: "ScanEnv \<Rightarrow> WindowScan \<Rightarrow> exn + WindowScan" where
  "next_slice env st =
     (case int64 (sc_window_end_ns st - sc_slice_begin_ns st) of
        Inl e \<Rightarrow> Inl e
      | Inr remaining \<Rightarrow>
     (case (if remaining < sv_slice_ns env then Inr (sc_window_end_ns st)
            else int64 (sc_slice_begin_ns st + sv_slice_ns env)) of
        Inl e \<Rightarrow> Inl e
      | Inr slice_end \<Rightarrow>
      (case int64 (sc_slice_begin_ns st - sc_window_begin_ns st) of
        Inl e \<Rightarrow> Inl e
      | Inr elapsed \<Rightarrow>
        if sv_slice_ns env = 0 then Inl UndefinedBehaviour
        else
          let final = (slice_end = sc_window_end_ns st);
              groups = slice_groups env st (nat (cpp_div elapsed (sv_slice_ns env) + 1)) slice_end final;
              concurrency = stream_concurrency env (length groups);
              st1 = st\<lparr>sc_slice_end_ns := slice_end, sc_final_slice := final,
                       sc_groups := map (scheduleFirst env (sc_window_index st)) (take concurrency groups) @
                                    drop concurrency groups,
                       sc_parallel_shard_limit := concurrency, sc_next_group_to_start := concurrency\<rparr> in
          if final then
            (case int64 (sc_window_end_ns st + 1) of
               Inl e \<Rightarrow> Inl e
             | Inr b \<Rightarrow> Inr (st1\<lparr>sc_slice_begin_ns := b\<rparr>))
          else Inr (st1\<lparr>sc_slice_begin_ns := slice_end\<rparr>))))"

function next_window :: "ScanEnv \<Rightarrow> WindowScan \<Rightarrow> exn + WindowScan" where
  "next_window env st =
     (if \<not> sc_window_index st < length (sc_windows st) then Inr st
      else if sc_slice_begin_ns st > sc_window_end_ns st then
        (let st1 = st\<lparr>sc_window_index := sc_window_index st + 1\<rparr> in
         if sc_window_index st1 \<ge> length (sc_windows st1) then Inr st1
         else next_window env (selectWindow st1))
      else next_slice env st)"
  by pat_completeness auto
termination
  by (relation "measure (\<lambda>(env, st). length (sc_windows st) - sc_window_index st)")
    (auto simp: selectWindow_def split: prod.splits)

declare next_window.simps [simp del]

definition prepareNextSlice :: "ScanEnv \<Rightarrow> WindowScan \<Rightarrow> exn + WindowScan" where
  "prepareNextSlice env st = next_window env (st\<lparr>sc_groups := [], sc_group_index := 0\<rparr>)"

text \<open>The local filter of a batch; the upper bound is inclusive in the last slice of a window.\<close>

definition time_bounds :: "int \<Rightarrow> int \<Rightarrow> bool \<Rightarrow> Predicate list" where
  "time_bounds b e final =
     [\<lparr>pr_column = ''time'', pr_op = GTE, pr_values = [Lit_Timestamp b]\<rparr>,
      \<lparr>pr_column = ''time'', pr_op = (if final then LTE else LT), pr_values = [Lit_Timestamp e]\<rparr>]"

definition filter_batch :: "lookup \<Rightarrow> Predicate list \<Rightarrow> batch \<Rightarrow> batch" where
  "filter_batch gfi preds b =
     b\<lparr>b_rows := applyFilter gfi (map fd_name (b_fields b)) (hasUnionColumn b) preds [] (b_rows b)\<rparr>"

definition qualify_output_batch :: "ScanEnv \<Rightarrow> batch \<Rightarrow> batch option" where
  "qualify_output_batch env b =
     (if sv_qualify_output env then qualifyBatchColumns (Some b) (sv_table_alias env) else Some b)"

definition bound_batch :: "ScanEnv \<Rightarrow> Group \<Rightarrow> batch \<Rightarrow> batch option" where
  "bound_batch env g b =
     qualify_output_batch env (filter_batch (sv_gfi env) (time_bounds (gr_begin_ns g) (gr_end_ns g) (gr_final_slice g)) b)"

text \<open>What follows when a group has reached the end of its stream.\<close>

definition group_done :: "ScanEnv \<Rightarrow> WindowScan \<Rightarrow> exn + WindowScan" where
  "group_done env st =
     (let i = sc_group_index st + 1; k = sc_next_group_to_start st;
          st1 = st\<lparr>sc_group_index := i,
                   sc_groups := (sc_groups st)[sc_group_index st := (sc_groups st ! sc_group_index st)\<lparr>gr_stream := None\<rparr>]\<rparr>;
          st2 = (if k < length (sc_groups st1)
                 then st1\<lparr>sc_groups := (sc_groups st1)[k := scheduleFirst env (sc_window_index st1) (sc_groups st1 ! k)],
                          sc_next_group_to_start := k + 1\<rparr>
                 else st1) in
      if i = length (sc_groups st2) then prepareNextSlice env st2 else Inr st2)"

text \<open>\<open>next()\<close>; \<open>None\<close> on the outside is a call that does not return.\<close>

partial_function (option) next_batch ::
  "ScanEnv \<Rightarrow> WindowScan \<Rightarrow> (exn + batch option \<times> WindowScan) option" where
  "next_batch env st =
     (if sc_group_index st \<ge> length (sc_groups st) then Some (Inr (None, st))
      else
        let i = sc_group_index st; group = sc_groups st ! i in
        case (if gr_next group = None then scheduleNext (sc_window_index st) group else Inr group) of
          Inl e \<Rightarrow> Some (Inl e)
        | Inr g \<Rightarrow>
            (case the (gr_next g) of
               Inl what \<Rightarrow>
                 Some (Inl (RuntimeError (''Window backend scan failed while reading '' @
                   shardDescription (gr_index g) (gr_slice_index g) (gr_predicates g) (sc_window_index st) @
                   '': '' @ what)))
             | Inr (pulled, stream) \<Rightarrow>
                 (let st1 = st\<lparr>sc_groups := (sc_groups st)[i := g\<lparr>gr_stream := Some stream, gr_next := None\<rparr>]\<rparr> in
                  case pulled of
                    Some b \<Rightarrow> Some (Inr (bound_batch env g b, st1))
                  | None \<Rightarrow>
                      (case group_done env st1 of
                         Inl e \<Rightarrow> Some (Inl e)
                       | Inr st2 \<Rightarrow> next_batch env st2))))"

text \<open>The constructor.\<close>

definition openWindowScan :: "ScanEnv \<Rightarrow> window list \<Rightarrow> exn + WindowScan" where
  "openWindowScan env windows =
     (if windows = [] then Inl (RuntimeError ''Streaming window scan requires at least one window'')
      else
        let pvs = requestedPvs (sv_pushable env);
            st = selectWindow
              \<lparr>sc_windows = windows, sc_requested_pvs = pvs, sc_groups = [], sc_group_index = 0,
               sc_next_group_to_start = 0, sc_parallel_shard_limit = 0, sc_window_index = 0,
               sc_window_begin_ns = 0, sc_window_end_ns = 0, sc_slice_begin_ns = 0, sc_slice_end_ns = 0,
               sc_final_slice = False\<rparr> in
        if pvs = [] then Inl (RuntimeError ''MLDP time-series window requires a PV predicate'')
        else prepareNextSlice env st)"

section \<open>The serial loop\<close>

definition serial_shard :: "ScanEnv \<Rightarrow> Predicate list \<Rightarrow> int \<Rightarrow> int \<Rightarrow> bool \<Rightarrow> string list \<Rightarrow> exn + batch list" where
  "serial_shard env local_preds b e final values =
     (case sv_open env (shard_predicates (sv_pushable env) values b e) of
        Inl what \<Rightarrow> Inl (RuntimeError what)
      | Inr (bs, Some what) \<Rightarrow> Inl (RuntimeError what)
      | Inr (bs, None) \<Rightarrow>
          let shard_bounds =
                \<lparr>pr_column = ''time'', pr_op = GTE, pr_values = [Lit_Timestamp b]\<rparr> #
                (if final then [] else [\<lparr>pr_column = ''time'', pr_op = LT, pr_values = [Lit_Timestamp e]\<rparr>]);
              bounded = map (filter_batch (sv_gfi env) shard_bounds) bs;
              filtered = (if local_preds = [] then bounded else map (filter_batch (sv_gfi env) local_preds) bounded) in
          Inr (map (the \<circ> qualify_output_batch env) filtered))"

text \<open>
  The loop over the slices of a window, for a positive slice width: the width is either chosen by
  \<open>autoSliceNs\<close> or was accepted by the binder.
\<close>

function serial_slices ::
  "ScanEnv \<Rightarrow> Predicate list \<Rightarrow> string list \<Rightarrow> int \<Rightarrow> int \<Rightarrow> int \<Rightarrow> exn + batch list" where
  "serial_slices env local_preds pvs slice_ns b e =
     (if b > e then Inr []
      else if slice_ns \<le> 0 then Inl UndefinedBehaviour
      else (case int64 (e - b) of
        Inl x \<Rightarrow> Inl x
      | Inr remaining \<Rightarrow>
          let slice_end = (if remaining < slice_ns then e else b + slice_ns); final = (slice_end = e) in
          (case mapE (\<lambda>(offset, values). serial_shard env local_preds b slice_end final values)
                  (series_groups (sv_series_per_shard env) 0 pvs) of
             Inl x \<Rightarrow> Inl x
           | Inr outs \<Rightarrow>
               if final then Inr (concat outs)
               else (case serial_slices env local_preds pvs slice_ns slice_end e of
                  Inl x \<Rightarrow> Inl x
                | Inr rest \<Rightarrow> Inr (concat outs @ rest)))))"
  by pat_completeness auto
termination
  by (relation "measure (\<lambda>(env, ps, pvs, d, b, e). nat (e - b))") (auto simp: int64_def split: if_splits)

declare serial_slices.simps [simp del]

definition serial_window :: "ScanEnv \<Rightarrow> Predicate list \<Rightarrow> string list \<Rightarrow> window \<Rightarrow> exn + batch list" where
  "serial_window env local_preds pvs w =
     (case w of (b, e) \<Rightarrow>
        (case (if sv_slice_ns env = 0 then map_sum id autoSliceNs (int64 (e - b)) else Inr (sv_slice_ns env)) of
           Inl x \<Rightarrow> Inl x
         | Inr slice_ns \<Rightarrow> serial_slices env local_preds pvs slice_ns b e))"

definition fetchTimeSeriesWindows :: "ScanEnv \<Rightarrow> Predicate list \<Rightarrow> window list \<Rightarrow> exn + batch list" where
  "fetchTimeSeriesWindows env local_preds windows =
     (let pvs = requestedPvs (sv_pushable env) in
      if pvs = [] then Inl (RuntimeError ''MLDP time-series window requires a PV predicate'')
      else map_sum id concat (mapE (serial_window env local_preds pvs) windows))"

end
