(* ===== verification/Window_Scan_Facts.thy ===== *)
theory Window_Scan_Facts
  imports Window_Scan
begin

text \<open>
  What a scan of time windows delivers: the parallel stream gives the slices of the windows one after
  the other, whatever the number of streams it opens ahead; the serial loop visits the same batches of the
  backend, with no upper bound in the last slice of a window; and over a backend that serves the range it is asked
  for, every sample of the requested series in a window comes out once.  The last section shows where this fails:
  fractions of a second, repeated series, and a backend that delivers whole buckets to the serial loop.
\<close>

section \<open>The slices of a window\<close>

text \<open>The plan of a scan: the slices of the windows with their bounds, and what each slice gives.\<close>

function window_slices :: "int \<Rightarrow> int \<Rightarrow> int \<Rightarrow> (int \<times> int \<times> bool) list" where
  "window_slices d b e =
     (if d \<le> 0 \<or> b > e then []
      else if e - b \<le> d then [(b, e, True)]
      else (b, b + d, False) # window_slices d (b + d) e)"
  by pat_completeness auto
termination by (relation "measure (\<lambda>(d, b, e). nat (e - b))") auto

declare window_slices.simps [simp del]

definition shard_batches :: "ScanEnv \<Rightarrow> Predicate list \<Rightarrow> batch list" where
  "shard_batches env preds = (case sv_open env preds of Inr (bs, None) \<Rightarrow> bs | _ \<Rightarrow> [])"

definition backend_answers :: "ScanEnv \<Rightarrow> bool" where
  "backend_answers env = (\<forall>preds. \<exists>bs. sv_open env preds = Inr (bs, None))"

definition bounded_batch :: "ScanEnv \<Rightarrow> int \<Rightarrow> int \<Rightarrow> bool \<Rightarrow> batch \<Rightarrow> batch" where
  "bounded_batch env b e final x = the (qualify_output_batch env (filter_batch (sv_gfi env) (time_bounds b e final) x))"

definition slice_batches :: "ScanEnv \<Rightarrow> string list \<Rightarrow> int \<times> int \<times> bool \<Rightarrow> batch list" where
  "slice_batches env pvs s =
     (case s of (b, e, final) \<Rightarrow>
        concat (map (\<lambda>(offset, values). map (bounded_batch env b e final)
            (shard_batches env (shard_predicates (sv_pushable env) values b e)))
          (series_groups (sv_series_per_shard env) 0 pvs)))"

definition scan_batches :: "ScanEnv \<Rightarrow> string list \<Rightarrow> window list \<Rightarrow> batch list" where
  "scan_batches env pvs windows =
     concat (map (slice_batches env pvs)
       (concat (map (\<lambda>(b, e). window_slices (sv_slice_ns env) b e) windows)))"

lemma bound_batch_alt: "bound_batch env g x = Some (bounded_batch env (gr_begin_ns g) (gr_end_ns g) (gr_final_slice g) x)"
  by (simp add: bound_batch_def bounded_batch_def qualify_output_batch_def qualifyBatchColumns_def)

section \<open>The stream delivers the slices\<close>

definition windows_ok :: "window list \<Rightarrow> bool" where
  "windows_ok ws = (\<forall>(b, e)\<in>set ws. 0 \<le> b \<and> b \<le> e \<and> e < int64_max)"

definition plan_left :: "ScanEnv \<Rightarrow> WindowScan \<Rightarrow> (int \<times> int \<times> bool) list" where
  "plan_left env st =
     (if sc_window_index st < length (sc_windows st)
      then window_slices (sv_slice_ns env) (sc_slice_begin_ns st) (sc_window_end_ns st) @
        concat (map (\<lambda>(b, e). window_slices (sv_slice_ns env) b e) (drop (Suc (sc_window_index st)) (sc_windows st)))
      else [])"

text \<open>The batches of a group that were not delivered yet.\<close>

definition pending :: "ScanEnv \<Rightarrow> Group \<Rightarrow> batch list" where
  "pending env g =
     (case gr_next g of
        Some (Inr (Some b, (bs, fin))) \<Rightarrow> b # bs
      | Some _ \<Rightarrow> []
      | None \<Rightarrow> (case gr_stream g of Some (bs, fin) \<Rightarrow> bs | None \<Rightarrow> shard_batches env (gr_predicates g)))"

definition group_batches :: "ScanEnv \<Rightarrow> Group \<Rightarrow> batch list" where
  "group_batches env g = map (bounded_batch env (gr_begin_ns g) (gr_end_ns g) (gr_final_slice g)) (pending env g)"

definition stream_left :: "ScanEnv \<Rightarrow> WindowScan \<Rightarrow> batch list" where
  "stream_left env st =
     concat (map (group_batches env) (drop (sc_group_index st) (sc_groups st))) @
     concat (map (slice_batches env (sc_requested_pvs st)) (plan_left env st))"

definition fresh_group :: "Group \<Rightarrow> bool" where
  "fresh_group g = (gr_next g = None \<and> gr_stream g = None)"

definition live_group :: "Group \<Rightarrow> bool" where
  "live_group g =
     ((\<exists>b bs. gr_next g = Some (Inr (Some b, (bs, None)))) \<or> gr_next g = Some (Inr (None, ([], None))) \<or>
      (gr_next g = None \<and> (\<exists>bs. gr_stream g = Some (bs, None))))"

definition window_ok :: "WindowScan \<Rightarrow> bool" where
  "window_ok st =
     (windows_ok (sc_windows st) \<and>
      (sc_window_index st < length (sc_windows st) \<longrightarrow>
         0 \<le> sc_window_begin_ns st \<and> sc_window_begin_ns st \<le> sc_slice_begin_ns st \<and>
         sc_slice_begin_ns st \<le> sc_window_end_ns st + 1 \<and> sc_window_end_ns st < int64_max))"

text \<open>Started groups are the current one and those after it, up to the next group to start.\<close>

definition groups_ok :: "WindowScan \<Rightarrow> bool" where
  "groups_ok st =
     (sc_group_index st \<le> length (sc_groups st) \<and>
      (sc_group_index st < length (sc_groups st) \<longrightarrow>
         sc_group_index st < sc_next_group_to_start st \<and> sc_next_group_to_start st \<le> length (sc_groups st) \<and>
         sc_next_group_to_start st \<le> sc_group_index st + sc_parallel_shard_limit st \<and>
         (\<forall>i. sc_group_index st \<le> i \<longrightarrow> i < sc_next_group_to_start st \<longrightarrow> live_group (sc_groups st ! i)) \<and>
         (\<forall>i. sc_next_group_to_start st \<le> i \<longrightarrow> i < length (sc_groups st) \<longrightarrow> fresh_group (sc_groups st ! i))))"

definition scan_ok :: "ScanEnv \<Rightarrow> WindowScan \<Rightarrow> bool" where
  "scan_ok env st =
     (window_ok st \<and> groups_ok st \<and> sc_requested_pvs st \<noteq> [] \<and>
      (sc_group_index st = length (sc_groups st) \<longrightarrow> plan_left env st = []))"

definition env_ok :: "ScanEnv \<Rightarrow> bool" where
  "env_ok env = (sv_slice_ns env > 0 \<and> sv_series_per_shard env > 0 \<and> backend_answers env)"

lemma series_groups_ne: "k > 0 \<Longrightarrow> pvs \<noteq> [] \<Longrightarrow> series_groups k off pvs \<noteq> []"
  by (subst series_groups.simps) simp

lemma window_slices_step:
  assumes "d > 0" "b \<le> e"
  shows "window_slices d b e =
    (let s = (if e - b < d then e else b + d) in (b, s, s = e) # (if s = e then [] else window_slices d s e))"
  using assms by (subst window_slices.simps) (auto simp: Let_def)

lemma window_slices_none: "b > e \<Longrightarrow> window_slices d b e = []"
  by (subst window_slices.simps) simp

lemma fresh_pending: "fresh_group g \<Longrightarrow> pending env g = shard_batches env (gr_predicates g)"
  by (simp add: fresh_group_def pending_def)

lemma scheduleFirst_bounds [simp]:
  "gr_begin_ns (scheduleFirst env w g) = gr_begin_ns g" "gr_end_ns (scheduleFirst env w g) = gr_end_ns g"
  "gr_final_slice (scheduleFirst env w g) = gr_final_slice g" "gr_stream (scheduleFirst env w g) = gr_stream g"
  by (simp_all add: scheduleFirst_def Let_def)

lemma scheduleFirst_ok:
  assumes "backend_answers env" "fresh_group g"
  shows "live_group (scheduleFirst env w g)" and "group_batches env (scheduleFirst env w g) = group_batches env g"
proof -
  obtain bs where o: "sv_open env (gr_predicates g) = Inr (bs, None)"
    using assms(1) by (auto simp: backend_answers_def)
  then have s: "shard_batches env (gr_predicates g) = bs" by (simp add: shard_batches_def)
  have n: "gr_next (scheduleFirst env w g) = Some (pull (bs, None))"
    by (cases bs) (simp_all add: scheduleFirst_def Let_def o)
  show "live_group (scheduleFirst env w g)"
    by (cases bs) (simp_all add: live_group_def n)
  have "pending env (scheduleFirst env w g) = bs"
    by (cases bs) (simp_all add: pending_def n)
  then show "group_batches env (scheduleFirst env w g) = group_batches env g"
    by (simp add: group_batches_def fresh_pending [OF assms(2)] s)
qed

lemma slice_groups_fresh: "g \<in> set (slice_groups env st n e final) \<Longrightarrow> fresh_group g"
  by (auto simp: slice_groups_def fresh_group_def)

lemma slice_groups_batches:
  "concat (map (group_batches env) (slice_groups env st n e final)) =
     slice_batches env (sc_requested_pvs st) (sc_slice_begin_ns st, e, final)"
  by (simp add: slice_groups_def slice_batches_def comp_def group_batches_def pending_def case_prod_unfold)

lemma concurrency_pos: "n > 0 \<Longrightarrow> 0 < stream_concurrency env n \<and> stream_concurrency env n \<le> n"
  by (auto simp: stream_concurrency_def Let_def)

lemma next_slice_ok:
  assumes env: "env_ok env" and st: "window_ok st" and i: "sc_window_index st < length (sc_windows st)"
    and b: "sc_slice_begin_ns st \<le> sc_window_end_ns st" and g: "sc_group_index st = 0"
    and pvs: "sc_requested_pvs st \<noteq> []"
  shows "\<exists>st'. next_slice env st = Inr st' \<and> scan_ok env st' \<and> sc_requested_pvs st' = sc_requested_pvs st \<and>
    stream_left env st' = concat (map (slice_batches env (sc_requested_pvs st)) (plan_left env st)) \<and>
    length (plan_left env st') < length (plan_left env st)"
proof -
  let ?d = "sv_slice_ns env" and ?b = "sc_slice_begin_ns st" and ?e = "sc_window_end_ns st"
  have d: "?d > 0" "sv_series_per_shard env > 0" "backend_answers env" using env by (simp_all add: env_ok_def)
  have w: "0 \<le> sc_window_begin_ns st" "sc_window_begin_ns st \<le> ?b" "?e < int64_max"
    using st i by (auto simp: window_ok_def)
  define s where "s = (if ?e - ?b < ?d then ?e else ?b + ?d)"
  have s: "?b \<le> s" "s \<le> ?e" using b d(1) by (auto simp: s_def)
  have o: "int64 (?e - ?b) = Inr (?e - ?b)" "int64 (?b - sc_window_begin_ns st) = Inr (?b - sc_window_begin_ns st)"
    "int64 (?e + 1) = Inr (?e + 1)" "int64 s = Inr s"
    using w b s by (auto simp: int64_def int64_max_def)
  have se: "(if ?e - ?b < ?d then Inr ?e else int64 (?b + ?d)) = Inr s"
    using o(4) by (auto simp: s_def)
  define n where "n = nat (cpp_div (?b - sc_window_begin_ns st) ?d + 1)"
  define gs where "gs = slice_groups env st n s (s = ?e)"
  define c where "c = stream_concurrency env (length gs)"
  define hs where "hs = map (scheduleFirst env (sc_window_index st)) (take c gs) @ drop c gs"
  define st' where "st' = st\<lparr>sc_slice_end_ns := s, sc_final_slice := (s = ?e), sc_groups := hs,
      sc_parallel_shard_limit := c, sc_next_group_to_start := c, sc_slice_begin_ns := if s = ?e then ?e + 1 else s\<rparr>"
  have st': "next_slice env st = Inr st'"
    using d(1) by (simp add: next_slice_def o se Let_def st'_def hs_def c_def gs_def n_def)
  have "gs \<noteq> []" using series_groups_ne [OF d(2) pvs] by (simp add: gs_def slice_groups_def)
  then have c: "0 < c" "c \<le> length gs" using concurrency_pos [of "length gs" env] by (simp_all add: c_def)
  have fresh: "g \<in> set gs \<Longrightarrow> fresh_group g" for g unfolding gs_def by (rule slice_groups_fresh)
  have len: "length hs = length gs" using c by (simp add: hs_def)
  have live: "live_group (hs ! i)" if "i < c" for i
    using that c scheduleFirst_ok(1) [OF d(3) fresh] by (simp add: hs_def nth_append)
  have rest: "fresh_group (hs ! i)" if "c \<le> i" "i < length gs" for i
  proof -
    have "hs ! i = gs ! i" using that c by (simp add: hs_def nth_append)
    then show ?thesis using fresh that by simp
  qed
  have G: "groups_ok st'" using c g len live rest by (simp add: groups_ok_def st'_def)
  have "map (group_batches env) (map (scheduleFirst env (sc_window_index st)) (take c gs)) = map (group_batches env) (take c gs)"
    using scheduleFirst_ok(2) [OF d(3) fresh] by (auto dest: in_set_takeD)
  then have "map (group_batches env) hs = map (group_batches env) gs"
    unfolding hs_def map_append by (simp only: append_take_drop_id flip: map_append)
  then have B: "concat (map (group_batches env) hs) = slice_batches env (sc_requested_pvs st) (?b, s, s = ?e)"
    by (simp add: gs_def slice_groups_batches)
  have P: "plan_left env st = (?b, s, s = ?e) # plan_left env st'"
    using i window_slices_step [OF d(1) b]
    by (auto simp: plan_left_def st'_def Let_def s_def [symmetric] window_slices_none)
  have W: "window_ok st'" using st w s b by (auto simp: window_ok_def st'_def)
  have "hs \<noteq> []" using len \<open>gs \<noteq> []\<close> by auto
  then have S: "scan_ok env st'" using W G pvs g by (simp add: scan_ok_def st'_def)
  have L: "stream_left env st' = concat (map (slice_batches env (sc_requested_pvs st)) (plan_left env st))"
    using B g by (simp add: stream_left_def P) (simp add: st'_def)
  have "sc_requested_pvs st' = sc_requested_pvs st" by (simp add: st'_def)
  with S L st' P show ?thesis by (intro exI [of _ st']) simp
qed

lemma selectWindow_plan:
  assumes "sc_window_index st < length (sc_windows st)"
  shows "plan_left env (selectWindow st) =
    concat (map (\<lambda>(b, e). window_slices (sv_slice_ns env) b e) (drop (sc_window_index st) (sc_windows st)))"
  using assms by (auto simp: plan_left_def selectWindow_def drop_cons_nth split: prod.splits)

lemma selectWindow_simps [simp]:
  "sc_windows (selectWindow st) = sc_windows st" "sc_requested_pvs (selectWindow st) = sc_requested_pvs st"
  "sc_groups (selectWindow st) = sc_groups st" "sc_group_index (selectWindow st) = sc_group_index st"
  "sc_window_index (selectWindow st) = sc_window_index st"
  by (simp_all add: selectWindow_def split: prod.splits)

lemma selectWindow_ok:
  assumes "windows_ok (sc_windows st)" "sc_window_index st < length (sc_windows st)"
  shows "window_ok (selectWindow st)"
proof -
  obtain b e where w: "sc_windows st ! sc_window_index st = (b, e)" by force
  then have "(b, e) \<in> set (sc_windows st)" using assms(2) by (metis nth_mem)
  then have "0 \<le> b \<and> b \<le> e \<and> e < int64_max" using assms(1) by (auto simp: windows_ok_def)
  then show ?thesis using assms(1) w by (simp add: window_ok_def selectWindow_def)
qed

lemma next_window_ok:
  assumes "env_ok env" "window_ok st" "sc_groups st = []" "sc_group_index st = 0" "sc_requested_pvs st \<noteq> []"
  shows "\<exists>st'. next_window env st = Inr st' \<and> scan_ok env st' \<and> sc_requested_pvs st' = sc_requested_pvs st \<and>
    stream_left env st' = concat (map (slice_batches env (sc_requested_pvs st)) (plan_left env st)) \<and>
    length (plan_left env st') \<le> length (plan_left env st) \<and>
    (plan_left env st \<noteq> [] \<longrightarrow> length (plan_left env st') < length (plan_left env st)) \<and>
    (plan_left env st = [] \<longrightarrow> sc_groups st' = [])"
  using assms
proof (induction env st rule: next_window.induct)
  case (1 env st)
  let ?i = "sc_window_index st"
  have done_ok: ?case if n: "next_window env st = Inr t" and w: "window_ok t" and i: "\<not> sc_window_index t < length (sc_windows t)"
    and p: "plan_left env st = []" and g: "sc_groups t = []" "sc_group_index t = 0"
      "sc_requested_pvs t = sc_requested_pvs st" for t
  proof -
    have "plan_left env t = []" using i by (simp add: plan_left_def)
    then show ?thesis using n w p g 1(6) by (intro exI [of _ t]) (simp add: scan_ok_def groups_ok_def stream_left_def)
  qed
  consider "\<not> ?i < length (sc_windows st)"
    | "?i < length (sc_windows st)" "sc_slice_begin_ns st > sc_window_end_ns st" "\<not> Suc ?i < length (sc_windows st)"
    | "?i < length (sc_windows st)" "sc_slice_begin_ns st > sc_window_end_ns st" "Suc ?i < length (sc_windows st)"
    | "?i < length (sc_windows st)" "sc_slice_begin_ns st \<le> sc_window_end_ns st" by linarith
  then show ?case
  proof cases
    case 1
    show ?thesis
      by (rule done_ok [of st]) (use 1 1(1) "1.prems" in \<open>simp_all add: next_window.simps [of env st] plan_left_def\<close>)
  next
    case 2
    let ?t = "st\<lparr>sc_window_index := ?i + 1\<rparr>"
    have "window_ok ?t" using "1.prems"(2) 2(3) by (simp add: window_ok_def)
    then show ?thesis
      by (intro done_ok [of ?t])
        (use 2 "1.prems" in \<open>simp_all add: next_window.simps [of env st] plan_left_def window_slices_none Let_def\<close>)
  next
    case 3
    let ?t = "st\<lparr>sc_window_index := ?i + 1\<rparr>"
    have n: "next_window env st = next_window env (selectWindow ?t)"
      using 3 by (simp add: next_window.simps [of env st] Let_def)
    have w: "window_ok (selectWindow ?t)"
      by (rule selectWindow_ok) (use 3 "1.prems"(2) in \<open>simp_all add: window_ok_def\<close>)
    have p: "plan_left env (selectWindow ?t) = plan_left env st"
      using 3 by (subst selectWindow_plan) (simp_all add: plan_left_def window_slices_none)
    have "\<exists>st'. next_window env (selectWindow ?t) = Inr st' \<and> scan_ok env st' \<and>
      sc_requested_pvs st' = sc_requested_pvs (selectWindow ?t) \<and>
      stream_left env st' = concat (map (slice_batches env (sc_requested_pvs (selectWindow ?t))) (plan_left env (selectWindow ?t))) \<and>
      length (plan_left env st') \<le> length (plan_left env (selectWindow ?t)) \<and>
      (plan_left env (selectWindow ?t) \<noteq> [] \<longrightarrow> length (plan_left env st') < length (plan_left env (selectWindow ?t))) \<and>
      (plan_left env (selectWindow ?t) = [] \<longrightarrow> sc_groups st' = [])"
      by (rule "1.IH" [of ?t]) (use 3 w "1.prems" in simp_all)
    then show ?thesis unfolding n p by simp
  next
    case 4
    have n: "next_window env st = next_slice env st" using 4 by (simp add: next_window.simps [of env st])
    have "plan_left env st \<noteq> []"
      using 4 "1.prems"(1) window_slices_step [of "sv_slice_ns env" "sc_slice_begin_ns st" "sc_window_end_ns st"]
      by (simp add: plan_left_def env_ok_def Let_def)
    then show ?thesis
      unfolding n using next_slice_ok [OF "1.prems"(1,2) 4 "1.prems"(4,5)] by (auto dest: less_imp_le)
  qed
qed

lemma prepareNextSlice_ok:
  assumes "env_ok env" "window_ok st" "sc_requested_pvs st \<noteq> []"
  shows "\<exists>st'. prepareNextSlice env st = Inr st' \<and> scan_ok env st' \<and> sc_requested_pvs st' = sc_requested_pvs st \<and>
    stream_left env st' = concat (map (slice_batches env (sc_requested_pvs st)) (plan_left env st)) \<and>
    length (plan_left env st') \<le> length (plan_left env st) \<and>
    (plan_left env st \<noteq> [] \<longrightarrow> length (plan_left env st') < length (plan_left env st)) \<and>
    (plan_left env st = [] \<longrightarrow> sc_groups st' = [])"
proof -
  let ?t = "st\<lparr>sc_groups := [], sc_group_index := 0\<rparr>"
  have "plan_left env ?t = plan_left env st" by (simp add: plan_left_def)
  moreover have "window_ok ?t" using assms(2) by (simp add: window_ok_def)
  ultimately show ?thesis
    unfolding prepareNextSlice_def using next_window_ok [of env ?t] assms(1,3) by simp
qed

lemma live_step:
  assumes "live_group g"
  shows "\<exists>h p s. (if gr_next g = None then scheduleNext w g else Inr g) = Inr h \<and>
    gr_next h = Some (Inr (p, (s, None))) \<and> gr_begin_ns h = gr_begin_ns g \<and> gr_end_ns h = gr_end_ns g \<and>
    gr_final_slice h = gr_final_slice g \<and>
    pending env g = (case p of None \<Rightarrow> [] | Some b \<Rightarrow> b # s) \<and> (p = None \<longrightarrow> s = [])"
proof (cases "gr_next g")
  case None
  then obtain bs where "gr_stream g = Some (bs, None)" using assms by (auto simp: live_group_def)
  then show ?thesis using None by (cases bs) (simp_all add: scheduleNext_def Let_def pending_def)
next
  case (Some r)
  then show ?thesis using assms by (auto simp: live_group_def pending_def)
qed

lemma plan_left_cong:
  assumes "sc_windows t = sc_windows st" "sc_window_index t = sc_window_index st"
    "sc_slice_begin_ns t = sc_slice_begin_ns st" "sc_window_end_ns t = sc_window_end_ns st"
  shows "plan_left env t = plan_left env st"
  using assms by (simp add: plan_left_def)

lemma window_ok_cong:
  assumes "sc_windows t = sc_windows st" "sc_window_index t = sc_window_index st"
    "sc_slice_begin_ns t = sc_slice_begin_ns st" "sc_window_end_ns t = sc_window_end_ns st"
    "sc_window_begin_ns t = sc_window_begin_ns st"
  shows "window_ok t = window_ok st"
  using assms by (simp add: window_ok_def)

lemma map_update_same: "k < length xs \<Longrightarrow> f y = f (xs ! k) \<Longrightarrow> map f (xs[k := y]) = map f xs"
  by (simp add: map_update list_update_same_conv)

text \<open>Groups after the current one ended, with the next group started.\<close>

lemma group_done_started:
  assumes env: "env_ok env" and G: "groups_ok st" and i: "Suc (sc_group_index st) < length (sc_groups st)"
  shows "\<exists>t. group_done env st = Inr t \<and> groups_ok t \<and> sc_group_index t = Suc (sc_group_index st) \<and>
    length (sc_groups t) = length (sc_groups st) \<and>
    map (group_batches env) (drop (Suc (sc_group_index st)) (sc_groups t)) =
      map (group_batches env) (drop (Suc (sc_group_index st)) (sc_groups st)) \<and>
    sc_requested_pvs t = sc_requested_pvs st \<and> plan_left env t = plan_left env st \<and> window_ok t = window_ok st"
proof -
  let ?i = "sc_group_index st" and ?k = "sc_next_group_to_start st"
  let ?gs = "(sc_groups st)[?i := (sc_groups st ! ?i)\<lparr>gr_stream := None\<rparr>]"
  let ?t1 = "st\<lparr>sc_group_index := Suc ?i, sc_groups := ?gs\<rparr>"
  let ?hs = "?gs[?k := scheduleFirst env (sc_window_index st) (?gs ! ?k)]"
  let ?t2 = "?t1\<lparr>sc_groups := ?hs, sc_next_group_to_start := ?k + 1\<rparr>"
  have k: "?i < ?k" "?k \<le> length (sc_groups st)" "?k \<le> ?i + sc_parallel_shard_limit st"
    and live: "\<And>j. ?i \<le> j \<Longrightarrow> j < ?k \<Longrightarrow> live_group (sc_groups st ! j)"
    and fresh: "\<And>j. ?k \<le> j \<Longrightarrow> j < length (sc_groups st) \<Longrightarrow> fresh_group (sc_groups st ! j)"
    using G i by (auto simp: groups_ok_def)
  have b: "backend_answers env" using env by (simp add: env_ok_def)
  have d: "drop (Suc ?i) ?gs = drop (Suc ?i) (sc_groups st)" by simp
  show ?thesis
  proof (cases "?k < length (sc_groups st)")
    case True
    have f: "fresh_group (?gs ! ?k)" using fresh [of ?k] True k by simp
    have "live_group (?hs ! j)" if "Suc ?i \<le> j" "j < ?k + 1" for j
      using that live [of j] scheduleFirst_ok(1) [OF b f] True k by (cases "j = ?k") simp_all
    moreover have "fresh_group (?hs ! j)" if "?k + 1 \<le> j" "j < length (sc_groups st)" for j
      using that fresh [of j] k by simp
    ultimately have "groups_ok ?t2" using True k by (auto simp: groups_ok_def)
    moreover have "map (group_batches env) ?hs = map (group_batches env) ?gs"
      using scheduleFirst_ok(2) [OF b f, of "sc_window_index st"] True by (intro map_update_same) simp_all
    then have "map (group_batches env) (drop (Suc ?i) ?hs) = map (group_batches env) (drop (Suc ?i) ?gs)"
      by (simp only: drop_map [symmetric])
    moreover have "group_done env st = Inr ?t2" using True i by (simp add: group_done_def Let_def)
    moreover have "plan_left env ?t2 = plan_left env st" by (rule plan_left_cong) simp_all
    moreover have "window_ok ?t2 = window_ok st" by (rule window_ok_cong) simp_all
    ultimately show ?thesis unfolding d by (intro exI [of _ ?t2]) simp
  next
    case False
    have "groups_ok ?t1" using False k live i by (auto simp: groups_ok_def)
    moreover have "group_done env st = Inr ?t1" using False i by (simp add: group_done_def Let_def)
    moreover have "plan_left env ?t1 = plan_left env st" by (rule plan_left_cong) simp_all
    moreover have "window_ok ?t1 = window_ok st" by (rule window_ok_cong) simp_all
    ultimately show ?thesis by (intro exI [of _ ?t1]) simp
  qed
qed

text \<open>The size of the work left, for the induction over the calls of the loop.\<close>

definition scan_rank :: "ScanEnv \<Rightarrow> WindowScan \<Rightarrow> nat \<times> nat" where
  "scan_rank env st = (length (plan_left env st), length (sc_groups st) - sc_group_index st)"

lemma group_done_ok:
  assumes env: "env_ok env" and st: "scan_ok env st" and i: "sc_group_index st < length (sc_groups st)"
    and p: "pending env (sc_groups st ! sc_group_index st) = []"
  shows "\<exists>t. group_done env st = Inr t \<and> scan_ok env t \<and> stream_left env t = stream_left env st \<and>
    scan_rank env t < scan_rank env st"
proof -
  let ?i = "sc_group_index st"
  have s: "window_ok st" "groups_ok st" "sc_requested_pvs st \<noteq> []" using st by (simp_all add: scan_ok_def)
  have left: "stream_left env st = concat (map (group_batches env) (drop (Suc ?i) (sc_groups st))) @
      concat (map (slice_batches env (sc_requested_pvs st)) (plan_left env st))"
    using p i by (simp add: stream_left_def drop_cons_nth group_batches_def)
  show ?thesis
  proof (cases "Suc ?i < length (sc_groups st)")
    case True
    from group_done_started [OF env s(2) True] obtain t where t: "group_done env st = Inr t" "groups_ok t"
      "sc_group_index t = Suc ?i" "length (sc_groups t) = length (sc_groups st)"
      "map (group_batches env) (drop (Suc ?i) (sc_groups t)) = map (group_batches env) (drop (Suc ?i) (sc_groups st))"
      "sc_requested_pvs t = sc_requested_pvs st" "plan_left env t = plan_left env st" "window_ok t = window_ok st"
      by blast
    have "scan_ok env t" using t s True by (simp add: scan_ok_def)
    moreover have "stream_left env t = stream_left env st" unfolding left by (simp add: stream_left_def t)
    moreover have "scan_rank env t < scan_rank env st" using t True by (simp add: scan_rank_def less_prod_def)
    ultimately show ?thesis using t(1) by blast
  next
    case False
    then have e: "Suc ?i = length (sc_groups st)" using i by simp
    let ?t = "st\<lparr>sc_group_index := Suc ?i,
        sc_groups := (sc_groups st)[?i := (sc_groups st ! ?i)\<lparr>gr_stream := None\<rparr>]\<rparr>"
    have k: "\<not> sc_next_group_to_start st < length (sc_groups st)" using s(2) e i by (auto simp: groups_ok_def)
    have g: "group_done env st = prepareNextSlice env ?t" using k e by (simp add: group_done_def Let_def)
    have pl: "plan_left env ?t = plan_left env st" by (rule plan_left_cong) simp_all
    have w: "window_ok ?t" using s(1) by (simp add: window_ok_def)
    from prepareNextSlice_ok [OF env w] s(3) obtain t where t: "prepareNextSlice env ?t = Inr t" "scan_ok env t"
      "stream_left env t = concat (map (slice_batches env (sc_requested_pvs st)) (plan_left env st))"
      "plan_left env st \<noteq> [] \<longrightarrow> length (plan_left env t) < length (plan_left env st)"
      "length (plan_left env t) \<le> length (plan_left env st)"
      "plan_left env st = [] \<longrightarrow> sc_groups t = []"
      unfolding pl by auto
    have "scan_rank env t < scan_rank env st"
      using t(4-6) i by (cases "plan_left env st = []") (simp_all add: scan_rank_def less_prod_def)
    moreover have "stream_left env t = stream_left env st" unfolding left t(3) using e by simp
    ultimately show ?thesis using t(1,2) g by auto
  qed
qed

lemma next_batch_ok:
  assumes "env_ok env" "scan_ok env st"
  shows "\<exists>t. (case stream_left env st of
      [] \<Rightarrow> next_batch env st = Some (Inr (None, t))
    | b # rest \<Rightarrow> next_batch env st = Some (Inr (Some b, t)) \<and> scan_ok env t \<and> stream_left env t = rest)"
  using assms
proof (induction "scan_rank env st" arbitrary: st rule: less_induct)
  case less
  let ?i = "sc_group_index st"
  have s: "window_ok st" "groups_ok st" using less.prems(2) by (simp_all add: scan_ok_def)
  show ?case
  proof (cases "?i < length (sc_groups st)")
    case False
    then have e: "?i = length (sc_groups st)" using s(2) by (simp add: groups_ok_def)
    then have "stream_left env st = []" using less.prems(2) by (simp add: stream_left_def scan_ok_def)
    then show ?thesis using e by (simp add: next_batch.simps [of env st])
  next
    case True
    let ?g = "sc_groups st ! ?i"
    have live: "live_group ?g" using s(2) True by (auto simp: groups_ok_def)
    from live_step [OF live, of "sc_window_index st" env] obtain h p r where
      h: "(if gr_next ?g = None then scheduleNext (sc_window_index st) ?g else Inr ?g) = Inr h"
        "gr_next h = Some (Inr (p, (r, None)))" "gr_begin_ns h = gr_begin_ns ?g" "gr_end_ns h = gr_end_ns ?g"
        "gr_final_slice h = gr_final_slice ?g" "pending env ?g = (case p of None \<Rightarrow> [] | Some b \<Rightarrow> b # r)"
        "p = None \<longrightarrow> r = []" by auto
    let ?h = "h\<lparr>gr_stream := Some (r, None), gr_next := None\<rparr>"
    let ?t = "st\<lparr>sc_groups := (sc_groups st)[?i := ?h]\<rparr>"
    have n: "next_batch env st =
        (case p of Some b \<Rightarrow> Some (Inr (bound_batch env h b, ?t))
         | None \<Rightarrow> (case group_done env ?t of Inl e \<Rightarrow> Some (Inl e) | Inr st2 \<Rightarrow> next_batch env st2))"
      using True h(1,2) by (subst next_batch.simps) (simp add: Let_def)
    have pt: "pending env ?h = r" by (simp add: pending_def)
    have G: "groups_ok ?t"
      using s(2) True by (auto simp: groups_ok_def live_group_def nth_list_update)
    have "window_ok ?t = window_ok st" by (rule window_ok_cong) simp_all
    moreover have pl: "plan_left env ?t = plan_left env st" by (rule plan_left_cong) simp_all
    ultimately have ok: "scan_ok env ?t" using G less.prems(2) True by (simp add: scan_ok_def)
    have left: "stream_left env st = group_batches env ?g @ concat (map (group_batches env) (drop (Suc ?i) (sc_groups st))) @
        concat (map (slice_batches env (sc_requested_pvs st)) (plan_left env st))"
      using True by (simp add: stream_left_def drop_cons_nth)
    have left': "stream_left env ?t = group_batches env ?h @ concat (map (group_batches env) (drop (Suc ?i) (sc_groups st))) @
        concat (map (slice_batches env (sc_requested_pvs st)) (plan_left env st))"
      using True pl by (simp add: stream_left_def drop_cons_nth [of ?i "(sc_groups st)[?i := ?h]"])
    have gh: "group_batches env ?h = map (bounded_batch env (gr_begin_ns h) (gr_end_ns h) (gr_final_slice h)) r"
      by (simp add: group_batches_def pt)
    show ?thesis
    proof (cases p)
      case (Some b)
      have "group_batches env ?g = bounded_batch env (gr_begin_ns h) (gr_end_ns h) (gr_final_slice h) b # group_batches env ?h"
        unfolding gh using h(3-6) Some by (simp add: group_batches_def)
      then show ?thesis
        unfolding left using n ok left' Some by (intro exI [of _ ?t]) (simp add: bound_batch_alt)
    next
      case None
      have eq: "stream_left env ?t = stream_left env st"
        unfolding left left' gh using h(6,7) None by (simp add: group_batches_def)
      have rank: "scan_rank env ?t = scan_rank env st" using pl by (simp add: scan_rank_def)
      have "pending env (sc_groups ?t ! sc_group_index ?t) = []" using True pt h(7) None by simp
      from group_done_ok [OF less.prems(1) ok _ this] True obtain t where t: "group_done env ?t = Inr t" "scan_ok env t"
        "stream_left env t = stream_left env st" "scan_rank env t < scan_rank env st"
        unfolding eq rank by auto
      have "next_batch env st = next_batch env t" using n None t(1) by simp
      then show ?thesis using less.hyps [OF t(4) less.prems(1) t(2)] unfolding t(3) by (simp only:)
    qed
  qed
qed

text \<open>Calling \<open>next()\<close> until it gives the null pointer: every call returns, and these are the batches.\<close>

inductive drains :: "ScanEnv \<Rightarrow> WindowScan \<Rightarrow> batch list \<Rightarrow> bool" where
  drains_end: "next_batch env st = Some (Inr (None, t)) \<Longrightarrow> drains env st []"
| drains_more: "next_batch env st = Some (Inr (Some b, t)) \<Longrightarrow> drains env t bs \<Longrightarrow> drains env st (b # bs)"

lemma drains_left:
  assumes "env_ok env" "scan_ok env st"
  shows "drains env st (stream_left env st)"
  using assms(2)
proof (induction "stream_left env st" arbitrary: st)
  case Nil
  then show ?case using next_batch_ok [OF assms(1) Nil(2)] by (auto intro: drains_end split: list.splits)
next
  case (Cons b bs)
  from next_batch_ok [OF assms(1) Cons(3)] obtain t where t: "next_batch env st = Some (Inr (Some b, t))" "scan_ok env t"
    "stream_left env t = bs" unfolding Cons(2) [symmetric] by auto
  show ?case
    unfolding Cons(2) [symmetric] by (rule drains_more [OF t(1)]) (use Cons(1) [OF _ t(2)] t(3) in simp)
qed

section \<open>Rows\<close>

text \<open>
  What the backend holds: its rows and their fields, the position of \<open>time\<close>, the series of a row, and
  the rows that the remaining predicates select.
\<close>

record Store =
  so_rows :: "row list"
  so_fields :: "field list"
  so_time_index :: nat
  so_series :: "row \<Rightarrow> string"
  so_selects :: "Predicate \<Rightarrow> row \<Rightarrow> bool"

definition row_time :: "Store \<Rightarrow> row \<Rightarrow> int" where
  "row_time S r = (case r ! so_time_index S of SC_Timestamp t \<Rightarrow> t | _ \<Rightarrow> 0)"

text \<open>
  Comparisons go through \<open>double\<close>: a sample may round onto a whole second without being there, and such
  samples are left out of the claim.
\<close>

definition sample_exact :: "int \<Rightarrow> bool" where
  "sample_exact t = (\<forall>s. int_key t = int_key (s * 1000000000) \<longrightarrow> t = s * 1000000000)"

definition store_ok :: "ScanEnv \<Rightarrow> Store \<Rightarrow> bool" where
  "store_ok env S =
     (predicateFieldIndex (sv_gfi env) (map fd_name (so_fields S)) ''time'' = Some (so_time_index S) \<and>
      (\<forall>r\<in>set (so_rows S). r ! so_time_index S = SC_Timestamp (row_time S r) \<and>
         \<bar>row_time S r\<bar> < 2 ^ 63 \<and> sample_exact (row_time S r)))"

text \<open>
  The contract of the backend: it answers with rows of the store, and within the asked range of
  seconds, whose ends are inclusive, with every selected row once.  Rows outside the range may come along,
  as they do when buckets of samples are delivered whole.
\<close>

definition selected_row :: "Store \<Rightarrow> Predicate list \<Rightarrow> string list \<Rightarrow> row \<Rightarrow> bool" where
  "selected_row S preds pvs r = (so_series S r \<in> set pvs \<and> (\<forall>p\<in>set preds. so_selects S p r))"

definition in_seconds :: "Store \<Rightarrow> int \<Rightarrow> int \<Rightarrow> row \<Rightarrow> bool" where
  "in_seconds S a b r = (a * 1000000000 \<le> row_time S r \<and> row_time S r \<le> b * 1000000000)"

definition other_predicates :: "Predicate list \<Rightarrow> Predicate list" where
  "other_predicates = filter (\<lambda>p. \<not> (pr_column p = ''time'' \<or> pr_column p = ''pv''))"

definition backend_serves :: "ScanEnv \<Rightarrow> Store \<Rightarrow> bool" where
  "backend_serves env S =
     (\<forall>pvs a b.
        let bs = shard_batches env (other_predicates (sv_pushable env) @
              [\<lparr>pr_column = ''pv'', pr_op = IN, pr_values = map Lit_String pvs\<rparr>,
               \<lparr>pr_column = ''time'', pr_op = GTE, pr_values = [Lit_Int a]\<rparr>,
               \<lparr>pr_column = ''time'', pr_op = LTE, pr_values = [Lit_Int b]\<rparr>]);
            rows = concat (map b_rows bs) in
        (\<forall>x\<in>set bs. b_fields x = so_fields S) \<and> set rows \<subseteq> set (so_rows S) \<and>
        filter_mset (in_seconds S a b) (mset rows) =
          filter_mset (\<lambda>r. selected_row S (other_predicates (sv_pushable env)) pvs r \<and> in_seconds S a b r)
            (mset (so_rows S)))"

lemma exact_compare:
  assumes "sample_exact t" "\<bar>t\<bar> < 2 ^ 63" "\<bar>s * 1000000000\<bar> < 2 ^ 63"
  shows "compareSingle (N_Timestamp t) (Lit_Timestamp (s * 1000000000)) GTE \<longleftrightarrow> s * 1000000000 \<le> t"
    "compareSingle (N_Timestamp t) (Lit_Timestamp (s * 1000000000)) LTE \<longleftrightarrow> t \<le> s * 1000000000"
    "compareSingle (N_Timestamp t) (Lit_Timestamp (s * 1000000000)) LT \<longleftrightarrow> t < s * 1000000000"
proof -
  let ?b = "s * 1000000000"
  have b: "\<bar>t\<bar> < 2 ^ 64" "\<bar>?b\<bar> < 2 ^ 64" using assms(2,3) by simp_all
  have eq: "int_key t = int_key ?b \<Longrightarrow> t = ?b" using assms(1) by (simp add: sample_exact_def)
  have k: "int_key t \<le> int_key ?b \<longleftrightarrow> t \<le> ?b" "int_key ?b \<le> int_key t \<longleftrightarrow> ?b \<le> t"
    using int_key_mono [of t ?b] int_key_mono [of ?b t] eq by linarith+
  show "compareSingle (N_Timestamp t) (Lit_Timestamp ?b) GTE \<longleftrightarrow> ?b \<le> t"
    "compareSingle (N_Timestamp t) (Lit_Timestamp ?b) LTE \<longleftrightarrow> t \<le> ?b"
    "compareSingle (N_Timestamp t) (Lit_Timestamp ?b) LT \<longleftrightarrow> t < ?b"
    using k by (simp_all add: converted_compare [OF b] converted_compare [OF b(2,1)] not_le [symmetric] del: not_le)
qed

definition in_slice :: "Store \<Rightarrow> int \<times> int \<times> bool \<Rightarrow> row \<Rightarrow> bool" where
  "in_slice S s r =
     (case s of (b, e, final) \<Rightarrow> b \<le> row_time S r \<and> (if final then row_time S r \<le> e else row_time S r < e))"

definition whole_seconds :: "int \<Rightarrow> bool" where
  "whole_seconds x = (0 \<le> x \<and> x < int64_max \<and> 1000000000 dvd x)"

lemma whole_seconds_div:
  "whole_seconds x \<Longrightarrow> cpp_div x 1000000000 * 1000000000 = x \<and> \<bar>x\<bar> < 2 ^ 63"
  by (auto simp: whole_seconds_def cpp_div_def int64_max_def)

lemma time_bounds_row:
  assumes S: "store_ok env S" "r \<in> set (so_rows S)" and b: "whole_seconds b" "whole_seconds e"
  shows "include_row (sv_gfi env) (map fd_name (so_fields S)) (time_bounds b e final) [] r = in_slice S (b, e, final) r"
proof -
  have r: "r ! so_time_index S = SC_Timestamp (row_time S r)" "\<bar>row_time S r\<bar> < 2 ^ 63" "sample_exact (row_time S r)"
    and i: "predicateFieldIndex (sv_gfi env) (map fd_name (so_fields S)) ''time'' = Some (so_time_index S)"
    using S by (auto simp: store_ok_def)
  have w: "cpp_div b 1000000000 * 1000000000 = b" "\<bar>b\<bar> < 2 ^ 63" "cpp_div e 1000000000 * 1000000000 = e" "\<bar>e\<bar> < 2 ^ 63"
    using b [THEN whole_seconds_div] by simp_all
  have c: "compareSingle (N_Timestamp (row_time S r)) (Lit_Timestamp b) GTE \<longleftrightarrow> b \<le> row_time S r"
    "compareSingle (N_Timestamp (row_time S r)) (Lit_Timestamp e) LTE \<longleftrightarrow> row_time S r \<le> e"
    "compareSingle (N_Timestamp (row_time S r)) (Lit_Timestamp e) LT \<longleftrightarrow> row_time S r < e"
    using exact_compare [OF r(3,2), of "cpp_div b 1000000000"] exact_compare [OF r(3,2), of "cpp_div e 1000000000"]
    unfolding w using w(2,4) by blast+
  show ?thesis
    by (simp add: include_row_def time_bounds_def predicateTruth_def i r(1) scalarMatchesPredicate_def c in_slice_def
        del: compareSingle.simps)
qed

lemma bounded_rows:
  assumes S: "store_ok env S" and x: "b_fields x = so_fields S" "set (b_rows x) \<subseteq> set (so_rows S)"
    and b: "whole_seconds b" "whole_seconds e"
  shows "b_rows (bounded_batch env b e final x) = filter (in_slice S (b, e, final)) (b_rows x)"
proof -
  have "b_rows (bounded_batch env b e final x) =
      filter (include_row (sv_gfi env) (map fd_name (so_fields S)) (time_bounds b e final) []) (b_rows x)"
    using x(1) by (simp add: bounded_batch_def qualify_output_batch_def qualifyBatchColumns_def filter_batch_def applyFilter_rows)
  also have "\<dots> = filter (in_slice S (b, e, final)) (b_rows x)"
    using x(2) by (intro filter_cong) (auto simp: time_bounds_row [OF S _ b])
  finally show ?thesis .
qed

text \<open>One group.\<close>

lemma shard_rows:
  assumes S: "store_ok env S" "backend_serves env S" and b: "whole_seconds b" "whole_seconds e"
  shows "mset (concat (map b_rows (map (bounded_batch env b e final)
      (shard_batches env (shard_predicates (sv_pushable env) pvs b e))))) =
    filter_mset (\<lambda>r. selected_row S (other_predicates (sv_pushable env)) pvs r \<and> in_slice S (b, e, final) r) (mset (so_rows S))"
proof -
  let ?bs = "shard_batches env (shard_predicates (sv_pushable env) pvs b e)"
  let ?rows = "concat (map b_rows ?bs)" and ?P = "in_slice S (b, e, final)"
  let ?R = "in_seconds S (cpp_div b 1000000000) (cpp_div e 1000000000)"
  let ?sel = "selected_row S (other_predicates (sv_pushable env)) pvs"
  have c: "\<forall>x\<in>set ?bs. b_fields x = so_fields S" "set ?rows \<subseteq> set (so_rows S)"
    "filter_mset ?R (mset ?rows) = filter_mset (\<lambda>r. ?sel r \<and> ?R r) (mset (so_rows S))"
    using S(2) unfolding backend_serves_def shard_predicates_def other_predicates_def Let_def by blast+
  have sub: "?P r \<Longrightarrow> ?R r" for r
    using b [THEN whole_seconds_div] by (auto simp: in_slice_def in_seconds_def split: if_splits)
  have "map b_rows (map (bounded_batch env b e final) ?bs) = map (filter ?P \<circ> b_rows) ?bs"
    using c(1,2) by (auto intro!: bounded_rows [OF S(1) _ _ b])
  then have "concat (map b_rows (map (bounded_batch env b e final) ?bs)) = filter ?P ?rows"
    by (simp only: filter_concat map_map)
  then have "mset (concat (map b_rows (map (bounded_batch env b e final) ?bs))) = filter_mset ?P (mset ?rows)"
    by simp
  also have "\<dots> = filter_mset ?P (filter_mset ?R (mset ?rows))"
    unfolding filter_filter_mset using sub by (intro filter_mset_cong) auto
  also have "\<dots> = filter_mset (\<lambda>r. ?sel r \<and> ?P r) (mset (so_rows S))"
    unfolding c(3) filter_filter_mset using sub by (intro filter_mset_cong) auto
  finally show ?thesis .
qed

lemma filter_mset_disj_split:
  "(\<And>x. x \<in># M \<Longrightarrow> \<not> (P x \<and> Q x)) \<Longrightarrow> filter_mset P M + filter_mset Q M = filter_mset (\<lambda>x. P x \<or> Q x) M"
  by (induction M) auto

lemma series_groups_rows:
  assumes "k > 0" "distinct pvs"
  shows "sum_list (map (\<lambda>(off, vs). filter_mset (\<lambda>r. selected_row S ps vs r \<and> P r) M) (series_groups k off pvs)) =
    filter_mset (\<lambda>r. selected_row S ps pvs r \<and> P r) M"
  using assms
proof (induction k off pvs rule: series_groups.induct)
  case (1 k off pvs)
  show ?case
  proof (cases "pvs = []")
    case True
    then show ?thesis using series_groups.simps [of k off "[]"] by (simp add: selected_row_def)
  next
    case False
    have s: "set pvs = set (take k pvs) \<union> set (drop k pvs)" by (metis append_take_drop_id set_append)
    have d: "set (take k pvs) \<inter> set (drop k pvs) = {}" using 1(3) by (rule set_take_disj_set_drop_if_distinct) simp
    have "sum_list (map (\<lambda>(off, vs). filter_mset (\<lambda>r. selected_row S ps vs r \<and> P r) M) (series_groups k off pvs)) =
        filter_mset (\<lambda>r. selected_row S ps (take k pvs) r \<and> P r) M + filter_mset (\<lambda>r. selected_row S ps (drop k pvs) r \<and> P r) M"
      using 1 False by (simp add: series_groups.simps [of k off pvs])
    also have "\<dots> = filter_mset (\<lambda>r. (selected_row S ps (take k pvs) r \<and> P r) \<or> (selected_row S ps (drop k pvs) r \<and> P r)) M"
      by (rule filter_mset_disj_split) (use d in \<open>auto simp: selected_row_def\<close>)
    also have "\<dots> = filter_mset (\<lambda>r. selected_row S ps pvs r \<and> P r) M"
      by (rule filter_mset_cong) (auto simp: selected_row_def s)
    finally show ?thesis .
  qed
qed

lemma mset_concat_map: "mset (concat (map f xs)) = sum_list (map (\<lambda>x. mset (f x)) xs)"
  by (induction xs) simp_all

lemma concat_map_concat: "concat (map f (concat xss)) = concat (map (\<lambda>xs. concat (map f xs)) xss)"
  by (induction xss) simp_all

lemma slice_rows:
  assumes "store_ok env S" "backend_serves env S" "whole_seconds b" "whole_seconds e"
    and "sv_series_per_shard env > 0" "distinct pvs"
  shows "mset (concat (map b_rows (slice_batches env pvs (b, e, final)))) =
    filter_mset (\<lambda>r. selected_row S (other_predicates (sv_pushable env)) pvs r \<and> in_slice S (b, e, final) r) (mset (so_rows S))"
proof -
  let ?f = "\<lambda>vs. map (bounded_batch env b e final) (shard_batches env (shard_predicates (sv_pushable env) vs b e))"
  let ?g = "series_groups (sv_series_per_shard env) 0 pvs"
  have A: "concat (map b_rows (slice_batches env pvs (b, e, final))) = concat (map (\<lambda>(off, vs). concat (map b_rows (?f vs))) ?g)"
    by (simp add: slice_batches_def concat_map_concat comp_def case_prod_unfold)
  have "mset (concat (map b_rows (slice_batches env pvs (b, e, final)))) =
      sum_list (map (\<lambda>(off, vs). mset (concat (map b_rows (?f vs)))) ?g)"
    by (simp only: A mset_concat_map case_prod_unfold)
  also have "\<dots> = sum_list (map (\<lambda>(off, vs). filter_mset (\<lambda>r. selected_row S (other_predicates (sv_pushable env)) vs r \<and>
      in_slice S (b, e, final) r) (mset (so_rows S))) ?g)"
    by (simp only: shard_rows [OF assms(1-4)])
  also have "\<dots> = filter_mset (\<lambda>r. selected_row S (other_predicates (sv_pushable env)) pvs r \<and> in_slice S (b, e, final) r) (mset (so_rows S))"
    by (rule series_groups_rows [OF assms(5,6)])
  finally show ?thesis .
qed

lemma window_slices_rows:
  assumes "store_ok env S" "backend_serves env S" "sv_series_per_shard env > 0" "distinct pvs"
    and "sv_slice_ns env > 0" "1000000000 dvd sv_slice_ns env" "whole_seconds b" "whole_seconds e" "b \<le> e"
  shows "mset (concat (map b_rows (concat (map (slice_batches env pvs) (window_slices (sv_slice_ns env) b e))))) =
    filter_mset (\<lambda>r. selected_row S (other_predicates (sv_pushable env)) pvs r \<and> b \<le> row_time S r \<and> row_time S r \<le> e)
      (mset (so_rows S))"
  using assms(7-9)
proof (induction "sv_slice_ns env" b e rule: window_slices.induct)
  case (1 b e)
  let ?d = "sv_slice_ns env" and ?sel = "selected_row S (other_predicates (sv_pushable env)) pvs"
  show ?case
  proof (cases "e - b \<le> ?d")
    case True
    then have "window_slices ?d b e = [(b, e, True)]" using 1(4) assms(5) by (subst window_slices.simps) simp
    then show ?thesis
      using slice_rows [OF assms(1,2) 1(2,3) assms(3,4), of True] by (simp add: in_slice_def)
  next
    case False
    then have w: "window_slices ?d b e = (b, b + ?d, False) # window_slices ?d (b + ?d) e"
      using 1(4) assms(5) by (subst window_slices.simps) simp
    have wd: "whole_seconds (b + ?d)" using 1(2,3) assms(5,6) False by (auto simp: whole_seconds_def)
    have ih: "mset (concat (map b_rows (concat (map (slice_batches env pvs) (window_slices ?d (b + ?d) e))))) =
        filter_mset (\<lambda>r. ?sel r \<and> b + ?d \<le> row_time S r \<and> row_time S r \<le> e) (mset (so_rows S))"
      by (rule 1(1)) (use assms(5) False wd 1(3,4) in simp_all)
    have "mset (concat (map b_rows (concat (map (slice_batches env pvs) (window_slices ?d b e))))) =
        filter_mset (\<lambda>r. ?sel r \<and> in_slice S (b, b + ?d, False) r) (mset (so_rows S)) +
        filter_mset (\<lambda>r. ?sel r \<and> b + ?d \<le> row_time S r \<and> row_time S r \<le> e) (mset (so_rows S))"
      unfolding ih [symmetric] slice_rows [OF assms(1,2) 1(2) wd assms(3,4), symmetric] w by simp
    also have "\<dots> = filter_mset (\<lambda>r. (?sel r \<and> in_slice S (b, b + ?d, False) r) \<or>
        (?sel r \<and> b + ?d \<le> row_time S r \<and> row_time S r \<le> e)) (mset (so_rows S))"
      by (rule filter_mset_disj_split) (auto simp: in_slice_def)
    also have "\<dots> = filter_mset (\<lambda>r. ?sel r \<and> b \<le> row_time S r \<and> row_time S r \<le> e) (mset (so_rows S))"
      by (rule filter_mset_cong) (use False assms(5) in \<open>auto simp: in_slice_def\<close>)
    finally show ?thesis .
  qed
qed

lemma scan_rows:
  assumes "store_ok env S" "backend_serves env S" "sv_series_per_shard env > 0" "distinct pvs"
    and "sv_slice_ns env > 0" "1000000000 dvd sv_slice_ns env"
    and "\<forall>(b, e)\<in>set windows. whole_seconds b \<and> whole_seconds e \<and> b \<le> e"
  shows "mset (concat (map b_rows (scan_batches env pvs windows))) =
    mset (concat (map (\<lambda>(b, e). filter (\<lambda>r. selected_row S (other_predicates (sv_pushable env)) pvs r \<and>
      b \<le> row_time S r \<and> row_time S r \<le> e) (so_rows S)) windows))"
  using assms(7)
proof (induction windows)
  case Nil
  then show ?case by (simp add: scan_batches_def)
next
  case (Cons w windows)
  obtain b e where w: "w = (b, e)" by force
  have "scan_batches env pvs (w # windows) =
      concat (map (slice_batches env pvs) (window_slices (sv_slice_ns env) b e)) @ scan_batches env pvs windows"
    by (simp add: scan_batches_def w)
  then show ?case
    using window_slices_rows [OF assms(1-6), of b e] Cons by (simp add: w)
qed

lemma open_scan:
  assumes "env_ok env" "windows_ok windows" "windows \<noteq> []" "requestedPvs (sv_pushable env) \<noteq> []"
  shows "\<exists>st. openWindowScan env windows = Inr st \<and>
    drains env st (scan_batches env (requestedPvs (sv_pushable env)) windows)"
proof -
  let ?pvs = "requestedPvs (sv_pushable env)"
  let ?z = "\<lparr>sc_windows = windows, sc_requested_pvs = ?pvs, sc_groups = [], sc_group_index = 0,
     sc_next_group_to_start = 0, sc_parallel_shard_limit = 0, sc_window_index = 0,
     sc_window_begin_ns = 0, sc_window_end_ns = 0, sc_slice_begin_ns = 0, sc_slice_end_ns = 0,
     sc_final_slice = False\<rparr>"
  have w: "window_ok (selectWindow ?z)" by (rule selectWindow_ok) (use assms(2,3) in simp_all)
  have p: "plan_left env (selectWindow ?z) = concat (map (\<lambda>(b, e). window_slices (sv_slice_ns env) b e) windows)"
    by (subst selectWindow_plan) (use assms(3) in simp_all)
  from prepareNextSlice_ok [OF assms(1) w] assms(4) obtain st where
    st: "prepareNextSlice env (selectWindow ?z) = Inr st" "scan_ok env st"
      "stream_left env st = concat (map (slice_batches env ?pvs) (plan_left env (selectWindow ?z)))"
    by auto
  have "openWindowScan env windows = Inr st" using st(1) assms(3,4) by (simp add: openWindowScan_def Let_def)
  moreover have "drains env st (scan_batches env ?pvs windows)"
    using drains_left [OF assms(1) st(2)] unfolding st(3) p scan_batches_def .
  ultimately show ?thesis by blast
qed

section \<open>The serial loop visits the same batches\<close>

text \<open>What the backend delivers to a scan: its batches, each with the bounds of the slice it was asked for.\<close>

type_synonym delivery = "(int \<times> int \<times> bool) \<times> batch"

definition slice_deliveries :: "ScanEnv \<Rightarrow> string list \<Rightarrow> int \<times> int \<times> bool \<Rightarrow> delivery list" where
  "slice_deliveries env pvs s =
     (case s of (b, e, final) \<Rightarrow>
        concat (map (\<lambda>(offset, values). map (Pair s) (shard_batches env (shard_predicates (sv_pushable env) values b e)))
          (series_groups (sv_series_per_shard env) 0 pvs)))"

definition deliveries :: "ScanEnv \<Rightarrow> string list \<Rightarrow> window list \<Rightarrow> delivery list" where
  "deliveries env pvs windows =
     concat (map (slice_deliveries env pvs)
       (concat (map (\<lambda>(b, e). window_slices (sv_slice_ns env) b e) windows)))"

text \<open>The batch of the stream and the batch of the serial loop for a delivery.\<close>

fun stream_batch :: "ScanEnv \<Rightarrow> delivery \<Rightarrow> batch" where
  "stream_batch env ((b, e, final), x) = bounded_batch env b e final x"

fun serial_batch :: "ScanEnv \<Rightarrow> Predicate list \<Rightarrow> delivery \<Rightarrow> batch" where
  "serial_batch env local_preds ((b, e, final), x) =
     the (qualify_output_batch env
       (filter_batch (sv_gfi env) local_preds
         (filter_batch (sv_gfi env)
           (\<lparr>pr_column = ''time'', pr_op = GTE, pr_values = [Lit_Timestamp b]\<rparr> #
            (if final then [] else [\<lparr>pr_column = ''time'', pr_op = LT, pr_values = [Lit_Timestamp e]\<rparr>])) x)))"

text \<open>A row passes predicates; a row of a last slice is not after the end of the window.\<close>

fun row_passes_all :: "ScanEnv \<Rightarrow> Predicate list \<Rightarrow> delivery \<Rightarrow> row \<Rightarrow> bool" where
  "row_passes_all env preds (s, x) r \<longleftrightarrow>
     (\<forall>p\<in>set preds. predicateTruth (sv_gfi env) (map fd_name (b_fields x)) r p = TRUE_VALUE)"

fun before_the_end :: "ScanEnv \<Rightarrow> delivery \<Rightarrow> row \<Rightarrow> bool" where
  "before_the_end env ((b, e, final), x) r \<longleftrightarrow>
     (final \<longrightarrow> predicateTruth (sv_gfi env) (map fd_name (b_fields x)) r
        \<lparr>pr_column = ''time'', pr_op = LTE, pr_values = [Lit_Timestamp e]\<rparr> = TRUE_VALUE)"

text \<open>The two batches of a delivery have the same columns; the serial one may have rows after the end besides.\<close>

definition delivers_alike :: "ScanEnv \<Rightarrow> Predicate list \<Rightarrow> delivery \<Rightarrow> bool" where
  "delivers_alike env local_preds d =
     (b_fields (serial_batch env local_preds d) = b_fields (stream_batch env d) \<and>
      filter (before_the_end env d) (b_rows (serial_batch env local_preds d)) =
        filter (row_passes_all env local_preds d) (b_rows (stream_batch env d)))"

definition ends_inside :: "ScanEnv \<Rightarrow> delivery \<Rightarrow> bool" where
  "ends_inside env d = (\<forall>r\<in>set (b_rows (snd d)). before_the_end env d r)"

lemma filter_batch_simps [simp]:
  "b_fields (filter_batch gfi ps x) = b_fields x"
  "b_rows (filter_batch gfi ps x) = filter (include_row gfi (map fd_name (b_fields x)) ps []) (b_rows x)"
  by (simp_all add: filter_batch_def applyFilter_rows)

lemma filter_batch_none: "filter_batch gfi [] x = x"
  by (rule batch.equality) (simp_all add: include_row_def)

lemma qualified_rows [simp]: "b_rows (the (qualify_output_batch env x)) = b_rows x"
  by (simp add: qualify_output_batch_def qualifyBatchColumns_def)

lemma qualified_fields:
  "b_fields x = b_fields y \<Longrightarrow> b_fields (the (qualify_output_batch env x)) = b_fields (the (qualify_output_batch env y))"
  by (simp_all add: qualify_output_batch_def qualifyBatchColumns_def)

lemma deliveries_stream: "map (stream_batch env) (deliveries env pvs windows) = scan_batches env pvs windows"
proof -
  have "map (stream_batch env) (slice_deliveries env pvs s) = slice_batches env pvs s" for s
    by (cases s) (simp add: slice_deliveries_def slice_batches_def map_concat comp_def case_prod_unfold)
  then show ?thesis by (simp add: deliveries_def scan_batches_def map_concat comp_def)
qed

lemma delivery_alike: "delivers_alike env local_preds d"
proof -
  obtain b e final x where d: "d = ((b, e, final), x)" by (cases d) auto
  have "b_fields (serial_batch env local_preds d) = b_fields (stream_batch env d)"
    by (auto simp: d bounded_batch_def intro!: qualified_fields)
  moreover have "filter (before_the_end env d) (b_rows (serial_batch env local_preds d)) =
      filter (row_passes_all env local_preds d) (b_rows (stream_batch env d))"
    by (cases final) (auto simp: d bounded_batch_def include_row_def time_bounds_def intro!: filter_cong)
  ultimately show ?thesis by (simp add: delivers_alike_def)
qed

lemma delivery_equal:
  assumes "ends_inside env d"
  shows "serial_batch env [] d = stream_batch env d"
proof -
  obtain b e final x where d: "d = ((b, e, final), x)" by (cases d) auto
  let ?lower = "\<lparr>pr_column = ''time'', pr_op = GTE, pr_values = [Lit_Timestamp b]\<rparr>"
  have "filter_batch (sv_gfi env) (?lower # (if final then [] else [\<lparr>pr_column = ''time'', pr_op = LT, pr_values = [Lit_Timestamp e]\<rparr>])) x =
      filter_batch (sv_gfi env) (time_bounds b e final) x"
    by (rule batch.equality) (use assms in \<open>auto simp: d ends_inside_def include_row_def time_bounds_def intro!: filter_cong\<close>)
  then show ?thesis by (simp add: d bounded_batch_def filter_batch_none)
qed

lemma serial_shard_ok:
  assumes "backend_answers env"
  shows "serial_shard env local_preds b e final values =
    Inr (map (serial_batch env local_preds)
      (map (Pair (b, e, final)) (shard_batches env (shard_predicates (sv_pushable env) values b e))))"
proof -
  obtain bs where o: "sv_open env (shard_predicates (sv_pushable env) values b e) = Inr (bs, None)"
    using assms by (auto simp: backend_answers_def)
  have "shard_batches env (shard_predicates (sv_pushable env) values b e) = bs" by (simp add: shard_batches_def o)
  then show ?thesis by (simp add: serial_shard_def o Let_def filter_batch_none)
qed

lemma serial_slices_ok:
  assumes "backend_answers env" "d > 0" "0 \<le> b" "b \<le> e" "e < int64_max"
  shows "serial_slices env local_preds pvs d b e =
    Inr (map (serial_batch env local_preds) (concat (map (slice_deliveries env pvs) (window_slices d b e))))"
  using assms(2-5)
proof (induction d b e rule: window_slices.induct)
  case (1 d b e)
  let ?s = "if e - b < d then e else b + d"
  have i: "int64 (e - b) = Inr (e - b)" proof -
    have "0 \<le> e - b" "e - b < int64_max" using 1(3-5) by linarith+
    then show ?thesis by (simp add: int64_def int64_max_def)
  qed
  have m: "map_sum id concat (mapE (\<lambda>(offset, values). serial_shard env local_preds b s f values)
        (series_groups (sv_series_per_shard env) 0 pvs)) =
      Inr (map (serial_batch env local_preds) (slice_deliveries env pvs (b, s, f)))" for s f
    unfolding serial_shard_ok [OF assms(1)] slice_deliveries_def
    by (subst mapE_total [where g = "\<lambda>(offset, values). map (serial_batch env local_preds)
          (map (Pair (b, s, f)) (shard_batches env (shard_predicates (sv_pushable env) values b s)))"])
      (auto simp: map_concat comp_def case_prod_unfold)
  obtain outs where o: "mapE (\<lambda>(offset, values). serial_shard env local_preds b ?s (?s = e) values)
      (series_groups (sv_series_per_shard env) 0 pvs) = Inr outs"
    "concat outs = map (serial_batch env local_preds) (slice_deliveries env pvs (b, ?s, ?s = e))"
    using m [of ?s "?s = e"] by (cases "mapE (\<lambda>(offset, values). serial_shard env local_preds b ?s (?s = e) values)
      (series_groups (sv_series_per_shard env) 0 pvs)") auto
  show ?case
  proof (cases "?s = e")
    case True
    then show ?thesis
      using 1(2,4) i o window_slices_step [OF 1(2,4)] by (subst serial_slices.simps) (simp add: Let_def split: if_splits)
  next
    case False
    then have s: "?s = b + d" "\<not> e - b \<le> d" "e - b \<ge> d" by (auto split: if_splits)
    have ih: "serial_slices env local_preds pvs d (b + d) e =
        Inr (map (serial_batch env local_preds) (concat (map (slice_deliveries env pvs) (window_slices d (b + d) e))))"
      by (rule 1(1)) (use 1(2-5) s in simp_all)
    show ?thesis
      using 1(2,4) i o False ih window_slices_step [OF 1(2,4)] s
      by (subst serial_slices.simps) (simp add: Let_def split: if_splits)
  qed
qed

lemma serial_ok:
  assumes "env_ok env" "windows_ok windows" "requestedPvs (sv_pushable env) \<noteq> []"
  shows "fetchTimeSeriesWindows env local_preds windows =
    Inr (map (serial_batch env local_preds) (deliveries env (requestedPvs (sv_pushable env)) windows))"
proof -
  let ?pvs = "requestedPvs (sv_pushable env)"
  let ?g = "\<lambda>(b, e). map (serial_batch env local_preds)
    (concat (map (slice_deliveries env ?pvs) (window_slices (sv_slice_ns env) b e)))"
  have "serial_window env local_preds ?pvs w = Inr (?g w)" if "w \<in> set windows" for w
  proof -
    obtain b e where w: "w = (b, e)" by force
    then have "0 \<le> b \<and> b \<le> e \<and> e < int64_max" using assms(2) that by (auto simp: windows_ok_def)
    then show ?thesis
      using assms(1) serial_slices_ok [of env "sv_slice_ns env" b e local_preds ?pvs] by (simp add: serial_window_def w env_ok_def)
  qed
  then have "mapE (serial_window env local_preds ?pvs) windows = Inr (map ?g windows)" by (rule mapE_total)
  moreover have "concat (map ?g windows) = map (serial_batch env local_preds) (deliveries env ?pvs windows)"
    unfolding deliveries_def by (induction windows) (simp_all add: case_prod_unfold)
  ultimately show ?thesis using assms(3) by (simp add: fetchTimeSeriesWindows_def Let_def)
qed

lemma serial_equal:
  assumes "env_ok env" "windows_ok windows" "requestedPvs (sv_pushable env) \<noteq> []"
    and "\<forall>d\<in>set (deliveries env (requestedPvs (sv_pushable env)) windows). ends_inside env d"
  shows "fetchTimeSeriesWindows env [] windows = Inr (scan_batches env (requestedPvs (sv_pushable env)) windows)"
  using assms(4) by (simp add: serial_ok [OF assms(1-3)] flip: deliveries_stream) (simp add: delivery_equal)

section \<open>An example\<close>

lemma small_exact:
  assumes "\<bar>t\<bar> \<le> 2 ^ 53"
  shows "sample_exact t"
  unfolding sample_exact_def
proof (intro allI impI)
  fix s :: int
  let ?u = "s * 1000000000"
  assume k: "int_key t = int_key ?u"
  consider "\<bar>?u\<bar> \<le> 2 ^ 53" | "?u > 2 ^ 53" | "?u < - (2 ^ 53)" by linarith
  then show "t = ?u"
  proof cases
    case 1
    then show ?thesis using k int_key_strict [of t ?u] int_key_strict [of ?u t] assms by force
  next
    case 2
    then have "9007199254740992 < ?u" by simp
    then have "9007199 < s" by linarith
    then have u: "?u \<ge> 9007200000000000" by linarith
    show ?thesis
    proof (cases "t = 2 ^ 53")
      case True
      have "int_key (2 ^ 53) < int_key 9007200000000000"
        by (simp add: int_key_def nat_double_bits_def bit_count_numeral round_significand_def Let_def)
      then show ?thesis using k int_key_mono [OF u] True by simp
    next
      case False
      then have "int_key t < int_key (2 ^ 53)" using assms by (intro int_key_strict) auto
      then show ?thesis using k int_key_mono [of "2 ^ 53" ?u] 2 by simp
    qed
  next
    case 3
    then have "?u < - 9007199254740992" by simp
    then have "s < - 9007199" by linarith
    then have u: "?u \<le> - 9007200000000000" by linarith
    show ?thesis
    proof (cases "t = - (2 ^ 53)")
      case True
      have "int_key (- 9007200000000000) < int_key (- (2 ^ 53))"
        by (simp add: int_key_def nat_double_bits_def bit_count_numeral round_significand_def Let_def)
      then show ?thesis using k int_key_mono [OF u] True by simp
    next
      case False
      then have "int_key (- (2 ^ 53)) < int_key t" using assms by (intro int_key_strict) auto
      then show ?thesis using k int_key_mono [of ?u "- (2 ^ 53)"] 3 by simp
    qed
  qed
qed

text \<open>A backend over a list of rows \<open>(pv, time)\<close> that applies the series and the range of seconds exactly.\<close>

definition ex_fields :: "field list" where
  "ex_fields = [\<lparr>fd_name = ''pv'', fd_type = AT_STRING, fd_nullable = True\<rparr>,
     \<lparr>fd_name = ''time'', fd_type = AT_TIMESTAMP ''UTC'', fd_nullable = True\<rparr>]"

definition ex_gfi :: lookup where
  "ex_gfi names c = (if c = ''pv'' then Some 0 else if c = ''time'' then Some 1 else None)"

definition ex_row :: "string \<Rightarrow> int \<Rightarrow> row" where
  "ex_row pv t = [SC_String pv, SC_Timestamp t]"

definition ex_series :: "row \<Rightarrow> string" where
  "ex_series r = (case r ! 0 of SC_String s \<Rightarrow> s | _ \<Rightarrow> [])"

definition ex_time :: "row \<Rightarrow> int" where
  "ex_time r = (case r ! 1 of SC_Timestamp t \<Rightarrow> t | _ \<Rightarrow> 0)"

definition ex_match :: "Predicate \<Rightarrow> row \<Rightarrow> bool" where
  "ex_match p r =
     (if pr_column p = ''pv'' then ex_series r \<in> set (string_values (pr_values p))
      else if pr_column p = ''time'' then
        (case (pr_op p, pr_values p) of
           (GTE, [Lit_Int a]) \<Rightarrow> a * 1000000000 \<le> ex_time r
         | (LTE, [Lit_Int b]) \<Rightarrow> ex_time r \<le> b * 1000000000
         | _ \<Rightarrow> True)
      else True)"

definition ex_env :: "row list \<Rightarrow> string list \<Rightarrow> int \<Rightarrow> nat \<Rightarrow> ScanEnv" where
  "ex_env rows pvs width streams =
     \<lparr>sv_pushable = [\<lparr>pr_column = ''pv'', pr_op = IN, pr_values = map Lit_String pvs\<rparr>],
      sv_slice_ns = width, sv_series_per_shard = 1, sv_qualify_output = False, sv_table_alias = [],
      sv_max_concurrent_streams = streams, sv_max_parallel_requests = 0, sv_gfi = ex_gfi,
      sv_open = (\<lambda>preds. Inr ([\<lparr>b_fields = ex_fields, b_rows = filter (\<lambda>r. \<forall>p\<in>set preds. ex_match p r) rows\<rparr>], None))\<rparr>"

definition ex_store :: "row list \<Rightarrow> Store" where
  "ex_store rows =
     \<lparr>so_rows = rows, so_fields = ex_fields, so_time_index = 1, so_series = ex_series, so_selects = ex_match\<rparr>"

lemma string_values_map [simp]: "string_values (map Lit_String pvs) = pvs"
  by (induction pvs) simp_all

lemma ex_backend: "backend_answers (ex_env rows pvs width n)" "backend_serves (ex_env rows pvs width n) (ex_store rows)"
proof -
  show "backend_answers (ex_env rows pvs width n)" by (simp add: backend_answers_def ex_env_def)
  have "row_time (ex_store rows) = ex_time" by (rule ext) (simp add: row_time_def ex_store_def ex_time_def)
  then show "backend_serves (ex_env rows pvs width n) (ex_store rows)"
    by (auto simp: backend_serves_def shard_batches_def ex_env_def ex_store_def ex_match_def Let_def
        in_seconds_def selected_row_def other_predicates_def simp flip: mset_filter intro!: arg_cong [of _ _ mset] filter_cong)
qed

definition ex_rows :: "row list" where
  "ex_rows = map (\<lambda>(pv, t). ex_row pv t)
     [(''A'', 500000000), (''A'', 5000000000), (''B'', 7500000000), (''C'', 1000000000), (''A'', 10000000001)]"

lemma ex_row_cases:
  assumes "rows = map (\<lambda>(pv, t). ex_row pv t) xs" "r \<in> set rows"
  obtains p t where "r = ex_row p t" "(p, t) \<in> set xs"
proof -
  have "r \<in> (\<lambda>(pv, t). ex_row pv t) ` set xs" using assms by simp
  then obtain x where x: "r = (\<lambda>(pv, t). ex_row pv t) x" "x \<in> set xs" by (rule imageE)
  show ?thesis by (rule that [of "fst x" "snd x"]) (use x in \<open>simp_all add: case_prod_unfold\<close>)
qed

lemma ex_store_ok:
  assumes "rows = map (\<lambda>(pv, t). ex_row pv t) xs" "\<forall>(pv, t)\<in>set xs. \<bar>t\<bar> \<le> 2 ^ 53"
  shows "store_ok (ex_env rows pvs width n) (ex_store rows)"
proof -
  have "predicateFieldIndex ex_gfi (map fd_name ex_fields) ''time'' = Some 1"
    by (simp add: predicateFieldIndex_def ex_gfi_def)
  moreover have "r ! 1 = SC_Timestamp (row_time (ex_store rows) r) \<and> \<bar>row_time (ex_store rows) r\<bar> < 2 ^ 63 \<and>
      sample_exact (row_time (ex_store rows) r)" if "r \<in> set rows" for r
  proof -
    from assms(1) that obtain p t where x: "r = ex_row p t" "(p, t) \<in> set xs" by (rule ex_row_cases)
    then have "\<bar>t\<bar> \<le> 2 ^ 53" using bspec [OF assms(2) x(2)] by simp
    with x(1) show ?thesis using small_exact [of t] by (simp add: row_time_def ex_store_def ex_row_def)
  qed
  ultimately show ?thesis by (simp add: store_ok_def ex_env_def ex_store_def)
qed

section \<open>Properties\<close>




text \<open>A backend that delivers whole buckets: all samples of the series, whatever the range.\<close>

definition ex_bucket_env :: "row list \<Rightarrow> ScanEnv" where
  "ex_bucket_env rows = (ex_env rows [''A''] 5000000000 2)
     \<lparr>sv_open := (\<lambda>preds. Inr ([\<lparr>b_fields = ex_fields, b_rows = rows\<rparr>], None))\<rparr>"

lemma ex_bucket_ok:
  "env_ok (ex_bucket_env rows)" "requestedPvs (sv_pushable (ex_bucket_env rows)) = [''A'']"
  "deliveries (ex_bucket_env rows) [''A''] [(0, 1000000000)] =
     [((0, 1000000000, True), \<lparr>b_fields = ex_fields, b_rows = rows\<rparr>)]"
  by (simp_all add: env_ok_def ex_bucket_env_def ex_env_def backend_answers_def requestedPvs_def deliveries_def
      slice_deliveries_def shard_batches_def series_groups.simps window_slices.simps [of "5000000000::int"])

lemma ex_time_truth:
  assumes "\<bar>t\<bar> \<le> 2 ^ 53" "\<bar>b\<bar> \<le> 2 ^ 53"
  shows "predicateTruth ex_gfi (map fd_name ex_fields) (ex_row p t)
      \<lparr>pr_column = ''time'', pr_op = GTE, pr_values = [Lit_Timestamp b]\<rparr> = TRUE_VALUE \<longleftrightarrow> b \<le> t"
    and "predicateTruth ex_gfi (map fd_name ex_fields) (ex_row p t)
      \<lparr>pr_column = ''time'', pr_op = LTE, pr_values = [Lit_Timestamp b]\<rparr> = TRUE_VALUE \<longleftrightarrow> t \<le> b"
proof -
  have "predicateFieldIndex ex_gfi (map fd_name ex_fields) ''time'' = Some 1"
    by (simp add: predicateFieldIndex_def ex_gfi_def)
  moreover have "int_key x \<le> int_key y \<longleftrightarrow> x \<le> y" if "\<bar>x\<bar> \<le> 2 ^ 53" "\<bar>y\<bar> \<le> 2 ^ 53" for x y :: int
    using that int_key_strict [of x y] int_key_strict [of y x] by (cases x y rule: linorder_cases) force+
  moreover have "\<bar>t\<bar> < 2 ^ 64" "\<bar>b\<bar> < 2 ^ 64" using assms by simp_all
  ultimately have "compareSingle (N_Timestamp t) (Lit_Timestamp b) GTE \<longleftrightarrow> b \<le> t"
    "compareSingle (N_Timestamp t) (Lit_Timestamp b) LTE \<longleftrightarrow> t \<le> b"
    "predicateFieldIndex ex_gfi (map fd_name ex_fields) ''time'' = Some 1"
    using assms by (auto simp: converted_compare)
  then show "predicateTruth ex_gfi (map fd_name ex_fields) (ex_row p t)
      \<lparr>pr_column = ''time'', pr_op = GTE, pr_values = [Lit_Timestamp b]\<rparr> = TRUE_VALUE \<longleftrightarrow> b \<le> t"
    and "predicateTruth ex_gfi (map fd_name ex_fields) (ex_row p t)
      \<lparr>pr_column = ''time'', pr_op = LTE, pr_values = [Lit_Timestamp b]\<rparr> = TRUE_VALUE \<longleftrightarrow> t \<le> b"
    by (simp_all add: predicateTruth_def ex_row_def scalarMatchesPredicate_def del: compareSingle.simps)
qed


text \<open>
  The serial loop has no upper bound in the last slice of a window: over a backend that delivers whole buckets it
  gives a sample at 2 s to the window up to 1 s, which the stream of the same scan leaves out.
\<close>

lemma serial_scan_passes_the_end:
  "map_sum id (\<lambda>bs. concat (map b_rows bs)) (fetchTimeSeriesWindows (ex_bucket_env [ex_row ''A'' 2000000000]) [] [(0, 1000000000)]) =
     Inr [ex_row ''A'' 2000000000]"
  "concat (map b_rows (scan_batches (ex_bucket_env [ex_row ''A'' 2000000000]) [''A''] [(0, 1000000000)])) = []"
proof -
  let ?env = "ex_bucket_env [ex_row ''A'' 2000000000]"
  have g: "sv_gfi ?env = ex_gfi" by (simp add: ex_bucket_env_def ex_env_def)
  have w: "windows_ok [(0, 1000000000)]" by (simp add: windows_ok_def int64_max_def)
  show "map_sum id (\<lambda>bs. concat (map b_rows bs)) (fetchTimeSeriesWindows ?env [] [(0, 1000000000)]) = Inr [ex_row ''A'' 2000000000]"
    using serial_ok [OF ex_bucket_ok(1) w] by (simp add: ex_bucket_ok g include_row_def ex_time_truth)
  show "concat (map b_rows (scan_batches ?env [''A''] [(0, 1000000000)])) = []"
    by (simp add: ex_bucket_ok g bounded_batch_def include_row_def time_bounds_def ex_time_truth flip: deliveries_stream)
qed

text \<open>The end of a slice is asked for in whole seconds, so a sample in the last fraction of a second of a window is
  never requested: over a backend that serves exactly the range of the request, the scan of a window up to 1.5 s
  delivers nothing although the window holds a sample at 1.2 s.
\<close>

theorem window_end_is_cut_to_seconds:
  "\<exists>st bs. openWindowScan (ex_env [ex_row ''A'' 1200000000] [''A''] 5000000000 1) [(0, 1500000000)] = Inr st \<and>
     drains (ex_env [ex_row ''A'' 1200000000] [''A''] 5000000000 1) st bs \<and> concat (map b_rows bs) = []"
proof -
  let ?env = "ex_env [ex_row ''A'' 1200000000] [''A''] 5000000000 1"
  have "env_ok ?env" using ex_backend(1) by (simp add: env_ok_def) (simp add: ex_env_def)
  moreover have p: "requestedPvs (sv_pushable ?env) = [''A'']" by (simp add: ex_env_def requestedPvs_def)
  ultimately obtain st where "openWindowScan ?env [(0, 1500000000)] = Inr st"
    "drains ?env st (scan_batches ?env [''A''] [(0, 1500000000)])"
    using open_scan [of ?env "[(0, 1500000000)]"] by (auto simp: windows_ok_def int64_max_def)
  moreover have "window_slices 5000000000 0 1500000000 = [(0, 1500000000, True)]"
    by (subst window_slices.simps) simp
  then have "concat (map b_rows (scan_batches ?env [''A''] [(0, 1500000000)])) = []"
    by (simp add: scan_batches_def slice_batches_def ex_env_def series_groups.simps [of 1 0 "[''A'']"]
        series_groups.simps [of 1 1 "[]"] shard_batches_def shard_predicates_def ex_match_def ex_row_def ex_time_def
        cpp_div_def bounded_batch_def qualify_output_batch_def filter_batch_def applyFilter_rows)
  ultimately show ?thesis by blast
qed

text \<open>
  A series that the predicates name twice is scanned twice when the series groups are small: the sample at 1 s comes out
  twice.  The backend client removes repeated names, the scan of windows keeps them.
\<close>

lemma repeated_series_are_repeated:
  "\<exists>st bs. openWindowScan (ex_env [ex_row ''A'' 1000000000] [''A'', ''A''] 5000000000 1) [(0, 2000000000)] = Inr st \<and>
     drains (ex_env [ex_row ''A'' 1000000000] [''A'', ''A''] 5000000000 1) st bs \<and>
     concat (map b_rows bs) = [ex_row ''A'' 1000000000, ex_row ''A'' 1000000000]"
proof -
  let ?env = "ex_env [ex_row ''A'' 1000000000] [''A'', ''A''] 5000000000 1"
  have "env_ok ?env" using ex_backend(1) by (simp add: env_ok_def) (simp add: ex_env_def)
  moreover have p: "requestedPvs (sv_pushable ?env) = [''A'', ''A'']" by (simp add: ex_env_def requestedPvs_def)
  ultimately obtain st where "openWindowScan ?env [(0, 2000000000)] = Inr st"
    "drains ?env st (scan_batches ?env [''A'', ''A''] [(0, 2000000000)])"
    using open_scan [of ?env "[(0, 2000000000)]"] by (auto simp: windows_ok_def int64_max_def)
  moreover have "concat (map b_rows (scan_batches ?env [''A'', ''A''] [(0, 2000000000)])) =
      [ex_row ''A'' 1000000000, ex_row ''A'' 1000000000]"
  proof -
    have S: "store_ok ?env (ex_store [ex_row ''A'' 1000000000])"
      by (rule ex_store_ok [of _ "[(''A'', 1000000000)]"]) simp_all
    have w: "window_slices 5000000000 0 2000000000 = [(0, 2000000000, True)]" by (subst window_slices.simps) simp
    have x: "shard_batches ?env (shard_predicates (sv_pushable ?env) [''A''] 0 2000000000) =
        [\<lparr>b_fields = ex_fields, b_rows = [ex_row ''A'' 1000000000]\<rparr>]"
      by (simp add: shard_batches_def ex_env_def shard_predicates_def ex_match_def ex_row_def ex_series_def ex_time_def cpp_div_def)
    have "b_rows (bounded_batch ?env 0 2000000000 True \<lparr>b_fields = ex_fields, b_rows = [ex_row ''A'' 1000000000]\<rparr>) =
        [ex_row ''A'' 1000000000]"
      by (subst bounded_rows [OF S]) (simp_all add: ex_store_def whole_seconds_def int64_max_def in_slice_def row_time_def ex_row_def)
    moreover have "series_groups (sv_series_per_shard ?env) 0 [''A'', ''A''] = [(0, [''A'']), (1, [''A''])]"
      "sv_slice_ns ?env = 5000000000"
      by (simp_all add: ex_env_def series_groups.simps)
    ultimately show ?thesis using x w by (simp add: scan_batches_def slice_batches_def)
  qed
  ultimately show ?thesis by blast
qed

end
