(* ===== verification/Physical_Plan.thy ===== *)
theory Physical_Plan
  imports Plan_Required Joins
begin

text \<open>
  Physical planning: the lowering of the logical plan, the row budget of \<open>LIMIT\<close>
  (\<open>src/query/planner/PhysicalPlanner.cpp\<close>), the correlated push of joins
  (\<open>src/query/planner/CorrelatedPushOptimizer.cpp\<close>), the text of \<open>EXPLAIN\<close>, and the planning of
  statements with \<open>UNION\<close> (\<open>src/query/QueryPlanner.cpp\<close>).  Nodes are trees: no pass shares a node between two
  parents.  The binder is a parameter of the planning of statements.
\<close>

section \<open>Physical plans\<close>

record 'q PhysicalInSubquery =
  sq_predicate :: Predicate
  sq_column_type :: ColumnType
  sq_pushable :: bool
  sq_child :: 'q

record 'q PhysicalTableScan =
  pt_table_name :: string
  pt_table_alias :: string
  pt_qualify_output :: bool
  pt_pushable_predicates :: "Predicate list"
  pt_projection_hint :: "string set"
  pt_ipc_path :: string
  pt_arrow_ipc :: bool
  pt_derived_query :: "'q option"
  pt_in_subqueries :: "'q PhysicalInSubquery list"
  pt_window_subquery :: "'q option"
  pt_window_literal :: "(int \<times> int) option"
  pt_window_shards :: WindowShardSpec
  pt_projection_explicit :: bool
  pt_row_limit :: nat

text \<open>\<open>PredicateGroup\<close> with the list of children of every kind.\<close>

datatype PhysicalGroup =
    XG_Leaf Predicate
  | XG_And "PhysicalGroup list"
  | XG_Or "PhysicalGroup list"
  | XG_Not "PhysicalGroup list"

record PhysicalFilter =
  pf_predicates :: "Predicate list"
  pf_predicate_groups :: "PhysicalGroup list"
  pf_conditions :: "expr list"

record PhysicalProject =
  pj_columns :: "string list"
  pj_expressions :: "expr list"
  pj_names :: "string list"
  pj_distinct :: bool
  pj_distinct_on :: "expr list"

record PhysicalPivot =
  pv_row_key_column :: string
  pv_pivot_key_column :: string
  pv_value_column :: string
  pv_output_column_labels :: "string list"
  pv_output_batch_size :: nat

text \<open>\<open>P_Null\<close> is the null pointer.  The algorithm field of the join nodes is fixed by the node type.\<close>

datatype 'q PhysicalNode =
    P_Null
  | P_Scan "'q PhysicalTableScan"
  | P_Filter PhysicalFilter "'q PhysicalNode"
  | P_Project PhysicalProject "'q PhysicalNode"
  | P_Sort "LogicalSortKey list" "'q PhysicalNode"
  | P_Limit nat "'q PhysicalNode"
  | P_Aggregate PlanAggregateSpec "'q PhysicalNode"
  | P_Window "WindowGroup list" bool "'q PhysicalNode"
  | P_Pivot PhysicalPivot "'q PhysicalNode"
  | P_HashJoin JoinType LogicalJoinCondition "string list" "'q PhysicalNode" "'q PhysicalNode"
  | P_NestedLoopJoin JoinType LogicalJoinCondition bool "'q PhysicalNode" "'q PhysicalNode"
  | P_BlockNestedLoopJoin JoinType LogicalJoinCondition "string list" "'q PhysicalNode" "'q PhysicalNode"
  | P_Union "'q PhysicalNode list" bool
  | P_ShowTables
  | P_ShowFunctions
  | P_ShowOperators
  | P_Describe string
  | P_Explain string
  | P_CreateTable string bool "'q PhysicalNode"
  | P_DropTable string

section \<open>Lowering\<close>

definition toExecutableValue :: "LiteralValue \<Rightarrow> exn + literal" where
  "toExecutableValue v =
     (case v of
        LV_Now offset \<Rightarrow> Inl (PlannerTypeError ''NOW literal reached physical planning unexpectedly'')
      | LV l \<Rightarrow> Inr l)"

definition toExecutablePredicate :: "PlannerPredicate \<Rightarrow> exn + Predicate" where
  "toExecutablePredicate p =
     map_sum id (\<lambda>vs. \<lparr>pr_column = pp_column p, pr_op = pp_op p, pr_values = vs\<rparr>) (mapE toExecutableValue (pp_values p))"

fun to_group :: "PlannerPredicateGroup \<Rightarrow> exn + PhysicalGroup" where
  "to_group (PG_Leaf p) = map_sum id XG_Leaf (toExecutablePredicate p)"
| "to_group (PG_And gs) = map_sum id XG_And (mapE to_group gs)"
| "to_group (PG_Or gs) = map_sum id XG_Or (mapE to_group gs)"
| "to_group (PG_Not gs) = map_sum id XG_Not (mapE to_group gs)"

definition to_subquery :: "'q BoundInSubquery \<Rightarrow> exn + 'q PhysicalInSubquery" where
  "to_subquery q =
     map_sum id (\<lambda>p. \<lparr>sq_predicate = p, sq_column_type = pp_column_type (bi_predicate q),
         sq_pushable = (IN \<in> pp_pushable_ops (bi_predicate q)), sq_child = bi_child q\<rparr>)
       (toExecutablePredicate (bi_predicate q))"

text \<open>\<open>std::get<int64_t>\<close> of both ends; another alternative throws \<open>std::bad_variant_access\<close>.\<close>

definition window_bounds :: "(LiteralValue \<times> LiteralValue) option \<Rightarrow> exn + (int \<times> int) option" where
  "window_bounds w =
     (case w of
        None \<Rightarrow> Inr None
      | Some (LV (Lit_Int a), LV (Lit_Int b)) \<Rightarrow> Inr (Some (a, b))
      | Some _ \<Rightarrow> Inl (LogicError ''bad_variant_access''))"

definition string_literals :: "LiteralValue list \<Rightarrow> string list" where
  "string_literals vs = concat (map (\<lambda>v. case v of LV (Lit_String s) \<Rightarrow> [s] | _ \<Rightarrow> []) vs)"

definition pivot_labels :: "PlannerPredicate list \<Rightarrow> string list" where
  "pivot_labels ps =
     concat (map (\<lambda>p. if pp_column p \<noteq> ''pv'' \<or> (pp_op p \<noteq> EQ \<and> pp_op p \<noteq> IN) then []
                      else string_literals (pp_values p)) ps)"

definition buildScan :: "'q LogicalScan \<Rightarrow> exn + 'q PhysicalNode" where
  "buildScan s =
     (case mapE toExecutablePredicate (ls_pushable_predicates s) of Inl e \<Rightarrow> Inl e | Inr ps \<Rightarrow>
     (case mapE to_subquery (ls_in_subqueries s) of Inl e \<Rightarrow> Inl e | Inr qs \<Rightarrow>
     (case window_bounds (ls_window_literal s) of Inl e \<Rightarrow> Inl e | Inr w \<Rightarrow>
       let scan = \<lparr>pt_table_name = ls_table_name s, pt_table_alias = ls_table_alias s, pt_qualify_output = False,
             pt_pushable_predicates = ps, pt_projection_hint = ls_projection_hint s, pt_ipc_path = ls_ipc_path s,
             pt_arrow_ipc = ls_arrow_ipc s, pt_derived_query = ls_derived_query s, pt_in_subqueries = qs,
             pt_window_subquery = ls_window_subquery s, pt_window_literal = w, pt_window_shards = ls_window_shards s,
             pt_projection_explicit = ls_projection_explicit s, pt_row_limit = 0\<rparr>;
           sample_selector = (\<exists>p\<in>set (ls_pushable_predicates s).
             prefix ''status_'' (pp_column p) \<or> prefix ''config_'' (pp_column p)) in
       if ls_table_name s \<noteq> ''mldp.time_series_table'' \<or> sample_selector then Inr (P_Scan scan)
       else Inr (P_Pivot
         \<lparr>pv_row_key_column = ''time'', pv_pivot_key_column = ''pv'', pv_value_column = ''value'',
          pv_output_column_labels = pivot_labels (ls_pushable_predicates s), pv_output_batch_size = 4096\<rparr>
         (P_Scan (scan\<lparr>pt_table_name := ''mldp.time_series''\<rparr>))))))"

fun isColumn :: "expr \<Rightarrow> string \<Rightarrow> bool" where
  "isColumn (E_Column c) name = (qc_name c = name)"
| "isColumn _ name = False"

fun over_time_series :: "'q LogicalNode \<Rightarrow> bool" where
  "over_time_series (L_Scan s) = (ls_table_name s = ''mldp.time_series'')"
| "over_time_series (L_Filter f n) = over_time_series n"
| "over_time_series _ = False"

definition timeSeriesSortedInput :: "WindowGroup list \<Rightarrow> 'q LogicalNode \<Rightarrow> bool" where
  "timeSeriesSortedInput groups input =
     (case groups of
        [] \<Rightarrow> False
      | g # _ \<Rightarrow>
          (case (wg_partition_by g, wg_order_by g) of
             ([p], [k]) \<Rightarrow> isColumn p ''pv'' \<and> \<not> lk_descending k \<and> isColumn (lk_expression k) ''time'' \<and> over_time_series input
           | _ \<Rightarrow> False))"

definition lower_filter :: "LogicalFilter \<Rightarrow> exn + PhysicalFilter" where
  "lower_filter f =
     (case mapE toExecutablePredicate (lf_predicates f) of Inl e \<Rightarrow> Inl e | Inr ps \<Rightarrow>
       map_sum id (\<lambda>gs. \<lparr>pf_predicates = ps, pf_predicate_groups = gs, pf_conditions = lf_conditions f\<rparr>)
         (mapE to_group (lf_predicate_groups f)))"

definition lower_join_type :: "LogicalJoinType \<Rightarrow> JoinType" where
  "lower_join_type t = (if t = LJ_LEFT_OUTER then LEFT_OUTER else INNER)"

fun buildNode :: "'q LogicalNode \<Rightarrow> exn + 'q PhysicalNode" where
  "buildNode L_Null = Inr P_Null"
| "buildNode (L_Scan s) = buildScan s"
| "buildNode (L_Filter f n) =
     (case lower_filter f of Inl e \<Rightarrow> Inl e | Inr pf \<Rightarrow> map_sum id (P_Filter pf) (buildNode n))"
| "buildNode (L_Project p n) =
     map_sum id (P_Project \<lparr>pj_columns = lp_columns p, pj_expressions = lp_expressions p, pj_names = lp_names p,
       pj_distinct = lp_distinct p, pj_distinct_on = lp_distinct_on p\<rparr>) (buildNode n)"
| "buildNode (L_Sort keys n) = map_sum id (P_Sort keys) (buildNode n)"
| "buildNode (L_Limit l n) = map_sum id (P_Limit l) (buildNode n)"
| "buildNode (L_Aggregate spec n) = map_sum id (P_Aggregate spec) (buildNode n)"
| "buildNode (L_Window groups n) = map_sum id (P_Window groups (timeSeriesSortedInput groups n)) (buildNode n)"
| "buildNode (L_Join j l r) =
     (case buildNode l of Inl e \<Rightarrow> Inl e | Inr pl \<Rightarrow>
       map_sum id (P_HashJoin (lower_join_type (lj_type j)) (lj_condition j) (lj_warnings j) pl) (buildNode r))"

section \<open>Traversal\<close>

fun physical_children :: "'q PhysicalNode \<Rightarrow> 'q PhysicalNode list" where
  "physical_children (P_Filter f n) = [n]"
| "physical_children (P_Project p n) = [n]"
| "physical_children (P_Sort k n) = [n]"
| "physical_children (P_Limit l n) = [n]"
| "physical_children (P_Aggregate a n) = [n]"
| "physical_children (P_Window g s n) = [n]"
| "physical_children (P_Pivot v n) = [n]"
| "physical_children (P_HashJoin t c w l r) = [l, r]"
| "physical_children (P_NestedLoopJoin t c p l r) = [l, r]"
| "physical_children (P_BlockNestedLoopJoin t c w l r) = [l, r]"
| "physical_children (P_Union ns d) = ns"
| "physical_children (P_CreateTable t tmp n) = [n]"
| "physical_children _ = []"

text \<open>\<open>forEachChild\<close> with a callback that replaces the child.\<close>

fun map_physical :: "('q PhysicalNode \<Rightarrow> 'q PhysicalNode) \<Rightarrow> 'q PhysicalNode \<Rightarrow> 'q PhysicalNode" where
  "map_physical f (P_Filter x n) = P_Filter x (f n)"
| "map_physical f (P_Project x n) = P_Project x (f n)"
| "map_physical f (P_Sort k n) = P_Sort k (f n)"
| "map_physical f (P_Limit l n) = P_Limit l (f n)"
| "map_physical f (P_Aggregate a n) = P_Aggregate a (f n)"
| "map_physical f (P_Window g s n) = P_Window g s (f n)"
| "map_physical f (P_Pivot v n) = P_Pivot v (f n)"
| "map_physical f (P_HashJoin t c w l r) = P_HashJoin t c w (f l) (f r)"
| "map_physical f (P_NestedLoopJoin t c p l r) = P_NestedLoopJoin t c p (f l) (f r)"
| "map_physical f (P_BlockNestedLoopJoin t c w l r) = P_BlockNestedLoopJoin t c w (f l) (f r)"
| "map_physical f (P_Union ns d) = P_Union (map f ns) d"
| "map_physical f (P_CreateTable t tmp n) = P_CreateTable t tmp (f n)"
| "map_physical f n = n"

lemma map_physical_cong [fundef_cong]:
  "n = m \<Longrightarrow> (\<And>c. c \<in> set (physical_children m) \<Longrightarrow> f c = g c) \<Longrightarrow> map_physical f n = map_physical g m"
  by (cases m) auto

lemma size_in_list: "c \<in> set xs \<Longrightarrow> size c < Suc (size_list size xs)"
  by (induction xs) auto

lemma physical_children_size: "c \<in> set (physical_children n) \<Longrightarrow> size c < size n"
  by (cases n) (auto simp: size_in_list)

fun isJoin :: "'q PhysicalNode \<Rightarrow> bool" where
  "isJoin (P_HashJoin t c w l r) = True"
| "isJoin (P_NestedLoopJoin t c p l r) = True"
| "isJoin (P_BlockNestedLoopJoin t c w l r) = True"
| "isJoin _ = False"

section \<open>Qualified output\<close>

function markJoinOutputQualification :: "bool \<Rightarrow> 'q PhysicalNode \<Rightarrow> 'q PhysicalNode" where
  "markJoinOutputQualification under_join n =
     (case n of
        P_Null \<Rightarrow> P_Null
      | P_Scan s \<Rightarrow> P_Scan (s\<lparr>pt_qualify_output := under_join\<rparr>)
      | P_CreateTable t tmp c \<Rightarrow> n
      | _ \<Rightarrow> map_physical (markJoinOutputQualification (under_join \<or> isJoin n)) n)"
  by pat_completeness auto
termination by (relation "measure (\<lambda>(b, n). size n)") (auto simp: physical_children_size size_in_list)

declare markJoinOutputQualification.simps [simp del]

lemma mark_simps [simp]:
  "markJoinOutputQualification u P_Null = P_Null"
  "markJoinOutputQualification u (P_Scan s) = P_Scan (s\<lparr>pt_qualify_output := u\<rparr>)"
  "markJoinOutputQualification u (P_Filter f n) = P_Filter f (markJoinOutputQualification u n)"
  "markJoinOutputQualification u (P_Project p n) = P_Project p (markJoinOutputQualification u n)"
  "markJoinOutputQualification u (P_Sort k n) = P_Sort k (markJoinOutputQualification u n)"
  "markJoinOutputQualification u (P_Limit lim n) = P_Limit lim (markJoinOutputQualification u n)"
  "markJoinOutputQualification u (P_Aggregate a n) = P_Aggregate a (markJoinOutputQualification u n)"
  "markJoinOutputQualification u (P_Window g so n) = P_Window g so (markJoinOutputQualification u n)"
  "markJoinOutputQualification u (P_Pivot v n) = P_Pivot v (markJoinOutputQualification u n)"
  "markJoinOutputQualification u (P_HashJoin t c w l r) =
     P_HashJoin t c w (markJoinOutputQualification True l) (markJoinOutputQualification True r)"
  "markJoinOutputQualification u (P_NestedLoopJoin t c b l r) =
     P_NestedLoopJoin t c b (markJoinOutputQualification True l) (markJoinOutputQualification True r)"
  "markJoinOutputQualification u (P_BlockNestedLoopJoin t c w l r) =
     P_BlockNestedLoopJoin t c w (markJoinOutputQualification True l) (markJoinOutputQualification True r)"
  "markJoinOutputQualification u (P_Union ns d) = P_Union (map (markJoinOutputQualification u) ns) d"
  "markJoinOutputQualification u P_ShowTables = P_ShowTables"
  "markJoinOutputQualification u P_ShowFunctions = P_ShowFunctions"
  "markJoinOutputQualification u P_ShowOperators = P_ShowOperators"
  "markJoinOutputQualification u (P_Describe x) = P_Describe x"
  "markJoinOutputQualification u (P_Explain x) = P_Explain x"
  "markJoinOutputQualification u (P_CreateTable x tmp n) = P_CreateTable x tmp n"
  "markJoinOutputQualification u (P_DropTable x) = P_DropTable x"
  by (subst markJoinOutputQualification.simps, simp)+

section \<open>The row budget\<close>

definition plain_scan :: "'q PhysicalTableScan \<Rightarrow> bool" where
  "plain_scan s =
     (\<not> pt_arrow_ipc s \<and> pt_derived_query s = None \<and> pt_in_subqueries s = [] \<and> pt_window_subquery s = None \<and>
      pt_window_literal s = None)"

definition limit_scan :: "nat option \<Rightarrow> 'q PhysicalTableScan \<Rightarrow> 'q PhysicalTableScan" where
  "limit_scan budget s =
     s\<lparr>pt_row_limit := (case budget of Some b \<Rightarrow> if plain_scan s then b else 0 | None \<Rightarrow> 0)\<rparr>"

fun propagateScanRowLimit :: "nat option \<Rightarrow> 'q PhysicalNode \<Rightarrow> 'q PhysicalNode" where
  "propagateScanRowLimit budget P_Null = P_Null"
| "propagateScanRowLimit budget (P_Scan s) = P_Scan (limit_scan budget s)"
| "propagateScanRowLimit budget (P_Limit l n) =
     P_Limit l (propagateScanRowLimit (Some (case budget of Some b \<Rightarrow> min b l | None \<Rightarrow> l)) n)"
| "propagateScanRowLimit budget (P_Project p n) =
     P_Project p (propagateScanRowLimit (if pj_distinct p then None else budget) n)"
| "propagateScanRowLimit budget (P_Filter f n) = P_Filter f (propagateScanRowLimit None n)"
| "propagateScanRowLimit budget (P_Sort k n) = P_Sort k (propagateScanRowLimit None n)"
| "propagateScanRowLimit budget (P_Aggregate a n) = P_Aggregate a (propagateScanRowLimit None n)"
| "propagateScanRowLimit budget (P_Window g s n) = P_Window g s (propagateScanRowLimit None n)"
| "propagateScanRowLimit budget (P_Pivot v n) = P_Pivot v (propagateScanRowLimit None n)"
| "propagateScanRowLimit budget (P_HashJoin t c w l r) =
     P_HashJoin t c w (propagateScanRowLimit None l) (propagateScanRowLimit None r)"
| "propagateScanRowLimit budget (P_NestedLoopJoin t c p l r) =
     P_NestedLoopJoin t c p (propagateScanRowLimit None l) (propagateScanRowLimit None r)"
| "propagateScanRowLimit budget (P_BlockNestedLoopJoin t c w l r) =
     P_BlockNestedLoopJoin t c w (propagateScanRowLimit None l) (propagateScanRowLimit None r)"
| "propagateScanRowLimit budget (P_Union ns d) =
     P_Union (map (propagateScanRowLimit (if d then None else budget)) ns) d"
| "propagateScanRowLimit budget (P_CreateTable t tmp n) = P_CreateTable t tmp (propagateScanRowLimit None n)"
| "propagateScanRowLimit budget P_ShowTables = P_ShowTables"
| "propagateScanRowLimit budget P_ShowFunctions = P_ShowFunctions"
| "propagateScanRowLimit budget P_ShowOperators = P_ShowOperators"
| "propagateScanRowLimit budget (P_Describe t) = P_Describe t"
| "propagateScanRowLimit budget (P_Explain t) = P_Explain t"
| "propagateScanRowLimit budget (P_DropTable t) = P_DropTable t"

definition buildPhysicalPlan :: "'q LogicalNode \<Rightarrow> exn + 'q PhysicalNode" where
  "buildPhysicalPlan root =
     map_sum id (\<lambda>n. propagateScanRowLimit None (markJoinOutputQualification False n)) (buildNode root)"

section \<open>Correlated joins\<close>

text \<open>A hash join has a right side: the logical planner never joins with the null pointer.\<close>

definition push_join :: "'q PhysicalNode \<Rightarrow> 'q PhysicalNode" where
  "push_join m =
     (case m of
        P_HashJoin t c w l r \<Rightarrow> (case r of P_Scan s \<Rightarrow> P_NestedLoopJoin t c True l r | _ \<Rightarrow> m)
      | _ \<Rightarrow> m)"

function rewrite_joins :: "'q PhysicalNode \<Rightarrow> 'q PhysicalNode" where
  "rewrite_joins n =
     (case n of
        P_Null \<Rightarrow> n
      | P_CreateTable t tmp c \<Rightarrow> n
      | _ \<Rightarrow> push_join (map_physical rewrite_joins n))"
  by pat_completeness auto
termination by (relation "measure size") (auto simp: physical_children_size size_in_list)

declare rewrite_joins.simps [simp del]

lemma rewrite_simps [simp]:
  "rewrite_joins P_Null = P_Null"
  "rewrite_joins (P_Scan s) = P_Scan s"
  "rewrite_joins (P_Filter f n) = P_Filter f (rewrite_joins n)"
  "rewrite_joins (P_Project p n) = P_Project p (rewrite_joins n)"
  "rewrite_joins (P_Sort k n) = P_Sort k (rewrite_joins n)"
  "rewrite_joins (P_Limit lim n) = P_Limit lim (rewrite_joins n)"
  "rewrite_joins (P_Aggregate a n) = P_Aggregate a (rewrite_joins n)"
  "rewrite_joins (P_Window g so n) = P_Window g so (rewrite_joins n)"
  "rewrite_joins (P_Pivot v n) = P_Pivot v (rewrite_joins n)"
  "rewrite_joins (P_HashJoin t c w l r) = push_join (P_HashJoin t c w (rewrite_joins l) (rewrite_joins r))"
  "rewrite_joins (P_NestedLoopJoin t c b l r) = P_NestedLoopJoin t c b (rewrite_joins l) (rewrite_joins r)"
  "rewrite_joins (P_BlockNestedLoopJoin t c w l r) = P_BlockNestedLoopJoin t c w (rewrite_joins l) (rewrite_joins r)"
  "rewrite_joins (P_Union ns d) = P_Union (map rewrite_joins ns) d"
  "rewrite_joins P_ShowTables = P_ShowTables"
  "rewrite_joins P_ShowFunctions = P_ShowFunctions"
  "rewrite_joins P_ShowOperators = P_ShowOperators"
  "rewrite_joins (P_Describe x) = P_Describe x"
  "rewrite_joins (P_Explain x) = P_Explain x"
  "rewrite_joins (P_CreateTable x tmp n) = P_CreateTable x tmp n"
  "rewrite_joins (P_DropTable x) = P_DropTable x"
  by (subst rewrite_joins.simps, simp add: push_join_def)+

definition applyCorrelatedPushOptimizer :: "'q PhysicalNode \<Rightarrow> 'q PhysicalNode" where
  "applyCorrelatedPushOptimizer root = markJoinOutputQualification False (rewrite_joins root)"

section \<open>The text of a plan\<close>

definition flag_text :: "bool \<Rightarrow> string" where
  "flag_text b = (if b then ''true'' else ''false'')"

definition joinTypeName :: "JoinType \<Rightarrow> string" where
  "joinTypeName t = (if t = LEFT_OUTER then ''LEFT'' else ''INNER'')"

definition condition_text :: "LogicalJoinCondition \<Rightarrow> string" where
  "condition_text c = '', on='' @ jc_left_column c @ ''='' @ jc_right_column c @ '')''"

definition scan_text :: "'q PhysicalTableScan \<Rightarrow> string" where
  "scan_text s =
     (if pt_arrow_ipc s then ''PhysicalArrowIpcScan(table='' else ''PhysicalTableScan(table='') @ pt_table_name s @
     (if pt_in_subqueries s \<noteq> [] \<or> pt_window_subquery s \<noteq> None \<or> pt_window_literal s \<noteq> None
      then '', in_subqueries='' @ to_string (length (pt_in_subqueries s)) @
           '', window_subquery='' @ flag_text (pt_window_subquery s \<noteq> None) @
           '', window_literal='' @ flag_text (pt_window_literal s \<noteq> None)
      else []) @
     (if pt_row_limit s \<noteq> 0 then '', row_limit='' @ to_string (pt_row_limit s) else []) @ '')''"

definition window_text :: "WindowGroup list \<Rightarrow> bool \<Rightarrow> string" where
  "window_text groups sorted_input =
     ''PhysicalWindow(groups='' @ to_string (length groups) @
     '', calls='' @ to_string (sum_list (map (length \<circ> wg_calls) groups)) @
     (case groups of [] \<Rightarrow> []
      | g # _ \<Rightarrow> '', partition='' @ to_string (length (wg_partition_by g)) @
               '', order='' @ to_string (length (wg_order_by g))) @
     '', sorted_input='' @ flag_text sorted_input @ '')''"

fun node_text :: "'q PhysicalNode \<Rightarrow> string" where
  "node_text P_Null = ''<null>''"
| "node_text (P_Scan s) = scan_text s"
| "node_text (P_Filter f n) =
     ''PhysicalFilter(predicates='' @ to_string (length (pf_predicates f)) @
     (if pf_predicate_groups f \<noteq> [] then '', local_or_groups='' @ to_string (length (pf_predicate_groups f)) else []) @
     (if pf_conditions f \<noteq> [] then '', conditions='' @ to_string (length (pf_conditions f)) else []) @ '')''"
| "node_text (P_Project p n) =
     ''PhysicalProject(columns='' @ to_string (length (pj_columns p)) @
     (if pj_distinct p then '', distinct=true'' else []) @
     (if pj_distinct_on p \<noteq> [] then '', distinct_on='' @ to_string (length (pj_distinct_on p)) else []) @ '')''"
| "node_text (P_Aggregate a n) =
     ''PhysicalAggregate(keys='' @ to_string (length (ps_keys a)) @ '', aggregates='' @ to_string (length (ps_aggregates a)) @
     (if ps_having a \<noteq> E_Missing then '', having=true'' else []) @ '')''"
| "node_text (P_Window groups s n) = window_text groups s"
| "node_text (P_Sort k n) = ''PhysicalSort(keys='' @ to_string (length k) @ '')''"
| "node_text (P_Limit l n) = ''PhysicalLimit(limit='' @ to_string l @ '')''"
| "node_text (P_Pivot v n) =
     ''PhysicalPivot(columns='' @ to_string (length (pv_output_column_labels v)) @
     '', batch_size='' @ to_string (pv_output_batch_size v) @ '')''"
| "node_text (P_HashJoin t c w l r) = ''PhysicalHashJoin(type='' @ joinTypeName t @ condition_text c"
| "node_text (P_NestedLoopJoin t c p l r) =
     ''PhysicalNestedLoopJoin(type='' @ joinTypeName t @ '', correlated_push='' @ flag_text p @ condition_text c"
| "node_text (P_BlockNestedLoopJoin t c w l r) = ''PhysicalBlockNestedLoopJoin(type='' @ joinTypeName t @ condition_text c"
| "node_text (P_Union ns d) =
     ''PhysicalUnion('' @ (if d then ''distinct'' else ''all'') @ '', inputs='' @ to_string (length ns) @ '')''"
| "node_text P_ShowTables = ''PhysicalShowTables''"
| "node_text P_ShowFunctions = ''PhysicalShowFunctions''"
| "node_text P_ShowOperators = ''PhysicalShowOperators''"
| "node_text (P_Describe t) = ''PhysicalDescribe(table='' @ t @ '')''"
| "node_text (P_Explain t) = ''PhysicalExplain''"
| "node_text (P_CreateTable t tmp n) = ''PhysicalCreateTable(table='' @ t @ '')''"
| "node_text (P_DropTable t) = ''PhysicalDropTable(table='' @ t @ '')''"

function plan_text :: "nat \<Rightarrow> 'q PhysicalNode \<Rightarrow> string" where
  "plan_text level n =
     replicate (2 * level) (CHR '' '') @ node_text n @ [CHR 0x0A] @
     concat (map (plan_text (level + 1)) (physical_children n))"
  by pat_completeness auto
termination by (relation "measure (\<lambda>(l, n). size n)") (auto simp: physical_children_size size_in_list)

declare plan_text.simps [simp del]

definition physicalPlanToString :: "'q PhysicalNode \<Rightarrow> string" where
  "physicalPlanToString root =
     (case root of P_Null \<Rightarrow> ''<empty>'' | P_Explain t \<Rightarrow> t | _ \<Rightarrow> plan_text 0 root)"

end
