(* ===== verification/Query_Planner.thy ===== *)
theory Query_Planner
  imports Physical_Plan
begin

text \<open>
  The planning of statements (\<open>src/query/QueryPlanner.cpp\<close>), and what the physical passes keep: the row
  budget of \<open>LIMIT\<close> never changes the rows of a plan, the correlated push of joins neither, and a chain
  of \<open>UNION\<close> is evaluated from the left.
\<close>

section \<open>Statements\<close>

record OrderByItem =
  oi_column :: QualifiedColumn
  oi_expression :: expr
  oi_descending :: bool

text \<open>
  A \<open>SELECT\<close>: the clauses the planner only hands to the binder (with \<open>PAGE TOKEN\<close>, which no pass reads), \<open>ORDER BY\<close>, \<open>LIMIT\<close>, and the set operations, each
  with its \<open>ALL\<close> flag; a missing branch is the null pointer.
\<close>

datatype 'c SelectStatement =
  Select 'c "OrderByItem list" "nat option" "(bool \<times> 'c SelectStatement option) list"

datatype 'c QueryStatement =
    S_ShowTables | S_ShowFunctions | S_ShowOperators
  | S_Describe string
  | S_Explain "'c SelectStatement"
  | S_CreateTable string bool "'c SelectStatement"
  | S_DropTable string
  | S_Select "'c SelectStatement"

record ('c, 'q) PlanEnv =
  pe_bind :: "'c SelectStatement \<Rightarrow> exn + 'q BoundSelect"
  pe_double_text :: "u64 \<Rightarrow> string"
  pe_now :: int

fun setOperationHead :: "'c SelectStatement \<Rightarrow> 'c SelectStatement" where
  "setOperationHead (Select core order_by lim ops) = Select core [] None []"

definition plan_bound :: "('c, 'q) PlanEnv \<Rightarrow> 'c SelectStatement \<Rightarrow> exn + 'q PhysicalNode" where
  "plan_bound env s =
     (case pe_bind env s of Inl e \<Rightarrow> Inl e | Inr bound \<Rightarrow>
     (case plan_select (pe_double_text env) (pe_now env) bound of Inl e \<Rightarrow> Inl e | Inr logical \<Rightarrow>
       map_sum id applyCorrelatedPushOptimizer (buildPhysicalPlan logical)))"

text \<open>One operand: consecutive \<open>UNION ALL\<close> branches share a node, a \<open>UNION\<close> closes the rows before it.\<close>

definition union_step :: "'q PhysicalNode \<Rightarrow> bool \<times> 'q PhysicalNode \<Rightarrow> 'q PhysicalNode" where
  "union_step current operand =
     (case operand of (all, branch) \<Rightarrow>
       (case current of
          P_Union inputs d \<Rightarrow>
            if all \<and> \<not> d then P_Union (inputs @ [branch]) False else P_Union [current, branch] (\<not> all)
        | _ \<Rightarrow> P_Union [current, branch] (\<not> all)))"

definition order_error :: exn where
  "order_error = PlannerPlanError ''ORDER BY over a UNION accepts only output column names''"

definition union_key :: "OrderByItem \<Rightarrow> exn + LogicalSortKey" where
  "union_key item =
     (case (case oi_expression item of E_Missing \<Rightarrow> Inr (oi_column item) | E_Column c \<Rightarrow> Inr c | _ \<Rightarrow> Inl order_error) of
        Inl e \<Rightarrow> Inl e
      | Inr column \<Rightarrow>
          if qc_name column = [] then Inl order_error
          else Inr \<lparr>lk_column = qc_name column, lk_expression = E_Missing, lk_descending = oi_descending item\<rparr>)"

definition finish_union ::
  "OrderByItem list \<Rightarrow> nat option \<Rightarrow> 'q PhysicalNode \<Rightarrow> exn + 'q PhysicalNode" where
  "finish_union order_by lim current =
     (case mapE union_key order_by of Inl e \<Rightarrow> Inl e | Inr keys \<Rightarrow>
       let sorted_plan = (if order_by = [] then current else P_Sort keys current);
           limited = (case lim of Some l \<Rightarrow> P_Limit l sorted_plan | None \<Rightarrow> sorted_plan) in
       Inr (propagateScanRowLimit None limited))"

lemma operand_size: "(all, Some q) \<in> set ops \<Longrightarrow> size q < size (Select core order_by lim ops)"
  by (induction ops) auto

function plan_statement_select :: "('c, 'q) PlanEnv \<Rightarrow> 'c SelectStatement \<Rightarrow> exn + 'q PhysicalNode" where
  "plan_statement_select env (Select core order_by lim ops) =
     (if ops = [] then plan_bound env (Select core order_by lim ops)
      else (case plan_bound env (setOperationHead (Select core order_by lim ops)) of Inl e \<Rightarrow> Inl e | Inr head \<Rightarrow>
        (case mapE (\<lambda>(all, q). case q of
              None \<Rightarrow> Inl (PlannerPlanError ''UNION branch is empty'')
            | Some q \<Rightarrow> map_sum id (Pair all) (plan_statement_select env q)) ops of
           Inl e \<Rightarrow> Inl e
         | Inr operands \<Rightarrow> finish_union order_by lim (foldl union_step head operands))))"
  by pat_completeness auto
termination
  by (relation "measure (\<lambda>(env, s). size s)") (auto simp: operand_size simp del: SelectStatement.size)

declare plan_statement_select.simps [simp del]

definition planStatement :: "('c, 'q) PlanEnv \<Rightarrow> 'c QueryStatement \<Rightarrow> exn + 'q PhysicalNode" where
  "planStatement env s =
     (case s of
        S_ShowTables \<Rightarrow> Inr P_ShowTables
      | S_ShowFunctions \<Rightarrow> Inr P_ShowFunctions
      | S_ShowOperators \<Rightarrow> Inr P_ShowOperators
      | S_Describe t \<Rightarrow> Inr (P_Describe t)
      | S_Explain q \<Rightarrow> map_sum id (\<lambda>p. P_Explain (physicalPlanToString p)) (plan_statement_select env q)
      | S_CreateTable t tmp q \<Rightarrow> map_sum id (P_CreateTable t tmp) (plan_statement_select env q)
      | S_DropTable t \<Rightarrow> Inr (P_DropTable t)
      | S_Select q \<Rightarrow> plan_statement_select env q)"

section \<open>Rows of a physical plan\<close>

text \<open>
  An execution over rows of type \<open>'r\<close> with arbitrary operators.  A projection without \<open>DISTINCT\<close> works row by
  row, the joins of all three kinds are one operation, and \<open>UNION ALL\<close> concatenates.
\<close>

record ('q, 'r) PhysicalSemantics =
  px_scan :: "'q PhysicalTableScan \<Rightarrow> 'r list"
  px_filter :: "PhysicalFilter \<Rightarrow> 'r list \<Rightarrow> 'r list"
  px_project :: "PhysicalProject \<Rightarrow> 'r \<Rightarrow> 'r"
  px_distinct :: "PhysicalProject \<Rightarrow> 'r list \<Rightarrow> 'r list"
  px_sort :: "LogicalSortKey list \<Rightarrow> 'r list \<Rightarrow> 'r list"
  px_aggregate :: "PlanAggregateSpec \<Rightarrow> 'r list \<Rightarrow> 'r list"
  px_window :: "WindowGroup list \<Rightarrow> bool \<Rightarrow> 'r list \<Rightarrow> 'r list"
  px_pivot :: "PhysicalPivot \<Rightarrow> 'r list \<Rightarrow> 'r list"
  px_join :: "JoinType \<Rightarrow> LogicalJoinCondition \<Rightarrow> 'r list \<Rightarrow> 'r list \<Rightarrow> 'r list"
  px_union :: "'r list \<Rightarrow> 'r list"

fun exec_physical :: "('q, 'r) PhysicalSemantics \<Rightarrow> 'q PhysicalNode \<Rightarrow> 'r list" where
  "exec_physical X (P_Scan s) = px_scan X s"
| "exec_physical X (P_Filter f n) = px_filter X f (exec_physical X n)"
| "exec_physical X (P_Project p n) =
     (if pj_distinct p then px_distinct X p (exec_physical X n) else map (px_project X p) (exec_physical X n))"
| "exec_physical X (P_Sort k n) = px_sort X k (exec_physical X n)"
| "exec_physical X (P_Limit l n) = take l (exec_physical X n)"
| "exec_physical X (P_Aggregate a n) = px_aggregate X a (exec_physical X n)"
| "exec_physical X (P_Window g s n) = px_window X g s (exec_physical X n)"
| "exec_physical X (P_Pivot v n) = px_pivot X v (exec_physical X n)"
| "exec_physical X (P_HashJoin t c w l r) = px_join X t c (exec_physical X l) (exec_physical X r)"
| "exec_physical X (P_NestedLoopJoin t c p l r) = px_join X t c (exec_physical X l) (exec_physical X r)"
| "exec_physical X (P_BlockNestedLoopJoin t c w l r) = px_join X t c (exec_physical X l) (exec_physical X r)"
| "exec_physical X (P_Union ns d) =
     (if d then px_union X (concat (map (exec_physical X) ns)) else concat (map (exec_physical X) ns))"
| "exec_physical X (P_CreateTable t tmp n) = exec_physical X n"
| "exec_physical X _ = []"

text \<open>A scan with a row limit gives at least the first rows of the scan, up to the limit; 0 is no limit.\<close>

definition limits_honoured :: "('q, 'r) PhysicalSemantics \<Rightarrow> bool" where
  "limits_honoured X =
     (\<forall>s n. 0 < n \<longrightarrow> take n (px_scan X (s\<lparr>pt_row_limit := n\<rparr>)) = take n (px_scan X (s\<lparr>pt_row_limit := 0\<rparr>)))"

text \<open>The plan without row limits on its scans.\<close>

function clear_limits :: "'q PhysicalNode \<Rightarrow> 'q PhysicalNode" where
  "clear_limits n = (case n of P_Scan s \<Rightarrow> P_Scan (s\<lparr>pt_row_limit := 0\<rparr>) | _ \<Rightarrow> map_physical clear_limits n)"
  by pat_completeness auto
termination by (relation "measure size") (auto simp: physical_children_size size_in_list)

declare clear_limits.simps [simp del]

lemma clear_simps [simp]:
  "clear_limits P_Null = P_Null"
  "clear_limits (P_Scan s) = P_Scan (s\<lparr>pt_row_limit := 0\<rparr>)"
  "clear_limits (P_Filter f n) = P_Filter f (clear_limits n)"
  "clear_limits (P_Project p n) = P_Project p (clear_limits n)"
  "clear_limits (P_Sort k n) = P_Sort k (clear_limits n)"
  "clear_limits (P_Limit lim n) = P_Limit lim (clear_limits n)"
  "clear_limits (P_Aggregate a n) = P_Aggregate a (clear_limits n)"
  "clear_limits (P_Window g so n) = P_Window g so (clear_limits n)"
  "clear_limits (P_Pivot v n) = P_Pivot v (clear_limits n)"
  "clear_limits (P_HashJoin t c w l r) = P_HashJoin t c w (clear_limits l) (clear_limits r)"
  "clear_limits (P_NestedLoopJoin t c b l r) = P_NestedLoopJoin t c b (clear_limits l) (clear_limits r)"
  "clear_limits (P_BlockNestedLoopJoin t c w l r) = P_BlockNestedLoopJoin t c w (clear_limits l) (clear_limits r)"
  "clear_limits (P_Union ns d) = P_Union (map clear_limits ns) d"
  "clear_limits P_ShowTables = P_ShowTables"
  "clear_limits P_ShowFunctions = P_ShowFunctions"
  "clear_limits P_ShowOperators = P_ShowOperators"
  "clear_limits (P_Describe x) = P_Describe x"
  "clear_limits (P_Explain x) = P_Explain x"
  "clear_limits (P_CreateTable x tmp n) = P_CreateTable x tmp (clear_limits n)"
  "clear_limits (P_DropTable x) = P_DropTable x"
  by (subst clear_limits.simps, simp)+

section \<open>Row limits\<close>

definition same_prefix :: "nat option \<Rightarrow> 'r list \<Rightarrow> 'r list \<Rightarrow> bool" where
  "same_prefix budget xs ys = (case budget of None \<Rightarrow> xs = ys | Some n \<Rightarrow> take n xs = take n ys)"

lemma same_prefix_None [simp]: "same_prefix None xs ys \<longleftrightarrow> xs = ys"
  by (simp add: same_prefix_def)

lemma same_prefix_refl [simp]: "same_prefix b xs xs"
  by (cases b) (simp_all add: same_prefix_def)

lemma same_prefix_map: "same_prefix b xs ys \<Longrightarrow> same_prefix b (map f xs) (map f ys)"
  by (cases b) (simp_all add: same_prefix_def take_map)

lemma same_prefix_take:
  "same_prefix (Some (case b of Some n \<Rightarrow> min n l | None \<Rightarrow> l)) xs ys \<Longrightarrow> same_prefix b (take l xs) (take l ys)"
  by (cases b) (simp_all add: same_prefix_def min.commute)

lemma take_append_cong:
  assumes xs: "take n xs = take n ys" and us: "take n us = take n vs"
  shows "take n (xs @ us) = take n (ys @ vs)"
proof (cases "n \<le> length xs")
  case True
  then have "n \<le> length ys"
    using xs by (metis length_take min.absorb2 min_def nle_le)
  then show ?thesis using True xs by simp
next
  case False
  then have short: "length ys < n"
    using xs by (metis length_take min.absorb1 min_def nle_le not_le)
  then have "xs = ys" using False xs by simp
  moreover have "take (n - length ys) us = take (n - length ys) vs"
    using us by (metis diff_le_self min.absorb1 take_take)
  ultimately show ?thesis by simp
qed

lemma same_prefix_concat:
  "(\<And>x. x \<in> set xs \<Longrightarrow> same_prefix b (f x) (g x)) \<Longrightarrow> same_prefix b (concat (map f xs)) (concat (map g xs))"
proof (induction xs)
  case (Cons x xs)
  then have "same_prefix b (f x) (g x)" "same_prefix b (concat (map f xs)) (concat (map g xs))" by simp_all
  then show ?case
    by (cases b) (auto simp: same_prefix_def simp del: take_append intro: take_append_cong)
qed simp

lemma scan_limit_prefix:
  assumes X: "limits_honoured X"
  shows "same_prefix b (px_scan X (limit_scan b s)) (px_scan X (s\<lparr>pt_row_limit := 0\<rparr>))"
proof (cases b)
  case (Some n)
  then show ?thesis
    using X by (cases "n = 0") (auto simp: limit_scan_def same_prefix_def limits_honoured_def)
qed (simp add: limit_scan_def)

lemma propagate_prefix:
  assumes X: "limits_honoured X"
  shows "same_prefix b (exec_physical X (propagateScanRowLimit b p)) (exec_physical X (clear_limits p))"
proof (induction p arbitrary: b)
  case (P_Scan s)
  then show ?case using scan_limit_prefix [OF X] by simp
next
  case (P_Limit l n)
  then show ?case by (simp add: same_prefix_take)
next
  case (P_Project p n)
  show ?case using P_Project.IH [of b] P_Project.IH [of None] by (simp add: same_prefix_map)
next
  case (P_Union ns d)
  have None: "map (exec_physical X \<circ> propagateScanRowLimit None) ns = map (exec_physical X \<circ> clear_limits) ns"
    using P_Union.IH [of _ None] by simp
  show ?case
    using P_Union.IH by (cases d) (simp_all add: None same_prefix_concat)
next
  case (P_Filter f n)
  show ?case using P_Filter.IH [of None] by simp
next
  case (P_Sort k n)
  show ?case using P_Sort.IH [of None] by simp
next
  case (P_Aggregate a n)
  show ?case using P_Aggregate.IH [of None] by simp
next
  case (P_Window g so n)
  show ?case using P_Window.IH [of None] by simp
next
  case (P_Pivot v n)
  show ?case using P_Pivot.IH [of None] by simp
next
  case (P_CreateTable x tmp n)
  show ?case using P_CreateTable.IH [of None] by simp
next
  case (P_HashJoin t c w l r)
  show ?case using P_HashJoin.IH(1) [of None] P_HashJoin.IH(2) [of None] by simp
next
  case (P_NestedLoopJoin t c pushed l r)
  show ?case using P_NestedLoopJoin.IH(1) [of None] P_NestedLoopJoin.IH(2) [of None] by simp
next
  case (P_BlockNestedLoopJoin t c w l r)
  show ?case using P_BlockNestedLoopJoin.IH(1) [of None] P_BlockNestedLoopJoin.IH(2) [of None] by simp
qed simp_all

text \<open>C12. The row budget of \<open>LIMIT\<close> never changes the rows: with a backend that honours the row limit of a scan, a
  plan whose budgets were propagated returns the rows of the plan without any row limit, and for a budget of \<open>n\<close>
  its first \<open>n\<close> rows.  (The rows are cells, not columns: with \<open>SELECT *\<close> the annotation client derives its attribute
  columns from the records it was limited to, so an attribute that only later records have is no column then.)\<close>

theorem row_limits_keep_rows:
  assumes "limits_honoured X"
  shows "exec_physical X (propagateScanRowLimit None p) = exec_physical X (clear_limits p) \<and>
    take n (exec_physical X (propagateScanRowLimit (Some n) p)) = take n (exec_physical X (clear_limits p))"
  using propagate_prefix [OF assms, of None p] propagate_prefix [OF assms, of "Some n" p]
  by (simp add: same_prefix_def)

definition example_physical_scan :: "unit PhysicalTableScan" where
  "example_physical_scan =
     \<lparr>pt_table_name = ''t'', pt_table_alias = ''t'', pt_qualify_output = False, pt_pushable_predicates = [],
      pt_projection_hint = {}, pt_ipc_path = [], pt_arrow_ipc = False, pt_derived_query = None, pt_in_subqueries = [],
      pt_window_subquery = None, pt_window_literal = None, pt_window_shards = \<lparr>ws_slice_ns = 0, ws_series_per_shard = 1\<rparr>,
      pt_projection_explicit = False, pt_row_limit = 0\<rparr>"

text \<open>A backend of five rows that stops at the row limit.\<close>

definition example_semantics :: "('q, nat) PhysicalSemantics" where
  "example_semantics =
     \<lparr>px_scan = (\<lambda>s. if pt_row_limit s = 0 then [1, 2, 3, 4, 5] else take (pt_row_limit s) [1, 2, 3, 4, 5]),
      px_filter = (\<lambda>f rows. filter (\<lambda>r. 2 < r) rows), px_project = (\<lambda>p r. r + 10), px_distinct = (\<lambda>p rows. remdups rows),
      px_sort = (\<lambda>k rows. rev rows), px_aggregate = (\<lambda>a rows. [length rows]), px_window = (\<lambda>g s rows. rows),
      px_pivot = (\<lambda>v rows. rows), px_join = (\<lambda>t c l r. [x + y. x \<leftarrow> l, y \<leftarrow> r, x = y]), px_union = remdups\<rparr>"

lemma example_semantics_honours: "limits_honoured example_semantics"
  by (simp add: limits_honoured_def example_semantics_def)

theorem row_limits_keep_rows_witness:
  "exec_physical example_semantics (propagateScanRowLimit None
     (P_Limit 2 (P_Union [P_Scan example_physical_scan, P_Filter undefined (P_Scan example_physical_scan)] False))) = [1, 2]"
  using row_limits_keep_rows [OF example_semantics_honours,
    of "P_Limit 2 (P_Union [P_Scan example_physical_scan, P_Filter undefined (P_Scan example_physical_scan)] False)"]
  by (simp add: example_semantics_def example_physical_scan_def)

section \<open>The passes after the lowering\<close>

lemma mark_mark [simp]:
  "markJoinOutputQualification u (markJoinOutputQualification v p) = markJoinOutputQualification u p"
  by (induction p arbitrary: u v) auto

lemma limit_scan_qualify:
  "limit_scan b (s\<lparr>pt_qualify_output := u\<rparr>) = (limit_scan b s)\<lparr>pt_qualify_output := u\<rparr>"
  by (cases s; cases b) (simp_all add: limit_scan_def plain_scan_def)

lemma propagate_mark:
  "propagateScanRowLimit b (markJoinOutputQualification u p) = markJoinOutputQualification u (propagateScanRowLimit b p)"
  by (induction p arbitrary: b u) (auto simp: limit_scan_qualify)

lemma rewrite_mark:
  "rewrite_joins (markJoinOutputQualification u p) = markJoinOutputQualification u (rewrite_joins p)"
proof (induction p arbitrary: u)
  case (P_HashJoin t c w l r)
  then show ?case by (cases "rewrite_joins r") (simp_all add: push_join_def)
qed auto

lemma clear_rewrite: "clear_limits (rewrite_joins p) = rewrite_joins (clear_limits p)"
proof (induction p)
  case (P_HashJoin t c w l r)
  then show ?case by (cases "rewrite_joins r") (simp_all add: push_join_def P_HashJoin(2) [symmetric])
qed auto

lemma clear_propagate [simp]: "clear_limits (propagateScanRowLimit b p) = clear_limits p"
  by (induction p arbitrary: b) (auto simp: limit_scan_def)

lemma exec_push_join: "exec_physical X (push_join p) = exec_physical X p"
  by (auto simp: push_join_def split: PhysicalNode.splits)

lemma exec_rewrite: "exec_physical X (rewrite_joins p) = exec_physical X p"
proof (induction p)
  case (P_Union ns d)
  then show ?case by (simp add: o_def cong: map_cong)
qed (auto simp: exec_push_join)

lemma lowered_plan:
  assumes "buildPhysicalPlan root = Inr p"
  obtains q where "buildNode root = Inr q" "p = markJoinOutputQualification False (propagateScanRowLimit None q)"
  using assms by (cases "buildNode root") (auto simp: buildPhysicalPlan_def propagate_mark)

lemma correlated_push_rewrites:
  assumes "buildPhysicalPlan root = Inr p"
  shows "applyCorrelatedPushOptimizer p = rewrite_joins p"
  using assms by (auto simp: applyCorrelatedPushOptimizer_def rewrite_mark elim!: lowered_plan)

text \<open>
  What every planned statement satisfies: the output of a scan is qualified exactly below joins, and no hash join
  probes a scan.
\<close>

fun qualified_below_joins :: "bool \<Rightarrow> 'q PhysicalNode \<Rightarrow> bool" where
  "qualified_below_joins u (P_Scan s) = (pt_qualify_output s = u)"
| "qualified_below_joins u (P_Filter f n) = qualified_below_joins u n"
| "qualified_below_joins u (P_Project p n) = qualified_below_joins u n"
| "qualified_below_joins u (P_Sort k n) = qualified_below_joins u n"
| "qualified_below_joins u (P_Limit l n) = qualified_below_joins u n"
| "qualified_below_joins u (P_Aggregate a n) = qualified_below_joins u n"
| "qualified_below_joins u (P_Window g s n) = qualified_below_joins u n"
| "qualified_below_joins u (P_Pivot v n) = qualified_below_joins u n"
| "qualified_below_joins u (P_HashJoin t c w l r) = (qualified_below_joins True l \<and> qualified_below_joins True r)"
| "qualified_below_joins u (P_NestedLoopJoin t c b l r) = (qualified_below_joins True l \<and> qualified_below_joins True r)"
| "qualified_below_joins u (P_BlockNestedLoopJoin t c w l r) = (qualified_below_joins True l \<and> qualified_below_joins True r)"
| "qualified_below_joins u (P_Union ns d) = (\<forall>n\<in>set ns. qualified_below_joins u n)"
| "qualified_below_joins u _ = True"

fun joins_are_pushed :: "'q PhysicalNode \<Rightarrow> bool" where
  "joins_are_pushed (P_Filter f n) = joins_are_pushed n"
| "joins_are_pushed (P_Project p n) = joins_are_pushed n"
| "joins_are_pushed (P_Sort k n) = joins_are_pushed n"
| "joins_are_pushed (P_Limit l n) = joins_are_pushed n"
| "joins_are_pushed (P_Aggregate a n) = joins_are_pushed n"
| "joins_are_pushed (P_Window g s n) = joins_are_pushed n"
| "joins_are_pushed (P_Pivot v n) = joins_are_pushed n"
| "joins_are_pushed (P_HashJoin t c w l r) =
     (joins_are_pushed l \<and> joins_are_pushed r \<and> (case r of P_Scan s \<Rightarrow> False | _ \<Rightarrow> True))"
| "joins_are_pushed (P_NestedLoopJoin t c b l r) = (joins_are_pushed l \<and> joins_are_pushed r)"
| "joins_are_pushed (P_BlockNestedLoopJoin t c w l r) = (joins_are_pushed l \<and> joins_are_pushed r)"
| "joins_are_pushed (P_Union ns d) = (\<forall>n\<in>set ns. joins_are_pushed n)"
| "joins_are_pushed _ = True"

lemma qualified_mark: "qualified_below_joins u (markJoinOutputQualification u p)"
  by (induction p arbitrary: u) auto

lemma qualified_push_join: "qualified_below_joins u (push_join p) = qualified_below_joins u p"
  by (auto simp: push_join_def split: PhysicalNode.splits)

lemma qualified_rewrite: "qualified_below_joins u p \<Longrightarrow> qualified_below_joins u (rewrite_joins p)"
  by (induction p arbitrary: u) (auto simp: qualified_push_join)

lemma pushed_rewrite: "joins_are_pushed (rewrite_joins p)"
proof (induction p)
  case (P_HashJoin t c w l r)
  then show ?case by (cases "rewrite_joins r") (simp_all add: push_join_def)
qed auto

lemma qualified_propagate: "qualified_below_joins u (propagateScanRowLimit b p) = qualified_below_joins u p"
  by (induction p arbitrary: b u) (auto simp: limit_scan_def)

lemma pushed_propagate: "joins_are_pushed (propagateScanRowLimit b p) = joins_are_pushed p"
proof (induction p arbitrary: b)
  case (P_HashJoin t c w l r)
  show ?case using P_HashJoin.IH(1) [of None] P_HashJoin.IH(2) [of None] by (cases r) simp_all
qed auto

lemma bound_plan:
  assumes "plan_bound env s = Inr p"
  obtains root p0 where "buildPhysicalPlan root = Inr p0" "p = rewrite_joins p0"
proof -
  from assms obtain root p0 where r: "buildPhysicalPlan root = Inr p0" and p: "p = applyCorrelatedPushOptimizer p0"
    by (auto simp: plan_bound_def split: sum.splits)
       (metis Inl_Inr_False id_apply map_sum.simps sum.exhaust sum.inject(2))
  then show thesis using that correlated_push_rewrites [OF r] by simp
qed

lemma bound_plan_ok:
  assumes "plan_bound env s = Inr p"
  shows "qualified_below_joins False p \<and> joins_are_pushed p"
proof -
  obtain root p0 where r: "buildPhysicalPlan root = Inr p0" and p: "p = rewrite_joins p0"
    by (rule bound_plan [OF assms])
  have "qualified_below_joins False p0"
    using r by (auto simp: qualified_mark elim!: lowered_plan)
  then show ?thesis by (simp add: p qualified_rewrite pushed_rewrite)
qed

text \<open>The correlated push keeps the rows of a lowered plan and what its own qualification pass leaves behind is the
  plan of the first one: every hash join with a scan on its right side becomes a nested-loop join, nothing else changes.\<close>

theorem correlated_push_keeps_rows:
  assumes "buildPhysicalPlan root = Inr p"
  shows "exec_physical X (applyCorrelatedPushOptimizer p) = exec_physical X p \<and>
    applyCorrelatedPushOptimizer p = rewrite_joins p \<and> joins_are_pushed (applyCorrelatedPushOptimizer p) \<and>
    qualified_below_joins False (applyCorrelatedPushOptimizer p)"
proof -
  have "qualified_below_joins False p"
    using assms by (auto simp: qualified_mark elim!: lowered_plan)
  then show ?thesis
    by (simp add: correlated_push_rewrites [OF assms] exec_rewrite pushed_rewrite qualified_rewrite)
qed

definition example_logical_scan :: "string \<Rightarrow> unit LogicalScan" where
  "example_logical_scan t =
     \<lparr>ls_table_name = t, ls_table_alias = t, ls_schema = [], ls_pushable_predicates = [], ls_projection_hint = {}, ls_ipc_path = [], ls_arrow_ipc = False,
      ls_derived_query = None, ls_in_subqueries = [], ls_window_subquery = None, ls_window_literal = None,
      ls_window_shards = \<lparr>ws_slice_ns = 0, ws_series_per_shard = 1\<rparr>, ls_projection_explicit = False\<rparr>"

definition example_logical_join :: "unit LogicalNode" where
  "example_logical_join =
     L_Join \<lparr>lj_type = LJ_INNER, lj_condition = \<lparr>jc_left_column = ''a.pv'', jc_right_column = ''b.pv''\<rparr>,
             lj_predicates = [], lj_left_bounded = False, lj_right_bounded = False, lj_warnings = []\<rparr>
       (L_Scan (example_logical_scan ''a'')) (L_Scan (example_logical_scan ''b''))"

definition lowered_scan :: "string \<Rightarrow> unit PhysicalTableScan" where
  "lowered_scan t = example_physical_scan\<lparr>pt_table_name := t, pt_table_alias := t, pt_qualify_output := True\<rparr>"

lemma example_join_lowers:
  "buildPhysicalPlan (applyJoinOrderOptimizer example_logical_join) =
     Inr (P_HashJoin INNER \<lparr>jc_left_column = ''a.pv'', jc_right_column = ''b.pv''\<rparr>
       [''PlanWarning: joining two unbounded sides; spill is expected under memory pressure'']
       (P_Scan (lowered_scan ''a'')) (P_Scan (lowered_scan ''b'')))"
  by (simp add: applyJoinOrderOptimizer.simps order_join_def isBoundedScan_def example_logical_join_def
      example_logical_scan_def buildPhysicalPlan_def buildScan_def window_bounds_def lower_join_type_def Let_def
      limit_scan_def lowered_scan_def example_physical_scan_def)

theorem correlated_push_keeps_rows_witness:
  "exec_physical example_semantics (applyCorrelatedPushOptimizer (P_HashJoin INNER
     \<lparr>jc_left_column = ''a.pv'', jc_right_column = ''b.pv''\<rparr>
     [''PlanWarning: joining two unbounded sides; spill is expected under memory pressure'']
     (P_Scan (lowered_scan ''a'')) (P_Scan (lowered_scan ''b'')))) = [2, 4, 6, 8, 10]"
  using correlated_push_keeps_rows [OF example_join_lowers, of example_semantics, THEN conjunct1]
  by (simp add: example_semantics_def lowered_scan_def example_physical_scan_def)

section \<open>Warnings\<close>

text \<open>\<open>collectPlanWarnings\<close> of \<open>src/query/QueryExecutor.cpp\<close>; a nested-loop join has no warnings.\<close>

function collectPlanWarnings :: "'q PhysicalNode \<Rightarrow> string list" where
  "collectPlanWarnings n =
     (let own = (case n of P_HashJoin t c w l r \<Rightarrow> w | P_BlockNestedLoopJoin t c w l r \<Rightarrow> w | _ \<Rightarrow> []) in
      case n of
        P_CreateTable t tmp c \<Rightarrow> own
      | _ \<Rightarrow> own @ concat (map collectPlanWarnings (physical_children n)))"
  by pat_completeness auto
termination by (relation "measure size") (auto simp: physical_children_size size_in_list)

declare collectPlanWarnings.simps [simp del]

text \<open>C33. The warning that both sides of a join are unbounded never reaches the statistics of a query that joins two
  tables: the join order pass stores it in the join, the lowering keeps it, and the correlated push drops it with the
  hash join.\<close>

theorem unbounded_join_warning_is_lost:
  assumes "\<not> isBoundedScan a" "\<not> isBoundedScan b"
    "ls_table_name a \<noteq> ''mldp.time_series_table''" "ls_table_name b \<noteq> ''mldp.time_series_table''"
    "buildPhysicalPlan (applyJoinOrderOptimizer (L_Join j (L_Scan a) (L_Scan b))) = Inr p"
  shows "collectPlanWarnings p = lj_warnings j @
      [''PlanWarning: joining two unbounded sides; spill is expected under memory pressure''] \<and>
    collectPlanWarnings (applyCorrelatedPushOptimizer p) = []"
proof -
  have "applyJoinOrderOptimizer (L_Join j (L_Scan a) (L_Scan b)) = order_join j (L_Scan a) (L_Scan b)"
    by (subst applyJoinOrderOptimizer.simps) (simp add: applyJoinOrderOptimizer.simps)
  then obtain sa sb where p: "p = P_HashJoin (lower_join_type (lj_type j)) (lj_condition j) (lj_warnings j @
      [''PlanWarning: joining two unbounded sides; spill is expected under memory pressure'']) (P_Scan sa) (P_Scan sb)"
    using assms
    by (auto simp: order_join_def buildPhysicalPlan_def buildScan_def Let_def split: sum.splits)
  have "collectPlanWarnings p = lj_warnings j @
      [''PlanWarning: joining two unbounded sides; spill is expected under memory pressure'']"
    by (subst p, subst collectPlanWarnings.simps) (simp add: collectPlanWarnings.simps)
  moreover have "collectPlanWarnings (applyCorrelatedPushOptimizer p) = []"
    unfolding correlated_push_rewrites [OF assms(5)]
    by (simp add: p push_join_def, subst collectPlanWarnings.simps) (simp add: collectPlanWarnings.simps)
  ultimately show ?thesis by blast
qed

theorem unbounded_join_warning_is_lost_witness:
  "collectPlanWarnings (applyCorrelatedPushOptimizer (P_HashJoin INNER
     \<lparr>jc_left_column = ''a.pv'', jc_right_column = ''b.pv''\<rparr>
     [''PlanWarning: joining two unbounded sides; spill is expected under memory pressure'']
     (P_Scan (lowered_scan ''a'')) (P_Scan (lowered_scan ''b'')))) = []"
  using unbounded_join_warning_is_lost [OF _ _ _ _ example_join_lowers [unfolded example_logical_join_def]]
  by (simp add: isBoundedScan_def example_logical_scan_def)

section \<open>Set operations\<close>

definition union_rows :: "('q, 'r) PhysicalSemantics \<Rightarrow> 'r list \<Rightarrow> bool \<times> 'r list \<Rightarrow> 'r list" where
  "union_rows X rows operand =
     (case operand of (all, ys) \<Rightarrow> if all then rows @ ys else px_union X (rows @ ys))"

lemma union_step_rows:
  "exec_physical X (union_step current (all, branch)) =
     union_rows X (exec_physical X current) (all, exec_physical X branch)"
  by (cases current) (simp_all add: union_step_def union_rows_def)

lemma clear_union_step:
  "clear_limits (union_step current (all, branch)) = union_step (clear_limits current) (all, clear_limits branch)"
  by (cases current) (simp_all add: union_step_def)

lemma clear_union_fold:
  "clear_limits (foldl union_step head operands) =
     foldl union_step (clear_limits head) (map (map_prod id clear_limits) operands)"
  by (induction operands arbitrary: head) (auto simp: clear_union_step)

lemma union_fold_rows:
  "exec_physical X (foldl union_step head operands) =
     foldl (union_rows X) (exec_physical X head) (map (map_prod id (exec_physical X)) operands)"
  by (induction operands arbitrary: head) (auto simp: union_step_rows)

lemma bound_plan_clear:
  assumes X: "limits_honoured X" and p: "plan_bound env s = Inr p"
  shows "exec_physical X (clear_limits p) = exec_physical X p"
proof -
  obtain root p0 where r: "buildPhysicalPlan root = Inr p0" and p': "p = rewrite_joins p0"
    by (rule bound_plan [OF p])
  obtain q where q: "p0 = markJoinOutputQualification False (propagateScanRowLimit None q)"
    by (rule lowered_plan [OF r])
  let ?m = "markJoinOutputQualification False q"
  have p0: "p0 = propagateScanRowLimit None ?m" by (simp add: q propagate_mark)
  have "exec_physical X (clear_limits p) = exec_physical X (clear_limits ?m)"
    by (simp add: p' p0 clear_rewrite exec_rewrite)
  also have "\<dots> = exec_physical X p"
    using propagate_prefix [OF X, of None ?m] by (simp add: p' p0 exec_rewrite)
  finally show ?thesis .
qed

definition limit_rows :: "nat option \<Rightarrow> 'r list \<Rightarrow> 'r list" where
  "limit_rows lim rows = (case lim of Some l \<Rightarrow> take l rows | None \<Rightarrow> rows)"

lemma finish_union_rows:
  assumes X: "limits_honoured X" and p: "finish_union order_by lim current = Inr p"
  shows "exec_physical X (clear_limits p) = exec_physical X p"
    "\<exists>keys. mapE union_key order_by = Inr keys \<and>
       exec_physical X p = limit_rows lim ((if order_by = [] then id else px_sort X keys)
         (exec_physical X (clear_limits current)))"
proof -
  from p obtain keys m where keys: "mapE union_key order_by = Inr keys" and p': "p = propagateScanRowLimit None m"
    and m: "m = (case lim of Some l \<Rightarrow> P_Limit l (if order_by = [] then current else P_Sort keys current)
                 | None \<Rightarrow> if order_by = [] then current else P_Sort keys current)"
    by (auto simp: finish_union_def Let_def split: sum.splits)
  have e: "exec_physical X p = exec_physical X (clear_limits m)"
    using propagate_prefix [OF X, of None m] by (simp add: p')
  then show "exec_physical X (clear_limits p) = exec_physical X p" by (simp add: p')
  have "exec_physical X (clear_limits m) = limit_rows lim ((if order_by = [] then id else px_sort X keys)
      (exec_physical X (clear_limits current)))"
    by (cases lim) (simp_all add: m limit_rows_def)
  then show "\<exists>keys. mapE union_key order_by = Inr keys \<and>
       exec_physical X p = limit_rows lim ((if order_by = [] then id else px_sort X keys)
         (exec_physical X (clear_limits current)))"
    using keys e by auto
qed

abbreviation plan_operands ::
  "('c, 'q) PlanEnv \<Rightarrow> (bool \<times> 'c SelectStatement option) list \<Rightarrow> exn + (bool \<times> 'q PhysicalNode) list" where
  "plan_operands env ops \<equiv> mapE (\<lambda>(all, q). case q of
      None \<Rightarrow> Inl (PlannerPlanError ''UNION branch is empty'')
    | Some q \<Rightarrow> map_sum id (Pair all) (plan_statement_select env q)) ops"

lemma planned_union:
  assumes "plan_statement_select env (Select core order_by lim ops) = Inr p" "ops \<noteq> []"
  obtains head operands where "plan_bound env (Select core [] None []) = Inr head" "plan_operands env ops = Inr operands"
    "finish_union order_by lim (foldl union_step head operands) = Inr p"
  using assms by (subst (asm) plan_statement_select.simps) (auto split: sum.splits)

lemma list_all2_right: "list_all2 R xs ys \<Longrightarrow> y \<in> set ys \<Longrightarrow> \<exists>x\<in>set xs. R x y"
  by (induction rule: list_all2_induct) auto

lemma planned_operand:
  assumes "plan_operands env ops = Inr operands" "(all, branch) \<in> set operands"
  obtains q where "(all, Some q) \<in> set ops" "plan_statement_select env q = Inr branch"
proof -
  define f where "f = (\<lambda>(all :: bool, q). case q of
      None \<Rightarrow> Inl (PlannerPlanError ''UNION branch is empty'')
    | Some q \<Rightarrow> map_sum id (Pair all) (plan_statement_select env q))"
  have "list_all2 (\<lambda>x y. f x = Inr y) ops operands"
    using assms(1) by (simp add: f_def mapE_Inr_iff)
  then obtain o1 where o1: "o1 \<in> set ops" "f o1 = Inr (all, branch)"
    using list_all2_right [OF _ assms(2)] by blast
  obtain a q where o: "o1 = (a, q)" by (cases o1)
  show thesis
  proof (cases q)
    case None
    then show thesis using o1 by (simp add: o f_def)
  next
    case (Some s)
    then show thesis using o1 that by (cases "plan_statement_select env s") (auto simp: o f_def)
  qed
qed

lemma planned_statement_clear:
  assumes X: "limits_honoured X" and p: "plan_statement_select env s = Inr p"
  shows "exec_physical X (clear_limits p) = exec_physical X p"
proof -
  obtain core order_by lim ops where s: "s = Select core order_by lim ops" by (cases s)
  show ?thesis
  proof (cases "ops = []")
    case True
    then show ?thesis
      using p bound_plan_clear [OF X] by (simp add: s plan_statement_select.simps)
  next
    case False
    then show ?thesis
      by (rule planned_union [OF p [unfolded s]]) (rule finish_union_rows(1) [OF X])
  qed
qed

lemma clear_operands:
  assumes X: "limits_honoured X" and ops: "plan_operands env ops = Inr operands"
  shows "map (map_prod id (exec_physical X)) (map (map_prod id clear_limits) operands) =
    map (map_prod id (exec_physical X)) operands"
proof -
  have "exec_physical X (clear_limits (snd operand)) = exec_physical X (snd operand)"
    if operand: "operand \<in> set operands" for operand
  proof -
    have "(fst operand, snd operand) \<in> set operands" using operand by simp
    then obtain q where "plan_statement_select env q = Inr (snd operand)"
      by (rule planned_operand [OF ops])
    then show ?thesis by (rule planned_statement_clear [OF X])
  qed
  then show ?thesis by (auto simp: prod_eq_iff)
qed

text \<open>C11. A chain of set operations is evaluated from the left, whatever nodes are shared: each \<open>UNION ALL\<close> appends the
  rows of its branch, each \<open>UNION\<close> removes the duplicates of all rows so far, then \<open>ORDER BY\<close> and \<open>LIMIT\<close> apply to
  the whole, and the row budgets pushed into the branches change no row.  The rows of \<open>UNION ALL\<close> are concatenated
  here; the conversion of their columns to one schema is \<open>union_batches\<close> of \<open>Plan_Execution\<close>.\<close>

theorem union_is_evaluated_from_the_left:
  assumes "limits_honoured X" "plan_statement_select env (Select core order_by lim ops) = Inr p" "ops \<noteq> []"
  shows "\<exists>head operands keys. plan_bound env (Select core [] None []) = Inr head \<and>
    plan_operands env ops = Inr operands \<and> mapE union_key order_by = Inr keys \<and>
    exec_physical X p = limit_rows lim ((if order_by = [] then id else px_sort X keys)
      (foldl (union_rows X) (exec_physical X head) (map (map_prod id (exec_physical X)) operands)))"
proof (rule planned_union [OF assms(2,3)])
  fix head operands
  assume head: "plan_bound env (Select core [] None []) = Inr head" and ops: "plan_operands env ops = Inr operands"
    and p: "finish_union order_by lim (foldl union_step head operands) = Inr p"
  have "exec_physical X (clear_limits (foldl union_step head operands)) =
      foldl (union_rows X) (exec_physical X head) (map (map_prod id (exec_physical X)) operands)"
    by (simp only: clear_union_fold union_fold_rows bound_plan_clear [OF assms(1) head] clear_operands [OF assms(1) ops])
  then show ?thesis
    using finish_union_rows(2) [OF assms(1) p] head ops by auto
qed

text \<open>A table of no required column, for the example.\<close>

definition open_select :: "nat option \<Rightarrow> unit BoundSelect" where
  "open_select lim = example_select\<lparr>bs_from := example_table\<lparr>bt_schema := []\<rparr>, bs_limit := lim\<rparr>"

definition example_env :: "(nat, unit) PlanEnv" where
  "example_env =
     \<lparr>pe_bind = (\<lambda>s. case s of Select core order_by lim ops \<Rightarrow> Inr (open_select lim)), pe_double_text = (\<lambda>d. []),
      pe_now = 0\<rparr>"

lemma example_plan_all: "plan_bound example_env (Select 0 [] None []) = Inr (P_Scan example_physical_scan)"
  unfolding example_physical_scan_def by code_simp

lemma example_plan_some:
  "plan_bound example_env (Select 0 [] (Some 2) []) = Inr (P_Limit 2 (P_Scan (example_physical_scan\<lparr>pt_row_limit := 2\<rparr>)))"
  unfolding example_physical_scan_def by code_simp

definition example_union :: "nat SelectStatement" where
  "example_union =
     Select 0 [\<lparr>oi_column = \<lparr>qc_qualifier = None, qc_name = ''pv''\<rparr>, oi_expression = E_Missing, oi_descending = False\<rparr>] (Some 4)
       [(True, Some (Select 0 [] (Some 2) [])), (False, Some (Select 0 [] None []))]"

definition example_union_plan :: "unit PhysicalNode" where
  "example_union_plan =
     P_Limit 4 (P_Sort [\<lparr>lk_column = ''pv'', lk_expression = E_Missing, lk_descending = False\<rparr>]
       (P_Union [P_Union [P_Scan example_physical_scan,
                          P_Limit 2 (P_Scan (example_physical_scan\<lparr>pt_row_limit := 2\<rparr>))] False,
                 P_Scan example_physical_scan] True))"

lemma example_union_planned: "plan_statement_select example_env example_union = Inr example_union_plan"
  by (simp add: example_union_def example_union_plan_def plan_statement_select.simps example_plan_all example_plan_some
      union_step_def finish_union_def union_key_def limit_scan_def plain_scan_def example_physical_scan_def)

theorem union_is_evaluated_from_the_left_witness:
  "exec_physical example_semantics example_union_plan = [5, 4, 3, 2]"
  using union_is_evaluated_from_the_left [OF example_semantics_honours example_union_planned [unfolded example_union_def]]
  by (simp add: plan_statement_select.simps example_plan_all example_plan_some union_rows_def limit_rows_def
      union_key_def example_semantics_def example_physical_scan_def)


section \<open>Well-formed plans\<close>

lemma planned_ok_step:
  assumes "qualified_below_joins False current \<and> joins_are_pushed current"
    "qualified_below_joins False branch \<and> joins_are_pushed branch"
  shows "qualified_below_joins False (union_step current (all, branch)) \<and>
    joins_are_pushed (union_step current (all, branch))"
  using assms by (cases current) (auto simp: union_step_def)

lemma planned_ok_fold:
  "\<forall>(all, branch) \<in> set operands. qualified_below_joins False branch \<and> joins_are_pushed branch \<Longrightarrow>
    qualified_below_joins False current \<and> joins_are_pushed current \<Longrightarrow>
    qualified_below_joins False (foldl union_step current operands) \<and> joins_are_pushed (foldl union_step current operands)"
proof (induction operands arbitrary: current)
  case (Cons operand operands)
  obtain all branch where o: "operand = (all, branch)" by (cases operand)
  show ?case
    unfolding foldl_Cons using Cons.prems
    by (intro Cons.IH) (simp_all add: o planned_ok_step)
qed simp

lemma finish_union_ok:
  assumes "finish_union order_by lim current = Inr p"
    "qualified_below_joins False current \<and> joins_are_pushed current"
  shows "qualified_below_joins False p \<and> joins_are_pushed p"
proof -
  from assms(1) obtain m where p: "p = propagateScanRowLimit None m" and
    m: "\<exists>keys. m = (case lim of Some l \<Rightarrow> P_Limit l (if order_by = [] then current else P_Sort keys current)
                  | None \<Rightarrow> if order_by = [] then current else P_Sort keys current)"
    by (auto simp: finish_union_def Let_def split: sum.splits)
  show ?thesis
    using assms(2) m by (cases lim; cases "order_by = []") (auto simp: p qualified_propagate pushed_propagate)
qed

text \<open>C16. Every planned statement, with set operations nested to any depth, qualifies the output of its scans exactly
  below joins and contains no hash join that probes a scan.\<close>

theorem planned_statements_are_well_formed:
  assumes "plan_statement_select env s = Inr p"
  shows "qualified_below_joins False p \<and> joins_are_pushed p"
  using assms
proof (induction s arbitrary: p rule: measure_induct_rule [where f = size])
  case (less s)
  obtain core order_by lim ops where s: "s = Select core order_by lim ops" by (cases s)
  show ?case
  proof (cases "ops = []")
    case True
    then show ?thesis using less.prems bound_plan_ok by (simp add: s plan_statement_select.simps)
  next
    case False
    obtain head operands where head: "plan_bound env (Select core [] None []) = Inr head"
      and ops: "plan_operands env ops = Inr operands"
      and p: "finish_union order_by lim (foldl union_step head operands) = Inr p"
      by (rule planned_union [OF less.prems [unfolded s] False])
    have "qualified_below_joins False branch \<and> joins_are_pushed branch" if b: "(all, branch) \<in> set operands" for all branch
    proof -
      obtain q where q: "(all, Some q) \<in> set ops" "plan_statement_select env q = Inr branch"
        by (rule planned_operand [OF ops b])
      then have "size q < size s" unfolding s by (intro operand_size)
      then show ?thesis using less.IH q(2) by blast
    qed
    then show ?thesis
      using finish_union_ok [OF p] planned_ok_fold [of operands head] bound_plan_ok [OF head] by auto
  qed
qed

theorem planned_statements_are_well_formed_witness:
  "qualified_below_joins False example_union_plan \<and> joins_are_pushed example_union_plan"
  by (rule planned_statements_are_well_formed [OF example_union_planned])

end
