(* ===== verification/Connection_Pool.thy ===== *)
theory Connection_Pool
  imports Prelude
begin

text \<open>
  The pools of gRPC connections: their configuration (\<open>src/pool/MLDPGrpcPoolConfig.cpp\<close>,
  \<open>MLDPGrpcAnnotationPoolConfig.cpp\<close>), the three pools (\<open>MLDPGrpcIngestionPool.cpp\<close>, \<open>MLDPGrpcQueryPool.cpp\<close>,
  \<open>MLDPGrpcAnnotationPool.cpp\<close>), and the handles that return a connection (\<open>include/pool/IPoolHandle.h\<close>).
  A connection is named by the number of the channel; channels, stubs and metrics are left out.
\<close>

section \<open>Configuration\<close>

text \<open>A child of a YAML node has a scalar value or is a container; the credentials have a form of their own.\<close>

datatype ConfigValue = CV_Scalar string | CV_Container

datatype CredentialNode = CN_Scalar string | CN_Map "string \<Rightarrow> string option"

record ConfigNode =
  cf_valid :: bool
  cf_children :: "string \<Rightarrow> ConfigValue option"
  cf_credentials :: "CredentialNode list option"

definition hasChild :: "ConfigNode \<Rightarrow> string \<Rightarrow> bool" where
  "hasChild n k = (cf_valid n \<and> cf_children n k \<noteq> None)"

definition config_get :: "ConfigNode \<Rightarrow> string \<Rightarrow> string \<Rightarrow> string" where
  "config_get n k dflt =
     (if \<not> hasChild n k then dflt
      else (case cf_children n k of Some (CV_Scalar t) \<Rightarrow> t | _ \<Rightarrow> dflt))"

text \<open>\<open>to_int\<close> is the conversion of the YAML library.\<close>

definition getInt :: "(string \<Rightarrow> exn + int) \<Rightarrow> ConfigNode \<Rightarrow> string \<Rightarrow> int \<Rightarrow> exn + int" where
  "getInt to_int n k dflt =
     (if \<not> hasChild n k then Inr dflt
      else (case cf_children n k of Some (CV_Scalar t) \<Rightarrow> to_int t | _ \<Rightarrow> Inr dflt))"

datatype CredentialType = Insecure | Ssl

record Credentials =
  cr_type :: CredentialType
  cr_cert_chain :: string
  cr_private_key :: string
  cr_root_certs :: string

record MLDPGrpcPoolConfig =
  mp_provider_name :: string
  mp_provider_description :: string
  mp_ingestion_url :: string
  mp_query_url :: string
  mp_annotation_url :: string
  mp_min_conn :: int
  mp_max_conn :: int
  mp_credentials :: Credentials
  mp_valid :: bool

definition no_credentials :: Credentials where
  "no_credentials = \<lparr>cr_type = Insecure, cr_cert_chain = [], cr_private_key = [], cr_root_certs = []\<rparr>"

text \<open>\<open>read_file\<close> gives the content of a readable file.\<close>

definition readFile :: "(string \<Rightarrow> string option) \<Rightarrow> string \<Rightarrow> exn + string" where
  "readFile read_file path =
     (case read_file path of
        None \<Rightarrow> Inl (RuntimeError (''Failed to read credentials file at '' @ quoted path))
      | Some text \<Rightarrow> Inr text)"

definition pem_option :: "(string \<Rightarrow> string option) \<Rightarrow> (string \<Rightarrow> string option) \<Rightarrow> string \<Rightarrow> exn + string" where
  "pem_option read_file options k = (case options k of None \<Rightarrow> Inr [] | Some path \<Rightarrow> readFile read_file path)"

definition parse_credentials :: "(string \<Rightarrow> string option) \<Rightarrow> ConfigNode \<Rightarrow> exn + Credentials" where
  "parse_credentials read_file root =
     (case cf_credentials root of
        None \<Rightarrow> Inr no_credentials
      | Some [] \<Rightarrow> Inl (RuntimeError ''mldp-pool.credentials is present but empty'')
      | Some (CN_Scalar t # _) \<Rightarrow>
          if t = ''ssl'' then Inr (no_credentials\<lparr>cr_type := Ssl\<rparr>)
          else if t = ''none'' \<or> t = [] then Inr no_credentials
          else Inl (RuntimeError ''mldp-pool.credentials must be 'none', 'ssl', or a map of TLS options'')
      | Some (CN_Map options # _) \<Rightarrow>
          (case pem_option read_file options ''pem-cert-chain'' of Inl e \<Rightarrow> Inl e | Inr chain \<Rightarrow>
          (case pem_option read_file options ''pem-private-key'' of Inl e \<Rightarrow> Inl e | Inr key \<Rightarrow>
          (case pem_option read_file options ''pem-root-certs'' of Inl e \<Rightarrow> Inl e | Inr roots \<Rightarrow>
             Inr \<lparr>cr_type = Ssl, cr_cert_chain = chain, cr_private_key = key, cr_root_certs = roots\<rparr>))))"

definition makeMissingFieldMessage :: "string \<Rightarrow> string" where
  "makeMissingFieldMessage field = ''Missing required field '' @ quoted field @ '' in configuration''"

definition pool_error :: "string \<Rightarrow> string \<Rightarrow> exn" where
  "pool_error field message = RuntimeError (''mldp-pool.'' @ field @ message)"

definition required_text :: "ConfigNode \<Rightarrow> string \<Rightarrow> exn + string" where
  "required_text root field =
     (if \<not> hasChild root field then Inl (RuntimeError (makeMissingFieldMessage field))
      else if config_get root field [] = [] then Inl (pool_error field '' must not be empty'')
      else Inr (config_get root field []))"

definition connection_count :: "(string \<Rightarrow> exn + int) \<Rightarrow> ConfigNode \<Rightarrow> string \<Rightarrow> exn + int" where
  "connection_count to_int root field =
     (if \<not> hasChild root field then Inr 0
      else (case getInt to_int root field 0 of
              Inl e \<Rightarrow> Inl e
            | Inr v \<Rightarrow> if v \<le> 0 then Inl (pool_error field '' must be greater than zero'') else Inr v))"

definition pool_parse ::
  "(string \<Rightarrow> exn + int) \<Rightarrow> (string \<Rightarrow> string option) \<Rightarrow> ConfigNode \<Rightarrow> exn + MLDPGrpcPoolConfig" where
  "pool_parse to_int read_file root =
     (if \<not> cf_valid root then Inl (RuntimeError ''mldp-pool configuration node is invalid'') else
      (case required_text root ''provider-name'' of Inl e \<Rightarrow> Inl e | Inr name \<Rightarrow>
       let description = (if hasChild root ''provider-description''
                          then config_get root ''provider-description'' [] else name) in
      (case required_text root ''ingestion-url'' of Inl e \<Rightarrow> Inl e | Inr ingestion \<Rightarrow>
       let query = config_get root ''query-url'' [] in
       if query \<noteq> [] \<and> query = ingestion then Inl (pool_error ''query-url'' '' must not be equal to ingestion-url'') else
      (case connection_count to_int root ''min-conn'' of Inl e \<Rightarrow> Inl e | Inr lo \<Rightarrow>
      (case connection_count to_int root ''max-conn'' of Inl e \<Rightarrow> Inl e | Inr hi \<Rightarrow>
       if hi > 0 \<and> lo > 0 \<and> hi < lo
       then Inl (pool_error ''max-conn'' '' must be greater than or equal to min-conn'') else
      (case parse_credentials read_file root of Inl e \<Rightarrow> Inl e | Inr credentials \<Rightarrow>
       Inr \<lparr>mp_provider_name = name, mp_provider_description = description, mp_ingestion_url = ingestion,
            mp_query_url = query, mp_annotation_url = config_get root ''annotation-url'' [], mp_min_conn = lo,
            mp_max_conn = hi, mp_credentials = credentials, mp_valid = True\<rparr>))))))"

text \<open>The annotation pool from a node of its own: the URL, and both sizes, which are required here.\<close>

definition annotation_error :: "string \<Rightarrow> exn" where
  "annotation_error message = RuntimeError (''annotation-pool: '' @ message)"

definition annotation_count :: "(string \<Rightarrow> exn + int) \<Rightarrow> ConfigNode \<Rightarrow> string \<Rightarrow> exn + int" where
  "annotation_count to_int node field =
     (if \<not> hasChild node field then Inl (annotation_error (quoted field @ '' is required''))
      else (case getInt to_int node field 0 of
              Inl e \<Rightarrow> Inl e
            | Inr v \<Rightarrow> if v \<le> 0 then Inl (annotation_error (quoted field @ '' must be > 0'')) else Inr v))"

definition annotation_pem :: "(string \<Rightarrow> string option) \<Rightarrow> (string \<Rightarrow> string option) \<Rightarrow> string \<Rightarrow> exn + string" where
  "annotation_pem read_file options k =
     (case options k of None \<Rightarrow> Inr []
      | Some path \<Rightarrow>
          (case read_file path of
             None \<Rightarrow> Inl (annotation_error (''cannot read file '' @ quoted path))
           | Some text \<Rightarrow> Inr text))"

definition annotation_credentials :: "(string \<Rightarrow> string option) \<Rightarrow> ConfigNode \<Rightarrow> exn + Credentials" where
  "annotation_credentials read_file node =
     (case cf_credentials node of
        None \<Rightarrow> Inr no_credentials
      | Some [] \<Rightarrow> Inl (annotation_error (quoted ''credentials'' @ '' is present but empty''))
      | Some (CN_Scalar t # _) \<Rightarrow>
          if t = ''ssl'' then Inr (no_credentials\<lparr>cr_type := Ssl\<rparr>)
          else if t \<noteq> ''none'' \<and> t \<noteq> []
          then Inl (annotation_error (quoted ''credentials'' @ '' must be 'none', 'ssl', or a TLS map''))
          else Inr no_credentials
      | Some (CN_Map options # _) \<Rightarrow>
          (case annotation_pem read_file options ''pem-cert-chain'' of Inl e \<Rightarrow> Inl e | Inr chain \<Rightarrow>
          (case annotation_pem read_file options ''pem-private-key'' of Inl e \<Rightarrow> Inl e | Inr key \<Rightarrow>
          (case annotation_pem read_file options ''pem-root-certs'' of Inl e \<Rightarrow> Inl e | Inr roots \<Rightarrow>
             Inr \<lparr>cr_type = Ssl, cr_cert_chain = chain, cr_private_key = key, cr_root_certs = roots\<rparr>))))"

definition empty_config :: MLDPGrpcPoolConfig where
  "empty_config = \<lparr>mp_provider_name = [], mp_provider_description = [], mp_ingestion_url = [], mp_query_url = [],
     mp_annotation_url = [], mp_min_conn = 0, mp_max_conn = 0, mp_credentials = no_credentials, mp_valid = False\<rparr>"

definition annotation_parse ::
  "(string \<Rightarrow> exn + int) \<Rightarrow> (string \<Rightarrow> string option) \<Rightarrow> ConfigNode \<Rightarrow> exn + MLDPGrpcPoolConfig" where
  "annotation_parse to_int read_file node =
     (if \<not> cf_valid node then Inl (annotation_error ''configuration node is invalid'') else
      let url = config_get node ''annotation-url'' [] in
      if url = [] then Inl (annotation_error (quoted ''annotation-url'' @ '' is required'')) else
      (case annotation_count to_int node ''min-conn'' of Inl e \<Rightarrow> Inl e | Inr lo \<Rightarrow>
      (case annotation_count to_int node ''max-conn'' of Inl e \<Rightarrow> Inl e | Inr hi \<Rightarrow>
       if hi < lo then Inl (annotation_error ''max-conn must be >= min-conn'') else
      (case annotation_credentials read_file node of Inl e \<Rightarrow> Inl e | Inr credentials \<Rightarrow>
       Inr (empty_config\<lparr>mp_annotation_url := url, mp_min_conn := lo, mp_max_conn := hi,
            mp_credentials := credentials, mp_valid := True\<rparr>)))))"

definition annotation_of_pool :: "MLDPGrpcPoolConfig \<Rightarrow> exn + MLDPGrpcPoolConfig" where
  "annotation_of_pool full =
     (if mp_annotation_url full = []
      then Inl (RuntimeError ''MLDPGrpcAnnotationPoolConfig: annotation-url is empty in source pool config'')
      else Inr (empty_config\<lparr>mp_annotation_url := mp_annotation_url full, mp_min_conn := mp_min_conn full,
        mp_max_conn := mp_max_conn full,
        mp_credentials := (if cr_type (mp_credentials full) = Ssl then mp_credentials full else no_credentials),
        mp_valid := True\<rparr>))"

section \<open>Pools\<close>

text \<open>Items in creation order, each with its flag \<open>in_use\<close>; \<open>pl_created\<close> names the next connection.\<close>

record Pool =
  pl_items :: "(nat \<times> bool) list"
  pl_current_size :: nat
  pl_max_connections :: nat
  pl_created :: nat

definition check_sizes :: "string \<Rightarrow> MLDPGrpcPoolConfig \<Rightarrow> exn option" where
  "check_sizes name config =
     (if mp_min_conn config = 0 \<or> mp_min_conn config > mp_max_conn config
      then Some (LogicError (name @ '': invalid min/max size'')) else None)"

definition filled_pool :: "MLDPGrpcPoolConfig \<Rightarrow> Pool" where
  "filled_pool config =
     (let n = nat (mp_min_conn config) in
      \<lparr>pl_items = map (\<lambda>i. (i, False)) [0..<n], pl_current_size = n, pl_max_connections = nat (mp_max_conn config),
       pl_created = n\<rparr>)"

text \<open>The answer to the registration of a provider.\<close>

datatype RegisterResponse = RR_StatusError | RR_Result string | RR_Exceptional | RR_Empty

definition registerProvider :: "RegisterResponse \<Rightarrow> string \<Rightarrow> bool \<times> string" where
  "registerProvider response provider_id =
     (case response of
        RR_Result new_id \<Rightarrow>
          if provider_id = [] then (True, new_id)
          else if provider_id \<noteq> new_id then (False, provider_id) else (True, provider_id)
      | _ \<Rightarrow> (False, provider_id))"

definition open_ingestion_pool :: "RegisterResponse \<Rightarrow> MLDPGrpcPoolConfig \<Rightarrow> exn + Pool \<times> string" where
  "open_ingestion_pool response config =
     (if \<not> mp_valid config then Inl (LogicError ''MLDPGrpcPool: configuration is invalid'') else
      (case check_sizes ''MLDPGrpcPool'' config of Some e \<Rightarrow> Inl e | None \<Rightarrow>
        (case registerProvider response [] of
           (False, _) \<Rightarrow> Inl (RuntimeError ''MLDPGrpcPool: failed to register provider on new connection'')
         | (True, provider_id) \<Rightarrow> Inr (filled_pool config, provider_id))))"

definition open_query_pool :: "MLDPGrpcPoolConfig \<Rightarrow> exn + Pool" where
  "open_query_pool config =
     (if \<not> mp_valid config then Inl (LogicError ''MLDPGrpcQueryPool: configuration is invalid'') else
      (case check_sizes ''MLDPGrpcQueryPool'' config of Some e \<Rightarrow> Inl e | None \<Rightarrow> Inr (filled_pool config)))"

text \<open>The annotation pool starts without connections.\<close>

definition open_annotation_pool :: "MLDPGrpcPoolConfig \<Rightarrow> exn + Pool" where
  "open_annotation_pool config =
     (if \<not> mp_valid config then Inl (LogicError ''MLDPGrpcAnnotationPool: configuration is invalid'')
      else if mp_annotation_url config = []
      then Inl (LogicError ''MLDPGrpcAnnotationPool: annotation-url must not be empty'') else
      (case check_sizes ''MLDPGrpcAnnotationPool'' config of Some e \<Rightarrow> Inl e | None \<Rightarrow>
        Inr \<lparr>pl_items = [], pl_current_size = 0, pl_max_connections = nat (mp_max_conn config), pl_created = 0\<rparr>))"

text \<open>The first idle item is taken.\<close>

fun take_idle :: "(nat \<times> bool) list \<Rightarrow> ((nat \<times> bool) list \<times> nat) option" where
  "take_idle [] = None"
| "take_idle ((obj, in_use) # items) =
     (if \<not> in_use then Some ((obj, True) # items, obj)
      else (case take_idle items of None \<Rightarrow> None | Some (items', found) \<Rightarrow> Some ((obj, in_use) # items', found)))"

text \<open>One turn of the loop of \<open>acquire\<close>; \<open>None\<close> waits for a notification or the time-out and turns again.\<close>

definition acquire_turn :: "Pool \<Rightarrow> (Pool \<times> nat) option" where
  "acquire_turn p =
     (case take_idle (pl_items p) of
        Some (items, obj) \<Rightarrow> Some (p\<lparr>pl_items := items\<rparr>, obj)
      | None \<Rightarrow>
          if pl_current_size p < pl_max_connections p then
            Some (p\<lparr>pl_items := pl_items p @ [(pl_created p, True)], pl_current_size := pl_current_size p + 1,
                    pl_created := pl_created p + 1\<rparr>, pl_created p)
          else None)"

fun release_items :: "nat \<Rightarrow> (nat \<times> bool) list \<Rightarrow> (nat \<times> bool) list" where
  "release_items obj [] = []"
| "release_items obj ((other, in_use) # items) =
     (if other = obj then (other, False) # items else (other, in_use) # release_items obj items)"

definition release :: "nat \<Rightarrow> Pool \<Rightarrow> Pool" where
  "release obj p = p\<lparr>pl_items := release_items obj (pl_items p)\<rparr>"

definition availableCount :: "Pool \<Rightarrow> nat" where
  "availableCount p = length (filter (\<lambda>(obj, in_use). \<not> in_use) (pl_items p))"

text \<open>The two gauges of the metrics.\<close>

definition pool_gauges :: "Pool \<Rightarrow> nat \<times> nat" where
  "pool_gauges p = (availableCount p, pl_current_size p - availableCount p)"

section \<open>Handles\<close>

text \<open>
  Each variable of type \<open>PooledHandle\<close> is a number; \<open>None\<close> is an empty handle.  A step is one critical section of
  the pool together with the local work on the handles of the thread that runs it.
\<close>

record PoolState =
  ps_pool :: Pool
  ps_handles :: "nat \<Rightarrow> nat option"
  ps_waiting :: "nat set"

definition reset_handle :: "nat \<Rightarrow> PoolState \<Rightarrow> PoolState" where
  "reset_handle h s =
     (case ps_handles s h of
        None \<Rightarrow> s
      | Some obj \<Rightarrow> s\<lparr>ps_pool := release obj (ps_pool s), ps_handles := (ps_handles s)(h := None)\<rparr>)"

definition move_handle :: "nat \<Rightarrow> nat \<Rightarrow> PoolState \<Rightarrow> PoolState" where
  "move_handle from to s = s\<lparr>ps_handles := (ps_handles s)(to := ps_handles s from, from := None)\<rparr>"

inductive pool_step :: "PoolState \<Rightarrow> PoolState \<Rightarrow> bool" where
  acquired: "ps_handles s h = None \<Longrightarrow> acquire_turn (ps_pool s) = Some (p, obj) \<Longrightarrow>
    pool_step s (s\<lparr>ps_pool := p, ps_handles := (ps_handles s)(h \<mapsto> obj), ps_waiting := ps_waiting s - {h}\<rparr>)"
| waits: "ps_handles s h = None \<Longrightarrow> acquire_turn (ps_pool s) = None \<Longrightarrow>
    pool_step s (s\<lparr>ps_waiting := insert h (ps_waiting s)\<rparr>)"
| moved: "from \<noteq> to \<Longrightarrow> from \<notin> ps_waiting s \<Longrightarrow> to \<notin> ps_waiting s \<Longrightarrow>
    pool_step s (move_handle from to (reset_handle to s))"
| reset: "h \<notin> ps_waiting s \<Longrightarrow> pool_step s (reset_handle h s)"

inductive_cases pool_stepE: "pool_step s t"

definition pool_start :: "Pool \<Rightarrow> PoolState" where
  "pool_start p = \<lparr>ps_pool = p, ps_handles = (\<lambda>h. None), ps_waiting = {}\<rparr>"

abbreviation pool_reaches :: "Pool \<Rightarrow> PoolState \<Rightarrow> bool" where
  "pool_reaches p \<equiv> pool_step\<^sup>*\<^sup>* (pool_start p)"

section \<open>What the items keep\<close>

lemma take_idle_None: "take_idle items = None \<longleftrightarrow> (\<forall>(obj, in_use)\<in>set items. in_use)"
  by (induction items rule: take_idle.induct) (auto split: option.splits)

lemma take_idle_fst: "take_idle items = Some (items', obj) \<Longrightarrow> map fst items' = map fst items"
  by (induction items arbitrary: items' rule: take_idle.induct) (auto split: if_splits option.splits)

lemma take_idle_found: "take_idle items = Some (items', obj) \<Longrightarrow> (obj, False) \<in> set items"
  by (induction items arbitrary: items' rule: take_idle.induct) (auto split: if_splits option.splits)

lemma take_idle_flags:
  "take_idle items = Some (items', obj) \<Longrightarrow> distinct (map fst items) \<Longrightarrow>
    (x, u) \<in> set items' \<longleftrightarrow> (if x = obj then u else (x, u) \<in> set items)"
proof (induction items arbitrary: items')
  case (Cons item items)
  obtain y v where item: "item = (y, v)" by (cases item)
  show ?case
  proof (cases v)
    case False
    then have "y = obj" "items' = (obj, True) # items" using Cons.prems(1) by (auto simp: item)
    then show ?thesis using Cons.prems(2) False by (auto simp: item image_iff)
  next
    case True
    then obtain found where found: "take_idle items = Some (found, obj)" "items' = (y, v) # found"
      using Cons.prems(1) by (auto simp: item split: option.splits)
    have "y \<noteq> obj" using take_idle_found [OF found(1)] Cons.prems(2) by (auto simp: item image_iff)
    then show ?thesis using Cons.IH [OF found(1)] Cons.prems(2) by (auto simp: item found(2))
  qed
qed simp

lemma take_idle_Some:
  "take_idle items = Some (items', obj) \<Longrightarrow> distinct (map fst items) \<Longrightarrow>
    map fst items' = map fst items \<and> (obj, False) \<in> set items \<and>
    (\<forall>x u. (x, u) \<in> set items' \<longleftrightarrow> (if x = obj then u else (x, u) \<in> set items))"
  using take_idle_fst take_idle_found take_idle_flags by simp

lemma map_fst_release [simp]: "map fst (release_items obj items) = map fst items"
  by (induction items) (auto split: prod.splits)

lemma length_release [simp]: "length (release_items obj items) = length items"
  by (induction items) auto

lemma set_release:
  "distinct (map fst items) \<Longrightarrow>
    (x, u) \<in> set (release_items obj items) \<longleftrightarrow>
      (if x = obj then \<not> u \<and> obj \<in> fst ` set items else (x, u) \<in> set items)"
proof (induction items)
  case (Cons item items)
  obtain y v where item: "item = (y, v)" by (cases item)
  have fresh: "(y, w) \<notin> set items" "y \<notin> fst ` set items" for w
    using Cons.prems by (auto simp: item image_iff)
  show ?case
    using Cons fresh by (cases "y = obj") (auto simp: item image_iff)
qed simp

text \<open>
  The items are distinct connections, as many as \<open>current_size\<close>, at most \<open>max\<close>; the ones in use are those a handle
  holds, and no two handles hold the same.
\<close>

definition items_ok :: "Pool \<Rightarrow> bool" where
  "items_ok p \<longleftrightarrow>
     distinct (map fst (pl_items p)) \<and> (\<forall>x\<in>set (pl_items p). fst x < pl_created p) \<and>
     length (pl_items p) = pl_current_size p \<and> pl_current_size p \<le> pl_max_connections p"

definition pool_inv :: "PoolState \<Rightarrow> bool" where
  "pool_inv s \<longleftrightarrow>
     items_ok (ps_pool s) \<and>
     (\<forall>obj. (obj, True) \<in> set (pl_items (ps_pool s)) \<longleftrightarrow> (\<exists>h. ps_handles s h = Some obj)) \<and>
     (\<forall>h g obj. ps_handles s h = Some obj \<longrightarrow> ps_handles s g = Some obj \<longrightarrow> h = g)"

lemma item_flag_unique:
  "items_ok p \<Longrightarrow> (obj, True) \<in> set (pl_items p) \<Longrightarrow> (obj, False) \<notin> set (pl_items p)"
  unfolding items_ok_def by (metis eq_key_imp_eq_value)

lemma acquire_turn_ok:
  assumes ok: "items_ok p" and turn: "acquire_turn p = Some (q, obj)"
  shows "items_ok q \<and> (obj, True) \<notin> set (pl_items p) \<and> pl_max_connections q = pl_max_connections p \<and>
    (\<forall>x. (x, True) \<in> set (pl_items q) \<longleftrightarrow> x = obj \<or> (x, True) \<in> set (pl_items p))"
proof (cases "take_idle (pl_items p)")
  case None
  then have "pl_current_size p < pl_max_connections p" and obj: "obj = pl_created p" and
    q: "q = p\<lparr>pl_items := pl_items p @ [(pl_created p, True)], pl_current_size := pl_current_size p + 1,
             pl_created := pl_created p + 1\<rparr>"
    using turn by (auto simp: acquire_turn_def split: if_splits)
  moreover have "pl_created p \<notin> fst ` set (pl_items p)"
    using ok by (auto simp: items_ok_def)
  moreover have "\<forall>x\<in>set (pl_items p). fst x < Suc (pl_created p)"
    using ok by (auto simp: items_ok_def less_Suc_eq)
  ultimately show ?thesis
    using ok by (auto simp: items_ok_def)
next
  case (Some found)
  then obtain items where items: "take_idle (pl_items p) = Some (items, obj)" and q: "q = p\<lparr>pl_items := items\<rparr>"
    using turn by (cases found) (auto simp: acquire_turn_def)
  have d: "distinct (map fst (pl_items p))" using ok by (simp add: items_ok_def)
  note t = take_idle_Some [OF items d]
  have "fst ` set items = fst ` set (pl_items p)" "length items = length (pl_items p)"
    using t by (metis list.set_map, metis length_map)
  then have "items_ok q"
    using ok t by (auto simp: items_ok_def q) (metis (no_types, lifting) fst_conv image_iff)
  moreover have "(obj, True) \<notin> set (pl_items p)" using item_flag_unique [OF ok] t by blast
  ultimately show ?thesis using t by (auto simp: q)
qed

lemma fst_bound: "(\<forall>x\<in>set items. fst x < n) \<longleftrightarrow> (\<forall>k\<in>set (map fst items). k < n)" for n :: nat
  by simp

lemma release_ok: "items_ok p \<Longrightarrow> items_ok (release obj p)"
  unfolding items_ok_def release_def fst_bound by (simp del: list.set_map)

lemma handle_reset_inv:
  assumes inv: "pool_inv s"
  shows "pool_inv (reset_handle h s)" and "ps_handles (reset_handle h s) h = None"
proof -
  show "ps_handles (reset_handle h s) h = None"
    by (simp add: reset_handle_def split: option.splits)
  show "pool_inv (reset_handle h s)"
  proof (cases "ps_handles s h")
    case None
    then show ?thesis using inv by (simp add: reset_handle_def)
  next
    case (Some obj)
    let ?t = "reset_handle h s"
    have d: "distinct (map fst (pl_items (ps_pool s)))" and ok: "items_ok (ps_pool ?t)"
      using inv release_ok [of "ps_pool s"] Some by (simp_all add: pool_inv_def items_ok_def reset_handle_def)
    have "(x, True) \<in> set (pl_items (ps_pool ?t)) \<longleftrightarrow> (\<exists>g. ps_handles ?t g = Some x)" for x
    proof -
      have "(x, True) \<in> set (pl_items (ps_pool ?t)) \<longleftrightarrow> x \<noteq> obj \<and> (\<exists>g. ps_handles s g = Some x)"
        using inv Some by (auto simp: reset_handle_def release_def set_release [OF d] pool_inv_def)
      moreover have "x \<noteq> obj \<and> ps_handles s g = Some x \<longleftrightarrow> ps_handles ?t g = Some x" for g
        using inv Some by (auto simp: reset_handle_def pool_inv_def)
      ultimately show ?thesis by blast
    qed
    then show ?thesis
      using inv ok Some by (auto simp: pool_inv_def reset_handle_def split: if_splits)
  qed
qed

lemma move_inv:
  assumes "pool_inv s" "ps_handles s to = None" "from \<noteq> to"
  shows "pool_inv (move_handle from to s)"
proof -
  have moved: "ps_handles (move_handle from to s) g = Some obj \<longleftrightarrow>
      g = to \<and> ps_handles s from = Some obj \<or> g \<noteq> to \<and> g \<noteq> from \<and> ps_handles s g = Some obj" for g obj
    using assms(2,3) by (auto simp: move_handle_def)
  have holds: "(\<exists>h. ps_handles (move_handle from to s) h = Some obj) \<longleftrightarrow> (\<exists>h. ps_handles s h = Some obj)" for obj
    unfolding moved using assms(2,3) by (metis option.distinct(1))
  have "h = g" if "ps_handles (move_handle from to s) h = Some obj" "ps_handles (move_handle from to s) g = Some obj"
    for h g obj
    using that assms(1) unfolding moved pool_inv_def by metis
  moreover have "ps_pool (move_handle from to s) = ps_pool s" by (simp add: move_handle_def)
  ultimately show ?thesis using assms(1) holds unfolding pool_inv_def by auto
qed

lemma pool_step_inv:
  assumes "pool_step s t" "pool_inv s"
  shows "pool_inv t"
  using assms
proof (cases rule: pool_step.cases)
  case (acquired h p obj)
  have "items_ok (ps_pool s)" using assms(2) by (simp add: pool_inv_def)
  note a = acquire_turn_ok [OF this acquired(3)]
  have "(\<exists>g. ps_handles t g = Some x) \<longleftrightarrow> x = obj \<or> (\<exists>g. ps_handles s g = Some x)" for x
    using acquired(2) by (auto simp: acquired(1)) (metis option.distinct(1))
  moreover have "\<not> (\<exists>g. ps_handles s g = Some obj)" using a assms(2) by (simp add: pool_inv_def)
  ultimately show ?thesis
    using assms(2) a by (auto simp: pool_inv_def acquired(1) split: if_splits)
next
  case (waits h)
  then show ?thesis using assms(2) by (simp add: pool_inv_def)
next
  case (moved "from" to)
  then show ?thesis using assms(2) handle_reset_inv move_inv by metis
next
  case (reset h)
  then show ?thesis using assms(2) handle_reset_inv by simp
qed

lemma pool_reaches_inv: "pool_reaches p s \<Longrightarrow> items_ok p \<Longrightarrow> \<forall>x\<in>set (pl_items p). \<not> snd x \<Longrightarrow> pool_inv s"
proof (induction rule: rtranclp_induct)
  case base
  then show ?case by (auto simp: pool_inv_def pool_start_def)
next
  case (step s t)
  then show ?case using pool_step_inv by blast
qed

section \<open>What a running pool guarantees\<close>

lemma held_count:
  assumes inv: "pool_inv s"
  shows "card (dom (ps_handles s)) = length (filter snd (pl_items (ps_pool s)))" "finite (dom (ps_handles s))"
proof -
  let ?items = "pl_items (ps_pool s)"
  have d: "distinct (map fst (filter snd ?items))"
    using inv by (simp add: pool_inv_def items_ok_def distinct_map_filter)
  have inj: "inj_on (the \<circ> ps_handles s) (dom (ps_handles s))"
    using inv by (auto simp: inj_on_def pool_inv_def)
  have "(the \<circ> ps_handles s) ` dom (ps_handles s) = {obj. \<exists>h. ps_handles s h = Some obj}"
    by (force simp: image_iff)
  also have "\<dots> = {obj. (obj, True) \<in> set ?items}" using inv by (simp add: pool_inv_def)
  also have "\<dots> = set (map fst (filter snd ?items))" by force
  finally have image: "(the \<circ> ps_handles s) ` dom (ps_handles s) = set (map fst (filter snd ?items))" .
  show "finite (dom (ps_handles s))"
    by (rule finite_imageD [OF _ inj]) (simp only: image List.finite_set)
  show "card (dom (ps_handles s)) = length (filter snd ?items)"
    using card_image [OF inj] distinct_card [OF d] by (simp only: image length_map)
qed

lemma available_and_held: "availableCount p + length (filter snd (pl_items p)) = length (pl_items p)"
proof -
  have idle: "(\<lambda>(obj :: nat, in_use). \<not> in_use) = (\<lambda>x. \<not> snd x)" by auto
  show ?thesis
    using sum_length_filter_compl [of snd "pl_items p"] by (simp add: availableCount_def idle)
qed

lemma acquire_turn_None:
  assumes ok: "items_ok p"
  shows "acquire_turn p = None \<longleftrightarrow> length (filter snd (pl_items p)) = pl_max_connections p"
proof (cases "take_idle (pl_items p)")
  case None
  then have "filter snd (pl_items p) = pl_items p"
    by (auto simp: take_idle_None filter_id_conv)
  then show ?thesis
    using ok None by (auto simp: acquire_turn_def items_ok_def)
next
  case (Some found)
  then have "\<exists>x\<in>set (pl_items p). \<not> snd x"
    using take_idle_found [of "pl_items p" "fst found" "snd found"] by force
  then have "length (filter snd (pl_items p)) < length (pl_items p)"
    by (meson length_filter_less)
  then show ?thesis
    using ok Some by (cases found) (simp add: acquire_turn_def items_ok_def)
qed

lemma max_connections_fixed:
  assumes "pool_step s t" "pool_inv s"
  shows "pl_max_connections (ps_pool t) = pl_max_connections (ps_pool s)"
  using assms(1)
proof (cases rule: pool_step.cases)
  case (acquired h p obj)
  then show ?thesis using assms(2) acquire_turn_ok by (simp add: pool_inv_def)
qed (auto simp: reset_handle_def move_handle_def release_def split: option.splits)

lemma waiting_is_empty_handed:
  "pool_step s t \<Longrightarrow> \<forall>h\<in>ps_waiting s. ps_handles s h = None \<Longrightarrow> \<forall>h\<in>ps_waiting t. ps_handles t h = None"
  by (auto simp: reset_handle_def move_handle_def elim!: pool_stepE split: option.splits)

lemma reached_state:
  assumes "pool_reaches p s" "items_ok p" "\<forall>x\<in>set (pl_items p). \<not> snd x"
  shows "pool_inv s \<and> pl_max_connections (ps_pool s) = pl_max_connections p \<and>
    (\<forall>h\<in>ps_waiting s. ps_handles s h = None)"
  using assms(1)
proof (induction rule: rtranclp_induct)
  case base
  then show ?case using pool_reaches_inv [OF rtranclp.rtrancl_refl assms(2,3)] by (simp add: pool_start_def)
next
  case (step s t)
  then show ?case using pool_step_inv max_connections_fixed waiting_is_empty_handed by metis
qed

text \<open>A pool as one of the three constructors leaves it; parsed sizes are never negative.\<close>

definition opened :: "MLDPGrpcPoolConfig \<Rightarrow> Pool \<Rightarrow> bool" where
  "opened config p \<longleftrightarrow>
     (\<exists>response provider. open_ingestion_pool response config = Inr (p, provider)) \<or>
     open_query_pool config = Inr p \<or> open_annotation_pool config = Inr p"

lemma opened_ok:
  assumes "opened config p" "0 \<le> mp_min_conn config"
  shows "items_ok p \<and> (\<forall>x\<in>set (pl_items p). \<not> snd x) \<and> pl_max_connections p = nat (mp_max_conn config) \<and>
    0 < pl_max_connections p"
proof -
  have sizes: "0 < mp_min_conn config" "mp_min_conn config \<le> mp_max_conn config"
    using assms
    by (auto simp: opened_def open_ingestion_pool_def open_query_pool_def open_annotation_pool_def check_sizes_def
        split: if_splits)
  have "p = filled_pool config \<or>
      p = \<lparr>pl_items = [], pl_current_size = 0, pl_max_connections = nat (mp_max_conn config), pl_created = 0\<rparr>"
    using assms(1)
    by (auto simp: opened_def open_ingestion_pool_def open_query_pool_def open_annotation_pool_def
        split: if_splits option.splits prod.splits bool.splits)
  then show ?thesis
    using sizes by (auto simp: filled_pool_def items_ok_def Let_def o_def)
qed

text \<open>C26. Whatever threads acquire, move and drop handles, no connection is ever held by two handles, the connections
  marked in use are exactly those held, the pool never exceeds its maximum, and the gauges of the metrics count the
  idle and the held connections exactly.\<close>

theorem pool_is_exclusive:
  assumes "opened config p" "0 \<le> mp_min_conn config" "pool_reaches p s"
  shows "(\<forall>h g obj. ps_handles s h = Some obj \<longrightarrow> ps_handles s g = Some obj \<longrightarrow> h = g) \<and>
    {obj. (obj, True) \<in> set (pl_items (ps_pool s))} = ran (ps_handles s) \<and>
    length (pl_items (ps_pool s)) \<le> nat (mp_max_conn config) \<and>
    pool_gauges (ps_pool s) =
      (length (pl_items (ps_pool s)) - card (dom (ps_handles s)), card (dom (ps_handles s)))"
proof -
  note o = opened_ok [OF assms(1,2)]
  then have r: "pool_inv s \<and> pl_max_connections (ps_pool s) = nat (mp_max_conn config)"
    using reached_state [OF assms(3)] by simp
  then have c: "card (dom (ps_handles s)) = length (filter snd (pl_items (ps_pool s)))" using held_count by blast
  show ?thesis
    using r c available_and_held [of "ps_pool s"]
    by (auto simp: pool_inv_def items_ok_def pool_gauges_def ran_def)
qed

definition example_pool_config :: MLDPGrpcPoolConfig where
  "example_pool_config = empty_config\<lparr>mp_query_url := ''q'', mp_min_conn := 1, mp_max_conn := 2, mp_valid := True\<rparr>"

lemma example_pool_opens: "opened example_pool_config (filled_pool example_pool_config)"
  by (simp add: opened_def open_query_pool_def check_sizes_def example_pool_config_def empty_config_def)

text \<open>One handle of a thread holds connection 0, a second one connection 1, the first was moved to a third.\<close>

definition example_pool_state :: PoolState where
  "example_pool_state =
     \<lparr>ps_pool = \<lparr>pl_items = [(0, True), (1, True)], pl_current_size = 2, pl_max_connections = 2, pl_created = 2\<rparr>,
      ps_handles = (\<lambda>h. None)(1 \<mapsto> 1, 2 \<mapsto> 0), ps_waiting = {0}\<rparr>"

lemma example_pool_reached: "pool_reaches (filled_pool example_pool_config) example_pool_state"
proof -
  let ?p1 = "\<lparr>pl_items = [(0, True)], pl_current_size = 1, pl_max_connections = 2, pl_created = 1\<rparr>"
  let ?p2 = "ps_pool example_pool_state"
  let ?s1 = "\<lparr>ps_pool = ?p1, ps_handles = (\<lambda>h. None)(0 \<mapsto> 0), ps_waiting = {}\<rparr>"
  let ?s2 = "\<lparr>ps_pool = ?p2, ps_handles = (\<lambda>h. None)(0 \<mapsto> 0, 1 \<mapsto> 1), ps_waiting = {}\<rparr>"
  let ?s3 = "\<lparr>ps_pool = ?p2, ps_handles = (\<lambda>h. None)(1 \<mapsto> 1, 2 \<mapsto> 0), ps_waiting = {}\<rparr>"
  have 1: "pool_step (pool_start (filled_pool example_pool_config)) ?s1"
    using pool_step.acquired [of "pool_start (filled_pool example_pool_config)" 0 ?p1 0]
    by (simp add: pool_start_def filled_pool_def example_pool_config_def empty_config_def acquire_turn_def)
  have 2: "pool_step ?s1 ?s2"
    using pool_step.acquired [of ?s1 1 ?p2 1] by (simp add: acquire_turn_def example_pool_state_def)
  have 3: "pool_step ?s2 ?s3"
  proof -
    have "move_handle 0 2 (reset_handle 2 ?s2) = ?s3"
      by (auto simp: reset_handle_def move_handle_def fun_eq_iff)
    then show ?thesis using pool_step.moved [of 0 2 ?s2] by simp
  qed
  have 4: "pool_step ?s3 example_pool_state"
    using pool_step.waits [of ?s3 0] by (simp add: acquire_turn_def example_pool_state_def)
  show ?thesis using 1 2 3 4 by (meson rtranclp.intros)
qed

theorem pool_is_exclusive_witness: "pool_gauges (ps_pool example_pool_state) = (0, 2)"
proof -
  have "dom (ps_handles example_pool_state) = {1, 2}" by (auto simp: example_pool_state_def)
  moreover have "pool_gauges (ps_pool example_pool_state) =
      (length (pl_items (ps_pool example_pool_state)) - card (dom (ps_handles example_pool_state)),
       card (dom (ps_handles example_pool_state)))"
    using pool_is_exclusive [OF example_pool_opens _ example_pool_reached]
    by (simp add: example_pool_config_def)
  ultimately show ?thesis by (simp add: example_pool_state_def)
qed

text \<open>C27. A call of \<open>acquire\<close> waits exactly when the maximum number of connections is held, and it is never stuck:
  from every reachable state an empty handle, waiting or not, can still get a connection.\<close>

theorem acquire_waits_only_when_exhausted:
  assumes "opened config p" "0 \<le> mp_min_conn config" "pool_reaches p s"
  shows "(acquire_turn (ps_pool s) = None \<longleftrightarrow> card (dom (ps_handles s)) = nat (mp_max_conn config)) \<and>
    (\<forall>h. ps_handles s h = None \<longrightarrow> (\<exists>t. pool_step\<^sup>*\<^sup>* s t \<and> ps_handles t h \<noteq> None))"
proof -
  note o = opened_ok [OF assms(1,2)]
  have r: "pool_inv s" "pl_max_connections (ps_pool s) = nat (mp_max_conn config)"
    "\<forall>h\<in>ps_waiting s. ps_handles s h = None"
    using reached_state [OF assms(3)] o by simp_all
  have ok: "items_ok (ps_pool s)" using r(1) by (simp add: pool_inv_def)
  have iff: "acquire_turn (ps_pool s) = None \<longleftrightarrow> card (dom (ps_handles s)) = nat (mp_max_conn config)"
    using acquire_turn_None [OF ok] held_count(1) [OF r(1)] r(2) by simp
  have "\<exists>t. pool_step\<^sup>*\<^sup>* s t \<and> ps_handles t h \<noteq> None" if h: "ps_handles s h = None" for h
  proof (cases "acquire_turn (ps_pool s)")
    case (Some found)
    obtain q obj where "found = (q, obj)" by (cases found)
    then have "pool_step s (s\<lparr>ps_pool := q, ps_handles := (ps_handles s)(h \<mapsto> obj), ps_waiting := ps_waiting s - {h}\<rparr>)"
      using Some h by (intro pool_step.acquired) simp_all
    then show ?thesis by (intro exI conjI, rule r_into_rtranclp) simp_all
  next
    case None
    moreover have "0 < nat (mp_max_conn config)" using o by metis
    ultimately have "card (dom (ps_handles s)) \<noteq> 0" using iff by simp
    then have "dom (ps_handles s) \<noteq> {}" by auto
    then obtain g obj where g: "ps_handles s g = Some obj" by blast
    let ?u = "reset_handle g s"
    have gu: "g \<notin> ps_waiting s" "ps_handles ?u h = None"
      using r(3) g h by (auto simp: reset_handle_def split: option.splits)
    have u: "pool_step s ?u" by (rule pool_step.reset [OF gu(1)])
    have iu: "pool_inv ?u" using handle_reset_inv(1) [OF r(1)] .
    have "dom (ps_handles ?u) = dom (ps_handles s) - {g}" using g by (simp add: reset_handle_def)
    then have "card (dom (ps_handles ?u)) < card (dom (ps_handles s))"
      using card_Diff1_less [OF held_count(2) [OF r(1)] domI [of "ps_handles s", OF g]] by simp
    moreover have "pl_max_connections (ps_pool ?u) = pl_max_connections (ps_pool s)"
      by (rule max_connections_fixed [OF u r(1)])
    ultimately have "acquire_turn (ps_pool ?u) \<noteq> None"
      using acquire_turn_None [of "ps_pool ?u"] held_count(1) [OF iu] iu r(2) iff None by (simp add: pool_inv_def)
    then obtain q x where turn: "acquire_turn (ps_pool ?u) = Some (q, x)" by fastforce
    let ?v = "?u\<lparr>ps_pool := q, ps_handles := (ps_handles ?u)(h \<mapsto> x), ps_waiting := ps_waiting ?u - {h}\<rparr>"
    have "pool_step ?u ?v" using turn gu(2) by (intro pool_step.acquired)
    then have "pool_step\<^sup>*\<^sup>* s ?v" using u by (meson r_into_rtranclp converse_rtranclp_into_rtranclp)
    moreover have "ps_handles ?v h \<noteq> None" by simp
    ultimately show ?thesis by blast
  qed
  then show ?thesis using iff by blast
qed

theorem acquire_waits_only_when_exhausted_witness:
  "acquire_turn (ps_pool example_pool_state) = None \<and> (\<exists>t. pool_step\<^sup>*\<^sup>* example_pool_state t \<and> ps_handles t 0 \<noteq> None)"
proof -
  have "dom (ps_handles example_pool_state) = {1, 2}" "ps_handles example_pool_state 0 = None"
    by (auto simp: example_pool_state_def)
  then show ?thesis
    using acquire_waits_only_when_exhausted [OF example_pool_opens _ example_pool_reached]
    by (simp add: example_pool_config_def)
qed

text \<open>A pool configuration the parser accepts opens a pool only when both sizes are written: without \<open>min-conn\<close> or
  \<open>max-conn\<close> the parser succeeds with a size of 0 and the constructor of every pool throws.\<close>

theorem accepted_config_opens_iff_sizes_given:
  assumes "pool_parse to_int read_file root = Inr config"
  shows "((\<exists>p. open_query_pool config = Inr p) \<longleftrightarrow> hasChild root ''min-conn'' \<and> hasChild root ''max-conn'') \<and>
    ((\<exists>p. open_ingestion_pool (RR_Result provider) config = Inr p) \<longleftrightarrow>
      hasChild root ''min-conn'' \<and> hasChild root ''max-conn'')"
proof -
  obtain lo hi where lo: "connection_count to_int root ''min-conn'' = Inr lo"
    and hi: "connection_count to_int root ''max-conn'' = Inr hi" and le: "\<not> (hi > 0 \<and> lo > 0 \<and> hi < lo)"
    and c: "mp_min_conn config = lo" "mp_max_conn config = hi" "mp_valid config"
    using assms by (auto simp: pool_parse_def Let_def split: if_splits sum.splits)
  have sizes: "0 \<le> lo" "0 \<le> hi" "0 < lo \<longleftrightarrow> hasChild root ''min-conn''" "0 < hi \<longleftrightarrow> hasChild root ''max-conn''"
    using lo hi by (auto simp: connection_count_def split: if_splits sum.splits)
  have "check_sizes name config = None \<longleftrightarrow> hasChild root ''min-conn'' \<and> hasChild root ''max-conn''" for name
    using sizes le by (auto simp: check_sizes_def c)
  then show ?thesis
    using c(3) by (auto simp: open_query_pool_def open_ingestion_pool_def registerProvider_def split: option.splits)
qed

text \<open>A node without sizes, and one with both.\<close>

definition example_node :: "bool \<Rightarrow> ConfigNode" where
  "example_node sizes =
     \<lparr>cf_valid = True,
      cf_children = (\<lambda>k. if k = ''provider-name'' \<or> k = ''ingestion-url'' then Some (CV_Scalar ''p'')
        else if sizes \<and> (k = ''min-conn'' \<or> k = ''max-conn'') then Some (CV_Scalar ''1'') else None),
      cf_credentials = None\<rparr>"

definition example_accepted :: "bool \<Rightarrow> MLDPGrpcPoolConfig" where
  "example_accepted sizes =
     empty_config\<lparr>mp_provider_name := ''p'', mp_provider_description := ''p'', mp_ingestion_url := ''p'',
       mp_min_conn := (if sizes then 1 else 0), mp_max_conn := (if sizes then 1 else 0), mp_valid := True\<rparr>"

lemma example_node_parses: "pool_parse (\<lambda>t. Inr 1) (\<lambda>f. None) (example_node sizes) = Inr (example_accepted sizes)"
  by (cases sizes)
    (simp_all add: pool_parse_def required_text_def connection_count_def getInt_def config_get_def hasChild_def
      parse_credentials_def Let_def example_node_def example_accepted_def empty_config_def)

theorem accepted_config_opens_iff_sizes_given_witness:
  "\<not> (\<exists>p. open_query_pool (example_accepted False) = Inr p) \<and> (\<exists>p. open_query_pool (example_accepted True) = Inr p)"
  using accepted_config_opens_iff_sizes_given [OF example_node_parses, of False]
    accepted_config_opens_iff_sizes_given [OF example_node_parses, of True]
  by (simp add: hasChild_def example_node_def)

text \<open>The annotation pool of its own node rejects a node without one of the sizes.\<close>

lemma annotation_sizes_are_required:
  "annotation_parse to_int read_file node = Inr config \<Longrightarrow> hasChild node ''min-conn'' \<and> hasChild node ''max-conn''"
  by (auto simp: annotation_parse_def annotation_count_def Let_def split: if_splits sum.splits)

text \<open>It also starts without a connection, whatever the minimum.\<close>

lemma annotation_pool_starts_empty: "open_annotation_pool config = Inr p \<Longrightarrow> pl_items p = []"
  by (auto simp: open_annotation_pool_def split: if_splits option.splits)

end
