(* ===== verification/Wide_Pivot.thy ===== *)
theory Wide_Pivot
  imports Plan_Passes Batches
begin

text \<open>
  The wide pivot of long time series, \<open>pivotLongStreamWithSpill\<close> and \<open>readSortedPivotRuns\<close> of
  \<open>src/query/executor/scan/WideTableScan.cpp\<close>: the samples are checked and spilled, every spilled batch becomes a
  sorted run, and the merge of the runs emits one row per time with one column per label.  The spill manager
  returns what was written; file counts, progress and cancellation are left out.  The result is the table the
  samples describe.
\<close>

section \<open>Ingestion\<close>

text \<open>
  Arrow's name lookup is \<open>pv_gfi\<close>; \<open>pv_type\<close> gives the type of the active value of a cell of a column, and the
  projection error of \<open>applyProjection\<close> cannot occur once the columns were found.
\<close>

record PivotEnv =
  pe_gfi :: lookup
  pe_type :: "arrow_type \<Rightarrow> ascalar \<Rightarrow> arrow_type"
  pe_row_key :: string
  pe_pivot_key :: string
  pe_value :: string
  pe_labels :: "string list"

fun activeValue :: "ascalar \<Rightarrow> ascalar" where
  "activeValue (SC_Union True v) = activeValue v"
| "activeValue v = v"

text \<open>A spilled sample: its label, time and value.\<close>

record Sample =
  sm_pivot_key :: string
  sm_row_key :: int
  sm_value :: ascalar

record PivotState =
  pn_labels :: "string list"
  pn_types :: "(string, arrow_type) umap"
  pn_schema :: "(arrow_type \<times> arrow_type \<times> arrow_type) option"
  pn_spilled :: "Sample list list"

definition pivot_error :: "string \<Rightarrow> exn" where
  "pivot_error message = RuntimeError (''Physical pivot '' @ message)"

definition unexpected_label :: "string \<Rightarrow> exn" where
  "unexpected_label label = pivot_error (''received an unexpected output-column label '' @ quoted label)"

definition note_type ::
  "PivotEnv \<Rightarrow> arrow_type \<Rightarrow> string \<Rightarrow> ascalar \<Rightarrow> (string, arrow_type) umap \<Rightarrow> exn + (string, arrow_type) umap" where
  "note_type env ctype label cell types =
     (let value = activeValue cell; type = pe_type env ctype cell in
      if \<not> is_valid value then Inr types
      else (case map_of types label of
              None \<Rightarrow> Inr (umap_emplace label type types)
            | Some t \<Rightarrow>
                if t \<noteq> type
                then Inl (pivot_error (''received mixed value types for output-column label '' @ quoted label))
                else Inr types))"

definition ingest_sample ::
  "PivotEnv \<Rightarrow> arrow_type \<Rightarrow> string list \<times> (string, arrow_type) umap \<times> Sample list \<Rightarrow>
   ascalar \<times> ascalar \<times> ascalar \<Rightarrow> exn + string list \<times> (string, arrow_type) umap \<times> Sample list" where
  "ingest_sample env ctype st cells =
     (case (st, cells) of ((labels, types, samples), row_key, pivot_key, cell) \<Rightarrow>
       (case row_key of
          SC_Timestamp t \<Rightarrow>
            (case pivot_key of
               SC_String label \<Rightarrow>
                 if pe_labels env \<noteq> [] \<and> label \<notin> set labels then Inl (unexpected_label label)
                 else (case note_type env ctype label cell types of
                         Inl e \<Rightarrow> Inl e
                       | Inr types' \<Rightarrow>
                           Inr (if label \<in> set labels then labels else labels @ [label], types',
                                samples @ [\<lparr>sm_pivot_key = label, sm_row_key = t, sm_value = cell\<rparr>]))
             | _ \<Rightarrow> Inl (pivot_error ''received a null pivot key''))
        | _ \<Rightarrow> Inl (pivot_error ''received a null row key'')))"

definition ingest_columns :: "PivotEnv \<Rightarrow> PivotState \<Rightarrow> batch \<Rightarrow> nat \<Rightarrow> nat \<Rightarrow> nat \<Rightarrow> exn + PivotState" where
  "ingest_columns env s b r p v =
     (let type = (\<lambda>i. fd_type (b_fields b ! i)) in
      if \<not> (\<exists>u. type r = AT_TIMESTAMP u) then Inl (pivot_error ''row-key column must be a timestamp'')
      else if type p \<noteq> AT_STRING then Inl (pivot_error ''key column must be a string'')
      else (case foldE (ingest_sample env (type v)) (pn_labels s, pn_types s, [])
                  (map (\<lambda>row. (row ! r, row ! p, row ! v)) (b_rows b)) of
              Inl e \<Rightarrow> Inl e
            | Inr (labels, types, samples) \<Rightarrow>
                (let schema = (type p, type r, type v) in
                 if pn_schema s \<noteq> None \<and> pn_schema s \<noteq> Some schema
                 then Inl (RuntimeError ''Wide pivot canonicalization found incompatible pv, time, or value types between backend batches'')
                 else Inr \<lparr>pn_labels = labels, pn_types = types, pn_schema = Some schema,
                           pn_spilled = pn_spilled s @ [samples]\<rparr>)))"

definition ingest_batch :: "PivotEnv \<Rightarrow> PivotState \<Rightarrow> batch \<Rightarrow> exn + PivotState" where
  "ingest_batch env s b =
     (if b_rows b = [] then Inr s
      else (case (field_index (pe_gfi env) b (pe_row_key env), field_index (pe_gfi env) b (pe_pivot_key env),
                  field_index (pe_gfi env) b (pe_value env)) of
              (Some r, Some p, Some v) \<Rightarrow> ingest_columns env s b r p v
            | _ \<Rightarrow> Inl (pivot_error ''input does not contain the configured columns'')))"

definition ingest_stream :: "PivotEnv \<Rightarrow> batch list \<Rightarrow> exn + PivotState" where
  "ingest_stream env batches =
     foldE (ingest_batch env) \<lparr>pn_labels = pe_labels env, pn_types = [], pn_schema = None, pn_spilled = []\<rparr> batches"

section \<open>Runs and their merge\<close>

definition sample_less :: "Sample \<Rightarrow> Sample \<Rightarrow> bool" where
  "sample_less a b = (sm_row_key a < sm_row_key b)"

text \<open>
  A cursor is what is left of its run; an exhausted one is erased.  One row: every cursor gives its samples at the
  least time.
\<close>

fun collect_cells ::
  "string list \<Rightarrow> int \<Rightarrow> (string, ascalar) umap \<Rightarrow> Sample list list \<Rightarrow> exn + (string, ascalar) umap \<times> Sample list list" where
  "collect_cells labels t cells [] = Inr (cells, [])"
| "collect_cells labels t cells ([] # cursors) = collect_cells labels t cells cursors"
| "collect_cells labels t cells ((s # run) # cursors) =
     (if sm_row_key s \<noteq> t then
        (case collect_cells labels t cells cursors of
           Inl e \<Rightarrow> Inl e | Inr (cells', rest) \<Rightarrow> Inr (cells', (s # run) # rest))
      else if sm_pivot_key s \<notin> set labels then Inl (unexpected_label (sm_pivot_key s))
      else if map_of cells (sm_pivot_key s) \<noteq> None
      then Inl (pivot_error (''received a duplicate cell at row key '' @ int_to_string t))
      else collect_cells labels t (umap_emplace (sm_pivot_key s) (activeValue (sm_value s)) cells) (run # cursors))"

type_synonym wide_row = "int \<times> ascalar list"

definition wide_cells :: "string list \<Rightarrow> (string, ascalar) umap \<Rightarrow> ascalar list" where
  "wide_cells labels cells =
     map (\<lambda>label. case map_of cells label of None \<Rightarrow> SC_Null | Some v \<Rightarrow> if is_valid v then v else SC_Null) labels"

text \<open>The rows wait in the builders; 4096 of them make a batch.\<close>

definition append_row :: "wide_row list \<times> wide_row list list \<Rightarrow> wide_row \<Rightarrow> wide_row list \<times> wide_row list list" where
  "append_row st row =
     (case st of (pending, output) \<Rightarrow>
       if length pending + 1 = 4096 then ([], output @ [pending @ [row]]) else (pending @ [row], output))"

definition flush_rows :: "wide_row list \<times> wide_row list list \<Rightarrow> wide_row list list" where
  "flush_rows st = (case st of (pending, output) \<Rightarrow> if pending = [] then output else output @ [pending])"

definition run_rows :: "Sample list list \<Rightarrow> nat" where
  "run_rows cursors = sum_list (map length cursors)"

definition least_time :: "Sample list list \<Rightarrow> int" where
  "least_time cursors = Min ((\<lambda>run. sm_row_key (hd run)) ` set cursors)"

lemma collect_decreases:
  "collect_cells labels t cells cursors = Inr (cells', rest) \<Longrightarrow>
    run_rows rest + length rest \<le> run_rows cursors + length cursors \<and>
    ((\<exists>run\<in>set cursors. run = [] \<or> sm_row_key (hd run) = t) \<longrightarrow>
       run_rows rest + length rest < run_rows cursors + length cursors)"
proof (induction labels t cells cursors arbitrary: cells' rest rule: collect_cells.induct)
  case (3 labels t cells s run cursors)
  show ?case
  proof (cases "sm_row_key s = t")
    case True
    then have "collect_cells labels t (umap_emplace (sm_pivot_key s) (activeValue (sm_value s)) cells) (run # cursors) =
        Inr (cells', rest)" and
      p: "sm_pivot_key s \<in> set labels" "map_of cells (sm_pivot_key s) = None"
      using "3.prems" by (auto split: if_splits)
    then have "run_rows rest + length rest \<le> run_rows (run # cursors) + length (run # cursors)"
      using "3.IH"(2) True by simp
    then show ?thesis by (simp add: run_rows_def)
  next
    case False
    then obtain rest' where "collect_cells labels t cells cursors = Inr (cells', rest')" "rest = (s # run) # rest'"
      using "3.prems" by (auto split: sum.splits)
    then show ?thesis using "3.IH"(1) False by (auto simp: run_rows_def)
  qed
next
  case (2 labels t cells cursors)
  then show ?case by (fastforce simp: run_rows_def)
qed (auto simp: run_rows_def)

lemma least_time_attained: "cursors \<noteq> [] \<Longrightarrow> \<exists>run\<in>set cursors. sm_row_key (hd run) = least_time cursors"
proof -
  assume "cursors \<noteq> []"
  then have "least_time cursors \<in> (\<lambda>run. sm_row_key (hd run)) ` set cursors"
    unfolding least_time_def by (intro Min_in) auto
  then show ?thesis by auto
qed

function merge_runs ::
  "string list \<Rightarrow> Sample list list \<Rightarrow> wide_row list \<times> wide_row list list \<Rightarrow> exn + wide_row list list" where
  "merge_runs labels cursors st =
     (if cursors = [] then Inr (flush_rows st)
      else (case collect_cells labels (least_time cursors) [] cursors of
              Inl e \<Rightarrow> Inl e
            | Inr (cells, rest) \<Rightarrow>
                merge_runs labels rest (append_row st (least_time cursors, wide_cells labels cells))))"
  by pat_completeness auto
termination
proof (relation "measure (\<lambda>(labels, cursors, st). run_rows cursors + length cursors)", goal_cases)
  case (2 labels cursors st y cells rest)
  then show ?case using collect_decreases least_time_attained by fastforce
qed simp

declare merge_runs.simps [simp del]

definition readSortedPivotRuns :: "string list \<Rightarrow> Sample list list \<Rightarrow> exn + wide_row list list" where
  "readSortedPivotRuns labels spilled = merge_runs labels (map (stable_sort sample_less) spilled) ([], [])"

definition pivotLongStream :: "PivotEnv \<Rightarrow> batch list \<Rightarrow> exn + wide_row list list" where
  "pivotLongStream env batches =
     (case ingest_stream env batches of
        Inl e \<Rightarrow> Inl e
      | Inr s \<Rightarrow> if pn_spilled s = [] then Inr [] else readSortedPivotRuns (pn_labels s) (pn_spilled s))"

text \<open>The fields of the output: the time, then a column per label with the type of its values, or null.\<close>

definition wide_fields :: "PivotEnv \<Rightarrow> PivotState \<Rightarrow> field list" where
  "wide_fields env s =
     \<lparr>fd_name = pe_row_key env, fd_type = AT_TIMESTAMP ''ns, UTC'', fd_nullable = True\<rparr> #
     map (\<lambda>label. \<lparr>fd_name = label,
            fd_type = (case map_of (pn_types s) label of None \<Rightarrow> AT_NA | Some t \<Rightarrow> t), fd_nullable = True\<rparr>) (pn_labels s)"

section \<open>The table of samples\<close>

definition cell_key :: "Sample \<Rightarrow> int \<times> string" where
  "cell_key s = (sm_row_key s, sm_pivot_key s)"

definition table_cell :: "Sample list \<Rightarrow> int \<Rightarrow> string \<Rightarrow> ascalar" where
  "table_cell samples t label =
     (case map_of (map (\<lambda>s. (cell_key s, activeValue (sm_value s))) samples) (t, label) of
        None \<Rightarrow> SC_Null
      | Some v \<Rightarrow> if is_valid v then v else SC_Null)"

definition sample_table :: "string list \<Rightarrow> Sample list \<Rightarrow> wide_row list" where
  "sample_table labels samples =
     map (\<lambda>t. (t, map (table_cell samples t) labels)) (sorted_list_of_set (sm_row_key ` set samples))"

definition cell_of :: "Sample \<Rightarrow> string \<times> ascalar" where
  "cell_of s = (sm_pivot_key s, activeValue (sm_value s))"

definition at_time :: "int \<Rightarrow> Sample list list \<Rightarrow> Sample list" where
  "at_time t cursors = concat (map (takeWhile (\<lambda>s. sm_row_key s = t)) cursors)"

definition after_time :: "int \<Rightarrow> Sample list list \<Rightarrow> Sample list list" where
  "after_time t cursors = filter (\<lambda>run. run \<noteq> []) (map (dropWhile (\<lambda>s. sm_row_key s = t)) cursors)"

text \<open>One pass over the cursors takes exactly the samples at the front of each run, or finds two of one label.\<close>

lemma collect_cells_eq:
  "distinct (map fst cells) \<Longrightarrow> \<forall>s\<in>set (at_time t cursors). sm_pivot_key s \<in> set labels \<Longrightarrow>
    collect_cells labels t cells cursors =
      (if distinct (map fst cells @ map sm_pivot_key (at_time t cursors))
       then Inr (cells @ map cell_of (at_time t cursors), after_time t cursors)
       else Inl (pivot_error (''received a duplicate cell at row key '' @ int_to_string t)))"
proof (induction labels t cells cursors rule: collect_cells.induct)
  case (1 labels t cells)
  then show ?case by (simp add: at_time_def after_time_def)
next
  case (2 labels t cells cursors)
  then show ?case by (simp add: at_time_def after_time_def)
next
  case (3 labels t cells s run cursors)
  show ?case
  proof (cases "sm_row_key s = t")
    case False
    have "at_time t ((s # run) # cursors) = at_time t cursors"
      "after_time t ((s # run) # cursors) = (s # run) # after_time t cursors"
      using False by (simp_all add: at_time_def after_time_def)
    then show ?thesis using False 3 by simp
  next
    case True
    have at: "at_time t ((s # run) # cursors) = s # at_time t (run # cursors)"
      and af: "after_time t ((s # run) # cursors) = after_time t (run # cursors)"
      using True by (simp_all add: at_time_def after_time_def)
    have label: "sm_pivot_key s \<in> set labels" using "3.prems"(2) by (simp add: at)
    show ?thesis
    proof (cases "map_of cells (sm_pivot_key s) = None")
      case False
      then have "sm_pivot_key s \<in> fst ` set cells" by (simp add: map_of_eq_None_iff)
      then show ?thesis using True label False by (simp add: at)
    next
      case fresh: True
      then have new: "sm_pivot_key s \<notin> fst ` set cells" by (simp add: map_of_eq_None_iff)
      let ?cells = "umap_emplace (sm_pivot_key s) (activeValue (sm_value s)) cells"
      have e: "?cells = cells @ [cell_of s]" using fresh by (simp add: umap_emplace_def cell_of_def)
      have "collect_cells labels t ?cells (run # cursors) =
          (if distinct (map fst ?cells @ map sm_pivot_key (at_time t (run # cursors)))
           then Inr (?cells @ map cell_of (at_time t (run # cursors)), after_time t (run # cursors))
           else Inl (pivot_error (''received a duplicate cell at row key '' @ int_to_string t)))"
        using True label fresh new "3.prems" by (intro "3.IH"(2)) (simp_all add: e at cell_of_def)
      moreover have "distinct (map fst ?cells @ map sm_pivot_key (at_time t (run # cursors))) \<longleftrightarrow>
          distinct (map fst cells @ map sm_pivot_key (at_time t ((s # run) # cursors)))"
        by (auto simp: e at cell_of_def)
      ultimately show ?thesis
        using True label fresh by (simp add: e at af)
    qed
  qed
qed

section \<open>The merge of sorted runs\<close>

definition runs_ok :: "Sample list list \<Rightarrow> bool" where
  "runs_ok cursors \<longleftrightarrow> (\<forall>run\<in>set cursors. run \<noteq> [] \<and> sorted (map sm_row_key run))"

lemma sorted_take_while:
  "sorted (map f xs) \<Longrightarrow> \<forall>x\<in>set xs. t \<le> f x \<Longrightarrow>
    takeWhile (\<lambda>x. f x = t) xs = filter (\<lambda>x. f x = t) xs \<and> dropWhile (\<lambda>x. f x = t) xs = filter (\<lambda>x. f x \<noteq> t) xs"
  for t :: "'a::linorder"
proof (induction xs)
  case (Cons x xs)
  show ?case
  proof (cases "f x = t")
    case False
    then have "t < f x" using Cons.prems(2) by (simp add: less_le)
    then have "\<forall>y\<in>set xs. t < f y" using Cons.prems(1) by force
    then have "filter (\<lambda>y. f y = t) xs = []" "filter (\<lambda>y. f y \<noteq> t) xs = xs"
      by (auto simp: filter_empty_conv intro!: filter_True)
    then show ?thesis using False by simp
  qed (use Cons in auto)
qed simp

lemma least_time_le: "runs_ok cursors \<Longrightarrow> s \<in> set (concat cursors) \<Longrightarrow> least_time cursors \<le> sm_row_key s"
proof -
  assume ok: "runs_ok cursors" and "s \<in> set (concat cursors)"
  then obtain run where run: "run \<in> set cursors" "s \<in> set run" by auto
  have "run \<noteq> []" using run(2) by auto
  then obtain x xs where r: "run = x # xs" by (cases run) auto
  have "least_time cursors \<le> sm_row_key x"
    unfolding least_time_def using run r by (intro Min_le) (auto simp: image_iff intro: bexI [of _ run])
  moreover have "sm_row_key x \<le> sm_row_key s"
    using ok run r by (force simp: runs_ok_def)
  ultimately show ?thesis by simp
qed

lemma split_at_least:
  assumes ok: "runs_ok cursors" and t: "t = least_time cursors"
  shows "at_time t cursors = filter (\<lambda>s. sm_row_key s = t) (concat cursors)"
    and "concat (after_time t cursors) = filter (\<lambda>s. sm_row_key s \<noteq> t) (concat cursors)"
    and "runs_ok (after_time t cursors)"
proof -
  have w: "takeWhile (\<lambda>s. sm_row_key s = t) run = filter (\<lambda>s. sm_row_key s = t) run"
    "dropWhile (\<lambda>s. sm_row_key s = t) run = filter (\<lambda>s. sm_row_key s \<noteq> t) run"
    if "run \<in> set cursors" for run
    using sorted_take_while [of sm_row_key run t] ok that least_time_le [OF ok] by (auto simp: runs_ok_def t)
  show "at_time t cursors = filter (\<lambda>s. sm_row_key s = t) (concat cursors)"
    using w(1) by (simp add: at_time_def filter_concat cong: map_cong)
  have "concat (after_time t cursors) = concat (map (dropWhile (\<lambda>s. sm_row_key s = t)) cursors)"
    unfolding after_time_def by (induction cursors) auto
  then show "concat (after_time t cursors) = filter (\<lambda>s. sm_row_key s \<noteq> t) (concat cursors)"
    using w(2) by (simp add: filter_concat cong: map_cong)
  show "runs_ok (after_time t cursors)"
    using ok by (auto simp: runs_ok_def after_time_def dropWhile_eq_drop drop_map [symmetric] sorted_wrt_drop)
qed

lemma cells_at:
  "map_of (map cell_of (filter (\<lambda>s. sm_row_key s = t) samples)) label =
    map_of (map (\<lambda>s. (cell_key s, activeValue (sm_value s))) samples) (t, label)"
  by (induction samples) (auto simp: cell_of_def cell_key_def)

lemma wide_cells_at:
  "wide_cells labels (map cell_of (filter (\<lambda>s. sm_row_key s = t) samples)) = map (table_cell samples t) labels"
  by (simp add: wide_cells_def table_cell_def cells_at)

lemma table_cell_other:
  "t \<noteq> u \<Longrightarrow> table_cell (filter (\<lambda>s. sm_row_key s \<noteq> t) samples) u = table_cell samples u"
proof -
  assume tu: "t \<noteq> u"
  have "map_of (map (\<lambda>s. (cell_key s, activeValue (sm_value s))) (filter (\<lambda>s. sm_row_key s \<noteq> t) samples)) (u, l) =
      map_of (map (\<lambda>s. (cell_key s, activeValue (sm_value s))) samples) (u, l)" for l
    using tu by (induction samples) (auto simp: cell_key_def)
  then show ?thesis by (simp add: table_cell_def fun_eq_iff)
qed

lemma sample_table_least:
  assumes "\<forall>s\<in>set samples. t \<le> sm_row_key s" "\<exists>s\<in>set samples. sm_row_key s = t"
  shows "sample_table labels samples =
    (t, map (table_cell samples t) labels) # sample_table labels (filter (\<lambda>s. sm_row_key s \<noteq> t) samples)"
proof -
  let ?rest = "sm_row_key ` set (filter (\<lambda>s. sm_row_key s \<noteq> t) samples)"
  have "sm_row_key ` set samples = insert t ?rest" using assms(2) by auto
  moreover have "Min (insert t ?rest) = t" using assms(1) by (intro Min_eqI) auto
  moreover have "insert t ?rest - {t} = ?rest" by auto
  ultimately have "sorted_list_of_set (sm_row_key ` set samples) = t # sorted_list_of_set ?rest"
    using sorted_list_of_set_nonempty [of "insert t ?rest"] by simp
  then show ?thesis
    by (auto simp: sample_table_def table_cell_other)
qed

lemma merge_runs_eq:
  assumes "runs_ok cursors" "\<forall>s\<in>set (concat cursors). sm_pivot_key s \<in> set labels"
  shows "(distinct (map cell_key (concat cursors)) \<longrightarrow>
      merge_runs labels cursors st = Inr (flush_rows (foldl append_row st (sample_table labels (concat cursors))))) \<and>
    (\<not> distinct (map cell_key (concat cursors)) \<longrightarrow>
      (\<exists>t. merge_runs labels cursors st = Inl (pivot_error (''received a duplicate cell at row key '' @ int_to_string t))))"
  using assms
proof (induction "run_rows cursors + length cursors" arbitrary: cursors st rule: less_induct)
  case less
  show ?case
  proof (cases "cursors = []")
    case True
    then show ?thesis by (simp add: merge_runs.simps sample_table_def)
  next
    case False
    define t where "t = least_time cursors"
    let ?S = "concat cursors"
    let ?now = "filter (\<lambda>s. sm_row_key s = t) ?S" and ?later = "filter (\<lambda>s. sm_row_key s \<noteq> t) ?S"
    note sp = split_at_least [OF less.prems(1) t_def]
    have collect: "collect_cells labels t [] cursors =
        (if distinct (map sm_pivot_key ?now) then Inr (map cell_of ?now, after_time t cursors)
         else Inl (pivot_error (''received a duplicate cell at row key '' @ int_to_string t)))"
      using collect_cells_eq [of "[]" t cursors labels] less.prems(2) by (simp add: sp(1))
    have now: "distinct (map cell_key ?now) \<longleftrightarrow> distinct (map sm_pivot_key ?now)"
      by (auto simp: distinct_map inj_on_def cell_key_def)
    have parts: "distinct (map cell_key ?S) \<longleftrightarrow> distinct (map cell_key ?now) \<and> distinct (map cell_key ?later)"
    proof -
      have "mset (map cell_key ?S) = mset (map cell_key (?now @ ?later))"
        by (simp flip: image_mset_union)
      then have "distinct (map cell_key ?S) \<longleftrightarrow> distinct (map cell_key (?now @ ?later))"
        by (rule mset_eq_imp_distinct_iff)
      moreover have "cell_key ` set ?now \<inter> cell_key ` set ?later = {}"
        by (auto simp: cell_key_def)
      ultimately show ?thesis by (auto simp: distinct_append)
    qed
    obtain run where run: "run \<in> set cursors" "sm_row_key (hd run) = t"
      using least_time_attained [OF False] by (auto simp: t_def)
    have "hd run \<in> set run" using less.prems(1) run(1) by (intro hd_in_set) (simp add: runs_ok_def)
    then have "hd run \<in> set ?S" using run(1) by auto
    then have table: "sample_table labels ?S = (t, map (table_cell ?S t) labels) # sample_table labels ?later"
      using run(2) least_time_le [OF less.prems(1)] by (intro sample_table_least) (auto simp: t_def)
    show ?thesis
    proof (cases "distinct (map sm_pivot_key ?now)")
      case dup: False
      then show ?thesis
        using False parts now collect by (subst (1 2) merge_runs.simps) (auto simp: t_def)
    next
      case True
      have step: "merge_runs labels cursors st =
          merge_runs labels (after_time t cursors) (append_row st (t, wide_cells labels (map cell_of ?now)))"
        using False True collect by (subst merge_runs.simps) (simp add: t_def)
      have less': "run_rows (after_time t cursors) + length (after_time t cursors) < run_rows cursors + length cursors"
        using collect_decreases [of labels t "[]" cursors "map cell_of ?now" "after_time t cursors"] collect True run
        by auto
      have "\<forall>s\<in>set (concat (after_time t cursors)). sm_pivot_key s \<in> set labels"
        unfolding sp(2) using less.prems(2) by auto
      note ih = less.hyps [OF less' sp(3) this, unfolded sp(2)]
      show ?thesis
        unfolding step table using ih parts now True by (simp add: wide_cells_at)
    qed
  qed
qed

section \<open>What is ingested\<close>

fun text_of :: "ascalar \<Rightarrow> string" where
  "text_of (SC_String s) = s"
| "text_of _ = []"

fun time_of :: "ascalar \<Rightarrow> int" where
  "time_of (SC_Timestamp t) = t"
| "time_of _ = 0"

text \<open>The samples of a batch, over the configured columns, and the labels in the order of their first sample.\<close>

definition batch_samples :: "PivotEnv \<Rightarrow> batch \<Rightarrow> Sample list" where
  "batch_samples env b =
     (case (field_index (pe_gfi env) b (pe_row_key env), field_index (pe_gfi env) b (pe_pivot_key env),
            field_index (pe_gfi env) b (pe_value env)) of
        (Some r, Some p, Some v) \<Rightarrow>
          map (\<lambda>row. \<lparr>sm_pivot_key = text_of (row ! p), sm_row_key = time_of (row ! r), sm_value = row ! v\<rparr>) (b_rows b)
      | _ \<Rightarrow> [])"

definition long_samples :: "PivotEnv \<Rightarrow> batch list \<Rightarrow> Sample list" where
  "long_samples env batches = concat (map (batch_samples env) batches)"

definition add_label :: "string list \<Rightarrow> string \<Rightarrow> string list" where
  "add_label labels label = (if label \<in> set labels then labels else labels @ [label])"

definition pivot_labels_of :: "PivotEnv \<Rightarrow> Sample list \<Rightarrow> string list" where
  "pivot_labels_of env samples = foldl add_label (pe_labels env) (map sm_pivot_key samples)"

lemma set_add_labels: "set (foldl add_label labels ks) = set labels \<union> set ks"
  by (induction ks arbitrary: labels) (auto simp: add_label_def)

lemma ingest_samples:
  "foldE (ingest_sample env ty) (labels, types, acc) cells = Inr (labels', types', acc') \<Longrightarrow>
    labels' = foldl add_label labels (map (\<lambda>(r, p, v). text_of p) cells) \<and>
    acc' = acc @ map (\<lambda>(r, p, v). \<lparr>sm_pivot_key = text_of p, sm_row_key = time_of r, sm_value = v\<rparr>) cells"
proof (induction cells arbitrary: labels types acc)
  case (Cons cell cells)
  obtain r p v where c: "cell = (r, p, v)" by (cases cell)
  obtain t label types1 where v: "r = SC_Timestamp t" "p = SC_String label"
    and one: "ingest_sample env ty (labels, types, acc) cell =
      Inr (add_label labels label, types1, acc @ [\<lparr>sm_pivot_key = label, sm_row_key = t, sm_value = v\<rparr>])"
    using Cons.prems
    by (auto simp: c ingest_sample_def add_label_def split: ascalar.splits if_splits sum.splits)
  then have rest: "foldE (ingest_sample env ty) (add_label labels label, types1,
      acc @ [\<lparr>sm_pivot_key = label, sm_row_key = t, sm_value = v\<rparr>]) cells = Inr (labels', types', acc')"
    using Cons.prems by simp
  show ?case using Cons.IH [OF rest] by (simp add: c v)
qed simp

lemma ingest_batch_samples:
  assumes "ingest_batch env s b = Inr s'"
  shows "concat (pn_spilled s') = concat (pn_spilled s) @ batch_samples env b"
    and "pn_labels s' = foldl add_label (pn_labels s) (map sm_pivot_key (batch_samples env b))"
    and "[] \<notin> set (pn_spilled s) \<Longrightarrow> [] \<notin> set (pn_spilled s')"
proof -
  have "concat (pn_spilled s') = concat (pn_spilled s) @ batch_samples env b \<and>
    pn_labels s' = foldl add_label (pn_labels s) (map sm_pivot_key (batch_samples env b)) \<and>
    ([] \<notin> set (pn_spilled s) \<longrightarrow> [] \<notin> set (pn_spilled s'))"
  proof (cases "b_rows b = []")
    case True
    then show ?thesis
      using assms by (auto simp: ingest_batch_def batch_samples_def split: option.splits)
  next
    case False
    then obtain r p v where i: "field_index (pe_gfi env) b (pe_row_key env) = Some r"
      "field_index (pe_gfi env) b (pe_pivot_key env) = Some p" "field_index (pe_gfi env) b (pe_value env) = Some v"
      and c: "ingest_columns env s b r p v = Inr s'"
      using assms by (auto simp: ingest_batch_def split: option.splits)
    then obtain labels types samples where
      f: "foldE (ingest_sample env (fd_type (b_fields b ! v))) (pn_labels s, pn_types s, [])
            (map (\<lambda>row. (row ! r, row ! p, row ! v)) (b_rows b)) = Inr (labels, types, samples)"
      and s': "pn_labels s' = labels" "pn_spilled s' = pn_spilled s @ [samples]"
      by (auto simp: ingest_columns_def Let_def split: if_splits sum.splits)
    have "labels = foldl add_label (pn_labels s) (map sm_pivot_key (batch_samples env b))"
      "samples = batch_samples env b"
      using ingest_samples [OF f] by (simp_all add: batch_samples_def i o_def)
    moreover have "batch_samples env b \<noteq> []" using False by (simp add: batch_samples_def i)
    ultimately show ?thesis using s' by simp
  qed
  then show "concat (pn_spilled s') = concat (pn_spilled s) @ batch_samples env b"
    "pn_labels s' = foldl add_label (pn_labels s) (map sm_pivot_key (batch_samples env b))"
    "[] \<notin> set (pn_spilled s) \<Longrightarrow> [] \<notin> set (pn_spilled s')" by blast+
qed

lemma ingest_fold:
  "foldE (ingest_batch env) s batches = Inr s' \<Longrightarrow>
    concat (pn_spilled s') = concat (pn_spilled s) @ long_samples env batches \<and>
    pn_labels s' = foldl add_label (pn_labels s) (map sm_pivot_key (long_samples env batches)) \<and>
    ([] \<notin> set (pn_spilled s) \<longrightarrow> [] \<notin> set (pn_spilled s'))"
proof (induction batches arbitrary: s)
  case (Cons b batches)
  then obtain s1 where b: "ingest_batch env s b = Inr s1" and rest: "foldE (ingest_batch env) s1 batches = Inr s'"
    by (auto split: sum.splits)
  show ?case
    using Cons.IH [OF rest] ingest_batch_samples [OF b] by (simp add: long_samples_def)
qed (simp add: long_samples_def)

lemma ingest_stream_samples:
  assumes "ingest_stream env batches = Inr s"
  shows "concat (pn_spilled s) = long_samples env batches"
    and "pn_labels s = pivot_labels_of env (long_samples env batches)"
    and "[] \<notin> set (pn_spilled s)"
  using ingest_fold [OF assms [unfolded ingest_stream_def]] by (simp_all add: pivot_labels_of_def)

section \<open>The result\<close>

lemma append_rows:
  "length pending < 4096 \<Longrightarrow> \<forall>b\<in>set out. length b = 4096 \<Longrightarrow>
    foldl append_row (pending, out) rows = (pending', out') \<Longrightarrow>
    concat out' @ pending' = concat out @ pending @ rows \<and> length pending' < 4096 \<and>
    (\<forall>b\<in>set out'. length b = 4096)"
proof (induction rows arbitrary: pending out)
  case (Cons row rows)
  obtain p o' where po: "append_row (pending, out) row = (p, o')" by fastforce
  have "length p < 4096" "\<forall>b\<in>set o'. length b = 4096" "concat o' @ p = concat out @ pending @ [row]"
    using po Cons.prems(1,2) by (auto simp: append_row_def split: if_splits)
  moreover have "foldl append_row (p, o') rows = (pending', out')" using Cons.prems(3) po by simp
  ultimately show ?case using Cons.IH [of p o'] by (metis append.assoc append_Cons append_Nil)
qed simp

lemma flushed_rows:
  "concat (flush_rows (foldl append_row ([], []) rows)) = rows \<and>
    (\<forall>b\<in>set (flush_rows (foldl append_row ([], []) rows)). b \<noteq> [] \<and> length b \<le> 4096)"
proof -
  obtain p o' where po: "foldl append_row ([], []) rows = (p, o')" by fastforce
  then have "concat o' @ p = rows" "length p < 4096" "\<forall>b\<in>set o'. length b = 4096"
    using append_rows [of "[]" "[]" rows p o'] by simp_all
  then show ?thesis by (auto simp: po flush_rows_def)
qed

lemma sample_table_mset:
  assumes "mset xs = mset ys" "distinct (map cell_key xs)"
  shows "sample_table labels xs = sample_table labels ys"
proof -
  have "set xs = set ys" using assms(1) by (rule mset_eq_setD)
  have "mset (map cell_key xs) = mset (map cell_key ys)" using assms(1) by simp
  then have "distinct (map cell_key ys)" using assms(2) mset_eq_imp_distinct_iff by blast
  then have "map_of (map (\<lambda>s. (cell_key s, activeValue (sm_value s))) xs) =
      map_of (map (\<lambda>s. (cell_key s, activeValue (sm_value s))) ys)"
    using assms(2) \<open>set xs = set ys\<close> by (subst map_of_inject_set) (simp_all add: o_def)
  then show ?thesis
    by (simp add: sample_table_def table_cell_def \<open>set xs = set ys\<close> fun_eq_iff cong: map_cong)
qed

lemma sorted_runs: "[] \<notin> set spilled \<Longrightarrow> runs_ok (map (stable_sort sample_less) spilled)"
proof -
  assume ne: "[] \<notin> set spilled"
  have "weak_order sample_less" by unfold_locales (auto simp: sample_less_def)
  then have "sorted_wrt (\<lambda>x y. \<not> sample_less y x) (stable_sort sample_less run)" for run
    by (rule weak_order.sorted)
  then have "sorted (map sm_row_key (stable_sort sample_less run))" for run
    by (simp add: sorted_map sample_less_def not_less)
  then have "stable_sort sample_less run \<noteq> [] \<and> sorted (map sm_row_key (stable_sort sample_less run))"
    if "run \<in> set spilled" for run
    using that ne length_stable_sort [of sample_less run] by (cases "stable_sort sample_less run = []") auto
  then show ?thesis by (simp add: runs_ok_def)
qed

lemma mset_sorted_runs: "mset (concat (map (stable_sort lt) spilled)) = mset (concat spilled)"
  by (induction spilled) simp_all

text \<open>C15. The wide table of a time range: when the samples pass the checks of the ingestion and no two share a time and a
  label, the sorted runs and their merge give one row per time, in increasing order, with the value of every label
  or null, in batches of at most 4096 rows; when two share a time and a label the pivot throws.\<close>

theorem wide_pivot_is_the_table:
  assumes "ingest_stream env batches = Inr s"
  shows "let samples = long_samples env batches; labels = pivot_labels_of env samples in
    (distinct (map cell_key samples) \<longrightarrow>
      (\<exists>out. pivotLongStream env batches = Inr out \<and> concat out = sample_table labels samples \<and>
         (\<forall>b\<in>set out. b \<noteq> [] \<and> length b \<le> 4096))) \<and>
    (\<not> distinct (map cell_key samples) \<longrightarrow>
      (\<exists>t. pivotLongStream env batches = Inl (pivot_error (''received a duplicate cell at row key '' @ int_to_string t))))"
proof -
  let ?S = "long_samples env batches" and ?runs = "map (stable_sort sample_less) (pn_spilled s)"
  note i = ingest_stream_samples [OF assms]
  have m: "mset (concat ?runs) = mset ?S" by (simp only: mset_sorted_runs i(1))
  have set: "set (concat ?runs) = set ?S" using m by (rule mset_eq_setD)
  have "mset (map cell_key (concat ?runs)) = mset (map cell_key ?S)" using m by (metis mset_map)
  then have d: "distinct (map cell_key (concat ?runs)) \<longleftrightarrow> distinct (map cell_key ?S)"
    by (rule mset_eq_imp_distinct_iff)
  have labels: "\<forall>x\<in>set (concat ?runs). sm_pivot_key x \<in> set (pn_labels s)"
    unfolding set i(2) pivot_labels_of_def set_add_labels by auto
  have pivot: "pivotLongStream env batches = (if pn_spilled s = [] then Inr [] else merge_runs (pn_labels s) ?runs ([], []))"
    by (simp add: pivotLongStream_def assms readSortedPivotRuns_def)
  have empty: "merge_runs (pn_labels s) [] ([], []) = Inr []" by (simp add: merge_runs.simps flush_rows_def)
  then have pivot': "pivotLongStream env batches = merge_runs (pn_labels s) ?runs ([], [])"
    by (simp add: pivot)
  note merged = merge_runs_eq [OF sorted_runs [OF i(3)] labels, of "([], [])"]
  show ?thesis
    unfolding Let_def
  proof (intro conjI impI)
    assume ds: "distinct (map cell_key ?S)"
    let ?out = "flush_rows (foldl append_row ([], []) (sample_table (pn_labels s) (concat ?runs)))"
    have "pivotLongStream env batches = Inr ?out" using merged ds d pivot' by simp
    moreover have "concat ?out = sample_table (pivot_labels_of env ?S) ?S"
      using flushed_rows sample_table_mset [OF m] ds d i(2) by simp
    ultimately show "\<exists>out. pivotLongStream env batches = Inr out \<and> concat out = sample_table (pivot_labels_of env ?S) ?S \<and>
        (\<forall>b\<in>set out. b \<noteq> [] \<and> length b \<le> 4096)"
      using flushed_rows by blast
  next
    assume "\<not> distinct (map cell_key ?S)"
    then show "\<exists>t. pivotLongStream env batches = Inl (pivot_error (''received a duplicate cell at row key '' @ int_to_string t))"
      using merged d pivot' by simp
  qed
qed

text \<open>Two batches of three samples of two labels.\<close>

definition example_pivot_env :: PivotEnv where
  "example_pivot_env =
     \<lparr>pe_gfi = (\<lambda>names name. if name = ''time'' then Some 0 else if name = ''pv'' then Some 1
                 else if name = ''value'' then Some 2 else None),
      pe_type = (\<lambda>t v. t), pe_row_key = ''time'', pe_pivot_key = ''pv'', pe_value = ''value'', pe_labels = []\<rparr>"

definition example_long_batch :: "row list \<Rightarrow> batch" where
  "example_long_batch rows =
     \<lparr>b_fields = [\<lparr>fd_name = ''time'', fd_type = AT_TIMESTAMP ''ns'', fd_nullable = True\<rparr>,
                  \<lparr>fd_name = ''pv'', fd_type = AT_STRING, fd_nullable = True\<rparr>,
                  \<lparr>fd_name = ''value'', fd_type = AT_INT64, fd_nullable = True\<rparr>], b_rows = rows\<rparr>"

definition example_long :: "batch list" where
  "example_long =
     [example_long_batch [[SC_Timestamp 20, SC_String ''A'', SC_Int 1], [SC_Timestamp 10, SC_String ''A'', SC_Int 2]],
      example_long_batch [], example_long_batch [[SC_Timestamp 20, SC_String ''B'', SC_Int 3]]]"

lemma example_long_ingested:
  "\<exists>s. ingest_stream example_pivot_env example_long = Inr s"
  by (simp add: ingest_stream_def ingest_batch_def ingest_columns_def ingest_sample_def note_type_def field_index_def
      example_pivot_env_def example_long_def example_long_batch_def umap_emplace_def)

theorem wide_pivot_is_the_table_witness:
  "\<exists>out. pivotLongStream example_pivot_env example_long = Inr out \<and>
     concat out = [(10, [SC_Int 2, SC_Null]), (20, [SC_Int 1, SC_Int 3])]"
proof -
  obtain s where s: "ingest_stream example_pivot_env example_long = Inr s" using example_long_ingested by blast
  have samples: "long_samples example_pivot_env example_long =
      [\<lparr>sm_pivot_key = ''A'', sm_row_key = 20, sm_value = SC_Int 1\<rparr>, \<lparr>sm_pivot_key = ''A'', sm_row_key = 10, sm_value = SC_Int 2\<rparr>,
       \<lparr>sm_pivot_key = ''B'', sm_row_key = 20, sm_value = SC_Int 3\<rparr>]"
    by (simp add: long_samples_def batch_samples_def field_index_def example_pivot_env_def example_long_def
        example_long_batch_def)
  have labels: "pivot_labels_of example_pivot_env (long_samples example_pivot_env example_long) = [''A'', ''B'']"
    unfolding samples pivot_labels_of_def by (simp add: add_label_def example_pivot_env_def)
  have "sorted_list_of_set {20, 10, 20 :: int} = [10, 20]"
    by (simp add: insert_commute)
  then have table: "sample_table [''A'', ''B''] (long_samples example_pivot_env example_long) =
      [(10, [SC_Int 2, SC_Null]), (20, [SC_Int 1, SC_Int 3])]"
    by (simp add: samples sample_table_def table_cell_def cell_key_def)
  show ?thesis
    using wide_pivot_is_the_table [OF s] unfolding Let_def labels table by (auto simp: samples cell_key_def)
qed

end
