(* ===== verification/Plan_Execution.thy ===== *)
theory Plan_Execution
  imports Query_Planner Wide_Pivot Window_Scan_Facts
begin

text \<open>
  The execution of a physical plan, which the engine has twice: the materialised tree of execution states
  (\<open>src/query/executor/relational/\<close>, \<open>src/query/executor/scan/TableScanExecutionState.cpp\<close>) and the stream of
  batches a client pulls (\<open>makeStreamingPlan\<close> and \<open>executeStream\<close> of \<open>src/query/QueryExecutor.cpp\<close> with the
  streams of \<open>src/query/executor/\<close>).  Both use the operators of the other theories.  Parameters are the back end,
  the catalog, the execution of a child \<open>SELECT\<close>, the statements that are not queries, and the operators
  over evaluated rows with their conversion from Arrow; counters, progress and cancellation are left out.
\<close>

section \<open>Environment\<close>

text \<open>A stream is what it yields and the exception that ends it, if any.\<close>

type_synonym batch_stream = "batch list \<times> exn option"

record 'q ExecEnv =
  xe_eval :: EvalEnv
  xe_status :: string
  xe_context :: ExecutionContext
  xe_value_type :: "arrow_type \<Rightarrow> ascalar \<Rightarrow> arrow_type"
  xe_cast :: "arrow_type \<Rightarrow> arrow_type \<Rightarrow> ascalar list \<Rightarrow> string + ascalar list"
  xe_type_name :: "arrow_type \<Rightarrow> string"
  xe_backend :: "string \<Rightarrow> Predicate list \<Rightarrow> string set \<Rightarrow> nat \<Rightarrow> bool \<Rightarrow> batch_stream"
  xe_catalog :: "'q PhysicalTableScan \<Rightarrow> exn + batch list"
  xe_child :: "'q \<Rightarrow> exn + batch list"
  xe_open :: "string \<Rightarrow> string set \<Rightarrow> Predicate list \<Rightarrow> string + bstream"
  xe_max_streams :: nat
  xe_max_requests :: nat
  xe_aggregate :: "PlanAggregateSpec \<Rightarrow> batch list \<Rightarrow> exn + batch list"
  xe_window :: "WindowGroup list \<Rightarrow> bool \<Rightarrow> batch list \<Rightarrow> exn + batch list"
  xe_create :: "string \<Rightarrow> bool \<Rightarrow> batch_stream \<Rightarrow> exn option"
  xe_statement :: "'q PhysicalNode \<Rightarrow> exn + batch list"

definition drain :: "batch_stream \<Rightarrow> exn + batch list" where
  "drain s = (case snd s of None \<Rightarrow> Inr (fst s) | Some e \<Rightarrow> Inl e)"

section \<open>Scans\<close>

text \<open>\<open>NOT\<close> uses its first child, and a \<open>NOT\<close> without one is not formed.\<close>

fun to_predicate_group :: "PhysicalGroup \<Rightarrow> PredicateGroup" where
  "to_predicate_group (XG_Leaf p) = G_Leaf p"
| "to_predicate_group (XG_And gs) = G_And (map to_predicate_group gs)"
| "to_predicate_group (XG_Or gs) = G_Or (map to_predicate_group gs)"
| "to_predicate_group (XG_Not (g # gs)) = G_Not (to_predicate_group g)"
| "to_predicate_group (XG_Not []) = G_Not (G_And [])"

definition filter_with :: "EvalEnv \<Rightarrow> Predicate list \<Rightarrow> PhysicalGroup list \<Rightarrow> batch \<Rightarrow> batch" where
  "filter_with env preds groups b =
     b\<lparr>b_rows := applyFilter (ee_gfi env) (map fd_name (b_fields b)) (hasUnionColumn b) preds
        (map to_predicate_group groups) (b_rows b)\<rparr>"

definition qualify_scan :: "'q PhysicalTableScan \<Rightarrow> batch \<Rightarrow> batch" where
  "qualify_scan scan b =
     (if pt_qualify_output scan then the (qualifyBatchColumns (Some b) (pt_table_alias scan)) else b)"

definition in_error :: "string \<Rightarrow> string \<Rightarrow> string \<Rightarrow> exn" where
  "in_error kind target message = RuntimeError (''IN (SELECT ...) for '' @ kind @ quoted target @ message)"

definition epoch_seconds :: "string \<Rightarrow> int \<Rightarrow> int" where
  "epoch_seconds unit v =
     (let u = takeWhile (\<lambda>c. c \<noteq> CHR '','') unit in
      if u = ''s'' then v else if u = ''ms'' then cpp_div v 1000
      else if u = ''us'' then cpp_div v 1000000 else cpp_div v 1000000000)"

text \<open>The value of one row of the child.\<close>

definition membership_value :: "EvalEnv \<Rightarrow> ColumnType \<Rightarrow> string \<Rightarrow> arrow_type \<Rightarrow> ascalar \<Rightarrow> exn + literal" where
  "membership_value env target col type cell =
     (if \<not> is_valid cell then Inl (in_error ''column '' col '' returned a null value'') else
      (case target of
         CT_STRING \<Rightarrow>
           (if type = AT_STRING then Inr (Lit_String (ee_txt env cell))
            else Inl (in_error ''string column '' col '' requires Arrow string output''))
       | CT_BOOL \<Rightarrow>
           (case (type, cell) of (AT_BOOL, SC_Bool b) \<Rightarrow> Inr (Lit_Bool b)
            | _ \<Rightarrow> Inl (in_error ''bool column '' col '' requires Arrow boolean output''))
       | CT_NATIVE_VALUE \<Rightarrow> Inl (RuntimeError ''IN (SELECT ...) is not supported for native value columns'')
       | CT_TIMESTAMP \<Rightarrow>
           (case (type, cell) of (AT_TIMESTAMP unit, SC_Timestamp t) \<Rightarrow> Inr (Lit_Int (epoch_seconds unit t))
            | _ \<Rightarrow> Inl (in_error ''timestamp column '' col '' requires Arrow timestamp output''))
       | _ \<Rightarrow>
           (case cell of
              SC_Int i \<Rightarrow>
                (if type = AT_INT64 \<or> (\<exists>w. type = AT_INTEGRAL w) then Inr (Lit_Int i)
                 else Inl (in_error ''integral column '' col '' requires Arrow integral output''))
            | SC_UInt n \<Rightarrow>
                (if \<not> (\<exists>w. type = AT_INTEGRAL w)
                 then Inl (in_error ''integral column '' col '' requires Arrow integral output'')
                 else if int n \<le> int64_max then Inr (Lit_Int (int n))
                 else Inl (RuntimeError (''IN (SELECT ...) value cannot be represented as int64 for column '' @ quoted col)))
            | _ \<Rightarrow> Inl (in_error ''integral column '' col '' requires Arrow integral output''))))"

definition extractInSubqueryValues :: "EvalEnv \<Rightarrow> ColumnType \<Rightarrow> string \<Rightarrow> batch list \<Rightarrow> exn + literal list" where
  "extractInSubqueryValues env target col batches =
     map_sum id concat (mapE (\<lambda>b.
       if length (b_fields b) \<noteq> 1 then Inl (in_error ''column '' col '' must return exactly one column'')
       else mapE (\<lambda>row. membership_value env target col (fd_type (b_fields b ! 0)) (row ! 0)) (b_rows b)) batches)"

text \<open>The predicate of a membership subquery; no value at all empties the scan.\<close>

definition resolve_subquery :: "'q ExecEnv \<Rightarrow> 'q PhysicalInSubquery \<Rightarrow> exn + Predicate" where
  "resolve_subquery env q =
     (case xe_child env (sq_child q) of Inl e \<Rightarrow> Inl e | Inr batches \<Rightarrow>
       map_sum id (\<lambda>vs. (sq_predicate q)\<lparr>pr_values := vs\<rparr>)
         (extractInSubqueryValues (xe_eval env) (sq_column_type q) (pr_column (sq_predicate q)) batches))"

fun materializeMembership ::
  "'q ExecEnv \<Rightarrow> bool \<Rightarrow> 'q PhysicalInSubquery list \<Rightarrow> Predicate list \<times> Predicate list \<Rightarrow>
   exn + (Predicate list \<times> Predicate list) option" where
  "materializeMembership env split_local [] acc = Inr (Some acc)"
| "materializeMembership env split_local (q # qs) acc =
     (case resolve_subquery env q of Inl e \<Rightarrow> Inl e | Inr p \<Rightarrow>
       if pr_values p = [] then Inr None
       else materializeMembership env split_local qs
         (if split_local \<and> \<not> sq_pushable q then (fst acc, snd acc @ [p]) else (fst acc @ [p], snd acc)))"

text \<open>A cell of a window, for the normalisation.\<close>

fun window_cell :: "ascalar \<Rightarrow> win_cell" where
  "window_cell (SC_Timestamp t) = Cell_Time t"
| "window_cell _ = Cell_Null"

definition window_batch :: "batch \<Rightarrow> win_batch" where
  "window_batch b =
     \<lparr>wb_time_columns = map (\<lambda>f. \<exists>u. fd_type f = AT_TIMESTAMP u) (b_fields b),
      wb_rows = map (\<lambda>row. (window_cell (row ! 0), window_cell (row ! 1))) (b_rows b)\<rparr>"

text \<open>A window of seconds in nanoseconds.\<close>

definition window_ns :: "int \<times> int \<Rightarrow> exn + window" where
  "window_ns w =
     (case int64 (fst w * 1000000000) of Inl e \<Rightarrow> Inl e | Inr a \<Rightarrow>
       map_sum id (Pair a) (int64 (snd w * 1000000000)))"

definition child_windows :: "'q ExecEnv \<Rightarrow> 'q \<Rightarrow> exn + window list" where
  "child_windows env q =
     (case xe_child env q of Inl e \<Rightarrow> Inl e | Inr batches \<Rightarrow> extractNormalizedWindows (map window_batch batches))"

text \<open>\<open>fetchBackendPages\<close>: a local predicate drops rows the back end counted, so it lifts the row limit.\<close>

definition fetchBackendPages ::
  "'q ExecEnv \<Rightarrow> 'q PhysicalTableScan \<Rightarrow> Predicate list \<Rightarrow> Predicate list \<Rightarrow> exn + batch list" where
  "fetchBackendPages env scan pushed local =
     (case drain (xe_backend env (pt_table_name scan) pushed (pt_projection_hint scan)
              (if local = [] then pt_row_limit scan else 0) (pt_projection_explicit scan)) of
        Inl e \<Rightarrow> Inl e
      | Inr batches \<Rightarrow>
          Inr (map (\<lambda>b. qualify_scan scan (if local = [] then b else filter_with (xe_eval env) local [] b)) batches))"

definition is_time_series :: "'q PhysicalTableScan \<Rightarrow> bool" where
  "is_time_series scan \<longleftrightarrow> pt_table_name scan = ''mldp.time_series'' \<or> pt_table_name scan = ''mldp.time_series_table''"

text \<open>A stored or derived table: the membership predicates are tested on its rows.\<close>

definition execute_stored :: "'q ExecEnv \<Rightarrow> 'q PhysicalTableScan \<Rightarrow> exn + batch list \<Rightarrow> exn + batch list" where
  "execute_stored env scan rows =
     (case rows of Inl e \<Rightarrow> Inl e | Inr batches \<Rightarrow>
     (case materializeMembership env False (pt_in_subqueries scan) ([], []) of
        Inl e \<Rightarrow> Inl e
      | Inr None \<Rightarrow> Inr []
      | Inr (Some (preds, _)) \<Rightarrow>
          Inr (map (\<lambda>b. qualify_scan scan (if preds = [] then b else filter_with (xe_eval env) preds [] b)) batches)))"

definition scan_windows :: "'q ExecEnv \<Rightarrow> 'q PhysicalTableScan \<Rightarrow> exn + window list" where
  "scan_windows env scan =
     (case pt_window_subquery scan of
        Some q \<Rightarrow> child_windows env q
      | None \<Rightarrow>
          (case pt_window_literal scan of Some w \<Rightarrow> map_sum id (\<lambda>v. [v]) (window_ns w) | None \<Rightarrow> Inr []))"

text \<open>What a scan of windows is given: the serial loop and the parallel stream use the same.\<close>

definition scan_env :: "'q ExecEnv \<Rightarrow> 'q PhysicalTableScan \<Rightarrow> Predicate list \<Rightarrow> ScanEnv" where
  "scan_env env scan pushed =
     \<lparr>sv_pushable = pushed, sv_slice_ns = ws_slice_ns (pt_window_shards scan),
      sv_series_per_shard = ws_series_per_shard (pt_window_shards scan),
      sv_qualify_output = pt_qualify_output scan, sv_table_alias = pt_table_alias scan,
      sv_max_concurrent_streams = xe_max_streams env, sv_max_parallel_requests = xe_max_requests env,
      sv_gfi = ee_gfi (xe_eval env), sv_open = xe_open env (pt_table_name scan) (pt_projection_hint scan)\<rparr>"

definition execute_scan :: "'q ExecEnv \<Rightarrow> 'q PhysicalTableScan \<Rightarrow> exn + batch list" where
  "execute_scan env scan =
     (case pt_derived_query scan of
        Some q \<Rightarrow> execute_stored env scan (xe_child env q)
      | None \<Rightarrow>
          if pt_arrow_ipc scan then execute_stored env scan (xe_catalog env scan) else
          (case materializeMembership env True (pt_in_subqueries scan) (pt_pushable_predicates scan, []) of
             Inl e \<Rightarrow> Inl e
           | Inr None \<Rightarrow> Inr []
           | Inr (Some (pushed, local)) \<Rightarrow>
               if \<not> (is_time_series scan \<and> (pt_window_subquery scan \<noteq> None \<or> pt_window_literal scan \<noteq> None))
               then fetchBackendPages env scan pushed local
               else (case scan_windows env scan of
                       Inl e \<Rightarrow> Inl e
                     | Inr windows \<Rightarrow>
                         if windows = [] then Inr []
                         else fetchTimeSeriesWindows (scan_env env scan pushed) local windows)))"

section \<open>Union\<close>

text \<open>\<open>UNION\<close>: the type of a column over two branches.\<close>

definition is_integer :: "arrow_type \<Rightarrow> bool" where
  "is_integer t = (case t of AT_INT64 \<Rightarrow> True | AT_INTEGRAL w \<Rightarrow> True | _ \<Rightarrow> False)"

definition is_floating :: "arrow_type \<Rightarrow> bool" where
  "is_floating t = (t = AT_OTHER ''double'' \<or> t = AT_OTHER ''float'' \<or> t = AT_OTHER ''halffloat'')"

definition is_timestamp :: "arrow_type \<Rightarrow> bool" where
  "is_timestamp t = (case t of AT_TIMESTAMP u \<Rightarrow> True | _ \<Rightarrow> False)"

text \<open>A timestamp type is its unit, with a comma and the zone where there is one; the left zone is kept.\<close>

definition unified_timestamp :: "string \<Rightarrow> arrow_type" where
  "unified_timestamp unit = AT_TIMESTAMP (''ns'' @ dropWhile (\<lambda>c. c \<noteq> CHR '','') unit)"

definition unifyTypes :: "arrow_type \<Rightarrow> arrow_type \<Rightarrow> arrow_type option" where
  "unifyTypes l r =
     (if l = r then Some l
      else if l = AT_NA then Some r
      else if r = AT_NA then Some l
      else if (is_integer l \<or> is_floating l) \<and> (is_integer r \<or> is_floating r)
      then Some (if is_floating l \<or> is_floating r then AT_OTHER ''double'' else AT_INT64)
      else (case (l, r) of (AT_TIMESTAMP u, AT_TIMESTAMP v) \<Rightarrow> Some (unified_timestamp u) | _ \<Rightarrow> None))"

definition unify_field :: "('q, 'x) ExecEnv_scheme \<Rightarrow> nat \<Rightarrow> field \<times> field \<Rightarrow> exn + field" where
  "unify_field env branch fg =
     (case fg of (f, g) \<Rightarrow>
       (case unifyTypes (fd_type f) (fd_type g) of
          None \<Rightarrow> Inl (RuntimeError (''UNION column '' @ quoted (fd_name f) @ '' has incompatible types '' @
            xe_type_name env (fd_type f) @ '' and '' @ xe_type_name env (fd_type g) @ '' in branch '' @ to_string branch))
        | Some t \<Rightarrow> Inr \<lparr>fd_name = fd_name f, fd_type = t, fd_nullable = True\<rparr>))"

definition unify_step ::
  "('q, 'x) ExecEnv_scheme \<Rightarrow> field list option \<Rightarrow> nat \<times> batch list \<Rightarrow> exn + field list option" where
  "unify_step env result branch =
     (case branch of
        (i, []) \<Rightarrow> Inr result
      | (i, b # bs) \<Rightarrow>
          (case result of
             None \<Rightarrow> Inr (Some (b_fields b))
           | Some schema \<Rightarrow>
               if length (b_fields b) \<noteq> length schema then
                 Inl (RuntimeError (''UNION branches must select the same number of columns: '' @ to_string (length schema) @
                   '' vs '' @ to_string (length (b_fields b)) @ '' in branch '' @ to_string (i + 1)))
               else map_sum id Some (mapE (unify_field env (i + 1)) (zip schema (b_fields b)))))"

definition unifySchemas :: "('q, 'x) ExecEnv_scheme \<Rightarrow> batch list list \<Rightarrow> exn + field list option" where
  "unifySchemas env branches = foldE (unify_step env) None (enumerate 0 branches)"

definition batch_column :: "batch \<Rightarrow> nat \<Rightarrow> ascalar list" where
  "batch_column b i = map (\<lambda>row. row ! i) (b_rows b)"

definition conform_column ::
  "('q, 'x) ExecEnv_scheme \<Rightarrow> batch \<Rightarrow> nat \<times> field \<Rightarrow> exn + field \<times> ascalar list" where
  "conform_column env b k =
     (case k of (i, f) \<Rightarrow>
       let type = fd_type (b_fields b ! i) in
       if type = fd_type f then Inr (f, batch_column b i)
       else if type = AT_NA then Inr (f, replicate (length (b_rows b)) SC_Null)
       else (case xe_cast env type (fd_type f) (batch_column b i) of
               Inl status \<Rightarrow> Inl (RuntimeError (''UNION cannot convert column '' @ quoted (fd_name f) @ '': '' @ status))
             | Inr converted \<Rightarrow> Inr (f, converted)))"

definition conformBatch :: "('q, 'x) ExecEnv_scheme \<Rightarrow> field list \<Rightarrow> batch \<Rightarrow> exn + batch" where
  "conformBatch env schema b =
     map_sum id (batch_of_columns (length (b_rows b))) (mapE (conform_column env b) (enumerate 0 schema))"

definition union_batches :: "('q, 'x) ExecEnv_scheme \<Rightarrow> bool \<Rightarrow> batch list list \<Rightarrow> exn + batch list" where
  "union_batches env distinct_rows branches =
     (case unifySchemas env branches of
        Inl e \<Rightarrow> Inl e
      | Inr None \<Rightarrow> Inr []
      | Inr (Some schema) \<Rightarrow>
          map_sum id (\<lambda>bs. if distinct_rows then applyDistinct (ee_txt (xe_eval env)) bs else bs)
            (mapE (conformBatch env schema) (concat branches)))"

section \<open>The operators\<close>

text \<open>\<open>PhysicalFilter\<close> on a batch, which both executions use.\<close>

definition filter_step :: "'q ExecEnv \<Rightarrow> PhysicalFilter \<Rightarrow> batch \<Rightarrow> exn + batch" where
  "filter_step env f b =
     applyConditions (xe_eval env) (filter_with (xe_eval env) (pf_predicates f) (pf_predicate_groups f) b) (pf_conditions f)"

definition project_batches :: "'q ExecEnv \<Rightarrow> PhysicalProject \<Rightarrow> batch list \<Rightarrow> exn + batch list" where
  "project_batches env p input =
     (if pj_expressions p = [] then applyProjection (ee_gfi (xe_eval env)) input (pj_columns p)
      else applyExpressionProjection (xe_eval env) input (pj_expressions p) (pj_names p))"

definition execute_project :: "'q ExecEnv \<Rightarrow> PhysicalProject \<Rightarrow> batch list \<Rightarrow> exn + batch list" where
  "execute_project env p input =
     (case (if pj_distinct_on p = [] then Inr input else applyDistinctOn (xe_eval env) input (pj_distinct_on p)) of
        Inl e \<Rightarrow> Inl e
      | Inr kept \<Rightarrow>
          map_sum id (\<lambda>out. if pj_distinct p \<and> pj_distinct_on p = [] then applyDistinct (ee_txt (xe_eval env)) out else out)
            (project_batches env p kept))"

definition sort_keys :: "LogicalSortKey list \<Rightarrow> SortKey list" where
  "sort_keys keys = map (\<lambda>k. \<lparr>sk_column = lk_column k, sk_descending = lk_descending k\<rparr>) keys"

definition execute_sort :: "'q ExecEnv \<Rightarrow> LogicalSortKey list \<Rightarrow> batch list \<Rightarrow> exn + batch list" where
  "execute_sort env keys input =
     applySort (ee_gfi (xe_eval env)) (ee_txt (xe_eval env)) (xe_status env) input (sort_keys keys)"

definition execute_join ::
  "'q ExecEnv \<Rightarrow> JoinType \<Rightarrow> LogicalJoinCondition \<Rightarrow> batch list \<Rightarrow> batch list \<Rightarrow> exn + batch list" where
  "execute_join env type cond left right =
     (case combineBatches (xe_status env) left of Inl e \<Rightarrow> Inl e | Inr l \<Rightarrow>
     (case combineBatches (xe_status env) right of Inl e \<Rightarrow> Inl e | Inr r \<Rightarrow>
       map_sum id (\<lambda>(joined, stats). case joined of None \<Rightarrow> [] | Some b \<Rightarrow> [b])
         (joinBatches (ee_gfi (xe_eval env)) (ee_txt (xe_eval env)) (xe_status env) l r (jc_left_column cond)
            (jc_right_column cond) type (xe_context env) \<lparr>bytes_spilled = 0, spill_files = 0\<rparr>)))"

definition pivot_env :: "'q ExecEnv \<Rightarrow> PhysicalPivot \<Rightarrow> PivotEnv" where
  "pivot_env env v =
     \<lparr>pe_gfi = ee_gfi (xe_eval env), pe_type = xe_value_type env, pe_row_key = pv_row_key_column v,
      pe_pivot_key = pv_pivot_key_column v, pe_value = pv_value_column v, pe_labels = pv_output_column_labels v\<rparr>"

definition wide_batch :: "field list \<Rightarrow> wide_row list \<Rightarrow> batch" where
  "wide_batch schema rows = \<lparr>b_fields = schema, b_rows = map (\<lambda>(t, cells). SC_Timestamp t # cells) rows\<rparr>"

definition execute_pivot :: "'q ExecEnv \<Rightarrow> PhysicalPivot \<Rightarrow> batch list \<Rightarrow> exn + batch list" where
  "execute_pivot env v input =
     (case ingest_stream (pivot_env env v) input of Inl e \<Rightarrow> Inl e | Inr s \<Rightarrow>
       map_sum id (map (wide_batch (wide_fields (pivot_env env v) s))) (pivotLongStream (pivot_env env v) input))"

section \<open>The tree of execution states\<close>

fun bindE :: "exn + 'a \<Rightarrow> ('a \<Rightarrow> exn + 'b) \<Rightarrow> exn + 'b" where
  "bindE (Inl e) f = Inl e"
| "bindE (Inr x) f = f x"

fun execute :: "'q ExecEnv \<Rightarrow> 'q PhysicalNode \<Rightarrow> exn + batch list" where
  "execute env P_Null = Inl (RuntimeError ''Cannot initialize execution state from a null physical plan node'')"
| "execute env (P_Scan s) = execute_scan env s"
| "execute env (P_Filter f n) = bindE (execute env n) (mapE (filter_step env f))"
| "execute env (P_Project p n) = bindE (execute env n) (execute_project env p)"
| "execute env (P_Sort keys n) = bindE (execute env n) (execute_sort env keys)"
| "execute env (P_Limit l n) = map_sum id (\<lambda>input. applyLimit input l) (execute env n)"
| "execute env (P_Aggregate a n) = bindE (execute env n) (xe_aggregate env a)"
| "execute env (P_Window g sorted_input n) = bindE (execute env n) (xe_window env g sorted_input)"
| "execute env (P_Pivot v n) = bindE (execute env n) (execute_pivot env v)"
| "execute env (P_HashJoin t c w l r) =
     bindE (execute env l) (\<lambda>left. bindE (execute env r) (\<lambda>right. execute_join env t c left right))"
| "execute env (P_NestedLoopJoin t c p l r) =
     bindE (execute env l) (\<lambda>left. bindE (execute env r) (\<lambda>right. execute_join env t c left right))"
| "execute env (P_BlockNestedLoopJoin t c w l r) =
     bindE (execute env l) (\<lambda>left. bindE (execute env r) (\<lambda>right. execute_join env t c left right))"
| "execute env (P_Union ns d) = bindE (mapE (execute env) ns) (union_batches env d)"
| "execute env (P_CreateTable t tmp n) =
     bindE (execute env n) (\<lambda>input. case xe_create env t tmp (input, None) of None \<Rightarrow> Inr [] | Some e \<Rightarrow> Inl e)"
| "execute env n = xe_statement env n"

section \<open>Streams\<close>

text \<open>A scan that never returned would be an ending of its own; the facts below do not meet one.\<close>

partial_function (option) pull_all :: "ScanEnv \<Rightarrow> WindowScan \<Rightarrow> batch_stream option" where
  "pull_all senv st =
     (case next_batch senv st of
        None \<Rightarrow> None
      | Some (Inl e) \<Rightarrow> Some ([], Some e)
      | Some (Inr (None, t)) \<Rightarrow> Some ([], None)
      | Some (Inr (Some b, t)) \<Rightarrow> Option.bind (pull_all senv t) (\<lambda>s. Some (b # fst s, snd s)))"

definition pulled :: "ScanEnv \<Rightarrow> WindowScan \<Rightarrow> batch_stream" where
  "pulled senv st = (case pull_all senv st of Some s \<Rightarrow> s | None \<Rightarrow> ([], Some UndefinedBehaviour))"

text \<open>\<open>resolvePushableInSubqueries\<close>: every membership becomes a pushable predicate.\<close>

fun resolvePushable :: "'q ExecEnv \<Rightarrow> 'q PhysicalInSubquery list \<Rightarrow> Predicate list \<Rightarrow> exn + Predicate list option" where
  "resolvePushable env [] ps = Inr (Some ps)"
| "resolvePushable env (q # qs) ps =
     (case resolve_subquery env q of Inl e \<Rightarrow> Inl e | Inr p \<Rightarrow>
       if pr_values p = [] then Inr None else resolvePushable env qs (ps @ [p]))"

definition pivotLabels :: "Predicate list \<Rightarrow> string list" where
  "pivotLabels ps = foldl add_label [] (requestedPvs ps)"

definition backend_stream :: "'q ExecEnv \<Rightarrow> 'q PhysicalTableScan \<Rightarrow> Predicate list \<Rightarrow> batch_stream" where
  "backend_stream env scan ps =
     (case xe_backend env (pt_table_name scan) ps (pt_projection_hint scan) (pt_row_limit scan) (pt_projection_explicit scan) of
        (bs, e) \<Rightarrow> (map (qualify_scan scan) bs, e))"

text \<open>The slices of all windows have the width given or the one chosen for the first window.\<close>

definition window_stream ::
  "'q ExecEnv \<Rightarrow> 'q PhysicalTableScan \<Rightarrow> Predicate list \<Rightarrow> exn + int \<Rightarrow> exn + window list \<Rightarrow> exn + batch_stream option" where
  "window_stream env scan ps width windows =
     bindE (if ws_slice_ns (pt_window_shards scan) = 0 then map_sum id autoSliceNs width
            else Inr (ws_slice_ns (pt_window_shards scan))) (\<lambda>slice.
     bindE windows (\<lambda>ws.
       let senv = (scan_env env scan ps)\<lparr>sv_slice_ns := slice\<rparr> in
       map_sum id (\<lambda>st. Some (pulled senv st)) (openWindowScan senv ws)))"

definition stream_scan :: "'q ExecEnv \<Rightarrow> 'q PhysicalTableScan \<Rightarrow> exn + batch_stream option" where
  "stream_scan env scan =
     (if pt_arrow_ipc scan \<or> pt_derived_query scan \<noteq> None \<or> (\<exists>q\<in>set (pt_in_subqueries scan). \<not> sq_pushable q)
      then Inr None
      else bindE (resolvePushable env (pt_in_subqueries scan) (pt_pushable_predicates scan)) (\<lambda>r.
        case r of
          None \<Rightarrow> Inr (Some ([], None))
        | Some ps \<Rightarrow>
            (case pt_window_literal scan of
               Some w \<Rightarrow>
                 window_stream env scan ps (bindE (int64 (snd w - fst w)) (\<lambda>d. int64 (d * 1000000000)))
                   (map_sum id (\<lambda>v. [v]) (window_ns w))
             | None \<Rightarrow>
                 (case pt_window_subquery scan of
                    None \<Rightarrow> Inr (Some (backend_stream env scan ps))
                  | Some q \<Rightarrow>
                      bindE (child_windows env q) (\<lambda>ws.
                        if ws = [] then Inr (Some ([], None))
                        else window_stream env scan ps (int64 (snd (hd ws) - fst (hd ws))) (Inr ws))))))"

fun emit :: "batch \<Rightarrow> batch_stream \<Rightarrow> batch_stream" where
  "emit b (bs, e) = (b # bs, e)"

fun filter_stream :: "'q ExecEnv \<Rightarrow> PhysicalFilter \<Rightarrow> batch list \<Rightarrow> exn option \<Rightarrow> batch_stream" where
  "filter_stream env f [] e = ([], e)"
| "filter_stream env f (b # bs) e =
     (case filter_step env f b of Inl x \<Rightarrow> ([], Some x) | Inr c \<Rightarrow> emit c (filter_stream env f bs e))"

text \<open>\<open>ProjectRecordBatchStream\<close>, with the keys its deduplicator has seen.\<close>

fun project_stream ::
  "'q ExecEnv \<Rightarrow> PhysicalProject \<Rightarrow> string set \<Rightarrow> batch list \<Rightarrow> exn option \<Rightarrow> batch_stream" where
  "project_stream env p seen [] e = ([], e)"
| "project_stream env p seen (b # bs) e =
     (case (if pj_distinct_on p = [] then Inr (seen, b) else filterOn (xe_eval env) (pj_distinct_on p) seen b) of
        Inl x \<Rightarrow> ([], Some x)
      | Inr (seen', u) \<Rightarrow>
          if pj_distinct_on p \<noteq> [] \<and> b_rows u = [] then project_stream env p seen' bs e
          else (case project_batches env p [u] of
             Inl x \<Rightarrow> ([], Some x)
           | Inr [] \<Rightarrow> ([], None)
           | Inr (c # cs) \<Rightarrow>
               if \<not> pj_distinct p \<or> pj_distinct_on p \<noteq> [] then emit c (project_stream env p seen' bs e)
               else (case dedup_filter (ee_txt (xe_eval env)) seen' c of
                  (seen'', unique) \<Rightarrow>
                    if b_rows unique = [] then project_stream env p seen'' bs e
                    else emit unique (project_stream env p seen'' bs e))))"

fun limit_stream :: "nat \<Rightarrow> batch list \<Rightarrow> exn option \<Rightarrow> batch_stream" where
  "limit_stream remaining bs e =
     (if remaining = 0 then ([], None)
      else case bs of
        [] \<Rightarrow> ([], e)
      | b # rest \<Rightarrow>
          if b_rows b = [] then limit_stream remaining rest e
          else if length (b_rows b) \<le> remaining then emit b (limit_stream (remaining - length (b_rows b)) rest e)
          else ([b\<lparr>b_rows := take remaining (b_rows b)\<rparr>], None))"

declare limit_stream.simps [simp del]

text \<open>Aggregates, windows and pivots pull their whole input at the first \<open>next()\<close>.\<close>

definition whole_stream :: "(batch list \<Rightarrow> exn + batch list) \<Rightarrow> batch_stream \<Rightarrow> batch_stream" where
  "whole_stream f s = (case bindE (drain s) f of Inl e \<Rightarrow> ([], Some e) | Inr bs \<Rightarrow> (bs, None))"

fun sorts_in_stream :: "'q PhysicalNode \<Rightarrow> bool" where
  "sorts_in_stream (P_Aggregate a n) = True"
| "sorts_in_stream (P_Window g s n) = True"
| "sorts_in_stream _ = False"

definition pivot_resolved ::
  "'q ExecEnv \<Rightarrow> PhysicalPivot \<Rightarrow> 'q PhysicalTableScan \<Rightarrow> exn + (PhysicalPivot \<times> 'q PhysicalTableScan) option" where
  "pivot_resolved env v scan =
     map_sum id (map_option (\<lambda>ps. (v\<lparr>pv_output_column_labels := pivotLabels ps\<rparr>,
         scan\<lparr>pt_pushable_predicates := ps, pt_in_subqueries := []\<rparr>)))
       (resolvePushable env (pt_in_subqueries scan) (pt_pushable_predicates scan))"

fun makeStreamingPlan :: "'q ExecEnv \<Rightarrow> 'q PhysicalNode \<Rightarrow> exn + batch_stream option" where
  "makeStreamingPlan env (P_Scan scan) = stream_scan env scan"
| "makeStreamingPlan env (P_Filter f n) =
     map_sum id (map_option (\<lambda>(bs, e). filter_stream env f bs e)) (makeStreamingPlan env n)"
| "makeStreamingPlan env (P_Project p n) =
     map_sum id (map_option (\<lambda>(bs, e). project_stream env p {} bs e)) (makeStreamingPlan env n)"
| "makeStreamingPlan env (P_Aggregate a n) =
     map_sum id (map_option (whole_stream (xe_aggregate env a))) (makeStreamingPlan env n)"
| "makeStreamingPlan env (P_Window g sorted_input n) =
     map_sum id (map_option (whole_stream (xe_window env g sorted_input))) (makeStreamingPlan env n)"
| "makeStreamingPlan env (P_Sort keys n) =
     (if \<not> sorts_in_stream n then Inr None
      else bindE (makeStreamingPlan env n) (\<lambda>r. case r of
          None \<Rightarrow> Inr None
        | Some s \<Rightarrow> bindE (drain s) (\<lambda>groups. map_sum id (\<lambda>bs. Some (bs, None)) (execute_sort env keys groups))))"
| "makeStreamingPlan env (P_Limit l n) =
     map_sum id (map_option (\<lambda>(bs, e). limit_stream l bs e)) (makeStreamingPlan env n)"
| "makeStreamingPlan env (P_Pivot v n) =
     (case n of
        P_Scan scan \<Rightarrow>
          if pt_in_subqueries scan = []
          then map_sum id (map_option (whole_stream (execute_pivot env v))) (stream_scan env scan)
          else bindE (pivot_resolved env v scan) (\<lambda>r. case r of
              None \<Rightarrow> Inr (Some ([], None))
            | Some (v', scan') \<Rightarrow> map_sum id (map_option (whole_stream (execute_pivot env v'))) (stream_scan env scan'))
      | _ \<Rightarrow> map_sum id (map_option (whole_stream (execute_pivot env v))) (makeStreamingPlan env n))"
| "makeStreamingPlan env n = Inr None"

text \<open>\<open>QueryExecutor::executeStream\<close> and \<open>QueryExecutor::execute\<close>.\<close>

fun executeStream :: "'q ExecEnv \<Rightarrow> 'q PhysicalNode \<Rightarrow> exn + batch_stream" where
  "executeStream env (P_CreateTable t tmp n) =
     map_sum id (\<lambda>s. ([], xe_create env t tmp s)) (executeStream env n)"
| "executeStream env n =
     bindE (makeStreamingPlan env n) (\<lambda>r. case r of
        Some s \<Rightarrow> Inr s
      | None \<Rightarrow> map_sum id (\<lambda>bs. (bs, None)) (execute env n))"

definition executeQuery :: "'q ExecEnv \<Rightarrow> 'q PhysicalNode \<Rightarrow> exn + batch list" where
  "executeQuery env n =
     (case n of
        P_CreateTable t tmp q \<Rightarrow> bindE (executeStream env n) (\<lambda>s. map_sum id (\<lambda>bs. []) (drain s))
      | _ \<Rightarrow> execute env n)"

section \<open>Streams against the tree\<close>

text \<open>The batches of a stream: those of the tree, where a \<open>LIMIT\<close> may leave out batches without rows.\<close>

inductive thinned :: "bool \<Rightarrow> batch list \<Rightarrow> batch list \<Rightarrow> bool" for may_drop :: bool where
  thinned_Nil [intro!, simp]: "thinned may_drop [] []"
| thinned_Cons [intro]: "thinned may_drop bs cs \<Longrightarrow> thinned may_drop (b # bs) (b # cs)"
| thinned_drop: "may_drop \<Longrightarrow> b_rows b = [] \<Longrightarrow> thinned may_drop bs cs \<Longrightarrow> thinned may_drop (b # bs) cs"

inductive_simps thinned_simps [simp]: "thinned k [] cs" "thinned k (b # bs) cs"

lemma thinned_refl [simp]: "thinned k bs bs"
  by (induction bs) auto

lemma thinned_False [simp]: "thinned False bs cs \<longleftrightarrow> bs = cs"
proof
  show "thinned False bs cs \<Longrightarrow> bs = cs" by (induction rule: thinned.induct) auto
qed simp

lemma thinned_rows: "thinned k bs cs \<Longrightarrow> concat (map b_rows bs) = concat (map b_rows cs)"
  by (induction rule: thinned.induct) auto

lemma bindE_Inr: "bindE x f = Inr y \<longleftrightarrow> (\<exists>z. x = Inr z \<and> f z = Inr y)"
  by (cases x) auto

lemma map_sum_Inr: "map_sum id f x = Inr y \<longleftrightarrow> (\<exists>z. x = Inr z \<and> y = f z)"
  by (cases x) auto

lemma mapE_Cons_Inr: "mapE f (x # xs) = Inr ys \<longleftrightarrow> (\<exists>z zs. f x = Inr z \<and> mapE f xs = Inr zs \<and> ys = z # zs)"
  by (auto split: sum.splits)

lemma emit_pair: "emit b s = (b # fst s, snd s)"
  by (cases s) simp

section \<open>Scans\<close>

lemma pull_all_drains: "drains senv st bs \<Longrightarrow> pull_all senv st = Some (bs, None)"
  by (induction rule: drains.induct) (subst pull_all.simps, simp)+

lemma membership_pushable:
  "\<forall>q\<in>set qs. sq_pushable q \<Longrightarrow>
     materializeMembership env True qs (ps, []) = map_sum id (map_option (\<lambda>ps. (ps, []))) (resolvePushable env qs ps)"
  by (induction qs arbitrary: ps) (auto split: sum.splits)

text \<open>
  Scans that are executed as a tree in both executions: \<open>executeStream\<close> streams neither stored and derived tables
  nor tables with a membership that the back end cannot test.
\<close>

definition not_streamed :: "'q PhysicalTableScan \<Rightarrow> bool" where
  "not_streamed scan \<longleftrightarrow>
     pt_arrow_ipc scan \<or> pt_derived_query scan \<noteq> None \<or> (\<exists>q\<in>set (pt_in_subqueries scan). \<not> sq_pushable q)"

text \<open>
  Both executions read the same windows of the same table.  The binder accepts windows for the time series only, and
  one window input; a streamed scan of windows is asked to meet the conditions of the two scans of windows, and no batch
  the back end delivers for the last slice of a window has a row after its end: the serial loop would keep it.
\<close>

definition windows_agree :: "ScanEnv \<Rightarrow> window list \<Rightarrow> bool" where
  "windows_agree senv ws =
     (env_ok senv \<and> windows_ok ws \<and>
      (\<forall>d\<in>set (deliveries senv (requestedPvs (sv_pushable senv)) ws). ends_inside senv d))"

definition scans_agree :: "'q ExecEnv \<Rightarrow> 'q PhysicalTableScan \<Rightarrow> bool" where
  "scans_agree env scan =
     (not_streamed scan \<or> pt_window_literal scan = None \<and> pt_window_subquery scan = None \<or>
      is_time_series scan \<and> (pt_window_literal scan = None \<or> pt_window_subquery scan = None) \<and>
      (\<forall>ps ws. resolvePushable env (pt_in_subqueries scan) (pt_pushable_predicates scan) = Inr (Some ps) \<longrightarrow>
         scan_windows env scan = Inr ws \<longrightarrow> windows_agree (scan_env env scan ps) ws))"

lemma window_stream_serial:
  assumes "windows_agree (scan_env env scan ps) ws" "ws \<noteq> []"
    and "fetchTimeSeriesWindows (scan_env env scan ps) [] ws = Inr out"
  shows "window_stream env scan ps width (Inr ws) = Inr (Some (out, None))"
proof -
  let ?senv = "scan_env env scan ps"
  have ok: "env_ok ?senv" "windows_ok ws"
    "\<forall>d\<in>set (deliveries ?senv (requestedPvs (sv_pushable ?senv)) ws). ends_inside ?senv d"
    using assms(1) by (simp_all add: windows_agree_def)
  have pvs: "requestedPvs (sv_pushable ?senv) \<noteq> []"
    using assms(3) by (auto simp: fetchTimeSeriesWindows_def Let_def split: if_splits)
  have out: "out = scan_batches ?senv (requestedPvs (sv_pushable ?senv)) ws"
    using serial_equal [OF ok(1,2) pvs ok(3)] assms(3) by simp
  obtain st where st: "openWindowScan ?senv ws = Inr st" "drains ?senv st out"
    using open_scan [OF ok(1,2) assms(2) pvs] out by blast
  have slice: "ws_slice_ns (pt_window_shards scan) > 0" using ok(1) by (simp add: env_ok_def scan_env_def)
  then have "?senv\<lparr>sv_slice_ns := ws_slice_ns (pt_window_shards scan)\<rparr> = ?senv" by (simp add: scan_env_def)
  then show ?thesis
    using slice st pull_all_drains [OF st(2)] by (simp add: window_stream_def Let_def pulled_def)
qed

lemma backend_stream_pages:
  "fetchBackendPages env scan ps [] = Inr out \<Longrightarrow> backend_stream env scan ps = (out, None)"
  by (auto simp: fetchBackendPages_def backend_stream_def drain_def split: prod.splits option.splits sum.splits)

lemma stream_scan_agrees:
  assumes "execute_scan env scan = Inr out" and "scans_agree env scan"
  shows "stream_scan env scan = Inr None \<or> stream_scan env scan = Inr (Some (out, None))"
proof (cases "pt_arrow_ipc scan \<or> pt_derived_query scan \<noteq> None \<or> (\<exists>q\<in>set (pt_in_subqueries scan). \<not> sq_pushable q)")
  case True
  then show ?thesis by (simp add: stream_scan_def)
next
  case False
  then have push: "\<forall>q\<in>set (pt_in_subqueries scan). sq_pushable q" by blast
  have plain: "\<not> pt_arrow_ipc scan" "pt_derived_query scan = None" using False by auto
  let ?r = "resolvePushable env (pt_in_subqueries scan) (pt_pushable_predicates scan)"
  note x = assms(1) [unfolded execute_scan_def plain(2) membership_pushable [OF push]]
  consider "?r = Inr None" | ps where "?r = Inr (Some ps)"
    using x plain by (cases ?r) (auto split: option.splits)
  then show ?thesis
  proof cases
    case 1
    then show ?thesis using False x by (simp add: stream_scan_def)
  next
    case (2 ps)
    show ?thesis
    proof (cases "pt_window_literal scan = None \<and> pt_window_subquery scan = None")
      case True
      then have "fetchBackendPages env scan ps [] = Inr out" using x plain 2 by simp
      then show ?thesis using False True 2 by (simp add: stream_scan_def backend_stream_pages)
    next
      case windows: False
      note a = assms(2) [unfolded scans_agree_def]
      have "\<not> not_streamed scan" using False by (auto simp: not_streamed_def)
      then have ok: "is_time_series scan" "pt_window_literal scan = None \<or> pt_window_subquery scan = None"
        "\<And>ws. scan_windows env scan = Inr ws \<Longrightarrow> windows_agree (scan_env env scan ps) ws"
        using a windows 2 by auto
      obtain ws where ws: "scan_windows env scan = Inr ws"
        and out: "if ws = [] then out = [] else fetchTimeSeriesWindows (scan_env env scan ps) [] ws = Inr out"
        using x plain 2 ok(1) windows by (auto split: sum.splits if_splits)
      note agree = window_stream_serial [OF ok(3) [OF ws]]
      show ?thesis
      proof (cases "pt_window_literal scan")
        case None
        then obtain q where q: "pt_window_subquery scan = Some q" using windows by auto
        then have "child_windows env q = Inr ws" using ws by (simp add: scan_windows_def)
        then show ?thesis using False 2 None q out agree by (auto simp: stream_scan_def)
      next
        case (Some w)
        then have none: "pt_window_subquery scan = None" using ok(2) by simp
        then obtain v where v: "window_ns w = Inr v" "ws = [v]"
          using ws Some by (auto simp: scan_windows_def map_sum_Inr)
        then show ?thesis using False 2 Some none out agree by (simp add: stream_scan_def)
      qed
    qed
  qed
qed

section \<open>Operators on streams\<close>

lemma filter_step_empty: "b_rows b = [] \<Longrightarrow> filter_step env f b = Inr c \<Longrightarrow> b_rows c = []"
  by (cases "pf_conditions f") (auto simp: filter_step_def filter_with_def applyFilter_rows)

lemma filter_stream_agrees:
  "thinned k bs cs \<Longrightarrow> mapE (filter_step env f) bs = Inr out \<Longrightarrow>
     \<exists>ds. filter_stream env f cs None = (ds, None) \<and> thinned k out ds"
proof (induction arbitrary: out rule: thinned.induct)
  case (thinned_Cons bs cs b)
  then obtain c rest where "filter_step env f b = Inr c" "mapE (filter_step env f) bs = Inr rest" "out = c # rest"
    unfolding mapE_Cons_Inr by blast
  then show ?case using thinned_Cons.IH by fastforce
next
  case (thinned_drop b bs cs)
  then obtain c rest where c: "filter_step env f b = Inr c" "mapE (filter_step env f) bs = Inr rest" "out = c # rest"
    unfolding mapE_Cons_Inr by blast
  then show ?case using thinned_drop.IH thinned_drop.hyps filter_step_empty by fastforce
qed simp

lemma limit_stream_agrees:
  "thinned k bs cs \<Longrightarrow> \<exists>ds. limit_stream n cs None = (ds, None) \<and> thinned True (limit_loop n bs) ds"
proof (induction arbitrary: n rule: thinned.induct)
  case thinned_Nil
  show ?case by (simp add: limit_stream.simps)
next
  case (thinned_Cons bs cs b)
  show ?case
  proof (cases "n = 0")
    case True
    then show ?thesis by (simp add: limit_stream.simps)
  next
    case False
    obtain ds where ds: "limit_stream (n - length (b_rows b)) cs None = (ds, None)"
      "thinned True (limit_loop (n - length (b_rows b)) bs) ds"
      using thinned_Cons.IH by blast
    show ?thesis
    proof (cases "b_rows b = []")
      case True
      then show ?thesis using ds False by (simp add: limit_stream.simps [of n])
    next
      case ne: False
      show ?thesis
      proof (cases "length (b_rows b) \<le> n")
        case True
        then show ?thesis using ds False ne by (simp add: limit_stream.simps [of n])
      next
        case gt: False
        have "limit_loop 0 bs = []" by (cases bs) simp_all
        then show ?thesis using gt False ne by (simp add: limit_stream.simps [of n])
      qed
    qed
  qed
next
  case (thinned_drop b bs cs)
  obtain ds where "limit_stream n cs None = (ds, None)" "thinned True (limit_loop n bs) ds"
    using thinned_drop.IH by blast
  then show ?case using thinned_drop.hyps by (cases "n = 0") (simp_all add: limit_stream.simps [of 0])
qed

text \<open>The projection of a batch.\<close>

definition project_one :: "'q ExecEnv \<Rightarrow> PhysicalProject \<Rightarrow> batch \<Rightarrow> exn + batch" where
  "project_one env p b =
     (if pj_expressions p = []
      then if pj_columns p = [] then Inr b else project_batch (ee_gfi (xe_eval env)) (pj_columns p) b
      else project_expressions (xe_eval env) (pj_expressions p) (pj_names p) b)"

lemma mapE_Inr [simp]: "mapE Inr xs = Inr xs"
  by (induction xs) simp_all

lemma project_batches_mapE: "project_batches env p bs = mapE (project_one env p) bs"
  by (auto simp: project_batches_def applyProjection_def applyExpressionProjection_def project_one_def [abs_def])

lemma project_one_empty: "b_rows b = [] \<Longrightarrow> project_one env p b = Inr c \<Longrightarrow> b_rows c = []"
  by (auto simp: project_one_def project_batch_def select_columns_def project_expressions_def batch_of_columns_def
      split: if_splits sum.splits)

lemma takeSelectedRows_empty: "b_rows b = [] \<Longrightarrow> b_rows (takeSelectedRows b []) = []"
  by (simp add: takeSelectedRows_def)

lemma dedup_empty: "b_rows b = [] \<Longrightarrow> \<exists>u. dedup_filter tx seen b = (seen, u) \<and> b_rows u = []"
  by (simp add: dedup_filter_def takeSelectedRows_def)

lemma filterOn_empty:
  assumes "b_rows b = []" and "filterOn ev keys seen b = Inr (seen', u)"
  shows "seen' = seen \<and> b_rows u = []"
  using assms
  by (auto simp: filterOn_def applyExpressionProjection_def project_expressions_def batch_of_columns_def takeSelectedRows_def
      split: sum.splits list.splits if_splits)

lemma project_plain:
  assumes "pj_distinct_on p = []" "\<not> pj_distinct p"
  shows "thinned k bs cs \<Longrightarrow> mapE (project_one env p) bs = Inr out \<Longrightarrow>
    \<exists>ds. project_stream env p seen cs None = (ds, None) \<and> thinned k out ds"
proof (induction arbitrary: out rule: thinned.induct)
  case (thinned_Cons bs cs b)
  then obtain c rest where "project_one env p b = Inr c" "mapE (project_one env p) bs = Inr rest" "out = c # rest"
    unfolding mapE_Cons_Inr by blast
  then show ?case using thinned_Cons.IH assms by (fastforce simp: project_batches_mapE)
next
  case (thinned_drop b bs cs)
  then obtain c rest where "project_one env p b = Inr c" "mapE (project_one env p) bs = Inr rest" "out = c # rest"
    unfolding mapE_Cons_Inr by blast
  then show ?case using thinned_drop.IH thinned_drop.hyps project_one_empty by fastforce
qed simp

lemma project_distinct:
  assumes "pj_distinct_on p = []" "pj_distinct p"
  shows "thinned k bs cs \<Longrightarrow> mapE (project_one env p) bs = Inr out \<Longrightarrow>
    project_stream env p seen cs None = (distinct_loop (ee_txt (xe_eval env)) seen out, None)"
proof (induction arbitrary: out seen rule: thinned.induct)
  case (thinned_Cons bs cs b)
  then obtain c rest where c: "project_one env p b = Inr c" "mapE (project_one env p) bs = Inr rest" "out = c # rest"
    unfolding mapE_Cons_Inr by blast
  obtain seen' u where u: "dedup_filter (ee_txt (xe_eval env)) seen c = (seen', u)" by fastforce
  show ?case using thinned_Cons.IH [OF c(2), of seen'] c(1,3) u assms by (simp add: project_batches_mapE Let_def)
next
  case (thinned_drop b bs cs)
  then obtain c rest where c: "project_one env p b = Inr c" "mapE (project_one env p) bs = Inr rest" "out = c # rest"
    unfolding mapE_Cons_Inr by blast
  then obtain u where "dedup_filter (ee_txt (xe_eval env)) seen c = (seen, u)" "b_rows u = []"
    using dedup_empty project_one_empty thinned_drop.hyps by blast
  then show ?case using thinned_drop.IH [OF c(2), of seen] c(3) by (simp add: Let_def)
qed simp

lemma project_distinct_on:
  assumes "pj_distinct_on p \<noteq> []"
  shows "thinned k bs cs \<Longrightarrow> distinct_on_loop (xe_eval env) (pj_distinct_on p) seen bs = Inr kept \<Longrightarrow>
    mapE (project_one env p) kept = Inr out \<Longrightarrow> project_stream env p seen cs None = (out, None)"
proof (induction arbitrary: out kept seen rule: thinned.induct)
  case (thinned_Cons bs cs b)
  obtain seen' u rest where u: "filterOn (xe_eval env) (pj_distinct_on p) seen b = Inr (seen', u)"
    "distinct_on_loop (xe_eval env) (pj_distinct_on p) seen' bs = Inr rest"
    "kept = (if b_rows u = [] then rest else u # rest)"
    using thinned_Cons.prems(1) by (auto split: sum.splits)
  show ?case
  proof (cases "b_rows u = []")
    case True
    then show ?thesis using thinned_Cons.IH [OF u(2)] thinned_Cons.prems(2) u assms by simp
  next
    case False
    then obtain c more_out where "project_one env p u = Inr c" "mapE (project_one env p) rest = Inr more_out" "out = c # more_out"
      using thinned_Cons.prems(2) u(3) False by (auto split: sum.splits)
    then show ?thesis using thinned_Cons.IH [OF u(2)] u(1) False assms by (simp add: project_batches_mapE)
  qed
next
  case (thinned_drop b bs cs)
  obtain seen' u rest where u: "filterOn (xe_eval env) (pj_distinct_on p) seen b = Inr (seen', u)"
    "distinct_on_loop (xe_eval env) (pj_distinct_on p) seen' bs = Inr rest"
    "kept = (if b_rows u = [] then rest else u # rest)"
    using thinned_drop.prems(1) by (auto split: sum.splits)
  then have "seen' = seen" "b_rows u = []" using filterOn_empty [OF thinned_drop.hyps(2) u(1)] by simp_all
  then show ?case using thinned_drop.IH [of seen rest out] thinned_drop.prems(2) u by simp
qed simp

lemma project_stream_agrees:
  assumes "thinned k bs cs" "execute_project env p bs = Inr out"
  shows "\<exists>ds. project_stream env p {} cs None = (ds, None) \<and> thinned k out ds"
proof (cases "pj_distinct_on p = []")
  case True
  then obtain kept where kept: "mapE (project_one env p) bs = Inr kept"
    "out = (if pj_distinct p then applyDistinct (ee_txt (xe_eval env)) kept else kept)"
    using assms(2) by (auto simp: execute_project_def project_batches_mapE map_sum_Inr)
  show ?thesis
  proof (cases "pj_distinct p")
    case d: True
    then show ?thesis using project_distinct [OF True d assms(1) kept(1)] kept(2) by (auto simp: applyDistinct_def)
  next
    case d: False
    then show ?thesis using project_plain [OF True d assms(1) kept(1)] kept(2) by simp
  qed
next
  case False
  then obtain kept where "distinct_on_loop (xe_eval env) (pj_distinct_on p) {} bs = Inr kept"
    "mapE (project_one env p) kept = Inr out"
    using assms(2) by (auto simp: execute_project_def project_batches_mapE map_sum_Inr applyDistinctOn_def split: sum.splits)
  then show ?thesis using project_distinct_on [OF False assms(1)] by (metis thinned_refl)
qed

section \<open>Agreement\<close>

fun has_limit :: "'q PhysicalNode \<Rightarrow> bool" where
  "has_limit (P_Limit l n) = True"
| "has_limit (P_Filter f n) = has_limit n"
| "has_limit (P_Project p n) = has_limit n"
| "has_limit _ = False"

text \<open>
  A plan of a statement that streams: \<open>LIMIT\<close> is above the operators that read their whole input, and a pivot reads a
  table or a filter over it.  The labels of a pivot with a membership subquery depend on the execution (below).
\<close>

fun streams_agree :: "'q ExecEnv \<Rightarrow> 'q PhysicalNode \<Rightarrow> bool" where
  "streams_agree env (P_Scan s) = scans_agree env s"
| "streams_agree env (P_Filter f n) = streams_agree env n"
| "streams_agree env (P_Project p n) = streams_agree env n"
| "streams_agree env (P_Limit l n) = streams_agree env n"
| "streams_agree env (P_Sort k n) = streams_agree env n"
| "streams_agree env (P_Aggregate a n) = (streams_agree env n \<and> \<not> has_limit n)"
| "streams_agree env (P_Window g s n) = (streams_agree env n \<and> \<not> has_limit n)"
| "streams_agree env (P_Pivot v n) =
     (streams_agree env n \<and> \<not> has_limit n \<and> (\<forall>s. n = P_Scan s \<longrightarrow> pt_in_subqueries s = []))"
| "streams_agree env _ = True"

lemma whole_stream_agrees:
  "f bs = Inr out \<Longrightarrow> whole_stream f (bs, None) = (out, None)"
  by (simp add: whole_stream_def drain_def)

text \<open>A stream, where the plan has one, ends with what the tree gives.\<close>

definition stream_ok :: "bool \<Rightarrow> batch list \<Rightarrow> exn + batch_stream option \<Rightarrow> bool" where
  "stream_ok k out r = (r = Inr None \<or> (\<exists>ds. r = Inr (Some (ds, None)) \<and> thinned k out ds))"

lemma stream_ok_exact: "stream_ok False out r \<longleftrightarrow> r = Inr None \<or> r = Inr (Some (out, None))"
  by (auto simp: stream_ok_def)

lemma stream_ok_map:
  assumes "stream_ok k bs r" "\<And>cs. thinned k bs cs \<Longrightarrow> \<exists>ds. f (cs, None) = (ds, None) \<and> thinned k' out ds"
  shows "stream_ok k' out (map_sum id (map_option f) r)"
proof -
  consider "r = Inr None" | cs where "r = Inr (Some (cs, None))" "thinned k bs cs"
    using assms(1) by (auto simp: stream_ok_def)
  then show ?thesis
  proof cases
    case (2 cs)
    then show ?thesis using assms(2) [OF 2(2)] by (auto simp: stream_ok_def)
  qed (simp add: stream_ok_def)
qed

lemma stream_ok_whole:
  assumes "stream_ok False bs r" "f bs = Inr out"
  shows "stream_ok False out (map_sum id (map_option (whole_stream f)) r)"
  using assms whole_stream_agrees by (auto simp: stream_ok_exact)

lemma streaming_plan_agrees:
  "execute env n = Inr out \<Longrightarrow> streams_agree env n \<Longrightarrow> stream_ok (has_limit n) out (makeStreamingPlan env n)"
proof (induction n arbitrary: out)
  case (P_Scan s)
  then show ?case using stream_scan_agrees by (simp add: stream_ok_exact)
next
  case (P_Filter f n)
  then obtain bs where bs: "execute env n = Inr bs" "mapE (filter_step env f) bs = Inr out" by (auto simp: bindE_Inr)
  have "stream_ok (has_limit n) out (map_sum id (map_option (\<lambda>(cs, e). filter_stream env f cs e)) (makeStreamingPlan env n))"
    by (rule stream_ok_map [OF P_Filter.IH [OF bs(1)]]) (use P_Filter.prems(2) filter_stream_agrees [OF _ bs(2)] in auto)
  then show ?case by simp
next
  case (P_Project p n)
  then obtain bs where bs: "execute env n = Inr bs" "execute_project env p bs = Inr out" by (auto simp: bindE_Inr)
  have "stream_ok (has_limit n) out (map_sum id (map_option (\<lambda>(cs, e). project_stream env p {} cs e)) (makeStreamingPlan env n))"
    by (rule stream_ok_map [OF P_Project.IH [OF bs(1)]]) (use P_Project.prems(2) project_stream_agrees [OF _ bs(2)] in auto)
  then show ?case by simp
next
  case (P_Sort keys n)
  then obtain bs where bs: "execute env n = Inr bs" "execute_sort env keys bs = Inr out" by (auto simp: bindE_Inr)
  show ?case
  proof (cases "sorts_in_stream n")
    case True
    then have "\<not> has_limit n" by (cases n) auto
    then show ?thesis using P_Sort.IH [OF bs(1)] P_Sort.prems(2) bs(2) by (auto simp: stream_ok_exact drain_def)
  qed (simp add: stream_ok_def)
next
  case (P_Limit l n)
  then obtain bs where bs: "execute env n = Inr bs" "out = limit_loop l bs" by (auto simp: map_sum_Inr applyLimit_def)
  have "stream_ok True out (map_sum id (map_option (\<lambda>(cs, e). limit_stream l cs e)) (makeStreamingPlan env n))"
    by (rule stream_ok_map [OF P_Limit.IH [OF bs(1)]]) (use P_Limit.prems(2) limit_stream_agrees bs(2) in auto)
  then show ?case by simp
next
  case (P_Aggregate a n)
  then obtain bs where bs: "execute env n = Inr bs" "xe_aggregate env a bs = Inr out" by (auto simp: bindE_Inr)
  then show ?case using P_Aggregate.IH [OF bs(1)] P_Aggregate.prems(2) stream_ok_whole [where f = "xe_aggregate env a"] bs(2) by simp
next
  case (P_Window g s n)
  then obtain bs where bs: "execute env n = Inr bs" "xe_window env g s bs = Inr out" by (auto simp: bindE_Inr)
  then show ?case using P_Window.IH [OF bs(1)] P_Window.prems(2) stream_ok_whole [where f = "xe_window env g s"] bs(2) by simp
next
  case (P_Pivot v n)
  then obtain bs where bs: "execute env n = Inr bs" "execute_pivot env v bs = Inr out" by (auto simp: bindE_Inr)
  have "stream_ok False out (map_sum id (map_option (whole_stream (execute_pivot env v))) (makeStreamingPlan env n))"
    using P_Pivot.IH [OF bs(1)] P_Pivot.prems(2) stream_ok_whole [where f = "execute_pivot env v"] bs(2) by simp
  then show ?case using P_Pivot.prems(2) by (cases n) simp_all
qed (simp_all add: stream_ok_def)


text \<open>Three batches of a table \<open>t\<close>: the filter empties the second, the limit cuts the third.\<close>

definition example_lookup :: lookup where
  "example_lookup names name = map_of (zip names [0..<length names]) name"

definition example_eval :: EvalEnv where
  "example_eval =
     \<lparr>ee_gfi = example_lookup, ee_txt = (\<lambda>c. case c of SC_String s \<Rightarrow> s | _ \<Rightarrow> []), ee_cast = (\<lambda>s t. Inl []),
      ee_from_utc_local = (\<lambda>c. Inl OutOfRange), ee_from_utc = (\<lambda>c z. Inl OutOfRange), ee_kernel = (\<lambda>op l r. None),
      ee_status = []\<rparr>"

definition example_execution :: "(string \<Rightarrow> batch list) \<Rightarrow> ('q \<Rightarrow> exn + batch list) \<Rightarrow> 'q ExecEnv" where
  "example_execution tables child =
     \<lparr>xe_eval = example_eval, xe_status = [], xe_context = \<lparr>memory_limit_bytes = 0, spill_manager = None\<rparr>,
      xe_value_type = (\<lambda>t v. t), xe_cast = (\<lambda>t u cells. Inl []), xe_type_name = (\<lambda>t. []),
      xe_backend = (\<lambda>table ps hint limit explicit. (tables table, None)), xe_catalog = (\<lambda>s. Inr []), xe_child = child,
      xe_open = (\<lambda>table hint ps. Inr ([], None)), xe_max_streams = 1, xe_max_requests = 1,
      xe_aggregate = (\<lambda>a bs. Inr bs), xe_window = (\<lambda>g s bs. Inr bs), xe_create = (\<lambda>t tmp s. None),
      xe_statement = (\<lambda>n. Inr [])\<rparr>"

definition example_numbers :: "ascalar list \<Rightarrow> batch" where
  "example_numbers vs = \<lparr>b_fields = [\<lparr>fd_name = ''v'', fd_type = AT_INT64, fd_nullable = True\<rparr>], b_rows = map (\<lambda>v. [v]) vs\<rparr>"

definition example_tables :: "string \<Rightarrow> batch list" where
  "example_tables table =
     [example_numbers [SC_Int 1, SC_Int 2], example_numbers [SC_Null], example_numbers [SC_Int 3, SC_Int 4]]"

definition example_stream_plan :: "unit PhysicalNode" where
  "example_stream_plan =
     P_Limit 3 (P_Project \<lparr>pj_columns = [''v''], pj_expressions = [], pj_names = [], pj_distinct = False, pj_distinct_on = []\<rparr>
       (P_Filter \<lparr>pf_predicates = [], pf_predicate_groups = [],
           pf_conditions = [E_Unary ''IS NOT NULL'' (E_Column \<lparr>qc_qualifier = None, qc_name = ''v''\<rparr>)]\<rparr>
         (P_Scan example_physical_scan)))"

lemma example_stream_execution:
  "executeQuery (example_execution example_tables (\<lambda>q. Inr [])) example_stream_plan =
     Inr [example_numbers [SC_Int 1, SC_Int 2], example_numbers [], example_numbers [SC_Int 3]]"
  by (simp add: executeQuery_def example_stream_plan_def execute_scan_def example_physical_scan_def is_time_series_def
      fetchBackendPages_def drain_def example_execution_def example_tables_def example_numbers_def qualify_scan_def
      filter_step_def filter_with_def applyFilter_rows include_row_def apply_condition_def vectorMask_def
      column_operand_def field_index_def example_eval_def example_lookup_def execute_project_def project_batches_def
      applyProjection_def project_batch_def projected_index_def select_columns_def applyLimit_def)


section \<open>Where the executions differ\<close>

text \<open>
  A wide table over a membership subquery takes its columns from the values of the subquery in the stream, and from the
  samples in the tree: a process variable without samples is a column of one only, and the order differs.
\<close>

definition example_member_scan :: "unit PhysicalTableScan" where
  "example_member_scan = example_physical_scan\<lparr>pt_in_subqueries :=
     [\<lparr>sq_predicate = \<lparr>pr_column = ''pv'', pr_op = IN, pr_values = []\<rparr>, sq_column_type = CT_STRING, sq_pushable = True,
       sq_child = ()\<rparr>]\<rparr>"

definition example_wide_plan :: "unit PhysicalNode" where
  "example_wide_plan =
     P_Pivot \<lparr>pv_row_key_column = ''time'', pv_pivot_key_column = ''pv'', pv_value_column = ''value'',
         pv_output_column_labels = [], pv_output_batch_size = 4096\<rparr> (P_Scan example_member_scan)"

definition example_members :: "exn + batch list" where
  "example_members =
     Inr [\<lparr>b_fields = [\<lparr>fd_name = ''pv'', fd_type = AT_STRING, fd_nullable = True\<rparr>],
           b_rows = [[SC_String ''C''], [SC_String ''A'']]\<rparr>]"

definition example_wide_execution :: "unit ExecEnv" where
  "example_wide_execution =
     example_execution (\<lambda>table. [example_long_batch [[SC_Timestamp 10, SC_String ''A'', SC_Int 2]]]) (\<lambda>q. example_members)"

definition wide_columns :: "exn + batch list \<Rightarrow> string list list" where
  "wide_columns r = (case r of Inl e \<Rightarrow> [] | Inr bs \<Rightarrow> map (\<lambda>b. map fd_name (b_fields b)) bs)"

lemma merge_one_sample:
  "sm_pivot_key s \<in> set labels \<Longrightarrow>
     merge_runs labels [[s]] ([], []) = Inr [[(sm_row_key s, wide_cells labels [(sm_pivot_key s, activeValue (sm_value s))])]]"
  by (simp add: merge_runs.simps flush_rows_def append_row_def least_time_def umap_emplace_def)

lemma wide_columns_depend_on_the_execution:
  "wide_columns (executeQuery example_wide_execution example_wide_plan) = [[''time'', ''A'']]"
  "wide_columns (bindE (executeStream example_wide_execution example_wide_plan) drain) = [[''time'', ''C'', ''A'']]"
  by (simp_all add: executeQuery_def example_wide_plan_def execute_scan_def example_member_scan_def example_physical_scan_def
      is_time_series_def fetchBackendPages_def drain_def example_execution_def example_wide_execution_def qualify_scan_def
      resolve_subquery_def extractInSubqueryValues_def membership_value_def example_members_def example_eval_def
      execute_pivot_def pivot_env_def pivotLongStream_def ingest_stream_def ingest_batch_def ingest_columns_def ingest_sample_def note_type_def field_index_def
      example_lookup_def example_long_def example_long_batch_def umap_emplace_def readSortedPivotRuns_def merge_one_sample
      stream_scan_def pivot_resolved_def backend_stream_def whole_stream_def pivotLabels_def requestedPvs_def add_label_def wide_fields_def wide_batch_def wide_columns_def stable_sort_def)

section \<open>Joins with an empty side\<close>

lemma join_of_an_empty_side:
  assumes "combineBatches (xe_status env) left = Inr a" and "combineBatches (xe_status env) right = Inr b"
    and "is_empty_side a \<noteq> is_empty_side b" and "t = INNER \<or> is_empty_side b"
  shows "execute_join env t cond left right = Inr [\<lparr>b_fields = [], b_rows = []\<rparr>]"
  using assms by (auto simp: execute_join_def joinBatches_def)

text \<open>What the select list of a statement over a join starts with: \<open>SELECT *\<close> is projected by name, a list by expressions.\<close>

definition selects_column :: "PhysicalProject \<Rightarrow> string \<Rightarrow> string \<Rightarrow> bool" where
  "selects_column p what c =
     (pj_distinct_on p = [] \<and>
      ((\<exists>cs. pj_expressions p = [] \<and> pj_columns p = c # cs \<and> what = ''Projection'') \<or>
       (\<exists>q es. pj_expressions p = E_Column q # es \<and> qc_name q = c \<and> what = ''Expression'')))"

lemma project_without_columns:
  assumes "selects_column p what c" and "ee_gfi (xe_eval env) [] c = None"
  shows "execute_project env p [\<lparr>b_fields = [], b_rows = []\<rparr>] =
    Inl (RuntimeError (what @ '' references unknown column: '' @ c))"
  using assms
  by (auto simp: selects_column_def execute_project_def project_batches_def applyProjection_def project_batch_def
      projected_index_def field_index_def applyExpressionProjection_def project_expressions_def expression_column_def)

text \<open>C14. A join with an empty side fails instead of giving no rows: when one side has rows and the other has none (the
  right one, for a left outer join), the join of every kind gives a batch without columns, and the projection of the
  statement throws that its first column is unknown, in the tree and in the stream.\<close>

theorem join_with_an_empty_side_throws:
  assumes "execute env l = Inr left" and "execute env r = Inr right"
    and "combineBatches (xe_status env) left = Inr a" and "combineBatches (xe_status env) right = Inr b"
    and "is_empty_side a \<noteq> is_empty_side b" and "t = INNER \<or> is_empty_side b"
    and "selects_column p what c" and "ee_gfi (xe_eval env) [] c = None"
    and "n = P_HashJoin t cond w l r \<or> n = P_NestedLoopJoin t cond pushed l r \<or> n = P_BlockNestedLoopJoin t cond w l r"
  shows "executeQuery env (P_Project p n) = Inl (RuntimeError (what @ '' references unknown column: '' @ c)) \<and>
    executeStream env (P_Project p n) = Inl (RuntimeError (what @ '' references unknown column: '' @ c))"
proof -
  have "execute env n = Inr [\<lparr>b_fields = [], b_rows = []\<rparr>]"
    using assms(9) join_of_an_empty_side [OF assms(3-6)] assms(1,2) by auto
  then have x: "execute env (P_Project p n) = Inl (RuntimeError (what @ '' references unknown column: '' @ c))"
    using project_without_columns [OF assms(7,8)] by simp
  moreover have "makeStreamingPlan env n = Inr None" using assms(9) by auto
  ultimately show ?thesis by (simp add: executeQuery_def)
qed

text \<open>\<open>SELECT *\<close> over the join of a table of two numbers with an empty one.\<close>

definition example_empty_join :: "unit PhysicalNode" where
  "example_empty_join =
     P_NestedLoopJoin INNER \<lparr>jc_left_column = ''a.v'', jc_right_column = ''b.v''\<rparr> True
       (P_Scan (example_physical_scan\<lparr>pt_table_name := ''a'', pt_table_alias := ''a'', pt_qualify_output := True\<rparr>))
       (P_Scan (example_physical_scan\<lparr>pt_table_name := ''b'', pt_table_alias := ''b'', pt_qualify_output := True\<rparr>))"

definition example_star :: PhysicalProject where
  "example_star =
     \<lparr>pj_columns = [''a.v'', ''b.v''], pj_expressions = [], pj_names = [], pj_distinct = False, pj_distinct_on = []\<rparr>"

definition example_join_execution :: "unit ExecEnv" where
  "example_join_execution =
     example_execution (\<lambda>table. if table = ''a'' then [example_numbers [SC_Int 1, SC_Int 2]] else []) (\<lambda>q. Inr [])"

theorem join_with_an_empty_side_throws_witness:
  "executeQuery example_join_execution (P_Project example_star example_empty_join) =
     Inl (RuntimeError ''Projection references unknown column: a.v'')"
proof -
  let ?scan = "\<lambda>t. P_Scan (example_physical_scan\<lparr>pt_table_name := t, pt_table_alias := t, pt_qualify_output := True\<rparr>)"
  have l: "\<exists>b. execute example_join_execution (?scan ''a'') = Inr [b] \<and> b_rows b \<noteq> []"
    and r: "execute example_join_execution (?scan ''b'') = Inr []"
    by (simp_all add: execute_scan_def example_physical_scan_def is_time_series_def fetchBackendPages_def drain_def
        example_join_execution_def example_execution_def example_numbers_def qualify_scan_def qualifyBatchColumns_def)
  obtain b where b: "execute example_join_execution (?scan ''a'') = Inr [b]" "b_rows b \<noteq> []" using l by blast
  have p: "selects_column example_star ''Projection'' ''a.v''" "ee_gfi (xe_eval example_join_execution) [] ''a.v'' = None"
    by (simp_all add: selects_column_def example_star_def example_join_execution_def example_execution_def example_eval_def
        example_lookup_def)
  show ?thesis
    using join_with_an_empty_side_throws [OF b(1) r _ _ _ _ p, of "Some b" None INNER example_empty_join] b(2)
    by (auto simp: combineBatches_def is_empty_side_def example_empty_join_def)
qed

section \<open>The rows of a union\<close>

lemma batch_of_columns_length: "length (b_rows (batch_of_columns n cols)) = n" "b_fields (batch_of_columns n cols) = map fst cols"
  by (simp_all add: batch_of_columns_def)

lemma mapE_rel: "mapE f xs = Inr ys \<Longrightarrow> (\<And>x y. f x = Inr y \<Longrightarrow> g y = h x) \<Longrightarrow> map g ys = map h xs"
  by (induction xs arbitrary: ys) (auto split: sum.splits)

lemma conform_column_field: "conform_column env b (i, f) = Inr c \<Longrightarrow> fst c = f"
  by (auto simp: conform_column_def Let_def split: if_splits sum.splits)

lemma conformed:
  assumes "conformBatch env schema b = Inr c"
  shows "b_fields c = schema" "length (b_rows c) = length (b_rows b)"
proof -
  obtain cols where cols: "mapE (conform_column env b) (enumerate 0 schema) = Inr cols"
    "c = batch_of_columns (length (b_rows b)) cols"
    using assms by (auto simp: conformBatch_def map_sum_Inr)
  have "map fst cols = map snd (enumerate 0 schema)"
    by (rule mapE_rel [OF cols(1)]) (metis conform_column_field prod.collapse)
  then show "b_fields c = schema" "length (b_rows c) = length (b_rows b)"
    by (simp_all add: cols(2) batch_of_columns_length)
qed

lemma unify_names:
  assumes "foldE (unify_step env) result (enumerate k branches) = Inr result'"
  shows "case result of
      Some schema \<Rightarrow> \<exists>schema'. result' = Some schema' \<and> map fd_name schema' = map fd_name schema
    | None \<Rightarrow> if concat branches = [] then result' = None
        else \<exists>schema'. result' = Some schema' \<and> map fd_name schema' = map fd_name (b_fields (hd (concat branches)))"
  using assms
proof (induction branches arbitrary: result k)
  case Nil
  then show ?case by (auto split: option.splits)
next
  case (Cons branch branches)
  obtain mid where mid: "unify_step env result (k, branch) = Inr mid"
    "foldE (unify_step env) mid (enumerate (Suc k) branches) = Inr result'"
    using Cons.prems by (auto split: sum.splits)
  note IH = Cons.IH [OF mid(2)]
  show ?case
  proof (cases branch)
    case Nil
    then have "mid = result" using mid(1) by (simp add: unify_step_def)
    then show ?thesis using IH Nil by (auto split: option.splits)
  next
    case (Cons b bs)
    show ?thesis
    proof (cases result)
      case None
      then have "mid = Some (b_fields b)" using mid(1) Cons by (simp add: unify_step_def)
      then show ?thesis using IH None Cons by simp
    next
      case (Some schema)
      then obtain fs where fs: "mid = Some fs" "mapE (unify_field env (k + 1)) (zip schema (b_fields b)) = Inr fs"
        "length schema = length (b_fields b)"
        using mid(1) Cons by (auto simp: unify_step_def map_sum_Inr split: if_splits)
      have "map fd_name fs = map (fd_name \<circ> fst) (zip schema (b_fields b))"
        by (rule mapE_rel [OF fs(2)]) (auto simp: unify_field_def split: option.splits)
      also have "\<dots> = map fd_name (map fst (zip schema (b_fields b)))" by simp
      also have "\<dots> = map fd_name schema" using fs(3) by simp
      finally show ?thesis using IH Some fs(1) by auto
    qed
  qed
qed

text \<open>A \<open>UNION ALL\<close> that succeeds conforms its branches: every batch of the result has one schema, whose names are
  those of the first batch of the first branch that has one, and the batches of the branches come out in order with
  all their rows.\<close>

theorem union_all_conforms:
  assumes "union_batches env False branches = Inr out"
  shows "\<exists>schema. (\<forall>b\<in>set out. b_fields b = schema) \<and>
    (concat branches \<noteq> [] \<longrightarrow> map fd_name schema = map fd_name (b_fields (hd (concat branches)))) \<and>
    map (length \<circ> b_rows) out = map (length \<circ> b_rows) (concat branches)"
proof (cases "concat branches = []")
  case True
  then have "unifySchemas env branches = Inr None \<or> (\<exists>e. unifySchemas env branches = Inl e)"
    using unify_names [of env None 0 branches] by (cases "unifySchemas env branches") (auto simp: unifySchemas_def)
  then have "out = []" using assms by (auto simp: union_batches_def)
  then show ?thesis using True by simp
next
  case False
  obtain result where r: "unifySchemas env branches = Inr result"
    using assms by (cases "unifySchemas env branches") (auto simp: union_batches_def)
  then obtain schema where s: "result = Some schema" "map fd_name schema = map fd_name (b_fields (hd (concat branches)))"
    using unify_names [of env None 0 branches result] unfolding unifySchemas_def option.case if_not_P [OF False] by blast
  then have m: "mapE (conformBatch env schema) (concat branches) = Inr out"
    using assms r by (auto simp: union_batches_def map_sum_Inr)
  have "map b_fields out = map (\<lambda>b. schema) (concat branches)" by (rule mapE_rel [OF m]) (rule conformed(1))
  then have "\<forall>x\<in>set (map b_fields out). x = schema" by auto
  moreover have "map (length \<circ> b_rows) out = map (length \<circ> b_rows) (concat branches)"
    by (rule mapE_rel [OF m]) (simp add: conformed(2))
  ultimately show ?thesis using s(2) by auto
qed

theorem union_all_conforms_witness:
  "\<exists>schema. map fd_name schema = [''v''] \<and>
     union_batches example_join_execution False [[], [example_numbers [SC_Int 1]],
       [example_numbers [], \<lparr>b_fields = [\<lparr>fd_name = ''w'', fd_type = AT_NA, fd_nullable = True\<rparr>], b_rows = [[SC_Null]]\<rparr>]] =
     Inr [\<lparr>b_fields = schema, b_rows = [[SC_Int 1]]\<rparr>, \<lparr>b_fields = schema, b_rows = []\<rparr>, \<lparr>b_fields = schema, b_rows = [[SC_Null]]\<rparr>]"
proof -
  let ?branches = "[[], [example_numbers [SC_Int 1]],
       [example_numbers [], \<lparr>b_fields = [\<lparr>fd_name = ''w'', fd_type = AT_NA, fd_nullable = True\<rparr>], b_rows = [[SC_Null]]\<rparr>]]"
  let ?schema = "[\<lparr>fd_name = ''v'', fd_type = AT_INT64, fd_nullable = True\<rparr>]"
  have u: "union_batches example_join_execution False ?branches =
     Inr [\<lparr>b_fields = ?schema, b_rows = [[SC_Int 1]]\<rparr>, \<lparr>b_fields = ?schema, b_rows = []\<rparr>, \<lparr>b_fields = ?schema, b_rows = [[SC_Null]]\<rparr>]"
    by (simp add: union_batches_def unifySchemas_def unify_step_def unify_field_def unifyTypes_def example_numbers_def
        conformBatch_def conform_column_def batch_column_def batch_of_columns_def)
  obtain schema where "\<forall>b\<in>set [\<lparr>b_fields = ?schema, b_rows = [[SC_Int 1]]\<rparr>, \<lparr>b_fields = ?schema, b_rows = []\<rparr>,
      \<lparr>b_fields = ?schema, b_rows = [[SC_Null]]\<rparr>]. b_fields b = schema" "map fd_name schema = [''v'']"
    using union_all_conforms [OF u] by (auto simp: example_numbers_def)
  then show ?thesis using u by auto
qed

end
