(* ===== verification/Spec2Isabelle.thy ===== *)
theory Spec2Isabelle
  imports Controller Queued_Writer Time_Windows Predicates
    Grouped_Aggregator Joins Expression_Safety Plan_Required Window_Merge
    Window_Scan_Facts Query_Planner Connection_Pool
    Plan_Execution
begin

text \<open>
  A verification library for \<open>mldp-pvxs-driver\<close>, a C++ program with two halves.  The \<^emph>\<open>driver\<close> moves
  samples: readers push batches onto an event bus, the controller offers each batch to the channel
  processors that asked for its source and routes it to writers, and every writer queues its items for
  its workers.  The \<^emph>\<open>query engine\<close> answers SQL over the stored samples: a statement is bound, type
  checked, planned, rewritten and executed over Arrow record batches.  Paths below are relative to the
  repository's source tree; a name in a theory is the name in the code unless it clashes with HOL.

  \<^bold>\<open>The driver.\<close>

  \<^item> \<^verbatim>\<open>Prelude\<close>: machine integers, associative containers, loops that may throw, shared list lemmas.
  \<^item> \<^verbatim>\<open>Bus\<close>: samples, columns, batches, payloads (\<^verbatim>\<open>include/util/bus/\<close>).
  \<^item> \<^verbatim>\<open>Route_Table\<close>: \<^verbatim>\<open>src/controller/RouteTable.cpp\<close>; which writer accepts which reader.
  \<^item> \<^verbatim>\<open>Input_Buffer\<close>: \<^verbatim>\<open>src/processor/InputBuffer.cpp\<close>; one slot per source, alignment, trimming and
    triggers.  The lemmas give the slot as a function of the whole input (its newest samples) and
    characterise when a trigger fires.
  \<^item> \<^verbatim>\<open>Channel_Processor\<close>: \<^verbatim>\<open>src/processor/ChannelProcessor.cpp\<close> and its configuration, as a step
    relation over \<open>push\<close>, the pool task and \<open>stop\<close>; the pending counter counts the tasks exactly, and
    \<open>stop\<close> can miss its wake-up.
  \<^item> \<^verbatim>\<open>Processor_Graph\<close> and \<^verbatim>\<open>Controller\<close>: \<^verbatim>\<open>src/controller/MLDPPVXSController.cpp\<close>; the cycle search
    over processors against graph cycles, then the bus queue, its consumer, dispatch, \<open>stop\<close> and \<open>forceStop\<close>
    as interleaved steps with their sleeps and notifications; a stop finishes and loses nothing.
  \<^item> \<^verbatim>\<open>Enrichers\<close>: \<^verbatim>\<open>src/enricher/impl/\<close>; the four built-in enrichers and the chain a writer runs.
  \<^item> \<^verbatim>\<open>Queued_Writer\<close>: \<^verbatim>\<open>src/writer/BaseQueuedWriter.cpp\<close>; pushers, workers and \<open>stop\<close> as threads of a step
    relation: bounds of the queue, order within a channel, what a stop drains and what can be lost.
  \<^item> \<^verbatim>\<open>Connection_Pool\<close>: \<^verbatim>\<open>src/pool/\<close>; the configuration of the gRPC pools, and acquisition and release through
    handles as interleaved steps: exclusive, bounded, never stuck.

  \<^bold>\<open>The query engine, execution.\<close>

  \<^item> \<^verbatim>\<open>Time_Windows\<close>, \<^verbatim>\<open>Like_Match\<close>, \<^verbatim>\<open>Predicates\<close>, \<^verbatim>\<open>Batches\<close>, \<^verbatim>\<open>Joins\<close>, \<^verbatim>\<open>Expressions\<close>: the routines of
    \<^verbatim>\<open>src/query/executor/ExecutorUtils.cpp\<close>.  Each optimised routine is related to a plain meaning:
    the normalised windows to the union of the intervals, the backtracking matcher to the language of
    the pattern, three-valued groups to Kleene logic, the hash join to the nested loop, \<open>ORDER BY\<close>
    to a stable sort by printed text, vectorised conditions to row-wise evaluation.
  \<^item> \<^verbatim>\<open>Double_Order\<close>, \<^verbatim>\<open>Aggregate_Value\<close>, \<^verbatim>\<open>Accumulators\<close>, \<^verbatim>\<open>Grouped_Aggregator\<close>: the values of the
    aggregation, the accumulators of \<^verbatim>\<open>src/query/AggregateRegistry.cpp\<close> and
    \<^verbatim>\<open>src/query/executor/GroupedAggregator.cpp\<close>; spilling to partitions refines grouping in memory.
  \<^item> \<^verbatim>\<open>Stable_Sort\<close>: \<open>std::stable_sort\<close> over a comparator; its locale states a strict weak order and is
    interpreted by the comparators of \<^verbatim>\<open>Batches\<close> and \<^verbatim>\<open>Window_Order\<close>.
  \<^item> \<^verbatim>\<open>Window_Order\<close>, \<^verbatim>\<open>Window_Frames\<close>, \<^verbatim>\<open>Window_Calls\<close>, \<^verbatim>\<open>Window_Operator\<close>:
    \<^verbatim>\<open>src/query/executor/WindowEvaluator.cpp\<close>; the sort, partitions, frames, calls, and the operator
    that buffers, spills sorted runs and merges them.  \<^verbatim>\<open>Window_Frame_Facts\<close>, \<^verbatim>\<open>Window_Sums\<close>,
    \<^verbatim>\<open>Window_Choice\<close> and \<^verbatim>\<open>Window_Ranks\<close> relate the sliding algorithms to their definition on every
    frame; \<^verbatim>\<open>Window_Compose\<close>, \<^verbatim>\<open>Window_Partitions\<close> and \<^verbatim>\<open>Window_Merge\<close> show that spilling changes nothing.
  \<^item> \<^verbatim>\<open>Window_Scan\<close> and \<^verbatim>\<open>Window_Scan_Facts\<close>: the scan of time windows
    (\<^verbatim>\<open>src/query/executor/WindowBackendScanRecordBatchStream.cpp\<close>, the serial loop of
    \<^verbatim>\<open>src/query/executor/scan/WideTableScan.cpp\<close>); the parallel shards deliver every sample of a window once
    when windows and slices are whole seconds; the serial loop visits the same batches of the back end but does
    not cut the last slice at the end of the window.
  \<^item> \<^verbatim>\<open>Wide_Pivot\<close>: the pivot of long samples into one column per process variable
    (\<^verbatim>\<open>src/query/executor/scan/WideTableScan.cpp\<close>); spilled runs and their merge give the table of the samples.
  \<^item> \<^verbatim>\<open>Plan_Execution\<close>: \<^verbatim>\<open>src/query/QueryExecutor.cpp\<close>, the execution states of
    \<^verbatim>\<open>src/query/executor/relational/\<close> and \<^verbatim>\<open>src/query/executor/scan/\<close>, and the streams of \<^verbatim>\<open>src/query/executor/\<close>; the
    stream a client pulls delivers what the materialised tree gives, for the plans of \<open>streams_agree\<close>, and a join
    with an empty side fails in both.

  \<^bold>\<open>The query engine, planning.\<close>

  \<^item> \<^verbatim>\<open>Binding\<close> and \<^verbatim>\<open>Expression_Safety\<close>: \<^verbatim>\<open>src/query/ExpressionRegistry.cpp\<close> and the expression part of
    \<^verbatim>\<open>src/query/planner/Binder.cpp\<close>; what the binder accepts the evaluator evaluates.
  \<^item> \<^verbatim>\<open>Logical_Plan\<close>, \<^verbatim>\<open>Planner\<close>, \<^verbatim>\<open>Plan_Passes\<close>, \<^verbatim>\<open>Column_Pruning\<close>: \<^verbatim>\<open>include/query/plan/\<close> and
    \<^verbatim>\<open>src/query/planner/\<close>, from the bound statement to the rewritten plan, in the order of
    \<open>QueryPlanner::plan\<close>.  \<^verbatim>\<open>Plan_Facts\<close> and \<^verbatim>\<open>Plan_Required\<close> show that the passes keep the rows of the plan,
    the form joins end up in, and that the final check decides the required columns of the statement.
  \<^item> \<^verbatim>\<open>Physical_Plan\<close> and \<^verbatim>\<open>Query_Planner\<close>: \<^verbatim>\<open>src/query/planner/PhysicalPlanner.cpp\<close>,
    \<^verbatim>\<open>CorrelatedPushOptimizer.cpp\<close> and \<^verbatim>\<open>src/query/QueryPlanner.cpp\<close>; the lowering, the row budget of \<open>LIMIT\<close>,
    the text of \<open>EXPLAIN\<close> and statements with \<open>UNION\<close>.  Row budgets and the correlated push keep the rows, a
    chain of set operations is a fold from the left, and a plan warning is lost on the way.

  \<^bold>\<open>How code is rendered.\<close>  A class is a record and its methods are functions on it, in the code's order of
  tests; an exception is a value of \<open>exn\<close> in a sum, a null pointer an option or a constructor of its own.
  A hash map is an association list with distinct keys, in an arbitrary order that no theorem relies on.
  Signed 64-bit results that overflow raise \<open>SignedOverflow\<close>, saturating and unsigned arithmetic is written
  out.  A \<open>double\<close> is its IEEE-754 bit pattern; its arithmetic, where it occurs, is a parameter.
  Threads are steps of an inductive relation whose atoms are the critical sections and atomic
  accesses of the code; the invariants are proved by rule induction over every interleaving.

  \<^bold>\<open>Termination and fuel.\<close>  The loops terminate by structural recursion or by a measure (rows left, width of a
  binary search, the depth left below \<open>kMaxDepth\<close> in re-partitioning, the rows left in the runs of
  a merge).  Only the depth-first search of \<^verbatim>\<open>Processor_Graph\<close> takes fuel: the number of
  processors, which \<open>dfs_enough\<close> proves to suffice.  The window merge stops when every cursor is exhausted.

  \<^bold>\<open>Parameters.\<close>  Code outside the repository is an argument of the definitions: \<open>fnmatch\<close>, hashes,
  Arrow's casts, comparison kernels, name lookup and printing, memory estimates, time-zone conversion, the
  algorithm of a processor, the binding of a whole \<open>SELECT\<close>, the back end of a scan and the statements that are not queries, the SQLite table and random choice of the shard-slot enricher, and
  the files a spill manager writes.  Laws required of them are hypotheses, each met by a witness.

  \<^bold>\<open>Not modelled.\<close>  The SQL grammar and lexer (Bison tables); the terminal front end, pager,
  formatter and wizard; the protocol clients behind readers, writers and queries (PVAccess, Channel Access,
  HTTP, HDF5, gRPC and protobuf conversion); YAML configuration access; metrics and logging; the
  embedded Python interpreter; the Arrow IPC files of the catalog and the spill manager; within modelled files, the binding of
  whole statements (subqueries, aggregates and window clauses), the conversion between Arrow arrays
  and values, and progress reporting.  These are input and output around the
  modelled routines, or depend on libraries whose behaviour the source does not state.
\<close>

end
